(* ===== verification/Prelude.thy ===== *)
theory Prelude
  imports Main "HOL-Library.Word" "HOL-Library.Monad_Syntax"
begin

text \<open>
  What every component of the development shares: the names of the machine types, the
  collections of simplification rules, little-endian byte strings of machine words with
  their round trip, and a few facts on bits, lists and the option monad.

  A computation of the C code is a HOL function into an option type.  The value None
  says that the C code has no defined behaviour at that point (an access outside the
  allocated bytes, a call through a null function pointer, a shift by the width of the
  type) or that an explicit loop bound ran out.  A failing call of the C code is not
  None: it is a defined result whose first component is False.
\<close>

unbundle bit_operations_syntax

type_synonym byte = "8 word"
type_synonym u32 = "32 word"
type_synonym u64 = "64 word"

text \<open>
  The collections: \<open>pb_consts\<close> unfolds the numeric constants of pb.h, \<open>le_simps\<close> evaluates
  little-endian byte strings, \<open>outcome_simps\<close> opens a successful computation.
\<close>

named_theorems pb_consts "numeric constants of pb.h"
named_theorems le_simps "little-endian byte strings"
named_theorems outcome_simps "case analysis of a computation that is defined"

lemma bind_Some_iff [outcome_simps]:
  "Option.bind x f = Some r \<longleftrightarrow> (\<exists>y. x = Some y \<and> f y = Some r)"
  by (simp add: Option.bind_eq_Some_conv)

lemma bind_None_iff [outcome_simps]:
  "Option.bind x f = None \<longleftrightarrow> x = None \<or> (\<exists>y. x = Some y \<and> f y = None)"
  by (cases x) auto


lemma ex_bool [simp]: "\<exists>b. b" "\<exists>b. \<not> b"
  by auto


section \<open>Unsigned sizes\<close>

text \<open>
  A \<open>size_t\<close> of the 64-bit targets is a natural number below \<open>2 ^ 64\<close>; where an addition
  may wrap around, the model writes the wrap-around out.
\<close>

definition SIZE_MOD :: nat where
  "SIZE_MOD = 2 ^ 64"

definition size_add :: "nat \<Rightarrow> nat \<Rightarrow> nat" where
  "size_add a b = (a + b) mod SIZE_MOD"

lemma SIZE_MOD_pos [simp]: "0 < SIZE_MOD"
  by (simp add: SIZE_MOD_def)

lemma size_add_small [simp]: "a + b < SIZE_MOD \<Longrightarrow> size_add a b = a + b"
  by (simp add: size_add_def)

lemma size_add_less [simp]: "size_add a b < SIZE_MOD"
  by (simp add: size_add_def)

lemma size_add_0 [simp]: "a < SIZE_MOD \<Longrightarrow> size_add a 0 = a"
  by (simp add: size_add_def)

lemma size_add_assoc: "size_add (size_add a b) c = size_add a (b + c)"
  by (simp add: size_add_def mod_add_left_eq add.assoc)


section \<open>Bits\<close>

text \<open>A byte is a continuation byte of a varint when its top bit is set.\<close>

lemma byte_and_128_eq_0_iff: "(b :: byte) AND 0x80 = 0 \<longleftrightarrow> \<not> bit b 7"
  using and_exp_eq_0_iff_not_bit [of b 7] by simp

lemma byte_and_127: "(b :: byte) AND 0x7F = take_bit 7 b"
  by (simp add: take_bit_eq_mask mask_eq_exp_minus_1)

lemma byte_and_127_small: "\<not> bit (b :: byte) 7 \<Longrightarrow> b AND 0x7F = b"
  unfolding byte_and_127
  apply (rule bit_word_eqI)
  apply (simp add: bit_take_bit_iff)
  subgoal for n by (cases "n = 7") auto
  done

lemma byte_and_255 [simp]: "(b :: byte) AND 0xFF = b"
proof -
  have "(0xFF :: byte) = - 1" by simp
  then show ?thesis by (simp only: and.right_neutral)
qed


section \<open>Little-endian byte strings\<close>

text \<open>
  \<open>le_bytes n w\<close> is the low \<open>n\<close> bytes of the word \<open>w\<close>, least significant byte first;
  \<open>of_le\<close> reads such a string back.
\<close>

definition le_bytes :: "nat \<Rightarrow> 'a::len word \<Rightarrow> byte list" where
  "le_bytes n w = map (\<lambda>i. ucast (drop_bit (8 * i) w)) [0..<n]"

fun of_le :: "byte list \<Rightarrow> 'a::len word" where
  "of_le [] = 0"
| "of_le (b # bs) = ucast b OR push_bit 8 (of_le bs)"

lemma length_le_bytes [simp]: "length (le_bytes n w) = n"
  by (simp add: le_bytes_def)

lemma le_bytes_0 [simp, le_simps]: "le_bytes 0 w = []"
  by (simp add: le_bytes_def)

lemma le_bytes_Suc [le_simps]: "le_bytes (Suc n) w = ucast w # le_bytes n (drop_bit 8 w)"
  by (simp add: le_bytes_def upt_rec [of 0] map_Suc_upt [symmetric] del: upt_Suc)
     (simp add: map_Suc_upt [symmetric] o_def algebra_simps del: upt_Suc)

lemma of_le_le_bytes: "of_le (le_bytes n w) = take_bit (8 * n) (w :: 'a::len word)"
proof (induction n arbitrary: w)
  case 0
  then show ?case by simp
next
  case (Suc n)
  have "ucast (ucast w :: byte) OR push_bit 8 (take_bit (8 * n) (drop_bit 8 w))
      = take_bit (8 * Suc n) w"
    by (rule bit_word_eqI) (auto simp: bit_simps)
  then show ?case by (simp add: le_bytes_Suc Suc.IH)
qed

lemma of_le_le_bytes_id [simp]:
  "LENGTH('a) \<le> 8 * n \<Longrightarrow> of_le (le_bytes n w) = (w :: 'a::len word)"
  by (simp add: of_le_le_bytes take_bit_word_eq_self)

end
