(* ===== verification/Leb128.thy ===== *)
theory Leb128
  imports Prelude
begin

text \<open>
  The base-128 numbers that the protobuf wire format and the LevelDB files share.  \<open>leb n\<close> is
  the specification: the base-128 digits of \<open>n\<close>, least significant first, with the top bit
  set in all bytes but the last.  The encoders of pb_encode.c and util/coding.cc produce it
  and the decoders of both libraries read it back; the facts on one digit below are what
  one round of each of those loops needs.
\<close>

section \<open>The format\<close>

fun leb :: "nat \<Rightarrow> byte list" where
  "leb n = (if n < 128 then [of_nat n] else (of_nat (n mod 128) OR 0x80) # leb (n div 128))"

declare leb.simps [simp del]

lemma leb_small: "n < 128 \<Longrightarrow> leb n = [of_nat n]"
  by (subst leb.simps) simp

lemma leb_big: "128 \<le> n \<Longrightarrow> leb n = (of_nat (n mod 128) OR 0x80) # leb (n div 128)"
  by (subst leb.simps) simp

lemma leb_nonempty [simp]: "leb n \<noteq> []"
  by (subst leb.simps) simp

lemma leb_length_le: "0 < k \<Longrightarrow> n < 128 ^ k \<Longrightarrow> length (leb n) \<le> k"
proof (induction n arbitrary: k rule: leb.induct)
  case (1 n)
  show ?case
  proof (cases "n < 128")
    case True
    with "1.prems" show ?thesis by (simp add: leb_small)
  next
    case False
    with "1.prems" obtain j where k: "k = Suc j" and "0 < j"
      by (cases k; cases "k - 1") auto
    moreover have "n div 128 < 128 ^ j"
      using "1.prems"(2) k by (simp add: less_mult_imp_div_less mult.commute)
    ultimately show ?thesis using "1.IH" [OF False] False by (simp add: leb_big)
  qed
qed

lemma leb_length_gt: "128 ^ k \<le> n \<Longrightarrow> k < length (leb n)"
proof (induction n arbitrary: k rule: leb.induct)
  case (1 n)
  show ?case
  proof (cases k)
    case (Suc j)
    with "1.prems" have big: "128 \<le> n"
      by (metis dual_order.trans power_Suc mult.right_neutral mult_le_mono2 one_le_numeral one_le_power)
    moreover have "128 ^ j \<le> n div 128"
      using "1.prems" Suc by (simp add: less_eq_div_iff_mult_less_eq mult.commute)
    ultimately show ?thesis using "1.IH" Suc by (simp add: leb_big)
  qed simp
qed

lemma of_nat_or_128:
  assumes "d < 128"
  shows "(of_nat d OR 0x80 :: byte) AND 0x7F = of_nat d" and "bit (of_nat d OR 0x80 :: byte) 7"
proof -
  have "take_bit 7 (of_nat d :: byte) = of_nat d"
    using assms by (simp add: take_bit_of_nat take_bit_nat_eq_self)
  then show "(of_nat d OR 0x80 :: byte) AND 0x7F = of_nat d"
    by (simp add: byte_and_127)
  show "bit (of_nat d OR 0x80 :: byte) 7" by (simp add: bit_or_iff)
qed

lemma of_nat_small_not_bit7:
  assumes "d < 128"
  shows "\<not> bit (of_nat d :: byte) 7" and "(of_nat d :: byte) AND 0x7F = of_nat d"
proof -
  have t: "take_bit 7 (of_nat d :: byte) = of_nat d"
    using assms by (simp add: take_bit_of_nat take_bit_nat_eq_self)
  then show "(of_nat d :: byte) AND 0x7F = of_nat d" by (simp add: byte_and_127)
  from t show "\<not> bit (of_nat d :: byte) 7" by (metis bit_take_bit_iff order.irrefl)
qed


section \<open>One round of a decoder\<close>

text \<open>
  A number is its low digit or-ed with the shifted rest, at any width: what one round of
  the decoding loops adds.
\<close>

lemma word_digit: "(of_nat n :: 'a::len word) = of_nat (n mod 128) OR push_bit 7 (of_nat (n div 128))"
proof -
  have "n mod 128 = take_bit 7 n" "n div 128 = drop_bit 7 n"
    by (simp_all add: take_bit_eq_mod drop_bit_eq_div)
  then show ?thesis
    by (auto intro!: bit_word_eqI simp: bit_simps)
qed

lemma ucast_of_nat_byte: "d < 128 \<Longrightarrow> (ucast (of_nat d :: byte) :: 'a::len word) = of_nat d"
proof -
  assume "d < 128"
  then have "unat (of_nat d :: byte) = d" by (simp add: unat_of_nat)
  then show "(ucast (of_nat d :: byte) :: 'a word) = of_nat d" by (metis of_nat_unat)
qed

lemma digit_step:
  "r OR push_bit b (ucast ((of_nat (n mod 128) OR 0x80 :: byte) AND 0x7F)) OR
     push_bit (b + 7) (of_nat (n div 128)) = r OR push_bit b (of_nat n :: 'a::len word)"
proof -
  have "push_bit b (of_nat n :: 'a word)
      = push_bit b (of_nat (n mod 128)) OR push_bit (b + 7) (of_nat (n div 128))"
    by (subst word_digit [of n]) (simp add: push_bit_or add.commute)
  then show ?thesis
    by (simp add: of_nat_or_128 ucast_of_nat_byte or.assoc)
qed

lemma digit_last:
  "n < 128 \<Longrightarrow> (ucast ((of_nat n :: byte) AND 0x7F) :: 'a::len word) = of_nat n"
  by (simp only: of_nat_small_not_bit7(2) ucast_of_nat_byte)

lemma digits_left:
  fixes n w b :: nat
  assumes "128 \<le> n" and "n < 2 ^ (w - b)"
  shows "b + 7 < w \<and> n div 128 < 2 ^ (w - (b + 7))"
proof -
  have "\<not> w - b \<le> 7"
  proof
    assume "w - b \<le> 7"
    then have "(2::nat) ^ (w - b) \<le> 2 ^ 7" by (rule power_increasing) simp
    moreover have "(2::nat) ^ 7 = 128" by simp
    ultimately show False using assms by linarith
  qed
  then have d: "w - b = 7 + (w - (b + 7))" and lt: "b + 7 < w" by simp_all
  have "n < 2 ^ 7 * 2 ^ (w - (b + 7))" using assms(2) by (subst (asm) d) (simp only: power_add)
  then have "n < 2 ^ (w - (b + 7)) * 128" by simp
  then have "n div 128 < 2 ^ (w - (b + 7))" by (rule less_mult_imp_div_less)
  with lt show ?thesis by blast
qed

end
