(* ===== verification/CMemory.thy ===== *)
theory CMemory
  imports Prelude
begin

text \<open>
  The memory the C code works on: a partial map from addresses to bytes whose domain is
  the set of allocated bytes.  Addresses are integers, because the code forms addresses
  by adding signed offsets (\<open>size_offset\<close> of pb.h); the null pointer is 0.  A read or a
  write that touches a byte outside the domain is undefined behaviour, hence None.

  The laws of reading and writing are the locale \<open>byte_memory\<close>; the accesses to machine
  words of the little-endian LP64 targets are derived inside it and interpreted on the
  byte map.
\<close>

type_synonym addr = int
type_synonym mem = "addr \<Rightarrow> byte option"

definition NULL :: addr where
  "NULL = 0"

fun load_bytes :: "mem \<Rightarrow> addr \<Rightarrow> nat \<Rightarrow> byte list option" where
  "load_bytes m a 0 = Some []"
| "load_bytes m a (Suc n) =
     do { b \<leftarrow> m a; bs \<leftarrow> load_bytes m (a + 1) n; Some (b # bs) }"

fun store_bytes :: "mem \<Rightarrow> addr \<Rightarrow> byte list \<Rightarrow> mem option" where
  "store_bytes m a [] = Some m"
| "store_bytes m a (b # bs) =
     (if m a = None then None else store_bytes (m(a \<mapsto> b)) (a + 1) bs)"

text \<open>The bytes \<open>a .. a + n - 1\<close> are allocated; two ranges have no byte in common.\<close>

definition allocated :: "mem \<Rightarrow> addr \<Rightarrow> nat \<Rightarrow> bool" where
  "allocated m a n \<longleftrightarrow> {a ..< a + int n} \<subseteq> dom m"

definition disjoint :: "addr \<Rightarrow> nat \<Rightarrow> addr \<Rightarrow> nat \<Rightarrow> bool" where
  "disjoint a n b k \<longleftrightarrow> a + int n \<le> b \<or> b + int k \<le> a \<or> n = 0 \<or> k = 0"

definition load_word :: "nat \<Rightarrow> mem \<Rightarrow> addr \<Rightarrow> 'a::len word option" where
  "load_word n m a = map_option of_le (load_bytes m a n)"

definition store_word :: "nat \<Rightarrow> mem \<Rightarrow> addr \<Rightarrow> 'a::len word \<Rightarrow> mem option" where
  "store_word n m a w = store_bytes m a (le_bytes n w)"

text \<open>Typed accesses of the LP64 ABI: \<open>bool\<close> is one byte, \<open>uint32_t\<close> four, a pointer eight.\<close>

definition load_bool :: "mem \<Rightarrow> addr \<Rightarrow> bool option" where
  "load_bool m a = map_option (\<lambda>w. w \<noteq> (0 :: byte)) (load_word 1 m a)"

definition store_bool :: "mem \<Rightarrow> addr \<Rightarrow> bool \<Rightarrow> mem option" where
  "store_bool m a v = store_word 1 m a (if v then 1 else 0 :: byte)"

definition load_u32 :: "mem \<Rightarrow> addr \<Rightarrow> nat option" where
  "load_u32 m a = map_option unat (load_word 4 m a :: u32 option)"

definition store_u32 :: "mem \<Rightarrow> addr \<Rightarrow> nat \<Rightarrow> mem option" where
  "store_u32 m a v = store_word 4 m a (of_nat v :: u32)"

definition load_ptr :: "mem \<Rightarrow> addr \<Rightarrow> addr option" where
  "load_ptr m a = map_option uint (load_word 8 m a :: u64 option)"

definition store_ptr :: "mem \<Rightarrow> addr \<Rightarrow> addr \<Rightarrow> mem option" where
  "store_ptr m a p = store_word 8 m a (word_of_int p :: u64)"


section \<open>The laws of a byte memory\<close>

locale byte_memory =
  fixes load :: "'m \<Rightarrow> addr \<Rightarrow> nat \<Rightarrow> byte list option"
    and store :: "'m \<Rightarrow> addr \<Rightarrow> byte list \<Rightarrow> 'm option"
    and valid :: "'m \<Rightarrow> addr \<Rightarrow> nat \<Rightarrow> bool"
  assumes load_defined: "load m a n \<noteq> None \<longleftrightarrow> valid m a n"
    and store_defined: "store m a bs \<noteq> None \<longleftrightarrow> valid m a (length bs)"
    and load_len: "load m a n = Some bs \<Longrightarrow> length bs = n"
    and load_store: "store m a bs = Some m' \<Longrightarrow> load m' a (length bs) = Some bs"
    and load_frame: "store m a bs = Some m' \<Longrightarrow> disjoint a (length bs) b n \<Longrightarrow>
       load m' b n = load m b n"
    and valid_store: "store m a bs = Some m' \<Longrightarrow> valid m' b n = valid m b n"
begin

lemma store_total: "valid m a (length bs) \<Longrightarrow> \<exists>m'. store m a bs = Some m'"
  using store_defined by auto

lemma load_total: "valid m a n \<Longrightarrow> \<exists>bs. load m a n = Some bs \<and> length bs = n"
  using load_defined load_len by (metis not_None_eq)

lemma word_round_trip:
  assumes "store m a (le_bytes n (w :: 'a::len word)) = Some m'" and "LENGTH('a) \<le> 8 * n"
  shows "map_option of_le (load m' a n) = Some w"
  using load_store [OF assms(1)] assms(2) by simp

end

lemma load_bytes_length: "load_bytes m a n = Some bs \<Longrightarrow> length bs = n"
  by (induction m a n arbitrary: bs rule: load_bytes.induct) (auto simp: outcome_simps)

lemma allocated_0 [simp]: "allocated m a 0"
  by (simp add: allocated_def)

lemma allocated_Suc: "allocated m a (Suc n) \<longleftrightarrow> m a \<noteq> None \<and> allocated m (a + 1) n"
proof -
  have "{a ..< a + int (Suc n)} = insert a {a + 1 ..< a + 1 + int n}" by auto
  then show ?thesis by (auto simp: allocated_def)
qed

lemma load_bytes_defined: "load_bytes m a n \<noteq> None \<longleftrightarrow> allocated m a n"
  by (induction m a n rule: load_bytes.induct) (auto simp: outcome_simps allocated_Suc)

lemma store_bytes_dom: "store_bytes m a bs = Some m' \<Longrightarrow> dom m' = dom m"
proof (induction bs arbitrary: m a)
  case (Cons b bs)
  then have "m a \<noteq> None" and "dom m' = dom (m(a \<mapsto> b))"
    by (auto split: if_splits simp del: dom_fun_upd)
  then show ?case by auto
qed simp

lemma allocated_dom: "dom m' = dom m \<Longrightarrow> allocated m' a n = allocated m a n"
  by (simp add: allocated_def)

lemma store_bytes_defined: "store_bytes m a bs \<noteq> None \<longleftrightarrow> allocated m a (length bs)"
proof (induction bs arbitrary: m a)
  case (Cons b bs)
  have "m a \<noteq> None \<Longrightarrow> allocated (m(a \<mapsto> b)) (a + 1) (length bs) = allocated m (a + 1) (length bs)"
    by (rule allocated_dom) auto
  moreover have "(store_bytes (m(a \<mapsto> b)) (a + 1) bs \<noteq> None)
      = allocated (m(a \<mapsto> b)) (a + 1) (length bs)"
    by (rule Cons.IH)
  ultimately show ?case
    by (cases "m a = None") (simp_all add: allocated_Suc del: not_None_eq)
qed simp

lemma store_bytes_outside:
  "store_bytes m a bs = Some m' \<Longrightarrow> c < a \<or> a + int (length bs) \<le> c \<Longrightarrow> m' c = m c"
  by (induction bs arbitrary: m a) (fastforce split: if_splits)+

lemma load_bytes_cong:
  "(\<And>c. a \<le> c \<Longrightarrow> c < a + int n \<Longrightarrow> m' c = m c) \<Longrightarrow> load_bytes m' a n = load_bytes m a n"
proof (induction n arbitrary: a)
  case (Suc n)
  from Suc.prems have "m' a = m a" by simp
  moreover have "load_bytes m' (a + 1) n = load_bytes m (a + 1) n"
    by (rule Suc.IH) (simp add: Suc.prems)
  ultimately show ?case by simp
qed simp

lemma load_store_bytes: "store_bytes m a bs = Some m' \<Longrightarrow> load_bytes m' a (length bs) = Some bs"
proof (induction bs arbitrary: m a)
  case (Cons b bs)
  from Cons.prems have s: "store_bytes (m(a \<mapsto> b)) (a + 1) bs = Some m'"
    by (auto split: if_splits)
  from store_bytes_outside [OF s, of a] have "m' a = Some b" by simp
  moreover from s have "load_bytes m' (a + 1) (length bs) = Some bs" by (rule Cons.IH)
  ultimately show ?case by simp
qed simp

lemma load_bytes_frame:
  "store_bytes m a bs = Some m' \<Longrightarrow> disjoint a (length bs) b n \<Longrightarrow>
     load_bytes m' b n = load_bytes m b n"
  by (rule load_bytes_cong) (auto simp: disjoint_def intro: store_bytes_outside)

interpretation cmem: byte_memory load_bytes store_bytes allocated
  using load_bytes_defined store_bytes_defined load_bytes_length load_store_bytes
    load_bytes_frame allocated_dom [OF store_bytes_dom]
  by unfold_locales blast+


section \<open>Facts on the typed accesses\<close>

lemma allocated_mono:
  "allocated m a n \<Longrightarrow> a \<le> b \<Longrightarrow> b + int k \<le> a + int n \<Longrightarrow> allocated m b k"
  by (auto simp: allocated_def subset_iff)

lemma load_word_total: "allocated m a n \<Longrightarrow> \<exists>w. load_word n m a = Some w"
  using cmem.load_total by (fastforce simp: load_word_def)

lemma store_word_total: "allocated m a n \<Longrightarrow> \<exists>m'. store_word n m a w = Some m'"
  using cmem.store_total [of m a "le_bytes n w"] by (simp add: store_word_def)

lemma store_word_dom: "store_word n m a w = Some m' \<Longrightarrow> dom m' = dom m"
  by (simp add: store_word_def store_bytes_dom)

lemma load_store_word:
  "store_word n m a (w :: 'a::len word) = Some m' \<Longrightarrow> LENGTH('a) \<le> 8 * n \<Longrightarrow>
     load_word n m' a = Some w"
  unfolding store_word_def load_word_def by (rule cmem.word_round_trip)

lemma load_word_frame:
  "store_word n m a w = Some m' \<Longrightarrow> disjoint a n b k \<Longrightarrow> load_word k m' b = load_word k m b"
  by (simp add: store_word_def load_word_def cmem.load_frame)

lemma load_store_u32: "store_u32 m a v = Some m' \<Longrightarrow> v < 2 ^ 32 \<Longrightarrow> load_u32 m' a = Some v"
  unfolding store_u32_def load_u32_def
  by (drule load_store_word) (simp_all add: unat_of_nat)

lemma load_store_bool: "store_bool m a v = Some m' \<Longrightarrow> load_bool m' a = Some v"
  unfolding store_bool_def load_bool_def
  by (drule load_store_word) simp_all

lemma load_store_ptr:
  "store_ptr m a p = Some m' \<Longrightarrow> 0 \<le> p \<Longrightarrow> p < 2 ^ 64 \<Longrightarrow> load_ptr m' a = Some p"
  unfolding store_ptr_def load_ptr_def
  by (drule load_store_word) (simp_all add: uint_word_of_int_eq take_bit_int_eq_self)

end
