(* ===== verification/Pb_Types.thy ===== *)
theory Pb_Types
  imports CMemory
begin

text \<open>
  The common part of nanopb, Pods/nanopb/pb.h, as the targets of this repository compile
  it: \<open>PB_FIELD_32BIT\<close> and \<open>PB_NO_PACKED_STRUCTS\<close> are defined, \<open>PB_ENABLE_MALLOC\<close>,
  \<open>PB_BUFFER_ONLY\<close>, \<open>PB_NO_ERRMSG\<close> and \<open>PB_OLD_CALLBACK_STYLE\<close> are not (Target Support
  Files/nanopb/nanopb.xcconfig).  So \<open>pb_size_t\<close> is \<open>uint32_t\<close>.

  The sizes, offsets and tags of a field descriptor are constants of the generated code
  and never computed with in their own width: they are naturals here, and the bound
  \<open>2 ^ 32\<close> is a hypothesis where it matters.  The type byte is kept as a machine byte,
  because the code takes it apart with masks.
\<close>

section \<open>Field types\<close>

definition PB_LTYPE_VARINT :: byte where [pb_consts]: "PB_LTYPE_VARINT = 0x00"
definition PB_LTYPE_UVARINT :: byte where [pb_consts]: "PB_LTYPE_UVARINT = 0x01"
definition PB_LTYPE_SVARINT :: byte where [pb_consts]: "PB_LTYPE_SVARINT = 0x02"
definition PB_LTYPE_FIXED32 :: byte where [pb_consts]: "PB_LTYPE_FIXED32 = 0x03"
definition PB_LTYPE_FIXED64 :: byte where [pb_consts]: "PB_LTYPE_FIXED64 = 0x04"
definition PB_LTYPE_LAST_PACKABLE :: byte where [pb_consts]: "PB_LTYPE_LAST_PACKABLE = 0x04"
definition PB_LTYPE_BYTES :: byte where [pb_consts]: "PB_LTYPE_BYTES = 0x05"
definition PB_LTYPE_STRING :: byte where [pb_consts]: "PB_LTYPE_STRING = 0x06"
definition PB_LTYPE_SUBMESSAGE :: byte where [pb_consts]: "PB_LTYPE_SUBMESSAGE = 0x07"
definition PB_LTYPE_EXTENSION :: byte where [pb_consts]: "PB_LTYPE_EXTENSION = 0x08"
definition PB_LTYPE_FIXED_LENGTH_BYTES :: byte where [pb_consts]: "PB_LTYPE_FIXED_LENGTH_BYTES = 0x09"
definition PB_LTYPE_MASK :: byte where [pb_consts]: "PB_LTYPE_MASK = 0x0F"

definition PB_HTYPE_REQUIRED :: byte where [pb_consts]: "PB_HTYPE_REQUIRED = 0x00"
definition PB_HTYPE_OPTIONAL :: byte where [pb_consts]: "PB_HTYPE_OPTIONAL = 0x10"
definition PB_HTYPE_REPEATED :: byte where [pb_consts]: "PB_HTYPE_REPEATED = 0x20"
definition PB_HTYPE_ONEOF :: byte where [pb_consts]: "PB_HTYPE_ONEOF = 0x30"
definition PB_HTYPE_MASK :: byte where [pb_consts]: "PB_HTYPE_MASK = 0x30"

definition PB_ATYPE_STATIC :: byte where [pb_consts]: "PB_ATYPE_STATIC = 0x00"
definition PB_ATYPE_POINTER :: byte where [pb_consts]: "PB_ATYPE_POINTER = 0x80"
definition PB_ATYPE_CALLBACK :: byte where [pb_consts]: "PB_ATYPE_CALLBACK = 0x40"
definition PB_ATYPE_MASK :: byte where [pb_consts]: "PB_ATYPE_MASK = 0xC0"

definition PB_ATYPE :: "byte \<Rightarrow> byte" where "PB_ATYPE x = x AND PB_ATYPE_MASK"
definition PB_HTYPE :: "byte \<Rightarrow> byte" where "PB_HTYPE x = x AND PB_HTYPE_MASK"
definition PB_LTYPE :: "byte \<Rightarrow> byte" where "PB_LTYPE x = x AND PB_LTYPE_MASK"

lemmas pb_type_defs = PB_ATYPE_def PB_HTYPE_def PB_LTYPE_def

text \<open>\<open>pb_size_t\<close> is \<open>uint32_t\<close> under \<open>PB_FIELD_32BIT\<close>.\<close>

definition PB_SIZE_MAX :: nat where [pb_consts]: "PB_SIZE_MAX = 0xFFFFFFFF"

definition PB_MAX_REQUIRED_FIELDS :: nat where [pb_consts]: "PB_MAX_REQUIRED_FIELDS = 64"

definition sizeof_ptr :: nat where [pb_consts]: "sizeof_ptr = 8"


section \<open>Field descriptors\<close>

text \<open>
  \<open>struct pb_field_s\<close>.  A descriptor array is the list of its entries up to the
  terminator \<open>PB_LAST_FIELD\<close>, which \<open>field_at\<close> supplies at the end.  \<open>fptr\<close> is the
  address of the descriptors of a submessage or of the bytes of a default value.
\<close>

record pb_field_t =
  tag :: nat
  ftype :: byte
  data_offset :: nat
  size_offset :: int
  data_size :: nat
  array_size :: nat
  fptr :: addr

definition PB_LAST_FIELD :: pb_field_t where
  "PB_LAST_FIELD = \<lparr>tag = 0, ftype = 0, data_offset = 0, size_offset = 0,
     data_size = 0, array_size = 0, fptr = 0\<rparr>"

definition field_at :: "pb_field_t list \<Rightarrow> nat \<Rightarrow> pb_field_t" where
  "field_at fs i = (if i < length fs then fs ! i else PB_LAST_FIELD)"

lemma field_at_tag_nonzero: "tag (field_at fs i) \<noteq> 0 \<Longrightarrow> i < length fs"
  by (auto simp: field_at_def PB_LAST_FIELD_def split: if_splits)

text \<open>
  Layout of the C structures the library itself reads: \<open>pb_bytes_array_t\<close> (a 4-byte
  size, then the bytes), \<open>pb_callback_t\<close> (function, argument) and \<open>pb_extension_t\<close>
  (type, dest, next, found).
\<close>

definition BYTES_size_ofs :: int where [pb_consts]: "BYTES_size_ofs = 0"
definition BYTES_bytes_ofs :: int where [pb_consts]: "BYTES_bytes_ofs = 4"

definition PB_BYTES_ARRAY_T_ALLOCSIZE :: "nat \<Rightarrow> nat" where
  "PB_BYTES_ARRAY_T_ALLOCSIZE n = n + nat BYTES_bytes_ofs"

definition CALLBACK_funcs_ofs :: int where [pb_consts]: "CALLBACK_funcs_ofs = 0"
definition CALLBACK_arg_ofs :: int where [pb_consts]: "CALLBACK_arg_ofs = 8"

definition EXT_type_ofs :: int where [pb_consts]: "EXT_type_ofs = 0"
definition EXT_dest_ofs :: int where [pb_consts]: "EXT_dest_ofs = 8"
definition EXT_next_ofs :: int where [pb_consts]: "EXT_next_ofs = 16"
definition EXT_found_ofs :: int where [pb_consts]: "EXT_found_ofs = 24"

text \<open>
  \<open>pb_extension_type_t\<close>: the custom handlers, null for the default ones, and the
  descriptor of the extension field.
\<close>

record pb_extension_type_t =
  et_decode :: addr
  et_encode :: addr
  et_arg :: addr

text \<open>
  The constant tables of a program: the descriptor arrays by address (undefined where
  there is none) and the extension types.
\<close>

record pb_rodata =
  fields_at :: "addr \<Rightarrow> pb_field_t list option"
  ext_type_at :: "addr \<Rightarrow> pb_extension_type_t option"


section \<open>Wire types\<close>

text \<open>
  The decoder casts three bits of the tag to the enumeration, so a wire type of the model
  is any number below 8.
\<close>

type_synonym pb_wire_type_t = nat

definition PB_WT_VARINT :: pb_wire_type_t where [pb_consts]: "PB_WT_VARINT = 0"
definition PB_WT_64BIT :: pb_wire_type_t where [pb_consts]: "PB_WT_64BIT = 1"
definition PB_WT_STRING :: pb_wire_type_t where [pb_consts]: "PB_WT_STRING = 2"
definition PB_WT_32BIT :: pb_wire_type_t where [pb_consts]: "PB_WT_32BIT = 5"


section \<open>Error messages\<close>

text \<open>\<open>PB_SET_ERROR\<close> keeps the first message; null is None.\<close>

definition PB_SET_ERROR :: "string option \<Rightarrow> string \<Rightarrow> string option" where
  "PB_SET_ERROR e msg = (case e of None \<Rightarrow> Some msg | Some e' \<Rightarrow> Some e')"

definition PB_GET_ERROR :: "string option \<Rightarrow> string" where
  "PB_GET_ERROR e = (case e of None \<Rightarrow> ''(none)'' | Some e' \<Rightarrow> e')"

lemma PB_SET_ERROR_not_None [simp]: "PB_SET_ERROR e msg \<noteq> None"
  by (simp add: PB_SET_ERROR_def split: option.split)

lemma PB_SET_ERROR_simps [simp]:
  "PB_SET_ERROR None msg = Some msg" "PB_SET_ERROR (Some e') msg = Some e'"
  by (simp_all add: PB_SET_ERROR_def)


section \<open>The descriptor macros\<close>

text \<open>
  A member of the message structure as the macros see it: its \<open>offsetof\<close>, its \<open>sizeof\<close>
  and, for arrays and pointers, the \<open>sizeof\<close> of its elements.
\<close>

record c_member =
  m_offset :: nat
  m_size :: nat
  m_elem :: nat

definition pb_membersize :: "c_member \<Rightarrow> nat" where
  "pb_membersize m = m_size m"

definition pb_arraysize :: "c_member \<Rightarrow> nat" where
  "pb_arraysize m = m_size m div m_elem m"

definition pb_delta :: "c_member \<Rightarrow> c_member \<Rightarrow> int" where
  "pb_delta m1 m2 = int (m_offset m1) - int (m_offset m2)"

text \<open>
  The data offset is computed in \<open>size_t\<close> and stored in a \<open>pb_size_t\<close>: modulo \<open>2 ^ 32\<close>.
\<close>

definition PB_DATAOFFSET_FIRST :: "c_member \<Rightarrow> c_member \<Rightarrow> nat" where
  "PB_DATAOFFSET_FIRST m1 m2 = m_offset m1 mod 2 ^ 32"

definition PB_DATAOFFSET_OTHER :: "c_member \<Rightarrow> c_member \<Rightarrow> nat" where
  "PB_DATAOFFSET_OTHER m1 m2 =
     nat ((int (m_offset m1) - int (m_offset m2) - int (pb_membersize m2)) mod 2 ^ 32)"

definition PB_DATAOFFSET_UNION :: "c_member \<Rightarrow> c_member \<Rightarrow> nat" where
  "PB_DATAOFFSET_UNION m1 m2 = PB_SIZE_MAX"

definition PB_REQUIRED_STATIC :: "nat \<Rightarrow> c_member \<Rightarrow> nat \<Rightarrow> byte \<Rightarrow> addr \<Rightarrow> pb_field_t" where
  "PB_REQUIRED_STATIC t m fd ltype p =
     \<lparr>tag = t, ftype = PB_ATYPE_STATIC OR PB_HTYPE_REQUIRED OR ltype, data_offset = fd,
      size_offset = 0, data_size = pb_membersize m, array_size = 0, fptr = p\<rparr>"

definition PB_OPTIONAL_STATIC ::
    "nat \<Rightarrow> c_member \<Rightarrow> c_member \<Rightarrow> nat \<Rightarrow> byte \<Rightarrow> addr \<Rightarrow> pb_field_t" where
  "PB_OPTIONAL_STATIC t has_m m fd ltype p =
     \<lparr>tag = t, ftype = PB_ATYPE_STATIC OR PB_HTYPE_OPTIONAL OR ltype, data_offset = fd,
      size_offset = pb_delta has_m m, data_size = pb_membersize m, array_size = 0, fptr = p\<rparr>"

definition PB_SINGULAR_STATIC :: "nat \<Rightarrow> c_member \<Rightarrow> nat \<Rightarrow> byte \<Rightarrow> addr \<Rightarrow> pb_field_t" where
  "PB_SINGULAR_STATIC t m fd ltype p =
     \<lparr>tag = t, ftype = PB_ATYPE_STATIC OR PB_HTYPE_OPTIONAL OR ltype, data_offset = fd,
      size_offset = 0, data_size = pb_membersize m, array_size = 0, fptr = p\<rparr>"

definition PB_REPEATED_STATIC ::
    "nat \<Rightarrow> c_member \<Rightarrow> c_member \<Rightarrow> nat \<Rightarrow> byte \<Rightarrow> addr \<Rightarrow> pb_field_t" where
  "PB_REPEATED_STATIC t m_count m fd ltype p =
     \<lparr>tag = t, ftype = PB_ATYPE_STATIC OR PB_HTYPE_REPEATED OR ltype, data_offset = fd,
      size_offset = pb_delta m_count m, data_size = m_elem m,
      array_size = pb_arraysize m, fptr = p\<rparr>"

definition PB_REQUIRED_POINTER :: "nat \<Rightarrow> c_member \<Rightarrow> nat \<Rightarrow> byte \<Rightarrow> addr \<Rightarrow> pb_field_t" where
  "PB_REQUIRED_POINTER t m fd ltype p =
     \<lparr>tag = t, ftype = PB_ATYPE_POINTER OR PB_HTYPE_REQUIRED OR ltype, data_offset = fd,
      size_offset = 0, data_size = m_elem m, array_size = 0, fptr = p\<rparr>"

definition PB_OPTIONAL_POINTER :: "nat \<Rightarrow> c_member \<Rightarrow> nat \<Rightarrow> byte \<Rightarrow> addr \<Rightarrow> pb_field_t" where
  "PB_OPTIONAL_POINTER t m fd ltype p =
     \<lparr>tag = t, ftype = PB_ATYPE_POINTER OR PB_HTYPE_OPTIONAL OR ltype, data_offset = fd,
      size_offset = 0, data_size = m_elem m, array_size = 0, fptr = p\<rparr>"

definition PB_SINGULAR_POINTER :: "nat \<Rightarrow> c_member \<Rightarrow> nat \<Rightarrow> byte \<Rightarrow> addr \<Rightarrow> pb_field_t" where
  "PB_SINGULAR_POINTER t m fd ltype p =
     \<lparr>tag = t, ftype = PB_ATYPE_POINTER OR PB_HTYPE_OPTIONAL OR ltype, data_offset = fd,
      size_offset = 0, data_size = m_elem m, array_size = 0, fptr = p\<rparr>"

definition PB_REPEATED_POINTER ::
    "nat \<Rightarrow> c_member \<Rightarrow> c_member \<Rightarrow> nat \<Rightarrow> byte \<Rightarrow> addr \<Rightarrow> pb_field_t" where
  "PB_REPEATED_POINTER t m_count m fd ltype p =
     \<lparr>tag = t, ftype = PB_ATYPE_POINTER OR PB_HTYPE_REPEATED OR ltype, data_offset = fd,
      size_offset = pb_delta m_count m, data_size = m_elem m, array_size = 0, fptr = p\<rparr>"

definition PB_REQUIRED_CALLBACK :: "nat \<Rightarrow> c_member \<Rightarrow> nat \<Rightarrow> byte \<Rightarrow> addr \<Rightarrow> pb_field_t" where
  "PB_REQUIRED_CALLBACK t m fd ltype p =
     \<lparr>tag = t, ftype = PB_ATYPE_CALLBACK OR PB_HTYPE_REQUIRED OR ltype, data_offset = fd,
      size_offset = 0, data_size = pb_membersize m, array_size = 0, fptr = p\<rparr>"

definition PB_OPTIONAL_CALLBACK :: "nat \<Rightarrow> c_member \<Rightarrow> nat \<Rightarrow> byte \<Rightarrow> addr \<Rightarrow> pb_field_t" where
  "PB_OPTIONAL_CALLBACK t m fd ltype p =
     \<lparr>tag = t, ftype = PB_ATYPE_CALLBACK OR PB_HTYPE_OPTIONAL OR ltype, data_offset = fd,
      size_offset = 0, data_size = pb_membersize m, array_size = 0, fptr = p\<rparr>"

definition PB_SINGULAR_CALLBACK :: "nat \<Rightarrow> c_member \<Rightarrow> nat \<Rightarrow> byte \<Rightarrow> addr \<Rightarrow> pb_field_t" where
  "PB_SINGULAR_CALLBACK t m fd ltype p =
     \<lparr>tag = t, ftype = PB_ATYPE_CALLBACK OR PB_HTYPE_OPTIONAL OR ltype, data_offset = fd,
      size_offset = 0, data_size = pb_membersize m, array_size = 0, fptr = p\<rparr>"

definition PB_REPEATED_CALLBACK :: "nat \<Rightarrow> c_member \<Rightarrow> nat \<Rightarrow> byte \<Rightarrow> addr \<Rightarrow> pb_field_t" where
  "PB_REPEATED_CALLBACK t m fd ltype p =
     \<lparr>tag = t, ftype = PB_ATYPE_CALLBACK OR PB_HTYPE_REPEATED OR ltype, data_offset = fd,
      size_offset = 0, data_size = pb_membersize m, array_size = 0, fptr = p\<rparr>"

definition PB_OPTEXT_STATIC :: "nat \<Rightarrow> c_member \<Rightarrow> byte \<Rightarrow> addr \<Rightarrow> pb_field_t" where
  "PB_OPTEXT_STATIC t m ltype p =
     \<lparr>tag = t, ftype = PB_ATYPE_STATIC OR PB_HTYPE_REQUIRED OR ltype, data_offset = 0,
      size_offset = 0, data_size = pb_membersize m, array_size = 0, fptr = p\<rparr>"

definition PB_OPTEXT_POINTER :: "nat \<Rightarrow> c_member \<Rightarrow> nat \<Rightarrow> byte \<Rightarrow> addr \<Rightarrow> pb_field_t" where
  "PB_OPTEXT_POINTER t m fd ltype p = PB_OPTIONAL_POINTER t m fd ltype p"

definition PB_OPTEXT_CALLBACK :: "nat \<Rightarrow> c_member \<Rightarrow> nat \<Rightarrow> byte \<Rightarrow> addr \<Rightarrow> pb_field_t" where
  "PB_OPTEXT_CALLBACK t m fd ltype p = PB_OPTIONAL_CALLBACK t m fd ltype p"

definition PB_ONEOF_STATIC ::
    "nat \<Rightarrow> c_member \<Rightarrow> c_member \<Rightarrow> nat \<Rightarrow> byte \<Rightarrow> addr \<Rightarrow> pb_field_t" where
  "PB_ONEOF_STATIC t which_u m fd ltype p =
     \<lparr>tag = t, ftype = PB_ATYPE_STATIC OR PB_HTYPE_ONEOF OR ltype, data_offset = fd,
      size_offset = pb_delta which_u m, data_size = pb_membersize m, array_size = 0, fptr = p\<rparr>"

definition PB_ONEOF_POINTER ::
    "nat \<Rightarrow> c_member \<Rightarrow> c_member \<Rightarrow> nat \<Rightarrow> byte \<Rightarrow> addr \<Rightarrow> pb_field_t" where
  "PB_ONEOF_POINTER t which_u m fd ltype p =
     \<lparr>tag = t, ftype = PB_ATYPE_POINTER OR PB_HTYPE_ONEOF OR ltype, data_offset = fd,
      size_offset = pb_delta which_u m, data_size = m_elem m, array_size = 0, fptr = p\<rparr>"

lemmas pb_macro_defs =
  PB_REQUIRED_STATIC_def PB_OPTIONAL_STATIC_def PB_SINGULAR_STATIC_def PB_REPEATED_STATIC_def
  PB_REQUIRED_POINTER_def PB_OPTIONAL_POINTER_def PB_SINGULAR_POINTER_def PB_REPEATED_POINTER_def
  PB_REQUIRED_CALLBACK_def PB_OPTIONAL_CALLBACK_def PB_SINGULAR_CALLBACK_def
  PB_REPEATED_CALLBACK_def PB_OPTEXT_STATIC_def PB_OPTEXT_POINTER_def PB_OPTEXT_CALLBACK_def
  PB_ONEOF_STATIC_def PB_ONEOF_POINTER_def

text \<open>The scalar types of the .proto language and the \<open>LTYPE\<close> each is stored with.\<close>

datatype proto_type =
    BOOL | BYTES | DOUBLE | ENUM | UENUM | FIXED32 | FIXED64 | FLOAT | INT32 | INT64
  | MESSAGE | SFIXED32 | SFIXED64 | SINT32 | SINT64 | STRING | UINT32 | UINT64
  | EXTENSION | FIXED_LENGTH_BYTES

fun PB_LTYPE_MAP :: "proto_type \<Rightarrow> byte" where
  "PB_LTYPE_MAP BOOL = PB_LTYPE_VARINT"
| "PB_LTYPE_MAP BYTES = PB_LTYPE_BYTES"
| "PB_LTYPE_MAP DOUBLE = PB_LTYPE_FIXED64"
| "PB_LTYPE_MAP ENUM = PB_LTYPE_VARINT"
| "PB_LTYPE_MAP UENUM = PB_LTYPE_UVARINT"
| "PB_LTYPE_MAP FIXED32 = PB_LTYPE_FIXED32"
| "PB_LTYPE_MAP FIXED64 = PB_LTYPE_FIXED64"
| "PB_LTYPE_MAP FLOAT = PB_LTYPE_FIXED32"
| "PB_LTYPE_MAP INT32 = PB_LTYPE_VARINT"
| "PB_LTYPE_MAP INT64 = PB_LTYPE_VARINT"
| "PB_LTYPE_MAP MESSAGE = PB_LTYPE_SUBMESSAGE"
| "PB_LTYPE_MAP SFIXED32 = PB_LTYPE_FIXED32"
| "PB_LTYPE_MAP SFIXED64 = PB_LTYPE_FIXED64"
| "PB_LTYPE_MAP SINT32 = PB_LTYPE_SVARINT"
| "PB_LTYPE_MAP SINT64 = PB_LTYPE_SVARINT"
| "PB_LTYPE_MAP STRING = PB_LTYPE_STRING"
| "PB_LTYPE_MAP UINT32 = PB_LTYPE_UVARINT"
| "PB_LTYPE_MAP UINT64 = PB_LTYPE_UVARINT"
| "PB_LTYPE_MAP EXTENSION = PB_LTYPE_EXTENSION"
| "PB_LTYPE_MAP FIXED_LENGTH_BYTES = PB_LTYPE_FIXED_LENGTH_BYTES"

text \<open>The three parts of a composed type byte are read back by the masks.\<close>

lemma pb_type_split:
  fixes a h l :: byte
  assumes "a \<in> {PB_ATYPE_STATIC, PB_ATYPE_POINTER, PB_ATYPE_CALLBACK}"
    and "h \<in> {PB_HTYPE_REQUIRED, PB_HTYPE_OPTIONAL, PB_HTYPE_REPEATED, PB_HTYPE_ONEOF}"
    and "l \<in> {PB_LTYPE_VARINT, PB_LTYPE_UVARINT, PB_LTYPE_SVARINT, PB_LTYPE_FIXED32,
      PB_LTYPE_FIXED64, PB_LTYPE_BYTES, PB_LTYPE_STRING, PB_LTYPE_SUBMESSAGE,
      PB_LTYPE_EXTENSION, PB_LTYPE_FIXED_LENGTH_BYTES}"
  shows "PB_ATYPE (a OR h OR l) = a \<and> PB_HTYPE (a OR h OR l) = h \<and> PB_LTYPE (a OR h OR l) = l"
  using assms by (auto simp: pb_type_defs pb_consts)

text \<open>Every type byte has one of four field rules and one of four ways of allocation.\<close>

lemma two_bits: "push_bit k (3 :: byte) AND x \<in> {0, push_bit k 1, push_bit k 2, push_bit k 3}"
proof -
  have three: "(3 :: byte) = mask 2" by (simp add: mask_eq_exp_minus_1)
  have "push_bit k 3 AND x = push_bit k (take_bit 2 (drop_bit k x))"
    unfolding three by (auto intro!: bit_word_eqI simp: bit_simps)
  moreover have "unat (take_bit 2 (drop_bit k x)) < 4"
    using take_bit_nat_less_exp [of 2 "unat (drop_bit k x)"] by (simp add: unsigned_take_bit_eq)
  then have "unat (take_bit 2 (drop_bit k x)) \<in> {0, 1, 2, 3}" by auto
  then have "take_bit 2 (drop_bit k x) \<in> {0, 1, 2, 3}"
    by (auto simp: word_unat_eq_iff)
  ultimately show ?thesis by auto
qed

lemma PB_HTYPE_cases:
  obtains "PB_HTYPE x = PB_HTYPE_REQUIRED" | "PB_HTYPE x = PB_HTYPE_OPTIONAL"
    | "PB_HTYPE x = PB_HTYPE_REPEATED" | "PB_HTYPE x = PB_HTYPE_ONEOF"
  using two_bits [of 4 x] by (auto simp: PB_HTYPE_def pb_consts and.commute)

end
