(* ===== verification/Pb_OStream.thy ===== *)
theory Pb_OStream
  imports Pb_Types
begin

text \<open>
  Output streams, the first part and the helper functions of Pods/nanopb/pb_encode.c:
  \<open>buf_write\<close>, \<open>pb_ostream_from_buffer\<close>, \<open>pb_write\<close> and the encoders of varints, fixed-width
  integers, tags and strings.

  A stream writes into a memory buffer (\<open>BufWrite\<close>), through a function of the application
  (\<open>UserWrite\<close>) or nowhere, when its callback is null (the sizing stream).  The state of a
  buffer stream is what it has stored so far and the number of bytes of the buffer behind
  its pointer; storing beyond them is undefined behaviour.
\<close>

datatype 'u ostate = OBuf "byte list" nat | OUser 'u

datatype 'u ocallback = BufWrite | UserWrite "'u \<Rightarrow> byte list \<Rightarrow> bool \<times> 'u"

record 'u pb_ostream_t =
  o_callback :: "'u ocallback option"
  o_state :: "'u ostate"
  max_size :: nat
  bytes_written :: nat
  o_errmsg :: "string option"

text \<open>Where \<open>pb_write\<close> takes its bytes from: a local array or an address of the message.\<close>

datatype pb_src = Local "byte list" | At addr

definition src_bytes :: "mem \<Rightarrow> pb_src \<Rightarrow> nat \<Rightarrow> byte list option" where
  "src_bytes m src n =
     (case src of Local bs \<Rightarrow> (if length bs < n then None else Some (take n bs))
      | At a \<Rightarrow> load_bytes m a n)"

definition o_error :: "'u pb_ostream_t \<Rightarrow> string \<Rightarrow> 'u pb_ostream_t" where
  "o_error s msg = s\<lparr>o_errmsg := PB_SET_ERROR (o_errmsg s) msg\<rparr>"

definition PB_OSTREAM_SIZING :: "'u pb_ostream_t" where
  "PB_OSTREAM_SIZING = \<lparr>o_callback = None, o_state = OBuf [] 0, max_size = 0,
     bytes_written = 0, o_errmsg = None\<rparr>"

definition pb_ostream_from_buffer :: "nat \<Rightarrow> nat \<Rightarrow> 'u pb_ostream_t" where
  "pb_ostream_from_buffer room bufsize =
     \<lparr>o_callback = Some BufWrite, o_state = OBuf [] room, max_size = bufsize,
      bytes_written = 0, o_errmsg = None\<rparr>"

definition buf_write :: "'u ostate \<Rightarrow> byte list \<Rightarrow> 'u ostate option" where
  "buf_write st bs =
     (case st of OBuf out room \<Rightarrow>
        (if length bs \<le> room then Some (OBuf (out @ bs) (room - length bs)) else None)
      | OUser u \<Rightarrow> None)"

definition o_call :: "'u ocallback \<Rightarrow> 'u ostate \<Rightarrow> byte list \<Rightarrow> (bool \<times> 'u ostate) option" where
  "o_call cb st bs =
     (case cb of
        BufWrite \<Rightarrow> map_option (\<lambda>st'. (True, st')) (buf_write st bs)
      | UserWrite f \<Rightarrow>
          (case st of OUser u \<Rightarrow> (case f u bs of (ok, u') \<Rightarrow> Some (ok, OUser u'))
           | OBuf _ _ \<Rightarrow> None))"

text \<open>
  \<open>stream->bytes_written + count\<close> is an addition of \<open>size_t\<close>, so it may wrap around.
\<close>

definition pb_write ::
    "mem \<Rightarrow> 'u pb_ostream_t \<Rightarrow> pb_src \<Rightarrow> nat \<Rightarrow> (bool \<times> 'u pb_ostream_t) option" where
  "pb_write m s src count =
     (case o_callback s of
        None \<Rightarrow> Some (True, s\<lparr>bytes_written := size_add (bytes_written s) count\<rparr>)
      | Some cb \<Rightarrow>
          if size_add (bytes_written s) count > max_size s
          then Some (False, o_error s ''stream full'')
          else do {
            bs \<leftarrow> src_bytes m src count;
            (ok, st) \<leftarrow> o_call cb (o_state s) bs;
            let s1 = s\<lparr>o_state := st\<rparr>;
            if \<not> ok then Some (False, o_error s1 ''io error'')
            else Some (True, s1\<lparr>bytes_written := size_add (bytes_written s1) count\<rparr>) })"


section \<open>Helper encoders\<close>

text \<open>The loop of \<open>pb_encode_varint\<close> that fills the buffer: \<open>while (value) ...\<close>.\<close>

function varint_loop :: "u64 \<Rightarrow> byte list" where
  "varint_loop value =
     (if value = 0 then []
      else (ucast (value AND 0x7F) OR 0x80) # varint_loop (drop_bit 7 value))"
  by pat_completeness auto
termination
proof (relation "measure unat")
  fix v :: u64
  assume "v \<noteq> 0"
  then have "0 < unat v" by (simp add: unat_gt_0)
  then have "unat v div 2 ^ 7 < unat v" by (intro div_less_dividend) simp_all
  then have "drop_bit 7 (unat v) < unat v" by (simp add: drop_bit_eq_div)
  then show "(drop_bit 7 v, v) \<in> measure unat" by (simp add: unat_drop_bit_eq)
qed simp

declare varint_loop.simps [simp del]

definition clear_last_top :: "byte list \<Rightarrow> byte list" where
  "clear_last_top bs = butlast bs @ [last bs AND 0x7F]"

definition varint_bytes :: "u64 \<Rightarrow> byte list" where
  "varint_bytes value =
     (if value \<le> 0x7F then [ucast value] else clear_last_top (varint_loop value))"

definition pb_encode_varint :: "'u pb_ostream_t \<Rightarrow> u64 \<Rightarrow> (bool \<times> 'u pb_ostream_t) option" where
  "pb_encode_varint s value =
     pb_write Map.empty s (Local (varint_bytes value)) (length (varint_bytes value))"

definition zigzag :: "u64 \<Rightarrow> u64" where
  "zigzag value = (if value <s 0 then NOT (push_bit 1 value) else push_bit 1 value)"

definition pb_encode_svarint :: "'u pb_ostream_t \<Rightarrow> u64 \<Rightarrow> (bool \<times> 'u pb_ostream_t) option" where
  "pb_encode_svarint s value = pb_encode_varint s (zigzag value)"

definition fixed32_bytes :: "u32 \<Rightarrow> byte list" where
  "fixed32_bytes val =
     [ucast (val AND 0xFF), ucast (drop_bit 8 val AND 0xFF),
      ucast (drop_bit 16 val AND 0xFF), ucast (drop_bit 24 val AND 0xFF)]"

definition fixed64_bytes :: "u64 \<Rightarrow> byte list" where
  "fixed64_bytes val =
     [ucast (val AND 0xFF), ucast (drop_bit 8 val AND 0xFF),
      ucast (drop_bit 16 val AND 0xFF), ucast (drop_bit 24 val AND 0xFF),
      ucast (drop_bit 32 val AND 0xFF), ucast (drop_bit 40 val AND 0xFF),
      ucast (drop_bit 48 val AND 0xFF), ucast (drop_bit 56 val AND 0xFF)]"

definition pb_encode_fixed32 ::
    "mem \<Rightarrow> 'u pb_ostream_t \<Rightarrow> addr \<Rightarrow> (bool \<times> 'u pb_ostream_t) option" where
  "pb_encode_fixed32 m s value =
     do { val \<leftarrow> load_word 4 m value; pb_write m s (Local (fixed32_bytes val)) 4 }"

definition pb_encode_fixed64 ::
    "mem \<Rightarrow> 'u pb_ostream_t \<Rightarrow> addr \<Rightarrow> (bool \<times> 'u pb_ostream_t) option" where
  "pb_encode_fixed64 m s value =
     do { val \<leftarrow> load_word 8 m value; pb_write m s (Local (fixed64_bytes val)) 8 }"

definition pb_encode_tag ::
    "'u pb_ostream_t \<Rightarrow> pb_wire_type_t \<Rightarrow> u32 \<Rightarrow> (bool \<times> 'u pb_ostream_t) option" where
  "pb_encode_tag s wiretype field_number =
     pb_encode_varint s (push_bit 3 (ucast field_number) OR of_nat wiretype)"

definition wire_type_of :: "byte \<Rightarrow> pb_wire_type_t option" where
  "wire_type_of lt =
     (if lt = PB_LTYPE_VARINT \<or> lt = PB_LTYPE_UVARINT \<or> lt = PB_LTYPE_SVARINT
      then Some PB_WT_VARINT
      else if lt = PB_LTYPE_FIXED32 then Some PB_WT_32BIT
      else if lt = PB_LTYPE_FIXED64 then Some PB_WT_64BIT
      else if lt = PB_LTYPE_BYTES \<or> lt = PB_LTYPE_STRING \<or> lt = PB_LTYPE_SUBMESSAGE
        \<or> lt = PB_LTYPE_FIXED_LENGTH_BYTES
      then Some PB_WT_STRING
      else None)"

definition pb_encode_tag_for_field ::
    "'u pb_ostream_t \<Rightarrow> pb_field_t \<Rightarrow> (bool \<times> 'u pb_ostream_t) option" where
  "pb_encode_tag_for_field s f =
     (case wire_type_of (PB_LTYPE (ftype f)) of
        None \<Rightarrow> Some (False, o_error s ''invalid field type'')
      | Some wiretype \<Rightarrow> pb_encode_tag s wiretype (of_nat (tag f)))"

definition pb_encode_string ::
    "mem \<Rightarrow> 'u pb_ostream_t \<Rightarrow> pb_src \<Rightarrow> nat \<Rightarrow> (bool \<times> 'u pb_ostream_t) option" where
  "pb_encode_string m s src sz =
     do { (ok, s1) \<leftarrow> pb_encode_varint s (of_nat sz);
          if \<not> ok then Some (False, s1) else pb_write m s1 src sz }"

end
