(* ===== verification/Pb_IStream.thy ===== *)
theory Pb_IStream
  imports Pb_Types
begin

text \<open>
  Input streams and the helper functions of Pods/nanopb/pb_decode.c: \<open>buf_read\<close>, \<open>pb_read\<close>,
  \<open>pb_readbyte\<close>, the decoders of varints and tags, the functions that skip a field, and
  the substreams of length-delimited fields.

  A buffer stream (\<open>BufRead\<close>) is represented by the bytes from its pointer to the end of
  the memory object: reading past them is undefined behaviour, whatever \<open>bytes_left\<close> says.
  A stream of the application (\<open>UserRead\<close>) calls a function that returns whether it
  succeeded and the bytes it stored; storing another number of bytes than asked for while
  reporting success breaks its contract.
\<close>

datatype 'u istate = IBuf "byte list" | IUser 'u

datatype 'u icallback = BufRead | UserRead "'u \<Rightarrow> nat \<Rightarrow> bool \<times> byte list \<times> 'u"

record 'u pb_istream_t =
  i_callback :: "'u icallback"
  i_state :: "'u istate"
  bytes_left :: nat
  i_errmsg :: "string option"

definition i_error :: "'u pb_istream_t \<Rightarrow> string \<Rightarrow> 'u pb_istream_t" where
  "i_error s msg = s\<lparr>i_errmsg := PB_SET_ERROR (i_errmsg s) msg\<rparr>"

definition is_buf_read :: "'u pb_istream_t \<Rightarrow> bool" where
  "is_buf_read s = (case i_callback s of BufRead \<Rightarrow> True | UserRead _ \<Rightarrow> False)"

definition pb_istream_from_buffer :: "byte list \<Rightarrow> nat \<Rightarrow> 'u pb_istream_t" where
  "pb_istream_from_buffer buf bufsize =
     \<lparr>i_callback = BufRead, i_state = IBuf buf, bytes_left = bufsize, i_errmsg = None\<rparr>"

definition buf_read :: "'u istate \<Rightarrow> nat \<Rightarrow> (byte list \<times> 'u istate) option" where
  "buf_read st count =
     (case st of IBuf rest \<Rightarrow>
        (if count \<le> length rest then Some (take count rest, IBuf (drop count rest)) else None)
      | IUser u \<Rightarrow> None)"

definition i_call ::
    "'u icallback \<Rightarrow> 'u istate \<Rightarrow> nat \<Rightarrow> (bool \<times> byte list \<times> 'u istate) option" where
  "i_call cb st count =
     (case cb of
        BufRead \<Rightarrow> map_option (\<lambda>(bs, st'). (True, bs, st')) (buf_read st count)
      | UserRead f \<Rightarrow>
          (case st of IUser u \<Rightarrow>
             (case f u count of (ok, bs, u') \<Rightarrow>
                if length bs \<le> count \<and> (ok \<longrightarrow> length bs = count)
                then Some (ok, bs, IUser u') else None)
           | IBuf _ \<Rightarrow> None))"

text \<open>
  \<open>pb_read\<close> with a buffer to read into.  The result carries the bytes stored into the
  buffer, which on failure may be any part of it.
\<close>

definition pb_read_raw ::
    "'u pb_istream_t \<Rightarrow> nat \<Rightarrow> (bool \<times> byte list \<times> 'u pb_istream_t) option" where
  "pb_read_raw s count =
     (if bytes_left s < count then Some (False, [], i_error s ''end-of-stream'')
      else do {
        (ok, bs, st) \<leftarrow> i_call (i_callback s) (i_state s) count;
        let s1 = s\<lparr>i_state := st\<rparr>;
        if \<not> ok then Some (False, bs, i_error s1 ''io error'')
        else Some (True, bs, s1\<lparr>bytes_left := bytes_left s1 - count\<rparr>) })"

text \<open>The loop that skips input of a custom stream through a 16-byte buffer.\<close>

function pb_read_skip ::
    "'u pb_istream_t \<Rightarrow> nat \<Rightarrow> (bool \<times> 'u pb_istream_t) option" where
  "pb_read_skip s count =
     (if count > 16
      then do { (ok, bs, s1) \<leftarrow> pb_read_raw s 16;
                if \<not> ok then Some (False, s1) else pb_read_skip s1 (count - 16) }
      else map_option (\<lambda>(ok, bs, s1). (ok, s1)) (pb_read_raw s count))"
  by pat_completeness auto
termination by (relation "measure snd") auto

declare pb_read_skip.simps [simp del]

text \<open>\<open>pb_read(stream, NULL, count)\<close>.\<close>

definition pb_read_null :: "'u pb_istream_t \<Rightarrow> nat \<Rightarrow> (bool \<times> 'u pb_istream_t) option" where
  "pb_read_null s count =
     (if \<not> is_buf_read s then pb_read_skip s count
      else map_option (\<lambda>(ok, bs, s1). (ok, s1)) (pb_read_raw s count))"

definition pb_readbyte :: "'u pb_istream_t \<Rightarrow> (bool \<times> byte \<times> 'u pb_istream_t) option" where
  "pb_readbyte s =
     (if bytes_left s = 0 then Some (False, 0, i_error s ''end-of-stream'')
      else do {
        (ok, bs, st) \<leftarrow> i_call (i_callback s) (i_state s) 1;
        let s1 = s\<lparr>i_state := st\<rparr>;
        if \<not> ok then Some (False, 0, i_error s1 ''io error'')
        else Some (True, hd bs, s1\<lparr>bytes_left := bytes_left s1 - 1\<rparr>) })"


section \<open>Varints\<close>

text \<open>
  The \<open>do ... while (byte & 0x80)\<close> of the multibyte case of \<open>pb_decode_varint32\<close>, from bit
  position \<open>bitpos\<close> with the bits of the earlier bytes in \<open>result\<close>.
\<close>

function varint32_loop ::
    "'u pb_istream_t \<Rightarrow> nat \<Rightarrow> u32 \<Rightarrow> (bool \<times> u32 \<times> 'u pb_istream_t) option" where
  "varint32_loop s bitpos result =
     (if bitpos \<ge> 32 then Some (False, 0, i_error s ''varint overflow'')
      else do {
        (ok, b, s1) \<leftarrow> pb_readbyte s;
        if \<not> ok then Some (False, 0, s1)
        else
          let result1 = result OR push_bit bitpos (ucast (b AND 0x7F)) in
          if b AND 0x80 = 0 then Some (True, result1, s1)
          else varint32_loop s1 (bitpos + 7) result1 })"
  by pat_completeness auto
termination by (relation "measure (\<lambda>(s, bitpos, result). 32 - bitpos)") auto

declare varint32_loop.simps [simp del]

definition pb_decode_varint32 ::
    "'u pb_istream_t \<Rightarrow> (bool \<times> u32 \<times> 'u pb_istream_t) option" where
  "pb_decode_varint32 s =
     do { (ok, b, s1) \<leftarrow> pb_readbyte s;
          if \<not> ok then Some (False, 0, s1)
          else if b AND 0x80 = 0 then Some (True, ucast b, s1)
          else varint32_loop s1 7 (ucast (b AND 0x7F)) }"

function varint_dec_loop ::
    "'u pb_istream_t \<Rightarrow> nat \<Rightarrow> u64 \<Rightarrow> (bool \<times> u64 \<times> 'u pb_istream_t) option" where
  "varint_dec_loop s bitpos result =
     (if bitpos \<ge> 64 then Some (False, 0, i_error s ''varint overflow'')
      else do {
        (ok, b, s1) \<leftarrow> pb_readbyte s;
        if \<not> ok then Some (False, 0, s1)
        else
          let result1 = result OR push_bit bitpos (ucast (b AND 0x7F)) in
          if b AND 0x80 = 0 then Some (True, result1, s1)
          else varint_dec_loop s1 (bitpos + 7) result1 })"
  by pat_completeness auto
termination by (relation "measure (\<lambda>(s, bitpos, result). 64 - bitpos)") auto

declare varint_dec_loop.simps [simp del]

definition pb_decode_varint ::
    "'u pb_istream_t \<Rightarrow> (bool \<times> u64 \<times> 'u pb_istream_t) option" where
  "pb_decode_varint s = varint_dec_loop s 0 0"

text \<open>
  \<open>int64_t\<close> results are 64-bit words read as two's complement; \<open>NOT\<close> is the \<open>~\<close> of the code.
\<close>

definition unzigzag :: "u64 \<Rightarrow> u64" where
  "unzigzag value = (if value AND 1 \<noteq> 0 then NOT (drop_bit 1 value) else drop_bit 1 value)"

definition pb_decode_svarint ::
    "'u pb_istream_t \<Rightarrow> (bool \<times> u64 \<times> 'u pb_istream_t) option" where
  "pb_decode_svarint s =
     do { (ok, value, s1) \<leftarrow> pb_decode_varint s;
          if \<not> ok then Some (False, 0, s1) else Some (True, unzigzag value, s1) }"


section \<open>Fixed-width integers\<close>

definition word32_of :: "byte list \<Rightarrow> u32" where
  "word32_of bs =
     push_bit 0 (ucast (bs ! 0)) OR push_bit 8 (ucast (bs ! 1)) OR
     push_bit 16 (ucast (bs ! 2)) OR push_bit 24 (ucast (bs ! 3))"

definition word64_of :: "byte list \<Rightarrow> u64" where
  "word64_of bs =
     push_bit 0 (ucast (bs ! 0)) OR push_bit 8 (ucast (bs ! 1)) OR
     push_bit 16 (ucast (bs ! 2)) OR push_bit 24 (ucast (bs ! 3)) OR
     push_bit 32 (ucast (bs ! 4)) OR push_bit 40 (ucast (bs ! 5)) OR
     push_bit 48 (ucast (bs ! 6)) OR push_bit 56 (ucast (bs ! 7))"

text \<open>\<open>pb_decode_fixed32\<close> and \<open>pb_decode_fixed64\<close> store the value at \<open>dest\<close>.\<close>

definition pb_decode_fixed32 ::
    "'u pb_istream_t \<Rightarrow> addr \<Rightarrow> mem \<Rightarrow> (bool \<times> 'u pb_istream_t \<times> mem) option" where
  "pb_decode_fixed32 s dest m =
     do { (ok, bs, s1) \<leftarrow> pb_read_raw s 4;
          if \<not> ok then Some (False, s1, m)
          else do { m1 \<leftarrow> store_word 4 m dest (word32_of bs); Some (True, s1, m1) } }"

definition pb_decode_fixed64 ::
    "'u pb_istream_t \<Rightarrow> addr \<Rightarrow> mem \<Rightarrow> (bool \<times> 'u pb_istream_t \<times> mem) option" where
  "pb_decode_fixed64 s dest m =
     do { (ok, bs, s1) \<leftarrow> pb_read_raw s 8;
          if \<not> ok then Some (False, s1, m)
          else do { m1 \<leftarrow> store_word 8 m dest (word64_of bs); Some (True, s1, m1) } }"


section \<open>Skipping and tags\<close>

lemma pb_read_raw_left:
  "pb_read_raw s n = Some (True, bs, s') \<Longrightarrow>
     bytes_left s' + n = bytes_left s \<and> length bs = n \<and> i_callback s' = i_callback s"
  by (auto simp: pb_read_raw_def i_call_def buf_read_def outcome_simps Let_def
      split: if_splits icallback.splits istate.splits prod.splits)

text \<open>\<open>pb_skip_varint\<close> reads single bytes until one without the continuation bit.\<close>

function pb_skip_varint :: "'u pb_istream_t \<Rightarrow> (bool \<times> 'u pb_istream_t) option" where
  "pb_skip_varint s =
     do { (ok, bs, s1) \<leftarrow> pb_read_raw s 1;
          if \<not> ok then Some (False, s1)
          else if hd bs AND 0x80 = 0 then Some (True, s1)
          else pb_skip_varint s1 }"
  by pat_completeness auto
termination
  by (relation "measure bytes_left") (auto dest!: pb_read_raw_left)

declare pb_skip_varint.simps [simp del]

definition pb_skip_string :: "'u pb_istream_t \<Rightarrow> (bool \<times> 'u pb_istream_t) option" where
  "pb_skip_string s =
     do { (ok, len, s1) \<leftarrow> pb_decode_varint32 s;
          if \<not> ok then Some (False, s1) else pb_read_null s1 (unat len) }"

text \<open>The result of \<open>pb_decode_tag\<close>: success, wire type, tag number, end of the message.\<close>

definition pb_decode_tag ::
    "'u pb_istream_t \<Rightarrow> (bool \<times> pb_wire_type_t \<times> u32 \<times> bool \<times> 'u pb_istream_t) option" where
  "pb_decode_tag s =
     do { (ok, temp, s1) \<leftarrow> pb_decode_varint32 s;
          if \<not> ok then Some (False, 0, 0, bytes_left s1 = 0, s1)
          else if temp = 0 then Some (False, 0, 0, True, s1)
          else Some (True, unat (temp AND 7), drop_bit 3 temp, False, s1) }"

definition pb_skip_field ::
    "'u pb_istream_t \<Rightarrow> pb_wire_type_t \<Rightarrow> (bool \<times> 'u pb_istream_t) option" where
  "pb_skip_field s wire_type =
     (if wire_type = PB_WT_VARINT then pb_skip_varint s
      else if wire_type = PB_WT_64BIT then pb_read_null s 8
      else if wire_type = PB_WT_STRING then pb_skip_string s
      else if wire_type = PB_WT_32BIT then pb_read_null s 4
      else Some (False, i_error s ''invalid wire_type''))"

text \<open>
  The varint case of \<open>read_raw_value\<close>: \<open>acc\<close> holds the bytes stored so far, \<open>max\<close> is the
  size of the caller's buffer.
\<close>

function raw_varint_loop ::
    "'u pb_istream_t \<Rightarrow> nat \<Rightarrow> byte list \<Rightarrow> (bool \<times> byte list \<times> 'u pb_istream_t) option" where
  "raw_varint_loop s max_sz acc =
     (if length acc + 1 > max_sz then Some (False, acc, s)
      else do {
        (ok, bs, s1) \<leftarrow> pb_read_raw s 1;
        if \<not> ok then Some (False, acc, s1)
        else if hd bs AND 0x80 = 0 then Some (True, acc @ [hd bs], s1)
        else raw_varint_loop s1 max_sz (acc @ [hd bs]) })"
  by pat_completeness auto
termination by (relation "measure (\<lambda>(s, max_sz, acc). max_sz - length acc)") auto

declare raw_varint_loop.simps [simp del]

definition read_raw_value ::
    "'u pb_istream_t \<Rightarrow> pb_wire_type_t \<Rightarrow> nat \<Rightarrow> (bool \<times> byte list \<times> 'u pb_istream_t) option" where
  "read_raw_value s wire_type max_sz =
     (if wire_type = PB_WT_VARINT then raw_varint_loop s max_sz []
      else if wire_type = PB_WT_64BIT then pb_read_raw s 8
      else if wire_type = PB_WT_32BIT then pb_read_raw s 4
      else Some (False, [], i_error s ''invalid wire_type''))"


section \<open>Substreams\<close>

text \<open>
  \<open>pb_make_string_substream\<close> returns the parent and the substream.  Both continue from the
  same state; the substream is limited to the length read from the stream and the parent
  has it taken off.
\<close>

definition pb_make_string_substream ::
    "'u pb_istream_t \<Rightarrow> (bool \<times> 'u pb_istream_t \<times> 'u pb_istream_t) option" where
  "pb_make_string_substream s =
     do { (ok, sz, s1) \<leftarrow> pb_decode_varint32 s;
          if \<not> ok then Some (False, s1, s1)
          else
            let sub = s1 in
            if bytes_left sub < unat sz
            then Some (False, i_error s1 ''parent stream too short'', sub)
            else Some (True, s1\<lparr>bytes_left := bytes_left s1 - unat sz\<rparr>,
                       sub\<lparr>bytes_left := unat sz\<rparr>) }"

definition pb_close_string_substream ::
    "'u pb_istream_t \<Rightarrow> 'u pb_istream_t \<Rightarrow> (bool \<times> 'u pb_istream_t) option" where
  "pb_close_string_substream s sub =
     do { (ok, sub1) \<leftarrow>
            (if bytes_left sub \<noteq> 0 then pb_read_null sub (bytes_left sub)
             else Some (True, sub));
          if \<not> ok then Some (False, s)
          else Some (True, s\<lparr>i_state := i_state sub1, i_errmsg := i_errmsg sub1\<rparr>) }"

end
