(* ===== verification/Byte_Source.thy ===== *)
theory Byte_Source
  imports Pb_IStream
begin

text \<open>
  The interface between the decoders and the stream they read from.  A source is a stream
  callback together with \<open>contents\<close>, the bytes its state will deliver, in order.  The law
  says that asking for bytes that are there succeeds, returns the next ones and advances.
  Everything the decoders do on a source is proved inside the locale; the memory buffers of
  \<open>pb_istream_from_buffer\<close> and the streams of an application that reads from a byte list are
  its interpretations.
\<close>

text \<open>
  \<open>delivers cb contents s bs rest\<close>: the stream \<open>s\<close> may read exactly \<open>bs\<close>, and the state
  behind it holds \<open>rest\<close> after that, which belongs to an enclosing stream.
\<close>

definition delivers ::
    "'u icallback \<Rightarrow> ('u istate \<Rightarrow> byte list option) \<Rightarrow> 'u pb_istream_t \<Rightarrow> byte list \<Rightarrow> byte list \<Rightarrow> bool" where
  "delivers cb contents s bs rest \<longleftrightarrow>
     i_callback s = cb \<and> contents (i_state s) = Some (bs @ rest) \<and> bytes_left s = length bs"

text \<open>
  A reader is safe when, on every source, it is defined, takes some of the available bytes
  and no other, and takes at least \<open>k\<close> of them when it succeeds.
\<close>

definition safe_at ::
    "'u icallback \<Rightarrow> ('u istate \<Rightarrow> byte list option) \<Rightarrow> nat \<Rightarrow> byte list \<Rightarrow> byte list \<Rightarrow>
     (bool \<times> 'v \<times> 'u pb_istream_t) option \<Rightarrow> bool" where
  "safe_at cb contents k bs rest r \<longleftrightarrow>
     (\<exists>ok v s' xs ys. r = Some (ok, v, s') \<and> bs = xs @ ys \<and>
        delivers cb contents s' ys rest \<and> (ok \<longrightarrow> k \<le> length xs))"

definition safe_reader ::
    "'u icallback \<Rightarrow> ('u istate \<Rightarrow> byte list option) \<Rightarrow> nat \<Rightarrow>
     ('u pb_istream_t \<Rightarrow> (bool \<times> 'v \<times> 'u pb_istream_t) option) \<Rightarrow> bool" where
  "safe_reader cb contents k f \<longleftrightarrow>
     (\<forall>s bs rest. delivers cb contents s bs rest \<longrightarrow> safe_at cb contents k bs rest (f s))"

text \<open>The same for a function that only reports success.\<close>

definition as_reader ::
    "('u pb_istream_t \<Rightarrow> (bool \<times> 'u pb_istream_t) option) \<Rightarrow>
     'u pb_istream_t \<Rightarrow> (bool \<times> unit \<times> 'u pb_istream_t) option" where
  "as_reader f s = map_option (\<lambda>(ok, s'). (ok, (), s')) (f s)"

lemma safe_atI:
  "delivers cb contents s' ys rest \<Longrightarrow> bs = xs @ ys \<Longrightarrow> (ok \<Longrightarrow> k \<le> length xs) \<Longrightarrow>
     safe_at cb contents k bs rest (Some (ok, v, s'))"
  by (auto simp: safe_at_def)

lemma safe_at_fail:
  "delivers cb contents s' bs rest \<Longrightarrow> safe_at cb contents k bs rest (Some (False, v, s'))"
  by (rule safe_atI [where xs = "[]"]) auto

lemma safe_atE:
  assumes "safe_at cb contents k bs rest r"
  obtains ok v s' xs ys where "r = Some (ok, v, s')" and "bs = xs @ ys"
    and "delivers cb contents s' ys rest" and "ok \<Longrightarrow> k \<le> length xs"
  using assms by (auto simp: safe_at_def)

lemma safe_at_mono: "safe_at cb contents k bs rest r \<Longrightarrow> j \<le> k \<Longrightarrow> safe_at cb contents j bs rest r"
  by (fastforce simp: safe_at_def)

lemma safe_at_skip: "safe_at cb contents k ys rest r \<Longrightarrow> safe_at cb contents k (xs @ ys) rest r"
proof (erule safe_atE)
  fix ok v s' us vs
  assume "r = Some (ok, v, s')" "ys = us @ vs" "delivers cb contents s' vs rest"
    and "ok \<Longrightarrow> k \<le> length us"
  then show "safe_at cb contents k (xs @ ys) rest r"
    by (auto intro!: safe_atI [where xs = "xs @ us"])
qed

text \<open>
  Sequencing: what follows a safe reader only has to be safe on what is left of the input.
\<close>

lemma safe_at_bind:
  assumes "safe_at cb contents k bs rest r"
    and "\<And>ok v s' xs ys. r = Some (ok, v, s') \<Longrightarrow> bs = xs @ ys \<Longrightarrow>
      delivers cb contents s' ys rest \<Longrightarrow> (ok \<Longrightarrow> k \<le> length xs) \<Longrightarrow>
      safe_at cb contents j bs rest (g (ok, v, s'))"
  shows "safe_at cb contents j bs rest (Option.bind r g)"
  using assms(1) by (rule safe_atE) (use assms(2) in auto)

lemma safe_readerD:
  "safe_reader cb contents k f \<Longrightarrow> delivers cb contents s bs rest \<Longrightarrow>
     safe_at cb contents k bs rest (f s)"
  by (simp add: safe_reader_def)

lemma delivers_error [simp]:
  "delivers cb contents (i_error s msg) bs rest = delivers cb contents s bs rest"
  by (simp add: delivers_def i_error_def)

lemma delivers_errmsg [simp]:
  "delivers cb contents (s\<lparr>i_errmsg := e\<rparr>) bs rest = delivers cb contents s bs rest"
  by (simp add: delivers_def)

lemma read_raw_short:
  "bytes_left s < n \<Longrightarrow> pb_read_raw s n = Some (False, [], i_error s ''end-of-stream'')"
  by (simp add: pb_read_raw_def)

lemma readbyte_empty:
  "bytes_left s = 0 \<Longrightarrow> pb_readbyte s = Some (False, 0, i_error s ''end-of-stream'')"
  by (simp add: pb_readbyte_def)

locale byte_source =
  fixes cb :: "'u icallback" and contents :: "'u istate \<Rightarrow> byte list option"
  assumes deliver: "contents st = Some bs \<Longrightarrow> n \<le> length bs \<Longrightarrow>
    \<exists>st'. i_call cb st n = Some (True, take n bs, st') \<and> contents st' = Some (drop n bs)"
begin

lemma read_raw:
  assumes "delivers cb contents s (xs @ ys) rest" and "length xs = n"
  shows "\<exists>s'. pb_read_raw s n = Some (True, xs, s') \<and> delivers cb contents s' ys rest \<and>
    i_errmsg s' = i_errmsg s"
proof -
  from assms obtain st' where "i_call cb (i_state s) n = Some (True, xs, st')"
    and "contents st' = Some (ys @ rest)"
    using deliver [of "i_state s" "xs @ ys @ rest" n] by (auto simp: delivers_def)
  with assms show ?thesis by (auto simp: pb_read_raw_def delivers_def)
qed

lemma readbyte:
  assumes "delivers cb contents s (b # ys) rest"
  shows "\<exists>s'. pb_readbyte s = Some (True, b, s') \<and> delivers cb contents s' ys rest \<and>
    i_errmsg s' = i_errmsg s"
proof -
  from assms obtain st' where "i_call cb (i_state s) 1 = Some (True, [b], st')"
    and "contents st' = Some (ys @ rest)"
    using deliver [of "i_state s" "b # ys @ rest" 1] by (auto simp: delivers_def)
  with assms show ?thesis by (auto simp: pb_readbyte_def delivers_def)
qed

lemma read_skip:
  assumes "delivers cb contents s (xs @ ys) rest" and "length xs = n"
  shows "\<exists>s'. pb_read_skip s n = Some (True, s') \<and> delivers cb contents s' ys rest \<and>
    i_errmsg s' = i_errmsg s"
  using assms
proof (induction s n arbitrary: xs rule: pb_read_skip.induct)
  case (1 s n)
  show ?case
  proof (cases "n > 16")
    case True
    have "xs @ ys = take 16 xs @ (drop 16 xs @ ys)" by simp
    with "1.prems" True obtain s1
      where s1: "pb_read_raw s 16 = Some (True, take 16 xs, s1)"
        and d: "delivers cb contents s1 (drop 16 xs @ ys) rest" and e: "i_errmsg s1 = i_errmsg s"
      using read_raw [of s "take 16 xs" "drop 16 xs @ ys" rest 16] by auto
    from "1.IH" [OF True s1 refl refl _ d] True "1.prems"(2) obtain s'
      where "pb_read_skip s1 (n - 16) = Some (True, s')" "delivers cb contents s' ys rest"
        and "i_errmsg s' = i_errmsg s1"
      by auto
    with True s1 e show ?thesis by (subst pb_read_skip.simps) auto
  next
    case False
    with read_raw [OF "1.prems"] show ?thesis by (subst pb_read_skip.simps) auto
  qed
qed

lemma read_null:
  assumes "delivers cb contents s (xs @ ys) rest" and "length xs = n"
  shows "\<exists>s'. pb_read_null s n = Some (True, s') \<and> delivers cb contents s' ys rest \<and>
    i_errmsg s' = i_errmsg s"
  using read_raw [OF assms] read_skip [OF assms] by (auto simp: pb_read_null_def)

text \<open>Safety of the primitive readers, whatever the input.\<close>

lemma safe_read_raw: "safe_reader cb contents n (\<lambda>s. pb_read_raw s n)"
  unfolding safe_reader_def
proof (intro allI impI)
  fix s bs rest
  assume d: "delivers cb contents s bs rest"
  show "safe_at cb contents n bs rest (pb_read_raw s n)"
  proof (cases "length bs < n")
    case True
    with d have "pb_read_raw s n = Some (False, [], i_error s ''end-of-stream'')"
      by (intro read_raw_short) (simp add: delivers_def)
    with d show ?thesis by (simp add: safe_at_fail)
  next
    case False
    with d read_raw [of s "take n bs" "drop n bs" rest n] obtain s'
      where "pb_read_raw s n = Some (True, take n bs, s')" "delivers cb contents s' (drop n bs) rest"
      by auto
    with False show ?thesis by (auto intro: safe_atI [where xs = "take n bs"])
  qed
qed

lemma safe_readbyte: "safe_reader cb contents 1 pb_readbyte"
  unfolding safe_reader_def
proof (intro allI impI)
  fix s bs rest
  assume d: "delivers cb contents s bs rest"
  show "safe_at cb contents 1 bs rest (pb_readbyte s)"
  proof (cases bs)
    case Nil
    with d have "pb_readbyte s = Some (False, 0, i_error s ''end-of-stream'')"
      by (intro readbyte_empty) (simp add: delivers_def)
    with d show ?thesis by (simp add: safe_at_fail)
  next
    case (Cons b bs')
    with d readbyte [of s b bs' rest] obtain s'
      where "pb_readbyte s = Some (True, b, s')" "delivers cb contents s' bs' rest"
      by auto
    with Cons show ?thesis by (auto intro: safe_atI [where xs = "[b]"])
  qed
qed

lemma safe_skip: "safe_reader cb contents n (as_reader (\<lambda>s. pb_read_skip s n))"
  unfolding safe_reader_def
proof (intro allI impI)
  fix s bs rest
  assume "delivers cb contents s bs rest"
  then show "safe_at cb contents n bs rest (as_reader (\<lambda>s. pb_read_skip s n) s)"
  proof (induction s n arbitrary: bs rule: pb_read_skip.induct)
    case (1 s n)
    show ?case
    proof (cases "n > 16")
      case True
      from safe_readerD [OF safe_read_raw "1.prems", of 16] show ?thesis
      proof (rule safe_atE)
        fix ok v s1 xs ys
        assume r: "pb_read_raw s 16 = Some (ok, v, s1)" and bs: "bs = xs @ ys"
          and d: "delivers cb contents s1 ys rest" and l: "ok \<Longrightarrow> 16 \<le> length xs"
        show ?thesis
        proof (cases ok)
          case False
          with r True have "pb_read_skip s n = Some (False, s1)"
            by (subst pb_read_skip.simps) simp
          with bs d show ?thesis by (auto simp: as_reader_def intro: safe_atI)
        next
          case ok: True
          with r True have e: "pb_read_skip s n = pb_read_skip s1 (n - 16)"
            by (subst pb_read_skip.simps) simp
          from "1.IH" [OF True r refl refl _ d] ok
          have "safe_at cb contents (n - 16) ys rest (as_reader (\<lambda>s. pb_read_skip s (n - 16)) s1)"
            by simp
          then show ?thesis
            by (rule safe_atE) (use bs l ok e in \<open>auto simp: as_reader_def intro!: safe_atI [where xs = "xs @ _"]\<close>)
        qed
      qed
    next
      case False
      from safe_readerD [OF safe_read_raw "1.prems", of n] show ?thesis
        by (rule safe_atE)
           (use False in \<open>auto simp: as_reader_def pb_read_skip.simps [of s n] intro!: safe_atI\<close>)
    qed
  qed
qed

lemma safe_read_null: "safe_reader cb contents n (as_reader (\<lambda>s. pb_read_null s n))"
  unfolding safe_reader_def
proof (intro allI impI)
  fix s bs rest
  assume d: "delivers cb contents s bs rest"
  show "safe_at cb contents n bs rest (as_reader (\<lambda>s. pb_read_null s n) s)"
  proof (cases "is_buf_read s")
    case True
    from safe_readerD [OF safe_read_raw d, of n] show ?thesis
      by (rule safe_atE) (use True in \<open>auto simp: as_reader_def pb_read_null_def intro!: safe_atI\<close>)
  next
    case False
    with safe_readerD [OF safe_skip d, of n] show ?thesis
      by (simp add: as_reader_def pb_read_null_def)
  qed
qed

end

text \<open>A buffer delivers the bytes behind its pointer.\<close>

definition ibuf :: "'u istate \<Rightarrow> byte list option" where
  "ibuf st = (case st of IBuf rest \<Rightarrow> Some rest | IUser _ \<Rightarrow> None)"

interpretation buf: byte_source BufRead ibuf
  by unfold_locales
     (auto simp: ibuf_def i_call_def buf_read_def split: istate.splits)

text \<open>An application's stream over the bytes it has received.\<close>

definition list_reader :: "byte list \<Rightarrow> nat \<Rightarrow> bool \<times> byte list \<times> byte list" where
  "list_reader u n = (if n \<le> length u then (True, take n u, drop n u) else (False, [], u))"

definition iuser :: "byte list istate \<Rightarrow> byte list option" where
  "iuser st = (case st of IBuf _ \<Rightarrow> None | IUser u \<Rightarrow> Some u)"

interpretation user: byte_source "UserRead list_reader" iuser
  by unfold_locales
     (auto simp: iuser_def i_call_def list_reader_def split: istate.splits)

lemma delivers_from_buffer:
  "length bs = n \<Longrightarrow>
     delivers BufRead ibuf (pb_istream_from_buffer (bs @ rest) n) bs rest"
  by (simp add: delivers_def ibuf_def pb_istream_from_buffer_def)

lemma delivers_buf_iff:
  "delivers BufRead ibuf s bs rest \<longleftrightarrow>
     i_callback s = BufRead \<and> i_state s = IBuf (bs @ rest) \<and> bytes_left s = length bs"
  by (auto simp: delivers_def ibuf_def split: istate.splits)

end
