(* ===== verification/Pb_Varint.thy ===== *)
theory Pb_Varint
  imports Leb128 Pb_OStream Byte_Source
begin

text \<open>
  The varints of the wire format.  The encoder of pb_encode.c produces \<open>leb\<close>, the two
  decoders of pb_decode.c read it back, and the lemmas say how long it is.  The decoders are analysed over the interface \<open>byte_source\<close>, so the
  result holds for buffers and for every stream of the application that delivers its bytes
  in order.
\<close>

section \<open>The encoder produces it\<close>

lemma ucast_and_127: "ucast (v AND 0x7F :: u64) = (of_nat (unat v mod 128) :: byte)"
proof -
  have "v AND 0x7F = take_bit 7 v" by (simp add: take_bit_eq_mask mask_eq_exp_minus_1)
  moreover have "unat (take_bit 7 v) = unat v mod 128"
    by (simp add: unsigned_take_bit_eq) (simp add: take_bit_eq_mod)
  ultimately show ?thesis by (metis of_nat_unat)
qed

lemma unat_drop_bit_7: "unat (drop_bit 7 v :: u64) = unat v div 128"
  by (simp add: unat_drop_bit_eq) (simp add: drop_bit_eq_div)

lemma varint_loop_Nil_iff: "varint_loop v = [] \<longleftrightarrow> v = 0"
  by (subst varint_loop.simps) simp

lemma clear_last_top_Cons: "bs \<noteq> [] \<Longrightarrow> clear_last_top (b # bs) = b # clear_last_top bs"
  by (simp add: clear_last_top_def)

lemma varint_loop_leb: "v \<noteq> 0 \<Longrightarrow> clear_last_top (varint_loop v) = leb (unat v)"
proof (induction v rule: varint_loop.induct)
  case (1 v)
  let ?b = "of_nat (unat v mod 128) OR 0x80 :: byte" and ?w = "drop_bit 7 v"
  have l: "varint_loop v = ?b # varint_loop ?w"
    using "1.prems" by (subst varint_loop.simps) (simp add: ucast_and_127)
  show ?case
  proof (cases "?w = 0")
    case True
    then have "unat v div 128 = 0" using unat_drop_bit_7 [of v] by simp
    then have small: "unat v < 128" by (simp add: div_eq_0_iff)
    have "varint_loop ?w = []" using True by (simp add: varint_loop_Nil_iff)
    then have "clear_last_top (varint_loop v) = [?b AND 0x7F]"
      by (simp add: l clear_last_top_def)
    moreover have "?b AND 0x7F = of_nat (unat v)"
      using of_nat_or_128(1) [OF small] small by simp
    ultimately show ?thesis using small by (simp only: leb_small)
  next
    case False
    then have "unat v div 128 \<noteq> 0" using unat_drop_bit_7 [of v] by (metis unat_eq_zero)
    then have "128 \<le> unat v" by (simp add: div_eq_0_iff)
    then have "leb (unat v) = ?b # leb (unat ?w)" by (simp add: leb_big unat_drop_bit_7)
    moreover have "clear_last_top (varint_loop ?w) = leb (unat ?w)"
      using 1 False by blast
    ultimately show ?thesis
      using False by (simp add: l clear_last_top_Cons varint_loop_Nil_iff)
  qed
qed

lemma varint_bytes_leb: "varint_bytes v = leb (unat v)"
proof (cases "v \<le> 0x7F")
  case True
  then have "unat v < 128" by (simp add: word_le_nat_alt)
  with True show ?thesis by (simp add: varint_bytes_def leb_small)
next
  case False
  then have "v \<noteq> 0" by auto
  with False show ?thesis by (simp add: varint_bytes_def varint_loop_leb)
qed

lemma unat_u64_less: "unat (v :: u64) < 2 ^ 64"
proof -
  have "unat v < 2 ^ LENGTH(64)" by (rule unsigned_less)
  then show ?thesis by simp
qed

lemma varint_bytes_length: "1 \<le> length (varint_bytes v) \<and> length (varint_bytes v) \<le> 10"
proof -
  have "unat v < 128 ^ 10" using unat_u64_less [of v] by simp
  then have "length (leb (unat v)) \<le> 10" by (rule leb_length_le [rotated]) simp
  moreover have "0 < length (leb (unat v))" by simp
  ultimately show ?thesis unfolding varint_bytes_leb by linarith
qed

text \<open>The local buffer of \<open>pb_encode_varint\<close> has 10 bytes: the loop never fills more.\<close>

lemma varint_loop_length: "length (varint_loop v) \<le> 10"
proof (cases "v = 0")
  case False
  then have "varint_loop v \<noteq> []" by (simp add: varint_loop_Nil_iff)
  then have "length (varint_loop v) = length (clear_last_top (varint_loop v))"
    by (simp add: clear_last_top_def)
  also have "\<dots> = length (varint_bytes v)"
    using False by (simp add: varint_loop_leb varint_bytes_leb)
  finally show ?thesis using varint_bytes_length by simp
qed (simp add: varint_loop_Nil_iff [THEN iffD2])


section \<open>The decoders read it back\<close>

context byte_source
begin

lemma varint_dec_loop:
  assumes "delivers cb contents s (leb n @ ys) rest" and "b < 64" and "n < 2 ^ (64 - b)"
  shows "\<exists>s'. varint_dec_loop s b r = Some (True, r OR push_bit b (of_nat n), s') \<and>
    delivers cb contents s' ys rest \<and> i_errmsg s' = i_errmsg s"
  using assms
proof (induction n arbitrary: s b r rule: leb.induct)
  case (1 n)
  show ?case
  proof (cases "n < 128")
    case True
    with "1.prems" obtain s' where "pb_readbyte s = Some (True, of_nat n, s')"
      and "delivers cb contents s' ys rest" "i_errmsg s' = i_errmsg s"
      using readbyte [of s "of_nat n" ys rest] by (auto simp: leb_small)
    with True "1.prems"(2) show ?thesis
      by (subst varint_dec_loop.simps)
         (simp add: byte_and_128_eq_0_iff of_nat_small_not_bit7 ucast_of_nat_byte Let_def)
  next
    case False
    let ?d = "of_nat (n mod 128) OR 0x80 :: byte"
    from False "1.prems" obtain s1 where s1: "pb_readbyte s = Some (True, ?d, s1)"
      and d: "delivers cb contents s1 (leb (n div 128) @ ys) rest" and e: "i_errmsg s1 = i_errmsg s"
      using readbyte [of s ?d "leb (n div 128) @ ys" rest] by (auto simp: leb_big)
    from digits_left [of n 64 b] False "1.prems"
    have "b + 7 < 64" "n div 128 < 2 ^ (64 - (b + 7))" by auto
    from "1.IH" [OF False d this] e obtain s'
      where "varint_dec_loop s1 (b + 7) (r OR push_bit b (ucast (?d AND 0x7F))) =
        Some (True, (r OR push_bit b (ucast (?d AND 0x7F))) OR push_bit (b + 7) (of_nat (n div 128)), s')"
      and "delivers cb contents s' ys rest" "i_errmsg s' = i_errmsg s"
      by fastforce
    with s1 "1.prems"(2) of_nat_or_128(2) [of "n mod 128"] show ?thesis
      by (subst varint_dec_loop.simps)
         (simp add: byte_and_128_eq_0_iff Let_def digit_step or.assoc)
  qed
qed

lemma varint32_loop:
  assumes "delivers cb contents s (leb n @ ys) rest" and "b < 32" and "n < 2 ^ (32 - b)"
  shows "\<exists>s'. varint32_loop s b r = Some (True, r OR push_bit b (of_nat n), s') \<and>
    delivers cb contents s' ys rest \<and> i_errmsg s' = i_errmsg s"
  using assms
proof (induction n arbitrary: s b r rule: leb.induct)
  case (1 n)
  show ?case
  proof (cases "n < 128")
    case True
    with "1.prems" obtain s' where "pb_readbyte s = Some (True, of_nat n, s')"
      and "delivers cb contents s' ys rest" "i_errmsg s' = i_errmsg s"
      using readbyte [of s "of_nat n" ys rest] by (auto simp: leb_small)
    with True "1.prems"(2) show ?thesis
      by (subst varint32_loop.simps)
         (simp add: byte_and_128_eq_0_iff of_nat_small_not_bit7 ucast_of_nat_byte Let_def)
  next
    case False
    let ?d = "of_nat (n mod 128) OR 0x80 :: byte"
    from False "1.prems" obtain s1 where s1: "pb_readbyte s = Some (True, ?d, s1)"
      and d: "delivers cb contents s1 (leb (n div 128) @ ys) rest" and e: "i_errmsg s1 = i_errmsg s"
      using readbyte [of s ?d "leb (n div 128) @ ys" rest] by (auto simp: leb_big)
    from digits_left [of n 32 b] False "1.prems"
    have "b + 7 < 32" "n div 128 < 2 ^ (32 - (b + 7))" by auto
    from "1.IH" [OF False d this] e obtain s'
      where "varint32_loop s1 (b + 7) (r OR push_bit b (ucast (?d AND 0x7F))) =
        Some (True, (r OR push_bit b (ucast (?d AND 0x7F))) OR push_bit (b + 7) (of_nat (n div 128)), s')"
      and "delivers cb contents s' ys rest" "i_errmsg s' = i_errmsg s"
      by fastforce
    with s1 "1.prems"(2) of_nat_or_128(2) [of "n mod 128"] show ?thesis
      by (subst varint32_loop.simps)
         (simp add: byte_and_128_eq_0_iff Let_def digit_step or.assoc)
  qed
qed

lemma decode_varint:
  assumes "delivers cb contents s (leb n @ ys) rest" and "n < 2 ^ 64"
  shows "\<exists>s'. pb_decode_varint s = Some (True, of_nat n, s') \<and>
    delivers cb contents s' ys rest \<and> i_errmsg s' = i_errmsg s"
  using varint_dec_loop [OF assms(1), of 0 0] assms(2) by (simp add: pb_decode_varint_def)

lemma decode_varint32:
  assumes "delivers cb contents s (leb n @ ys) rest" and "n < 2 ^ 32"
  shows "\<exists>s'. pb_decode_varint32 s = Some (True, of_nat n, s') \<and>
    delivers cb contents s' ys rest \<and> i_errmsg s' = i_errmsg s"
proof (cases "n < 128")
  case True
  with assms obtain s' where "pb_readbyte s = Some (True, of_nat n, s')"
    and "delivers cb contents s' ys rest" "i_errmsg s' = i_errmsg s"
    using readbyte [of s "of_nat n" ys rest] by (auto simp: leb_small)
  with True show ?thesis
    by (simp add: pb_decode_varint32_def byte_and_128_eq_0_iff of_nat_small_not_bit7 ucast_of_nat_byte)
next
  case False
  let ?d = "of_nat (n mod 128) OR 0x80 :: byte"
  from False assms obtain s1 where s1: "pb_readbyte s = Some (True, ?d, s1)"
    and d: "delivers cb contents s1 (leb (n div 128) @ ys) rest" and e: "i_errmsg s1 = i_errmsg s"
    using readbyte [of s ?d "leb (n div 128) @ ys" rest] by (auto simp: leb_big)
  from digits_left [of n 32 0] False assms have "n div 128 < 2 ^ (32 - 7)" by simp
  with varint32_loop [OF d, of 7 "ucast (?d AND 0x7F)"] obtain s'
    where "varint32_loop s1 7 (ucast (?d AND 0x7F)) =
      Some (True, ucast (?d AND 0x7F) OR push_bit 7 (of_nat (n div 128)), s')"
    and "delivers cb contents s' ys rest" "i_errmsg s' = i_errmsg s1"
    by fastforce
  with s1 e of_nat_or_128(2) [of "n mod 128"] digit_step [of "0 :: u32" 0 n] show ?thesis
    by (simp add: pb_decode_varint32_def byte_and_128_eq_0_iff)
qed

lemma skip_varint:
  assumes "delivers cb contents s (leb n @ ys) rest"
  shows "\<exists>s'. pb_skip_varint s = Some (True, s') \<and> delivers cb contents s' ys rest \<and>
    i_errmsg s' = i_errmsg s"
  using assms
proof (induction n arbitrary: s rule: leb.induct)
  case (1 n)
  show ?case
  proof (cases "n < 128")
    case True
    with "1.prems" read_raw [of s "[of_nat n]" ys rest 1] of_nat_small_not_bit7(1) [of n]
    show ?thesis
      by (subst pb_skip_varint.simps) (auto simp: leb_small byte_and_128_eq_0_iff)
  next
    case False
    let ?d = "of_nat (n mod 128) OR 0x80 :: byte"
    from False "1.prems" obtain s1 where s1: "pb_read_raw s 1 = Some (True, [?d], s1)"
      and d: "delivers cb contents s1 (leb (n div 128) @ ys) rest" and e: "i_errmsg s1 = i_errmsg s"
      using read_raw [of s "[?d]" "leb (n div 128) @ ys" rest 1] by (auto simp: leb_big)
    from "1.IH" [OF False d] e s1 of_nat_or_128(2) [of "n mod 128"] show ?thesis
      by (subst pb_skip_varint.simps) (auto simp: byte_and_128_eq_0_iff)
  qed
qed

end

end
