(* ===== verification/Byte_Sink.thy ===== *)
theory Byte_Sink
  imports Pb_OStream
begin

text \<open>
  The interface between the encoders and the stream they write to.  A sink is a stream
  callback with \<open>push\<close>, the state after bytes have been stored, and \<open>has\<close>, the number of
  bytes a state can take.  \<open>emits E bs\<close> is the complete contract of an encoder \<open>E\<close> that
  produces the bytes \<open>bs\<close>: on a stream with room for them it succeeds and appends exactly
  \<open>bs\<close>; on a stream whose \<open>max_size\<close> is too small it fails with "stream full", having
  appended a prefix of \<open>bs\<close> that respects \<open>max_size\<close>; on a sizing stream it counts them.
  The contract composes over sequences of encoders.
\<close>

definition sink_ok ::
    "'u ocallback \<Rightarrow> ('u ostate \<Rightarrow> nat \<Rightarrow> bool) \<Rightarrow> 'u pb_ostream_t \<Rightarrow> bool" where
  "sink_ok cb has s \<longleftrightarrow>
     (o_callback s = None \<or>
      o_callback s = Some cb \<and> bytes_written s \<le> max_size s \<and>
      has (o_state s) (max_size s - bytes_written s)) \<and>
     o_errmsg s = None \<and> max_size s < SIZE_MOD"

definition fits :: "'u pb_ostream_t \<Rightarrow> nat \<Rightarrow> bool" where
  "fits s n \<longleftrightarrow> o_callback s = None \<or> bytes_written s + n \<le> max_size s"

definition appended ::
    "('u ostate \<Rightarrow> byte list \<Rightarrow> 'u ostate) \<Rightarrow> 'u pb_ostream_t \<Rightarrow> byte list \<Rightarrow> 'u pb_ostream_t" where
  "appended push s bs =
     s\<lparr>o_state := (case o_callback s of None \<Rightarrow> o_state s | Some _ \<Rightarrow> push (o_state s) bs),
       bytes_written := bytes_written s + length bs\<rparr>"

definition emits ::
    "'u ocallback \<Rightarrow> ('u ostate \<Rightarrow> byte list \<Rightarrow> 'u ostate) \<Rightarrow> ('u ostate \<Rightarrow> nat \<Rightarrow> bool) \<Rightarrow>
     ('u pb_ostream_t \<Rightarrow> (bool \<times> 'u pb_ostream_t) option) \<Rightarrow> byte list \<Rightarrow> bool" where
  "emits cb push has E bs \<longleftrightarrow>
     (\<forall>s. sink_ok cb has s \<longrightarrow> bytes_written s + length bs < SIZE_MOD \<longrightarrow>
        (if fits s (length bs) then E s = Some (True, appended push s bs)
         else \<exists>p q. bs = p @ q \<and> fits s (length p) \<and>
           E s = Some (False, o_error (appended push s p) ''stream full'')))"

text \<open>Running one encoder after another, as the code does with every failing call.\<close>

definition then_enc ::
    "('u pb_ostream_t \<Rightarrow> (bool \<times> 'u pb_ostream_t) option) \<Rightarrow>
     ('u pb_ostream_t \<Rightarrow> (bool \<times> 'u pb_ostream_t) option) \<Rightarrow>
     'u pb_ostream_t \<Rightarrow> (bool \<times> 'u pb_ostream_t) option" where
  "then_enc E1 E2 s =
     do { (ok, s1) \<leftarrow> E1 s; if \<not> ok then Some (False, s1) else E2 s1 }"

lemma fits_mono: "fits s n \<Longrightarrow> k \<le> n \<Longrightarrow> fits s k"
  by (auto simp: fits_def)

lemma fits_appended [simp]: "fits (appended push s bs) n = fits s (length bs + n)"
  by (simp add: fits_def appended_def add.assoc)

lemma appended_sel [simp]:
  "bytes_written (appended push s bs) = bytes_written s + length bs"
  "o_callback (appended push s bs) = o_callback s"
  "max_size (appended push s bs) = max_size s"
  "o_errmsg (appended push s bs) = o_errmsg s"
  by (simp_all add: appended_def)

lemma o_error_sel [simp]:
  "bytes_written (o_error s msg) = bytes_written s" "o_callback (o_error s msg) = o_callback s"
  "o_state (o_error s msg) = o_state s" "max_size (o_error s msg) = max_size s"
  by (simp_all add: o_error_def)

lemma src_bytes_length: "src_bytes m src n = Some bs \<Longrightarrow> length bs = n"
  by (auto simp: src_bytes_def load_bytes_length split: pb_src.splits if_splits)

lemma src_bytes_Local [simp]: "src_bytes m (Local bs) (length bs) = Some bs"
  by (simp add: src_bytes_def)

lemma emitsD:
  "emits cb push has E bs \<Longrightarrow> sink_ok cb has s \<Longrightarrow> bytes_written s + length bs < SIZE_MOD \<Longrightarrow>
     fits s (length bs) \<Longrightarrow> E s = Some (True, appended push s bs)"
  by (simp add: emits_def)

lemma emitsE:
  assumes "emits cb push has E bs" and "sink_ok cb has s"
    and "bytes_written s + length bs < SIZE_MOD" and "\<not> fits s (length bs)"
  obtains p q where "bs = p @ q" "fits s (length p)"
    "E s = Some (False, o_error (appended push s p) ''stream full'')"
  using assms unfolding emits_def by (meson)

lemma o_error_twice [simp]: "o_error (o_error s a) b = o_error s a"
  by (simp add: o_error_def PB_SET_ERROR_def split: option.split)

text \<open>A caller that reports an error of its own keeps the message that is already there.\<close>

lemma emits_report:
  assumes "emits cb push has E bs"
    and "\<And>s. E' s = map_option (\<lambda>(ok, s1). (ok, if ok then s1 else o_error s1 msg)) (E s)"
  shows "emits cb push has E' bs"
  unfolding emits_def
proof (intro allI impI)
  fix s
  assume s: "sink_ok cb has s" "bytes_written s + length bs < SIZE_MOD"
  show "if fits s (length bs) then E' s = Some (True, appended push s bs)
    else \<exists>p q. bs = p @ q \<and> fits s (length p) \<and>
      E' s = Some (False, o_error (appended push s p) ''stream full'')"
  proof (cases "fits s (length bs)")
    case True
    with emitsD [OF assms(1) s] assms(2) show ?thesis by simp
  next
    case False
    show ?thesis
      by (rule emitsE [OF assms(1) s False]) (use False assms(2) in auto)
  qed
qed

locale byte_sink =
  fixes cb :: "'u ocallback"
    and push :: "'u ostate \<Rightarrow> byte list \<Rightarrow> 'u ostate"
    and has :: "'u ostate \<Rightarrow> nat \<Rightarrow> bool"
  assumes accept: "has st n \<Longrightarrow> length bs \<le> n \<Longrightarrow> o_call cb st bs = Some (True, push st bs)"
    and has_push: "has st n \<Longrightarrow> length bs \<le> n \<Longrightarrow> has (push st bs) (n - length bs)"
    and push_push: "has st n \<Longrightarrow> length as + length bs \<le> n \<Longrightarrow>
      push (push st as) bs = push st (as @ bs)"
    and push_Nil: "has st n \<Longrightarrow> push st [] = st"
    and has_mono: "has st n \<Longrightarrow> k \<le> n \<Longrightarrow> has st k"
begin

lemma sink_ok_appended:
  assumes "sink_ok cb has s" and "fits s (length bs)"
  shows "sink_ok cb has (appended push s bs)"
proof (cases "o_callback s")
  case None
  with assms show ?thesis by (simp add: sink_ok_def)
next
  case (Some c)
  with assms have "has (push (o_state s) bs) (max_size s - bytes_written s - length bs)"
    by (intro has_push) (auto simp: sink_ok_def fits_def)
  with Some assms show ?thesis by (auto simp: sink_ok_def fits_def appended_def)
qed

lemma appended_appended:
  assumes "sink_ok cb has s" and "fits s (length as + length bs)"
  shows "appended push (appended push s as) bs = appended push s (as @ bs)"
proof (cases "o_callback s")
  case None
  then show ?thesis by (simp add: appended_def)
next
  case (Some c)
  with assms have "push (push (o_state s) as) bs = push (o_state s) (as @ bs)"
    by (intro push_push [of _ "max_size s - bytes_written s"]) (auto simp: sink_ok_def fits_def)
  with Some show ?thesis by (simp add: appended_def)
qed

lemma appended_Nil: "sink_ok cb has s \<Longrightarrow> appended push s [] = s"
  using push_Nil by (cases "o_callback s") (auto simp: sink_ok_def appended_def)

lemma emits_nothing: "emits cb push has (\<lambda>s. Some (True, s)) []"
  by (auto simp: emits_def appended_Nil fits_def sink_ok_def)

lemma emits_write:
  assumes "src_bytes m src n = Some bs"
  shows "emits cb push has (\<lambda>s. pb_write m s src n) bs"
  unfolding emits_def
proof (intro allI impI)
  fix s
  assume ok: "sink_ok cb has s" and sz: "bytes_written s + length bs < SIZE_MOD"
  have n: "length bs = n" using assms by (rule src_bytes_length)
  show "if fits s (length bs) then pb_write m s src n = Some (True, appended push s bs)
    else \<exists>p q. bs = p @ q \<and> fits s (length p) \<and>
      pb_write m s src n = Some (False, o_error (appended push s p) ''stream full'')"
  proof (cases "o_callback s")
    case None
    with sz n show ?thesis by (simp add: pb_write_def fits_def appended_def)
  next
    case (Some c)
    with ok have c: "c = cb" by (simp add: sink_ok_def)
    show ?thesis
    proof (cases "fits s (length bs)")
      case True
      with Some ok have "o_call cb (o_state s) bs = Some (True, push (o_state s) bs)"
        by (intro accept [of _ "max_size s - bytes_written s"]) (auto simp: sink_ok_def fits_def)
      with True Some c sz n assms show ?thesis
        by (simp add: pb_write_def fits_def appended_def)
    next
      case False
      with Some c sz n have "pb_write m s src n = Some (False, o_error s ''stream full'')"
        by (simp add: pb_write_def fits_def)
      moreover have "fits s (length ([] :: byte list))" using ok by (auto simp: fits_def sink_ok_def)
      ultimately show ?thesis
        using False appended_Nil [OF ok]
        by (simp del: List.list.size) (rule exI [of _ "[]"], simp)
    qed
  qed
qed

text \<open>
  Part of a stream's room as a stream of its own, and what it leaves behind, as the code
  does with the substream of a submessage.
\<close>

lemma sink_ok_limited:
  assumes "sink_ok cb has s" and "o_callback s = Some cb" and "fits s n"
  shows "sink_ok cb has (s\<lparr>max_size := n, bytes_written := 0\<rparr>)"
proof -
  from assms have "has (o_state s) (max_size s - bytes_written s)" and "n \<le> max_size s - bytes_written s"
    by (simp_all add: sink_ok_def fits_def le_diff_conv2 add.commute)
  then have "has (o_state s) n" by (rule has_mono)
  moreover from assms have "n < SIZE_MOD" by (simp add: sink_ok_def fits_def)
  ultimately show ?thesis using assms by (simp add: sink_ok_def)
qed

lemma emits_seq:
  assumes E1: "emits cb push has E1 b1" and E2: "emits cb push has E2 b2"
  shows "emits cb push has (then_enc E1 E2) (b1 @ b2)"
  unfolding emits_def
proof (intro allI impI)
  fix s
  assume ok: "sink_ok cb has s" and sz: "bytes_written s + length (b1 @ b2) < SIZE_MOD"
  show "if fits s (length (b1 @ b2))
    then then_enc E1 E2 s = Some (True, appended push s (b1 @ b2))
    else \<exists>p q. b1 @ b2 = p @ q \<and> fits s (length p) \<and>
      then_enc E1 E2 s = Some (False, o_error (appended push s p) ''stream full'')"
  proof (cases "fits s (length b1)")
    case f1: True
    let ?s1 = "appended push s b1"
    have e1: "E1 s = Some (True, ?s1)" using E1 ok sz f1 by (intro emitsD) auto
    have ok1: "sink_ok cb has ?s1" using ok f1 by (rule sink_ok_appended)
    have sz1: "bytes_written ?s1 + length b2 < SIZE_MOD" using sz by simp
    show ?thesis
    proof (cases "fits s (length (b1 @ b2))")
      case True
      then have "appended push ?s1 b2 = appended push s (b1 @ b2)"
        using ok by (intro appended_appended) simp_all
      moreover have "E2 ?s1 = Some (True, appended push ?s1 b2)"
        using E2 ok1 sz1 True by (intro emitsD) auto
      ultimately show ?thesis using True e1 by (simp add: then_enc_def)
    next
      case False
      obtain p q where pq: "b2 = p @ q" "fits ?s1 (length p)"
        and E2s: "E2 ?s1 = Some (False, o_error (appended push ?s1 p) ''stream full'')"
        by (rule emitsE [OF E2 ok1 sz1]) (use False in simp)
      have "appended push ?s1 p = appended push s (b1 @ p)"
        using ok pq(2) by (intro appended_appended) simp_all
      with e1 E2s pq False show ?thesis
        by (simp add: then_enc_def) (rule exI [of _ "b1 @ p"], simp)
    qed
  next
    case False
    obtain p q where "b1 = p @ q" "fits s (length p)"
      and "E1 s = Some (False, o_error (appended push s p) ''stream full'')"
      using sz by (auto intro: emitsE [OF E1 ok _ False])
    moreover have "\<not> fits s (length (b1 @ b2))" using False fits_mono by fastforce
    ultimately show ?thesis by (auto simp: then_enc_def)
  qed
qed

lemma emits_cong: "emits cb push has E bs \<Longrightarrow> (\<And>s. E' s = E s) \<Longrightarrow> emits cb push has E' bs"
  by (metis ext)

lemma emits_varint: "emits cb push has (\<lambda>s. pb_encode_varint s v) (varint_bytes v)"
  unfolding pb_encode_varint_def by (rule emits_write) simp

lemma emits_svarint: "emits cb push has (\<lambda>s. pb_encode_svarint s v) (varint_bytes (zigzag v))"
  unfolding pb_encode_svarint_def by (rule emits_varint)

lemma emits_tag:
  "emits cb push has (\<lambda>s. pb_encode_tag s wt n) (varint_bytes (push_bit 3 (ucast n) OR of_nat wt))"
  unfolding pb_encode_tag_def by (rule emits_varint)

lemma emits_string:
  assumes "src_bytes m src n = Some bs"
  shows "emits cb push has (\<lambda>s. pb_encode_string m s src n) (varint_bytes (of_nat n) @ bs)"
  by (rule emits_cong [OF emits_seq [OF emits_varint emits_write [OF assms]]])
     (simp add: pb_encode_string_def then_enc_def)

end

text \<open>A memory buffer, and an application's stream that collects everything it is given.\<close>

definition obuf_push :: "'u ostate \<Rightarrow> byte list \<Rightarrow> 'u ostate" where
  "obuf_push st bs =
     (case st of OBuf out room \<Rightarrow> OBuf (out @ bs) (room - length bs) | OUser u \<Rightarrow> OUser u)"

definition obuf_has :: "'u ostate \<Rightarrow> nat \<Rightarrow> bool" where
  "obuf_has st n = (case st of OBuf out room \<Rightarrow> n \<le> room | OUser u \<Rightarrow> False)"

interpretation obuf: byte_sink BufWrite obuf_push obuf_has
  by unfold_locales
     (auto simp: obuf_push_def obuf_has_def o_call_def buf_write_def split: ostate.splits)

definition list_writer :: "byte list \<Rightarrow> byte list \<Rightarrow> bool \<times> byte list" where
  "list_writer u bs = (True, u @ bs)"

definition ouser_push :: "byte list ostate \<Rightarrow> byte list \<Rightarrow> byte list ostate" where
  "ouser_push st bs = (case st of OBuf out room \<Rightarrow> OBuf out room | OUser u \<Rightarrow> OUser (u @ bs))"

definition ouser_has :: "byte list ostate \<Rightarrow> nat \<Rightarrow> bool" where
  "ouser_has st n = (case st of OBuf out room \<Rightarrow> False | OUser u \<Rightarrow> True)"

interpretation ouser: byte_sink "UserWrite list_writer" ouser_push ouser_has
  by unfold_locales
     (auto simp: ouser_push_def ouser_has_def o_call_def list_writer_def split: ostate.splits)

lemma sink_ok_sizing: "sink_ok cb has PB_OSTREAM_SIZING"
  by (simp add: sink_ok_def PB_OSTREAM_SIZING_def)

lemma sink_ok_from_buffer:
  "bufsize \<le> room \<Longrightarrow> bufsize < SIZE_MOD \<Longrightarrow>
     sink_ok BufWrite obuf_has (pb_ostream_from_buffer room bufsize)"
  by (simp add: sink_ok_def pb_ostream_from_buffer_def obuf_has_def)

end
