(* ===== verification/Pb_Wire.thy ===== *)
theory Pb_Wire
  imports Pb_Varint Byte_Sink
begin

text \<open>
  The values on the wire: zig-zag numbers, fixed-width integers, tags, strings and the
  substreams of length-delimited fields, with the round trips of the encoders of
  Pb_OStream and the decoders of Pb_IStream on every byte source.
\<close>

section \<open>Zig-zag\<close>

lemma sint_neg_iff: "v <s (0 :: u64) \<longleftrightarrow> bit v 63"
  using bit_last_iff [of v] by (simp add: word_sless_alt)

lemma and_1_iff: "(w :: 'a::len word) AND 1 \<noteq> 0 \<longleftrightarrow> bit w 0"
  by (simp add: bit_0 and_one_eq odd_iff_mod_2_eq_one)

lemma zigzag_bit0: "bit (zigzag v) 0 \<longleftrightarrow> bit v 63"
  by (simp add: zigzag_def sint_neg_iff bit_not_iff bit_push_bit_iff del: push_bit_Suc push_bit_numeral)

text \<open>The map of the protobuf specification: 0, -1, 1, -2, ... to 0, 1, 2, 3, ...\<close>

lemma uint_zigzag: "uint (zigzag v) = (if 0 \<le> sint v then 2 * sint v else - 2 * sint v - 1)"
proof -
  have r: "- (2 ^ 63) \<le> sint v" "sint v < 2 ^ 63"
    using sint_greater_eq [of v] sint_less [of v] by simp_all
  have p: "push_bit 1 v = word_of_int (2 * sint v)"
    by (simp add: push_bit_eq_mult)
  show ?thesis
  proof (cases "0 \<le> sint v")
    case True
    then have "zigzag v = word_of_int (2 * sint v)"
      by (simp only: zigzag_def p) (simp add: word_sless_alt)
    with True r show ?thesis
      by (simp only: uint_word_of_int_eq) (simp add: take_bit_int_eq_self)
  next
    case False
    then have "v <s 0" by (simp add: word_sless_alt)
    moreover have "NOT (push_bit 1 v) = word_of_int (- 2 * sint v - 1)"
      by (simp add: p not_eq_complement)
    ultimately have "zigzag v = word_of_int (- 2 * sint v - 1)" by (simp add: zigzag_def)
    with False r show ?thesis
      by (simp only: uint_word_of_int_eq) (simp add: take_bit_int_eq_self)
  qed
qed

lemma unzigzag_zigzag [simp]: "unzigzag (zigzag v) = v"
proof (cases "bit v 63")
  case True
  have "drop_bit 1 (NOT (push_bit 1 v)) = NOT v"
  proof (rule bit_word_eqI)
    fix n
    assume "n < LENGTH(64)"
    with True show "bit (drop_bit 1 (NOT (push_bit 1 v))) n = bit (NOT v) n"
      by (cases "n = 63") (auto simp: bit_simps simp del: push_bit_Suc drop_bit_Suc)
  qed
  with True show ?thesis
    by (simp add: unzigzag_def and_1_iff zigzag_bit0) (simp add: zigzag_def sint_neg_iff)
next
  case False
  have "drop_bit 1 (push_bit 1 v) = v"
  proof (rule bit_word_eqI)
    fix n
    assume "n < LENGTH(64)"
    with False show "bit (drop_bit 1 (push_bit 1 v)) n = bit v n"
      by (cases "n = 63") (auto simp: bit_simps simp del: push_bit_Suc drop_bit_Suc)
  qed
  with False have "zigzag v AND 1 = 0" "drop_bit 1 (zigzag v) = v"
    using zigzag_bit0 [of v] and_1_iff [of "zigzag v"]
    by (auto simp: zigzag_def sint_neg_iff)
  then show ?thesis by (simp add: unzigzag_def)
qed


section \<open>Fixed-width integers\<close>

lemma ucast_and_255: "(ucast (w AND 0xFF :: 'a::len word) :: byte) = ucast w"
proof -
  have "w AND 0xFF = take_bit 8 w" by (simp add: take_bit_eq_mask mask_eq_exp_minus_1)
  then show ?thesis by (auto intro!: bit_word_eqI simp: bit_simps)
qed

lemma fixed32_bytes_le: "fixed32_bytes v = le_bytes 4 v"
  unfolding fixed32_bytes_def le_bytes_def ucast_and_255 by (simp add: upt_rec)

lemma fixed64_bytes_le: "fixed64_bytes v = le_bytes 8 v"
  unfolding fixed64_bytes_def le_bytes_def ucast_and_255 by (simp add: upt_rec)

lemma word32_of_le: "length bs = 4 \<Longrightarrow> word32_of bs = of_le bs"
  by (auto simp: word32_of_def push_bit_or length_Suc_conv eval_nat_numeral or.assoc)

lemma word64_of_le: "length bs = 8 \<Longrightarrow> word64_of bs = of_le bs"
  by (auto simp: word64_of_def push_bit_or length_Suc_conv eval_nat_numeral or.assoc)


section \<open>Tags\<close>

definition tag_bytes :: "nat \<Rightarrow> pb_wire_type_t \<Rightarrow> byte list" where
  "tag_bytes n wt = leb (8 * n + wt)"

lemma unat_of_nat_u32: "n < 2 ^ 32 \<Longrightarrow> unat (of_nat n :: u32) = n"
  by (simp add: unat_of_nat)

lemma unat_of_nat_u64: "n < 2 ^ 64 \<Longrightarrow> unat (of_nat n :: u64) = n"
  by (simp add: unat_of_nat)

lemma tag_word:
  assumes "n < 2 ^ 32" and "wt < 8"
  shows "push_bit 3 (ucast (of_nat n :: u32)) OR of_nat wt = (of_nat (8 * n + wt) :: u64)"
proof -
  have n: "ucast (of_nat n :: u32) = (of_nat n :: u64)"
    using assms(1)
    by (simp add: word_unat_eq_iff unsigned_ucast_eq unsigned_of_nat take_bit_nat_eq_self)
  have "push_bit 3 (of_nat n :: u64) OR of_nat wt = push_bit 3 (of_nat n) + of_nat wt"
  proof (rule disjunctive_add [symmetric])
    fix i
    have "bit (of_nat wt :: u64) i \<Longrightarrow> i < 3"
    proof (rule ccontr)
      assume b: "bit (of_nat wt :: u64) i" and "\<not> i < 3"
      then have "(2::nat) ^ 3 \<le> 2 ^ i" by (intro power_increasing) auto
      with assms(2) have "wt < 2 ^ i" by simp
      with b show False by (simp add: bit_of_nat_iff) (simp add: bit_iff_odd)
    qed
    then show "\<not> bit (push_bit 3 (of_nat n :: u64)) i \<or> \<not> bit (of_nat wt :: u64) i"
      by (auto simp: bit_push_bit_iff)
  qed
  then show ?thesis by (simp add: n push_bit_eq_mult mult.commute)
qed

lemma tag_varint_bytes:
  assumes "n < 2 ^ 32" and "wt < 8"
  shows "varint_bytes (push_bit 3 (ucast (of_nat n :: u32)) OR of_nat wt) = tag_bytes n wt"
proof -
  have "unat (of_nat (8 * n + wt) :: u64) = 8 * n + wt"
    using assms by (intro unat_of_nat_u64) simp
  then show ?thesis unfolding tag_word [OF assms] varint_bytes_leb tag_bytes_def by simp
qed

lemma split_tag:
  assumes "n < 2 ^ 29" and "wt < 8"
  shows "unat ((of_nat (8 * n + wt) :: u32) AND 7) = wt"
    and "drop_bit 3 (of_nat (8 * n + wt) :: u32) = of_nat n"
proof -
  let ?w = "of_nat (8 * n + wt) :: u32"
  have u: "unat ?w = 8 * n + wt" using assms by (intro unat_of_nat_u32) simp
  have "?w AND 7 = take_bit 3 ?w" by (simp add: take_bit_eq_mask mask_eq_exp_minus_1)
  then have "unat (?w AND 7) = (8 * n + wt) mod 8"
    by (simp only: unsigned_take_bit_eq u) (simp add: take_bit_eq_mod)
  then show "unat (?w AND 7) = wt" using assms(2) by simp
  have "unat (drop_bit 3 ?w) = (8 * n + wt) div 8"
    by (simp only: unat_drop_bit_eq u) (simp add: drop_bit_eq_div)
  also have "\<dots> = unat (of_nat n :: u32)" using assms by (simp add: unat_of_nat)
  finally show "drop_bit 3 ?w = of_nat n" by (simp only: word_unat_eq_iff)
qed


section \<open>Round trips\<close>

text \<open>
  The payload of a field of each wire type, as every protobuf encoder writes it.
\<close>

inductive payload :: "pb_wire_type_t \<Rightarrow> byte list \<Rightarrow> bool" where
  payload_varint: "payload PB_WT_VARINT (leb n)"
| payload_64bit: "length bs = 8 \<Longrightarrow> payload PB_WT_64BIT bs"
| payload_string: "length bs < 2 ^ 32 \<Longrightarrow> payload PB_WT_STRING (leb (length bs) @ bs)"
| payload_32bit: "length bs = 4 \<Longrightarrow> payload PB_WT_32BIT bs"

context byte_source
begin

lemma decode_uvarint:
  assumes "delivers cb contents s (varint_bytes v @ ys) rest"
  shows "\<exists>s'. pb_decode_varint s = Some (True, v, s') \<and>
    delivers cb contents s' ys rest \<and> i_errmsg s' = i_errmsg s"
  using decode_varint [of s "unat v" ys rest] assms unat_u64_less [of v]
  by (simp add: varint_bytes_leb)

lemma decode_svarint:
  assumes "delivers cb contents s (varint_bytes (zigzag v) @ ys) rest"
  shows "\<exists>s'. pb_decode_svarint s = Some (True, v, s') \<and>
    delivers cb contents s' ys rest \<and> i_errmsg s' = i_errmsg s"
  using decode_uvarint [OF assms] by (auto simp: pb_decode_svarint_def)

lemma decode_fixed32:
  assumes "delivers cb contents s (fixed32_bytes v @ ys) rest" and "store_word 4 m a v = Some m'"
  shows "\<exists>s'. pb_decode_fixed32 s a m = Some (True, s', m') \<and>
    delivers cb contents s' ys rest \<and> i_errmsg s' = i_errmsg s"
  using read_raw [OF assms(1), of 4] assms(2)
  by (auto simp: pb_decode_fixed32_def fixed32_bytes_le word32_of_le)

lemma decode_fixed64:
  assumes "delivers cb contents s (fixed64_bytes v @ ys) rest" and "store_word 8 m a v = Some m'"
  shows "\<exists>s'. pb_decode_fixed64 s a m = Some (True, s', m') \<and>
    delivers cb contents s' ys rest \<and> i_errmsg s' = i_errmsg s"
  using read_raw [OF assms(1), of 8] assms(2)
  by (auto simp: pb_decode_fixed64_def fixed64_bytes_le word64_of_le)

lemma decode_tag:
  assumes "delivers cb contents s (tag_bytes n wt @ ys) rest"
    and "0 < n" and "n < 2 ^ 29" and "wt < 8"
  shows "\<exists>s'. pb_decode_tag s = Some (True, wt, of_nat n, False, s') \<and>
    delivers cb contents s' ys rest \<and> i_errmsg s' = i_errmsg s"
proof -
  from assms have "8 * n + wt < 2 ^ 32" by simp
  with decode_varint32 [of s "8 * n + wt" ys rest] assms(1) obtain s'
    where "pb_decode_varint32 s = Some (True, of_nat (8 * n + wt), s')"
    and d: "delivers cb contents s' ys rest" "i_errmsg s' = i_errmsg s"
    by (auto simp: tag_bytes_def)
  moreover have "(of_nat (8 * n + wt) :: u32) \<noteq> 0"
  proof
    assume "(of_nat (8 * n + wt) :: u32) = 0"
    then have "unat (of_nat (8 * n + wt) :: u32) = 0" by simp
    with assms show False using unat_of_nat_u32 [of "8 * n + wt"] by simp
  qed
  ultimately show ?thesis
    using split_tag [OF assms(3,4)] by (simp add: pb_decode_tag_def del: of_nat_add of_nat_mult)
qed

lemma decode_tag_eof:
  assumes "delivers cb contents s [] rest"
  shows "pb_decode_tag s = Some (False, 0, 0, True, i_error s ''end-of-stream'')"
proof -
  have "bytes_left s = 0" using assms by (simp add: delivers_def)
  then show ?thesis
    by (simp add: pb_decode_tag_def pb_decode_varint32_def readbyte_empty i_error_def)
qed

text \<open>A tag that is cut off at the end of the stream.\<close>

lemma truncated_varint32_loop:
  "delivers cb contents s bs rest \<Longrightarrow> \<forall>b \<in> set bs. bit b 7 \<Longrightarrow> k + 7 * length bs \<le> 35 \<Longrightarrow>
     \<exists>s'. varint32_loop s k r = Some (False, 0, s') \<and> bytes_left s' = 0"
proof (induction bs arbitrary: s k r)
  case Nil
  then show ?case
    by (subst varint32_loop.simps) (simp add: readbyte_empty delivers_def i_error_def)
next
  case (Cons b bs)
  from readbyte [OF Cons.prems(1)] obtain s1 where s1: "pb_readbyte s = Some (True, b, s1)"
    and d: "delivers cb contents s1 bs rest" by blast
  from Cons.IH [OF d, of "k + 7"] Cons.prems s1 show ?case
    by (subst varint32_loop.simps) (auto simp: byte_and_128_eq_0_iff)
qed

lemma truncated_tag:
  assumes "delivers cb contents s bs rest" and "length bs \<le> 5" and "\<forall>b \<in> set bs. bit b 7"
  shows "\<exists>s'. pb_decode_tag s = Some (False, 0, 0, True, s')"
proof (cases bs)
  case Nil
  with assms(1) decode_tag_eof show ?thesis by simp
next
  case (Cons b bs')
  with readbyte assms(1) obtain s1 where "pb_readbyte s = Some (True, b, s1)"
    and d: "delivers cb contents s1 bs' rest" by blast
  moreover from truncated_varint32_loop [OF d, of 7 "ucast (b AND 0x7F)"] Cons assms(2,3)
  obtain s' where "varint32_loop s1 7 (ucast (b AND 0x7F)) = Some (False, 0, s')" "bytes_left s' = 0"
    by auto
  ultimately show ?thesis using Cons assms(3)
    by (simp add: pb_decode_tag_def pb_decode_varint32_def byte_and_128_eq_0_iff)
qed

lemma make_substream:
  assumes "delivers cb contents s (leb (length xs) @ xs @ ys) rest" and "length xs < 2 ^ 32"
  shows "\<exists>p sub. pb_make_string_substream s = Some (True, p, sub) \<and>
    delivers cb contents sub xs (ys @ rest) \<and> i_errmsg sub = i_errmsg s \<and>
    p = sub\<lparr>bytes_left := length ys\<rparr>"
proof -
  from decode_varint32 [OF assms] obtain s1
    where s1: "pb_decode_varint32 s = Some (True, of_nat (length xs), s1)"
    and d: "delivers cb contents s1 (xs @ ys) rest" "i_errmsg s1 = i_errmsg s"
    by auto
  have "unat (of_nat (length xs) :: u32) = length xs" using assms(2) by (simp add: unat_of_nat)
  with s1 d show ?thesis by (auto simp: pb_make_string_substream_def delivers_def Let_def)
qed

lemma close_substream:
  assumes "delivers cb contents sub zs (ys @ rest)" and "i_callback p = cb"
    and "bytes_left p = length ys"
  shows "\<exists>s'. pb_close_string_substream p sub = Some (True, s') \<and>
    delivers cb contents s' ys rest \<and> i_errmsg s' = i_errmsg sub"
proof (cases "zs = []")
  case True
  with assms show ?thesis by (auto simp: pb_close_string_substream_def delivers_def)
next
  case False
  from assms(1) have d: "delivers cb contents sub (zs @ []) (ys @ rest)" by simp
  from read_null [OF d refl] obtain sub1 where "pb_read_null sub (length zs) = Some (True, sub1)"
    and "delivers cb contents sub1 [] (ys @ rest)" "i_errmsg sub1 = i_errmsg sub"
    by auto
  with False assms show ?thesis by (auto simp: pb_close_string_substream_def delivers_def)
qed

lemma skip_string:
  assumes "delivers cb contents s (leb (length xs) @ xs @ ys) rest" and "length xs < 2 ^ 32"
  shows "\<exists>s'. pb_skip_string s = Some (True, s') \<and> delivers cb contents s' ys rest \<and>
    i_errmsg s' = i_errmsg s"
proof -
  from decode_varint32 [OF assms] obtain s1
    where s1: "pb_decode_varint32 s = Some (True, of_nat (length xs), s1)"
    and d: "delivers cb contents s1 (xs @ ys) rest" "i_errmsg s1 = i_errmsg s"
    by auto
  have "unat (of_nat (length xs) :: u32) = length xs" using assms(2) by (simp add: unat_of_nat)
  with s1 read_null [OF d(1) refl] d(2) show ?thesis by (auto simp: pb_skip_string_def)
qed

text \<open>\<open>pb_skip_field\<close> skips exactly the payload, whatever the wire type.\<close>

lemma skip_field:
  assumes "payload wt p" and "delivers cb contents s (p @ ys) rest"
  shows "\<exists>s'. pb_skip_field s wt = Some (True, s') \<and> delivers cb contents s' ys rest \<and>
    i_errmsg s' = i_errmsg s"
  using assms
proof cases
  case payload_varint
  with skip_varint assms show ?thesis by (simp add: pb_skip_field_def)
next
  case payload_64bit
  with read_null [of s p ys rest 8] assms show ?thesis by (simp add: pb_skip_field_def pb_consts)
next
  case (payload_string bs)
  with skip_string [of s bs ys rest] assms show ?thesis by (simp add: pb_skip_field_def pb_consts)
next
  case payload_32bit
  with read_null [of s p ys rest 4] assms show ?thesis by (simp add: pb_skip_field_def pb_consts)
qed

end

end
