(* ===== verification/Pb_ReadSafety.thy ===== *)
theory Pb_ReadSafety
  imports Pb_Wire
begin

text \<open>
  The readers of Pb_IStream on arbitrary input: on every byte source each of them returns,
  takes only bytes of its own stream, and leaves the stream in a state from which the rest
  of the same bytes can be read.  These are the facts that make the message decoder safe on
  input nobody encoded.
\<close>

context byte_source
begin

lemma safe_varint_dec_loop:
  assumes "delivers cb contents s bs rest"
  shows "safe_at cb contents 1 bs rest (varint_dec_loop s b r)"
  using assms
proof (induction s b r arbitrary: bs rule: varint_dec_loop.induct)
  case (1 s b r)
  show ?case
  proof (cases "b \<ge> 64")
    case True
    with "1.prems" show ?thesis
      by (subst varint_dec_loop.simps) (simp add: safe_at_fail)
  next
    case False
    from safe_readerD [OF safe_readbyte "1.prems"] show ?thesis
    proof (rule safe_atE)
      fix ok v s1 xs ys
      assume r: "pb_readbyte s = Some (ok, v, s1)" and bs: "bs = xs @ ys"
        and d: "delivers cb contents s1 ys rest" and l: "ok \<Longrightarrow> 1 \<le> length xs"
      have ih: "safe_at cb contents 1 ys rest
          (varint_dec_loop s1 (b + 7) (r OR push_bit b (ucast (v AND 0x7F))))"
        if "ok" "v AND 0x80 \<noteq> 0"
        using "1.IH" [OF False r refl refl _ refl _ d] that by simp
      show ?thesis
        unfolding bs
        by (subst varint_dec_loop.simps)
           (use False r d l ih in \<open>auto simp: Let_def intro: safe_at_skip safe_atI\<close>)
    qed
  qed
qed

lemma safe_varint32_loop:
  assumes "delivers cb contents s bs rest"
  shows "safe_at cb contents 1 bs rest (varint32_loop s b r)"
  using assms
proof (induction s b r arbitrary: bs rule: varint32_loop.induct)
  case (1 s b r)
  show ?case
  proof (cases "b \<ge> 32")
    case True
    with "1.prems" show ?thesis
      by (subst varint32_loop.simps) (simp add: safe_at_fail)
  next
    case False
    from safe_readerD [OF safe_readbyte "1.prems"] show ?thesis
    proof (rule safe_atE)
      fix ok v s1 xs ys
      assume r: "pb_readbyte s = Some (ok, v, s1)" and bs: "bs = xs @ ys"
        and d: "delivers cb contents s1 ys rest" and l: "ok \<Longrightarrow> 1 \<le> length xs"
      have ih: "safe_at cb contents 1 ys rest
          (varint32_loop s1 (b + 7) (r OR push_bit b (ucast (v AND 0x7F))))"
        if "ok" "v AND 0x80 \<noteq> 0"
        using "1.IH" [OF False r refl refl _ refl _ d] that by simp
      show ?thesis
        unfolding bs
        by (subst varint32_loop.simps)
           (use False r d l ih in \<open>auto simp: Let_def intro: safe_at_skip safe_atI\<close>)
    qed
  qed
qed

lemma safe_decode_varint: "safe_reader cb contents 1 pb_decode_varint"
  unfolding safe_reader_def pb_decode_varint_def using safe_varint_dec_loop by blast

lemma safe_decode_varint32: "safe_reader cb contents 1 pb_decode_varint32"
  unfolding safe_reader_def
proof (intro allI impI)
  fix s bs rest
  assume "delivers cb contents s bs rest"
  from safe_readerD [OF safe_readbyte this]
  show "safe_at cb contents 1 bs rest (pb_decode_varint32 s)"
    by (rule safe_atE)
       (auto simp: pb_decode_varint32_def
         intro: safe_atI safe_at_skip safe_varint32_loop [unfolded One_nat_def])
qed

lemma safe_decode_svarint: "safe_reader cb contents 1 pb_decode_svarint"
  unfolding safe_reader_def
proof (intro allI impI)
  fix s bs rest
  assume "delivers cb contents s bs rest"
  from safe_readerD [OF safe_decode_varint this]
  show "safe_at cb contents 1 bs rest (pb_decode_svarint s)"
    by (rule safe_atE) (auto simp: pb_decode_svarint_def intro: safe_atI)
qed

lemma safe_skip_varint: "safe_reader cb contents 1 (as_reader pb_skip_varint)"
  unfolding safe_reader_def
proof (intro allI impI)
  fix s bs rest
  assume "delivers cb contents s bs rest"
  then show "safe_at cb contents 1 bs rest (as_reader pb_skip_varint s)"
  proof (induction s arbitrary: bs rule: pb_skip_varint.induct)
    case (1 s)
    from safe_readerD [OF safe_read_raw "1.prems", of 1] show ?case
    proof (rule safe_atE)
      fix ok v s1 xs ys
      assume r: "pb_read_raw s 1 = Some (ok, v, s1)" and bs: "bs = xs @ ys"
        and d: "delivers cb contents s1 ys rest" and l: "ok \<Longrightarrow> 1 \<le> length xs"
      have ih: "safe_at cb contents 1 ys rest (as_reader pb_skip_varint s1)"
        if "ok" "hd v AND 0x80 \<noteq> 0"
        using "1.IH" [OF r refl refl _ _ d] that by simp
      have e: "as_reader pb_skip_varint s =
        (if \<not> ok then Some (False, (), s1) else if hd v AND 0x80 = 0 then Some (True, (), s1)
         else as_reader pb_skip_varint s1)"
        unfolding as_reader_def by (subst pb_skip_varint.simps) (simp add: r del: One_nat_def)
      show ?case
        unfolding bs e using d l ih by (auto intro: safe_at_skip safe_atI)
    qed
  qed
qed

lemma safe_skip_string: "safe_reader cb contents 1 (as_reader pb_skip_string)"
  unfolding safe_reader_def
proof (intro allI impI)
  fix s bs rest
  assume "delivers cb contents s bs rest"
  from safe_readerD [OF safe_decode_varint32 this]
  show "safe_at cb contents 1 bs rest (as_reader pb_skip_string s)"
  proof (rule safe_atE)
    fix ok v s1 xs ys
    assume r: "pb_decode_varint32 s = Some (ok, v, s1)" and bs: "bs = xs @ ys"
      and d: "delivers cb contents s1 ys rest" and l: "ok \<Longrightarrow> 1 \<le> length xs"
    from safe_readerD [OF safe_read_null d, of "unat v"]
    show "safe_at cb contents 1 bs rest (as_reader pb_skip_string s)"
      by (rule safe_atE)
         (use r bs d l in \<open>fastforce simp: pb_skip_string_def as_reader_def
           intro!: safe_atI [where xs = xs] safe_atI [where xs = "xs @ _"]\<close>)
  qed
qed

text \<open>The wire type of a tag is below 8, and a tag that was read is not that of field 0.\<close>

definition tag_reader ::
    "'u pb_istream_t \<Rightarrow> (bool \<times> (pb_wire_type_t \<times> u32 \<times> bool) \<times> 'u pb_istream_t) option" where
  "tag_reader s = map_option (\<lambda>(ok, wt, t, eof, s1). (ok, (wt, t, eof), s1)) (pb_decode_tag s)"

lemma safe_decode_tag: "safe_reader cb contents 1 tag_reader"
  unfolding safe_reader_def
proof (intro allI impI)
  fix s bs rest
  assume "delivers cb contents s bs rest"
  from safe_readerD [OF safe_decode_varint32 this]
  show "safe_at cb contents 1 bs rest (tag_reader s)"
    by (rule safe_atE) (auto simp: pb_decode_tag_def tag_reader_def intro: safe_atI)
qed

lemma safe_raw_varint_loop:
  assumes "delivers cb contents s bs rest"
  shows "safe_at cb contents 1 bs rest (raw_varint_loop s n acc)"
  using assms
proof (induction s n acc arbitrary: bs rule: raw_varint_loop.induct)
  case (1 s n acc)
  show ?case
  proof (cases "length acc + 1 > n")
    case True
    with "1.prems" show ?thesis
      by (subst raw_varint_loop.simps) (simp add: safe_at_fail)
  next
    case False
    from safe_readerD [OF safe_read_raw "1.prems", of 1] show ?thesis
    proof (rule safe_atE)
      fix ok v s1 xs ys
      assume r: "pb_read_raw s 1 = Some (ok, v, s1)" and bs: "bs = xs @ ys"
        and d: "delivers cb contents s1 ys rest" and l: "ok \<Longrightarrow> 1 \<le> length xs"
      have ih: "safe_at cb contents 1 ys rest (raw_varint_loop s1 n (acc @ [hd v]))"
        if "ok" "hd v AND 0x80 \<noteq> 0"
        using "1.IH" [OF False r refl refl _ _ d] that by simp
      have e: "raw_varint_loop s n acc =
        (if \<not> ok then Some (False, acc, s1)
         else if hd v AND 0x80 = 0 then Some (True, acc @ [hd v], s1)
         else raw_varint_loop s1 n (acc @ [hd v]))"
        by (subst raw_varint_loop.simps) (use False r in simp)
      show ?thesis
        unfolding bs e using d l ih by (auto intro: safe_at_skip safe_atI)
    qed
  qed
qed

lemma safe_read_raw_value: "safe_reader cb contents 1 (\<lambda>s. read_raw_value s wt n)"
  unfolding safe_reader_def read_raw_value_def
  by (auto intro: safe_raw_varint_loop safe_at_mono [OF safe_readerD [OF safe_read_raw]]
      simp: safe_at_fail simp del: One_nat_def)

lemma safe_skip_field: "safe_reader cb contents 1 (as_reader (\<lambda>s. pb_skip_field s wt))"
  unfolding safe_reader_def
proof (intro allI impI)
  fix s bs rest
  assume d: "delivers cb contents s bs rest"
  consider "wt = PB_WT_VARINT" | "wt = PB_WT_64BIT" | "wt = PB_WT_STRING" | "wt = PB_WT_32BIT"
    | "pb_skip_field s wt = Some (False, i_error s ''invalid wire_type'')"
    unfolding pb_skip_field_def by argo
  then show "safe_at cb contents 1 bs rest (as_reader (\<lambda>s. pb_skip_field s wt) s)"
  proof cases
    case 1
    with safe_readerD [OF safe_skip_varint d] show ?thesis
      by (simp add: pb_skip_field_def as_reader_def)
  next
    case 2
    with safe_at_mono [OF safe_readerD [OF safe_read_null d, of 8], of 1] show ?thesis
      by (simp add: pb_skip_field_def as_reader_def pb_consts)
  next
    case 3
    with safe_readerD [OF safe_skip_string d] show ?thesis
      by (simp add: pb_skip_field_def as_reader_def pb_consts)
  next
    case 4
    with safe_at_mono [OF safe_readerD [OF safe_read_null d, of 4], of 1] show ?thesis
      by (simp add: pb_skip_field_def as_reader_def pb_consts)
  next
    case 5
    with d show ?thesis by (simp add: as_reader_def safe_at_fail)
  qed
qed

text \<open>
  A substream has exactly the bytes its length announces; when the announced length is not
  there, or cannot be read, the parent is still a stream over the rest of its own bytes.
\<close>

lemma safe_make_substream:
  assumes "delivers cb contents s bs rest"
  obtains (ok) p sub pre xs ys where
      "pb_make_string_substream s = Some (True, p, sub)" and "bs = pre @ xs @ ys"
      and "pre \<noteq> []" and "delivers cb contents sub xs (ys @ rest)"
      and "i_callback p = cb" and "bytes_left p = length ys"
    | (failed) p sub pre ys where
      "pb_make_string_substream s = Some (False, p, sub)" and "bs = pre @ ys"
      and "delivers cb contents p ys rest"
  using safe_readerD [OF safe_decode_varint32 assms]
proof (rule safe_atE)
  fix k v s1 pre zs
  assume r: "pb_decode_varint32 s = Some (k, v, s1)" and bs: "bs = pre @ zs"
    and d: "delivers cb contents s1 zs rest" and l: "k \<Longrightarrow> 1 \<le> length pre"
  show thesis
  proof (cases "k \<and> unat v \<le> length zs")
    case True
    let ?n = "unat v"
    show thesis
    proof (rule ok)
      show "pb_make_string_substream s = Some (True, s1\<lparr>bytes_left := bytes_left s1 - ?n\<rparr>,
          s1\<lparr>bytes_left := ?n\<rparr>)"
        using True r d by (simp add: pb_make_string_substream_def delivers_def Let_def)
      show "bs = pre @ take ?n zs @ drop ?n zs" by (simp add: bs)
      show "delivers cb contents (s1\<lparr>bytes_left := ?n\<rparr>) (take ?n zs) (drop ?n zs @ rest)"
        using True d by (simp add: delivers_def)
      show "pre \<noteq> []" using l True by auto
    qed (use d in \<open>auto simp: delivers_def\<close>)
  next
    case False
    with r d have "\<exists>p sub. pb_make_string_substream s = Some (False, p, sub) \<and>
      delivers cb contents p zs rest"
      by (cases k) (auto simp: pb_make_string_substream_def Let_def delivers_def i_error_def)
    with bs show thesis using failed by blast
  qed
qed

end

end
