(* ===== verification/Pb_Common.thy ===== *)
theory Pb_Common
  imports Pb_Types
begin

text \<open>
  The field iterator, Pods/nanopb/pb_common.c.  The iterator walks a descriptor array and
  computes, from the sizes and offsets in it, where the value and the count or has-flag of
  each field lie in the message structure.

  \<open>field_addr\<close> is the specification: the address of the i-th field as a recursion over the
  array.  The lemmas show that stepping the iterator computes it, that a search ends and
  finds a field exactly when there is one, and that arrays built by the macros of pb.h put
  every field at its \<open>offsetof\<close>.
\<close>

record pb_field_iter_t =
  start :: "pb_field_t list"
  pos :: nat
  required_field_index :: nat
  dest_struct :: addr
  pData :: addr
  pSize :: addr

definition cur :: "pb_field_iter_t \<Rightarrow> pb_field_t" where
  "cur it = field_at (start it) (pos it)"

definition pb_field_iter_begin ::
    "pb_field_t list \<Rightarrow> addr \<Rightarrow> bool \<times> pb_field_iter_t" where
  "pb_field_iter_begin flds dest =
     (let f = field_at flds 0; pd = dest + int (data_offset f)
      in (tag f \<noteq> 0,
          \<lparr>start = flds, pos = 0, required_field_index = 0, dest_struct = dest,
           pData = pd, pSize = pd + size_offset f\<rparr>))"

text \<open>
  The step over the previous field: its size in the structure, which is the size of the
  whole array for a static array and of a pointer for an allocated field.
\<close>

definition prev_size :: "pb_field_t \<Rightarrow> nat" where
  "prev_size f =
     (if PB_ATYPE (ftype f) = PB_ATYPE_STATIC \<and> PB_HTYPE (ftype f) = PB_HTYPE_REPEATED
      then data_size f * array_size f
      else if PB_ATYPE (ftype f) = PB_ATYPE_POINTER then sizeof_ptr
      else data_size f)"

definition union_member :: "pb_field_t \<Rightarrow> pb_field_t \<Rightarrow> bool" where
  "union_member prev f \<longleftrightarrow>
     PB_HTYPE (ftype prev) = PB_HTYPE_ONEOF \<and> PB_HTYPE (ftype f) = PB_HTYPE_ONEOF \<and>
     data_offset f = PB_SIZE_MAX"

definition pb_field_iter_next :: "pb_field_iter_t \<Rightarrow> bool \<times> pb_field_iter_t" where
  "pb_field_iter_next it =
     (let prev_field = cur it in
      if tag prev_field = 0 then (False, it)
      else
        let it1 = it\<lparr>pos := pos it + 1\<rparr> in
        if tag (cur it1) = 0
        then (False, snd (pb_field_iter_begin (start it) (dest_struct it)))
        else if union_member prev_field (cur it1) then (True, it1)
        else
          let it2 = (if PB_HTYPE (ftype prev_field) = PB_HTYPE_REQUIRED
                     then it1\<lparr>required_field_index := required_field_index it1 + 1\<rparr>
                     else it1);
              pd = pData it + int (prev_size prev_field) + int (data_offset (cur it1))
          in (True, it2\<lparr>pData := pd, pSize := pd + size_offset (cur it1)\<rparr>))"

definition iter_matches :: "nat \<Rightarrow> pb_field_iter_t \<Rightarrow> bool" where
  "iter_matches t it \<longleftrightarrow>
     tag (cur it) = t \<and> PB_LTYPE (ftype (cur it)) \<noteq> PB_LTYPE_EXTENSION"

text \<open>
  The \<open>do ... while (iter->pos != start)\<close> of \<open>pb_field_iter_find\<close> and of the decoder's
  \<open>find_extension_field\<close>: the first argument bounds the number of rounds, \<open>start_pos\<close> is
  the position the search began at.
\<close>

fun iter_search ::
    "nat \<Rightarrow> (pb_field_iter_t \<Rightarrow> bool) \<Rightarrow> nat \<Rightarrow> pb_field_iter_t \<Rightarrow> (bool \<times> pb_field_iter_t) option" where
  "iter_search 0 P start_pos it = None"
| "iter_search (Suc n) P start_pos it =
     (if P it then Some (True, it)
      else
        let it1 = snd (pb_field_iter_next it) in
        if pos it1 = start_pos then Some (False, it1)
        else iter_search n P start_pos it1)"

definition pb_field_iter_find ::
    "pb_field_iter_t \<Rightarrow> nat \<Rightarrow> (bool \<times> pb_field_iter_t) option" where
  "pb_field_iter_find it t =
     iter_search (Suc (length (start it))) (iter_matches t) (pos it) it"

text \<open>
  The loop every client of the iterator writes,
  \<open>do { body } while (pb_field_iter_next(&iter));\<close> where the body may return false.  The
  position grows in every round, so the loop ends.
\<close>

lemma iter_next_pos:
  "pb_field_iter_next it = (True, it') \<Longrightarrow>
     pos it' = Suc (pos it) \<and> pos it' < length (start it') \<and> start it' = start it \<and>
     dest_struct it' = dest_struct it"
  by (auto simp: pb_field_iter_next_def pb_field_iter_begin_def Let_def cur_def
      intro!: field_at_tag_nonzero split: if_splits)

function iter_do_while ::
    "(pb_field_iter_t \<Rightarrow> 's \<Rightarrow> (bool \<times> 's) option) \<Rightarrow> pb_field_iter_t \<Rightarrow> 's \<Rightarrow>
     (bool \<times> 's) option" where
  "iter_do_while body it s =
     do { (ok, s1) \<leftarrow> body it s;
          if \<not> ok then Some (False, s1)
          else
            case pb_field_iter_next it of
              (again, it1) \<Rightarrow>
                if again then iter_do_while body it1 s1 else Some (True, s1) }"
  by pat_completeness auto
termination
  by (relation "measure (\<lambda>(body, it, s). length (start it) - pos it)")
     (auto dest!: iter_next_pos [OF sym])

declare iter_do_while.simps [simp del]


section \<open>Where the fields are\<close>

text \<open>
  The number of fields of an array: the entries before the first terminator.
\<close>

definition nfields :: "pb_field_t list \<Rightarrow> nat" where
  "nfields fs = length (takeWhile (\<lambda>f. tag f \<noteq> 0) fs)"

fun field_addr :: "pb_field_t list \<Rightarrow> addr \<Rightarrow> nat \<Rightarrow> addr" where
  "field_addr fs base 0 = base + int (data_offset (field_at fs 0))"
| "field_addr fs base (Suc i) =
     (if union_member (field_at fs i) (field_at fs (Suc i)) then field_addr fs base i
      else field_addr fs base i + int (prev_size (field_at fs i))
        + int (data_offset (field_at fs (Suc i))))"

text \<open>
  The index the iterator counts required fields with.  A union member is never a required
  field, so skipping the count there loses nothing.
\<close>

definition required_before :: "pb_field_t list \<Rightarrow> nat \<Rightarrow> nat" where
  "required_before fs i =
     length (filter (\<lambda>f. PB_HTYPE (ftype f) = PB_HTYPE_REQUIRED) (take i fs))"

text \<open>
  The size pointer of a union member stays the one of the member before it: all members of
  a oneof share one which-field.
\<close>

fun size_addr :: "pb_field_t list \<Rightarrow> addr \<Rightarrow> nat \<Rightarrow> addr" where
  "size_addr fs base 0 = field_addr fs base 0 + size_offset (field_at fs 0)"
| "size_addr fs base (Suc i) =
     (if union_member (field_at fs i) (field_at fs (Suc i)) then size_addr fs base i
      else field_addr fs base (Suc i) + size_offset (field_at fs (Suc i)))"

definition iter_at :: "pb_field_t list \<Rightarrow> addr \<Rightarrow> nat \<Rightarrow> pb_field_iter_t" where
  "iter_at fs base i =
     \<lparr>start = fs, pos = i, required_field_index = required_before fs i, dest_struct = base,
      pData = field_addr fs base i, pSize = size_addr fs base i\<rparr>"

lemma iter_at_sel [simp]:
  "start (iter_at fs base i) = fs" "pos (iter_at fs base i) = i"
  "required_field_index (iter_at fs base i) = required_before fs i"
  "dest_struct (iter_at fs base i) = base"
  "pData (iter_at fs base i) = field_addr fs base i"
  "pSize (iter_at fs base i) = size_addr fs base i"
  "cur (iter_at fs base i) = field_at fs i"
  by (simp_all add: iter_at_def cur_def)

lemma nfields_le: "nfields fs \<le> length fs"
  by (simp add: nfields_def length_takeWhile_le)

lemma tag_before_nfields: "i < nfields fs \<Longrightarrow> tag (field_at fs i) \<noteq> 0"
proof -
  assume i: "i < nfields fs"
  then have "takeWhile (\<lambda>f. tag f \<noteq> 0) fs ! i \<in> set (takeWhile (\<lambda>f. tag f \<noteq> 0) fs)"
    by (simp add: nfields_def)
  then have "tag (takeWhile (\<lambda>f. tag f \<noteq> 0) fs ! i) \<noteq> 0"
    using set_takeWhileD by fastforce
  with i nfields_le [of fs] show ?thesis
    by (simp add: field_at_def nfields_def takeWhile_nth)
qed

lemma tag_at_nfields: "tag (field_at fs (nfields fs)) = 0"
  using nth_length_takeWhile [of "\<lambda>f. tag f \<noteq> 0" fs]
  by (auto simp: field_at_def nfields_def PB_LAST_FIELD_def)

lemma iter_begin_eq:
  "pb_field_iter_begin fs base = (0 < nfields fs, iter_at fs base 0)"
proof -
  have "tag (field_at fs 0) \<noteq> 0 \<longleftrightarrow> 0 < nfields fs"
    using tag_before_nfields [of 0 fs] tag_at_nfields [of fs] by (cases "nfields fs") auto
  then show ?thesis
    by (simp add: pb_field_iter_begin_def iter_at_def required_before_def Let_def)
qed

lemma required_before_Suc:
  "i < length fs \<Longrightarrow> required_before fs (Suc i) =
     required_before fs i + (if PB_HTYPE (ftype (field_at fs i)) = PB_HTYPE_REQUIRED then 1 else 0)"
  by (simp add: required_before_def take_Suc_conv_app_nth field_at_def)

lemma union_member_not_required:
  "union_member f g \<Longrightarrow> PB_HTYPE (ftype f) \<noteq> PB_HTYPE_REQUIRED"
  by (simp add: union_member_def pb_consts)

lemma iter_next_eq:
  assumes "i < nfields fs"
  shows "pb_field_iter_next (iter_at fs base i) =
    (if Suc i < nfields fs then (True, iter_at fs base (Suc i)) else (False, iter_at fs base 0))"
proof -
  have t: "tag (field_at fs i) \<noteq> 0" using assms by (rule tag_before_nfields)
  have i: "i < length fs" using assms nfields_le [of fs] by linarith
  show ?thesis
  proof (cases "Suc i < nfields fs")
    case True
    then have t': "tag (field_at fs (Suc i)) \<noteq> 0" by (rule tag_before_nfields)
    show ?thesis
      using t t' True i union_member_not_required [of "field_at fs i" "field_at fs (Suc i)"]
      by (auto simp: pb_field_iter_next_def Let_def iter_at_def cur_def required_before_Suc)
  next
    case False
    with assms have "Suc i = nfields fs" by simp
    then have t': "tag (field_at fs (Suc i)) = 0" using tag_at_nfields by metis
    have "snd (pb_field_iter_begin fs base) = iter_at fs base 0" by (simp add: iter_begin_eq)
    with t t' False show ?thesis
      by (simp add: pb_field_iter_next_def Let_def cur_def iter_at_def)
  qed
qed


section \<open>Searching\<close>

text \<open>
  A search that looks at the descriptor only, started at a field of the array, goes once
  around the array: \<open>cyclic\<close> lists the positions in the order it visits them.
\<close>

definition cyclic :: "nat \<Rightarrow> nat \<Rightarrow> nat list" where
  "cyclic n i = [i..<n] @ [0..<i]"

lemma iter_search_tail:
  assumes "k < nfields fs" and "j \<le> k" and "k - j < n"
    and "\<forall>i. j \<le> i \<and> i < k \<longrightarrow> \<not> Q (field_at fs i)"
    and "\<forall>i. j < i \<and> i \<le> k \<longrightarrow> i \<noteq> s0" and "Q (field_at fs k)"
  shows "iter_search n (\<lambda>it. Q (cur it)) s0 (iter_at fs base j) = Some (True, iter_at fs base k)"
  using assms
proof (induction "k - j" arbitrary: j n)
  case 0
  then have "j = k" by simp
  with 0 show ?case by (cases n) auto
next
  case (Suc d)
  then obtain n' where n: "n = Suc n'" by (cases n) auto
  from Suc have jk: "j < k" by simp
  with Suc.prems have nQ: "\<not> Q (field_at fs j)" and ne: "Suc j \<noteq> s0" by auto
  from jk Suc.prems(1) have "pb_field_iter_next (iter_at fs base j) = (True, iter_at fs base (Suc j))"
    by (simp add: iter_next_eq)
  moreover have "iter_search n' (\<lambda>it. Q (cur it)) s0 (iter_at fs base (Suc j))
      = Some (True, iter_at fs base k)"
    using Suc n jk by (intro Suc.hyps(1)) auto
  ultimately show ?case using n nQ ne by simp
qed

lemma iter_search_to_end:
  assumes "j < nfields fs" and "nfields fs - j < n" and "s0 \<le> j"
    and "\<forall>i. j \<le> i \<and> i < nfields fs \<longrightarrow> \<not> Q (field_at fs i)"
  shows "iter_search n (\<lambda>it. Q (cur it)) s0 (iter_at fs base j) =
    (if s0 = 0 then Some (False, iter_at fs base 0)
     else iter_search (n - (nfields fs - j)) (\<lambda>it. Q (cur it)) s0 (iter_at fs base 0))"
  using assms
proof (induction "nfields fs - j" arbitrary: j n)
  case 0
  then show ?case by simp
next
  case (Suc d)
  then obtain n' where n: "n = Suc n'" by (cases n) auto
  from Suc have nQ: "\<not> Q (field_at fs j)" by auto
  show ?case
  proof (cases "Suc j < nfields fs")
    case True
    have "iter_search n' (\<lambda>it. Q (cur it)) s0 (iter_at fs base (Suc j)) =
      (if s0 = 0 then Some (False, iter_at fs base 0)
       else iter_search (n' - (nfields fs - Suc j)) (\<lambda>it. Q (cur it)) s0 (iter_at fs base 0))"
      using Suc n True by (intro Suc.hyps(1)) auto
    moreover have "n' - (nfields fs - Suc j) = n - (nfields fs - j)"
      using n True by simp
    ultimately show ?thesis
      using nQ n True Suc.prems by (simp add: iter_next_eq)
  next
    case False
    with Suc have j: "Suc j = nfields fs" by simp
    then have "n - (nfields fs - j) = n'" using n by auto
    moreover have "pb_field_iter_next (iter_at fs base j) = (False, iter_at fs base 0)"
      using Suc.prems j by (simp add: iter_next_eq)
    ultimately show ?thesis using nQ n by simp
  qed
qed

lemma iter_search_around:
  assumes "j < s0" and "s0 < nfields fs" and "s0 - j \<le> n"
    and "\<forall>i. j \<le> i \<and> i < s0 \<longrightarrow> \<not> Q (field_at fs i)"
  shows "iter_search n (\<lambda>it. Q (cur it)) s0 (iter_at fs base j) = Some (False, iter_at fs base s0)"
  using assms
proof (induction "s0 - j" arbitrary: j n)
  case 0
  then show ?case by simp
next
  case (Suc d)
  then obtain n' where n: "n = Suc n'" by (cases n) auto
  from Suc have nQ: "\<not> Q (field_at fs j)" by auto
  show ?case
  proof (cases "Suc j = s0")
    case True
    with nQ n Suc.prems show ?thesis by (simp add: iter_next_eq)
  next
    case False
    have "iter_search n' (\<lambda>it. Q (cur it)) s0 (iter_at fs base (Suc j))
        = Some (False, iter_at fs base s0)"
      using Suc n False by (intro Suc.hyps(1)) auto
    with nQ n False Suc.prems show ?thesis by (simp add: iter_next_eq)
  qed
qed


declare iter_search.simps [simp del]

text \<open>The search, in one statement: it ends, and it finds a match when there is one.\<close>

lemma iter_search_spec:
  assumes i: "i < nfields fs" and n: "nfields fs < n"
  shows "if \<exists>k < nfields fs. Q (field_at fs k)
    then \<exists>k < nfields fs. Q (field_at fs k) \<and>
      iter_search n (\<lambda>it. Q (cur it)) i (iter_at fs base i) = Some (True, iter_at fs base k)
    else iter_search n (\<lambda>it. Q (cur it)) i (iter_at fs base i) = Some (False, iter_at fs base i)"
proof (cases "\<exists>k. i \<le> k \<and> k < nfields fs \<and> Q (field_at fs k)")
  case True
  define k where "k = (LEAST k. i \<le> k \<and> k < nfields fs \<and> Q (field_at fs k))"
  have k: "i \<le> k \<and> k < nfields fs \<and> Q (field_at fs k)"
    unfolding k_def using True by (rule LeastI_ex)
  have least: "\<not> Q (field_at fs l)" if "i \<le> l" "l < k" for l
    using not_less_Least [of l "\<lambda>k. i \<le> k \<and> k < nfields fs \<and> Q (field_at fs k)"] that k
    unfolding k_def [symmetric] by simp
  have "iter_search n (\<lambda>it. Q (cur it)) i (iter_at fs base i) = Some (True, iter_at fs base k)"
    using k least n by (intro iter_search_tail) auto
  with k show ?thesis by auto
next
  case False
  then have up: "iter_search n (\<lambda>it. Q (cur it)) i (iter_at fs base i) =
    (if i = 0 then Some (False, iter_at fs base 0)
     else iter_search (n - (nfields fs - i)) (\<lambda>it. Q (cur it)) i (iter_at fs base 0))"
    using i n by (intro iter_search_to_end) auto
  show ?thesis
  proof (cases "\<exists>k. k < i \<and> Q (field_at fs k)")
    case True
    define k where "k = (LEAST k. k < i \<and> Q (field_at fs k))"
    have k: "k < i \<and> Q (field_at fs k)" unfolding k_def using True by (rule LeastI_ex)
    have least: "\<not> Q (field_at fs l)" if "l < k" for l
      using not_less_Least [of l "\<lambda>k. k < i \<and> Q (field_at fs k)"] that k
      unfolding k_def [symmetric] by simp
    have "iter_search (n - (nfields fs - i)) (\<lambda>it. Q (cur it)) i (iter_at fs base 0)
        = Some (True, iter_at fs base k)"
      using k least n i by (intro iter_search_tail) auto
    moreover from k i have kn: "k < nfields fs" by simp
    moreover from k kn have "\<exists>k < nfields fs. Q (field_at fs k)" by blast
    ultimately show ?thesis using up k by auto
  next
    case none: False
    have "i \<noteq> 0 \<Longrightarrow> iter_search (n - (nfields fs - i)) (\<lambda>it. Q (cur it)) i (iter_at fs base 0)
        = Some (False, iter_at fs base i)"
      using none n i by (intro iter_search_around) auto
    with up False none show ?thesis by (auto simp: not_less)
  qed
qed

definition field_matches :: "nat \<Rightarrow> pb_field_t \<Rightarrow> bool" where
  "field_matches t f \<longleftrightarrow> tag f = t \<and> PB_LTYPE (ftype f) \<noteq> PB_LTYPE_EXTENSION"

lemma iter_find_spec:
  assumes "i < nfields fs"
  shows "if \<exists>k < nfields fs. field_matches t (field_at fs k)
    then \<exists>k < nfields fs. field_matches t (field_at fs k) \<and>
      pb_field_iter_find (iter_at fs base i) t = Some (True, iter_at fs base k)
    else pb_field_iter_find (iter_at fs base i) t = Some (False, iter_at fs base i)"
proof -
  have "iter_matches t = (\<lambda>it. field_matches t (cur it))"
    by (auto simp: fun_eq_iff iter_matches_def field_matches_def)
  then show ?thesis
    using iter_search_spec [OF assms, of "Suc (length fs)" "field_matches t" base]
      nfields_le [of fs]
    by (simp add: pb_field_iter_find_def del: Suc_less_eq)
qed


section \<open>Running the loop over all fields\<close>

text \<open>
  The loop of \<open>iter_do_while\<close> over a whole array is the body run on the fields in order, up
  to the first one that fails.
\<close>

fun each :: "('i \<Rightarrow> 's \<Rightarrow> (bool \<times> 's) option) \<Rightarrow> 'i list \<Rightarrow> 's \<Rightarrow> (bool \<times> 's) option" where
  "each body [] s = Some (True, s)"
| "each body (x # xs) s =
     do { (ok, s1) \<leftarrow> body x s; if \<not> ok then Some (False, s1) else each body xs s1 }"

lemma iter_do_while_eq:
  assumes "i < nfields fs"
  shows "iter_do_while body (iter_at fs base i) s
    = each body (map (iter_at fs base) [i..<nfields fs]) s"
  using assms
proof (induction "nfields fs - i" arbitrary: i s)
  case 0
  then show ?case by simp
next
  case (Suc d)
  then have "map (iter_at fs base) [i..<nfields fs]
      = iter_at fs base i # map (iter_at fs base) [Suc i..<nfields fs]"
    by (simp add: upt_conv_Cons)
  moreover have "iter_do_while body (iter_at fs base (Suc i)) s1
      = each body (map (iter_at fs base) [Suc i..<nfields fs]) s1" if "Suc i < nfields fs" for s1
    using Suc that by (intro Suc.hyps(1)) auto
  ultimately show ?case
    using Suc.prems
    by (subst iter_do_while.simps)
       (auto simp: iter_next_eq not_less intro!: Option.bind_cong)
qed



section \<open>Arrays built by the macros\<close>

text \<open>
  A declaration of a field as the generator writes it: the macro, waiting for the data
  offset, the member it describes, and whether it continues a oneof.  \<open>build_fields\<close>
  chooses \<open>PB_DATAOFFSET_FIRST\<close>, \<open>PB_DATAOFFSET_OTHER\<close> or \<open>PB_DATAOFFSET_UNION\<close>.
\<close>

datatype field_decl = FD (fd_macro: "nat \<Rightarrow> pb_field_t") (fd_member: c_member) (fd_union: bool)

fun build_rest :: "c_member \<Rightarrow> field_decl list \<Rightarrow> pb_field_t list" where
  "build_rest prev [] = []"
| "build_rest prev (FD mk m u # ds) =
     mk (if u then PB_DATAOFFSET_UNION m prev else PB_DATAOFFSET_OTHER m prev) # build_rest m ds"

fun build_fields :: "field_decl list \<Rightarrow> pb_field_t list" where
  "build_fields [] = []"
| "build_fields (FD mk m u # ds) = mk (PB_DATAOFFSET_FIRST m m) # build_rest m ds"

text \<open>
  What the compiler and the generator guarantee: tags are not 0, the macro's step over the
  member is the member's size, offsets stay below the marker \<open>PB_SIZE_MAX\<close>, a continued
  oneof member starts where the member before it does and both are oneof fields, and every
  other member starts at or after the end of the member before it.
\<close>

definition decl_ok :: "field_decl \<Rightarrow> bool" where
  "decl_ok d \<longleftrightarrow>
     (\<forall>fd. data_offset (fd_macro d fd) = fd \<and> tag (fd_macro d fd) \<noteq> 0 \<and>
       prev_size (fd_macro d fd) = m_size (fd_member d)) \<and>
     m_offset (fd_member d) + m_size (fd_member d) < PB_SIZE_MAX"

definition oneof_decl :: "field_decl \<Rightarrow> bool" where
  "oneof_decl d \<longleftrightarrow> (\<forall>fd. PB_HTYPE (ftype (fd_macro d fd)) = PB_HTYPE_ONEOF)"

fun decls_follow :: "field_decl \<Rightarrow> field_decl list \<Rightarrow> bool" where
  "decls_follow p [] = True"
| "decls_follow p (d # ds) =
     (decl_ok d \<and>
      (if fd_union d
       then oneof_decl p \<and> oneof_decl d \<and> m_offset (fd_member d) = m_offset (fd_member p)
       else m_offset (fd_member p) + m_size (fd_member p) \<le> m_offset (fd_member d)) \<and>
      decls_follow d ds)"

definition decls_ok :: "field_decl list \<Rightarrow> bool" where
  "decls_ok ds \<longleftrightarrow> (case ds of [] \<Rightarrow> True | d # ds' \<Rightarrow> decl_ok d \<and> \<not> fd_union d \<and> decls_follow d ds')"

lemma dataoffset_other:
  "m_offset p + m_size p \<le> m_offset m \<Longrightarrow> m_offset m < PB_SIZE_MAX \<Longrightarrow>
     int (PB_DATAOFFSET_OTHER m p) = int (m_offset m) - int (m_offset p) - int (m_size p) \<and>
     PB_DATAOFFSET_OTHER m p \<noteq> PB_SIZE_MAX"
  by (simp add: PB_DATAOFFSET_OTHER_def pb_membersize_def PB_SIZE_MAX_def)

text \<open>The walk over the rest of an array, from the address of the field before it.\<close>

fun walk :: "addr \<Rightarrow> pb_field_t \<Rightarrow> pb_field_t list \<Rightarrow> addr list" where
  "walk a p [] = []"
| "walk a p (f # fs) =
     (let b = (if union_member p f then a else a + int (prev_size p) + int (data_offset f))
      in b # walk b f fs)"

lemma walk_build_rest:
  assumes "decls_follow d ds" and "decl_ok d"
  shows "walk (base + int (m_offset (fd_member d))) (fd_macro d fd) (build_rest (fd_member d) ds)
    = map (\<lambda>d. base + int (m_offset (fd_member d))) ds"
  using assms
proof (induction ds arbitrary: d fd)
  case (Cons e ds)
  obtain mk m u where e: "e = FD mk m u" by (cases e)
  define fe where "fe = (if u then PB_DATAOFFSET_UNION m (fd_member d)
    else PB_DATAOFFSET_OTHER m (fd_member d))"
  have ok: "decl_ok e" "decls_follow e ds" using Cons.prems by auto
  have "(if union_member (fd_macro d fd) (mk fe) then base + int (m_offset (fd_member d))
      else base + int (m_offset (fd_member d)) + int (prev_size (fd_macro d fd))
        + int (data_offset (mk fe))) = base + int (m_offset m)"
  proof (cases u)
    case True
    with Cons.prems e show ?thesis
      by (auto simp: union_member_def oneof_decl_def decl_ok_def fe_def PB_DATAOFFSET_UNION_def)
  next
    case False
    with Cons.prems e have o: "m_offset (fd_member d) + m_size (fd_member d) \<le> m_offset m"
      and "m_offset m < PB_SIZE_MAX"
      by (auto simp: decl_ok_def)
    from dataoffset_other [OF this] False Cons.prems e show ?thesis
      by (auto simp: union_member_def decl_ok_def fe_def)
  qed
  moreover have "build_rest (fd_member d) (e # ds) = mk fe # build_rest m ds"
    by (simp add: e fe_def)
  ultimately show ?case
    using Cons.IH [OF ok(2,1), of fe] e by (simp only: walk.simps Let_def list.map field_decl.sel)
qed simp

lemma walk_nth:
  "j < length fs \<Longrightarrow> walk a p fs ! j =
     (if j = 0 then (if union_member p (fs ! 0) then a
        else a + int (prev_size p) + int (data_offset (fs ! 0)))
      else (if union_member (fs ! (j - 1)) (fs ! j) then walk a p fs ! (j - 1)
        else walk a p fs ! (j - 1) + int (prev_size (fs ! (j - 1))) + int (data_offset (fs ! j))))"
proof (induction fs arbitrary: a p j)
  case (Cons f fs)
  show ?case
  proof (cases j)
    case (Suc i)
    then have "i < length fs" using Cons.prems by simp
    then show ?thesis
      using Suc Cons.IH [of i "if union_member p f then a
        else a + int (prev_size p) + int (data_offset f)" f]
      by (cases i) (simp_all add: Let_def)
  qed (simp add: Let_def)
qed simp

lemma length_walk [simp]: "length (walk a p fs) = length fs"
  by (induction fs arbitrary: a p) (simp_all add: Let_def)

lemma field_addr_walk:
  "i < length (f # fs) \<Longrightarrow> field_addr (f # fs) base i =
     ((base + int (data_offset f)) # walk (base + int (data_offset f)) f fs) ! i"
proof (induction i)
  case (Suc i)
  then show ?case
    by (cases i) (auto simp: field_at_def walk_nth)
qed (simp add: field_at_def)

lemma build_rest_tags: "decls_follow d ds \<Longrightarrow> \<forall>f \<in> set (build_rest p ds). tag f \<noteq> 0"
  by (induction ds arbitrary: d p rule: build_rest.induct) (auto simp: decl_ok_def)

lemma length_build_rest [simp]: "length (build_rest p ds) = length ds"
  by (induction p ds rule: build_rest.induct) simp_all

lemma nfields_all: "\<forall>f \<in> set fs. tag f \<noteq> 0 \<Longrightarrow> nfields fs = length fs"
  by (simp add: nfields_def takeWhile_eq_all_conv [THEN iffD2])

lemma nfields_build: "decls_ok ds \<Longrightarrow> nfields (build_fields ds) = length ds"
proof (cases ds)
  case (Cons d ds')
  obtain mk m u where "d = FD mk m u" by (cases d)
  moreover assume "decls_ok ds"
  ultimately show ?thesis
    using Cons build_rest_tags [of d ds' m]
    by (subst nfields_all) (auto simp: decls_ok_def decl_ok_def)
qed (simp add: nfields_def)

lemma field_addr_build:
  assumes "decls_ok ds" and "i < length ds"
  shows "field_addr (build_fields ds) base i = base + int (m_offset (fd_member (ds ! i)))"
proof -
  from assms obtain d ds' where ds: "ds = d # ds'" by (cases ds) auto
  obtain mk m u where d: "d = FD mk m u" by (cases d)
  from assms ds have ok: "decl_ok d" "decls_follow d ds'" by (auto simp: decls_ok_def)
  have "data_offset (mk (PB_DATAOFFSET_FIRST m m)) = m_offset m"
    using ok(1) d by (simp add: decl_ok_def PB_DATAOFFSET_FIRST_def PB_SIZE_MAX_def)
  then have "field_addr (build_fields ds) base i =
      ((base + int (m_offset m)) # walk (base + int (m_offset m))
        (mk (PB_DATAOFFSET_FIRST m m)) (build_rest m ds')) ! i"
    using assms(2) ds d field_addr_walk [of i "mk (PB_DATAOFFSET_FIRST m m)" "build_rest m ds'" base]
    by simp
  also have "walk (base + int (m_offset m)) (mk (PB_DATAOFFSET_FIRST m m)) (build_rest m ds')
      = map (\<lambda>d. base + int (m_offset (fd_member d))) ds'"
    using walk_build_rest [OF ok(2,1), of base "PB_DATAOFFSET_FIRST m m"] d by simp
  finally show ?thesis
    using assms(2) ds d by (cases i) auto
qed

end
