(* ===== verification/Pb_Decode.thy ===== *)
theory Pb_Decode
  imports Pb_ReadSafety Pb_Common
begin

text \<open>
  The message decoder of Pods/nanopb/pb_decode.c: the decoders of single values
  (\<open>pb_dec_varint\<close> and its siblings), of fields (\<open>decode_static_field\<close>,
  \<open>decode_callback_field\<close>, \<open>decode_extension\<close>), the initialisation
  (\<open>pb_message_set_to_defaults\<close>) and the message loop of \<open>pb_decode_noinit\<close>.

  A decoder takes the stream and the memory and returns both.  As the targets compile it
  without \<open>PB_ENABLE_MALLOC\<close>, a pointer field is an error.  The first argument of the
  recursive functions bounds the nesting of messages, the length of a chain of extensions
  and the rounds of the application's callback on one field; \<open>rec\<close> stands for the decoder
  of the next level.
\<close>

type_synonym 'u dresult = "(bool \<times> 'u pb_istream_t \<times> mem) option"

type_synonym 'u dec_rec = "pb_field_t list \<Rightarrow> addr \<Rightarrow> 'u pb_istream_t \<Rightarrow> mem \<Rightarrow> 'u dresult"

record 'u dec_env = pb_rodata +
  decode_cb :: "addr \<Rightarrow> ('u pb_istream_t \<Rightarrow> pb_field_t \<Rightarrow> addr \<Rightarrow> mem \<Rightarrow> 'u dresult) option"
  ext_decode_cb ::
    "addr \<Rightarrow> ('u pb_istream_t \<Rightarrow> addr \<Rightarrow> u32 \<Rightarrow> pb_wire_type_t \<Rightarrow> mem \<Rightarrow> 'u dresult) option"


section \<open>Values\<close>

text \<open>
  \<open>pb_read\<close> into the message: what has been read is stored, also when the read fails.
\<close>

definition pb_read :: "'u pb_istream_t \<Rightarrow> addr \<Rightarrow> nat \<Rightarrow> mem \<Rightarrow> 'u dresult" where
  "pb_read s buf count m =
     (if buf = NULL then map_option (\<lambda>(ok, s1). (ok, s1, m)) (pb_read_null s count)
      else do { (ok, bs, s1) \<leftarrow> pb_read_raw s count;
                m1 \<leftarrow> store_bytes m buf bs;
                Some (ok, s1, m1) })"

definition memset0 :: "mem \<Rightarrow> addr \<Rightarrow> nat \<Rightarrow> mem option" where
  "memset0 m p n = store_bytes m p (replicate n 0)"

definition memcpy :: "mem \<Rightarrow> addr \<Rightarrow> addr \<Rightarrow> nat \<Rightarrow> mem option" where
  "memcpy m dst src n = do { bs \<leftarrow> load_bytes m src n; store_bytes m dst bs }"

text \<open>
  Storing an integer into a member by its \<open>sizeof\<close>; the result is the memory and the value
  read back from the member, \<open>clamped\<close> in the code.  The outer None is a size the code
  rejects.
\<close>

definition store_signed :: "mem \<Rightarrow> nat \<Rightarrow> addr \<Rightarrow> u64 \<Rightarrow> (mem \<times> u64) option option" where
  "store_signed m sz dest v =
     (if sz = 8 then Some (map_option (\<lambda>m1. (m1, v)) (store_word 8 m dest v))
      else if sz = 4 then Some (map_option (\<lambda>m1. (m1, scast (ucast v :: 32 word)))
        (store_word 4 m dest (ucast v :: 32 word)))
      else if sz = 2 then Some (map_option (\<lambda>m1. (m1, scast (ucast v :: 16 word)))
        (store_word 2 m dest (ucast v :: 16 word)))
      else if sz = 1 then Some (map_option (\<lambda>m1. (m1, scast (ucast v :: 8 word)))
        (store_word 1 m dest (ucast v :: 8 word)))
      else None)"

definition store_unsigned :: "mem \<Rightarrow> nat \<Rightarrow> addr \<Rightarrow> u64 \<Rightarrow> (mem \<times> u64) option option" where
  "store_unsigned m sz dest v =
     (if sz = 8 then Some (map_option (\<lambda>m1. (m1, v)) (store_word 8 m dest v))
      else if sz = 4 then Some (map_option (\<lambda>m1. (m1, ucast (ucast v :: 32 word)))
        (store_word 4 m dest (ucast v :: 32 word)))
      else if sz = 2 then Some (map_option (\<lambda>m1. (m1, ucast (ucast v :: 16 word)))
        (store_word 2 m dest (ucast v :: 16 word)))
      else if sz = 1 then Some (map_option (\<lambda>m1. (m1, ucast (ucast v :: 8 word)))
        (store_word 1 m dest (ucast v :: 8 word)))
      else None)"

definition store_checked ::
    "'u pb_istream_t \<Rightarrow> mem \<Rightarrow> u64 \<Rightarrow> (mem \<times> u64) option option \<Rightarrow> 'u dresult" where
  "store_checked s m v r =
     (case r of None \<Rightarrow> Some (False, i_error s ''invalid data_size'', m)
      | Some r1 \<Rightarrow> do { (m1, clamped) \<leftarrow> r1;
          if clamped \<noteq> v then Some (False, i_error s ''integer too large'', m1)
          else Some (True, s, m1) })"

definition pb_dec_varint ::
    "'u pb_istream_t \<Rightarrow> pb_field_t \<Rightarrow> addr \<Rightarrow> mem \<Rightarrow> 'u dresult" where
  "pb_dec_varint s f dest m =
     do { (ok, value, s1) \<leftarrow> pb_decode_varint s;
          if \<not> ok then Some (False, s1, m)
          else
            let svalue = (if data_size f = 8 then value else scast (ucast value :: 32 word))
            in store_checked s1 m svalue (store_signed m (data_size f) dest svalue) }"

definition pb_dec_uvarint ::
    "'u pb_istream_t \<Rightarrow> pb_field_t \<Rightarrow> addr \<Rightarrow> mem \<Rightarrow> 'u dresult" where
  "pb_dec_uvarint s f dest m =
     do { (ok, value, s1) \<leftarrow> pb_decode_varint s;
          if \<not> ok then Some (False, s1, m)
          else store_checked s1 m value (store_unsigned m (data_size f) dest value) }"

definition pb_dec_svarint ::
    "'u pb_istream_t \<Rightarrow> pb_field_t \<Rightarrow> addr \<Rightarrow> mem \<Rightarrow> 'u dresult" where
  "pb_dec_svarint s f dest m =
     do { (ok, value, s1) \<leftarrow> pb_decode_svarint s;
          if \<not> ok then Some (False, s1, m)
          else store_checked s1 m value (store_signed m (data_size f) dest value) }"

definition pb_dec_fixed32 ::
    "'u pb_istream_t \<Rightarrow> pb_field_t \<Rightarrow> addr \<Rightarrow> mem \<Rightarrow> 'u dresult" where
  "pb_dec_fixed32 s f dest m = pb_decode_fixed32 s dest m"

definition pb_dec_fixed64 ::
    "'u pb_istream_t \<Rightarrow> pb_field_t \<Rightarrow> addr \<Rightarrow> mem \<Rightarrow> 'u dresult" where
  "pb_dec_fixed64 s f dest m = pb_decode_fixed64 s dest m"

definition pb_dec_bytes ::
    "'u pb_istream_t \<Rightarrow> pb_field_t \<Rightarrow> addr \<Rightarrow> mem \<Rightarrow> 'u dresult" where
  "pb_dec_bytes s f dest m =
     do { (ok, sz, s1) \<leftarrow> pb_decode_varint32 s;
          if \<not> ok then Some (False, s1, m)
          else
            let alloc_size = PB_BYTES_ARRAY_T_ALLOCSIZE (unat sz) in
            if unat sz > PB_SIZE_MAX then Some (False, i_error s1 ''bytes overflow'', m)
            else if unat sz > alloc_size then Some (False, i_error s1 ''size too large'', m)
            else if PB_ATYPE (ftype f) = PB_ATYPE_POINTER
            then Some (False, i_error s1 ''no malloc support'', m)
            else if alloc_size > data_size f
            then Some (False, i_error s1 ''bytes overflow'', m)
            else do { m1 \<leftarrow> store_u32 m (dest + BYTES_size_ofs) (unat sz);
                      pb_read s1 (dest + BYTES_bytes_ofs) (unat sz) m1 } }"

text \<open>\<open>alloc_size = size + 1\<close> is a 32-bit addition.\<close>

definition pb_dec_string ::
    "'u pb_istream_t \<Rightarrow> pb_field_t \<Rightarrow> addr \<Rightarrow> mem \<Rightarrow> 'u dresult" where
  "pb_dec_string s f dest m =
     do { (ok, sz, s1) \<leftarrow> pb_decode_varint32 s;
          if \<not> ok then Some (False, s1, m)
          else
            let alloc_size = sz + 1 in
            if alloc_size < sz then Some (False, i_error s1 ''size too large'', m)
            else if PB_ATYPE (ftype f) = PB_ATYPE_POINTER
            then Some (False, i_error s1 ''no malloc support'', m)
            else if unat alloc_size > data_size f
            then Some (False, i_error s1 ''string overflow'', m)
            else do { (status, s2, m1) \<leftarrow> pb_read s1 dest (unat sz) m;
                      m2 \<leftarrow> store_bytes m1 (dest + int (unat sz)) [0];
                      Some (status, s2, m2) } }"

definition pb_dec_fixed_length_bytes ::
    "'u pb_istream_t \<Rightarrow> pb_field_t \<Rightarrow> addr \<Rightarrow> mem \<Rightarrow> 'u dresult" where
  "pb_dec_fixed_length_bytes s f dest m =
     do { (ok, sz, s1) \<leftarrow> pb_decode_varint32 s;
          if \<not> ok then Some (False, s1, m)
          else if unat sz > PB_SIZE_MAX then Some (False, i_error s1 ''bytes overflow'', m)
          else if sz = 0
          then map_option (\<lambda>m1. (True, s1, m1)) (memset0 m dest (data_size f))
          else if unat sz \<noteq> data_size f
          then Some (False, i_error s1 ''incorrect fixed length bytes size'', m)
          else pb_read s1 dest (data_size f) m }"


section \<open>Default values\<close>

definition iter_from_extension :: "'u dec_env \<Rightarrow> mem \<Rightarrow> addr \<Rightarrow> pb_field_iter_t option" where
  "iter_from_extension env m ext =
     do { ty \<leftarrow> load_ptr m (ext + EXT_type_ofs);
          et \<leftarrow> ext_type_at env ty;
          flds \<leftarrow> fields_at env (et_arg et);
          dest \<leftarrow> load_ptr m (ext + EXT_dest_ofs);
          let it = snd (pb_field_iter_begin flds dest);
          Some (it\<lparr>pSize := ext + EXT_found_ofs,
                   pData := (if PB_ATYPE (ftype (cur it)) = PB_ATYPE_POINTER
                             then ext + EXT_dest_ofs else dest)\<rparr>) }"

text \<open>
  The chain of extensions of a message and the fields of a submessage, initialised by the
  function given.
\<close>

fun extension_defaults ::
    "nat \<Rightarrow> (pb_field_iter_t \<Rightarrow> mem \<Rightarrow> mem option) \<Rightarrow> 'u dec_env \<Rightarrow> mem \<Rightarrow> addr \<Rightarrow> mem option" where
  "extension_defaults 0 F env m ext = (if ext = NULL then Some m else None)"
| "extension_defaults (Suc k) F env m ext =
     (if ext = NULL then Some m
      else do { m1 \<leftarrow> store_bool m (ext + EXT_found_ofs) False;
                it \<leftarrow> iter_from_extension env m1 ext;
                m2 \<leftarrow> F it m1;
                nxt \<leftarrow> load_ptr m2 (ext + EXT_next_ofs);
                extension_defaults k F env m2 nxt })"

definition message_defaults ::
    "(pb_field_iter_t \<Rightarrow> mem \<Rightarrow> mem option) \<Rightarrow> pb_field_t list \<Rightarrow> addr \<Rightarrow> mem \<Rightarrow> mem option" where
  "message_defaults F flds dest m =
     (case pb_field_iter_begin flds dest of
        (nonempty, it) \<Rightarrow>
          if \<not> nonempty then Some m
          else map_option snd (iter_do_while (\<lambda>it m. map_option (Pair True) (F it m)) it m))"

text \<open>\<open>init_data\<close> of the code is false for repeated and oneof fields.\<close>

fun pb_field_set_to_default ::
    "nat \<Rightarrow> 'u dec_env \<Rightarrow> pb_field_iter_t \<Rightarrow> mem \<Rightarrow> mem option" where
  "pb_field_set_to_default 0 env it m = None"
| "pb_field_set_to_default (Suc n) env it m =
     (let f = cur it; h = PB_HTYPE (ftype f); a = PB_ATYPE (ftype f) in
      if PB_LTYPE (ftype f) = PB_LTYPE_EXTENSION
      then do { ext \<leftarrow> load_ptr m (pData it);
                extension_defaults (Suc n) (pb_field_set_to_default n env) env m ext }
      else if a = PB_ATYPE_STATIC
      then do {
        m1 \<leftarrow> (if h = PB_HTYPE_OPTIONAL \<and> pSize it \<noteq> pData it
               then store_bool m (pSize it) False
               else if h = PB_HTYPE_REPEATED \<or> h = PB_HTYPE_ONEOF
               then store_u32 m (pSize it) 0
               else Some m);
        if h = PB_HTYPE_REPEATED \<or> h = PB_HTYPE_ONEOF then Some m1
        else if PB_LTYPE (ftype f) = PB_LTYPE_SUBMESSAGE
        then do { flds \<leftarrow> fields_at env (fptr f);
                  message_defaults (pb_field_set_to_default n env) flds (pData it) m1 }
        else if fptr f \<noteq> NULL then memcpy m1 (pData it) (fptr f) (data_size f)
        else memset0 m1 (pData it) (data_size f) }
      else if a = PB_ATYPE_POINTER
      then do {
        m1 \<leftarrow> store_ptr m (pData it) NULL;
        if h = PB_HTYPE_REPEATED \<or> h = PB_HTYPE_ONEOF then store_u32 m1 (pSize it) 0
        else Some m1 }
      else Some m)"

definition pb_message_set_to_defaults ::
    "nat \<Rightarrow> 'u dec_env \<Rightarrow> pb_field_t list \<Rightarrow> addr \<Rightarrow> mem \<Rightarrow> mem option" where
  "pb_message_set_to_defaults n env flds dest m =
     message_defaults (pb_field_set_to_default n env) flds dest m"

text \<open>\<open>pb_decode\<close>, over the decoder of a message that is already initialised.\<close>

definition decode_with_init ::
    "nat \<Rightarrow> 'u dec_env \<Rightarrow> 'u dec_rec \<Rightarrow> 'u dec_rec" where
  "decode_with_init n env rec flds dest s m =
     do { m1 \<leftarrow> pb_message_set_to_defaults n env flds dest m; rec flds dest s m1 }"


section \<open>Fields\<close>

definition pb_dec_submessage ::
    "nat \<Rightarrow> 'u dec_env \<Rightarrow> 'u dec_rec \<Rightarrow> 'u pb_istream_t \<Rightarrow> pb_field_t \<Rightarrow> addr \<Rightarrow> mem \<Rightarrow> 'u dresult" where
  "pb_dec_submessage n env rec s f dest m =
     do { (ok, s1, sub) \<leftarrow> pb_make_string_substream s;
          if \<not> ok then Some (False, s1, m)
          else if fptr f = NULL then Some (False, i_error s1 ''invalid field descriptor'', m)
          else do {
            flds \<leftarrow> fields_at env (fptr f);
            (status, sub1, m1) \<leftarrow>
              (if PB_HTYPE (ftype f) = PB_HTYPE_REPEATED
               then decode_with_init n env rec flds dest sub m
               else rec flds dest sub m);
            (ok, s2) \<leftarrow> pb_close_string_substream s1 sub1;
            Some (ok \<and> status, s2, m1) } }"

definition PB_DECODERS ::
    "nat \<Rightarrow> 'u dec_env \<Rightarrow> 'u dec_rec \<Rightarrow> byte \<Rightarrow>
     ('u pb_istream_t \<Rightarrow> pb_field_t \<Rightarrow> addr \<Rightarrow> mem \<Rightarrow> 'u dresult)" where
  "PB_DECODERS n env rec lt =
     (if lt = PB_LTYPE_VARINT then pb_dec_varint
      else if lt = PB_LTYPE_UVARINT then pb_dec_uvarint
      else if lt = PB_LTYPE_SVARINT then pb_dec_svarint
      else if lt = PB_LTYPE_FIXED32 then pb_dec_fixed32
      else if lt = PB_LTYPE_FIXED64 then pb_dec_fixed64
      else if lt = PB_LTYPE_BYTES then pb_dec_bytes
      else if lt = PB_LTYPE_STRING then pb_dec_string
      else if lt = PB_LTYPE_SUBMESSAGE then pb_dec_submessage n env rec
      else if lt = PB_LTYPE_FIXED_LENGTH_BYTES then pb_dec_fixed_length_bytes
      else (\<lambda>s f dest m. None))"

text \<open>
  The index into a static array: \<open>iter->pos->data_size * ( *size)\<close>, a product of two
  \<open>pb_size_t\<close>.
\<close>

definition item_offset :: "pb_field_t \<Rightarrow> nat \<Rightarrow> int" where
  "item_offset f i = int ((data_size f * i) mod 2 ^ 32)"

text \<open>
  The loop over a packed array.  The count lives in the message.  The result tells whether
  an element failed.  Every element the code decodes takes input or fails, so one more
  round than the substream has bytes is enough.
\<close>

fun packed_loop ::
    "nat \<Rightarrow> ('u pb_istream_t \<Rightarrow> pb_field_t \<Rightarrow> addr \<Rightarrow> mem \<Rightarrow> 'u dresult) \<Rightarrow> pb_field_iter_t \<Rightarrow>
     'u pb_istream_t \<Rightarrow> mem \<Rightarrow> 'u dresult" where
  "packed_loop 0 func it sub m = None"
| "packed_loop (Suc k) func it sub m =
     (if bytes_left sub = 0 then Some (True, sub, m)
      else do {
        sz \<leftarrow> load_u32 m (pSize it);
        if \<not> sz < array_size (cur it) then Some (True, sub, m)
        else do {
          (ok, sub1, m1) \<leftarrow> func sub (cur it) (pData it + item_offset (cur it) sz) m;
          if \<not> ok then Some (False, sub1, m1)
          else do {
            sz1 \<leftarrow> load_u32 m1 (pSize it);
            m2 \<leftarrow> store_u32 m1 (pSize it) (sz1 + 1);
            packed_loop k func it sub1 m2 } } })"

definition decode_packed ::
    "('u pb_istream_t \<Rightarrow> pb_field_t \<Rightarrow> addr \<Rightarrow> mem \<Rightarrow> 'u dresult) \<Rightarrow> pb_field_iter_t \<Rightarrow>
     'u pb_istream_t \<Rightarrow> mem \<Rightarrow> 'u dresult" where
  "decode_packed func it s m =
     do { (ok, s1, sub) \<leftarrow> pb_make_string_substream s;
          if \<not> ok then Some (False, s1, m)
          else do {
            (status, sub1, m1) \<leftarrow> packed_loop (Suc (bytes_left sub)) func it sub m;
            if bytes_left sub1 \<noteq> 0 then Some (False, i_error s1 ''array overflow'', m1)
            else do {
              (ok, s2) \<leftarrow> pb_close_string_substream s1 sub1;
              Some (ok \<and> status, s2, m1) } } }"

definition decode_static_field ::
    "nat \<Rightarrow> 'u dec_env \<Rightarrow> 'u dec_rec \<Rightarrow> 'u pb_istream_t \<Rightarrow> pb_wire_type_t \<Rightarrow> pb_field_iter_t \<Rightarrow>
     mem \<Rightarrow> 'u dresult" where
  "decode_static_field n env rec s wt it m =
     (let f = cur it; lt = PB_LTYPE (ftype f); h = PB_HTYPE (ftype f);
          func = PB_DECODERS n env rec lt in
      if 0x0A \<le> lt then None
      else if h = PB_HTYPE_REQUIRED then func s f (pData it) m
      else if h = PB_HTYPE_OPTIONAL
      then do {
        m1 \<leftarrow> (if pSize it \<noteq> pData it then store_bool m (pSize it) True else Some m);
        func s f (pData it) m1 }
      else if h = PB_HTYPE_REPEATED
      then (if wt = PB_WT_STRING \<and> lt \<le> PB_LTYPE_LAST_PACKABLE then decode_packed func it s m
            else do {
              sz \<leftarrow> load_u32 m (pSize it);
              if sz \<ge> array_size f then Some (False, i_error s ''array overflow'', m)
              else do { m1 \<leftarrow> store_u32 m (pSize it) (sz + 1);
                        func s f (pData it + item_offset f sz) m1 } })
      else if h = PB_HTYPE_ONEOF
      then do {
        m1 \<leftarrow> store_u32 m (pSize it) (tag f);
        m2 \<leftarrow> (if lt = PB_LTYPE_SUBMESSAGE
               then do {
                 mz \<leftarrow> memset0 m1 (pData it) (data_size f);
                 flds \<leftarrow> fields_at env (fptr f);
                 pb_message_set_to_defaults n env flds (pData it) mz }
               else Some m1);
        func s f (pData it) m2 }
      else Some (False, i_error s ''invalid field type'', m))"

definition decode_pointer_field ::
    "'u pb_istream_t \<Rightarrow> pb_wire_type_t \<Rightarrow> pb_field_iter_t \<Rightarrow> mem \<Rightarrow> 'u dresult" where
  "decode_pointer_field s wt it m = Some (False, i_error s ''no malloc support'', m)"

text \<open>
  \<open>do ... while (substream.bytes_left)\<close> around the application's function; the result says
  whether it failed.
\<close>

fun callback_loop ::
    "nat \<Rightarrow> ('u pb_istream_t \<Rightarrow> mem \<Rightarrow> 'u dresult) \<Rightarrow> 'u pb_istream_t \<Rightarrow> mem \<Rightarrow> 'u dresult" where
  "callback_loop 0 fn sub m = None"
| "callback_loop (Suc k) fn sub m =
     do { (ok, sub1, m1) \<leftarrow> fn sub m;
          if \<not> ok then Some (False, sub1, m1)
          else if bytes_left sub1 = 0 then Some (True, sub1, m1)
          else callback_loop k fn sub1 m1 }"

definition decode_callback_field ::
    "nat \<Rightarrow> 'u dec_env \<Rightarrow> 'u pb_istream_t \<Rightarrow> pb_wire_type_t \<Rightarrow> pb_field_iter_t \<Rightarrow> mem \<Rightarrow> 'u dresult" where
  "decode_callback_field n env s wt it m =
     do { fn \<leftarrow> load_ptr m (pData it + CALLBACK_funcs_ofs);
          let arg = pData it + CALLBACK_arg_ofs;
          if fn = NULL then map_option (\<lambda>(ok, s1). (ok, s1, m)) (pb_skip_field s wt)
          else if wt = PB_WT_STRING
          then do {
            (ok, s1, sub) \<leftarrow> pb_make_string_substream s;
            if \<not> ok then Some (False, s1, m)
            else do {
              decode \<leftarrow> decode_cb env fn;
              (ok, sub1, m1) \<leftarrow> callback_loop n (\<lambda>sub m. decode sub (cur it) arg m) sub m;
              if \<not> ok then Some (False, i_error s1 ''callback failed'', m1)
              else do { (ok, s2) \<leftarrow> pb_close_string_substream s1 sub1; Some (ok, s2, m1) } } }
          else do {
            (ok, bs, s1) \<leftarrow> read_raw_value s wt 10;
            if \<not> ok then Some (False, s1, m)
            else do {
              decode \<leftarrow> decode_cb env fn;
              (ok, sub1, m1) \<leftarrow> decode (pb_istream_from_buffer bs (length bs)) (cur it) arg m;
              Some (ok, s1, m1) } } }"

definition decode_field ::
    "nat \<Rightarrow> 'u dec_env \<Rightarrow> 'u dec_rec \<Rightarrow> 'u pb_istream_t \<Rightarrow> pb_wire_type_t \<Rightarrow> pb_field_iter_t \<Rightarrow>
     mem \<Rightarrow> 'u dresult" where
  "decode_field n env rec s wt it m =
     (let a = PB_ATYPE (ftype (cur it)) in
      if a = PB_ATYPE_STATIC then decode_static_field n env rec s wt it m
      else if a = PB_ATYPE_POINTER then decode_pointer_field s wt it m
      else if a = PB_ATYPE_CALLBACK then decode_callback_field n env s wt it m
      else Some (False, i_error s ''invalid field type'', m))"


section \<open>Extensions\<close>

definition default_extension_decoder ::
    "nat \<Rightarrow> 'u dec_env \<Rightarrow> 'u dec_rec \<Rightarrow> 'u pb_istream_t \<Rightarrow> addr \<Rightarrow> u32 \<Rightarrow> pb_wire_type_t \<Rightarrow> mem \<Rightarrow>
     'u dresult" where
  "default_extension_decoder n env rec s ext t wt m =
     do { ty \<leftarrow> load_ptr m (ext + EXT_type_ofs);
          et \<leftarrow> ext_type_at env ty;
          flds \<leftarrow> fields_at env (et_arg et);
          if tag (field_at flds 0) \<noteq> unat t then Some (True, s, m)
          else do {
            it \<leftarrow> iter_from_extension env m ext;
            m1 \<leftarrow> store_bool m (ext + EXT_found_ofs) True;
            decode_field n env rec s wt it m1 } }"

fun extension_loop ::
    "nat \<Rightarrow> nat \<Rightarrow> 'u dec_env \<Rightarrow> 'u dec_rec \<Rightarrow> nat \<Rightarrow> u32 \<Rightarrow> pb_wire_type_t \<Rightarrow> addr \<Rightarrow>
     'u pb_istream_t \<Rightarrow> mem \<Rightarrow> 'u dresult" where
  "extension_loop 0 n env rec pos0 t wt ext s m =
     (if ext = NULL \<or> pos0 \<noteq> bytes_left s then Some (True, s, m) else None)"
| "extension_loop (Suc k) n env rec pos0 t wt ext s m =
     (if ext = NULL \<or> pos0 \<noteq> bytes_left s then Some (True, s, m)
      else do {
        ty \<leftarrow> load_ptr m (ext + EXT_type_ofs);
        et \<leftarrow> ext_type_at env ty;
        (status, s1, m1) \<leftarrow>
          (if et_decode et \<noteq> NULL
           then do { decode \<leftarrow> ext_decode_cb env (et_decode et); decode s ext t wt m }
           else default_extension_decoder n env rec s ext t wt m);
        if \<not> status then Some (False, s1, m1)
        else do { nxt \<leftarrow> load_ptr m1 (ext + EXT_next_ofs);
                  extension_loop k n env rec pos0 t wt nxt s1 m1 } })"

definition decode_extension ::
    "nat \<Rightarrow> 'u dec_env \<Rightarrow> 'u dec_rec \<Rightarrow> 'u pb_istream_t \<Rightarrow> u32 \<Rightarrow> pb_wire_type_t \<Rightarrow>
     pb_field_iter_t \<Rightarrow> mem \<Rightarrow> 'u dresult" where
  "decode_extension n env rec s t wt it m =
     do { ext \<leftarrow> load_ptr m (pData it);
          extension_loop n n env rec (bytes_left s) t wt ext s m }"

definition find_extension_field :: "pb_field_iter_t \<Rightarrow> (bool \<times> pb_field_iter_t) option" where
  "find_extension_field it =
     iter_search (Suc (length (start it)))
       (\<lambda>it. PB_LTYPE (ftype (cur it)) = PB_LTYPE_EXTENSION) (pos it) it"


section \<open>Messages\<close>

text \<open>
  The local variables of \<open>pb_decode_noinit\<close> and its one loop.  An iteration goes on, leaves
  the loop at the end of the message, or makes the function return false.
\<close>

record 'u dec_state =
  d_stream :: "'u pb_istream_t"
  d_mem :: mem
  d_iter :: pb_field_iter_t
  extension_range_start :: u32
  fields_seen :: "u32 list"

datatype flow = Continue | Break | Return_False

definition skip_unknown :: "pb_wire_type_t \<Rightarrow> 'u dec_state \<Rightarrow> (flow \<times> 'u dec_state) option" where
  "skip_unknown wt st =
     do { (ok, s1) \<leftarrow> pb_skip_field (d_stream st) wt;
          Some (if ok then Continue else Return_False, st\<lparr>d_stream := s1\<rparr>) }"

definition decode_unknown ::
    "nat \<Rightarrow> 'u dec_env \<Rightarrow> 'u dec_rec \<Rightarrow> u32 \<Rightarrow> pb_wire_type_t \<Rightarrow> 'u dec_state \<Rightarrow>
     (flow \<times> 'u dec_state) option" where
  "decode_unknown n env rec t wt st =
     (if t \<ge> extension_range_start st
      then do {
        (found, it1) \<leftarrow> find_extension_field (d_iter st);
        let ers = (if found then of_nat (tag (cur it1)) else - 1);
        let st1 = st\<lparr>d_iter := it1, extension_range_start := ers\<rparr>;
        if t \<ge> ers
        then do {
          (ok, s2, m2) \<leftarrow> decode_extension n env rec (d_stream st1) t wt it1 (d_mem st1);
          let st2 = st1\<lparr>d_stream := s2, d_mem := m2\<rparr>;
          if \<not> ok then Some (Return_False, st2)
          else if bytes_left (d_stream st1) \<noteq> bytes_left s2 then Some (Continue, st2)
          else skip_unknown wt st2 }
        else skip_unknown wt st1 }
      else skip_unknown wt st)"

definition mark_seen :: "pb_field_iter_t \<Rightarrow> u32 list \<Rightarrow> u32 list" where
  "mark_seen it seen =
     (let i = required_field_index it in
      if PB_HTYPE (ftype (cur it)) = PB_HTYPE_REQUIRED \<and> i < PB_MAX_REQUIRED_FIELDS
      then seen[i div 32 := seen ! (i div 32) OR push_bit (i mod 32) 1]
      else seen)"

definition decode_iteration ::
    "nat \<Rightarrow> 'u dec_env \<Rightarrow> 'u dec_rec \<Rightarrow> 'u dec_state \<Rightarrow> (flow \<times> 'u dec_state) option" where
  "decode_iteration n env rec st =
     do { (ok, wt, t, eof, s1) \<leftarrow> pb_decode_tag (d_stream st);
          let st1 = st\<lparr>d_stream := s1\<rparr>;
          if \<not> ok then Some (if eof then Break else Return_False, st1)
          else do {
            (found, it1) \<leftarrow> pb_field_iter_find (d_iter st1) (unat t);
            let st2 = st1\<lparr>d_iter := it1\<rparr>;
            if \<not> found then decode_unknown n env rec t wt st2
            else do {
              let st3 = st2\<lparr>fields_seen := mark_seen it1 (fields_seen st2)\<rparr>;
              (ok, s2, m2) \<leftarrow> decode_field n env rec s1 wt it1 (d_mem st3);
              Some (if ok then Continue else Return_False,
                    st3\<lparr>d_stream := s2, d_mem := m2\<rparr>) } } }"

text \<open>
  \<open>while (stream->bytes_left)\<close>: every iteration that continues has read a tag, so one more
  round than there are bytes is enough.
\<close>

fun decode_loop ::
    "nat \<Rightarrow> ('u dec_state \<Rightarrow> (flow \<times> 'u dec_state) option) \<Rightarrow> 'u dec_state \<Rightarrow>
     (bool \<times> 'u dec_state) option" where
  "decode_loop 0 step st = None"
| "decode_loop (Suc k) step st =
     (if bytes_left (d_stream st) = 0 then Some (True, st)
      else do {
        (fl, st1) \<leftarrow> step st;
        case fl of Continue \<Rightarrow> decode_loop k step st1
          | Break \<Rightarrow> Some (True, st1)
          | Return_False \<Rightarrow> Some (False, st1) })"

text \<open>
  The check of the required fields.  \<open>fields_seen\<close> has two words, and shifting a
  \<open>uint32_t\<close> by 32 is undefined.
\<close>

fun whole_words_seen :: "u32 list \<Rightarrow> nat \<Rightarrow> nat \<Rightarrow> bool option" where
  "whole_words_seen seen i 0 = Some True"
| "whole_words_seen seen i (Suc k) =
     (if i \<ge> length seen then None
      else if seen ! i \<noteq> - 1 then Some False
      else whole_words_seen seen (i + 1) k)"

definition required_seen :: "u32 list \<Rightarrow> nat \<Rightarrow> bool option" where
  "required_seen seen count =
     (if count = 0 then Some True
      else do {
        whole \<leftarrow> whole_words_seen seen 0 (count div 32);
        if \<not> whole then Some False
        else if count div 32 \<ge> length seen \<or> count mod 32 = 0 then None
        else Some (seen ! (count div 32) = drop_bit (32 - count mod 32) (- 1)) })"

definition count_required :: "pb_field_iter_t \<Rightarrow> nat option" where
  "count_required it =
     do { (_, req_field_count, last_type) \<leftarrow>
            iter_do_while (\<lambda>it _. Some (True, required_field_index it, ftype (cur it))) it (0, 0);
          Some (if PB_HTYPE last_type = PB_HTYPE_REQUIRED \<and> tag (field_at (start it) 0) \<noteq> 0
                then req_field_count + 1 else req_field_count) }"

definition decode_body :: "nat \<Rightarrow> 'u dec_env \<Rightarrow> 'u dec_rec \<Rightarrow> 'u dec_rec" where
  "decode_body n env rec flds dest s m =
     do { (ok, st) \<leftarrow> decode_loop (Suc (bytes_left s)) (decode_iteration n env rec)
            \<lparr>d_stream = s, d_mem = m, d_iter = snd (pb_field_iter_begin flds dest),
             extension_range_start = 0, fields_seen = [0, 0]\<rparr>;
          if \<not> ok then Some (False, d_stream st, d_mem st)
          else do {
            count \<leftarrow> count_required (d_iter st);
            seen \<leftarrow> required_seen (fields_seen st) count;
            if seen then Some (True, d_stream st, d_mem st)
            else Some (False, i_error (d_stream st) ''missing required field'', d_mem st) } }"

fun pb_decode_noinit_f :: "nat \<Rightarrow> 'u dec_env \<Rightarrow> 'u dec_rec" where
  "pb_decode_noinit_f 0 env flds dest s m = None"
| "pb_decode_noinit_f (Suc n) env flds dest s m =
     decode_body (Suc n) env (pb_decode_noinit_f n env) flds dest s m"

definition pb_decode_noinit ::
    "nat \<Rightarrow> 'u dec_env \<Rightarrow> 'u pb_istream_t \<Rightarrow> pb_field_t list \<Rightarrow> addr \<Rightarrow> mem \<Rightarrow> 'u dresult" where
  "pb_decode_noinit n env s flds dest m = pb_decode_noinit_f n env flds dest s m"

definition pb_decode ::
    "nat \<Rightarrow> 'u dec_env \<Rightarrow> 'u pb_istream_t \<Rightarrow> pb_field_t list \<Rightarrow> addr \<Rightarrow> mem \<Rightarrow> 'u dresult" where
  "pb_decode n env s flds dest m =
     do { m1 \<leftarrow> pb_message_set_to_defaults n env flds dest m;
          pb_decode_noinit n env s flds dest m1 }"

definition pb_decode_delimited ::
    "nat \<Rightarrow> 'u dec_env \<Rightarrow> 'u pb_istream_t \<Rightarrow> pb_field_t list \<Rightarrow> addr \<Rightarrow> mem \<Rightarrow> 'u dresult" where
  "pb_decode_delimited n env s flds dest m =
     do { (ok, s1, sub) \<leftarrow> pb_make_string_substream s;
          if \<not> ok then Some (False, s1, m)
          else do {
            (status, sub1, m1) \<leftarrow> pb_decode n env sub flds dest m;
            (ok, s2) \<leftarrow> pb_close_string_substream s1 sub1;
            Some (ok \<and> status, s2, m1) } }"

end
