(* ===== verification/Pb_DecodeSafety.thy ===== *)
theory Pb_DecodeSafety
  imports Pb_Decode
begin

text \<open>
  Memory safety of the message decoder on input nobody encoded.  For a message type whose
  fields lie inside its structure, \<open>pb_decode\<close> returns on every input from every byte
  source, reads no byte outside the stream, and changes no byte outside the structure.

  \<open>readable r s\<close> says that the stream may read all it announces and that \<open>r\<close> bytes of an
  enclosing stream lie behind that.  It is kept by calls that fail as well as by those that
  succeed, which a statement about the exact remaining bytes is not.
\<close>

section \<open>What a decoder may do\<close>

definition readable ::
    "'u icallback \<Rightarrow> ('u istate \<Rightarrow> byte list option) \<Rightarrow> nat \<Rightarrow> 'u pb_istream_t \<Rightarrow> bool" where
  "readable cb contents r s \<longleftrightarrow>
     i_callback s = cb \<and>
     (case contents (i_state s) of None \<Rightarrow> False | Some zs \<Rightarrow> bytes_left s + r \<le> length zs)"

definition changed_within :: "addr \<Rightarrow> nat \<Rightarrow> mem \<Rightarrow> mem \<Rightarrow> bool" where
  "changed_within a n m m' \<longleftrightarrow> dom m' = dom m \<and> (\<forall>c. c < a \<or> a + int n \<le> c \<longrightarrow> m' c = m c)"

text \<open>
  \<open>decodes k r a n m s res\<close>: the result is defined, the stream is still readable and has
  given at least \<open>k\<close> bytes if the call succeeded, and only bytes of \<open>a .. a + n - 1\<close> changed.
\<close>

definition decodes ::
    "'u icallback \<Rightarrow> ('u istate \<Rightarrow> byte list option) \<Rightarrow> nat \<Rightarrow> nat \<Rightarrow> addr \<Rightarrow> nat \<Rightarrow> mem \<Rightarrow>
     'u pb_istream_t \<Rightarrow> 'u dresult \<Rightarrow> bool" where
  "decodes cb contents k r a n m s res \<longleftrightarrow>
     (\<exists>ok s' m'. res = Some (ok, s', m') \<and> readable cb contents r s' \<and>
        bytes_left s' + (if ok then k else 0) \<le> bytes_left s \<and> changed_within a n m m')"

lemma changed_refl [simp]: "changed_within a n m m"
  by (simp add: changed_within_def)

lemma changed_trans [trans]:
  "changed_within a n m m1 \<Longrightarrow> changed_within a n m1 m2 \<Longrightarrow> changed_within a n m m2"
  by (simp add: changed_within_def)

lemma changed_mono:
  "changed_within b k m m' \<Longrightarrow> a \<le> b \<Longrightarrow> b + int k \<le> a + int n \<Longrightarrow> changed_within a n m m'"
  by (simp add: changed_within_def)

lemma changed_dom: "changed_within a n m m' \<Longrightarrow> dom m' = dom m"
  by (simp add: changed_within_def)

lemma changed_allocated: "changed_within a n m m' \<Longrightarrow> allocated m' b k = allocated m b k"
  by (rule allocated_dom) (rule changed_dom)

lemma store_bytes_changed:
  assumes "allocated m a (length bs)"
  obtains m' where "store_bytes m a bs = Some m'" and "changed_within a (length bs) m m'"
proof -
  from cmem.store_total [OF assms] obtain m' where m': "store_bytes m a bs = Some m'" by auto
  then have "changed_within a (length bs) m m'"
    using store_bytes_dom [OF m'] store_bytes_outside [OF m'] by (auto simp: changed_within_def)
  with m' that show thesis by blast
qed

lemma store_word_changed:
  assumes "allocated m a n"
  obtains m' where "store_word n m a w = Some m'" and "changed_within a n m m'"
  using store_bytes_changed [of m a "le_bytes n w"] assms by (auto simp: store_word_def)

lemma store_word_ex:
  "allocated m a n \<Longrightarrow> \<exists>m'. store_word n m a w = Some m' \<and> changed_within a n m m'"
  by (rule store_word_changed) auto

lemma store_bool_changed:
  assumes "allocated m a 1"
  obtains m' where "store_bool m a v = Some m'" and "changed_within a 1 m m'"
  using store_word_changed [OF assms] by (auto simp: store_bool_def)

lemma store_u32_changed:
  assumes "allocated m a 4"
  obtains m' where "store_u32 m a v = Some m'" and "changed_within a 4 m m'"
  using store_word_changed [OF assms] by (auto simp: store_u32_def)

lemma store_ptr_changed:
  assumes "allocated m a 8"
  obtains m' where "store_ptr m a v = Some m'" and "changed_within a 8 m m'"
  using store_word_changed [OF assms] by (auto simp: store_ptr_def)

lemma memset0_changed:
  assumes "allocated m a n"
  obtains m' where "memset0 m a n = Some m'" and "changed_within a n m m'"
  using store_bytes_changed [of m a "replicate n 0"] assms by (auto simp: memset0_def)

lemma memcpy_changed:
  assumes "allocated m a n" and "allocated m b n"
  obtains m' where "memcpy m a b n = Some m'" and "changed_within a n m m'"
proof -
  from cmem.load_total [OF assms(2)] obtain bs where "load_bytes m b n = Some bs" "length bs = n"
    by auto
  with store_bytes_changed [of m a bs] assms(1) that show thesis by (auto simp: memcpy_def)
qed

lemma load_u32_total: "allocated m a 4 \<Longrightarrow> \<exists>v. load_u32 m a = Some v"
  using load_word_total [of m a 4, where 'a = 32] by (auto simp: load_u32_def)

lemma decodesI:
  "readable cb contents r s' \<Longrightarrow> bytes_left s' + (if ok then k else 0) \<le> bytes_left s \<Longrightarrow>
     changed_within a n m m' \<Longrightarrow> decodes cb contents k r a n m s (Some (ok, s', m'))"
  by (simp add: decodes_def)

lemma decodesE:
  assumes "decodes cb contents k r a n m s res"
  obtains ok s' m' where "res = Some (ok, s', m')" and "readable cb contents r s'"
    and "bytes_left s' + (if ok then k else 0) \<le> bytes_left s" and "changed_within a n m m'"
  using assms by (auto simp: decodes_def)

lemma decodes_mono:
  assumes "decodes cb contents j r b l m s res" and "k \<le> j" and "a \<le> b" and "b + int l \<le> a + int n"
  shows "decodes cb contents k r a n m s res"
  by (rule decodesE [OF assms(1)])
     (use assms(2-4) in \<open>auto intro!: decodesI intro: changed_mono split: if_splits\<close>)

text \<open>A step that changes the memory first, and one that reads first.\<close>

lemma decodes_after:
  assumes "decodes cb contents k r a n m1 s1 res" and "changed_within a n m m1"
    and "bytes_left s1 \<le> bytes_left s"
  shows "decodes cb contents k r a n m s res"
  by (rule decodesE [OF assms(1)])
     (use assms(2,3) in \<open>auto intro!: decodesI intro: changed_trans split: if_splits\<close>)

lemma decodes_then:
  assumes "decodes cb contents k r a n m1 s1 res" and "changed_within a n m m1"
    and "bytes_left s1 + j \<le> bytes_left s"
  shows "decodes cb contents j r a n m s res"
  by (rule decodesE [OF assms(1)])
     (use assms(2,3) in \<open>auto intro!: decodesI intro: changed_trans split: if_splits\<close>)

lemma readable_error [simp]: "readable cb contents r (i_error s msg) = readable cb contents r s"
  by (auto simp: readable_def i_error_def split: option.splits)

lemma bytes_left_error [simp]: "bytes_left (i_error s msg) = bytes_left s"
  by (simp add: i_error_def)

lemma readable_mono: "readable cb contents r s \<Longrightarrow> k \<le> r \<Longrightarrow> readable cb contents k s"
  by (auto simp: readable_def split: option.splits)

lemma readable_delivers:
  assumes "readable cb contents r s"
  obtains bs rest where "delivers cb contents s bs rest" and "r \<le> length rest"
proof -
  from assms obtain zs where zs: "contents (i_state s) = Some zs" "bytes_left s + r \<le> length zs"
    and cb: "i_callback s = cb"
    by (auto simp: readable_def split: option.splits)
  have "delivers cb contents s (take (bytes_left s) zs) (drop (bytes_left s) zs)"
    using zs cb by (simp add: delivers_def)
  moreover have "r \<le> length (drop (bytes_left s) zs)" using zs by simp
  ultimately show thesis by (rule that)
qed

lemma delivers_readable:
  "delivers cb contents s bs rest \<Longrightarrow> r \<le> length rest \<Longrightarrow> readable cb contents r s"
  by (simp add: delivers_def readable_def)

lemma safe_reader_readable:
  assumes "safe_reader cb contents k f" and "readable cb contents r s"
  obtains ok v s' where "f s = Some (ok, v, s')" and "readable cb contents r s'"
    and "bytes_left s' + (if ok then k else 0) \<le> bytes_left s"
proof -
  from assms(2) obtain bs rest where d: "delivers cb contents s bs rest" and r: "r \<le> length rest"
    by (rule readable_delivers)
  from safe_readerD [OF assms(1) d] show thesis
  proof (rule safe_atE)
    fix ok v s' xs ys
    assume f: "f s = Some (ok, v, s')" and bs: "bs = xs @ ys"
      and d': "delivers cb contents s' ys rest" and k: "ok \<Longrightarrow> k \<le> length xs"
    have "bytes_left s' + (if ok then k else 0) \<le> bytes_left s"
      using d d' bs k by (simp add: delivers_def)
    with f delivers_readable [OF d' r] show thesis by (rule that)
  qed
qed


section \<open>Values\<close>

lemma unat_plus_one: "\<not> sz + 1 < (sz :: u32) \<Longrightarrow> unat (sz + 1) = unat sz + 1"
proof -
  assume n: "\<not> sz + 1 < sz"
  have "unat (sz + 1) = (unat sz + 1) mod 2 ^ 32"
    by (simp add: unat_word_ariths)
  moreover have "unat sz + 1 \<noteq> 2 ^ 32"
  proof
    assume "unat sz + 1 = 2 ^ 32"
    with calculation have "unat (sz + 1) = 0" by simp
    with n show False
      using \<open>unat sz + 1 = 2 ^ 32\<close> by (simp add: word_less_nat_alt)
  qed
  moreover have "unat sz < 2 ^ LENGTH(32)" by (rule unsigned_less)
  ultimately show ?thesis by simp
qed

lemma store_signed_changed:
  assumes "allocated m a n" and "store_signed m n a v = Some res"
  obtains m' c where "res = Some (m', c)" and "changed_within a n m m'"
proof -
  have "\<exists>m' c. res = Some (m', c) \<and> changed_within a n m m'"
    using assms store_word_ex [OF assms(1), of v] store_word_ex [OF assms(1), of "ucast v :: 32 word"]
      store_word_ex [OF assms(1), of "ucast v :: 16 word"]
      store_word_ex [OF assms(1), of "ucast v :: 8 word"]
    by (auto simp: store_signed_def split: if_splits)
  with that show thesis by blast
qed

lemma store_unsigned_changed:
  assumes "allocated m a n" and "store_unsigned m n a v = Some res"
  obtains m' c where "res = Some (m', c)" and "changed_within a n m m'"
proof -
  have "\<exists>m' c. res = Some (m', c) \<and> changed_within a n m m'"
    using assms store_word_ex [OF assms(1), of v] store_word_ex [OF assms(1), of "ucast v :: 32 word"]
      store_word_ex [OF assms(1), of "ucast v :: 16 word"]
      store_word_ex [OF assms(1), of "ucast v :: 8 word"]
    by (auto simp: store_unsigned_def split: if_splits)
  with that show thesis by blast
qed

lemma store_checked_decodes:
  assumes "readable cb contents r s1" and "bytes_left s1 + k \<le> bytes_left s"
    and "\<And>r1. res = Some r1 \<Longrightarrow> \<exists>m' c. r1 = Some (m', c) \<and> changed_within a n m m'"
  shows "decodes cb contents k r a n m s (store_checked s1 m v res)"
proof (cases res)
  case None
  with assms(1,2) show ?thesis by (auto simp: store_checked_def intro: decodesI)
next
  case (Some r1)
  with assms(3) obtain m' c where "r1 = Some (m', c)" and "changed_within a n m m'" by blast
  with Some assms(1,2) show ?thesis by (auto simp: store_checked_def intro: decodesI)
qed

lemma store_signed_decodes:
  assumes "allocated m a n" and "readable cb contents r s1" and "bytes_left s1 + k \<le> bytes_left s"
  shows "decodes cb contents k r a n m s (store_checked s1 m v (store_signed m n a v))"
  using assms(2,3)
  by (rule store_checked_decodes) (blast elim: store_signed_changed [OF assms(1)])

lemma store_unsigned_decodes:
  assumes "allocated m a n" and "readable cb contents r s1" and "bytes_left s1 + k \<le> bytes_left s"
  shows "decodes cb contents k r a n m s (store_checked s1 m v (store_unsigned m n a v))"
  using assms(2,3)
  by (rule store_checked_decodes) (blast elim: store_unsigned_changed [OF assms(1)])

context byte_source
begin

lemma read_raw_readable:
  assumes "readable cb contents r s"
  obtains (all) bs s' where "pb_read_raw s n = Some (True, bs, s')" and "length bs = n"
      and "readable cb contents r s'" and "bytes_left s' + n = bytes_left s"
    | (short) "pb_read_raw s n = Some (False, [], i_error s ''end-of-stream'')"
proof (cases "bytes_left s < n")
  case True
  then show thesis by (intro short read_raw_short)
next
  case False
  from assms obtain bs rest where d: "delivers cb contents s bs rest" and r: "r \<le> length rest"
    by (rule readable_delivers)
  with False have d': "delivers cb contents s (take n bs @ drop n bs) rest" "length (take n bs) = n"
    by (auto simp: delivers_def)
  from read_raw [OF this] obtain s' where e: "pb_read_raw s n = Some (True, take n bs, s')"
    and d1: "delivers cb contents s' (drop n bs) rest"
    by auto
  have "bytes_left s' + n = bytes_left s" using d d1 d'(2) by (simp add: delivers_def)
  with e d'(2) delivers_readable [OF d1 r] show thesis by (intro all)
qed

lemma decodes_read:
  assumes s: "readable cb contents r s" and m: "allocated m a n"
  shows "decodes cb contents n r a n m s (pb_read s a n m)"
proof (cases "a = NULL")
  case True
  from safe_reader_readable [OF safe_read_null s, of n] show ?thesis
    by (rule, use True in \<open>auto simp: pb_read_def as_reader_def intro: decodesI\<close>)
next
  case False
  from s show ?thesis
  proof (cases rule: read_raw_readable [where n = n])
    case (all bs s')
    with store_bytes_changed [of m a bs] m obtain m' where "store_bytes m a bs = Some m'"
      and "changed_within a n m m'"
      by auto
    with all False show ?thesis by (auto simp: pb_read_def intro: decodesI)
  next
    case short
    with False s show ?thesis by (auto simp: pb_read_def intro: decodesI)
  qed
qed

text \<open>A decoder that reads a number first and then does \<open>g\<close>.\<close>

lemma decodes_bind:
  assumes f: "safe_reader cb contents j f" and s: "readable cb contents r s"
    and g: "\<And>ok v s1. readable cb contents r s1 \<Longrightarrow>
      bytes_left s1 + (if ok then j else 0) \<le> bytes_left s \<Longrightarrow>
      decodes cb contents k r a n m s (g (ok, v, s1))"
  shows "decodes cb contents k r a n m s (Option.bind (f s) g)"
  by (rule safe_reader_readable [OF f s]) (use g in simp)

lemma decodes_dec_varint:
  assumes s: "readable cb contents r s" and m: "allocated m a (data_size f)"
  shows "decodes cb contents 1 r a (data_size f) m s (pb_dec_varint s f a m)"
  unfolding pb_dec_varint_def
  by (rule decodes_bind [OF safe_decode_varint s])
     (use m in \<open>auto simp: Let_def split: if_splits intro!: store_signed_decodes intro: decodesI\<close>)

lemma decodes_dec_uvarint:
  assumes s: "readable cb contents r s" and m: "allocated m a (data_size f)"
  shows "decodes cb contents 1 r a (data_size f) m s (pb_dec_uvarint s f a m)"
  unfolding pb_dec_uvarint_def
  by (rule decodes_bind [OF safe_decode_varint s])
     (use m in \<open>auto simp: Let_def split: if_splits intro!: store_unsigned_decodes intro: decodesI\<close>)

lemma decodes_dec_svarint:
  assumes s: "readable cb contents r s" and m: "allocated m a (data_size f)"
  shows "decodes cb contents 1 r a (data_size f) m s (pb_dec_svarint s f a m)"
  unfolding pb_dec_svarint_def
  by (rule decodes_bind [OF safe_decode_svarint s])
     (use m in \<open>auto simp: Let_def split: if_splits intro!: store_signed_decodes intro: decodesI\<close>)

lemma decodes_fixed32:
  assumes s: "readable cb contents r s" and m: "allocated m a 4"
  shows "decodes cb contents 4 r a 4 m s (pb_decode_fixed32 s a m)"
  using s
proof (cases rule: read_raw_readable [where n = 4])
  case (all bs s')
  with store_word_ex [OF m, of "word32_of bs"] show ?thesis
    by (auto simp: pb_decode_fixed32_def intro!: decodesI)
qed (use s in \<open>auto simp: pb_decode_fixed32_def intro: decodesI\<close>)

lemma decodes_fixed64:
  assumes s: "readable cb contents r s" and m: "allocated m a 8"
  shows "decodes cb contents 8 r a 8 m s (pb_decode_fixed64 s a m)"
  using s
proof (cases rule: read_raw_readable [where n = 8])
  case (all bs s')
  with store_word_ex [OF m, of "word64_of bs"] show ?thesis
    by (auto simp: pb_decode_fixed64_def intro!: decodesI)
qed (use s in \<open>auto simp: pb_decode_fixed64_def intro: decodesI\<close>)

lemma decodes_dec_fixed_length_bytes:
  assumes s: "readable cb contents r s" and m: "allocated m a (data_size f)"
  shows "decodes cb contents 1 r a (data_size f) m s (pb_dec_fixed_length_bytes s f a m)"
  unfolding pb_dec_fixed_length_bytes_def
proof (rule decodes_bind [OF safe_decode_varint32 s], goal_cases)
  case (1 ok sz s1)
  consider "\<not> ok" | "ok" "sz = 0" | "ok" "sz \<noteq> 0" "unat sz \<noteq> data_size f"
    | "ok" "sz \<noteq> 0" "unat sz = data_size f"
    by blast
  then show ?case
  proof cases
    case 2
    obtain m1 where "memset0 m a (data_size f) = Some m1" "changed_within a (data_size f) m m1"
      using m by (rule memset0_changed)
    with 2 1 show ?thesis by (auto intro!: decodesI)
  next
    case 4
    with 1 show ?thesis
      by (auto intro: decodesI intro!: decodes_then [OF decodes_read [OF _ m], of r s1 m])
  qed (use 1 in \<open>auto intro: decodesI\<close>)
qed

lemma decodes_dec_bytes:
  assumes s: "readable cb contents r s" and m: "allocated m a (data_size f)"
  shows "decodes cb contents 1 r a (data_size f) m s (pb_dec_bytes s f a m)"
  unfolding pb_dec_bytes_def
proof (rule decodes_bind [OF safe_decode_varint32 s], goal_cases)
  case (1 ok sz s1)
  let ?n = "unat sz"
  show ?case
  proof (cases "ok \<and> PB_ATYPE (ftype f) \<noteq> PB_ATYPE_POINTER \<and> PB_BYTES_ARRAY_T_ALLOCSIZE ?n \<le> data_size f")
    case True
    then have fit: "?n + 4 \<le> data_size f" by (simp add: PB_BYTES_ARRAY_T_ALLOCSIZE_def pb_consts)
    with m have "allocated m a 4" by (auto intro: allocated_mono)
    then obtain m1 where m1: "store_u32 m a ?n = Some m1" and c1: "changed_within a 4 m m1"
      by (rule store_u32_changed)
    have fit': "int ?n + 4 \<le> int (data_size f)" using fit by linarith
    have "allocated m1 (a + 4) ?n"
      unfolding changed_allocated [OF c1] using m by (rule allocated_mono) (use fit' in auto)
    with 1 have "decodes cb contents ?n r (a + 4) ?n m1 s1 (pb_read s1 (a + 4) ?n m1)"
      by (intro decodes_read)
    then have d: "decodes cb contents 0 r a (data_size f) m1 s1 (pb_read s1 (a + 4) ?n m1)"
      by (rule decodes_mono) (use fit' in auto)
    have "changed_within a (data_size f) m m1" using c1 by (rule changed_mono) (use fit in auto)
    from decodes_then [OF d this, of 1 s] True m1 1 show ?thesis
      by (auto simp: Let_def BYTES_size_ofs_def BYTES_bytes_ofs_def intro: decodesI)
  next
    case False
    with 1 show ?thesis by (auto simp: Let_def intro: decodesI)
  qed
qed

lemma decodes_dec_string:
  assumes s: "readable cb contents r s" and m: "allocated m a (data_size f)"
  shows "decodes cb contents 1 r a (data_size f) m s (pb_dec_string s f a m)"
  unfolding pb_dec_string_def
proof (rule decodes_bind [OF safe_decode_varint32 s], goal_cases)
  case (1 ok sz s1)
  let ?n = "unat sz"
  show ?case
  proof (cases "ok \<and> \<not> sz + 1 < sz \<and> PB_ATYPE (ftype f) \<noteq> PB_ATYPE_POINTER \<and> unat (sz + 1) \<le> data_size f")
    case True
    then have fit: "?n + 1 \<le> data_size f" using unat_plus_one [of sz] by simp
    then have fit': "int ?n + 1 \<le> int (data_size f)" by linarith
    with m have mn: "allocated m a ?n" by (auto intro: allocated_mono)
    from 1 have "readable cb contents r s1" by simp
    from decodes_read [OF this mn] obtain st s2 m2 where rd: "pb_read s1 a ?n m = Some (st, s2, m2)"
      and r2: "readable cb contents r s2" "bytes_left s2 + (if st then ?n else 0) \<le> bytes_left s1"
      and c2: "changed_within a ?n m m2"
      by (rule decodesE)
    have "allocated m2 (a + int ?n) (length [0 :: byte])"
      unfolding changed_allocated [OF c2] using m by (rule allocated_mono) (use fit' in auto)
    then obtain m3 where m3: "store_bytes m2 (a + int ?n) [0] = Some m3"
      and c3: "changed_within (a + int ?n) (length [0 :: byte]) m2 m3"
      by (rule store_bytes_changed)
    have "changed_within a (data_size f) m m3"
      using changed_mono [OF c2, of a "data_size f"] changed_mono [OF c3, of a "data_size f"] fit'
      by (auto intro: changed_trans)
    with True rd m3 r2 1 show ?thesis
      by (auto simp: Let_def intro!: decodesI split: if_splits)
  next
    case False
    with 1 show ?thesis by (auto simp: Let_def intro: decodesI)
  qed
qed

end


section \<open>Message types\<close>

text \<open>
  \<open>msg_ok n env valid flds sz\<close>: the message type \<open>flds\<close> fits a structure of \<open>sz\<close> bytes,
  nests at most \<open>n\<close> levels deep, has no callback or extension field, its default values are
  valid memory, and the number of required fields is one the code's bit set handles.
\<close>

definition required_count :: "pb_field_t list \<Rightarrow> nat" where
  "required_count flds = required_before flds (nfields flds)"

definition required_ok :: "nat \<Rightarrow> bool" where
  "required_ok c \<longleftrightarrow> c = 0 \<or> c < 64 \<and> c mod 32 \<noteq> 0"

text \<open>
  The positions the iterator takes: those of the fields, and 0 for an empty message.
\<close>

definition npos :: "pb_field_t list \<Rightarrow> nat" where
  "npos flds = max 1 (nfields flds)"

definition value_ok ::
    "(pb_field_t list \<Rightarrow> nat \<Rightarrow> bool) \<Rightarrow> 'u dec_env \<Rightarrow> pb_field_t \<Rightarrow> bool" where
  "value_ok sub env f \<longleftrightarrow>
     (let lt = PB_LTYPE (ftype f) in
      lt < 0x0A \<and> lt \<noteq> PB_LTYPE_EXTENSION \<and>
      (lt = PB_LTYPE_FIXED32 \<longrightarrow> 4 \<le> data_size f) \<and>
      (lt = PB_LTYPE_FIXED64 \<longrightarrow> 8 \<le> data_size f) \<and>
      (lt = PB_LTYPE_SUBMESSAGE \<longrightarrow>
         (case fields_at env (fptr f) of None \<Rightarrow> False | Some fl \<Rightarrow> sub fl (data_size f))))"

definition counted :: "pb_field_t \<Rightarrow> bool" where
  "counted f \<longleftrightarrow> PB_HTYPE (ftype f) = PB_HTYPE_REPEATED \<or> PB_HTYPE (ftype f) = PB_HTYPE_ONEOF"

definition field_ok ::
    "(pb_field_t list \<Rightarrow> nat \<Rightarrow> bool) \<Rightarrow> 'u dec_env \<Rightarrow> (addr \<Rightarrow> nat \<Rightarrow> bool) \<Rightarrow> pb_field_t list \<Rightarrow>
     nat \<Rightarrow> nat \<Rightarrow> bool" where
  "field_ok sub env valid flds sz i \<longleftrightarrow>
     (let f = field_at flds i; ofs = field_addr flds 0 i; q = size_addr flds 0 i;
          a = PB_ATYPE (ftype f) in
      PB_LTYPE (ftype f) \<noteq> PB_LTYPE_EXTENSION \<and> a \<noteq> PB_ATYPE_CALLBACK \<and> 0 \<le> ofs \<and>
      (counted f \<longrightarrow> 0 \<le> q \<and> q + 4 \<le> int sz) \<and>
      (a = PB_ATYPE_STATIC \<longrightarrow>
         value_ok sub env f \<and>
         (PB_HTYPE (ftype f) = PB_HTYPE_OPTIONAL \<and> q \<noteq> ofs \<longrightarrow> 0 \<le> q \<and> q + 1 \<le> int sz) \<and>
         (if PB_HTYPE (ftype f) = PB_HTYPE_REPEATED
          then ofs + int (data_size f * array_size f) \<le> int sz \<and> data_size f * array_size f < 2 ^ 32
          else ofs + int (data_size f) \<le> int sz) \<and>
         (\<not> counted f \<and> PB_LTYPE (ftype f) \<noteq> PB_LTYPE_SUBMESSAGE \<and> fptr f \<noteq> NULL \<longrightarrow>
            valid (fptr f) (data_size f))) \<and>
      (a = PB_ATYPE_POINTER \<longrightarrow> ofs + 8 \<le> int sz))"

fun msg_ok ::
    "nat \<Rightarrow> 'u dec_env \<Rightarrow> (addr \<Rightarrow> nat \<Rightarrow> bool) \<Rightarrow> pb_field_t list \<Rightarrow> nat \<Rightarrow> bool" where
  "msg_ok 0 env valid flds sz = False"
| "msg_ok (Suc n) env valid flds sz =
     ((nfields flds = 0 \<longrightarrow> flds = []) \<and> required_ok (required_count flds) \<and>
      list_all (field_ok (msg_ok n env valid) env valid flds sz) [0..<npos flds])"

lemma field_addr_base: "field_addr flds base i = base + field_addr flds 0 i"
  by (induction i) simp_all

lemma size_addr_base: "size_addr flds base i = base + size_addr flds 0 i"
  by (induction i) (simp_all add: field_addr_base [of flds base])


section \<open>Substreams\<close>

context byte_source
begin

lemma make_substream_readable:
  assumes s: "readable cb contents r s"
  obtains (made) p sub where "pb_make_string_substream s = Some (True, p, sub)"
      and "readable cb contents (r + bytes_left p) sub" and "readable cb contents r p"
      and "bytes_left sub + bytes_left p + 1 \<le> bytes_left s"
    | (failed) p sub where "pb_make_string_substream s = Some (False, p, sub)"
      and "readable cb contents r p" and "bytes_left p \<le> bytes_left s"
proof -
  from safe_reader_readable [OF safe_decode_varint32 s] obtain ok and sz :: u32 and s1
    where e: "pb_decode_varint32 s = Some (ok, sz, s1)" and s1: "readable cb contents r s1"
    and l: "bytes_left s1 + (if ok then 1 else 0) \<le> bytes_left s" .
  show thesis
  proof (cases "ok \<and> unat sz \<le> bytes_left s1")
    case True
    let ?p = "s1\<lparr>bytes_left := bytes_left s1 - unat sz\<rparr>" and ?sub = "s1\<lparr>bytes_left := unat sz\<rparr>"
    show thesis
    proof (rule made)
      show "pb_make_string_substream s = Some (True, ?p, ?sub)"
        using True e by (simp add: pb_make_string_substream_def Let_def)
    qed (use True s1 l in \<open>auto simp: readable_def split: option.splits\<close>)
  next
    case False
    with e s1 l show thesis
      by (auto simp: pb_make_string_substream_def Let_def split: if_splits intro: failed)
  qed
qed

lemma close_substream_readable:
  assumes sub: "readable cb contents (r + bytes_left p) sub" and p: "readable cb contents r p"
  obtains ok s' where "pb_close_string_substream p sub = Some (ok, s')"
    and "readable cb contents r s'" and "bytes_left s' = bytes_left p"
proof (cases "bytes_left sub = 0")
  case True
  with sub p that [of True "p\<lparr>i_state := i_state sub, i_errmsg := i_errmsg sub\<rparr>"] show thesis
    by (auto simp: pb_close_string_substream_def readable_def split: option.splits)
next
  case False
  from safe_reader_readable [OF safe_read_null sub, of "bytes_left sub"] obtain ok v sub1
    where e: "as_reader (\<lambda>s. pb_read_null s (bytes_left sub)) sub = Some (ok, v, sub1)"
    and r1: "readable cb contents (r + bytes_left p) sub1" .
  from e have e: "pb_read_null sub (bytes_left sub) = Some (ok, sub1)"
    by (auto simp: as_reader_def)
  show thesis
  proof (cases ok)
    case True
    with e r1 p False that [of True "p\<lparr>i_state := i_state sub1, i_errmsg := i_errmsg sub1\<rparr>"]
    show thesis
      by (auto simp: pb_close_string_substream_def readable_def split: option.splits)
  next
    case nok: False
    with e p False that [of False p] show thesis
      by (simp add: pb_close_string_substream_def)
  qed
qed

text \<open>
  A decoder run on a substream that is closed afterwards, whatever the decoder did.
\<close>

lemma decodes_closed:
  assumes d: "decodes cb contents k (r + bytes_left p) a n m sub (Some (st, sub1, m1))"
    and p: "readable cb contents r p" and l: "bytes_left sub + bytes_left p + 1 \<le> bytes_left s"
  shows "decodes cb contents 1 r a n m s
    (do { (ok, s2) \<leftarrow> pb_close_string_substream p sub1; Some (ok \<and> st, s2, m1) })"
proof -
  from d have sub1: "readable cb contents (r + bytes_left p) sub1" and c: "changed_within a n m m1"
    by (auto elim: decodesE)
  from close_substream_readable [OF sub1 p] obtain ok s' where
    "pb_close_string_substream p sub1 = Some (ok, s')" "readable cb contents r s'"
    "bytes_left s' = bytes_left p" .
  with c l show ?thesis by (auto intro!: decodesI)
qed

end


section \<open>Default values\<close>

definition mem_ok :: "(addr \<Rightarrow> nat \<Rightarrow> bool) \<Rightarrow> addr \<Rightarrow> nat \<Rightarrow> mem \<Rightarrow> bool" where
  "mem_ok valid a n m \<longleftrightarrow> allocated m a n \<and> (\<forall>b k. valid b k \<longrightarrow> allocated m b k)"

lemma mem_ok_changed: "mem_ok valid a n m \<Longrightarrow> changed_within b k m m' \<Longrightarrow> mem_ok valid a n m'"
  by (simp add: mem_ok_def changed_allocated)

lemma mem_ok_sub:
  "mem_ok valid a n m \<Longrightarrow> a \<le> b \<Longrightarrow> b + int k \<le> a + int n \<Longrightarrow> mem_ok valid b k m"
  by (auto simp: mem_ok_def intro: allocated_mono)

lemma mem_ok_allocated:
  "mem_ok valid a n m \<Longrightarrow> a \<le> b \<Longrightarrow> b + int k \<le> a + int n \<Longrightarrow> allocated m b k"
  by (auto simp: mem_ok_def intro: allocated_mono)

lemma each_changed:
  assumes "\<And>x m. x \<in> set xs \<Longrightarrow> mem_ok valid a n m \<Longrightarrow> \<exists>m'. F x m = Some m' \<and> changed_within a n m m'"
    and "mem_ok valid a n m"
  shows "\<exists>m'. each (\<lambda>it m. map_option (Pair True) (F it m)) xs m = Some (True, m') \<and>
    changed_within a n m m'"
  using assms
proof (induction xs arbitrary: m)
  case (Cons x xs)
  then obtain m1 where m1: "F x m = Some m1" "changed_within a n m m1" by fastforce
  then have "mem_ok valid a n m1" using Cons.prems(2) by (blast intro: mem_ok_changed)
  with Cons obtain m2 where "each (\<lambda>it m. map_option (Pair True) (F it m)) xs m1 = Some (True, m2)"
    and "changed_within a n m1 m2"
    by fastforce
  with m1 show ?case by (auto intro: changed_trans)
qed simp

lemma message_defaults_each:
  "message_defaults F flds dest m =
     map_option snd (each (\<lambda>it m. map_option (Pair True) (F it m))
       (map (iter_at flds dest) [0..<nfields flds]) m)"
  by (simp add: message_defaults_def iter_begin_eq iter_do_while_eq)

lemma field_ok_at:
  assumes "field_ok sub env valid flds sz i"
  defines "f \<equiv> field_at flds i"
  defines "ofs \<equiv> field_addr flds 0 i" and "q \<equiv> size_addr flds 0 i"
  shows "PB_LTYPE (ftype f) \<noteq> PB_LTYPE_EXTENSION" "PB_ATYPE (ftype f) \<noteq> PB_ATYPE_CALLBACK"
    "0 \<le> ofs" "counted f \<Longrightarrow> 0 \<le> q \<and> q + 4 \<le> int sz"
    "PB_ATYPE (ftype f) = PB_ATYPE_STATIC \<Longrightarrow> value_ok sub env f"
    "PB_ATYPE (ftype f) = PB_ATYPE_STATIC \<Longrightarrow> PB_HTYPE (ftype f) = PB_HTYPE_OPTIONAL \<Longrightarrow> q \<noteq> ofs \<Longrightarrow>
       0 \<le> q \<and> q + 1 \<le> int sz"
    "PB_ATYPE (ftype f) = PB_ATYPE_STATIC \<Longrightarrow> PB_HTYPE (ftype f) = PB_HTYPE_REPEATED \<Longrightarrow>
       ofs + int (data_size f * array_size f) \<le> int sz \<and> data_size f * array_size f < 2 ^ 32"
    "PB_ATYPE (ftype f) = PB_ATYPE_STATIC \<Longrightarrow> PB_HTYPE (ftype f) \<noteq> PB_HTYPE_REPEATED \<Longrightarrow>
       ofs + int (data_size f) \<le> int sz"
    "PB_ATYPE (ftype f) = PB_ATYPE_STATIC \<Longrightarrow> \<not> counted f \<Longrightarrow>
       PB_LTYPE (ftype f) \<noteq> PB_LTYPE_SUBMESSAGE \<Longrightarrow> fptr f \<noteq> NULL \<Longrightarrow> valid (fptr f) (data_size f)"
    "PB_ATYPE (ftype f) = PB_ATYPE_POINTER \<Longrightarrow> ofs + 8 \<le> int sz"
  using assms unfolding field_ok_def Let_def by (auto split: if_splits)

lemma value_ok_submessage:
  assumes "value_ok sub env f" and "PB_LTYPE (ftype f) = PB_LTYPE_SUBMESSAGE"
  obtains fl where "fields_at env (fptr f) = Some fl" and "sub fl (data_size f)"
  using assms by (auto simp: value_ok_def Let_def split: option.splits)

text \<open>The data of a field without a count: a submessage, a default value or zeros.\<close>

lemma init_data_changed:
  assumes ok: "field_ok (msg_ok n env valid) env valid flds sz i"
    and st: "PB_ATYPE (ftype (field_at flds i)) = PB_ATYPE_STATIC"
    and nc: "\<not> counted (field_at flds i)"
    and m: "mem_ok valid dest sz m"
    and IH: "\<And>fl a k m. msg_ok n env valid fl k \<Longrightarrow> mem_ok valid a k m \<Longrightarrow>
      \<exists>m'. pb_message_set_to_defaults n env fl a m = Some m' \<and> changed_within a k m m'"
  defines "f \<equiv> field_at flds i" and "pd \<equiv> field_addr flds dest i"
  shows "\<exists>m'. (if PB_LTYPE (ftype f) = PB_LTYPE_SUBMESSAGE
      then do { fl \<leftarrow> fields_at env (fptr f);
                message_defaults (pb_field_set_to_default n env) fl pd m }
      else if fptr f \<noteq> NULL then memcpy m pd (fptr f) (data_size f)
      else memset0 m pd (data_size f)) = Some m' \<and> changed_within dest sz m m'"
proof -
  note fo = field_ok_at [OF ok, folded f_def]
  have nr: "PB_HTYPE (ftype f) \<noteq> PB_HTYPE_REPEATED" using nc by (simp add: counted_def f_def)
  have lo: "dest \<le> pd" and hi: "pd + int (data_size f) \<le> dest + int sz"
    using fo(3) fo(8) [OF _ nr] st by (simp_all add: pd_def field_addr_base [of flds dest] f_def)
  note mf = mem_ok_sub [OF m lo hi]
  have al: "allocated m pd (data_size f)" using mf by (simp add: mem_ok_def)
  have ex: "\<exists>m'. (if PB_LTYPE (ftype f) = PB_LTYPE_SUBMESSAGE
      then do { fl \<leftarrow> fields_at env (fptr f);
                message_defaults (pb_field_set_to_default n env) fl pd m }
      else if fptr f \<noteq> NULL then memcpy m pd (fptr f) (data_size f)
      else memset0 m pd (data_size f)) = Some m' \<and> changed_within pd (data_size f) m m'"
  proof (cases "PB_LTYPE (ftype f) = PB_LTYPE_SUBMESSAGE")
    case True
    obtain fl where fl: "fields_at env (fptr f) = Some fl" "msg_ok n env valid fl (data_size f)"
      by (rule value_ok_submessage [OF fo(5) True]) (use st in \<open>simp_all add: f_def\<close>)
    with True IH [OF fl(2) mf] show ?thesis by (simp add: pb_message_set_to_defaults_def)
  next
    case ns: False
    show ?thesis
    proof (cases "fptr f = NULL")
      case True
      from memset0_changed [OF al] obtain m' where "memset0 m pd (data_size f) = Some m'"
        and "changed_within pd (data_size f) m m'" .
      with True ns show ?thesis by simp
    next
      case False
      with fo(9) st nc ns m have "allocated m (fptr f) (data_size f)"
        by (auto simp: mem_ok_def f_def)
      from memcpy_changed [OF al this] obtain m' where
        "memcpy m pd (fptr f) (data_size f) = Some m'" "changed_within pd (data_size f) m m'" .
      with False ns show ?thesis by simp
    qed
  qed
  then show ?thesis using changed_mono [OF _ lo hi] by blast
qed

lemma count_reset_changed:
  assumes ok: "field_ok sub env valid flds sz i" and m: "mem_ok valid dest sz m"
    and c: "counted (field_at flds i)"
  obtains m' where "store_u32 m (size_addr flds dest i) v = Some m'" and "changed_within dest sz m m'"
proof -
  let ?q = "size_addr flds dest i"
  have lo: "dest \<le> ?q" and hi: "?q + int 4 \<le> dest + int sz"
    using field_ok_at(4) [OF ok c] by (simp_all add: size_addr_base [of flds dest])
  from store_u32_changed [OF mem_ok_allocated [OF m lo hi]] obtain m'
    where "store_u32 m ?q v = Some m'" and "changed_within ?q 4 m m'" .
  with changed_mono [OF this(2) lo] hi that show thesis by auto
qed

lemma has_flag_changed:
  assumes ok: "field_ok sub env valid flds sz i" and m: "mem_ok valid dest sz m"
    and st: "PB_ATYPE (ftype (field_at flds i)) = PB_ATYPE_STATIC"
    and h: "PB_HTYPE (ftype (field_at flds i)) = PB_HTYPE_OPTIONAL"
    and ne: "size_addr flds dest i \<noteq> field_addr flds dest i"
  obtains m' where "store_bool m (size_addr flds dest i) v = Some m'" and "changed_within dest sz m m'"
proof -
  let ?q = "size_addr flds dest i"
  have "size_addr flds 0 i \<noteq> field_addr flds 0 i"
    using ne by (simp add: size_addr_base [of flds dest] field_addr_base [of flds dest])
  from field_ok_at(6) [OF ok st h this]
  have lo: "dest \<le> ?q" and hi: "?q + int 1 \<le> dest + int sz"
    by (simp_all add: size_addr_base [of flds dest])
  from store_bool_changed [OF mem_ok_allocated [OF m lo hi]] obtain m'
    where "store_bool m ?q v = Some m'" and "changed_within ?q 1 m m'" .
  with changed_mono [OF this(2) lo] hi that show thesis by auto
qed

lemma field_default_changed:
  assumes ok: "field_ok (msg_ok n env valid) env valid flds sz i"
    and m: "mem_ok valid dest sz m"
    and IH: "\<And>fl a k m. msg_ok n env valid fl k \<Longrightarrow> mem_ok valid a k m \<Longrightarrow>
      \<exists>m'. pb_message_set_to_defaults n env fl a m = Some m' \<and> changed_within a k m m'"
  shows "\<exists>m'. pb_field_set_to_default (Suc n) env (iter_at flds dest i) m = Some m' \<and>
    changed_within dest sz m m'"
proof -
  let ?f = "field_at flds i"
  have ne: "PB_LTYPE (ftype ?f) \<noteq> PB_LTYPE_EXTENSION" using field_ok_at(1) [OF ok] .
  consider (static) "PB_ATYPE (ftype ?f) = PB_ATYPE_STATIC" "counted ?f"
    | (plain) "PB_ATYPE (ftype ?f) = PB_ATYPE_STATIC" "\<not> counted ?f"
    | (pointer) "PB_ATYPE (ftype ?f) = PB_ATYPE_POINTER"
    | (other) "PB_ATYPE (ftype ?f) \<noteq> PB_ATYPE_STATIC" "PB_ATYPE (ftype ?f) \<noteq> PB_ATYPE_POINTER"
    by blast
  then show ?thesis
  proof cases
    case static
    from count_reset_changed [OF ok m static(2), of 0] obtain m'
      where "store_u32 m (size_addr flds dest i) 0 = Some m'" "changed_within dest sz m m'" .
    with static ne show ?thesis by (auto simp: counted_def pb_consts)
  next
    case plain
    have "\<exists>m1. (if PB_HTYPE (ftype ?f) = PB_HTYPE_OPTIONAL \<and>
          size_addr flds dest i \<noteq> field_addr flds dest i
        then store_bool m (size_addr flds dest i) False else Some m) = Some m1 \<and>
      changed_within dest sz m m1"
      by (auto elim: has_flag_changed [OF ok m plain(1)])
    then obtain m1 where m1: "(if PB_HTYPE (ftype ?f) = PB_HTYPE_OPTIONAL \<and>
          size_addr flds dest i \<noteq> field_addr flds dest i
        then store_bool m (size_addr flds dest i) False else Some m) = Some m1"
      and c1: "changed_within dest sz m m1"
      by blast
    from init_data_changed [OF ok plain mem_ok_changed [OF m c1] IH] obtain m2
      where "(if PB_LTYPE (ftype ?f) = PB_LTYPE_SUBMESSAGE
        then do { fl \<leftarrow> fields_at env (fptr ?f);
                  message_defaults (pb_field_set_to_default n env) fl (field_addr flds dest i) m1 }
        else if fptr ?f \<noteq> NULL then memcpy m1 (field_addr flds dest i) (fptr ?f) (data_size ?f)
        else memset0 m1 (field_addr flds dest i) (data_size ?f)) = Some m2"
      and c2: "changed_within dest sz m1 m2"
      by blast
    with plain ne m1 have "pb_field_set_to_default (Suc n) env (iter_at flds dest i) m = Some m2"
      by (auto simp: counted_def Let_def split: if_splits)
    with changed_trans [OF c1 c2] show ?thesis by blast
  next
    case pointer
    let ?pd = "field_addr flds dest i"
    have lo: "dest \<le> ?pd" and hi: "?pd + int 8 \<le> dest + int sz"
      using field_ok_at(3) [OF ok] field_ok_at(10) [OF ok pointer]
      by (simp_all add: field_addr_base [of flds dest])
    from store_ptr_changed [OF mem_ok_allocated [OF m lo hi]] obtain m1
      where m1: "store_ptr m ?pd NULL = Some m1" and "changed_within ?pd 8 m m1" .
    then have c1: "changed_within dest sz m m1" using lo hi by (auto intro: changed_mono)
    show ?thesis
    proof (cases "counted ?f")
      case True
      from count_reset_changed [OF ok mem_ok_changed [OF m c1] True, of 0] obtain m2
        where "store_u32 m1 (size_addr flds dest i) 0 = Some m2" "changed_within dest sz m1 m2" .
      with True pointer ne m1 c1 show ?thesis
        by (auto simp: counted_def pb_consts intro: changed_trans)
    next
      case False
      with pointer ne m1 c1 show ?thesis by (auto simp: counted_def pb_consts)
    qed
  next
    case other
    with ne show ?thesis by simp
  qed
qed

text \<open>Initialising a message of a well-formed type writes into its structure only.\<close>

lemma defaults_changed:
  "msg_ok n env valid flds sz \<Longrightarrow> mem_ok valid dest sz m \<Longrightarrow>
     \<exists>m'. pb_message_set_to_defaults n env flds dest m = Some m' \<and> changed_within dest sz m m'"
proof (induction n arbitrary: flds dest sz m)
  case (Suc n)
  have f: "field_ok (msg_ok n env valid) env valid flds sz i" if "i < nfields flds" for i
    using Suc.prems(1) that by (auto simp: list_all_iff npos_def)
  have "\<exists>m'. each (\<lambda>it m. map_option (Pair True) (pb_field_set_to_default (Suc n) env it m))
      (map (iter_at flds dest) [0..<nfields flds]) m = Some (True, m') \<and> changed_within dest sz m m'"
    by (rule each_changed [OF _ Suc.prems(2)])
       (use field_default_changed [OF f _ Suc.IH] in auto)
  then show ?case by (auto simp: pb_message_set_to_defaults_def message_defaults_each)
qed simp


section \<open>Fields\<close>

lemma field_ok_mono:
  assumes "field_ok sub env valid flds sz i" and "\<And>fl k. sub fl k \<Longrightarrow> sub' fl k"
  shows "field_ok sub' env valid flds sz i"
proof -
  have "value_ok sub env f \<Longrightarrow> value_ok sub' env f" for f
    using assms(2) by (auto simp: value_ok_def Let_def split: option.splits)
  with assms(1) show ?thesis by (auto simp: field_ok_def Let_def)
qed

lemma msg_ok_Suc: "msg_ok n env valid flds sz \<Longrightarrow> msg_ok (Suc n) env valid flds sz"
proof (induction n arbitrary: flds sz)
  case (Suc n)
  then show ?case
    by (subst msg_ok.simps) (auto simp: list_all_iff intro: field_ok_mono [OF _ Suc.IH])
qed simp

text \<open>The decoder of the next level, on every message type it has to handle.\<close>

definition rec_safe ::
    "'u icallback \<Rightarrow> ('u istate \<Rightarrow> byte list option) \<Rightarrow> (pb_field_t list \<Rightarrow> nat \<Rightarrow> bool) \<Rightarrow>
     (addr \<Rightarrow> nat \<Rightarrow> bool) \<Rightarrow> 'u dec_rec \<Rightarrow> bool" where
  "rec_safe cb contents sub valid rec \<longleftrightarrow>
     (\<forall>flds dest sz m s r. sub flds sz \<longrightarrow> mem_ok valid dest sz m \<longrightarrow> readable cb contents r s \<longrightarrow>
        decodes cb contents 0 r dest sz m s (rec flds dest s m))"

lemma rec_safeD:
  "rec_safe cb contents sub valid rec \<Longrightarrow> sub flds sz \<Longrightarrow> mem_ok valid dest sz m \<Longrightarrow>
     readable cb contents r s \<Longrightarrow> decodes cb contents 0 r dest sz m s (rec flds dest s m)"
  by (simp add: rec_safe_def)

context byte_source
begin

lemma decodes_with_init:
  assumes "rec_safe cb contents (msg_ok n env valid) valid rec" and "msg_ok n env valid fl sz"
    and m: "mem_ok valid dest sz m" and s: "readable cb contents r s"
  shows "decodes cb contents 0 r dest sz m s (decode_with_init (Suc n) env rec fl dest s m)"
proof -
  from defaults_changed [OF msg_ok_Suc [OF assms(2)] m] obtain m1
    where m1: "pb_message_set_to_defaults (Suc n) env fl dest m = Some m1"
    and c: "changed_within dest sz m m1"
    by blast
  from rec_safeD [OF assms(1,2) mem_ok_changed [OF m c] s]
  have "decodes cb contents 0 r dest sz m1 s (rec fl dest s m1)" .
  from decodes_after [OF this c] m1 show ?thesis by (simp add: decode_with_init_def)
qed

lemma decodes_dec_submessage:
  assumes rec: "rec_safe cb contents (msg_ok n env valid) valid rec"
    and f: "fields_at env (fptr f) = Some fl" "msg_ok n env valid fl (data_size f)"
    and m: "mem_ok valid dest (data_size f) m" and s: "readable cb contents r s"
  shows "decodes cb contents 1 r dest (data_size f) m s (pb_dec_submessage (Suc n) env rec s f dest m)"
  using s
proof (cases rule: make_substream_readable)
  case (made p sub)
  show ?thesis
  proof (cases "fptr f = NULL")
    case True
    with made show ?thesis by (auto simp: pb_dec_submessage_def intro!: decodesI)
  next
    case False
    let ?res = "if PB_HTYPE (ftype f) = PB_HTYPE_REPEATED
      then decode_with_init (Suc n) env rec fl dest sub m else rec fl dest sub m"
    have d: "decodes cb contents 0 (r + bytes_left p) dest (data_size f) m sub ?res"
      using decodes_with_init [OF rec f(2) m made(2)] rec_safeD [OF rec f(2) m made(2)] by simp
    from d obtain st sub1 m1 where res: "?res = Some (st, sub1, m1)" by (rule decodesE)
    from decodes_closed [OF d [unfolded res] made(3,4)]
    show ?thesis
      using made(1) False f(1) res by (simp add: pb_dec_submessage_def)
  qed
next
  case (failed p sub)
  then show ?thesis by (auto simp: pb_dec_submessage_def intro!: decodesI)
qed

lemma decodes_value:
  assumes rec: "rec_safe cb contents (msg_ok n env valid) valid rec"
    and v: "value_ok (msg_ok n env valid) env f"
    and m: "mem_ok valid p (data_size f) m" and s: "readable cb contents r s"
  shows "decodes cb contents 1 r p (data_size f) m s
    (PB_DECODERS (Suc n) env rec (PB_LTYPE (ftype f)) s f p m)"
proof -
  let ?lt = "PB_LTYPE (ftype f)"
  have a: "allocated m p (data_size f)" using m by (simp add: mem_ok_def)
  have "?lt < 0x0A" "?lt \<noteq> 0x08" using v by (auto simp: value_ok_def Let_def pb_consts)
  then have "unat ?lt < 10" "unat ?lt \<noteq> 8" by (simp_all add: word_less_nat_alt word_unat_eq_iff)
  then have "unat ?lt \<in> {0,1,2,3,4,5,6,7,9}" by auto
  then have "?lt \<in> {0,1,2,3,4,5,6,7,9}" by (auto simp: word_unat_eq_iff)
  then consider "?lt = 0" | "?lt = 1" | "?lt = 2" | "?lt = 3" | "?lt = 4" | "?lt = 5" | "?lt = 6"
    | "?lt = 7" | "?lt = 9"
    by blast
  then show ?thesis
  proof cases
    case 1
    with decodes_dec_varint [OF s a] show ?thesis by (simp add: PB_DECODERS_def pb_consts)
  next
    case 2
    with decodes_dec_uvarint [OF s a] show ?thesis by (simp add: PB_DECODERS_def pb_consts)
  next
    case 3
    with decodes_dec_svarint [OF s a] show ?thesis by (simp add: PB_DECODERS_def pb_consts)
  next
    case 4
    then have l: "4 \<le> data_size f" using v by (simp add: value_ok_def Let_def pb_consts)
    with a have "allocated m p 4" by (auto intro: allocated_mono)
    from decodes_fixed32 [OF s this] have "decodes cb contents 1 r p (data_size f) m s (pb_decode_fixed32 s p m)"
      by (rule decodes_mono) (use l in auto)
    with 4 show ?thesis by (simp add: PB_DECODERS_def pb_dec_fixed32_def pb_consts)
  next
    case 5
    then have l: "8 \<le> data_size f" using v by (simp add: value_ok_def Let_def pb_consts)
    with a have "allocated m p 8" by (auto intro: allocated_mono)
    from decodes_fixed64 [OF s this] have "decodes cb contents 1 r p (data_size f) m s (pb_decode_fixed64 s p m)"
      by (rule decodes_mono) (use l in auto)
    with 5 show ?thesis by (simp add: PB_DECODERS_def pb_dec_fixed64_def pb_consts)
  next
    case 6
    with decodes_dec_bytes [OF s a] show ?thesis by (simp add: PB_DECODERS_def pb_consts)
  next
    case 7
    with decodes_dec_string [OF s a] show ?thesis by (simp add: PB_DECODERS_def pb_consts)
  next
    case 8
    then obtain fl where "fields_at env (fptr f) = Some fl" "msg_ok n env valid fl (data_size f)"
      using value_ok_submessage [OF v] by (auto simp: pb_consts)
    from decodes_dec_submessage [OF rec this m s] 8 show ?thesis
      by (simp add: PB_DECODERS_def pb_consts)
  next
    case 9
    with decodes_dec_fixed_length_bytes [OF s a] show ?thesis
      by (simp add: PB_DECODERS_def pb_consts)
  qed
qed

lemma decodes_single:
  assumes rec: "rec_safe cb contents (msg_ok n env valid) valid rec"
    and ok: "field_ok (msg_ok n env valid) env valid flds sz i"
    and st: "PB_ATYPE (ftype (field_at flds i)) = PB_ATYPE_STATIC"
    and nr: "PB_HTYPE (ftype (field_at flds i)) \<noteq> PB_HTYPE_REPEATED"
    and m: "mem_ok valid dest sz m" and s: "readable cb contents r s"
  shows "decodes cb contents 1 r dest sz m s (PB_DECODERS (Suc n) env rec
    (PB_LTYPE (ftype (field_at flds i))) s (field_at flds i) (field_addr flds dest i) m)"
proof -
  have lo: "dest \<le> field_addr flds dest i"
    and hi: "field_addr flds dest i + int (data_size (field_at flds i)) \<le> dest + int sz"
    using field_ok_at(3) [OF ok] field_ok_at(8) [OF ok st nr]
    by (simp_all add: field_addr_base [of flds dest])
  from decodes_value [OF rec field_ok_at(5) [OF ok st] mem_ok_sub [OF m lo hi] s]
  show ?thesis by (rule decodes_mono) (use lo hi in auto)
qed

lemma decodes_item:
  assumes rec: "rec_safe cb contents (msg_ok n env valid) valid rec"
    and ok: "field_ok (msg_ok n env valid) env valid flds sz i"
    and st: "PB_ATYPE (ftype (field_at flds i)) = PB_ATYPE_STATIC"
    and rp: "PB_HTYPE (ftype (field_at flds i)) = PB_HTYPE_REPEATED"
    and j: "j < array_size (field_at flds i)"
    and m: "mem_ok valid dest sz m" and s: "readable cb contents r s"
  shows "decodes cb contents 1 r dest sz m s (PB_DECODERS (Suc n) env rec
    (PB_LTYPE (ftype (field_at flds i))) s (field_at flds i)
    (field_addr flds dest i + item_offset (field_at flds i) j) m)"
proof -
  let ?f = "field_at flds i"
  let ?p = "field_addr flds dest i + item_offset ?f j"
  have le: "data_size ?f * j + data_size ?f \<le> data_size ?f * array_size ?f"
    using j mult_le_mono2 [of "Suc j" "array_size ?f" "data_size ?f"] by simp
  note fit = field_ok_at(7) [OF ok st rp]
  have o: "item_offset ?f j = int (data_size ?f * j)"
    using fit le by (simp add: item_offset_def)
  have le': "int (data_size ?f * j) + int (data_size ?f) \<le> int (data_size ?f * array_size ?f)"
    using le by linarith
  have lo: "dest \<le> ?p" and hi: "?p + int (data_size ?f) \<le> dest + int sz"
    using field_ok_at(3) [OF ok] fit le' by (simp_all add: field_addr_base [of flds dest] o)
  from decodes_value [OF rec field_ok_at(5) [OF ok st] mem_ok_sub [OF m lo hi] s]
  show ?thesis by (rule decodes_mono) (use lo hi in auto)
qed

lemma load_count:
  assumes ok: "field_ok sub env valid flds sz i" and c: "counted (field_at flds i)"
    and m: "mem_ok valid dest sz m"
  obtains v where "load_u32 m (size_addr flds dest i) = Some v"
proof -
  have "allocated m (size_addr flds dest i) 4"
    by (rule mem_ok_allocated [OF m])
       (use field_ok_at(4) [OF ok c] in \<open>simp_all add: size_addr_base [of flds dest]\<close>)
  with load_u32_total that show thesis by blast
qed

lemma decodes_packed_loop:
  assumes rec: "rec_safe cb contents (msg_ok n env valid) valid rec"
    and ok: "field_ok (msg_ok n env valid) env valid flds sz i"
    and st: "PB_ATYPE (ftype (field_at flds i)) = PB_ATYPE_STATIC"
    and rp: "PB_HTYPE (ftype (field_at flds i)) = PB_HTYPE_REPEATED"
  shows "bytes_left sub < k \<Longrightarrow> mem_ok valid dest sz m \<Longrightarrow> readable cb contents r sub \<Longrightarrow>
    decodes cb contents 0 r dest sz m sub
      (packed_loop k (PB_DECODERS (Suc n) env rec (PB_LTYPE (ftype (field_at flds i))))
        (iter_at flds dest i) sub m)"
proof (induction k arbitrary: sub m)
  case (Suc k)
  let ?it = "iter_at flds dest i" and ?f = "field_at flds i"
  let ?func = "PB_DECODERS (Suc n) env rec (PB_LTYPE (ftype ?f))"
  have c: "counted ?f" using rp by (simp add: counted_def)
  from load_count [OF ok c Suc.prems(2)] obtain j
    where j: "load_u32 m (size_addr flds dest i) = Some j" .
  show ?case
  proof (cases "bytes_left sub = 0 \<or> \<not> j < array_size ?f")
    case True
    with j Suc.prems(3) show ?thesis by (auto intro!: decodesI)
  next
    case False
    with decodes_item [OF rec ok st rp _ Suc.prems(2,3), of j]
    have d: "decodes cb contents 1 r dest sz m sub
      (?func sub ?f (field_addr flds dest i + item_offset ?f j) m)"
      by simp
    then obtain b sub1 m1
      where r: "?func sub ?f (field_addr flds dest i + item_offset ?f j) m = Some (b, sub1, m1)"
      and s1: "readable cb contents r sub1"
        "bytes_left sub1 + (if b then 1 else 0) \<le> bytes_left sub"
      and c1: "changed_within dest sz m m1"
      by (rule decodesE)
    show ?thesis
    proof (cases b)
      case nb: False
      with False j r s1 c1 show ?thesis by (auto intro!: decodesI)
    next
      case True
      note m1 = mem_ok_changed [OF Suc.prems(2) c1]
      from load_count [OF ok c m1] obtain j1
        where j1: "load_u32 m1 (size_addr flds dest i) = Some j1" .
      from count_reset_changed [OF ok m1 c, of "j1 + 1"] obtain m2
        where m2: "store_u32 m1 (size_addr flds dest i) (j1 + 1) = Some m2"
        and c2: "changed_within dest sz m1 m2" .
      have "decodes cb contents 0 r dest sz m2 sub1 (packed_loop k ?func ?it sub1 m2)"
        using Suc.prems(1) s1 True mem_ok_changed [OF m1 c2] by (intro Suc.IH) auto
      from decodes_then [OF this changed_trans [OF c1 c2], of 0 sub] False j r True j1 m2 s1
      show ?thesis by simp
    qed
  qed
qed simp

lemma decodes_packed:
  assumes rec: "rec_safe cb contents (msg_ok n env valid) valid rec"
    and ok: "field_ok (msg_ok n env valid) env valid flds sz i"
    and st: "PB_ATYPE (ftype (field_at flds i)) = PB_ATYPE_STATIC"
    and rp: "PB_HTYPE (ftype (field_at flds i)) = PB_HTYPE_REPEATED"
    and m: "mem_ok valid dest sz m" and s: "readable cb contents r s"
  shows "decodes cb contents 1 r dest sz m s
    (decode_packed (PB_DECODERS (Suc n) env rec (PB_LTYPE (ftype (field_at flds i))))
      (iter_at flds dest i) s m)"
  using s
proof (cases rule: make_substream_readable)
  case (made p sub)
  from decodes_packed_loop [OF rec ok st rp _ m made(2), of "Suc (bytes_left sub)"]
  have d: "decodes cb contents 0 (r + bytes_left p) dest sz m sub (packed_loop (Suc (bytes_left sub))
      (PB_DECODERS (Suc n) env rec (PB_LTYPE (ftype (field_at flds i)))) (iter_at flds dest i) sub m)"
    by simp
  then obtain b sub1 m1 where res: "packed_loop (Suc (bytes_left sub))
      (PB_DECODERS (Suc n) env rec (PB_LTYPE (ftype (field_at flds i)))) (iter_at flds dest i) sub m
      = Some (b, sub1, m1)" and c1: "changed_within dest sz m m1"
    by (rule decodesE)
  show ?thesis
  proof (cases "bytes_left sub1 = 0")
    case True
    with made(1) res decodes_closed [OF d [unfolded res] made(3,4)] show ?thesis
      by (simp add: decode_packed_def del: packed_loop.simps)
  next
    case False
    with made res c1 show ?thesis
      by (auto simp: decode_packed_def simp del: packed_loop.simps intro!: decodesI)
  qed
next
  case (failed p sub)
  then show ?thesis by (auto simp: decode_packed_def intro!: decodesI)
qed

lemma oneof_init_changed:
  assumes ok: "field_ok (msg_ok n env valid) env valid flds sz i"
    and st: "PB_ATYPE (ftype (field_at flds i)) = PB_ATYPE_STATIC"
    and one: "PB_HTYPE (ftype (field_at flds i)) = PB_HTYPE_ONEOF"
    and m: "mem_ok valid dest sz m"
  defines "f \<equiv> field_at flds i" and "pd \<equiv> field_addr flds dest i"
  obtains m' where "(if PB_LTYPE (ftype f) = PB_LTYPE_SUBMESSAGE
      then do { mz \<leftarrow> memset0 m pd (data_size f); fl \<leftarrow> fields_at env (fptr f);
                pb_message_set_to_defaults (Suc n) env fl pd mz }
      else Some m) = Some m'" and "changed_within dest sz m m'"
proof (cases "PB_LTYPE (ftype f) = PB_LTYPE_SUBMESSAGE")
  case True
  have nr: "PB_HTYPE (ftype (field_at flds i)) \<noteq> PB_HTYPE_REPEATED" using one by (simp add: pb_consts)
  have lo: "dest \<le> pd" and hi: "pd + int (data_size f) \<le> dest + int sz"
    using field_ok_at(3) [OF ok] field_ok_at(8) [OF ok st nr]
    by (simp_all add: pd_def f_def field_addr_base [of flds dest])
  note mf = mem_ok_sub [OF m lo hi]
  have "allocated m pd (data_size f)" using mf by (simp add: mem_ok_def)
  then obtain mz where mz: "memset0 m pd (data_size f) = Some mz"
    and cz: "changed_within pd (data_size f) m mz"
    by (rule memset0_changed)
  obtain fl where fl: "fields_at env (fptr f) = Some fl" "msg_ok n env valid fl (data_size f)"
    by (rule value_ok_submessage [OF field_ok_at(5) [OF ok st] True [unfolded f_def]])
       (simp add: f_def)
  from defaults_changed [OF msg_ok_Suc [OF fl(2)] mem_ok_changed [OF mf cz]] obtain m'
    where m': "pb_message_set_to_defaults (Suc n) env fl pd mz = Some m'"
    and c: "changed_within pd (data_size f) mz m'"
    by blast
  from changed_mono [OF changed_trans [OF cz c] lo hi] True mz fl(1) m' show thesis
    by (intro that) auto
next
  case False
  then show thesis by (intro that) auto
qed

lemma decodes_static_field:
  assumes rec: "rec_safe cb contents (msg_ok n env valid) valid rec"
    and ok: "field_ok (msg_ok n env valid) env valid flds sz i"
    and st: "PB_ATYPE (ftype (field_at flds i)) = PB_ATYPE_STATIC"
    and m: "mem_ok valid dest sz m" and s: "readable cb contents r s"
  shows "decodes cb contents 0 r dest sz m s
    (decode_static_field (Suc n) env rec s wt (iter_at flds dest i) m)"
proof -
  let ?f = "field_at flds i"
  let ?func = "PB_DECODERS (Suc n) env rec (PB_LTYPE (ftype ?f))"
  have lt: "\<not> 0x0A \<le> PB_LTYPE (ftype ?f)"
    using field_ok_at(5) [OF ok st] by (simp add: value_ok_def Let_def not_le)
  show ?thesis
  proof (cases rule: PB_HTYPE_cases [of "ftype ?f"])
    case 1
    with decodes_single [OF rec ok st _ m s] have
      "decodes cb contents 1 r dest sz m s (?func s ?f (field_addr flds dest i) m)"
      by (simp add: pb_consts)
    from decodes_mono [OF this, of 0 dest sz] 1 lt show ?thesis
      by (simp add: decode_static_field_def Let_def)
  next
    case 2
    have "\<exists>m1. (if size_addr flds dest i \<noteq> field_addr flds dest i
        then store_bool m (size_addr flds dest i) True else Some m) = Some m1 \<and>
      changed_within dest sz m m1"
      by (auto elim: has_flag_changed [OF ok m st 2])
    then obtain m1 where m1: "(if size_addr flds dest i \<noteq> field_addr flds dest i
        then store_bool m (size_addr flds dest i) True else Some m) = Some m1"
      and c1: "changed_within dest sz m m1"
      by blast
    from 2 decodes_single [OF rec ok st _ mem_ok_changed [OF m c1] s] have
      "decodes cb contents 1 r dest sz m1 s (?func s ?f (field_addr flds dest i) m1)"
      by (simp add: pb_consts)
    from decodes_then [OF this c1, of 0 s] 2 lt m1 show ?thesis
      by (auto simp: decode_static_field_def Let_def pb_consts split: if_splits)
  next
    case 3
    have c: "counted ?f" using 3 by (simp add: counted_def)
    from load_count [OF ok c m] obtain j where j: "load_u32 m (size_addr flds dest i) = Some j" .
    consider (packed) "wt = PB_WT_STRING \<and> PB_LTYPE (ftype ?f) \<le> PB_LTYPE_LAST_PACKABLE"
      | (over) "\<not> (wt = PB_WT_STRING \<and> PB_LTYPE (ftype ?f) \<le> PB_LTYPE_LAST_PACKABLE)"
          "array_size ?f \<le> j"
      | (one) "\<not> (wt = PB_WT_STRING \<and> PB_LTYPE (ftype ?f) \<le> PB_LTYPE_LAST_PACKABLE)"
          "j < array_size ?f"
      by linarith
    then show ?thesis
    proof cases
      case packed
      from decodes_mono [OF decodes_packed [OF rec ok st 3 m s], of 0 dest sz] packed 3 lt
      show ?thesis by (auto simp: decode_static_field_def Let_def pb_consts)
    next
      case over
      with 3 lt j s show ?thesis
        by (auto simp: decode_static_field_def Let_def pb_consts intro!: decodesI)
    next
      case one
      from count_reset_changed [OF ok m c, of "j + 1"] obtain m1
        where m1: "store_u32 m (size_addr flds dest i) (j + 1) = Some m1"
        and c1: "changed_within dest sz m m1" .
      from decodes_then [OF decodes_item [OF rec ok st 3 one(2) mem_ok_changed [OF m c1] s] c1, of 0 s]
        one 3 lt j m1
      show ?thesis by (auto simp: decode_static_field_def Let_def pb_consts)
    qed
  next
    case 4
    have c: "counted ?f" using 4 by (simp add: counted_def)
    from count_reset_changed [OF ok m c, of "tag ?f"] obtain m1
      where m1: "store_u32 m (size_addr flds dest i) (tag ?f) = Some m1"
      and c1: "changed_within dest sz m m1" .
    from oneof_init_changed [OF ok st 4 mem_ok_changed [OF m c1]] obtain m2
      where m2: "(if PB_LTYPE (ftype ?f) = PB_LTYPE_SUBMESSAGE
        then do { mz \<leftarrow> memset0 m1 (field_addr flds dest i) (data_size ?f);
                  fl \<leftarrow> fields_at env (fptr ?f);
                  pb_message_set_to_defaults (Suc n) env fl (field_addr flds dest i) mz }
        else Some m1) = Some m2" and c2: "changed_within dest sz m1 m2" .
    note c12 = changed_trans [OF c1 c2]
    from 4 decodes_single [OF rec ok st _ mem_ok_changed [OF m c12] s] have
      "decodes cb contents 1 r dest sz m2 s (?func s ?f (field_addr flds dest i) m2)"
      by (simp add: pb_consts)
    from decodes_then [OF this c12, of 0 s] 4 lt m1 m2 show ?thesis
      by (auto simp: decode_static_field_def Let_def pb_consts outcome_simps split: if_splits)
  qed
qed

lemma decodes_field:
  assumes rec: "rec_safe cb contents (msg_ok n env valid) valid rec"
    and ok: "field_ok (msg_ok n env valid) env valid flds sz i"
    and m: "mem_ok valid dest sz m" and s: "readable cb contents r s"
  shows "decodes cb contents 0 r dest sz m s
    (decode_field (Suc n) env rec s wt (iter_at flds dest i) m)"
proof (cases "PB_ATYPE (ftype (field_at flds i)) = PB_ATYPE_STATIC")
  case True
  with decodes_static_field [OF rec ok True m s] show ?thesis by (simp add: decode_field_def)
next
  case False
  with s field_ok_at(2) [OF ok] show ?thesis
    by (auto simp: decode_field_def decode_pointer_field_def Let_def intro!: decodesI)
qed

end


section \<open>Messages\<close>

text \<open>
  The state of the loop: the stream is readable, only the structure has changed, the
  iterator is at a field, and the set of seen fields has its two words.
\<close>

definition loop_ok ::
    "'u icallback \<Rightarrow> ('u istate \<Rightarrow> byte list option) \<Rightarrow> nat \<Rightarrow> pb_field_t list \<Rightarrow> addr \<Rightarrow> nat \<Rightarrow> mem \<Rightarrow>
     'u dec_state \<Rightarrow> bool" where
  "loop_ok cb contents r flds dest sz m st \<longleftrightarrow>
     readable cb contents r (d_stream st) \<and> changed_within dest sz m (d_mem st) \<and>
     (\<exists>i < npos flds. d_iter st = iter_at flds dest i) \<and> length (fields_seen st) = 2"

lemma begin_at: "snd (pb_field_iter_begin flds dest) = iter_at flds dest 0"
  by (simp add: iter_begin_eq)

lemma npos_pos [simp]: "0 < npos flds" "Suc 0 \<le> npos flds"
  by (simp_all add: npos_def)

lemma search_at:
  assumes e: "nfields flds = 0 \<longrightarrow> flds = []" and i: "i < npos flds"
  shows "\<exists>b j. iter_search (Suc (length flds)) (\<lambda>it. Q (cur it)) i (iter_at flds dest i) =
      Some (b, iter_at flds dest j) \<and> j < npos flds \<and> (b \<longrightarrow> Q (field_at flds j))"
proof (cases "nfields flds = 0")
  case True
  with e i have "flds = []" "i = 0" by (auto simp: npos_def)
  then show ?thesis
    by (auto simp: iter_search.simps pb_field_iter_next_def field_at_def PB_LAST_FIELD_def npos_def
        nfields_def cur_def Let_def)
next
  case False
  with i have i': "i < nfields flds" by (simp add: npos_def)
  from False have n: "npos flds = nfields flds" by (simp add: npos_def)
  show ?thesis
  proof (cases "\<exists>k < nfields flds. Q (field_at flds k)")
    case True
    with iter_search_spec [OF i', of "Suc (length flds)" Q dest] nfields_le [of flds] n show ?thesis
      by (auto simp del: Suc_less_eq)
  next
    case False
    with iter_search_spec [OF i', of "Suc (length flds)" Q dest] nfields_le [of flds] i' n show ?thesis
      by auto
  qed
qed

lemma find_at:
  assumes "nfields flds = 0 \<longrightarrow> flds = []" and "i < npos flds"
  shows "\<exists>b j. pb_field_iter_find (iter_at flds dest i) t = Some (b, iter_at flds dest j) \<and>
    j < npos flds"
proof -
  have "iter_matches t = (\<lambda>it. field_matches t (cur it))"
    by (auto simp: fun_eq_iff iter_matches_def field_matches_def)
  with search_at [OF assms, of "field_matches t" dest] show ?thesis
    by (auto simp: pb_field_iter_find_def)
qed

lemma msg_ok_field:
  "msg_ok (Suc n) env valid flds sz \<Longrightarrow> i < npos flds \<Longrightarrow>
     field_ok (msg_ok n env valid) env valid flds sz i"
  by (simp add: list_all_iff)

lemma no_extension_at:
  assumes ok: "msg_ok (Suc n) env valid flds sz" and i: "i < npos flds"
  shows "\<exists>j. find_extension_field (iter_at flds dest i) = Some (False, iter_at flds dest j) \<and> j < npos flds"
proof -
  from ok have e: "nfields flds = 0 \<longrightarrow> flds = []" by simp
  let ?Q = "\<lambda>f. PB_LTYPE (ftype f) = PB_LTYPE_EXTENSION"
  from search_at [OF e i, of ?Q dest] obtain b j
    where b: "find_extension_field (iter_at flds dest i) = Some (b, iter_at flds dest j)"
    and j: "j < npos flds" "b \<longrightarrow> ?Q (field_at flds j)"
    by (auto simp: find_extension_field_def)
  from field_ok_at(1) [OF msg_ok_field [OF ok j(1)]] j b show ?thesis by auto
qed

lemma mark_seen_length [simp]: "length (mark_seen it seen) = length seen"
  by (simp add: mark_seen_def Let_def)

text \<open>The tag of a field has at most 29 bits.\<close>

lemma tag_small: "drop_bit 3 (w :: u32) < 2 ^ 29"
proof -
  have "unat (drop_bit 3 w) = unat w div 8"
    by (simp only: unat_drop_bit_eq) (simp add: drop_bit_eq_div)
  moreover have "unat w < 2 ^ LENGTH(32)" by (rule unsigned_less)
  ultimately show ?thesis by (simp add: word_less_nat_alt)
qed

context byte_source
begin

lemma tag_readable:
  assumes "readable cb contents r s"
  obtains ok wt t eof s1 where "pb_decode_tag s = Some (ok, wt, t, eof, s1)"
    and "readable cb contents r s1" and "bytes_left s1 + (if ok then 1 else 0) \<le> bytes_left s"
    and "ok \<longrightarrow> t < 2 ^ 29"
proof -
  from safe_reader_readable [OF safe_decode_tag assms] obtain ok v s1
    where tr: "tag_reader s = Some (ok, v, s1)" and s1: "readable cb contents r s1"
    "bytes_left s1 + (if ok then 1 else 0) \<le> bytes_left s" .
  then obtain wt t eof where dt: "pb_decode_tag s = Some (ok, wt, t, eof, s1)"
    by (auto simp: tag_reader_def)
  moreover have "ok \<longrightarrow> t < 2 ^ 29"
    using dt tag_small
    by (auto simp: pb_decode_tag_def outcome_simps split: if_splits)
  ultimately show thesis using s1 that by blast
qed

lemma skip_unknown_ok:
  assumes "loop_ok cb contents r flds dest sz m st"
  shows "\<exists>fl st'. skip_unknown wt st = Some (fl, st') \<and> loop_ok cb contents r flds dest sz m st' \<and>
    bytes_left (d_stream st') \<le> bytes_left (d_stream st)"
proof -
  from assms have "readable cb contents r (d_stream st)" by (simp add: loop_ok_def)
  from safe_reader_readable [OF safe_skip_field this, of wt] obtain ok v s1
    where "as_reader (\<lambda>s. pb_skip_field s wt) (d_stream st) = Some (ok, v, s1)"
    and "readable cb contents r s1" "bytes_left s1 + (if ok then 1 else 0) \<le> bytes_left (d_stream st)" .
  with assms show ?thesis by (auto simp: skip_unknown_def as_reader_def loop_ok_def)
qed

lemma decode_unknown_ok:
  assumes ok: "msg_ok (Suc n) env valid flds sz" and st: "loop_ok cb contents r flds dest sz m st"
    and t: "t < 2 ^ 29"
  shows "\<exists>fl st'. decode_unknown k env rec t wt st = Some (fl, st') \<and>
    loop_ok cb contents r flds dest sz m st' \<and> bytes_left (d_stream st') \<le> bytes_left (d_stream st)"
proof (cases "extension_range_start st \<le> t")
  case True
  from st obtain i where i: "i < npos flds" "d_iter st = iter_at flds dest i"
    by (auto simp: loop_ok_def)
  from no_extension_at [OF ok i(1), of dest] obtain j
    where f: "find_extension_field (d_iter st) = Some (False, iter_at flds dest j)" "j < npos flds"
    using i(2) by auto
  let ?st1 = "st\<lparr>d_iter := iter_at flds dest j, extension_range_start := - 1\<rparr>"
  have "\<not> - 1 \<le> t"
  proof
    assume "- 1 \<le> t"
    then have "t = - 1" by (simp add: word_order.extremum_unique)
    with t show False by simp
  qed
  with True f have "decode_unknown k env rec t wt st = skip_unknown wt ?st1"
    by (simp add: decode_unknown_def Let_def)
  moreover have "loop_ok cb contents r flds dest sz m ?st1" using st f(2) by (auto simp: loop_ok_def)
  ultimately show ?thesis using skip_unknown_ok [of r flds dest sz m ?st1 wt] by simp
next
  case False
  with skip_unknown_ok [OF st] show ?thesis by (simp add: decode_unknown_def)
qed

lemma decode_iteration_ok:
  assumes rec: "rec_safe cb contents (msg_ok n env valid) valid rec"
    and ok: "msg_ok (Suc n) env valid flds sz" and m: "mem_ok valid dest sz m"
    and st: "loop_ok cb contents r flds dest sz m st"
  shows "\<exists>fl st'. decode_iteration (Suc n) env rec st = Some (fl, st') \<and>
    loop_ok cb contents r flds dest sz m st' \<and>
    bytes_left (d_stream st') + (if fl = Continue then 1 else 0) \<le> bytes_left (d_stream st)"
proof -
  from st have s: "readable cb contents r (d_stream st)" by (simp add: loop_ok_def)
  from tag_readable [OF s] obtain b wt t eof s1
    where tg: "pb_decode_tag (d_stream st) = Some (b, wt, t, eof, s1)"
    and s1: "readable cb contents r s1" "bytes_left s1 + (if b then 1 else 0) \<le> bytes_left (d_stream st)"
    and t: "b \<longrightarrow> t < 2 ^ 29" .
  show ?thesis
  proof (cases b)
    case False
    with tg s1 st show ?thesis
      by (auto simp: decode_iteration_def loop_ok_def)
  next
    case True
    from st obtain i where i: "i < npos flds" "d_iter st = iter_at flds dest i"
      by (auto simp: loop_ok_def)
    from ok have "nfields flds = 0 \<longrightarrow> flds = []" by simp
    from find_at [OF this i(1), of dest "unat t"] obtain found j
      where f: "pb_field_iter_find (d_iter st) (unat t) = Some (found, iter_at flds dest j)"
      and j: "j < npos flds"
      using i(2) by auto
    let ?st2 = "st\<lparr>d_stream := s1, d_iter := iter_at flds dest j\<rparr>"
    have st2: "loop_ok cb contents r flds dest sz m ?st2" using st s1 j by (auto simp: loop_ok_def)
    show ?thesis
    proof (cases found)
      case False
      with True tg f have "decode_iteration (Suc n) env rec st = decode_unknown (Suc n) env rec t wt ?st2"
        by (simp add: decode_iteration_def)
      with decode_unknown_ok [OF ok st2 mp [OF t True], of "Suc n" rec wt] s1 True show ?thesis
        by auto
    next
      case fd: True
      from st have "mem_ok valid dest sz (d_mem st)"
        using mem_ok_changed [OF m] by (auto simp: loop_ok_def)
      from decodes_field [OF rec msg_ok_field [OF ok j] this s1(1), of wt]
      obtain b2 s2 m2 where d: "decode_field (Suc n) env rec s1 wt (iter_at flds dest j) (d_mem st)
          = Some (b2, s2, m2)" and "readable cb contents r s2" "bytes_left s2 \<le> bytes_left s1"
        and "changed_within dest sz (d_mem st) m2"
        by (auto elim: decodesE)
      with st j have "loop_ok cb contents r flds dest sz m
          (?st2\<lparr>fields_seen := mark_seen (iter_at flds dest j) (fields_seen st), d_stream := s2, d_mem := m2\<rparr>)"
        by (auto simp: loop_ok_def intro: changed_trans)
      with True fd tg f d s1 \<open>bytes_left s2 \<le> bytes_left s1\<close> show ?thesis
        by (auto simp: decode_iteration_def Let_def)
    qed
  qed
qed

lemma decode_loop_ok:
  assumes rec: "rec_safe cb contents (msg_ok n env valid) valid rec"
    and ok: "msg_ok (Suc n) env valid flds sz" and m: "mem_ok valid dest sz m"
  shows "loop_ok cb contents r flds dest sz m st \<Longrightarrow> bytes_left (d_stream st) < k \<Longrightarrow>
    \<exists>b st'. decode_loop k (decode_iteration (Suc n) env rec) st = Some (b, st') \<and>
      loop_ok cb contents r flds dest sz m st' \<and> bytes_left (d_stream st') \<le> bytes_left (d_stream st)"
proof (induction k arbitrary: st)
  case (Suc k)
  from decode_iteration_ok [OF rec ok m Suc.prems(1)] obtain fl st1
    where it: "decode_iteration (Suc n) env rec st = Some (fl, st1)"
    and st1: "loop_ok cb contents r flds dest sz m st1"
    and l: "bytes_left (d_stream st1) + (if fl = Continue then 1 else 0) \<le> bytes_left (d_stream st)"
    by blast
  show ?case
  proof (cases "bytes_left (d_stream st) = 0")
    case True
    with Suc.prems(1) show ?thesis by auto
  next
    case False
    show ?thesis
    proof (cases fl)
      case Continue
      with l Suc.prems(2) have "bytes_left (d_stream st1) < k" by simp
      from Suc.IH [OF st1 this] Continue False it l show ?thesis by fastforce
    qed (use False it st1 l in auto)
  qed
qed simp

end

lemma each_last:
  "each (\<lambda>x _. Some (True, g x)) xs s = Some (True, if xs = [] then s else g (last xs))"
  by (induction xs arbitrary: s) auto

text \<open>The count the code arrives at by running the iterator to the end.\<close>

lemma count_required_eq:
  assumes e: "nfields flds = 0 \<longrightarrow> flds = []" and i: "i < npos flds"
  shows "count_required (iter_at flds dest i) = Some (required_count flds)"
proof (cases "nfields flds = 0")
  case True
  with e i have "flds = []" "i = 0" by (auto simp: npos_def)
  then show ?thesis
    by (subst count_required_def, subst iter_do_while.simps)
       (simp add: pb_field_iter_next_def field_at_def PB_LAST_FIELD_def required_count_def
         nfields_def required_before_def cur_def iter_at_def Let_def)
next
  case False
  let ?l = "nfields flds - 1"
  from False i have i': "i < nfields flds" and ne: "[i..<nfields flds] \<noteq> []" by (auto simp: npos_def)
  then have "last [i..<nfields flds] = ?l" by simp
  with i' have "iter_do_while (\<lambda>it _. Some (True, required_field_index it, ftype (cur it)))
      (iter_at flds dest i) (0, 0) = Some (True, required_before flds ?l, ftype (field_at flds ?l))"
    by (simp add: iter_do_while_eq each_last last_map)
  moreover have "tag (field_at flds 0) \<noteq> 0" using False by (intro tag_before_nfields) simp
  moreover have "required_count flds = required_before flds ?l +
      (if PB_HTYPE (ftype (field_at flds ?l)) = PB_HTYPE_REQUIRED then 1 else 0)"
    using required_before_Suc [of ?l flds] nfields_le [of flds] False
    by (simp add: required_count_def)
  ultimately show ?thesis by (simp add: count_required_def)
qed

lemma required_seen_defined:
  assumes "required_ok c" and "length seen = 2"
  shows "\<exists>b. required_seen seen c = Some b"
proof (cases "c = 0")
  case False
  with assms(1) have c: "c < 64" "c mod 32 \<noteq> 0" by (auto simp: required_ok_def)
  then consider "c div 32 = 0" | "c div 32 = Suc 0" by linarith
  then show ?thesis
    by cases (use False c assms(2) in \<open>auto simp: required_seen_def\<close>)
qed (auto simp: required_seen_def)

context byte_source
begin

lemma decodes_body:
  assumes rec: "rec_safe cb contents (msg_ok n env valid) valid rec"
    and ok: "msg_ok (Suc n) env valid flds sz" and m: "mem_ok valid dest sz m"
    and s: "readable cb contents r s"
  shows "decodes cb contents 0 r dest sz m s (decode_body (Suc n) env rec flds dest s m)"
proof -
  let ?st0 = "\<lparr>d_stream = s, d_mem = m, d_iter = snd (pb_field_iter_begin flds dest),
    extension_range_start = 0, fields_seen = [0, 0]\<rparr>"
  have "loop_ok cb contents r flds dest sz m ?st0"
    using s by (auto simp: loop_ok_def begin_at intro!: exI [of _ 0])
  from decode_loop_ok [OF rec ok m this, of "Suc (bytes_left s)"] obtain b st
    where lp: "decode_loop (Suc (bytes_left s)) (decode_iteration (Suc n) env rec) ?st0 = Some (b, st)"
    and st: "loop_ok cb contents r flds dest sz m st" and l: "bytes_left (d_stream st) \<le> bytes_left s"
    by auto
  from st obtain i where i: "i < npos flds" "d_iter st = iter_at flds dest i"
    by (auto simp: loop_ok_def)
  from ok have e: "nfields flds = 0 \<longrightarrow> flds = []" and rq: "required_ok (required_count flds)"
    by simp_all
  from required_seen_defined [OF rq, of "fields_seen st"] st obtain seen
    where "required_seen (fields_seen st) (required_count flds) = Some seen"
    by (auto simp: loop_ok_def)
  with lp l st count_required_eq [OF e i(1), of dest] i(2) show ?thesis
    by (auto simp: decode_body_def loop_ok_def simp del: decode_loop.simps intro!: decodesI)
qed

lemma noinit_safe: "rec_safe cb contents (msg_ok n env valid) valid (pb_decode_noinit_f n env)"
proof (induction n)
  case (Suc n)
  from decodes_body [OF Suc] show ?case by (simp add: rec_safe_def)
qed (simp add: rec_safe_def)

lemma decode_safe:
  assumes ok: "msg_ok n env valid flds sz" and m: "mem_ok valid dest sz m"
    and s: "readable cb contents r s"
  shows "decodes cb contents 0 r dest sz m s (pb_decode n env s flds dest m)"
proof -
  from defaults_changed [OF ok m] obtain m1
    where m1: "pb_message_set_to_defaults n env flds dest m = Some m1"
    and c: "changed_within dest sz m m1"
    by blast
  from rec_safeD [OF noinit_safe ok mem_ok_changed [OF m c] s]
  have "decodes cb contents 0 r dest sz m1 s (pb_decode_noinit_f n env flds dest s m1)" .
  from decodes_after [OF this c] m1 show ?thesis
    by (simp add: pb_decode_def pb_decode_noinit_def)
qed

lemma decode_delimited_safe:
  assumes ok: "msg_ok n env valid flds sz" and m: "mem_ok valid dest sz m"
    and s: "readable cb contents r s"
  shows "decodes cb contents 0 r dest sz m s (pb_decode_delimited n env s flds dest m)"
  using s
proof (cases rule: make_substream_readable)
  case (made p sub)
  from decode_safe [OF ok m made(2)]
  have d: "decodes cb contents 0 (r + bytes_left p) dest sz m sub (pb_decode n env sub flds dest m)" .
  then obtain st sub1 m1 where res: "pb_decode n env sub flds dest m = Some (st, sub1, m1)"
    by (rule decodesE)
  from decodes_mono [OF decodes_closed [OF d [unfolded res] made(3,4)], of 0 dest sz] made(1) res
  show ?thesis by (simp add: pb_decode_delimited_def)
next
  case (failed p sub)
  then show ?thesis by (auto simp: pb_decode_delimited_def intro!: decodesI)
qed

end

lemma readable_from_buffer:
  "n \<le> length buf \<Longrightarrow> readable BufRead ibuf (length buf - n) (pb_istream_from_buffer buf n)"
  by (simp add: readable_def pb_istream_from_buffer_def ibuf_def)

end
