(* ===== verification/Pb_Encode.thy ===== *)
theory Pb_Encode
  imports Pb_Wire Pb_Common
begin

text \<open>
  The message encoder of Pods/nanopb/pb_encode.c: the encoders of single values
  (\<open>pb_enc_varint\<close> and its siblings), of fields (\<open>encode_array\<close>, \<open>encode_basic_field\<close>,
  \<open>encode_callback_field\<close>, \<open>encode_extension_field\<close>) and of messages (\<open>pb_encode\<close>,
  \<open>pb_encode_submessage\<close>, \<open>pb_get_encoded_size\<close>).

  The encoder reads the message and never writes to it, so the memory is an argument.  The
  functions of the application that a callback field or an extension calls are part of the
  environment; a null entry is a call the C code cannot make.  Messages contain messages,
  so the encoder is recursive: the first argument of \<open>pb_encode_f\<close> bounds the nesting depth
  and the length of a chain of extensions, and \<open>rec\<close> in the definitions before it stands
  for the encoder of the next level.
\<close>

type_synonym 'u oresult = "(bool \<times> 'u pb_ostream_t) option"

type_synonym 'u enc_rec = "pb_field_t list \<Rightarrow> addr \<Rightarrow> 'u pb_ostream_t \<Rightarrow> 'u oresult"

record 'u enc_env = pb_rodata +
  encode_cb :: "addr \<Rightarrow> ('u pb_ostream_t \<Rightarrow> pb_field_t \<Rightarrow> addr \<Rightarrow> 'u oresult) option"
  ext_encode_cb :: "addr \<Rightarrow> ('u pb_ostream_t \<Rightarrow> addr \<Rightarrow> 'u oresult) option"


section \<open>Submessages\<close>

definition pb_encode_submessage ::
    "'u enc_rec \<Rightarrow> 'u pb_ostream_t \<Rightarrow> pb_field_t list \<Rightarrow> addr \<Rightarrow> 'u oresult" where
  "pb_encode_submessage rec s flds src =
     do { (ok, sub) \<leftarrow> rec flds src PB_OSTREAM_SIZING;
          if \<not> ok then Some (False, s\<lparr>o_errmsg := o_errmsg sub\<rparr>)
          else do {
            let sz = bytes_written sub;
            (ok, s1) \<leftarrow> pb_encode_varint s (of_nat sz);
            if \<not> ok then Some (False, s1)
            else if o_callback s1 = None then pb_write Map.empty s1 (At NULL) sz
            else if size_add (bytes_written s1) sz > max_size s1
            then Some (False, o_error s1 ''stream full'')
            else do {
              (status, sub1) \<leftarrow> rec flds src
                (sub\<lparr>o_callback := o_callback s1, o_state := o_state s1, max_size := sz,
                    bytes_written := 0, o_errmsg := None\<rparr>);
              let s2 = s1\<lparr>bytes_written := size_add (bytes_written s1) (bytes_written sub1),
                          o_state := o_state sub1, o_errmsg := o_errmsg sub1\<rparr>;
              if bytes_written sub1 \<noteq> sz
              then Some (False, o_error s2 ''submsg size changed'')
              else Some (status, s2) } } }"


section \<open>Values\<close>

text \<open>
  An integer member of the message structure by its \<open>sizeof\<close>; the outer None is a size the
  code rejects, the inner one an access outside the memory.
\<close>

definition load_signed :: "mem \<Rightarrow> nat \<Rightarrow> addr \<Rightarrow> u64 option option" where
  "load_signed m sz src =
     (if sz = 1 then Some (map_option scast (load_word 1 m src :: 8 word option))
      else if sz = 2 then Some (map_option scast (load_word 2 m src :: 16 word option))
      else if sz = 4 then Some (map_option scast (load_word 4 m src :: 32 word option))
      else if sz = 8 then Some (load_word 8 m src)
      else None)"

definition load_unsigned :: "mem \<Rightarrow> nat \<Rightarrow> addr \<Rightarrow> u64 option option" where
  "load_unsigned m sz src =
     (if sz = 1 then Some (map_option ucast (load_word 1 m src :: 8 word option))
      else if sz = 2 then Some (map_option ucast (load_word 2 m src :: 16 word option))
      else if sz = 4 then Some (map_option ucast (load_word 4 m src :: 32 word option))
      else if sz = 8 then Some (load_word 8 m src)
      else None)"

definition pb_enc_varint ::
    "mem \<Rightarrow> 'u pb_ostream_t \<Rightarrow> pb_field_t \<Rightarrow> addr \<Rightarrow> 'u oresult" where
  "pb_enc_varint m s f src =
     (case load_signed m (data_size f) src of
        None \<Rightarrow> Some (False, o_error s ''invalid data_size'')
      | Some v \<Rightarrow> do { w \<leftarrow> v; pb_encode_varint s w })"

definition pb_enc_uvarint ::
    "mem \<Rightarrow> 'u pb_ostream_t \<Rightarrow> pb_field_t \<Rightarrow> addr \<Rightarrow> 'u oresult" where
  "pb_enc_uvarint m s f src =
     (case load_unsigned m (data_size f) src of
        None \<Rightarrow> Some (False, o_error s ''invalid data_size'')
      | Some v \<Rightarrow> do { w \<leftarrow> v; pb_encode_varint s w })"

definition pb_enc_svarint ::
    "mem \<Rightarrow> 'u pb_ostream_t \<Rightarrow> pb_field_t \<Rightarrow> addr \<Rightarrow> 'u oresult" where
  "pb_enc_svarint m s f src =
     (case load_signed m (data_size f) src of
        None \<Rightarrow> Some (False, o_error s ''invalid data_size'')
      | Some v \<Rightarrow> do { w \<leftarrow> v; pb_encode_svarint s w })"

definition pb_enc_fixed64 ::
    "mem \<Rightarrow> 'u pb_ostream_t \<Rightarrow> pb_field_t \<Rightarrow> addr \<Rightarrow> 'u oresult" where
  "pb_enc_fixed64 m s f src = pb_encode_fixed64 m s src"

definition pb_enc_fixed32 ::
    "mem \<Rightarrow> 'u pb_ostream_t \<Rightarrow> pb_field_t \<Rightarrow> addr \<Rightarrow> 'u oresult" where
  "pb_enc_fixed32 m s f src = pb_encode_fixed32 m s src"

definition pb_enc_bytes ::
    "mem \<Rightarrow> 'u pb_ostream_t \<Rightarrow> pb_field_t \<Rightarrow> addr \<Rightarrow> 'u oresult" where
  "pb_enc_bytes m s f src =
     (if src = NULL then pb_encode_string m s (At NULL) 0
      else do {
        sz \<leftarrow> load_u32 m (src + BYTES_size_ofs);
        if PB_ATYPE (ftype f) = PB_ATYPE_STATIC \<and> PB_BYTES_ARRAY_T_ALLOCSIZE sz > data_size f
        then Some (False, o_error s ''bytes size exceeded'')
        else pb_encode_string m s (At (src + BYTES_bytes_ofs)) sz })"

text \<open>The loop of \<open>pb_enc_string\<close> in place of \<open>strnlen\<close>.\<close>

fun strnlen_loop :: "mem \<Rightarrow> addr \<Rightarrow> nat \<Rightarrow> nat option" where
  "strnlen_loop m p max_sz =
     (if max_sz = 0 then Some 0
      else do { c \<leftarrow> m p;
                if c = 0 then Some 0 else map_option Suc (strnlen_loop m (p + 1) (max_sz - 1)) })"

declare strnlen_loop.simps [simp del]

definition pb_enc_string ::
    "mem \<Rightarrow> 'u pb_ostream_t \<Rightarrow> pb_field_t \<Rightarrow> addr \<Rightarrow> 'u oresult" where
  "pb_enc_string m s f src =
     do { let max_sz = (if PB_ATYPE (ftype f) = PB_ATYPE_POINTER then SIZE_MOD - 1
                        else data_size f);
          sz \<leftarrow> (if src = NULL then Some 0 else strnlen_loop m src max_sz);
          pb_encode_string m s (At src) sz }"

definition pb_enc_submessage ::
    "'u enc_env \<Rightarrow> 'u enc_rec \<Rightarrow> 'u pb_ostream_t \<Rightarrow> pb_field_t \<Rightarrow> addr \<Rightarrow> 'u oresult" where
  "pb_enc_submessage env rec s f src =
     (if fptr f = NULL then Some (False, o_error s ''invalid field descriptor'')
      else do { flds \<leftarrow> fields_at env (fptr f); pb_encode_submessage rec s flds src })"

definition pb_enc_fixed_length_bytes ::
    "mem \<Rightarrow> 'u pb_ostream_t \<Rightarrow> pb_field_t \<Rightarrow> addr \<Rightarrow> 'u oresult" where
  "pb_enc_fixed_length_bytes m s f src = pb_encode_string m s (At src) (data_size f)"

text \<open>
  The table \<open>PB_ENCODERS\<close>: ten entries, of which the one of the extension type is null.
\<close>

definition PB_LTYPES_COUNT :: byte where [pb_consts]: "PB_LTYPES_COUNT = 0x0A"

definition PB_ENCODERS ::
    "'u enc_env \<Rightarrow> 'u enc_rec \<Rightarrow> mem \<Rightarrow> byte \<Rightarrow>
     ('u pb_ostream_t \<Rightarrow> pb_field_t \<Rightarrow> addr \<Rightarrow> 'u oresult)" where
  "PB_ENCODERS env rec m lt =
     (if lt = PB_LTYPE_VARINT then pb_enc_varint m
      else if lt = PB_LTYPE_UVARINT then pb_enc_uvarint m
      else if lt = PB_LTYPE_SVARINT then pb_enc_svarint m
      else if lt = PB_LTYPE_FIXED32 then pb_enc_fixed32 m
      else if lt = PB_LTYPE_FIXED64 then pb_enc_fixed64 m
      else if lt = PB_LTYPE_BYTES then pb_enc_bytes m
      else if lt = PB_LTYPE_STRING then pb_enc_string m
      else if lt = PB_LTYPE_SUBMESSAGE then pb_enc_submessage env rec
      else if lt = PB_LTYPE_FIXED_LENGTH_BYTES then pb_enc_fixed_length_bytes m
      else (\<lambda>s f src. None))"


section \<open>Arrays\<close>

text \<open>The loops \<open>for (i = 0; i < count; i++) ...; p += field->data_size\<close>.\<close>

fun for_items ::
    "('u pb_ostream_t \<Rightarrow> addr \<Rightarrow> 'u oresult) \<Rightarrow> nat \<Rightarrow> nat \<Rightarrow> addr \<Rightarrow> 'u pb_ostream_t \<Rightarrow> 'u oresult" where
  "for_items body step 0 p s = Some (True, s)"
| "for_items body step (Suc n) p s =
     do { (ok, s1) \<leftarrow> body s p;
          if \<not> ok then Some (False, s1) else for_items body step n (p + int step) s1 }"

definition packed_size ::
    "pb_field_t \<Rightarrow> addr \<Rightarrow> nat \<Rightarrow> ('u pb_ostream_t \<Rightarrow> pb_field_t \<Rightarrow> addr \<Rightarrow> 'u oresult) \<Rightarrow>
     (bool \<times> nat) option" where
  "packed_size f pd count func =
     (if PB_LTYPE (ftype f) = PB_LTYPE_FIXED32 then Some (True, 4 * count)
      else if PB_LTYPE (ftype f) = PB_LTYPE_FIXED64 then Some (True, 8 * count)
      else do {
        (ok, ss) \<leftarrow> for_items (\<lambda>s p. func s f p) (data_size f) count pd PB_OSTREAM_SIZING;
        Some (ok, bytes_written ss) })"

definition encode_array ::
    "mem \<Rightarrow> 'u pb_ostream_t \<Rightarrow> pb_field_t \<Rightarrow> addr \<Rightarrow> nat \<Rightarrow>
     ('u pb_ostream_t \<Rightarrow> pb_field_t \<Rightarrow> addr \<Rightarrow> 'u oresult) \<Rightarrow> 'u oresult" where
  "encode_array m s f pd count func =
     (if count = 0 then Some (True, s)
      else if PB_ATYPE (ftype f) \<noteq> PB_ATYPE_POINTER \<and> count > array_size f
      then Some (False, o_error s ''array max size exceeded'')
      else if PB_LTYPE (ftype f) \<le> PB_LTYPE_LAST_PACKABLE
      then do {
        (ok, s1) \<leftarrow> pb_encode_tag s PB_WT_STRING (of_nat (tag f));
        if \<not> ok then Some (False, s1)
        else do {
          (ok, sz) \<leftarrow> packed_size f pd count func;
          if \<not> ok then Some (False, s1)
          else do {
            (ok, s2) \<leftarrow> pb_encode_varint s1 (of_nat sz);
            if \<not> ok then Some (False, s2)
            else if o_callback s2 = None then pb_write m s2 (At NULL) sz
            else for_items (\<lambda>s p. func s f p) (data_size f) count pd s2 } } }
      else
        for_items (\<lambda>s p. do {
            (ok, s1) \<leftarrow> pb_encode_tag_for_field s f;
            if \<not> ok then Some (False, s1)
            else if PB_ATYPE (ftype f) = PB_ATYPE_POINTER \<and>
              (PB_LTYPE (ftype f) = PB_LTYPE_STRING \<or> PB_LTYPE (ftype f) = PB_LTYPE_BYTES)
            then do { q \<leftarrow> load_ptr m p; func s1 f q }
            else func s1 f p })
          (data_size f) count pd s)"


section \<open>Fields\<close>

fun all_zero :: "mem \<Rightarrow> addr \<Rightarrow> nat \<Rightarrow> bool option" where
  "all_zero m p 0 = Some True"
| "all_zero m p (Suc n) =
     do { b \<leftarrow> m p; if b \<noteq> 0 then Some False else all_zero m (p + 1) n }"

text \<open>
  \<open>pb_check_proto3_default_value\<close>, with a bound on the nesting of static submessages.  The
  last branch compares \<open>data_size\<close> bytes at \<open>pData\<close>, for pointer fields too.
\<close>

fun pb_check_proto3_default_value ::
    "nat \<Rightarrow> 'u enc_env \<Rightarrow> mem \<Rightarrow> pb_field_t \<Rightarrow> addr \<Rightarrow> bool option" where
  "pb_check_proto3_default_value 0 env m f pd = None"
| "pb_check_proto3_default_value (Suc n) env m f pd =
     (if PB_ATYPE (ftype f) = PB_ATYPE_STATIC \<and> PB_LTYPE (ftype f) = PB_LTYPE_BYTES
      then map_option (\<lambda>sz. sz = 0) (load_u32 m (pd + BYTES_size_ofs))
      else if PB_ATYPE (ftype f) = PB_ATYPE_STATIC \<and> PB_LTYPE (ftype f) = PB_LTYPE_STRING
      then map_option (\<lambda>c. c = 0) (m pd)
      else if PB_ATYPE (ftype f) = PB_ATYPE_STATIC \<and>
        PB_LTYPE (ftype f) = PB_LTYPE_FIXED_LENGTH_BYTES
      then Some (data_size f = 0)
      else if PB_ATYPE (ftype f) = PB_ATYPE_STATIC \<and> PB_LTYPE (ftype f) = PB_LTYPE_SUBMESSAGE
      then do {
        flds \<leftarrow> fields_at env (fptr f);
        (case pb_field_iter_begin flds pd of
           (nonempty, it) \<Rightarrow>
             if nonempty
             then map_option fst
               (iter_do_while
                 (\<lambda>it u. map_option (\<lambda>d. (d, ()))
                    (pb_check_proto3_default_value n env m (cur it) (pData it)))
                 it ())
             else Some True) }
      else all_zero m pd (data_size f))"

text \<open>
  Where \<open>encode_basic_field\<close> reads the has-flag or the count from: the local variable
  \<open>implicit_has\<close> or the structure.  Reading a \<open>pb_size_t\<close> out of the local boolean is
  undefined.
\<close>

datatype size_src = Implicit bool | SizeAt addr

definition read_has :: "mem \<Rightarrow> size_src \<Rightarrow> bool option" where
  "read_has m p = (case p of Implicit b \<Rightarrow> Some b | SizeAt a \<Rightarrow> load_bool m a)"

definition read_count :: "mem \<Rightarrow> size_src \<Rightarrow> nat option" where
  "read_count m p = (case p of Implicit b \<Rightarrow> None | SizeAt a \<Rightarrow> load_u32 m a)"

definition encode_basic_field ::
    "nat \<Rightarrow> 'u enc_env \<Rightarrow> 'u enc_rec \<Rightarrow> mem \<Rightarrow> 'u pb_ostream_t \<Rightarrow> pb_field_t \<Rightarrow> addr \<Rightarrow>
     'u oresult" where
  "encode_basic_field n env rec m s f pd =
     (if PB_LTYPE (ftype f) \<ge> PB_LTYPES_COUNT then None
      else do {
        let func = PB_ENCODERS env rec m (PB_LTYPE (ftype f));
        psize \<leftarrow>
          (if size_offset f \<noteq> 0 then Some (SizeAt (pd + size_offset f))
           else if PB_HTYPE (ftype f) = PB_HTYPE_OPTIONAL
           then map_option (\<lambda>d. Implicit (\<not> d)) (pb_check_proto3_default_value n env m f pd)
           else Some (Implicit True));
        (pd1, psize1) \<leftarrow>
          (if PB_ATYPE (ftype f) = PB_ATYPE_POINTER
           then map_option (\<lambda>q. (q, case psize of Implicit _ \<Rightarrow> Implicit (q \<noteq> NULL)
                                     | SizeAt a \<Rightarrow> SizeAt a)) (load_ptr m pd)
           else Some (pd, psize));
        let tag_and_value = do {
          (ok, s1) \<leftarrow> pb_encode_tag_for_field s f;
          if \<not> ok then Some (False, s1) else func s1 f pd1 };
        if PB_HTYPE (ftype f) = PB_HTYPE_REQUIRED
        then (if pd1 = NULL then Some (False, o_error s ''missing required field'')
              else tag_and_value)
        else if PB_HTYPE (ftype f) = PB_HTYPE_OPTIONAL
        then do { has \<leftarrow> read_has m psize1; if has then tag_and_value else Some (True, s) }
        else if PB_HTYPE (ftype f) = PB_HTYPE_REPEATED
        then do { count \<leftarrow> read_count m psize1; encode_array m s f pd1 count func }
        else if PB_HTYPE (ftype f) = PB_HTYPE_ONEOF
        then do { which \<leftarrow> read_count m psize1;
                  if which = tag f then tag_and_value else Some (True, s) }
        else Some (False, o_error s ''invalid field type'') })"

definition encode_callback_field ::
    "'u enc_env \<Rightarrow> mem \<Rightarrow> 'u pb_ostream_t \<Rightarrow> pb_field_t \<Rightarrow> addr \<Rightarrow> 'u oresult" where
  "encode_callback_field env m s f pd =
     do { fn \<leftarrow> load_ptr m (pd + CALLBACK_funcs_ofs);
          if fn \<noteq> NULL
          then do {
            encode \<leftarrow> encode_cb env fn;
            (ok, s1) \<leftarrow> encode s f (pd + CALLBACK_arg_ofs);
            if \<not> ok then Some (False, o_error s1 ''callback error'') else Some (True, s1) }
          else Some (True, s) }"

definition encode_field ::
    "nat \<Rightarrow> 'u enc_env \<Rightarrow> 'u enc_rec \<Rightarrow> mem \<Rightarrow> 'u pb_ostream_t \<Rightarrow> pb_field_t \<Rightarrow> addr \<Rightarrow>
     'u oresult" where
  "encode_field n env rec m s f pd =
     (if PB_ATYPE (ftype f) = PB_ATYPE_STATIC \<or> PB_ATYPE (ftype f) = PB_ATYPE_POINTER
      then encode_basic_field n env rec m s f pd
      else if PB_ATYPE (ftype f) = PB_ATYPE_CALLBACK then encode_callback_field env m s f pd
      else Some (False, o_error s ''invalid field type''))"

definition default_extension_encoder ::
    "nat \<Rightarrow> 'u enc_env \<Rightarrow> 'u enc_rec \<Rightarrow> mem \<Rightarrow> 'u pb_ostream_t \<Rightarrow> addr \<Rightarrow> 'u oresult" where
  "default_extension_encoder n env rec m s ext =
     do { ty \<leftarrow> load_ptr m (ext + EXT_type_ofs);
          et \<leftarrow> ext_type_at env ty;
          flds \<leftarrow> fields_at env (et_arg et);
          let f = field_at flds 0;
          if PB_ATYPE (ftype f) = PB_ATYPE_POINTER
          then encode_field n env rec m s f (ext + EXT_dest_ofs)
          else do { dest \<leftarrow> load_ptr m (ext + EXT_dest_ofs); encode_field n env rec m s f dest } }"

text \<open>The loop \<open>while (extension)\<close> over the chain, bounded by its first argument.\<close>

fun encode_extensions ::
    "nat \<Rightarrow> nat \<Rightarrow> 'u enc_env \<Rightarrow> 'u enc_rec \<Rightarrow> mem \<Rightarrow> 'u pb_ostream_t \<Rightarrow> addr \<Rightarrow> 'u oresult" where
  "encode_extensions 0 n env rec m s ext = (if ext = NULL then Some (True, s) else None)"
| "encode_extensions (Suc k) n env rec m s ext =
     (if ext = NULL then Some (True, s)
      else do {
        ty \<leftarrow> load_ptr m (ext + EXT_type_ofs);
        et \<leftarrow> ext_type_at env ty;
        (status, s1) \<leftarrow>
          (if et_encode et \<noteq> NULL
           then do { encode \<leftarrow> ext_encode_cb env (et_encode et); encode s ext }
           else default_extension_encoder n env rec m s ext);
        if \<not> status then Some (False, s1)
        else do { nxt \<leftarrow> load_ptr m (ext + EXT_next_ofs);
                  encode_extensions k n env rec m s1 nxt } })"

definition encode_extension_field ::
    "nat \<Rightarrow> 'u enc_env \<Rightarrow> 'u enc_rec \<Rightarrow> mem \<Rightarrow> 'u pb_ostream_t \<Rightarrow> addr \<Rightarrow> 'u oresult" where
  "encode_extension_field n env rec m s pd =
     do { ext \<leftarrow> load_ptr m pd; encode_extensions n n env rec m s ext }"


section \<open>Messages\<close>

definition encode_step ::
    "nat \<Rightarrow> 'u enc_env \<Rightarrow> 'u enc_rec \<Rightarrow> mem \<Rightarrow> pb_field_iter_t \<Rightarrow> 'u pb_ostream_t \<Rightarrow> 'u oresult" where
  "encode_step n env rec m it s =
     (if PB_LTYPE (ftype (cur it)) = PB_LTYPE_EXTENSION
      then encode_extension_field n env rec m s (pData it)
      else encode_field n env rec m s (cur it) (pData it))"

fun pb_encode_f :: "nat \<Rightarrow> 'u enc_env \<Rightarrow> mem \<Rightarrow> 'u enc_rec" where
  "pb_encode_f 0 env m flds src s = None"
| "pb_encode_f (Suc n) env m flds src s =
     (case pb_field_iter_begin flds src of
        (nonempty, it) \<Rightarrow>
          if \<not> nonempty then Some (True, s)
          else iter_do_while (encode_step (Suc n) env (pb_encode_f n env m) m) it s)"

definition pb_encode ::
    "nat \<Rightarrow> 'u enc_env \<Rightarrow> mem \<Rightarrow> 'u pb_ostream_t \<Rightarrow> pb_field_t list \<Rightarrow> addr \<Rightarrow> 'u oresult" where
  "pb_encode n env m s flds src = pb_encode_f n env m flds src s"

definition pb_encode_delimited ::
    "nat \<Rightarrow> 'u enc_env \<Rightarrow> mem \<Rightarrow> 'u pb_ostream_t \<Rightarrow> pb_field_t list \<Rightarrow> addr \<Rightarrow> 'u oresult" where
  "pb_encode_delimited n env m s flds src =
     pb_encode_submessage (pb_encode_f n env m) s flds src"

text \<open>The result is whether the size could be computed, and the size.\<close>

definition pb_get_encoded_size ::
    "nat \<Rightarrow> 'u enc_env \<Rightarrow> mem \<Rightarrow> pb_field_t list \<Rightarrow> addr \<Rightarrow> (bool \<times> nat) option" where
  "pb_get_encoded_size n env m flds src =
     do { (ok, s) \<leftarrow> pb_encode n env m (PB_OSTREAM_SIZING :: 'u pb_ostream_t) flds src;
          Some (ok, if ok then bytes_written s else 0) }"

end
