(* ===== verification/Pb_EncodeSpec.thy ===== *)
theory Pb_EncodeSpec
  imports Pb_Encode
begin

text \<open>
  What the encoder promises: \<open>message_bytes\<close> is the protobuf encoding of a message in
  memory, written without streams, sizing passes or loops over counters.  The refinement
  says that \<open>pb_encode\<close> emits exactly these bytes on every sink: it writes them, counts them
  on a sizing stream, and reports "stream full" without writing past \<open>max_size\<close> when there
  is no room.
\<close>

section \<open>Composition\<close>

fun cat_map :: "('a \<Rightarrow> byte list option) \<Rightarrow> 'a list \<Rightarrow> byte list option" where
  "cat_map g [] = Some []"
| "cat_map g (x # xs) = do { b \<leftarrow> g x; bs \<leftarrow> cat_map g xs; Some (b @ bs) }"

lemma for_items_each:
  "for_items body step n p s
     = each (\<lambda>q s. body s q) (map (\<lambda>i. p + int (i * step)) [0..<n]) s"
proof (induction n arbitrary: p s)
  case (Suc n)
  have "map (\<lambda>i. p + int (i * step)) [0..<Suc n]
      = p # map (\<lambda>i. (p + int step) + int (i * step)) [0..<n]"
    by (simp add: upt_conv_Cons map_Suc_upt [symmetric] algebra_simps del: upt_Suc)
  then show ?case
    by (simp add: Suc.IH del: upt_Suc of_nat_mult)
       (rule Option.bind_cong, auto simp: Suc.IH)
qed simp

lemma encode_submessage_sized:
  assumes "rec flds p PB_OSTREAM_SIZING = Some (True, PB_OSTREAM_SIZING\<lparr>bytes_written := n\<rparr>)"
  shows "pb_encode_submessage rec s flds p =
    do { (ok, s1) \<leftarrow> pb_encode_varint s (of_nat n);
         if \<not> ok then Some (False, s1)
         else if o_callback s1 = None then pb_write Map.empty s1 (At NULL) n
         else if size_add (bytes_written s1) n > max_size s1
         then Some (False, o_error s1 ''stream full'')
         else do {
           (status, sub1) \<leftarrow> rec flds p (s1\<lparr>max_size := n, bytes_written := 0, o_errmsg := None\<rparr>);
           let s2 = s1\<lparr>bytes_written := size_add (bytes_written s1) (bytes_written sub1),
                       o_state := o_state sub1, o_errmsg := o_errmsg sub1\<rparr>;
           if bytes_written sub1 \<noteq> n then Some (False, o_error s2 ''submsg size changed'')
           else Some (status, s2) } }"
proof -
  have e: "PB_OSTREAM_SIZING\<lparr>bytes_written := n, o_callback := o_callback s1, o_state := o_state s1,
      max_size := n, bytes_written := 0, o_errmsg := None\<rparr>
    = s1\<lparr>max_size := n, bytes_written := 0, o_errmsg := None\<rparr>" for s1 :: "'a pb_ostream_t"
    by (simp add: PB_OSTREAM_SIZING_def)
  have b: "bytes_written (PB_OSTREAM_SIZING\<lparr>bytes_written := n\<rparr> :: 'a pb_ostream_t) = n" by simp
  show ?thesis
    unfolding pb_encode_submessage_def assms Let_def Option.bind.bind_lunit prod.case b e by simp
qed

context byte_sink
begin

lemma emits_each:
  assumes "\<And>x b. x \<in> set xs \<Longrightarrow> g x = Some b \<Longrightarrow> emits cb push has (body x) b"
    and "cat_map g xs = Some bs"
  shows "emits cb push has (each body xs) bs"
  using assms
proof (induction xs arbitrary: bs)
  case Nil
  then show ?case by (auto intro: emits_cong [OF emits_nothing])
next
  case (Cons x xs)
  then obtain b c where "g x = Some b" "cat_map g xs = Some c" "bs = b @ c"
    by (auto simp: outcome_simps)
  with Cons show ?case
    by (auto intro!: emits_cong [OF emits_seq [of "body x" b "each body xs" c]]
        simp: then_enc_def)
qed

lemma emits_sizing:
  assumes "emits cb push has E bs" and "length bs < SIZE_MOD"
  shows "E PB_OSTREAM_SIZING = Some (True, PB_OSTREAM_SIZING\<lparr>bytes_written := length bs\<rparr>)"
  using emitsD [OF assms(1) sink_ok_sizing] assms(2)
  by (simp add: fits_def PB_OSTREAM_SIZING_def appended_def)

lemma emits_length_varint:
  "n < SIZE_MOD \<Longrightarrow> emits cb push has (\<lambda>s. pb_encode_varint s (of_nat n)) (leb n)"
  using emits_varint [of "of_nat n"] unat_of_nat_u64 [of n]
  by (simp add: varint_bytes_leb SIZE_MOD_def)

text \<open>The submessage: sized first, then its length, then written through a substream.\<close>

lemma emits_submessage:
  assumes E: "emits cb push has (rec flds p) bs"
  shows "emits cb push has (\<lambda>s. pb_encode_submessage rec s flds p) (leb (length bs) @ bs)"
  unfolding emits_def
proof (intro allI impI)
  fix s
  assume ok: "sink_ok cb has s"
    and sz: "bytes_written s + length (leb (length bs) @ bs) < SIZE_MOD"
  let ?v = "leb (length bs)" and ?E = "\<lambda>s. pb_encode_submessage rec s flds p"
  have n: "length bs < SIZE_MOD" using sz by simp
  note size = emits_sizing [OF E n]
  have V: "emits cb push has (\<lambda>s. pb_encode_varint s (of_nat (length bs))) ?v"
    using n by (rule emits_length_varint)
  show "if fits s (length (?v @ bs)) then ?E s = Some (True, appended push s (?v @ bs))
    else \<exists>a b. ?v @ bs = a @ b \<and> fits s (length a) \<and>
      ?E s = Some (False, o_error (appended push s a) ''stream full'')"
  proof (cases "fits s (length ?v)")
    case False
    obtain a b where "?v = a @ b" "fits s (length a)" and
      "pb_encode_varint s (of_nat (length bs)) =
        Some (False, o_error (appended push s a) ''stream full'')"
      using sz by (auto intro: emitsE [OF V ok _ False])
    moreover have "\<not> fits s (length (?v @ bs))" using False fits_mono by fastforce
    ultimately show ?thesis by (auto simp: encode_submessage_sized [of rec flds p "length bs", OF size])
  next
    case fv: True
    let ?s1 = "appended push s ?v"
    have v: "pb_encode_varint s (of_nat (length bs)) = Some (True, ?s1)"
      using V ok sz fv by (intro emitsD) auto
    have ok1: "sink_ok cb has ?s1" using ok fv by (rule sink_ok_appended)
    show ?thesis
    proof (cases "o_callback s")
      case None
      with sz v show ?thesis
        by (simp add: encode_submessage_sized [of rec flds p "length bs", OF size] pb_write_def fits_def appended_def add.assoc)
    next
      case (Some c)
      with ok have c: "o_callback s = Some cb" by (auto simp: sink_ok_def)
      show ?thesis
      proof (cases "fits s (length (?v @ bs))")
        case False
        with v c sz have "?E s = Some (False, o_error ?s1 ''stream full'')"
          by (simp add: encode_submessage_sized [of rec flds p "length bs", OF size] fits_def add.assoc)
        with False fv show ?thesis by auto
      next
        case True
        let ?sub = "?s1\<lparr>max_size := length bs, bytes_written := 0\<rparr>"
        have "sink_ok cb has ?sub" using ok1 c True by (intro sink_ok_limited) auto
        then have w: "rec flds p ?sub = Some (True, appended push ?sub bs)"
          using E n by (intro emitsD) (auto simp: fits_def)
        have no_err: "o_errmsg s = None" using ok by (simp add: sink_ok_def)
        then have e: "?s1\<lparr>max_size := length bs, bytes_written := 0, o_errmsg := None\<rparr> = ?sub"
          by (simp add: appended_def)
        have w': "rec flds p (?s1\<lparr>max_size := length bs, bytes_written := 0, o_errmsg := None\<rparr>)
            = Some (True, appended push ?sub bs)"
          unfolding e by (rule w)
        have "appended push ?s1 bs = appended push s (?v @ bs)"
          using ok True by (intro appended_appended) simp_all
        moreover have "?s1\<lparr>bytes_written := bytes_written ?s1 + length bs,
            o_state := o_state (appended push ?sub bs), o_errmsg := None\<rparr> = appended push ?s1 bs"
          using c no_err by (simp add: appended_def)
        ultimately show ?thesis
          using True v c sz w' no_err
          by (simp add: encode_submessage_sized [of rec flds p "length bs", OF size] fits_def
              add.assoc Let_def)
      qed
    qed
  qed
qed

end


section \<open>Values\<close>

text \<open>
  The bytes of one value, without its tag.  \<open>recb\<close> gives the bytes of a submessage.  A value
  the encoder rejects has no bytes.
\<close>

definition zz :: "int \<Rightarrow> nat" where
  "zz i = nat (if 0 \<le> i then 2 * i else - 2 * i - 1)"

definition prefixed :: "byte list \<Rightarrow> byte list" where
  "prefixed bs = leb (length bs) @ bs"

definition value_bytes ::
    "'u enc_env \<Rightarrow> (pb_field_t list \<Rightarrow> addr \<Rightarrow> byte list option) \<Rightarrow> mem \<Rightarrow> pb_field_t \<Rightarrow> addr \<Rightarrow>
     byte list option" where
  "value_bytes env recb m f p =
     (let lt = PB_LTYPE (ftype f) in
      if lt = PB_LTYPE_VARINT
      then do { w \<leftarrow> load_signed m (data_size f) p; v \<leftarrow> w; Some (leb (unat v)) }
      else if lt = PB_LTYPE_UVARINT
      then do { w \<leftarrow> load_unsigned m (data_size f) p; v \<leftarrow> w; Some (leb (unat v)) }
      else if lt = PB_LTYPE_SVARINT
      then do { w \<leftarrow> load_signed m (data_size f) p; v \<leftarrow> w; Some (leb (zz (sint v))) }
      else if lt = PB_LTYPE_FIXED32 then load_bytes m p 4
      else if lt = PB_LTYPE_FIXED64 then load_bytes m p 8
      else if lt = PB_LTYPE_BYTES
      then (if p = NULL then Some (prefixed [])
            else do {
              n \<leftarrow> load_u32 m (p + BYTES_size_ofs);
              if PB_ATYPE (ftype f) = PB_ATYPE_STATIC \<and> n + 4 > data_size f then None
              else map_option prefixed (load_bytes m (p + BYTES_bytes_ofs) n) })
      else if lt = PB_LTYPE_STRING
      then (if p = NULL then Some (prefixed [])
            else do {
              n \<leftarrow> strnlen_loop m p
                (if PB_ATYPE (ftype f) = PB_ATYPE_POINTER then SIZE_MOD - 1 else data_size f);
              map_option prefixed (load_bytes m p n) })
      else if lt = PB_LTYPE_SUBMESSAGE
      then (if fptr f = NULL then None
            else do { flds \<leftarrow> fields_at env (fptr f); map_option prefixed (recb flds p) })
      else if lt = PB_LTYPE_FIXED_LENGTH_BYTES
      then map_option prefixed (load_bytes m p (data_size f))
      else None)"

lemma le_bytes_of_le:
  "8 * length bs \<le> LENGTH('a) \<Longrightarrow> le_bytes (length bs) (of_le bs :: 'a::len word) = bs"
proof (induction bs)
  case (Cons b bs)
  let ?w = "of_le bs :: 'a word"
  have "ucast (ucast b OR push_bit 8 ?w) = b"
    using Cons.prems by (auto intro!: bit_word_eqI simp: bit_simps)
  moreover have "le_bytes (length bs) (drop_bit 8 (ucast b OR push_bit 8 ?w)) = le_bytes (length bs) ?w"
  proof -
    have "ucast (drop_bit (8 * i) (drop_bit 8 (ucast b OR push_bit 8 ?w))) =
        (ucast (drop_bit (8 * i) ?w) :: byte)" if "i < length bs" for i
      using Cons.prems that
      by (auto intro!: bit_word_eqI simp: bit_simps) (drule bit_imp_le_length, simp)
    then show ?thesis by (simp add: le_bytes_def)
  qed
  ultimately show ?case using Cons by (simp add: le_bytes_Suc)
qed simp

lemma zz_zigzag: "zz (sint v) = unat (zigzag v)"
  by (simp add: zz_def uint_zigzag [symmetric] nat_uint_eq split: if_splits)

lemma strnlen_loop_le: "strnlen_loop m p k = Some n \<Longrightarrow> n \<le> k"
proof (induction m p k arbitrary: n rule: strnlen_loop.induct)
  case (1 m p k)
  have ih: "z \<le> k - 1" if "k \<noteq> 0" "m p = Some c" "c \<noteq> 0" "strnlen_loop m (p + 1) (k - 1) = Some z" for c z
    using "1.IH" that by blast
  from "1.prems" ih show ?case
    by (subst (asm) strnlen_loop.simps) (fastforce simp: outcome_simps split: if_splits)
qed

context byte_sink
begin

lemma emits_too_long: "SIZE_MOD \<le> length bs \<Longrightarrow> emits cb push has E bs"
  by (simp add: emits_def)

lemma emits_prefixed:
  assumes "load_bytes m a n = Some bs"
  shows "emits cb push has (\<lambda>s. pb_encode_string m s (At a) n) (prefixed bs)"
proof (cases "n < SIZE_MOD")
  case True
  have "length bs = n" using assms by (rule load_bytes_length)
  moreover have "varint_bytes (of_nat n) = leb n"
    using True unat_of_nat_u64 [of n] by (simp add: varint_bytes_leb SIZE_MOD_def)
  ultimately show ?thesis
    using emits_string [of m "At a" n bs] assms
    by (simp add: prefixed_def src_bytes_def)
next
  case False
  with load_bytes_length [OF assms] show ?thesis
    by (intro emits_too_long) (simp add: prefixed_def)
qed

lemma emits_fixed32:
  assumes "load_bytes m p 4 = Some bs"
  shows "emits cb push has (\<lambda>s. pb_encode_fixed32 m s p) bs"
proof -
  have l: "length bs = 4" using assms by (rule load_bytes_length)
  then have "fixed32_bytes (of_le bs) = bs"
    using le_bytes_of_le [of bs, where 'a = 32] by (simp add: fixed32_bytes_le)
  moreover from this l have "src_bytes m (Local (fixed32_bytes (of_le bs))) 4 = Some bs"
    by (simp add: src_bytes_def)
  ultimately show ?thesis
    using emits_write [of m "Local (fixed32_bytes (of_le bs))" 4 bs] assms
    by (simp add: pb_encode_fixed32_def load_word_def)
qed

lemma emits_fixed64:
  assumes "load_bytes m p 8 = Some bs"
  shows "emits cb push has (\<lambda>s. pb_encode_fixed64 m s p) bs"
proof -
  have l: "length bs = 8" using assms by (rule load_bytes_length)
  then have "fixed64_bytes (of_le bs) = bs"
    using le_bytes_of_le [of bs, where 'a = 64] by (simp add: fixed64_bytes_le)
  moreover from this l have "src_bytes m (Local (fixed64_bytes (of_le bs))) 8 = Some bs"
    by (simp add: src_bytes_def)
  ultimately show ?thesis
    using emits_write [of m "Local (fixed64_bytes (of_le bs))" 8 bs] assms
    by (simp add: pb_encode_fixed64_def load_word_def)
qed

lemma emits_varint_leb: "emits cb push has (\<lambda>s. pb_encode_varint s v) (leb (unat v))"
  using emits_varint [of v] by (simp add: varint_bytes_leb)

lemma emits_value:
  assumes v: "value_bytes env recb m f p = Some bs"
    and rec: "\<And>flds q b. recb flds q = Some b \<Longrightarrow> emits cb push has (rec flds q) b"
  shows "emits cb push has (\<lambda>s. PB_ENCODERS env rec m (PB_LTYPE (ftype f)) s f p) bs"
proof -
  consider "PB_LTYPE (ftype f) = PB_LTYPE_VARINT" | "PB_LTYPE (ftype f) = PB_LTYPE_UVARINT"
    | "PB_LTYPE (ftype f) = PB_LTYPE_SVARINT" | "PB_LTYPE (ftype f) = PB_LTYPE_FIXED32"
    | "PB_LTYPE (ftype f) = PB_LTYPE_FIXED64" | "PB_LTYPE (ftype f) = PB_LTYPE_BYTES"
    | "PB_LTYPE (ftype f) = PB_LTYPE_STRING" | "PB_LTYPE (ftype f) = PB_LTYPE_SUBMESSAGE"
    | "PB_LTYPE (ftype f) = PB_LTYPE_FIXED_LENGTH_BYTES"
    using v by (auto simp: value_bytes_def Let_def split: if_splits)
  then show ?thesis
  proof cases
    case 1
    with v emits_varint_leb show ?thesis
      by (auto simp: value_bytes_def PB_ENCODERS_def pb_enc_varint_def Let_def outcome_simps)
  next
    case 2
    with v emits_varint_leb show ?thesis
      by (auto simp: value_bytes_def PB_ENCODERS_def pb_enc_uvarint_def Let_def outcome_simps pb_consts)
  next
    case 3
    with v emits_varint_leb show ?thesis
      by (auto simp: value_bytes_def PB_ENCODERS_def pb_enc_svarint_def pb_encode_svarint_def
          zz_zigzag Let_def outcome_simps pb_consts)
  next
    case 4
    with v emits_fixed32 show ?thesis
      by (auto simp: value_bytes_def PB_ENCODERS_def pb_enc_fixed32_def Let_def pb_consts)
  next
    case 5
    with v emits_fixed64 show ?thesis
      by (auto simp: value_bytes_def PB_ENCODERS_def pb_enc_fixed64_def Let_def pb_consts)
  next
    case 6
    with v emits_prefixed [of m NULL 0 "[]"] show ?thesis
      by (auto simp: value_bytes_def PB_ENCODERS_def pb_enc_bytes_def Let_def outcome_simps
          PB_BYTES_ARRAY_T_ALLOCSIZE_def pb_consts split: if_splits intro: emits_prefixed)
  next
    case 7
    with v emits_prefixed [of m NULL 0 "[]"] show ?thesis
      by (auto simp: value_bytes_def PB_ENCODERS_def pb_enc_string_def Let_def outcome_simps
          pb_consts split: if_splits intro: emits_prefixed)
  next
    case 8
    with v show ?thesis
      by (auto simp: value_bytes_def PB_ENCODERS_def pb_enc_submessage_def Let_def outcome_simps
          prefixed_def pb_consts split: if_splits intro!: emits_submessage rec)
  next
    case 9
    with v show ?thesis
      by (auto simp: value_bytes_def PB_ENCODERS_def pb_enc_fixed_length_bytes_def Let_def
          outcome_simps pb_consts intro: emits_prefixed)
  qed
qed

end


section \<open>Fields and messages\<close>

text \<open>
  What the functions of the application promise: where the contract gives bytes, the
  function is there and emits exactly these, on a sizing stream and on a writing one.
\<close>

record enc_contract =
  cb_out :: "addr \<Rightarrow> pb_field_t \<Rightarrow> addr \<Rightarrow> byte list option"
  ext_out :: "addr \<Rightarrow> addr \<Rightarrow> byte list option"

definition honours ::
    "'u ocallback \<Rightarrow> ('u ostate \<Rightarrow> byte list \<Rightarrow> 'u ostate) \<Rightarrow> ('u ostate \<Rightarrow> nat \<Rightarrow> bool) \<Rightarrow>
     'u enc_env \<Rightarrow> enc_contract \<Rightarrow> bool" where
  "honours cb push has env k \<longleftrightarrow>
     (\<forall>fn f a bs. cb_out k fn f a = Some bs \<longrightarrow>
        (\<exists>E. encode_cb env fn = Some E \<and> emits cb push has (\<lambda>s. E s f a) bs)) \<and>
     (\<forall>fn x bs. ext_out k fn x = Some bs \<longrightarrow>
        (\<exists>E. ext_encode_cb env fn = Some E \<and> emits cb push has (\<lambda>s. E s x) bs))"

lemma honours_cb:
  assumes "honours cb push has env k" and "cb_out k fn f a = Some bs"
  obtains E where "encode_cb env fn = Some E" and "emits cb push has (\<lambda>s. E s f a) bs"
  using assms unfolding honours_def by blast

lemma honours_ext:
  assumes "honours cb push has env k" and "ext_out k fn x = Some bs"
  obtains E where "ext_encode_cb env fn = Some E" and "emits cb push has (\<lambda>s. E s x) bs"
  using assms unfolding honours_def by blast

definition no_functions :: enc_contract where
  "no_functions = \<lparr>cb_out = \<lambda>_ _ _. None, ext_out = \<lambda>_ _. None\<rparr>"

lemma honours_no_functions [simp]: "honours cb push has env no_functions"
  by (simp add: honours_def no_functions_def)

text \<open>
  The addresses of the values of a field that are to be encoded: none for an absent
  optional field or another member of a oneof, one for a present field, \<open>count\<close> for a
  repeated one.
\<close>

definition field_values ::
    "nat \<Rightarrow> 'u enc_env \<Rightarrow> mem \<Rightarrow> pb_field_t \<Rightarrow> addr \<Rightarrow> addr list option" where
  "field_values n env m f pd =
     do { let h = PB_HTYPE (ftype f);
          let by_pointer = (PB_ATYPE (ftype f) = PB_ATYPE_POINTER);
          target \<leftarrow> (if by_pointer then load_ptr m pd else Some pd);
          if h = PB_HTYPE_REQUIRED
          then (if target = NULL then None else Some [target])
          else if h = PB_HTYPE_OPTIONAL
          then do {
            present \<leftarrow>
              (if size_offset f \<noteq> 0 then load_bool m (pd + size_offset f)
               else do { d \<leftarrow> pb_check_proto3_default_value n env m f pd;
                         Some (if by_pointer then target \<noteq> NULL else \<not> d) });
            Some (if present then [target] else []) }
          else if size_offset f = 0 then None
          else do {
            count \<leftarrow> load_u32 m (pd + size_offset f);
            if h = PB_HTYPE_ONEOF then Some (if count = tag f then [target] else [])
            else if count > 0 \<and> \<not> by_pointer \<and> count > array_size f then None
            else Some (map (\<lambda>i. target + int (i * data_size f)) [0..<count]) } }"

definition field_tag :: "pb_field_t \<Rightarrow> pb_wire_type_t \<Rightarrow> byte list" where
  "field_tag f wt = tag_bytes (unat (of_nat (tag f) :: u32)) wt"

text \<open>
  Strings and bytes of an allocated array are reached through one more pointer.
\<close>

definition item_addr :: "mem \<Rightarrow> pb_field_t \<Rightarrow> addr \<Rightarrow> addr option" where
  "item_addr m f p =
     (if PB_HTYPE (ftype f) = PB_HTYPE_REPEATED \<and> PB_ATYPE (ftype f) = PB_ATYPE_POINTER \<and>
        (PB_LTYPE (ftype f) = PB_LTYPE_STRING \<or> PB_LTYPE (ftype f) = PB_LTYPE_BYTES)
      then load_ptr m p else Some p)"

definition tagged_value ::
    "'u enc_env \<Rightarrow> (pb_field_t list \<Rightarrow> addr \<Rightarrow> byte list option) \<Rightarrow> mem \<Rightarrow> pb_field_t \<Rightarrow> addr \<Rightarrow>
     byte list option" where
  "tagged_value env recb m f p =
     do { wt \<leftarrow> wire_type_of (PB_LTYPE (ftype f));
          q \<leftarrow> item_addr m f p;
          v \<leftarrow> value_bytes env recb m f q;
          Some (field_tag f wt @ v) }"

definition data_field_bytes ::
    "nat \<Rightarrow> 'u enc_env \<Rightarrow> (pb_field_t list \<Rightarrow> addr \<Rightarrow> byte list option) \<Rightarrow> mem \<Rightarrow> pb_field_t \<Rightarrow> addr \<Rightarrow>
     byte list option" where
  "data_field_bytes n env recb m f pd =
     (if PB_LTYPE (ftype f) \<ge> PB_LTYPES_COUNT then None
      else do {
        ps \<leftarrow> field_values n env m f pd;
        if PB_HTYPE (ftype f) = PB_HTYPE_REPEATED \<and> PB_LTYPE (ftype f) \<le> PB_LTYPE_LAST_PACKABLE
        then (if ps = [] then Some []
              else do { data \<leftarrow> cat_map (value_bytes env recb m f) ps;
                        Some (field_tag f PB_WT_STRING @ prefixed data) })
        else cat_map (tagged_value env recb m f) ps })"

definition field_bytes ::
    "nat \<Rightarrow> 'u enc_env \<Rightarrow> enc_contract \<Rightarrow> (pb_field_t list \<Rightarrow> addr \<Rightarrow> byte list option) \<Rightarrow> mem \<Rightarrow>
     pb_field_t \<Rightarrow> addr \<Rightarrow> byte list option" where
  "field_bytes n env k recb m f pd =
     (if PB_ATYPE (ftype f) = PB_ATYPE_STATIC \<or> PB_ATYPE (ftype f) = PB_ATYPE_POINTER
      then data_field_bytes n env recb m f pd
      else if PB_ATYPE (ftype f) = PB_ATYPE_CALLBACK
      then do { fn \<leftarrow> load_ptr m (pd + CALLBACK_funcs_ofs);
                if fn = NULL then Some [] else cb_out k fn f (pd + CALLBACK_arg_ofs) }
      else None)"

definition extension_bytes ::
    "nat \<Rightarrow> 'u enc_env \<Rightarrow> enc_contract \<Rightarrow> (pb_field_t list \<Rightarrow> addr \<Rightarrow> byte list option) \<Rightarrow> mem \<Rightarrow>
     addr \<Rightarrow> byte list option" where
  "extension_bytes n env k recb m ext =
     do { ty \<leftarrow> load_ptr m (ext + EXT_type_ofs);
          et \<leftarrow> ext_type_at env ty;
          if et_encode et \<noteq> NULL then ext_out k (et_encode et) ext
          else do {
            flds \<leftarrow> fields_at env (et_arg et);
            let f = field_at flds 0;
            dest \<leftarrow> (if PB_ATYPE (ftype f) = PB_ATYPE_POINTER then Some (ext + EXT_dest_ofs)
                     else load_ptr m (ext + EXT_dest_ofs));
            field_bytes n env k recb m f dest } }"

fun chain_bytes ::
    "nat \<Rightarrow> nat \<Rightarrow> 'u enc_env \<Rightarrow> enc_contract \<Rightarrow> (pb_field_t list \<Rightarrow> addr \<Rightarrow> byte list option) \<Rightarrow>
     mem \<Rightarrow> addr \<Rightarrow> byte list option" where
  "chain_bytes 0 n env k recb m ext = (if ext = NULL then Some [] else None)"
| "chain_bytes (Suc j) n env k recb m ext =
     (if ext = NULL then Some []
      else do { b \<leftarrow> extension_bytes n env k recb m ext;
                nxt \<leftarrow> load_ptr m (ext + EXT_next_ofs);
                bs \<leftarrow> chain_bytes j n env k recb m nxt;
                Some (b @ bs) })"

definition entry_bytes ::
    "nat \<Rightarrow> 'u enc_env \<Rightarrow> enc_contract \<Rightarrow> (pb_field_t list \<Rightarrow> addr \<Rightarrow> byte list option) \<Rightarrow> mem \<Rightarrow>
     pb_field_t \<Rightarrow> addr \<Rightarrow> byte list option" where
  "entry_bytes n env k recb m f pd =
     (if PB_LTYPE (ftype f) = PB_LTYPE_EXTENSION
      then do { ext \<leftarrow> load_ptr m pd; chain_bytes n n env k recb m ext }
      else field_bytes n env k recb m f pd)"

fun message_bytes ::
    "nat \<Rightarrow> 'u enc_env \<Rightarrow> enc_contract \<Rightarrow> mem \<Rightarrow> pb_field_t list \<Rightarrow> addr \<Rightarrow> byte list option" where
  "message_bytes 0 env k m flds src = None"
| "message_bytes (Suc n) env k m flds src =
     cat_map (\<lambda>i. entry_bytes (Suc n) env k (message_bytes n env k m) m
                   (field_at flds i) (field_addr flds src i)) [0..<nfields flds]"

context byte_sink
begin

lemma emits_field_tag:
  assumes "wt < 8"
  shows "emits cb push has (\<lambda>s. pb_encode_tag s wt (of_nat (tag f))) (field_tag f wt)"
proof -
  let ?w = "of_nat (tag f) :: u32"
  have "unat ?w < 2 ^ LENGTH(32)" by (rule unsigned_less)
  then have "varint_bytes (push_bit 3 (ucast ?w) OR of_nat wt) = field_tag f wt"
    using tag_varint_bytes [of "unat ?w" wt] assms by (simp add: field_tag_def)
  with emits_tag [of wt ?w] show ?thesis by simp
qed

lemma emits_tag_for_field:
  assumes "wire_type_of (PB_LTYPE (ftype f)) = Some wt"
  shows "emits cb push has (\<lambda>s. pb_encode_tag_for_field s f) (field_tag f wt)"
proof -
  have "wt < 8" using assms by (auto simp: wire_type_of_def pb_consts split: if_splits)
  with emits_field_tag [of wt f] assms show ?thesis by (simp add: pb_encode_tag_for_field_def)
qed

text \<open>A part whose size is known: on a sizing stream only the size is added.\<close>

lemma emits_measured:
  assumes "emits cb push has E bs"
  shows "emits cb push has
    (\<lambda>s. if o_callback s = None then pb_write m s (At NULL) (length bs) else E s) bs"
  using assms unfolding emits_def by (auto simp: pb_write_def fits_def appended_def)

lemma emits_for_items:
  assumes "\<And>q b. g q = Some b \<Longrightarrow> emits cb push has (\<lambda>s. body s q) b"
    and "cat_map g (map (\<lambda>i. p + int (i * step)) [0..<n]) = Some bs"
  shows "emits cb push has (for_items body step n p) bs"
  by (rule emits_cong [OF emits_each [of _ g "\<lambda>q s. body s q", OF assms] for_items_each])

lemma cat_map_fixed_length:
  "cat_map g xs = Some bs \<Longrightarrow> (\<And>x b. g x = Some b \<Longrightarrow> length b = w) \<Longrightarrow> length bs = w * length xs"
  by (induction xs arbitrary: bs) (auto simp: outcome_simps)

lemma packed_size_eq:
  assumes items: "cat_map (value_bytes env recb m f) (map (\<lambda>i. p + int (i * data_size f)) [0..<n])
      = Some bs" and len: "length bs < SIZE_MOD"
    and rec: "\<And>flds q b. recb flds q = Some b \<Longrightarrow> emits cb push has (rec flds q) b"
  shows "packed_size f p n (PB_ENCODERS env rec m (PB_LTYPE (ftype f))) = Some (True, length bs)"
proof -
  have "emits cb push has
    (for_items (\<lambda>s p. PB_ENCODERS env rec m (PB_LTYPE (ftype f)) s f p) (data_size f) n p) bs"
    by (rule emits_for_items [OF _ items]) (rule emits_value [OF _ rec])
  from emits_sizing [OF this len]
  have "for_items (\<lambda>s p. PB_ENCODERS env rec m (PB_LTYPE (ftype f)) s f p) (data_size f) n p
      PB_OSTREAM_SIZING = Some (True, PB_OSTREAM_SIZING\<lparr>bytes_written := length bs\<rparr>)" .
  moreover have "length bs = 4 * n" if "PB_LTYPE (ftype f) = PB_LTYPE_FIXED32"
    using cat_map_fixed_length [OF items, of 4] that load_bytes_length
    by (auto simp: value_bytes_def pb_consts)
  moreover have "length bs = 8 * n" if "PB_LTYPE (ftype f) = PB_LTYPE_FIXED64"
    using cat_map_fixed_length [OF items, of 8] that load_bytes_length
    by (auto simp: value_bytes_def pb_consts)
  ultimately show ?thesis by (simp add: packed_size_def)
qed

lemma emits_packed:
  assumes items: "cat_map (value_bytes env recb m f) (map (\<lambda>i. p + int (i * data_size f)) [0..<n])
      = Some bs" and "0 < n" and "PB_ATYPE (ftype f) = PB_ATYPE_POINTER \<or> n \<le> array_size f"
    and "PB_LTYPE (ftype f) \<le> PB_LTYPE_LAST_PACKABLE"
    and rec: "\<And>flds q b. recb flds q = Some b \<Longrightarrow> emits cb push has (rec flds q) b"
  shows "emits cb push has
    (\<lambda>s. encode_array m s f p n (PB_ENCODERS env rec m (PB_LTYPE (ftype f))))
    (field_tag f PB_WT_STRING @ prefixed bs)"
proof (cases "length bs < SIZE_MOD")
  case True
  let ?F = "PB_ENCODERS env rec m (PB_LTYPE (ftype f))"
  note size = packed_size_eq [OF items True rec]
  have "emits cb push has (for_items (\<lambda>s p. ?F s f p) (data_size f) n p) bs"
    by (rule emits_for_items [OF _ items]) (rule emits_value [OF _ rec])
  from emits_measured [OF this]
  have "emits cb push has (\<lambda>s. if o_callback s = None then pb_write m s (At NULL) (length bs)
      else for_items (\<lambda>s p. ?F s f p) (data_size f) n p s) bs" .
  from emits_seq [OF emits_field_tag [of PB_WT_STRING f] emits_seq [OF emits_length_varint [OF True] this]]
  have "emits cb push has
    (then_enc (\<lambda>s. pb_encode_tag s PB_WT_STRING (of_nat (tag f)))
      (then_enc (\<lambda>s. pb_encode_varint s (of_nat (length bs)))
        (\<lambda>s. if o_callback s = None then pb_write m s (At NULL) (length bs)
          else for_items (\<lambda>s p. ?F s f p) (data_size f) n p s)))
    (field_tag f PB_WT_STRING @ prefixed bs)"
    by (simp add: prefixed_def pb_consts)
  then show ?thesis
    by (rule emits_cong) (use assms(2-4) size in \<open>auto simp: encode_array_def then_enc_def intro!: Option.bind_cong\<close>)
next
  case False
  then show ?thesis by (intro emits_too_long) (simp add: prefixed_def)
qed

lemma emits_tagged_value:
  assumes "tagged_value env recb m f p = Some b"
    and rec: "\<And>flds q b. recb flds q = Some b \<Longrightarrow> emits cb push has (rec flds q) b"
  obtains q where "item_addr m f p = Some q"
    and "emits cb push has (\<lambda>s. do { (ok, s1) \<leftarrow> pb_encode_tag_for_field s f;
      if \<not> ok then Some (False, s1) else PB_ENCODERS env rec m (PB_LTYPE (ftype f)) s1 f q }) b"
proof -
  from assms obtain wt q v where wt: "wire_type_of (PB_LTYPE (ftype f)) = Some wt"
    and q: "item_addr m f p = Some q" and v: "value_bytes env recb m f q = Some v"
    and b: "b = field_tag f wt @ v"
    by (auto simp: tagged_value_def outcome_simps)
  from emits_seq [OF emits_tag_for_field [OF wt] emits_value [OF v rec]] b q that
  show thesis by (simp add: then_enc_def [abs_def])
qed

lemma emits_array:
  assumes rec: "\<And>flds q b. recb flds q = Some b \<Longrightarrow> emits cb push has (rec flds q) b"
    and rep: "PB_HTYPE (ftype f) = PB_HTYPE_REPEATED"
    and n: "0 < n \<Longrightarrow> PB_ATYPE (ftype f) = PB_ATYPE_POINTER \<or> n \<le> array_size f"
    and ps: "ps = map (\<lambda>i. p + int (i * data_size f)) [0..<n]"
    and bs: "(if PB_LTYPE (ftype f) \<le> PB_LTYPE_LAST_PACKABLE
        then (if ps = [] then Some []
              else do { data \<leftarrow> cat_map (value_bytes env recb m f) ps;
                        Some (field_tag f PB_WT_STRING @ prefixed data) })
        else cat_map (tagged_value env recb m f) ps) = Some bs"
  shows "emits cb push has
    (\<lambda>s. encode_array m s f p n (PB_ENCODERS env rec m (PB_LTYPE (ftype f)))) bs"
proof (cases "n = 0")
  case True
  with bs ps have "bs = []" by (auto split: if_splits)
  with True show ?thesis by (simp add: encode_array_def emits_nothing)
next
  case False
  then have "ps \<noteq> []" by (simp add: ps)
  show ?thesis
  proof (cases "PB_LTYPE (ftype f) \<le> PB_LTYPE_LAST_PACKABLE")
    case True
    with bs \<open>ps \<noteq> []\<close> obtain data where "cat_map (value_bytes env recb m f) ps = Some data"
      and "bs = field_tag f PB_WT_STRING @ prefixed data"
      by (auto simp: outcome_simps)
    with emits_packed [of env recb m f p n data rec] True False n rec ps show ?thesis by simp
  next
    case np: False
    let ?F = "PB_ENCODERS env rec m (PB_LTYPE (ftype f))"
    let ?deref = "PB_ATYPE (ftype f) = PB_ATYPE_POINTER \<and>
      (PB_LTYPE (ftype f) = PB_LTYPE_STRING \<or> PB_LTYPE (ftype f) = PB_LTYPE_BYTES)"
    let ?body = "\<lambda>s p. do {
      (ok, s1) \<leftarrow> pb_encode_tag_for_field s f;
      if \<not> ok then Some (False, s1)
      else if ?deref then do { q \<leftarrow> load_ptr m p; ?F s1 f q } else ?F s1 f p }"
    have "emits cb push has (for_items ?body (data_size f) n p) bs"
    proof (rule emits_for_items)
      fix q b
      assume t: "tagged_value env recb m f q = Some b"
      obtain q' where q': "item_addr m f q = Some q'" and e:
        "emits cb push has (\<lambda>s. do { (ok, s1) \<leftarrow> pb_encode_tag_for_field s f;
          if \<not> ok then Some (False, s1) else ?F s1 f q' }) b"
        by (rule emits_tagged_value [OF t rec])
      from e show "emits cb push has (\<lambda>s. ?body s q) b"
        by (rule emits_cong)
           (use rep q' in \<open>auto simp: item_addr_def split: if_splits intro!: Option.bind_cong\<close>)
    qed (use bs np ps in simp)
    then show ?thesis
      by (rule emits_cong) (use False n np in \<open>auto simp: encode_array_def\<close>)
  qed
qed

text \<open>The basic field: the branches of the code against the list of values.\<close>

lemma emits_present:
  assumes "PB_HTYPE (ftype f) \<noteq> PB_HTYPE_REPEATED"
    and "cat_map (tagged_value env recb m f) (if present then [p] else []) = Some bs"
    and rec: "\<And>flds q b. recb flds q = Some b \<Longrightarrow> emits cb push has (rec flds q) b"
  shows "emits cb push has (\<lambda>s. if present then do { (ok, s1) \<leftarrow> pb_encode_tag_for_field s f;
      if \<not> ok then Some (False, s1) else PB_ENCODERS env rec m (PB_LTYPE (ftype f)) s1 f p }
      else Some (True, s)) bs"
proof (cases present)
  case True
  with assms(2) have t: "tagged_value env recb m f p = Some bs" by (auto simp: outcome_simps)
  obtain q where "item_addr m f p = Some q" and
    "emits cb push has (\<lambda>s. do { (ok, s1) \<leftarrow> pb_encode_tag_for_field s f;
      if \<not> ok then Some (False, s1) else PB_ENCODERS env rec m (PB_LTYPE (ftype f)) s1 f q }) bs"
    by (rule emits_tagged_value [OF t rec])
  with assms(1) True show ?thesis by (auto simp: item_addr_def)
next
  case False
  with assms(2) show ?thesis by (simp add: emits_nothing)
qed

lemma emits_basic_field:
  assumes b: "data_field_bytes n env recb m f pd = Some bs"
    and rec: "\<And>flds q b. recb flds q = Some b \<Longrightarrow> emits cb push has (rec flds q) b"
  shows "emits cb push has (\<lambda>s. encode_basic_field n env rec m s f pd) bs"
proof -
  let ?h = "PB_HTYPE (ftype f)" and ?ptr = "PB_ATYPE (ftype f) = PB_ATYPE_POINTER"
  from b obtain ps where lt: "\<not> PB_LTYPES_COUNT \<le> PB_LTYPE (ftype f)"
    and ps: "field_values n env m f pd = Some ps"
    and bs: "(if ?h = PB_HTYPE_REPEATED \<and> PB_LTYPE (ftype f) \<le> PB_LTYPE_LAST_PACKABLE
      then (if ps = [] then Some []
            else do { data \<leftarrow> cat_map (value_bytes env recb m f) ps;
                      Some (field_tag f PB_WT_STRING @ prefixed data) })
      else cat_map (tagged_value env recb m f) ps) = Some bs"
    by (auto simp: data_field_bytes_def outcome_simps split: if_splits)
  from ps obtain target where tg: "(if ?ptr then load_ptr m pd else Some pd) = Some target"
    by (auto simp: field_values_def outcome_simps Let_def)
  show ?thesis
  proof (cases rule: PB_HTYPE_cases [of "ftype f"])
    case 1
    with ps tg have t: "target \<noteq> NULL" "ps = [target]"
      by (auto simp: field_values_def outcome_simps Let_def split: if_splits)
    have "emits cb push has (\<lambda>s. if True then do { (ok, s1) \<leftarrow> pb_encode_tag_for_field s f;
        if \<not> ok then Some (False, s1) else PB_ENCODERS env rec m (PB_LTYPE (ftype f)) s1 f target }
        else Some (True, s)) bs"
      by (rule emits_present) (use bs t 1 rec in \<open>simp_all add: pb_consts\<close>)
    then show ?thesis
      by (rule emits_cong) (use 1 lt tg t in \<open>auto simp: encode_basic_field_def pb_consts Let_def\<close>)
  next
    case 2
    with ps tg obtain present d where t: "ps = (if present then [target] else [])"
      and pr: "if size_offset f \<noteq> 0 then load_bool m (pd + size_offset f) = Some present
        else pb_check_proto3_default_value n env m f pd = Some d \<and>
          present = (if ?ptr then target \<noteq> NULL else \<not> d)"
      by (auto simp: field_values_def outcome_simps Let_def pb_consts split: if_splits)
    have "emits cb push has (\<lambda>s. if present then do { (ok, s1) \<leftarrow> pb_encode_tag_for_field s f;
        if \<not> ok then Some (False, s1) else PB_ENCODERS env rec m (PB_LTYPE (ftype f)) s1 f target }
        else Some (True, s)) bs"
      by (rule emits_present) (use bs t 2 rec in \<open>simp_all add: pb_consts\<close>)
    then show ?thesis
      by (rule emits_cong)
         (use 2 lt tg pr in \<open>auto simp: encode_basic_field_def pb_consts Let_def read_has_def
           split: if_splits\<close>)
  next
    case 3
    with ps tg obtain count where c: "load_u32 m (pd + size_offset f) = Some count" "size_offset f \<noteq> 0"
      and t: "ps = map (\<lambda>i. target + int (i * data_size f)) [0..<count]"
      and le: "0 < count \<Longrightarrow> ?ptr \<or> count \<le> array_size f"
      by (auto simp: field_values_def outcome_simps Let_def pb_consts split: if_splits)
    have "emits cb push has
        (\<lambda>s. encode_array m s f target count (PB_ENCODERS env rec m (PB_LTYPE (ftype f)))) bs"
      by (rule emits_array [OF _ 3 le t]) (use bs 3 rec in simp_all)
    then show ?thesis
      by (rule emits_cong)
         (use 3 lt tg c in \<open>auto simp: encode_basic_field_def pb_consts Let_def read_count_def
           split: if_splits\<close>)
  next
    case 4
    with ps tg obtain count where c: "load_u32 m (pd + size_offset f) = Some count" "size_offset f \<noteq> 0"
      and t: "ps = (if count = tag f then [target] else [])"
      by (auto simp: field_values_def outcome_simps Let_def pb_consts split: if_splits)
    have "emits cb push has (\<lambda>s. if count = tag f then do { (ok, s1) \<leftarrow> pb_encode_tag_for_field s f;
        if \<not> ok then Some (False, s1) else PB_ENCODERS env rec m (PB_LTYPE (ftype f)) s1 f target }
        else Some (True, s)) bs"
      by (rule emits_present) (use bs t 4 rec in \<open>simp_all add: pb_consts\<close>)
    then show ?thesis
      by (rule emits_cong)
         (use 4 lt tg c in \<open>auto simp: encode_basic_field_def pb_consts Let_def read_count_def
           split: if_splits\<close>)
  qed
qed

lemma emits_field:
  assumes b: "field_bytes n env k recb m f pd = Some bs" and k: "honours cb push has env k"
    and rec: "\<And>flds q b. recb flds q = Some b \<Longrightarrow> emits cb push has (rec flds q) b"
  shows "emits cb push has (\<lambda>s. encode_field n env rec m s f pd) bs"
proof (cases "PB_ATYPE (ftype f) = PB_ATYPE_STATIC \<or> PB_ATYPE (ftype f) = PB_ATYPE_POINTER")
  case True
  with b have "data_field_bytes n env recb m f pd = Some bs" by (auto simp: field_bytes_def)
  from emits_basic_field [OF this rec] show ?thesis
    by (rule emits_cong) (use True in \<open>auto simp: encode_field_def\<close>)
next
  case False
  with b obtain fn where c: "PB_ATYPE (ftype f) = PB_ATYPE_CALLBACK"
    and fn: "load_ptr m (pd + CALLBACK_funcs_ofs) = Some fn"
    and out: "(if fn = NULL then Some [] else cb_out k fn f (pd + CALLBACK_arg_ofs)) = Some bs"
    by (auto simp: field_bytes_def outcome_simps split: if_splits)
  show ?thesis
  proof (cases "fn = NULL")
    case True
    with out have "bs = []" by simp
    with True False c fn show ?thesis
      by (auto simp: encode_field_def encode_callback_field_def intro: emits_cong [OF emits_nothing])
  next
    case nn: False
    with out have "cb_out k fn f (pd + CALLBACK_arg_ofs) = Some bs" by simp
    from honours_cb [OF k this] obtain E where "encode_cb env fn = Some E"
      and e: "emits cb push has (\<lambda>s. E s f (pd + CALLBACK_arg_ofs)) bs" .
    then have "encode_field n env rec m s f pd =
        map_option (\<lambda>(ok, s1). (ok, if ok then s1 else o_error s1 ''callback error''))
          (E s f (pd + CALLBACK_arg_ofs))" for s
      using c fn nn False
      by (cases "E s f (pd + CALLBACK_arg_ofs)") (auto simp: encode_field_def encode_callback_field_def)
    with e show ?thesis by (rule emits_report)
  qed
qed

lemma emits_extension:
  assumes b: "extension_bytes n env k recb m ext = Some bs" and k: "honours cb push has env k"
    and rec: "\<And>flds q b. recb flds q = Some b \<Longrightarrow> emits cb push has (rec flds q) b"
    and ty: "load_ptr m (ext + EXT_type_ofs) = Some ty" and et: "ext_type_at env ty = Some et"
  shows "emits cb push has (\<lambda>s. if et_encode et \<noteq> NULL
    then do { encode \<leftarrow> ext_encode_cb env (et_encode et); encode s ext }
    else default_extension_encoder n env rec m s ext) bs"
proof (cases "et_encode et = NULL")
  case True
  with b ty et obtain flds dest where f: "fields_at env (et_arg et) = Some flds"
    and d: "(if PB_ATYPE (ftype (field_at flds 0)) = PB_ATYPE_POINTER then Some (ext + EXT_dest_ofs)
      else load_ptr m (ext + EXT_dest_ofs)) = Some dest"
    and "field_bytes n env k recb m (field_at flds 0) dest = Some bs"
    by (auto simp: extension_bytes_def outcome_simps Let_def)
  from emits_field [OF this(3) k rec] show ?thesis
    by (rule emits_cong)
       (use True ty et f d in \<open>auto simp: default_extension_encoder_def Let_def split: if_splits\<close>)
next
  case False
  with b ty et have "ext_out k (et_encode et) ext = Some bs"
    by (simp add: extension_bytes_def)
  from honours_ext [OF k this] obtain E where "ext_encode_cb env (et_encode et) = Some E"
    and "emits cb push has (\<lambda>s. E s ext) bs" .
  with False show ?thesis by simp
qed

lemma emits_chain:
  assumes "chain_bytes j n env k recb m ext = Some bs" and k: "honours cb push has env k"
    and rec: "\<And>flds q b. recb flds q = Some b \<Longrightarrow> emits cb push has (rec flds q) b"
  shows "emits cb push has (\<lambda>s. encode_extensions j n env rec m s ext) bs"
  using assms(1)
proof (induction j arbitrary: ext bs)
  case 0
  then show ?case by (auto simp: emits_nothing split: if_splits)
next
  case (Suc j)
  show ?case
  proof (cases "ext = NULL")
    case True
    with Suc.prems show ?thesis by (simp add: emits_nothing)
  next
    case False
    with Suc.prems obtain b nxt c where b: "extension_bytes n env k recb m ext = Some b"
      and nxt: "load_ptr m (ext + EXT_next_ofs) = Some nxt"
      and c: "chain_bytes j n env k recb m nxt = Some c" and bs: "bs = b @ c"
      by (auto simp: outcome_simps)
    from b obtain ty et where ty: "load_ptr m (ext + EXT_type_ofs) = Some ty"
      and et: "ext_type_at env ty = Some et"
      by (auto simp: extension_bytes_def outcome_simps)
    from emits_seq [OF emits_extension [OF b k rec ty et] Suc.IH [OF c]] show ?thesis
      unfolding bs
      by (rule emits_cong) (use False ty et nxt in \<open>auto simp: then_enc_def intro!: Option.bind_cong\<close>)
  qed
qed

lemma emits_entry:
  assumes b: "entry_bytes n env k recb m (cur it) (pData it) = Some bs"
    and k: "honours cb push has env k"
    and rec: "\<And>flds q b. recb flds q = Some b \<Longrightarrow> emits cb push has (rec flds q) b"
  shows "emits cb push has (encode_step n env rec m it) bs"
proof (cases "PB_LTYPE (ftype (cur it)) = PB_LTYPE_EXTENSION")
  case True
  with b obtain ext where "load_ptr m (pData it) = Some ext"
    and "chain_bytes n n env k recb m ext = Some bs"
    by (auto simp: entry_bytes_def outcome_simps)
  with True emits_chain [OF this(2) k rec] show ?thesis
    by (simp add: encode_step_def [abs_def] encode_extension_field_def)
next
  case False
  with b have "field_bytes n env k recb m (cur it) (pData it) = Some bs"
    by (simp add: entry_bytes_def)
  from emits_field [OF this k rec] False show ?thesis by (simp add: encode_step_def [abs_def])
qed

lemma cat_map_map: "cat_map g (map h xs) = cat_map (g \<circ> h) xs"
  by (induction xs) simp_all

text \<open>
  The refinement: on every sink the message encoder emits the bytes of the message.
\<close>

lemma emits_message:
  assumes "message_bytes n env k m flds src = Some bs" and k: "honours cb push has env k"
  shows "emits cb push has (pb_encode_f n env m flds src) bs"
  using assms(1)
proof (induction n arbitrary: flds src bs)
  case (Suc n)
  let ?rec = "pb_encode_f n env m" and ?recb = "message_bytes n env k m"
  let ?its = "map (iter_at flds src) [0..<nfields flds]"
  have "cat_map (\<lambda>it. entry_bytes (Suc n) env k ?recb m (cur it) (pData it)) ?its = Some bs"
    using Suc.prems by (simp add: cat_map_map o_def)
  then have e: "emits cb push has (each (encode_step (Suc n) env ?rec m) ?its) bs"
    by (rule emits_each [rotated]) (rule emits_entry [OF _ k Suc.IH])
  then show ?case
    by (rule emits_cong) (simp add: iter_begin_eq iter_do_while_eq)
qed simp

end

section \<open>Null pointers\<close>

text \<open>
  The comparison with zero bytes that \<open>pb_check_proto3_default_value\<close> makes for a pointer
  field runs over the pointer and on behind it.
\<close>

lemma all_zero_past_end:
  "load_bytes m p k = Some (replicate k 0) \<Longrightarrow> m (p + int k) = None \<Longrightarrow> k < n \<Longrightarrow>
     all_zero m p n = None"
proof (induction k arbitrary: p n)
  case 0
  then show ?case by (cases n) auto
next
  case (Suc k)
  then obtain j where "n = Suc j" by (cases n) auto
  with Suc.IH [of "p + 1" j] Suc.prems show ?case by (auto simp: outcome_simps algebra_simps)
qed

lemma null_pointer_over_read:
  assumes "PB_ATYPE (ftype f) = PB_ATYPE_POINTER" and "PB_HTYPE (ftype f) = PB_HTYPE_OPTIONAL"
    and "PB_LTYPE (ftype f) < PB_LTYPES_COUNT" and "size_offset f = 0"
    and "load_bytes m pd sizeof_ptr = Some (replicate sizeof_ptr 0)"
    and "m (pd + int sizeof_ptr) = None" and "sizeof_ptr < data_size f"
  shows "encode_basic_field (Suc n) env rec m s f pd = None"
  using assms all_zero_past_end [OF assms(5-7)]
  by (auto simp: encode_basic_field_def pb_consts not_le)

end
