(* ===== verification/Pb_Packed.thy ===== *)
theory Pb_Packed
  imports Pb_DecodeSafety Pb_EncodeSpec
begin

text \<open>
  Packed arrays.  The locale \<open>element_codec\<close> is the contract between the loop over a packed
  array and the decoder of its elements: \<open>wire img\<close> are the bytes on the wire of an element
  whose bytes in memory are \<open>img\<close>, and decoding them stores \<open>img\<close>.  The loop is proved once
  against the contract; the decoders of the packable types are its interpretations, for
  memory buffers.
\<close>

section \<open>Memory\<close>

lemma load_bytes_append:
  "load_bytes m a (n + k) =
     do { xs \<leftarrow> load_bytes m a n; ys \<leftarrow> load_bytes m (a + int n) k; Some (xs @ ys) }"
proof (induction n arbitrary: a)
  case (Suc n)
  have "a + 1 + int n = a + int (Suc n)" by simp
  with Suc.IH [of "a + 1"] show ?case
    by (cases "m a"; cases "load_bytes m (a + 1) n"; cases "load_bytes m (a + int (Suc n)) k") simp_all
qed simp

lemma load_bytes_unchanged:
  "changed_within a n m m' \<Longrightarrow> disjoint a n b k \<Longrightarrow> load_bytes m' b k = load_bytes m b k"
  by (rule load_bytes_cong) (auto simp: changed_within_def disjoint_def)

lemma load_u32_bytes: "load_bytes m' a 4 = load_bytes m a 4 \<Longrightarrow> load_u32 m' a = load_u32 m a"
  by (simp add: load_u32_def load_word_def)

lemma store_changed: "store_bytes m a bs = Some m' \<Longrightarrow> changed_within a (length bs) m m'"
  using store_bytes_dom store_bytes_outside by (auto simp: changed_within_def)

lemma store_u32_within: "store_u32 m a v = Some m' \<Longrightarrow> changed_within a 4 m m'"
  using store_changed [of m a "le_bytes 4 (of_nat v :: u32)"] by (simp add: store_u32_def store_word_def)

text \<open>Only bytes of two ranges changed.\<close>

definition changed_two :: "addr \<Rightarrow> nat \<Rightarrow> addr \<Rightarrow> nat \<Rightarrow> mem \<Rightarrow> mem \<Rightarrow> bool" where
  "changed_two a n b k m m' \<longleftrightarrow> dom m' = dom m \<and>
     (\<forall>c. m' c \<noteq> m c \<longrightarrow> a \<le> c \<and> c < a + int n \<or> b \<le> c \<and> c < b + int k)"

lemma changed_withinD: "changed_within a n m m' \<Longrightarrow> m' c \<noteq> m c \<Longrightarrow> a \<le> c \<and> c < a + int n"
  by (metis changed_within_def not_le)

lemma changed_two_refl [simp]: "changed_two a n b k m m"
  by (simp add: changed_two_def)

lemma changed_two_trans:
  assumes "changed_two a n b k m m1" and "changed_two a n b k m1 m2"
  shows "changed_two a n b k m m2"
  unfolding changed_two_def
proof (intro conjI allI impI)
  show "dom m2 = dom m" using assms by (simp add: changed_two_def)
  fix c
  assume "m2 c \<noteq> m c"
  then have "m2 c \<noteq> m1 c \<or> m1 c \<noteq> m c" by auto
  then show "a \<le> c \<and> c < a + int n \<or> b \<le> c \<and> c < b + int k"
    using assms by (auto simp: changed_two_def)
qed

lemma changed_two_left:
  "changed_within c l m m' \<Longrightarrow> a \<le> c \<Longrightarrow> c + int l \<le> a + int n \<Longrightarrow> changed_two a n b k m m'"
  using changed_withinD [of c l m m'] by (fastforce simp: changed_two_def dest: changed_dom)

lemma changed_two_right: "changed_within b k m m' \<Longrightarrow> changed_two a n b k m m'"
  using changed_withinD [of b k m m'] by (fastforce simp: changed_two_def dest: changed_dom)

lemma changed_two_mono:
  "changed_two c l b k m m' \<Longrightarrow> a \<le> c \<Longrightarrow> c + int l \<le> a + int n \<Longrightarrow> changed_two a n b k m m'"
  by (fastforce simp: changed_two_def)

lemma load_bytes_unchanged_two:
  assumes "changed_two a n b k m m'" and "disjoint a n c l" and "disjoint b k c l"
  shows "load_bytes m' c l = load_bytes m c l"
proof (rule load_bytes_cong)
  fix x
  assume x: "c \<le> x" "x < c + int l"
  with assms(2,3) have "\<not> (a \<le> x \<and> x < a + int n)" "\<not> (b \<le> x \<and> x < b + int k)"
    by (auto simp: disjoint_def)
  with assms(1) show "m' x = m x" by (auto simp: changed_two_def)
qed


section \<open>The contract\<close>

locale element_codec = byte_source cb contents
  for cb :: "'u icallback" and contents :: "'u istate \<Rightarrow> byte list option" +
  fixes func :: "'u pb_istream_t \<Rightarrow> pb_field_t \<Rightarrow> addr \<Rightarrow> mem \<Rightarrow> 'u dresult"
    and wire :: "byte list \<Rightarrow> byte list"
    and w :: nat
  assumes element: "delivers cb contents s (wire img @ ys) rest \<Longrightarrow> length img = w \<Longrightarrow>
      data_size f = w \<Longrightarrow> store_bytes m a img = Some m' \<Longrightarrow>
      \<exists>s'. func s f a m = Some (True, s', m') \<and> delivers cb contents s' ys rest"
    and wire_nonempty: "length img = w \<Longrightarrow> wire img \<noteq> []"
begin

text \<open>
  The loop over a packed array of elements \<open>xs\<close>: it stores them behind the \<open>j\<close> that are
  there, adds their number to the count and changes nothing else.
\<close>

lemma packed_loop_decodes:
  assumes f: "data_size (cur it) = w" "w * array_size (cur it) < 2 ^ 32" "array_size (cur it) < 2 ^ 32"
    and xs: "\<forall>img \<in> set xs. length img = w"
  defines "p \<equiv> pData it" and "q \<equiv> pSize it" and "n \<equiv> array_size (cur it)"
  assumes dis: "disjoint p (w * n) q 4"
  shows "j + length xs \<le> n \<Longrightarrow> load_u32 m q = Some j \<Longrightarrow> allocated m p (w * n) \<Longrightarrow> allocated m q 4 \<Longrightarrow>
    delivers cb contents sub (concat (map wire xs)) rest \<Longrightarrow> bytes_left sub < k \<Longrightarrow>
    \<exists>sub' m'. packed_loop k func it sub m = Some (True, sub', m') \<and>
      delivers cb contents sub' [] rest \<and>
      load_bytes m' (p + int (w * j)) (w * length xs) = Some (concat xs) \<and>
      load_u32 m' q = Some (j + length xs) \<and>
      changed_two (p + int (w * j)) (w * length xs) q 4 m m'"
  using xs
proof (induction xs arbitrary: j m sub k)
  case Nil
  then have "bytes_left sub = 0" by (simp add: delivers_def)
  with Nil show ?case by (cases k) auto
next
  case (Cons img xs)
  from Cons.prems obtain k' where k: "k = Suc k'" by (cases k) auto
  let ?a = "p + int (w * j)"
  have img: "length img = w" using Cons.prems by simp
  have ne: "bytes_left sub \<noteq> 0"
    using Cons.prems(5) wire_nonempty [OF img] by (simp add: delivers_def)
  have jn: "j < n" using Cons.prems(1) by simp
  have wj: "w * j + w \<le> w * n" using jn mult_le_mono2 [of "Suc j" n w] by simp
  then have o: "item_offset (cur it) j = int (w * j)" using f by (simp add: item_offset_def n_def)
  have wj': "int (w * j) + int w \<le> int (w * n)" using wj by linarith
  have "allocated m ?a (length img)"
    using Cons.prems(3) by (rule allocated_mono) (use wj' img in auto)
  then obtain m1 where m1: "store_bytes m ?a img = Some m1" using cmem.store_total by blast
  from store_changed [OF m1] img have c1: "changed_within ?a w m m1" by simp
  from element [OF _ img f(1) m1, of sub "concat (map wire xs)" rest] Cons.prems(5) obtain sub1
    where s1: "func sub (cur it) ?a m = Some (True, sub1, m1)"
    and d1: "delivers cb contents sub1 (concat (map wire xs)) rest"
    by auto
  have "0 \<le> int w * int j" by simp
  with dis wj' jn have daq: "disjoint ?a w q 4" unfolding disjoint_def of_nat_mult
    by (elim disjE) (linarith, linarith, simp, simp)
  have j1: "load_u32 m1 q = Some j"
    using load_u32_bytes [OF load_bytes_unchanged [OF c1 daq]] Cons.prems(2) by simp
  have "allocated m1 q 4" using Cons.prems(4) changed_allocated [OF c1] by simp
  then obtain m2 where m2: "store_u32 m1 q (j + 1) = Some m2" and c2: "changed_within q 4 m1 m2"
    by (rule store_u32_changed)
  have j2: "load_u32 m2 q = Some (j + 1)"
    using load_store_u32 [OF m2] jn f(3) by (simp add: n_def)
  have al: "allocated m2 p (w * n)" "allocated m2 q 4"
    using Cons.prems(3,4) changed_allocated [OF c1] changed_allocated [OF c2] by simp_all
  have l: "bytes_left sub1 < k'"
    using Cons.prems(5,6) d1 wire_nonempty [OF img] k by (cases "wire img") (auto simp: delivers_def)
  from Cons.IH [OF _ j2 al d1 l] Cons.prems(1,7) obtain sub' m' where
    r: "packed_loop k' func it sub1 m2 = Some (True, sub', m')"
    and d': "delivers cb contents sub' [] rest"
    and l': "load_bytes m' (p + int (w * (j + 1))) (w * length xs) = Some (concat xs)"
    and q': "load_u32 m' q = Some (j + 1 + length xs)"
    and c': "changed_two (p + int (w * (j + 1))) (w * length xs) q 4 m2 m'"
    by auto
  have a1: "p + int (w * (j + 1)) = ?a + int w" by (simp add: algebra_simps)
  have li: "load_bytes m' ?a w = Some img"
  proof -
    have "load_bytes m' ?a w = load_bytes m2 ?a w"
      using c' unfolding a1 by (rule load_bytes_unchanged_two) (use daq in \<open>auto simp: disjoint_def\<close>)
    also have "\<dots> = load_bytes m1 ?a w"
      using c2 by (rule load_bytes_unchanged) (use daq in \<open>auto simp: disjoint_def\<close>)
    also have "\<dots> = Some img" using load_store_bytes [OF m1] img by simp
    finally show ?thesis .
  qed
  have "load_bytes m' ?a (w * length (img # xs)) = Some (concat (img # xs))"
    using li l' load_bytes_append [of m' ?a w "w * length xs"] unfolding a1 by simp
  moreover have "changed_two ?a (w * length (img # xs)) q 4 m m'"
    using changed_two_left [OF c1, of ?a "w * length (img # xs)" q 4]
      changed_two_right [OF c2, of ?a "w * length (img # xs)"]
      changed_two_mono [OF c' [unfolded a1], of ?a "w * length (img # xs)"]
    by (auto simp: algebra_simps intro: changed_two_trans)
  moreover have "packed_loop k func it sub m = Some (True, sub', m')"
    using k ne jn Cons.prems(2) s1 j1 m2 r o by (simp add: p_def q_def n_def)
  ultimately show ?case using d' q' by auto
qed

text \<open>The field as it is on the wire: the length, then the elements.\<close>

lemma decode_packed_array:
  assumes f: "data_size (cur it) = w" "w * array_size (cur it) < 2 ^ 32" "array_size (cur it) < 2 ^ 32"
    and xs: "\<forall>img \<in> set xs. length img = w" "length xs \<le> array_size (cur it)"
    and len: "length (concat (map wire xs)) < 2 ^ 32"
    and m: "load_u32 m (pSize it) = Some 0" "allocated m (pData it) (w * array_size (cur it))"
      "allocated m (pSize it) 4" "disjoint (pData it) (w * array_size (cur it)) (pSize it) 4"
    and s: "delivers cb contents s (prefixed (concat (map wire xs)) @ ys) rest"
  shows "\<exists>s' m'. decode_packed func it s m = Some (True, s', m') \<and> delivers cb contents s' ys rest \<and>
    load_bytes m' (pData it) (w * length xs) = Some (concat xs) \<and>
    load_u32 m' (pSize it) = Some (length xs) \<and>
    changed_two (pData it) (w * length xs) (pSize it) 4 m m'"
proof -
  from make_substream [of s "concat (map wire xs)" ys rest] s len obtain p sub
    where mk: "pb_make_string_substream s = Some (True, p, sub)"
    and sub: "delivers cb contents sub (concat (map wire xs)) (ys @ rest)"
    and p: "p = sub\<lparr>bytes_left := length ys\<rparr>"
    by (auto simp: prefixed_def)
  from packed_loop_decodes [OF f xs(1) m(4) _ m(1-3) sub, of "Suc (bytes_left sub)"] xs(2)
  obtain sub' m' where lp: "packed_loop (Suc (bytes_left sub)) func it sub m = Some (True, sub', m')"
    and d: "delivers cb contents sub' [] (ys @ rest)"
    and l: "load_bytes m' (pData it) (w * length xs) = Some (concat xs)"
      "load_u32 m' (pSize it) = Some (length xs)"
      "changed_two (pData it) (w * length xs) (pSize it) 4 m m'"
    by auto
  have "i_callback p = cb" "bytes_left p = length ys" using p sub by (simp_all add: delivers_def)
  from close_substream [OF d this] obtain s' where "pb_close_string_substream p sub' = Some (True, s')"
    and "delivers cb contents s' ys rest"
    by auto
  moreover have "bytes_left sub' = 0" using d by (simp add: delivers_def)
  ultimately show ?thesis using mk lp l by (simp add: decode_packed_def del: packed_loop.simps)
qed

end


section \<open>The packable types\<close>

text \<open>
  The bytes on the wire of an element in memory, by type: the same as \<open>value_bytes\<close> of the
  encoder.
\<close>

definition wire_u32 :: "byte list \<Rightarrow> byte list" where
  "wire_u32 img = varint_bytes (ucast (of_le img :: u32))"

definition wire_u64 :: "byte list \<Rightarrow> byte list" where
  "wire_u64 img = varint_bytes (of_le img)"

definition wire_i32 :: "byte list \<Rightarrow> byte list" where
  "wire_i32 img = varint_bytes (scast (of_le img :: u32))"

definition wire_s32 :: "byte list \<Rightarrow> byte list" where
  "wire_s32 img = varint_bytes (zigzag (scast (of_le img :: u32)))"

definition wire_s64 :: "byte list \<Rightarrow> byte list" where
  "wire_s64 img = varint_bytes (zigzag (of_le img))"

lemma varint_bytes_not_Nil [simp]: "varint_bytes v \<noteq> []"
  using varint_bytes_length [of v] by auto

lemma store_word_image:
  assumes "length img = n" and "8 * n = LENGTH('a::len)"
  shows "store_word n m a (of_le img :: 'a word) = store_bytes m a img"
  using le_bytes_of_le [of img, where 'a = 'a] assms by (simp add: store_word_def)

lemma ucast_scast_32: "ucast (scast (x :: u32) :: u64) = x"
  by (auto intro!: bit_word_eqI simp: bit_simps)

lemma ucast_ucast_32: "ucast (ucast (x :: u32) :: u64) = x"
  by (auto intro!: bit_word_eqI simp: bit_simps)

context byte_source
begin

lemma element_u32:
  assumes "delivers cb contents s (wire_u32 img @ ys) rest" and "length img = 4" and "data_size f = 4"
    and "store_bytes m a img = Some m'"
  shows "\<exists>s'. pb_dec_uvarint s f a m = Some (True, s', m') \<and> delivers cb contents s' ys rest"
  using decode_uvarint [OF assms(1) [unfolded wire_u32_def]] assms(2-4)
    store_word_image [of img 4 m a, where 'a = 32]
  by (auto simp: pb_dec_uvarint_def store_checked_def store_unsigned_def ucast_ucast_32)

lemma element_u64:
  assumes "delivers cb contents s (wire_u64 img @ ys) rest" and "length img = 8" and "data_size f = 8"
    and "store_bytes m a img = Some m'"
  shows "\<exists>s'. pb_dec_uvarint s f a m = Some (True, s', m') \<and> delivers cb contents s' ys rest"
  using decode_uvarint [OF assms(1) [unfolded wire_u64_def]] assms(2-4)
    store_word_image [of img 8 m a, where 'a = 64]
  by (auto simp: pb_dec_uvarint_def store_checked_def store_unsigned_def)

lemma element_i32:
  assumes "delivers cb contents s (wire_i32 img @ ys) rest" and "length img = 4" and "data_size f = 4"
    and "store_bytes m a img = Some m'"
  shows "\<exists>s'. pb_dec_varint s f a m = Some (True, s', m') \<and> delivers cb contents s' ys rest"
  using decode_uvarint [OF assms(1) [unfolded wire_i32_def]] assms(2-4)
    store_word_image [of img 4 m a, where 'a = 32]
  by (auto simp: pb_dec_varint_def store_checked_def store_signed_def ucast_scast_32 Let_def)

lemma element_i64:
  assumes "delivers cb contents s (wire_u64 img @ ys) rest" and "length img = 8" and "data_size f = 8"
    and "store_bytes m a img = Some m'"
  shows "\<exists>s'. pb_dec_varint s f a m = Some (True, s', m') \<and> delivers cb contents s' ys rest"
  using decode_uvarint [OF assms(1) [unfolded wire_u64_def]] assms(2-4)
    store_word_image [of img 8 m a, where 'a = 64]
  by (auto simp: pb_dec_varint_def store_checked_def store_signed_def Let_def)

lemma element_s32:
  assumes "delivers cb contents s (wire_s32 img @ ys) rest" and "length img = 4" and "data_size f = 4"
    and "store_bytes m a img = Some m'"
  shows "\<exists>s'. pb_dec_svarint s f a m = Some (True, s', m') \<and> delivers cb contents s' ys rest"
  using decode_svarint [OF assms(1) [unfolded wire_s32_def]] assms(2-4)
    store_word_image [of img 4 m a, where 'a = 32]
  by (auto simp: pb_dec_svarint_def store_checked_def store_signed_def ucast_scast_32)

lemma element_s64:
  assumes "delivers cb contents s (wire_s64 img @ ys) rest" and "length img = 8" and "data_size f = 8"
    and "store_bytes m a img = Some m'"
  shows "\<exists>s'. pb_dec_svarint s f a m = Some (True, s', m') \<and> delivers cb contents s' ys rest"
  using decode_svarint [OF assms(1) [unfolded wire_s64_def]] assms(2-4)
    store_word_image [of img 8 m a, where 'a = 64]
  by (auto simp: pb_dec_svarint_def store_checked_def store_signed_def)

lemma element_f32:
  assumes "delivers cb contents s (img @ ys) rest" and "length img = 4"
    and "store_bytes m a img = Some m'"
  shows "\<exists>s'. pb_dec_fixed32 s f a m = Some (True, s', m') \<and> delivers cb contents s' ys rest"
  using read_raw [OF assms(1,2)] assms(2,3) store_word_image [of img 4 m a, where 'a = 32]
  by (auto simp: pb_dec_fixed32_def pb_decode_fixed32_def word32_of_le)

lemma element_f64:
  assumes "delivers cb contents s (img @ ys) rest" and "length img = 8"
    and "store_bytes m a img = Some m'"
  shows "\<exists>s'. pb_dec_fixed64 s f a m = Some (True, s', m') \<and> delivers cb contents s' ys rest"
  using read_raw [OF assms(1,2)] assms(2,3) store_word_image [of img 8 m a, where 'a = 64]
  by (auto simp: pb_dec_fixed64_def pb_decode_fixed64_def word64_of_le)

end

interpretation packed_u32: element_codec BufRead ibuf pb_dec_uvarint wire_u32 4
  using buf.element_u32 by unfold_locales (blast, simp add: wire_u32_def)

interpretation packed_u64: element_codec BufRead ibuf pb_dec_uvarint wire_u64 8
  using buf.element_u64 by unfold_locales (blast, simp add: wire_u64_def)

interpretation packed_i32: element_codec BufRead ibuf pb_dec_varint wire_i32 4
  using buf.element_i32 by unfold_locales (blast, simp add: wire_i32_def)

interpretation packed_i64: element_codec BufRead ibuf pb_dec_varint wire_u64 8
  using buf.element_i64 by unfold_locales (blast, simp add: wire_u64_def)

interpretation packed_s32: element_codec BufRead ibuf pb_dec_svarint wire_s32 4
  using buf.element_s32 by unfold_locales (blast, simp add: wire_s32_def)

interpretation packed_s64: element_codec BufRead ibuf pb_dec_svarint wire_s64 8
  using buf.element_s64 by unfold_locales (blast, simp add: wire_s64_def)

interpretation packed_f32: element_codec BufRead ibuf pb_dec_fixed32 id 4
  using buf.element_f32 by unfold_locales (simp, blast, auto)

interpretation packed_f64: element_codec BufRead ibuf pb_dec_fixed64 id 8
  using buf.element_f64 by unfold_locales (simp, blast, auto)


section \<open>The encoder writes what the decoder reads\<close>

lemma items_wire:
  assumes "\<And>q img. load_bytes m q w = Some img \<Longrightarrow> g q = Some (wire img)"
    and "\<forall>img \<in> set xs. length img = w" and "load_bytes m p (w * length xs) = Some (concat xs)"
  shows "cat_map g (map (\<lambda>i. p + int (i * w)) [0..<length xs]) = Some (concat (map wire xs))"
  using assms(2,3)
proof (induction xs arbitrary: p)
  case (Cons img xs)
  have img: "length img = w" using Cons.prems by simp
  from Cons.prems(2) obtain a b where ab: "load_bytes m p w = Some a"
    "load_bytes m (p + int w) (w * length xs) = Some b" "a @ b = img @ concat xs"
    by (auto simp: load_bytes_append outcome_simps)
  from load_bytes_length [OF ab(1)] img ab(3) have "a = img" "b = concat xs" by auto
  with ab assms(1) Cons.IH [of "p + int w"] Cons.prems(1)
  have "g p = Some (wire img)"
    and ih: "cat_map g (map (\<lambda>i. (p + int w) + int (i * w)) [0..<length xs]) = Some (concat (map wire xs))"
    by auto
  moreover have "map (\<lambda>i. p + int (i * w)) [0..<length (img # xs)]
      = p # map (\<lambda>i. (p + int w) + int (i * w)) [0..<length xs]"
    by (simp add: upt_conv_Cons map_Suc_upt [symmetric] algebra_simps del: upt_Suc)
  ultimately show ?case by simp
qed simp

lemma wire_u32_length: "length (wire_u32 img) \<le> 10"
  using varint_bytes_length by (simp add: wire_u32_def)

lemma value_bytes_u32:
  "PB_LTYPE (ftype f) = PB_LTYPE_UVARINT \<Longrightarrow> data_size f = 4 \<Longrightarrow> load_bytes m q 4 = Some img \<Longrightarrow>
     value_bytes env recb m f q = Some (wire_u32 img)"
  by (simp add: value_bytes_def Let_def load_unsigned_def load_word_def wire_u32_def
      varint_bytes_leb pb_consts)

lemma value_bytes_s32:
  "PB_LTYPE (ftype f) = PB_LTYPE_SVARINT \<Longrightarrow> data_size f = 4 \<Longrightarrow> load_bytes m q 4 = Some img \<Longrightarrow>
     value_bytes env recb m f q = Some (wire_s32 img)"
  by (simp add: value_bytes_def Let_def load_signed_def load_word_def wire_s32_def
      varint_bytes_leb zz_zigzag pb_consts)

lemma value_bytes_i32:
  "PB_LTYPE (ftype f) = PB_LTYPE_VARINT \<Longrightarrow> data_size f = 4 \<Longrightarrow> load_bytes m q 4 = Some img \<Longrightarrow>
     value_bytes env recb m f q = Some (wire_i32 img)"
  by (simp add: value_bytes_def Let_def load_signed_def load_word_def wire_i32_def
      varint_bytes_leb pb_consts)

lemma value_bytes_f64:
  "PB_LTYPE (ftype f) = PB_LTYPE_FIXED64 \<Longrightarrow> load_bytes m q 8 = Some img \<Longrightarrow>
     value_bytes env recb m f q = Some (id img)"
  by (simp add: value_bytes_def Let_def pb_consts)

end
