(* ===== verification/Pb_Required.thy ===== *)
theory Pb_Required
  imports Pb_DecodeSafety
begin

text \<open>
  The required fields of a message.  The decoder numbers them in the order of the
  descriptors and keeps one bit for each; the lemmas show that after any sequence of fields
  the check of the bits is the question whether every required field was among them.
\<close>

section \<open>Numbering\<close>

definition is_required :: "pb_field_t \<Rightarrow> bool" where
  "is_required f \<longleftrightarrow> PB_HTYPE (ftype f) = PB_HTYPE_REQUIRED"

lemma required_before_step:
  "i < nfields flds \<Longrightarrow> required_before flds (Suc i) =
     required_before flds i + (if is_required (field_at flds i) then 1 else 0)"
  using required_before_Suc [of i flds] nfields_le [of flds] by (simp add: is_required_def)

lemma required_before_mono:
  "i \<le> j \<Longrightarrow> j \<le> nfields flds \<Longrightarrow> required_before flds i \<le> required_before flds j"
  by (induction j rule: dec_induct) (auto simp: required_before_step)

lemma required_before_strict:
  assumes "i < j" and "j \<le> nfields flds" and "is_required (field_at flds i)"
  shows "required_before flds i < required_before flds j"
  using required_before_step [of i flds] required_before_mono [of "Suc i" j flds] assms by simp

lemma required_before_inj:
  assumes "i < nfields flds" and "j < nfields flds" and "is_required (field_at flds i)"
    and "is_required (field_at flds j)" and "required_before flds i = required_before flds j"
  shows "i = j"
  using required_before_strict [of i j flds] required_before_strict [of j i flds] assms
  by (cases i j rule: linorder_cases) auto

text \<open>Every number below the count belongs to a required field.\<close>

lemma required_number:
  "k \<le> nfields flds \<Longrightarrow> c < required_before flds k \<Longrightarrow>
     \<exists>j < k. is_required (field_at flds j) \<and> required_before flds j = c"
proof (induction k)
  case 0
  then show ?case by (simp add: required_before_def)
next
  case (Suc k)
  then show ?case
    using required_before_step [of k flds] less_Suc_eq
    by (cases "c < required_before flds k") (auto split: if_splits)
qed


section \<open>The bits\<close>

definition seen_bit :: "u32 list \<Rightarrow> nat \<Rightarrow> bool" where
  "seen_bit seen i \<longleftrightarrow> i < 64 \<and> bit (seen ! (i div 32)) (i mod 32)"

lemma seen_bit_zero [simp]: "\<not> seen_bit [0, 0] i"
proof -
  have "i < 64 \<Longrightarrow> i div 32 = 0 \<or> i div 32 = 1" by linarith
  then show ?thesis by (auto simp: seen_bit_def)
qed

lemma seen_bit_mark:
  assumes "length seen = 2"
  shows "seen_bit (mark_seen it seen) i \<longleftrightarrow>
    seen_bit seen i \<or> is_required (cur it) \<and> required_field_index it = i \<and> i < 64"
proof -
  let ?r = "required_field_index it"
  have w: "i div 32 = ?r div 32 \<and> i mod 32 = ?r mod 32 \<longleftrightarrow> i = ?r"
    by (metis div_mod_decomp)
  have "?r < 64 \<Longrightarrow> ?r div 32 < 2" by linarith
  with assms w show ?thesis
    by (cases "i div 32 = ?r div 32")
       (auto simp: seen_bit_def mark_seen_def Let_def is_required_def pb_consts bit_or_iff
         bit_push_bit_iff bit_exp_iff)
qed

lemma seen_bit_fold:
  "length seen = 2 \<Longrightarrow> seen_bit (foldl (\<lambda>s it. mark_seen it s) seen its) i \<longleftrightarrow>
     seen_bit seen i \<or> (\<exists>it \<in> set its. is_required (cur it) \<and> required_field_index it = i \<and> i < 64)"
  by (induction its arbitrary: seen) (auto simp: seen_bit_mark)

lemma length_fold_mark: "length (foldl (\<lambda>s it. mark_seen it s) seen its) = length seen"
  by (induction its arbitrary: seen) auto

lemma all_ones: "(w :: u32) = - 1 \<longleftrightarrow> (\<forall>n < 32. bit w n)"
  by (auto intro!: bit_word_eqI)

lemma low_ones:
  assumes "0 < n" "n < 32"
  shows "(w :: u32) = drop_bit (32 - n) (- 1) \<longleftrightarrow> (\<forall>k < 32. bit w k \<longleftrightarrow> k < n)"
proof -
  have "bit (drop_bit (32 - n) (- 1 :: u32)) k \<longleftrightarrow> k < n" for k
    using assms by (auto simp: bit_simps)
  then show ?thesis by (auto intro!: bit_word_eqI)
qed

text \<open>
  The check on a set of bits below the count: it is the question whether all are there.
\<close>

lemma required_seen_eq:
  assumes c: "required_ok c" and l: "length seen = 2" and b: "\<And>i. seen_bit seen i \<Longrightarrow> i < c"
  shows "required_seen seen c = Some (\<forall>i < c. seen_bit seen i)"
proof -
  have "c \<noteq> 32" using c by (auto simp: required_ok_def)
  moreover have "c = 0 \<or> c < 64" using c by (auto simp: required_ok_def)
  ultimately consider "c = 0" | "0 < c" "c < 32" | "32 < c" "c < 64" by linarith
  then show ?thesis
  proof cases
    case 1
    then show ?thesis by (simp add: required_seen_def)
  next
    case 2
    have "seen ! 0 = drop_bit (32 - c) (- 1) \<longleftrightarrow> (\<forall>k < 32. bit (seen ! 0) k \<longleftrightarrow> k < c)"
      using 2 by (rule low_ones)
    also have "\<dots> \<longleftrightarrow> (\<forall>i < c. seen_bit seen i)"
    proof
      assume a: "\<forall>k < 32. bit (seen ! 0) k \<longleftrightarrow> k < c"
      show "\<forall>i < c. seen_bit seen i" using 2 a by (simp add: seen_bit_def)
    next
      assume a: "\<forall>i < c. seen_bit seen i"
      have "bit (seen ! 0) k \<Longrightarrow> k < 32 \<Longrightarrow> k < c" for k
        using b [of k] by (simp add: seen_bit_def)
      moreover have "k < c \<Longrightarrow> bit (seen ! 0) k" for k
        using a 2 by (auto simp: seen_bit_def)
      ultimately show "\<forall>k < 32. bit (seen ! 0) k \<longleftrightarrow> k < c" by blast
    qed
    finally show ?thesis using 2 l by (simp add: required_seen_def)
  next
    case 3
    then have d: "c div 32 = 1" "c mod 32 = c - 32" by (simp_all add: div_if mod_if)
    have w0: "seen ! 0 = - 1 \<longleftrightarrow> (\<forall>i < 32. seen_bit seen i)"
      by (auto simp: all_ones seen_bit_def)
    have shift: "seen_bit seen (k + 32) \<longleftrightarrow> bit (seen ! 1) k" if "k < 32" for k
    proof -
      have "(k + 32) div 32 = 1" "(k + 32) mod 32 = k" "k + 32 < 64" using that by simp_all
      then show ?thesis by (simp only: seen_bit_def) simp
    qed
    have "seen ! 1 = drop_bit (32 - (c - 32)) (- 1) \<longleftrightarrow> (\<forall>k < 32. bit (seen ! 1) k \<longleftrightarrow> k < c - 32)"
      using 3 by (intro low_ones) auto
    also have "\<dots> \<longleftrightarrow> (\<forall>k < 32. seen_bit seen (k + 32) \<longleftrightarrow> k + 32 < c)"
      using shift by (intro all_cong) (simp add: less_diff_conv)
    also have "\<dots> \<longleftrightarrow> (\<forall>i. 32 \<le> i \<and> i < c \<longrightarrow> seen_bit seen i)"
    proof
      assume a: "\<forall>k < 32. seen_bit seen (k + 32) \<longleftrightarrow> k + 32 < c"
      have "seen_bit seen i" if "32 \<le> i" "i < c" for i
        using a [rule_format, of "i - 32"] that 3 by simp
      then show "\<forall>i. 32 \<le> i \<and> i < c \<longrightarrow> seen_bit seen i" by blast
    next
      assume a: "\<forall>i. 32 \<le> i \<and> i < c \<longrightarrow> seen_bit seen i"
      show "\<forall>k < 32. seen_bit seen (k + 32) \<longleftrightarrow> k + 32 < c" using a b by auto
    qed
    finally have w1: "seen ! 1 = drop_bit (32 - (c - 32)) (- 1) \<longleftrightarrow>
      (\<forall>i. 32 \<le> i \<and> i < c \<longrightarrow> seen_bit seen i)" .
    have "(\<forall>i < c. seen_bit seen i) \<longleftrightarrow>
        (\<forall>i < 32. seen_bit seen i) \<and> (\<forall>i. 32 \<le> i \<and> i < c \<longrightarrow> seen_bit seen i)"
      using 3 by (meson less_trans not_le)
    with w0 w1 3 d l show ?thesis
      by (auto simp: required_seen_def)
  qed
qed

text \<open>
  After the decoder has found the fields at the positions \<open>is\<close>, in any order and with
  repetitions, the check succeeds exactly when every required field is among them.
\<close>

lemma required_check:
  assumes c: "required_ok (required_count flds)" and is_: "\<forall>i \<in> set is. i < nfields flds"
  shows "required_seen (foldl (\<lambda>s it. mark_seen it s) [0, 0] (map (iter_at flds dest) is))
      (required_count flds)
    = Some (\<forall>j < nfields flds. is_required (field_at flds j) \<longrightarrow> j \<in> set is)"
proof -
  let ?seen = "foldl (\<lambda>s it. mark_seen it s) [0, 0] (map (iter_at flds dest) is)"
  have sb: "seen_bit ?seen i \<longleftrightarrow> (\<exists>j \<in> set is. is_required (field_at flds j) \<and>
      required_before flds j = i \<and> i < 64)" for i
    by (auto simp: seen_bit_fold)
  have lt: "required_before flds j < required_count flds"
    if "j < nfields flds" "is_required (field_at flds j)" for j
    using required_before_strict [of j "nfields flds" flds] that by (simp add: required_count_def)
  have c64: "required_count flds < 64" using c by (auto simp: required_ok_def)
  have "seen_bit ?seen i \<Longrightarrow> i < required_count flds" for i
    using lt is_ by (auto simp: sb)
  then have "required_seen ?seen (required_count flds) = Some (\<forall>i < required_count flds. seen_bit ?seen i)"
    by (intro required_seen_eq c) (simp_all add: length_fold_mark)
  also have "(\<forall>i < required_count flds. seen_bit ?seen i) \<longleftrightarrow>
      (\<forall>j < nfields flds. is_required (field_at flds j) \<longrightarrow> j \<in> set is)"
  proof
    assume a: "\<forall>i < required_count flds. seen_bit ?seen i"
    show "\<forall>j < nfields flds. is_required (field_at flds j) \<longrightarrow> j \<in> set is"
    proof (intro allI impI)
      fix j
      assume j: "j < nfields flds" "is_required (field_at flds j)"
      with a lt obtain j' where "j' \<in> set is" "is_required (field_at flds j')"
        "required_before flds j' = required_before flds j"
        by (auto simp: sb)
      with j is_ required_before_inj [of j' flds j] show "j \<in> set is" by auto
    qed
  next
    assume a: "\<forall>j < nfields flds. is_required (field_at flds j) \<longrightarrow> j \<in> set is"
    show "\<forall>i < required_count flds. seen_bit ?seen i"
    proof (intro allI impI)
      fix i
      assume "i < required_count flds"
      with required_number [of "nfields flds" flds i] obtain j where "j < nfields flds"
        "is_required (field_at flds j)" "required_before flds j = i"
        by (auto simp: required_count_def)
      with a c64 \<open>i < required_count flds\<close> show "seen_bit ?seen i" by (auto simp: sb)
    qed
  qed
  finally show ?thesis .
qed

text \<open>
  With 32 or 64 required fields, all present, the check reaches a shift by 32 bits or a word
  behind the array.
\<close>

lemma seen_bit_found:
  assumes "\<forall>i \<in> set is. i < nfields flds"
    and "\<forall>j < nfields flds. is_required (field_at flds j) \<longrightarrow> j \<in> set is"
    and "i < required_count flds" and "i < 64"
  shows "seen_bit (foldl (\<lambda>s it. mark_seen it s) [0, 0] (map (iter_at flds dest) is)) i"
proof -
  from required_number [of "nfields flds" flds i] assms(3) obtain j where "j < nfields flds"
    "is_required (field_at flds j)" "required_before flds j = i"
    by (auto simp: required_count_def)
  with assms show ?thesis by (auto simp: seen_bit_fold)
qed

lemma required_check_undefined:
  assumes c: "required_count flds = 32 \<or> required_count flds = 64"
    and f: "\<forall>i \<in> set is. i < nfields flds"
      "\<forall>j < nfields flds. is_required (field_at flds j) \<longrightarrow> j \<in> set is"
  shows "required_seen (foldl (\<lambda>s it. mark_seen it s) [0, 0] (map (iter_at flds dest) is))
      (required_count flds) = None"
proof -
  let ?seen = "foldl (\<lambda>s it. mark_seen it s) [0, 0] (map (iter_at flds dest) is)"
  have b: "i < required_count flds \<Longrightarrow> seen_bit ?seen i" for i
    using seen_bit_found [OF f] c by auto
  have l: "length ?seen = 2" by (simp add: length_fold_mark)
  have w: "32 * Suc k \<le> required_count flds \<Longrightarrow> ?seen ! k = - 1" for k
  proof -
    assume k: "32 * Suc k \<le> required_count flds"
    have "bit (?seen ! k) n" if "n < 32" for n
    proof -
      have "(32 * k + n) div 32 = k" "(32 * k + n) mod 32 = n" using that by simp_all
      with b [of "32 * k + n"] k that show ?thesis by (simp add: seen_bit_def)
    qed
    then show ?thesis by (simp add: all_ones)
  qed
  from c show ?thesis
  proof
    assume "required_count flds = 32"
    with w [of 0] l show ?thesis by (simp add: required_seen_def)
  next
    assume "required_count flds = 64"
    with w [of 0] w [of 1] l show ?thesis by (simp add: required_seen_def numeral_2_eq_2)
  qed
qed

end
