(* ===== verification/Base64.thy ===== *)
theory Base64
  imports Prelude
begin

text \<open>
  The base64 coder of the web socket client,
  Pods/FirebaseDatabase/.../SocketRocket/fbase64.c: \<open>f_b64_ntop\<close> and \<open>f_b64_pton\<close>.

  A buffer of the caller is the list of the bytes allocated behind its pointer; an access
  past its end is undefined and gives None.  A null target is None.  The result is the
  return value and the target afterwards.  The return value is an \<open>int\<close>; the indices are
  naturals, so the model speaks of inputs below 4 GB.
\<close>

definition Base64_table :: "byte list" where
  "Base64_table = map (\<lambda>c. of_nat (of_char c))
     ''ABCDEFGHIJKLMNOPQRSTUVWXYZabcdefghijklmnopqrstuvwxyz0123456789+/''"

definition Pad64 :: byte where
  "Pad64 = 0x3D"

definition to_int :: "nat \<Rightarrow> int" where
  "to_int n = sint (of_nat n :: 32 word)"

text \<open>Stores into the target, \<open>target[i] = v\<close> and \<open>target[i] |= v\<close>.\<close>

definition put :: "byte list \<Rightarrow> nat \<Rightarrow> byte \<Rightarrow> byte list option" where
  "put t i v = (if i < length t then Some (t[i := v]) else None)"

definition put_or :: "byte list \<Rightarrow> nat \<Rightarrow> byte \<Rightarrow> byte list option" where
  "put_or t i v = (if i < length t then Some (t[i := t ! i OR v]) else None)"

fun puts :: "byte list \<Rightarrow> nat \<Rightarrow> byte list \<Rightarrow> byte list option" where
  "puts t i [] = Some t"
| "puts t i (v # vs) = do { t1 \<leftarrow> put t i v; puts t1 (i + 1) vs }"


section \<open>Encoding\<close>

text \<open>The four indices \<open>output[0..3]\<close> of a group of three input bytes.\<close>

definition out0 :: "byte \<Rightarrow> byte" where "out0 a = drop_bit 2 a"
definition out1 :: "byte \<Rightarrow> byte \<Rightarrow> byte" where "out1 a b = push_bit 4 (a AND 0x03) + drop_bit 4 b"
definition out2 :: "byte \<Rightarrow> byte \<Rightarrow> byte" where "out2 b c = push_bit 2 (b AND 0x0F) + drop_bit 6 c"
definition out3 :: "byte \<Rightarrow> byte" where "out3 c = c AND 0x3F"

definition b64 :: "byte \<Rightarrow> byte" where
  "b64 k = Base64_table ! unat k"

function ntop_loop ::
    "byte list \<Rightarrow> nat \<Rightarrow> nat \<Rightarrow> byte list \<Rightarrow> nat \<Rightarrow> (bool \<times> byte list \<times> nat \<times> nat \<times> byte list) option" where
  "ntop_loop src srclength datalength target targsize =
     (if 2 < srclength
      then (case src of
          a # b # c # rest \<Rightarrow>
            if datalength + 4 > targsize then Some (False, rest, srclength - 3, datalength, target)
            else do {
              t1 \<leftarrow> puts target datalength [b64 (out0 a), b64 (out1 a b), b64 (out2 b c), b64 (out3 c)];
              ntop_loop rest (srclength - 3) (datalength + 4) t1 targsize }
        | _ \<Rightarrow> None)
      else Some (True, src, srclength, datalength, target))"
  by pat_completeness auto
termination by (relation "measure (\<lambda>(src, n, dl, t, ts). n)") auto

declare ntop_loop.simps [simp del]

text \<open>The last group, of one or two bytes; the missing ones are zero.\<close>

definition ntop_tail ::
    "byte list \<Rightarrow> nat \<Rightarrow> nat \<Rightarrow> byte list \<Rightarrow> nat \<Rightarrow> (bool \<times> nat \<times> byte list) option" where
  "ntop_tail src srclength datalength target targsize =
     (if srclength = 0 then Some (True, datalength, target)
      else if length src < srclength then None
      else
        let a = src ! 0; b = (if srclength = 1 then 0 else src ! 1) in
        if datalength + 4 > targsize then Some (False, datalength, target)
        else do {
          t1 \<leftarrow> puts target datalength
            [b64 (out0 a), b64 (out1 a b), if srclength = 1 then Pad64 else b64 (out2 b 0), Pad64];
          Some (True, datalength + 4, t1) })"

definition f_b64_ntop :: "byte list \<Rightarrow> nat \<Rightarrow> byte list \<Rightarrow> nat \<Rightarrow> (int \<times> byte list) option" where
  "f_b64_ntop src srclength target targsize =
     do { (ok, src1, n1, dl, t1) \<leftarrow> ntop_loop src srclength 0 target targsize;
          if \<not> ok then Some (- 1, t1)
          else do {
            (ok, dl2, t2) \<leftarrow> ntop_tail src1 n1 dl t1 targsize;
            if \<not> ok then Some (- 1, t2)
            else if dl2 \<ge> targsize then Some (- 1, t2)
            else do { t3 \<leftarrow> put t2 dl2 0; Some (to_int dl2, t3) } } }"


section \<open>Decoding\<close>

text \<open>\<open>isspace\<close> of the C locale, and the position \<open>strchr(Base64, ch) - Base64\<close>.\<close>

definition isspace :: "byte \<Rightarrow> bool" where
  "isspace ch \<longleftrightarrow> ch = 0x20 \<or> 0x09 \<le> ch \<and> ch \<le> 0x0D"

fun index_of :: "byte list \<Rightarrow> byte \<Rightarrow> nat option" where
  "index_of [] ch = None"
| "index_of (c # cs) ch = (if c = ch then Some 0 else map_option Suc (index_of cs ch))"

definition strchr :: "byte \<Rightarrow> nat option" where
  "strchr ch = index_of Base64_table ch"

text \<open>
  One digit \<open>p\<close> in one of the four states: whether to go on, the new state, \<open>tarindex\<close> and
  the target.
\<close>

definition pton_digit ::
    "nat \<Rightarrow> byte \<Rightarrow> nat \<Rightarrow> byte list option \<Rightarrow> nat \<Rightarrow> (bool \<times> nat \<times> nat \<times> byte list option) option" where
  "pton_digit state p ti target targsize =
     (if state = 0
      then (case target of None \<Rightarrow> Some (True, 1, ti, None)
        | Some t \<Rightarrow>
            if ti \<ge> targsize then Some (False, state, ti, target)
            else do { t1 \<leftarrow> put t ti (push_bit 2 p); Some (True, 1, ti, Some t1) })
      else if state = 1
      then (case target of None \<Rightarrow> Some (True, 2, ti + 1, None)
        | Some t \<Rightarrow>
            if ti + 1 \<ge> targsize then Some (False, state, ti, target)
            else do { t1 \<leftarrow> put_or t ti (drop_bit 4 p);
                      t2 \<leftarrow> put t1 (ti + 1) (push_bit 4 (p AND 0x0F));
                      Some (True, 2, ti + 1, Some t2) })
      else if state = 2
      then (case target of None \<Rightarrow> Some (True, 3, ti + 1, None)
        | Some t \<Rightarrow>
            if ti + 1 \<ge> targsize then Some (False, state, ti, target)
            else do { t1 \<leftarrow> put_or t ti (drop_bit 2 p);
                      t2 \<leftarrow> put t1 (ti + 1) (push_bit 6 (p AND 0x03));
                      Some (True, 3, ti + 1, Some t2) })
      else (case target of None \<Rightarrow> Some (True, 0, ti + 1, None)
        | Some t \<Rightarrow>
            if ti \<ge> targsize then Some (False, state, ti, target)
            else do { t1 \<leftarrow> put_or t ti p; Some (True, 0, ti + 1, Some t1) }))"

text \<open>
  The loop up to the end of the string or a pad character: whether it got there, the last
  character read, the source behind it, and the state of the decoder.
\<close>

fun pton_loop ::
    "byte list \<Rightarrow> nat \<Rightarrow> nat \<Rightarrow> byte list option \<Rightarrow> nat \<Rightarrow>
     (bool \<times> byte \<times> byte list \<times> nat \<times> nat \<times> byte list option) option" where
  "pton_loop [] state ti target targsize = None"
| "pton_loop (ch # src) state ti target targsize =
     (if ch = 0 then Some (True, ch, src, state, ti, target)
      else if isspace ch then pton_loop src state ti target targsize
      else if ch = Pad64 then Some (True, ch, src, state, ti, target)
      else (case strchr ch of
          None \<Rightarrow> Some (False, ch, src, state, ti, target)
        | Some p \<Rightarrow> do {
            (ok, st1, ti1, t1) \<leftarrow> pton_digit state (of_nat p) ti target targsize;
            if \<not> ok then Some (False, ch, src, st1, ti1, t1)
            else pton_loop src st1 ti1 t1 targsize }))"

text \<open>\<open>ch = *src++\<close>.\<close>

definition next_char :: "byte list \<Rightarrow> (byte \<times> byte list) option" where
  "next_char src = (case src of [] \<Rightarrow> None | c # cs \<Rightarrow> Some (c, cs))"

fun skip_spaces :: "byte \<Rightarrow> byte list \<Rightarrow> (byte \<times> byte list) option" where
  "skip_spaces ch src =
     (if ch = 0 \<or> \<not> isspace ch then Some (ch, src)
      else (case src of [] \<Rightarrow> None | c # cs \<Rightarrow> skip_spaces c cs))"

fun only_spaces :: "byte \<Rightarrow> byte list \<Rightarrow> bool option" where
  "only_spaces ch src =
     (if ch = 0 then Some True
      else if \<not> isspace ch then Some False
      else (case src of [] \<Rightarrow> None | c # cs \<Rightarrow> only_spaces c cs))"

declare skip_spaces.simps [simp del] only_spaces.simps [simp del]

text \<open>
  "Single trailing =": nothing but white space may follow, and the bits that slopped past
  the last byte must be zero.
\<close>

definition pton_end ::
    "byte \<Rightarrow> byte list \<Rightarrow> nat \<Rightarrow> byte list option \<Rightarrow> (int \<times> byte list option) option" where
  "pton_end ch src ti target =
     do { clean \<leftarrow> only_spaces ch src;
          if \<not> clean then Some (- 1, target)
          else (case target of
              None \<Rightarrow> Some (to_int ti, None)
            | Some t \<Rightarrow>
                if ti \<ge> length t then None
                else if t ! ti \<noteq> 0 then Some (- 1, target) else Some (to_int ti, target)) }"

definition f_b64_pton ::
    "byte list \<Rightarrow> byte list option \<Rightarrow> nat \<Rightarrow> (int \<times> byte list option) option" where
  "f_b64_pton src target targsize =
     do { (ok, ch, src1, state, ti, t1) \<leftarrow> pton_loop src 0 0 target targsize;
          if \<not> ok then Some (- 1, t1)
          else if ch = Pad64
          then do {
            (ch2, src2) \<leftarrow> next_char src1;
            if state = 0 \<or> state = 1 then Some (- 1, t1)
            else if state = 2
            then do {
              (ch3, src3) \<leftarrow> skip_spaces ch2 src2;
              if ch3 \<noteq> Pad64 then Some (- 1, t1)
              else do { (ch4, src4) \<leftarrow> next_char src3; pton_end ch4 src4 ti t1 } }
            else pton_end ch2 src2 ti t1 }
          else if state \<noteq> 0 then Some (- 1, t1)
          else Some (to_int ti, t1) }"


section \<open>The encoding\<close>

text \<open>RFC 1521: groups of three bytes, the last one padded.\<close>

fun b64_encode :: "byte list \<Rightarrow> byte list" where
  "b64_encode [] = []"
| "b64_encode [a] = [b64 (out0 a), b64 (out1 a 0), Pad64, Pad64]"
| "b64_encode [a, b] = [b64 (out0 a), b64 (out1 a b), b64 (out2 b 0), Pad64]"
| "b64_encode (a # b # c # rest) =
     b64 (out0 a) # b64 (out1 a b) # b64 (out2 b c) # b64 (out3 c) # b64_encode rest"

lemma length_b64_encode: "length (b64_encode bs) = 4 * ((length bs + 2) div 3)"
proof (induction bs rule: b64_encode.induct)
  case (4 a b c rest)
  have "(length (a # b # c # rest) + 2) div 3 = Suc ((length rest + 2) div 3)" by simp
  with "4.IH" show ?case by simp
qed simp_all

lemma puts_defined: "i + length vs \<le> length t \<Longrightarrow> puts t i vs = Some (take i t @ vs @ drop (i + length vs) t)"
proof (induction vs arbitrary: t i)
  case (Cons v vs)
  have "take (Suc i) (t[i := v]) = take i t @ [v]"
    using Cons.prems by (simp add: take_Suc_conv_app_nth)
  with Cons show ?case by (simp add: put_def)
qed simp

lemma puts_at:
  "length vs \<le> length t \<Longrightarrow> puts (out @ t) (length out) vs = Some (out @ vs @ drop (length vs) t)"
  by (simp add: puts_defined)

declare puts.simps [simp del]

text \<open>
  Encoding into a target that already holds \<open>out\<close>: as long as there is room, the groups
  are appended.
\<close>

lemma ntop_appends:
  assumes "length out + length (b64_encode src) \<le> targsize" and "targsize \<le> length (out @ t)"
  shows "\<exists>src1 n1 dl t1. ntop_loop src (length src) (length out) (out @ t) targsize
      = Some (True, src1, n1, dl, t1) \<and>
    ntop_tail src1 n1 dl t1 targsize = Some (True, length out + length (b64_encode src),
      out @ b64_encode src @ drop (length (b64_encode src)) t)"
  using assms
proof (induction src arbitrary: out t rule: b64_encode.induct)
  case 1
  then show ?case by (simp add: ntop_loop.simps ntop_tail_def)
next
  case (2 a)
  then show ?case
    by (subst ntop_loop.simps) (simp add: ntop_tail_def puts_at Let_def)
next
  case (3 a b)
  then show ?case
    by (subst ntop_loop.simps) (simp add: ntop_tail_def puts_at Let_def)
next
  case (4 a b c rest)
  let ?g = "[b64 (out0 a), b64 (out1 a b), b64 (out2 b c), b64 (out3 c)]"
  have "puts (out @ t) (length out) ?g = Some ((out @ ?g) @ drop (length ?g) t)"
    using "4.prems" by (subst puts_at) auto
  moreover have "\<exists>src1 n1 dl t1. ntop_loop rest (length rest) (length (out @ ?g)) ((out @ ?g) @ drop (length ?g) t)
      targsize = Some (True, src1, n1, dl, t1) \<and>
    ntop_tail src1 n1 dl t1 targsize = Some (True, length (out @ ?g) + length (b64_encode rest),
      (out @ ?g) @ b64_encode rest @ drop (length (b64_encode rest)) (drop (length ?g) t))"
    by (rule "4.IH") (use "4.prems" in auto)
  ultimately show ?case
    using "4.prems" by (subst ntop_loop.simps) (simp add: add.commute eval_nat_numeral)
qed

lemma ntop_encodes:
  assumes "length (b64_encode src) < targsize" and "targsize \<le> length t"
  shows "f_b64_ntop src (length src) t targsize =
    Some (to_int (length (b64_encode src)), b64_encode src @ 0 # drop (Suc (length (b64_encode src))) t)"
proof -
  let ?n = "length (b64_encode src)"
  from ntop_appends [of "[]" src targsize t] assms obtain src1 n1 dl t1
    where "ntop_loop src (length src) 0 t targsize = Some (True, src1, n1, dl, t1)"
    and "ntop_tail src1 n1 dl t1 targsize = Some (True, ?n, b64_encode src @ drop ?n t)"
    by auto
  moreover have "put (b64_encode src @ drop ?n t) ?n 0 = Some (b64_encode src @ 0 # drop (Suc ?n) t)"
    using assms by (simp add: put_def Cons_nth_drop_Suc [symmetric] list_update_append)
  ultimately show ?thesis using assms by (simp add: f_b64_ntop_def)
qed

text \<open>
  Whatever the sizes: the function returns, it writes below \<open>targsize\<close> only, and it fails
  exactly when the text and its terminator do not fit.
\<close>

definition same_above :: "nat \<Rightarrow> byte list \<Rightarrow> byte list \<Rightarrow> bool" where
  "same_above n t t' \<longleftrightarrow> length t' = length t \<and> drop n t' = drop n t"

lemma same_above_refl [simp]: "same_above n t t"
  by (simp add: same_above_def)

lemma same_above_trans: "same_above n t t1 \<Longrightarrow> same_above n t1 t2 \<Longrightarrow> same_above n t t2"
  by (simp add: same_above_def)

lemma put_same_above: "put t i v = Some t' \<Longrightarrow> i < n \<Longrightarrow> same_above n t t'"
  by (auto simp: put_def same_above_def split: if_splits)

lemma put_or_same_above: "put_or t i v = Some t' \<Longrightarrow> i < n \<Longrightarrow> same_above n t t'"
  by (auto simp: put_or_def same_above_def split: if_splits)

lemma puts_same_above: "puts t i vs = Some t' \<Longrightarrow> i + length vs \<le> n \<Longrightarrow> same_above n t t'"
proof (induction vs arbitrary: t i)
  case (Cons v vs)
  then obtain t1 where "put t i v = Some t1" "puts t1 (i + 1) vs = Some t'"
    by (auto simp: puts.simps outcome_simps)
  with Cons put_same_above [of t i v t1 n] show ?case
    by (auto intro: same_above_trans)
qed (simp add: puts.simps)

lemma puts_total: "i + length vs \<le> length t \<Longrightarrow> \<exists>t'. puts t i vs = Some t'"
  by (simp add: puts_defined)

definition ntop_groups ::
    "byte list \<Rightarrow> nat \<Rightarrow> byte list \<Rightarrow> nat \<Rightarrow> (bool \<times> nat \<times> byte list) option" where
  "ntop_groups src dl t targsize =
     do { (ok, src1, n1, dl1, t1) \<leftarrow> ntop_loop src (length src) dl t targsize;
          if \<not> ok then Some (False, dl1, t1) else ntop_tail src1 n1 dl1 t1 targsize }"

lemma f_b64_ntop_groups:
  "f_b64_ntop src (length src) t targsize =
     do { (ok, dl2, t2) \<leftarrow> ntop_groups src 0 t targsize;
          if \<not> ok then Some (- 1, t2)
          else if dl2 \<ge> targsize then Some (- 1, t2)
          else do { t3 \<leftarrow> put t2 dl2 0; Some (to_int dl2, t3) } }"
  by (cases "ntop_loop src (length src) 0 t targsize") (auto simp: f_b64_ntop_def ntop_groups_def)

lemma ntop_bounds:
  assumes "targsize \<le> length t"
  shows "\<exists>dl2 t2. ntop_groups src dl t targsize =
      Some (src = [] \<or> dl + length (b64_encode src) \<le> targsize, dl2, t2) \<and>
    same_above targsize t t2 \<and>
    (src = [] \<or> dl + length (b64_encode src) \<le> targsize \<longrightarrow> dl2 = dl + length (b64_encode src))"
  using assms
proof (induction src arbitrary: dl t rule: b64_encode.induct)
  case 1
  then show ?case unfolding ntop_groups_def by (subst ntop_loop.simps) (auto simp: ntop_tail_def)
next
  case (2 a)
  then show ?case
    using puts_total [of dl "[b64 (out0 a), b64 (out1 a 0), Pad64, Pad64]" t]
      puts_same_above [of t dl "[b64 (out0 a), b64 (out1 a 0), Pad64, Pad64]" _ targsize]
    unfolding ntop_groups_def by (subst ntop_loop.simps) (auto simp: ntop_tail_def Let_def)
next
  case (3 a b)
  then show ?case
    using puts_total [of dl "[b64 (out0 a), b64 (out1 a b), b64 (out2 b 0), Pad64]" t]
      puts_same_above [of t dl "[b64 (out0 a), b64 (out1 a b), b64 (out2 b 0), Pad64]" _ targsize]
    unfolding ntop_groups_def by (subst ntop_loop.simps) (auto simp: ntop_tail_def Let_def)
next
  case (4 a b c rest)
  let ?g = "[b64 (out0 a), b64 (out1 a b), b64 (out2 b c), b64 (out3 c)]"
  show ?case
  proof (cases "dl + 4 > targsize")
    case True
    then show ?thesis unfolding ntop_groups_def by (subst ntop_loop.simps) auto
  next
    case False
    with "4.prems" puts_total [of dl ?g t] obtain t1 where t1: "puts t dl ?g = Some t1" by auto
    with False have s: "same_above targsize t t1" by (auto intro: puts_same_above)
    with "4.prems" have "targsize \<le> length t1" by (simp add: same_above_def)
    from "4.IH" [OF this, of "dl + 4"] t1 s False show ?thesis
      unfolding ntop_groups_def
      by (subst ntop_loop.simps) (cases rest, auto intro: same_above_trans)
  qed
qed

lemma ntop_total:
  assumes "targsize \<le> length t"
  shows "\<exists>v t'. f_b64_ntop src (length src) t targsize = Some (v, t') \<and> same_above targsize t t' \<and>
    v = (if length (b64_encode src) < targsize then to_int (length (b64_encode src)) else - 1)"
proof (cases "length (b64_encode src) < targsize")
  case True
  have "targsize - length (b64_encode src) = Suc (targsize - Suc (length (b64_encode src)))"
    using True by simp
  then have "same_above targsize t (b64_encode src @ 0 # drop (Suc (length (b64_encode src))) t)"
    using True assms by (simp add: same_above_def)
  with ntop_encodes [OF True assms] True show ?thesis by simp
next
  case False
  from ntop_bounds [OF assms, of src 0] obtain dl2 t2 where
    "ntop_groups src 0 t targsize = Some (src = [] \<or> length (b64_encode src) \<le> targsize, dl2, t2)"
    and s: "same_above targsize t t2"
    and "src = [] \<or> length (b64_encode src) \<le> targsize \<longrightarrow> dl2 = length (b64_encode src)"
    by auto
  with False have "f_b64_ntop src (length src) t targsize = Some (- 1, t2)"
    by (auto simp: f_b64_ntop_groups)
  with False s show ?thesis by simp
qed


section \<open>Decoding what was encoded\<close>

text \<open>The 64 digits are found in the table, and none of them is white space, a pad or the end.\<close>

lemma Base64_table_bytes:
  "Base64_table =
    [65, 66, 67, 68, 69, 70, 71, 72, 73, 74, 75, 76, 77, 78, 79, 80, 81, 82, 83, 84, 85, 86,
     87, 88, 89, 90, 97, 98, 99, 100, 101, 102, 103, 104, 105, 106, 107, 108, 109, 110, 111,
     112, 113, 114, 115, 116, 117, 118, 119, 120, 121, 122, 48, 49, 50, 51, 52, 53, 54, 55, 56,
     57, 43, 47]"
  by (simp add: Base64_table_def)

lemma table_distinct: "distinct Base64_table"
  by (simp add: Base64_table_bytes)

lemma table_plain:
  "list_all (\<lambda>c. \<not> isspace c \<and> c \<noteq> Pad64 \<and> c \<noteq> 0) Base64_table"
  by (simp add: Base64_table_bytes isspace_def Pad64_def)

lemma table_length: "length Base64_table = 64"
  by (simp add: Base64_table_def)

lemma index_of_nth: "distinct cs \<Longrightarrow> k < length cs \<Longrightarrow> index_of cs (cs ! k) = Some k"
proof (induction cs arbitrary: k)
  case (Cons c cs)
  then show ?case by (cases k) auto
qed simp

lemma b64_digit:
  assumes "unat k < 64"
  shows "strchr (b64 k) = Some (unat k)" "\<not> isspace (b64 k)" "b64 k \<noteq> Pad64" "b64 k \<noteq> 0"
  using table_plain index_of_nth [OF table_distinct] assms
  by (auto simp: list_all_length b64_def strchr_def table_length)

lemma pton_loop_digit:
  assumes "unat k < 64"
  shows "pton_loop (b64 k # src) state ti target targsize =
    do { (ok, st1, ti1, t1) \<leftarrow> pton_digit state k ti target targsize;
         if \<not> ok then Some (False, b64 k, src, st1, ti1, t1)
         else pton_loop src st1 ti1 t1 targsize }"
  using b64_digit [OF assms] by simp

lemma six_bits:
  assumes "\<And>n. bit (k :: byte) n \<Longrightarrow> n < 6"
  shows "unat k < 64"
proof -
  have "k = take_bit 6 k" using assms by (auto intro!: bit_word_eqI simp: bit_simps)
  then have "unat k = take_bit 6 (unat k)" by (metis unsigned_take_bit_eq)
  then show ?thesis using take_bit_nat_less_exp [of 6 "unat k"] by simp
qed

lemma and_masks: "(a :: byte) AND 0x03 = take_bit 2 a" "a AND 0x0F = take_bit 4 a"
  "a AND 0x3F = take_bit 6 a"
  by (simp_all add: take_bit_eq_mask mask_eq_exp_minus_1)

lemma out1_or: "out1 a b = push_bit 4 (take_bit 2 a) OR drop_bit 4 b"
proof -
  have "push_bit 4 (take_bit 2 a) + drop_bit 4 b = push_bit 4 (take_bit 2 a) OR drop_bit 4 b"
    by (rule disjunctive_add) (auto simp: bit_simps dest: bit_imp_le_length)
  then show ?thesis by (simp only: out1_def and_masks)
qed

lemma out2_or: "out2 b c = push_bit 2 (take_bit 4 b) OR drop_bit 6 c"
proof -
  have "push_bit 2 (take_bit 4 b) + drop_bit 6 c = push_bit 2 (take_bit 4 b) OR drop_bit 6 c"
    by (rule disjunctive_add) (auto simp: bit_simps dest: bit_imp_le_length)
  then show ?thesis by (simp only: out2_def and_masks)
qed

lemma out_small: "unat (out0 a) < 64" "unat (out1 a b) < 64" "unat (out2 b c) < 64" "unat (out3 c) < 64"
  by (rule six_bits, auto simp: out0_def out1_or out2_or out3_def and_masks bit_simps
      dest: bit_imp_le_length)+

lemma Suc_Suc_minus_2: "2 \<le> n \<Longrightarrow> Suc (Suc (n - 2)) = n"
  by simp

lemma join_bytes:
  "push_bit 2 (out0 a) OR drop_bit 4 (out1 a b) = a"
  "push_bit 4 (out1 a b AND 0x0F) OR drop_bit 2 (out2 b c) = b"
  "push_bit 6 (out2 b c AND 0x03) OR out3 c = c"
  by (auto intro!: bit_word_eqI simp: out0_def out1_or out2_or out3_def and_masks bit_simps
      Suc_Suc_minus_2 dest: bit_imp_le_length)

lemma slop_zero: "out1 a 0 AND 0x0F = 0" "out2 b 0 AND 0x03 = 0"
  by (auto intro!: bit_word_eqI simp: out1_or out2_or and_masks bit_simps)

text \<open>What a target holds once \<open>bs\<close> is decoded behind \<open>out\<close>.\<close>

definition decoded_size :: "nat \<Rightarrow> nat" where
  "decoded_size n = (if 3 dvd n then n else Suc n)"

definition decoded :: "byte list \<Rightarrow> byte list \<Rightarrow> byte list" where
  "decoded bs t =
     (if 3 dvd length bs then bs @ drop (length bs) t else bs @ 0 # drop (Suc (length bs)) t)"

text \<open>The state at which the loop leaves, and the pad and end characters still ahead.\<close>

definition end_state :: "nat \<Rightarrow> nat" where
  "end_state n = (if n mod 3 = 0 then 0 else n mod 3 + 1)"

definition end_chars :: "nat \<Rightarrow> byte list" where
  "end_chars n = (if n mod 3 = 0 then [] else replicate (2 - n mod 3) Pad64)"

definition last_char :: "nat \<Rightarrow> byte" where
  "last_char n = (if n mod 3 = 0 then 0 else Pad64)"

lemma nth_at [simp]: "(out @ x # xs) ! length out = x"
  by simp

lemma put_here: "put (out @ x # xs) (length out) v = Some (out @ v # xs)"
  by (simp add: put_def)

lemma put_next: "put (out @ x # y # xs) (Suc (length out)) v = Some (out @ x # v # xs)"
  using put_here [of "out @ [x]" y xs v] by simp

lemma put_or_here: "put_or (out @ x # xs) (length out) v = Some (out @ (x OR v) # xs)"
  by (simp add: put_or_def)

lemma group_digits:
  assumes "length out + 2 < targsize"
  shows "pton_loop (b64 (out0 a) # b64 (out1 a b) # b64 (out2 b c) # b64 (out3 c) # src) 0 (length out)
      (Some (out @ x # y # z # t)) targsize
    = pton_loop src 0 (length (out @ [a, b, c])) (Some ((out @ [a, b, c]) @ t)) targsize"
  using assms put_or_here [of "out @ [a]" y "z # t"] put_next [of "out @ [a]" y z t]
    put_or_here [of "out @ [a, b]" z t]
    put_or_here [of "out @ [a]" "push_bit 4 (out1 a b AND 0x0F)" "z # t"]
    put_next [of "out @ [a]" "b" z t]
    put_or_here [of "out @ [a, b]" "push_bit 6 (out2 b c AND 0x03)" t]
  by (simp add: pton_loop_digit out_small pton_digit_def put_here put_next put_or_here join_bytes
      join_bytes(2,3) [simplified] del: pton_loop.simps)

lemma last_two_digits:
  assumes "length out + 1 < targsize"
  shows "pton_loop (b64 (out0 a) # b64 (out1 a 0) # Pad64 # src) 0 (length out)
      (Some (out @ x # y # t)) targsize
    = Some (True, Pad64, src, 2, length out + 1, Some (out @ a # 0 # t))"
proof -
  have p: "Pad64 \<noteq> 0" "\<not> isspace Pad64" by (simp_all add: Pad64_def isspace_def)
  have "push_bit 4 (out1 a 0 AND 0x0F) = 0" by (simp only: slop_zero) simp
  with assms p put_next [of out a y t] show ?thesis
    by (simp add: pton_loop_digit out_small pton_digit_def put_here put_or_here join_bytes(1)
        del: pton_loop.simps(2)) simp
qed

lemma last_three_digits:
  assumes "length out + 2 < targsize"
  shows "pton_loop (b64 (out0 a) # b64 (out1 a b) # b64 (out2 b 0) # Pad64 # src) 0 (length out)
      (Some (out @ x # y # z # t)) targsize
    = Some (True, Pad64, src, 3, length out + 2, Some (out @ a # b # 0 # t))"
proof -
  have p: "Pad64 \<noteq> 0" "\<not> isspace Pad64" by (simp_all add: Pad64_def isspace_def)
  have "push_bit 6 (out2 b 0 AND 0x03) = 0" by (simp only: slop_zero) simp
  with assms p put_next [of out a y "z # t"] put_next [of "out @ [a]" b z t]
    put_or_here [of "out @ [a]" "push_bit 4 (out1 a b AND 0x0F)" "z # t"] show ?thesis
    by (simp add: pton_loop_digit out_small pton_digit_def put_here put_or_here join_bytes(1)
        join_bytes(2) [simplified] del: pton_loop.simps(2)) simp
qed

lemma at_least_3: "length (out @ t) \<ge> length out + 3 \<Longrightarrow> \<exists>x y z u. t = x # y # z # u"
  by (cases t; cases "tl t"; cases "tl (tl t)") auto

lemma at_least_2: "length (out @ t) \<ge> length out + 2 \<Longrightarrow> \<exists>x y u. t = x # y # u"
  by (cases t; cases "tl t") auto

lemma not_three_dvd [simp]: "\<not> 3 dvd Suc 0" "\<not> 3 dvd Suc (Suc 0)"
  by presburger+

lemma pton_loop_encoded:
  assumes "length out + decoded_size (length bs) \<le> targsize" and "targsize \<le> length (out @ t)"
  shows "\<exists>rest. pton_loop (b64_encode bs @ 0 # ys) 0 (length out) (Some (out @ t)) targsize
      = Some (True, last_char (length bs), rest, end_state (length bs), length out + length bs,
          Some (out @ decoded bs t)) \<and>
    (length bs mod 3 \<noteq> 0 \<longrightarrow> rest = end_chars (length bs) @ 0 # ys)"
  using assms
proof (induction bs arbitrary: out t rule: b64_encode.induct)
  case 1
  then show ?case by (simp add: last_char_def end_state_def decoded_def)
next
  case (2 a)
  then obtain x y u where "t = x # y # u"
    using at_least_2 [of out t] by (auto simp: decoded_size_def)
  with 2 last_two_digits [of out targsize a "Pad64 # 0 # ys" x y u] show ?case
    by (simp add: decoded_size_def last_char_def end_state_def end_chars_def decoded_def
        del: pton_loop.simps)
next
  case (3 a b)
  then obtain x y z u where "t = x # y # z # u"
    using at_least_3 [of out t] by (auto simp: decoded_size_def)
  with 3 last_three_digits [of out targsize a b "0 # ys" x y z u] show ?case
    by (simp add: decoded_size_def last_char_def end_state_def end_chars_def decoded_def
        del: pton_loop.simps)
next
  case (4 a b c rest)
  have m: "length (a # b # c # rest) mod 3 = length rest mod 3" by simp
  then have d: "3 dvd length (a # b # c # rest) \<longleftrightarrow> 3 dvd length rest"
    by (simp only: dvd_eq_mod_eq_0)
  from "4.prems" d have sz: "length out + 3 + decoded_size (length rest) \<le> targsize"
    by (auto simp: decoded_size_def split: if_splits)
  with "4.prems"(2) obtain x y z u where t: "t = x # y # z # u"
    using at_least_3 [of out t] by auto
  have "\<exists>r. pton_loop (b64_encode rest @ 0 # ys) 0 (length (out @ [a, b, c]))
      (Some ((out @ [a, b, c]) @ u)) targsize
    = Some (True, last_char (length rest), r, end_state (length rest),
        length (out @ [a, b, c]) + length rest, Some ((out @ [a, b, c]) @ decoded rest u)) \<and>
    (length rest mod 3 \<noteq> 0 \<longrightarrow> r = end_chars (length rest) @ 0 # ys)"
    by (rule "4.IH") (use sz "4.prems"(2) t in auto)
  moreover have "decoded (a # b # c # rest) t = a # b # c # decoded rest u"
    using d t by (simp add: decoded_def)
  moreover have "length out + 2 < targsize" using sz by simp
  note group_digits [OF this, of a b c "b64_encode rest @ 0 # ys" x y z u]
  ultimately show ?case
    using m t
    by (cases "length rest mod 3 = 0")
       (auto simp: last_char_def end_state_def end_chars_def simp del: pton_loop.simps)
qed

lemma decoded_slop:
  "\<not> 3 dvd length bs \<Longrightarrow> decoded bs t ! length bs = 0"
  by (simp add: decoded_def nth_append)

lemma pton_encode:
  assumes "decoded_size (length bs) \<le> targsize" and "targsize \<le> length t"
  shows "f_b64_pton (b64_encode bs @ 0 # ys) (Some t) targsize =
    Some (to_int (length bs), Some (decoded bs t))"
proof -
  from pton_loop_encoded [of "[]" bs targsize t ys] assms obtain rest
    where l: "pton_loop (b64_encode bs @ 0 # ys) 0 0 (Some t) targsize
      = Some (True, last_char (length bs), rest, end_state (length bs), length bs, Some (decoded bs t))"
    and r: "length bs mod 3 \<noteq> 0 \<longrightarrow> rest = end_chars (length bs) @ 0 # ys"
    by auto
  have p: "Pad64 \<noteq> 0" "\<not> isspace Pad64" by (simp_all add: Pad64_def isspace_def)
  consider "length bs mod 3 = 0" | "length bs mod 3 = 1" | "length bs mod 3 = 2" by linarith
  then show ?thesis
  proof cases
    case 1
    with l p show ?thesis by (simp add: f_b64_pton_def last_char_def end_state_def)
  next
    case 2
    then have "\<not> 3 dvd length bs" by (simp add: dvd_eq_mod_eq_0)
    moreover from this assms have "length bs < length (decoded bs t)"
      by (simp add: decoded_def decoded_size_def)
    ultimately show ?thesis
      using 2 l r p decoded_slop [of bs t]
      by (simp add: f_b64_pton_def last_char_def end_state_def end_chars_def next_char_def pton_end_def
          skip_spaces.simps only_spaces.simps)
  next
    case 3
    then have "\<not> 3 dvd length bs" by (simp add: dvd_eq_mod_eq_0)
    moreover from this assms have "length bs < length (decoded bs t)"
      by (simp add: decoded_def decoded_size_def)
    ultimately show ?thesis
      using 3 l r p decoded_slop [of bs t]
      by (simp add: f_b64_pton_def last_char_def end_state_def end_chars_def next_char_def pton_end_def
          only_spaces.simps)
  qed
qed


section \<open>Decoding anything\<close>

text \<open>
  The states of the decoder: in every state but 0 the byte at \<open>tarindex\<close> has been written,
  so it is below \<open>targsize\<close>.
\<close>

definition pton_inv :: "nat \<Rightarrow> nat \<Rightarrow> nat \<Rightarrow> bool" where
  "pton_inv state ti targsize \<longleftrightarrow> state \<le> 3 \<and> (state \<noteq> 0 \<longrightarrow> ti < targsize)"

lemma put_total: "i < length t \<Longrightarrow> put t i v = Some (t[i := v])"
  by (simp add: put_def)

lemma put_or_total: "i < length t \<Longrightarrow> put_or t i v = Some (t[i := t ! i OR v])"
  by (simp add: put_or_def)

lemma same_above_update: "same_above n t t1 \<Longrightarrow> i < n \<Longrightarrow> same_above n t (t1[i := v])"
  by (simp add: same_above_def)

lemma pton_digit_safe:
  assumes "pton_inv state ti targsize" and "targsize \<le> length t"
  shows "\<exists>ok st1 ti1 t1. pton_digit state p ti (Some t) targsize = Some (ok, st1, ti1, Some t1) \<and>
    same_above targsize t t1 \<and> pton_inv st1 ti1 targsize"
proof -
  from assms(1) have "state = 0 \<or> state = 1 \<or> state = 2 \<or> state = 3"
    by (auto simp: pton_inv_def)
  with assms(1) consider "state = 0" | "state = 1" "ti < targsize" | "state = 2" "ti < targsize"
    | "state = 3" "ti < targsize"
    by (auto simp: pton_inv_def)
  then show ?thesis
    by cases (use assms(2) in \<open>auto simp: pton_digit_def pton_inv_def put_total put_or_total
      same_above_update not_le\<close>)
qed

lemma pton_loop_safe:
  assumes "pton_inv state ti targsize" and "targsize \<le> length t" and "0 \<in> set src"
  shows "\<exists>ok ch src1 st1 ti1 t1. pton_loop src state ti (Some t) targsize =
      Some (ok, ch, src1, st1, ti1, Some t1) \<and> same_above targsize t t1 \<and>
    pton_inv st1 ti1 targsize \<and> (ok \<longrightarrow> ch = 0 \<or> ch = Pad64 \<and> 0 \<in> set src1)"
  using assms
proof (induction src arbitrary: state ti t)
  case (Cons ch src)
  show ?case
  proof (cases "ch = 0 \<or> \<not> isspace ch \<and> (ch = Pad64 \<or> strchr ch = None)")
    case True
    then consider "ch = 0" | "ch \<noteq> 0" "\<not> isspace ch" "ch = Pad64"
      | "ch \<noteq> 0" "\<not> isspace ch" "ch \<noteq> Pad64" "strchr ch = None"
      by metis
    then show ?thesis by cases (use Cons.prems in simp_all)
  next
    case nend: False
    then have z: "0 \<in> set src" using Cons.prems(3) by auto
    show ?thesis
    proof (cases "isspace ch")
      case True
      with nend Cons.IH [OF Cons.prems(1,2) z] show ?thesis by simp
    next
      case False
      with nend obtain p where p: "strchr ch = Some p" by auto
      from pton_digit_safe [OF Cons.prems(1,2), of "of_nat p"] obtain ok st1 ti1 t1
        where d: "pton_digit state (of_nat p) ti (Some t) targsize = Some (ok, st1, ti1, Some t1)"
        and s1: "same_above targsize t t1" and inv: "pton_inv st1 ti1 targsize"
        by blast
      from s1 Cons.prems(2) have "targsize \<le> length t1" by (simp add: same_above_def)
      from Cons.IH [OF inv this z] obtain ok2 ch2 src2 st2 ti2 t2
        where r: "pton_loop src st1 ti1 (Some t1) targsize = Some (ok2, ch2, src2, st2, ti2, Some t2)"
        and s2: "same_above targsize t1 t2" and "pton_inv st2 ti2 targsize"
        and "ok2 \<longrightarrow> ch2 = 0 \<or> ch2 = Pad64 \<and> 0 \<in> set src2"
        by blast
      show ?thesis
      proof (cases ok)
        case True
        with nend False p d r have "pton_loop (ch # src) state ti (Some t) targsize =
            Some (ok2, ch2, src2, st2, ti2, Some t2)"
          by simp
        with same_above_trans [OF s1 s2] \<open>pton_inv st2 ti2 targsize\<close>
          \<open>ok2 \<longrightarrow> ch2 = 0 \<or> ch2 = Pad64 \<and> 0 \<in> set src2\<close> show ?thesis by blast
      next
        case nok: False
        with nend False p d s1 inv show ?thesis by auto
      qed
    qed
  qed
qed simp

lemma skip_spaces_safe:
  "ch = 0 \<or> 0 \<in> set src \<Longrightarrow>
     \<exists>ch1 src1. skip_spaces ch src = Some (ch1, src1) \<and> (ch1 = 0 \<or> 0 \<in> set src1)"
proof (induction src arbitrary: ch)
  case Nil
  then show ?case by (subst skip_spaces.simps) simp
next
  case (Cons c cs)
  then show ?case by (subst skip_spaces.simps) auto
qed

lemma only_spaces_safe: "ch = 0 \<or> 0 \<in> set src \<Longrightarrow> \<exists>b. only_spaces ch src = Some b"
proof (induction src arbitrary: ch)
  case Nil
  then show ?case by (subst only_spaces.simps) auto
next
  case (Cons c cs)
  then show ?case by (subst only_spaces.simps) auto
qed

lemma pton_end_safe:
  assumes "ch = 0 \<or> 0 \<in> set src" and "ti < length t"
  shows "\<exists>v. pton_end ch src ti (Some t) = Some (v, Some t)"
  using only_spaces_safe [OF assms(1)] assms(2) by (auto simp: pton_end_def)

text \<open>
  On every terminated string the decoder returns, and it writes below \<open>targsize\<close> only.
\<close>

lemma pton_total:
  assumes "targsize \<le> length t" and "0 \<in> set src"
  shows "\<exists>v t'. f_b64_pton src (Some t) targsize = Some (v, Some t') \<and> same_above targsize t t'"
proof -
  have "pton_inv 0 0 targsize" by (simp add: pton_inv_def)
  from pton_loop_safe [OF this assms] obtain ok ch src1 st ti t1
    where l: "pton_loop src 0 0 (Some t) targsize = Some (ok, ch, src1, st, ti, Some t1)"
    and s1: "same_above targsize t t1" and inv: "pton_inv st ti targsize"
    and e: "ok \<longrightarrow> ch = 0 \<or> ch = Pad64 \<and> 0 \<in> set src1"
    by blast
  have p: "Pad64 \<noteq> 0" by (simp add: Pad64_def)
  show ?thesis
  proof (cases "ok \<and> ch = Pad64 \<and> st \<noteq> 0 \<and> st \<noteq> 1")
    case False
    with l s1 e p show ?thesis
      by (cases src1) (auto simp: f_b64_pton_def next_char_def)
  next
    case True
    with e p obtain c2 src2 where src1: "src1 = c2 # src2" and z: "c2 = 0 \<or> 0 \<in> set src2"
      by (cases src1) auto
    from inv True s1 assms(1) have ti: "ti < length t1"
      by (auto simp: pton_inv_def same_above_def)
    show ?thesis
    proof (cases "st = 2")
      case False
      from pton_end_safe [OF z ti] False True l src1 s1 show ?thesis
        by (auto simp: f_b64_pton_def next_char_def)
    next
      case st2: True
      from skip_spaces_safe [OF z] obtain c3 src3
        where sk: "skip_spaces c2 src2 = Some (c3, src3)" and z3: "c3 = 0 \<or> 0 \<in> set src3"
        by blast
      show ?thesis
      proof (cases "c3 = Pad64")
        case False
        with st2 True l src1 sk s1 show ?thesis by (simp add: f_b64_pton_def next_char_def)
      next
        case c3: True
        with z3 p obtain c4 src4 where src3: "src3 = c4 # src4" and z4: "c4 = 0 \<or> 0 \<in> set src4"
          by (cases src3) auto
        from pton_end_safe [OF z4 ti] c3 st2 True l src1 sk src3 s1 show ?thesis
          by (auto simp: f_b64_pton_def next_char_def)
      qed
    qed
  qed
qed

end
