(* ===== verification/Demo.thy ===== *)
theory Demo
  imports Pb_EncodeSpec Pb_DecodeSafety "HOL-Library.Code_Target_Nat"
begin

text \<open>
  A message type on which the properties are applied at concrete inputs.  It is declared
  with the macros of pb.h, as the generated code does:

    struct Inner { int32_t x; };
    struct Sample { uint32_t id; uint32_t values_count; uint32_t values[3];
                    bool has_name; char name[8]; struct Inner inner; };

  with a required \<open>id\<close>, a packed array \<open>values\<close>, an optional string \<open>name\<close> and a required
  submessage \<open>inner\<close> whose field is zig-zag encoded.
\<close>

definition member :: "nat \<Rightarrow> nat \<Rightarrow> nat \<Rightarrow> c_member" where
  "member ofs sz el = \<lparr>m_offset = ofs, m_size = sz, m_elem = el\<rparr>"

definition inner_decls :: "field_decl list" where
  "inner_decls =
     [FD (\<lambda>fd. PB_REQUIRED_STATIC 1 (member 0 4 4) fd PB_LTYPE_SVARINT NULL) (member 0 4 4) False]"

definition inner_fields :: "pb_field_t list" where
  "inner_fields = build_fields inner_decls"

definition inner_fields_addr :: addr where
  "inner_fields_addr = 5000"

definition sample_decls :: "field_decl list" where
  "sample_decls =
     [FD (\<lambda>fd. PB_REQUIRED_STATIC 1 (member 0 4 4) fd PB_LTYPE_UVARINT NULL) (member 0 4 4) False,
      FD (\<lambda>fd. PB_REPEATED_STATIC 2 (member 4 4 4) (member 8 12 4) fd PB_LTYPE_UVARINT NULL)
        (member 8 12 4) False,
      FD (\<lambda>fd. PB_OPTIONAL_STATIC 3 (member 20 1 1) (member 21 8 1) fd PB_LTYPE_STRING NULL)
        (member 21 8 1) False,
      FD (\<lambda>fd. PB_REQUIRED_STATIC 4 (member 32 4 4) fd PB_LTYPE_SUBMESSAGE inner_fields_addr)
        (member 32 4 4) False]"

definition sample_fields :: "pb_field_t list" where
  "sample_fields = build_fields sample_decls"

definition sample_size :: nat where
  "sample_size = 36"

definition sample_tables :: "addr \<Rightarrow> pb_field_t list option" where
  "sample_tables a = (if a = inner_fields_addr then Some inner_fields else None)"

definition sample_enc_env :: "'u enc_env" where
  "sample_enc_env = \<lparr>fields_at = sample_tables, ext_type_at = Map.empty,
     encode_cb = Map.empty, ext_encode_cb = Map.empty\<rparr>"

definition sample_dec_env :: "'u dec_env" where
  "sample_dec_env = \<lparr>fields_at = sample_tables, ext_type_at = Map.empty,
     decode_cb = Map.empty, ext_decode_cb = Map.empty\<rparr>"

text \<open>A structure at address 100: id 150, values 7 and 257, name "ab", x = -2.\<close>

definition sample_image :: "byte list" where
  "sample_image =
     [150, 0, 0, 0,  2, 0, 0, 0,  7, 0, 0, 0,  1, 1, 0, 0,  0, 0, 0, 0,
      1,  97, 98, 0, 0, 0, 0, 0, 0,  0, 0, 0,  0xFE, 0xFF, 0xFF, 0xFF]"

definition image_at :: "addr \<Rightarrow> byte list \<Rightarrow> mem" where
  "image_at a bs c = (if a \<le> c \<and> c < a + int (length bs) then Some (bs ! nat (c - a)) else None)"

definition sample_mem :: mem where
  "sample_mem = image_at 100 sample_image"

definition sample_bytes :: "byte list" where
  "sample_bytes = [8, 150, 1,  18, 3, 7, 129, 2,  26, 2, 97, 98,  34, 2, 8, 3]"

lemma length_sample_bytes [simp]: "length sample_bytes = 16"
  by (simp add: sample_bytes_def)

text \<open>The arrays as the macros expand.\<close>

lemma inner_fields_eq [code]:
  "inner_fields =
     [\<lparr>tag = 1, ftype = 0x02, data_offset = 0, size_offset = 0, data_size = 4, array_size = 0, fptr = 0\<rparr>]"
  by (simp add: inner_fields_def inner_decls_def member_def pb_macro_defs PB_DATAOFFSET_FIRST_def
      pb_membersize_def pb_consts NULL_def)

lemma sample_fields_eq [code]:
  "sample_fields =
     [\<lparr>tag = 1, ftype = 0x01, data_offset = 0, size_offset = 0, data_size = 4, array_size = 0, fptr = 0\<rparr>,
      \<lparr>tag = 2, ftype = 0x21, data_offset = 4, size_offset = - 4, data_size = 4, array_size = 3, fptr = 0\<rparr>,
      \<lparr>tag = 3, ftype = 0x16, data_offset = 1, size_offset = - 1, data_size = 8, array_size = 0, fptr = 0\<rparr>,
      \<lparr>tag = 4, ftype = 0x07, data_offset = 3, size_offset = 0, data_size = 4, array_size = 0, fptr = 5000\<rparr>]"
  by (simp add: sample_fields_def sample_decls_def member_def pb_macro_defs PB_DATAOFFSET_FIRST_def
      PB_DATAOFFSET_OTHER_def pb_delta_def pb_arraysize_def pb_membersize_def pb_consts NULL_def
      inner_fields_addr_def)

lemma sample_encodes:
  "message_bytes 2 sample_enc_env no_functions sample_mem sample_fields 100 = Some sample_bytes"
  by code_simp

text \<open>
  The type is well formed, and so is a memory that has 36 bytes at 200 and nothing else.
\<close>

definition no_memory :: "addr \<Rightarrow> nat \<Rightarrow> bool" where
  "no_memory a n = False"

definition target_mem :: mem where
  "target_mem = image_at 200 (replicate 36 0)"

lemma sample_well_formed: "msg_ok 2 sample_dec_env no_memory sample_fields sample_size"
  by code_simp

lemma allocated_image: "allocated (image_at a bs) a (length bs)"
  by (auto simp: allocated_def image_at_def)

lemma target_ok: "mem_ok no_memory 200 sample_size target_mem"
  using allocated_image [of 200 "replicate 36 0"]
  by (simp add: mem_ok_def no_memory_def target_mem_def sample_size_def)

text \<open>Message types of \<open>n\<close> required boolean fields.\<close>

definition flags_fields :: "nat \<Rightarrow> pb_field_t list" where
  "flags_fields n = map (\<lambda>i. \<lparr>tag = Suc i, ftype = 0, data_offset = 0, size_offset = 0,
     data_size = 1, array_size = 0, fptr = 0\<rparr>) [0..<n]"

lemma nfields_flags: "nfields (flags_fields n) = n"
  by (simp add: nfields_all flags_fields_def)

lemma required_count_flags: "required_count (flags_fields n) = n"
  by (simp add: required_count_def nfields_flags required_before_def)
     (simp add: flags_fields_def PB_HTYPE_def pb_consts comp_def filter_True)

text \<open>
  The array of the sample: its descriptor, the iterator at it for the structure at 200, and
  its elements in memory.
\<close>

definition values_field :: pb_field_t where
  "values_field = field_at sample_fields 1"

definition values_iter :: pb_field_iter_t where
  "values_iter = iter_at sample_fields 200 1"

lemma values_simps [simp]:
  "tag values_field = 2" "ftype values_field = 0x21" "data_offset values_field = 4"
  "size_offset values_field = - 4" "data_size values_field = 4" "array_size values_field = 3"
  "cur values_iter = values_field" "pData values_iter = 208" "pSize values_iter = 204"
  by (simp_all add: values_field_def values_iter_def sample_fields_eq field_at_def
      union_member_def prev_size_def pb_type_defs pb_consts)

lemma sample_image_values:
  "load_bytes sample_mem 108 8 = Some [7, 0, 0, 0, 1, 1, 0, 0]"
  by code_simp

lemma target_mem_values:
  "load_u32 target_mem 204 = Some 0" "allocated target_mem 208 12" "allocated target_mem 204 4"
proof -
  show "load_u32 target_mem 204 = Some 0" by code_simp
  have a: "allocated target_mem 200 36"
    using allocated_image [of 200 "replicate 36 0"] by (simp add: target_mem_def)
  show "allocated target_mem 208 12" by (rule allocated_mono [OF a]) simp_all
  show "allocated target_mem 204 4" by (rule allocated_mono [OF a]) simp_all
qed

lemma sample_decls_ok: "decls_ok sample_decls"
  by (simp add: sample_decls_def decls_ok_def decl_ok_def member_def pb_macro_defs prev_size_def
      pb_membersize_def pb_arraysize_def pb_type_defs pb_consts)

end
