(* ===== verification/Ldb_Coding.thy ===== *)
theory Ldb_Coding
  imports Leb128
begin

text \<open>
  LevelDB's integer and string encodings: util/coding.h and util/coding.cc.  A \<open>Slice\<close> and a
  \<open>std::string\<close> are byte lists; a pointer range \<open>[p, limit)\<close> is the list of the bytes in it,
  and a returned pointer is the list of the bytes behind it.  A \<open>Get\<close> operation returns None
  where the code returns NULL or false.  A read that the code does not check against the end
  of its buffer (\<open>DecodeFixed32\<close>, \<open>DecodeFixed64\<close>) is None when the bytes are not there.

  The lemmas: every \<open>Put\<close> writes \<open>leb\<close> or the little-endian bytes, every \<open>Get\<close> reads them
  back and leaves the rest, and on any input a \<open>Get\<close> takes a prefix of bounded length.
\<close>

type_synonym slice = "byte list"

named_theorems coding_simps "round trips of the LevelDB encodings"

section \<open>Fixed-width integers\<close>

text \<open>port/port_posix.h: the targets of the application are little-endian.\<close>

definition port_kLittleEndian :: bool where
  "port_kLittleEndian = True"

definition EncodeFixed32 :: "u32 \<Rightarrow> byte list" where
  "EncodeFixed32 value =
     (if port_kLittleEndian then le_bytes 4 value
      else [ucast (value AND 0xff), ucast (drop_bit 8 value AND 0xff),
            ucast (drop_bit 16 value AND 0xff), ucast (drop_bit 24 value AND 0xff)])"

definition EncodeFixed64 :: "u64 \<Rightarrow> byte list" where
  "EncodeFixed64 value =
     (if port_kLittleEndian then le_bytes 8 value
      else [ucast (value AND 0xff), ucast (drop_bit 8 value AND 0xff),
            ucast (drop_bit 16 value AND 0xff), ucast (drop_bit 24 value AND 0xff),
            ucast (drop_bit 32 value AND 0xff), ucast (drop_bit 40 value AND 0xff),
            ucast (drop_bit 48 value AND 0xff), ucast (drop_bit 56 value AND 0xff)])"

definition PutFixed32 :: "byte list \<Rightarrow> u32 \<Rightarrow> byte list" where
  "PutFixed32 dst value = dst @ EncodeFixed32 value"

definition PutFixed64 :: "byte list \<Rightarrow> u64 \<Rightarrow> byte list" where
  "PutFixed64 dst value = dst @ EncodeFixed64 value"

definition DecodeFixed32 :: "byte list \<Rightarrow> u32 option" where
  "DecodeFixed32 p =
     (if length p < 4 then None
      else if port_kLittleEndian then Some (of_le (take 4 p))
      else Some (ucast (p ! 0) OR push_bit 8 (ucast (p ! 1)) OR
                 push_bit 16 (ucast (p ! 2)) OR push_bit 24 (ucast (p ! 3))))"

definition DecodeFixed64 :: "byte list \<Rightarrow> u64 option" where
  "DecodeFixed64 p =
     (if length p < 8 then None
      else if port_kLittleEndian then Some (of_le (take 8 p))
      else do { lo \<leftarrow> DecodeFixed32 p; hi \<leftarrow> DecodeFixed32 (drop 4 p);
                Some (push_bit 32 (ucast hi) OR ucast lo) })"

lemma EncodeFixed32_le: "EncodeFixed32 v = le_bytes 4 v"
  by (simp add: EncodeFixed32_def port_kLittleEndian_def)

lemma EncodeFixed64_le: "EncodeFixed64 v = le_bytes 8 v"
  by (simp add: EncodeFixed64_def port_kLittleEndian_def)

lemma length_EncodeFixed [simp]:
  "length (EncodeFixed32 v) = 4" "length (EncodeFixed64 w) = 8"
  by (simp_all add: EncodeFixed32_le EncodeFixed64_le)

lemma DecodeFixed32_Encode [simp, coding_simps]: "DecodeFixed32 (EncodeFixed32 v @ rest) = Some v"
  by (simp add: DecodeFixed32_def EncodeFixed32_le port_kLittleEndian_def)

lemma DecodeFixed64_Encode [simp, coding_simps]: "DecodeFixed64 (EncodeFixed64 v @ rest) = Some v"
  by (simp add: DecodeFixed64_def EncodeFixed64_le port_kLittleEndian_def)

lemmas Decode_Encode_all [simp, coding_simps] =
  DecodeFixed32_Encode [where rest = "[]", simplified]
  DecodeFixed64_Encode [where rest = "[]", simplified]

lemma DecodeFixed32_defined: "DecodeFixed32 p = None \<longleftrightarrow> length p < 4"
  by (simp add: DecodeFixed32_def)

lemma DecodeFixed64_defined: "DecodeFixed64 p = None \<longleftrightarrow> length p < 8"
  by (simp add: DecodeFixed64_def port_kLittleEndian_def)


section \<open>Varints\<close>

definition EncodeVarint32 :: "u32 \<Rightarrow> byte list" where
  "EncodeVarint32 v =
     (if v < push_bit 7 1 then [ucast v]
      else if v < push_bit 14 1 then [ucast (v OR 128), ucast (drop_bit 7 v)]
      else if v < push_bit 21 1
      then [ucast (v OR 128), ucast (drop_bit 7 v OR 128), ucast (drop_bit 14 v)]
      else if v < push_bit 28 1
      then [ucast (v OR 128), ucast (drop_bit 7 v OR 128), ucast (drop_bit 14 v OR 128),
            ucast (drop_bit 21 v)]
      else [ucast (v OR 128), ucast (drop_bit 7 v OR 128), ucast (drop_bit 14 v OR 128),
            ucast (drop_bit 21 v OR 128), ucast (drop_bit 28 v)])"

definition PutVarint32 :: "byte list \<Rightarrow> u32 \<Rightarrow> byte list" where
  "PutVarint32 dst v = dst @ EncodeVarint32 v"

lemma unat_drop_bit_7_less: "128 \<le> (v :: u64) \<Longrightarrow> unat (drop_bit 7 v) < unat v"
  by (simp add: unat_drop_bit_eq word_le_nat_alt) (simp add: drop_bit_eq_div)

function EncodeVarint64 :: "u64 \<Rightarrow> byte list" where
  "EncodeVarint64 v =
     (if v \<ge> 128 then ucast ((v AND (128 - 1)) OR 128) # EncodeVarint64 (drop_bit 7 v)
      else [ucast v])"
  by pat_completeness auto
termination by (relation "measure unat") (auto intro: unat_drop_bit_7_less)

definition PutVarint64 :: "byte list \<Rightarrow> u64 \<Rightarrow> byte list" where
  "PutVarint64 dst v = dst @ EncodeVarint64 v"

text \<open>\<open>value.size()\<close> is passed as a \<open>uint32_t\<close>.\<close>

definition PutLengthPrefixedSlice :: "byte list \<Rightarrow> slice \<Rightarrow> byte list" where
  "PutLengthPrefixedSlice dst value = PutVarint32 dst (of_nat (length value)) @ value"

function VarintLength_loop :: "u64 \<Rightarrow> nat \<Rightarrow> nat" where
  "VarintLength_loop v len =
     (if v \<ge> 128 then VarintLength_loop (drop_bit 7 v) (len + 1) else len)"
  by pat_completeness auto
termination by (relation "measure (\<lambda>(v, len). unat v)") (auto intro: unat_drop_bit_7_less)

definition VarintLength :: "u64 \<Rightarrow> nat" where
  "VarintLength v = VarintLength_loop v 1"

declare EncodeVarint64.simps [simp del] VarintLength_loop.simps [simp del]

fun varint32_ptr_loop :: "nat \<Rightarrow> u32 \<Rightarrow> slice \<Rightarrow> (u32 \<times> slice) option" where
  "varint32_ptr_loop shift result [] = None"
| "varint32_ptr_loop shift result (b # p) =
     (if shift > 28 then None
      else if (ucast b :: u32) AND 128 \<noteq> 0
      then varint32_ptr_loop (shift + 7) (result OR push_bit shift (ucast b AND 127)) p
      else Some (result OR push_bit shift (ucast b), p))"

definition GetVarint32PtrFallback :: "slice \<Rightarrow> (u32 \<times> slice) option" where
  "GetVarint32PtrFallback p = varint32_ptr_loop 0 0 p"

definition GetVarint32Ptr :: "slice \<Rightarrow> (u32 \<times> slice) option" where
  "GetVarint32Ptr p =
     (case p of b # q \<Rightarrow>
        if (ucast b :: u32) AND 128 = 0 then Some (ucast b, q) else GetVarint32PtrFallback p
      | [] \<Rightarrow> GetVarint32PtrFallback p)"

definition GetVarint32 :: "slice \<Rightarrow> (u32 \<times> slice) option" where
  "GetVarint32 input = GetVarint32Ptr input"

fun varint64_ptr_loop :: "nat \<Rightarrow> u64 \<Rightarrow> slice \<Rightarrow> (u64 \<times> slice) option" where
  "varint64_ptr_loop shift result [] = None"
| "varint64_ptr_loop shift result (b # p) =
     (if shift > 63 then None
      else if (ucast b :: u64) AND 128 \<noteq> 0
      then varint64_ptr_loop (shift + 7) (result OR push_bit shift (ucast b AND 127)) p
      else Some (result OR push_bit shift (ucast b), p))"

definition GetVarint64Ptr :: "slice \<Rightarrow> (u64 \<times> slice) option" where
  "GetVarint64Ptr p = varint64_ptr_loop 0 0 p"

definition GetVarint64 :: "slice \<Rightarrow> (u64 \<times> slice) option" where
  "GetVarint64 input = GetVarint64Ptr input"

text \<open>The pointer variant returns the slice and what is behind it.\<close>

definition GetLengthPrefixedSlicePtr :: "slice \<Rightarrow> (slice \<times> slice) option" where
  "GetLengthPrefixedSlicePtr p =
     do { (len, q) \<leftarrow> GetVarint32Ptr p;
          if unat len > length q then None else Some (take (unat len) q, drop (unat len) q) }"

text \<open>
  The \<open>Slice\<close> variant returns whether it succeeded (and then the slice) and the new value of
  \<open>*input\<close>: when the bytes are missing, the length has already been taken from the input.
\<close>

definition GetLengthPrefixedSlice :: "slice \<Rightarrow> slice option \<times> slice" where
  "GetLengthPrefixedSlice input =
     (case GetVarint32 input of None \<Rightarrow> (None, input)
      | Some (len, q) \<Rightarrow>
          if length q \<ge> unat len then (Some (take (unat len) q), drop (unat len) q)
          else (None, q))"


section \<open>The encoders write \<open>leb\<close>\<close>

lemma ucast_or_128:
  "(ucast ((v :: 'a::len word) OR 128) :: byte) = of_nat (unat v mod 128) OR 0x80"
  if "8 \<le> LENGTH('a)"
proof (rule bit_word_eqI)
  fix i assume i: "i < LENGTH(8)"
  have "unat v mod 128 = unat (take_bit 7 v)"
    by (simp only: unsigned_take_bit_eq) (simp add: take_bit_eq_mod)
  then have "(of_nat (unat v mod 128) :: byte) = ucast (take_bit 7 v)" by (metis of_nat_unat)
  moreover have "bit (128 :: 'a word) i \<longleftrightarrow> i = 7"
  proof -
    have "(128 :: 'a word) = 2 ^ 7" by simp
    then show ?thesis using that by (simp only: bit_exp_iff) auto
  qed
  moreover have "bit (0x80 :: byte) i \<longleftrightarrow> i = 7"
  proof -
    have "(128 :: byte) = 2 ^ 7" by simp
    then show ?thesis by (simp only: bit_exp_iff) auto
  qed
  ultimately show "bit (ucast (v OR 128) :: byte) i = bit (of_nat (unat v mod 128) OR 0x80 :: byte) i"
    using i that by (auto simp: bit_simps)
qed

lemma ucast_small_byte:
  "unat (v :: 'a::len word) < 256 \<Longrightarrow> (ucast v :: byte) = of_nat (unat v)"
  by simp

lemma unat_drop_bit_word: "unat (drop_bit k (v :: 'a::len word)) = unat v div 2 ^ k"
  by (simp add: unat_drop_bit_eq) (simp add: drop_bit_eq_div)

lemma div_128_128: "(n :: nat) div 2 ^ k div 128 = n div 2 ^ (k + 7)"
  by (simp add: div_mult2_eq [symmetric] power_add)

lemma EncodeVarint32_leb: "EncodeVarint32 v = leb (unat v)"
proof -
  let ?n = "unat v"
  have step: "leb (?n div 2 ^ k) = ucast (drop_bit k v OR 128) # leb (?n div 2 ^ (k + 7))"
    if "\<not> ?n < 2 ^ (k + 7)" for k
  proof -
    have "128 \<le> ?n div 2 ^ k" using that by (simp add: less_eq_div_iff_mult_less_eq power_add)
    then show ?thesis by (simp add: leb_big ucast_or_128 unat_drop_bit_word div_128_128)
  qed
  have final: "leb (?n div 2 ^ k) = [ucast (drop_bit k v)]" if "?n < 2 ^ (k + 7)" for k
  proof -
    have "?n div 2 ^ k < 128" using that by (simp add: less_mult_imp_div_less power_add mult.commute)
    then show ?thesis by (simp add: leb_small unat_drop_bit_word [symmetric])
  qed
  have "?n < 2 ^ 32" using unsigned_less [of v] by simp
  then show ?thesis
    using step [of 0] step [of 7] step [of 14] step [of 21]
      final [of 0] final [of 7] final [of 14] final [of 21] final [of 28]
    by (simp add: EncodeVarint32_def word_less_nat_alt)
qed

lemma u64_ge_128: "128 \<le> (v :: u64) \<longleftrightarrow> 128 \<le> unat v"
  by (simp add: word_le_nat_alt)

lemma EncodeVarint64_leb: "EncodeVarint64 v = leb (unat v)"
proof (induction v rule: EncodeVarint64.induct)
  case (1 v)
  have "v AND (128 - 1) = take_bit 7 v" by (simp add: take_bit_eq_mask mask_eq_exp_minus_1)
  moreover have "unat (take_bit 7 v) = unat v mod 128"
    by (simp only: unsigned_take_bit_eq) (simp add: take_bit_eq_mod)
  ultimately have m: "(ucast ((v AND (128 - 1)) OR 128) :: byte) = ucast (v OR 128)"
    by (simp only: ucast_or_128 [where 'a = 64, simplified] mod_mod_trivial)
  show ?case
  proof (cases "128 \<le> v")
    case True
    then have "leb (unat v) = ucast (v OR 128) # leb (unat (drop_bit 7 v))"
      by (simp add: leb_big u64_ge_128 ucast_or_128 unat_drop_bit_word)
    with True 1 show ?thesis by (subst EncodeVarint64.simps) (simp only: m if_True)
  next
    case False
    then show ?thesis by (subst EncodeVarint64.simps) (simp add: leb_small u64_ge_128)
  qed
qed

lemma VarintLength_loop_leb: "VarintLength_loop v n + 1 = n + length (leb (unat v))"
proof (induction v n rule: VarintLength_loop.induct)
  case (1 v n)
  then show ?case
    by (subst VarintLength_loop.simps)
       (auto simp: leb_big leb_small u64_ge_128 unat_drop_bit_word)
qed

lemma VarintLength_leb: "VarintLength v = length (leb (unat v))"
  using VarintLength_loop_leb [of v 1] by (simp add: VarintLength_def)


section \<open>The decoders read it back\<close>

lemma ucast_and_128: "(ucast b :: 'a::len word) AND 128 = 0 \<longleftrightarrow> \<not> bit (b :: byte) 7" if "8 \<le> LENGTH('a)"
proof -
  have "bit (ucast b :: 'a word) 7 \<longleftrightarrow> bit b 7" using that by (simp add: bit_simps)
  then show ?thesis using and_exp_eq_0_iff_not_bit [of "ucast b :: 'a word" 7] by simp
qed

lemma of_nat_and_128: "n < 128 \<Longrightarrow> (of_nat n :: 'a::len word) AND 128 = 0" if "8 \<le> LENGTH('a)"
  using that of_nat_small_not_bit7(1) [of n] ucast_and_128 [of "of_nat n", where 'a = 'a]
  by (simp add: ucast_of_nat_byte)

lemma ucast_and_127_byte: "(ucast (b :: byte) :: 'a::len word) AND 127 = ucast (b AND 0x7F)"
proof -
  have "(127 :: 'a word) = mask 7" "(127 :: byte) = mask 7" by (simp_all add: mask_eq_exp_minus_1)
  then show ?thesis by (simp only: take_bit_eq_mask [symmetric]) (rule bit_word_eqI, auto simp: bit_simps)
qed

lemma varint32_ptr_loop_leb:
  assumes "b < 32" and "n < 2 ^ (32 - b)" and "7 dvd b"
  shows "varint32_ptr_loop b r (leb n @ ys) = Some (r OR push_bit b (of_nat n), ys)"
  using assms
proof (induction n arbitrary: b r rule: leb.induct)
  case (1 n)
  have b: "b \<le> 28" using "1.prems"(1,3) by (auto elim!: dvdE)
  show ?case
  proof (cases "n < 128")
    case True
    with b show ?thesis
      by (simp add: leb_small ucast_of_nat_byte of_nat_and_128)
  next
    case False
    with digits_left [of n 32 b] "1.prems"
    have "b + 7 < 32" "n div 128 < 2 ^ (32 - (b + 7))" "7 dvd b + 7" by auto
    with "1.IH" [OF False] False b show ?thesis
      by (simp add: leb_big ucast_and_128 of_nat_or_128(2) ucast_and_127_byte digit_step or.assoc)
  qed
qed

lemma varint64_ptr_loop_leb:
  assumes "b < 64" and "n < 2 ^ (64 - b)" and "7 dvd b"
  shows "varint64_ptr_loop b r (leb n @ ys) = Some (r OR push_bit b (of_nat n), ys)"
  using assms
proof (induction n arbitrary: b r rule: leb.induct)
  case (1 n)
  have b: "b \<le> 63" using "1.prems"(1) by simp
  show ?case
  proof (cases "n < 128")
    case True
    with b show ?thesis
      by (simp add: leb_small ucast_of_nat_byte of_nat_and_128)
  next
    case False
    with digits_left [of n 64 b] "1.prems"
    have "b + 7 < 64" "n div 128 < 2 ^ (64 - (b + 7))" "7 dvd b + 7" by auto
    with "1.IH" [OF False] False b show ?thesis
      by (simp add: leb_big ucast_and_128 of_nat_or_128(2) ucast_and_127_byte digit_step or.assoc)
  qed
qed

lemma GetVarint32_leb [coding_simps]: "n < 2 ^ 32 \<Longrightarrow> GetVarint32 (leb n @ ys) = Some (of_nat n, ys)"
proof (cases "n < 128")
  case True
  then show ?thesis
    by (simp add: GetVarint32_def GetVarint32Ptr_def leb_small ucast_of_nat_byte of_nat_and_128)
next
  case False
  assume "n < 2 ^ 32"
  with False varint32_ptr_loop_leb [of 0 n 0 ys] show ?thesis
    by (simp add: GetVarint32_def GetVarint32Ptr_def GetVarint32PtrFallback_def leb_big
        ucast_and_128 of_nat_or_128)
qed

lemma GetVarint64_leb [coding_simps]: "n < 2 ^ 64 \<Longrightarrow> GetVarint64 (leb n @ ys) = Some (of_nat n, ys)"
  using varint64_ptr_loop_leb [of 0 n 0 ys] by (simp add: GetVarint64_def GetVarint64Ptr_def)

lemma GetVarint32_Encode [simp, coding_simps]: "GetVarint32 (EncodeVarint32 v @ ys) = Some (v, ys)"
proof -
  have "unat v < 2 ^ LENGTH(32)" by (rule unsigned_less)
  then show ?thesis by (simp add: EncodeVarint32_leb GetVarint32_leb)
qed

lemma GetVarint64_Encode [simp, coding_simps]: "GetVarint64 (EncodeVarint64 v @ ys) = Some (v, ys)"
proof -
  have "unat v < 2 ^ LENGTH(64)" by (rule unsigned_less)
  then show ?thesis by (simp add: EncodeVarint64_leb GetVarint64_leb)
qed

lemma GetLengthPrefixedSlice_Put [simp, coding_simps]:
  "length v < 2 ^ 32 \<Longrightarrow>
    GetLengthPrefixedSlice (PutLengthPrefixedSlice [] v @ ys) = (Some v, ys)"
  by (simp add: GetLengthPrefixedSlice_def PutLengthPrefixedSlice_def PutVarint32_def unat_of_nat)

lemma Put_append:
  "PutLengthPrefixedSlice dst v = dst @ PutLengthPrefixedSlice [] v"
  "PutVarint32 dst w = dst @ PutVarint32 [] w" "PutVarint64 dst x = dst @ PutVarint64 [] x"
  by (simp_all add: PutLengthPrefixedSlice_def PutVarint32_def PutVarint64_def)


section \<open>Any input: a prefix of bounded length is taken\<close>

lemma varint32_ptr_loop_prefix:
  "varint32_ptr_loop b r p = Some (v, q) \<Longrightarrow>
    \<exists>pre. p = pre @ q \<and> pre \<noteq> [] \<and> 7 * length pre + b \<le> 35"
proof (induction b r p rule: varint32_ptr_loop.induct)
  case (2 b r x p)
  show ?case
  proof (cases "(ucast x :: u32) AND 128 = 0")
    case True
    then have "b \<le> 28" "q = p" using 2 by (auto split: if_splits)
    then show ?thesis by (intro exI [of _ "[x]"]) simp
  next
    case False
    with 2 obtain pre where "p = pre @ q" "7 * length pre + (b + 7) \<le> 35"
      by (fastforce split: if_splits)
    then show ?thesis by (intro exI [of _ "x # pre"]) simp
  qed
qed simp

lemma varint64_ptr_loop_prefix:
  "varint64_ptr_loop b r p = Some (v, q) \<Longrightarrow>
    \<exists>pre. p = pre @ q \<and> pre \<noteq> [] \<and> 7 * length pre + b \<le> 70"
proof (induction b r p rule: varint64_ptr_loop.induct)
  case (2 b r x p)
  show ?case
  proof (cases "(ucast x :: u64) AND 128 = 0")
    case True
    then have "b \<le> 63" "q = p" using 2 by (auto split: if_splits)
    then show ?thesis by (intro exI [of _ "[x]"]) simp
  next
    case False
    with 2 obtain pre where "p = pre @ q" "7 * length pre + (b + 7) \<le> 70"
      by (fastforce split: if_splits)
    then show ?thesis by (intro exI [of _ "x # pre"]) simp
  qed
qed simp

lemma GetVarint32_prefix:
  assumes "GetVarint32 p = Some (v, q)"
  shows "\<exists>pre. p = pre @ q \<and> pre \<noteq> [] \<and> length pre \<le> 5"
proof -
  have "\<exists>pre. p = pre @ q \<and> pre \<noteq> [] \<and> length pre \<le> 5" if "GetVarint32PtrFallback p = Some (v, q)"
    using varint32_ptr_loop_prefix [of 0 0 p v q] that by (auto simp: GetVarint32PtrFallback_def)
  with assms show ?thesis
    by (cases p) (auto simp: GetVarint32_def GetVarint32Ptr_def split: if_splits intro: exI [of _ "[hd p]"])
qed

lemma GetVarint64_prefix:
  assumes "GetVarint64 p = Some (v, q)"
  shows "\<exists>pre. p = pre @ q \<and> pre \<noteq> [] \<and> length pre \<le> 10"
  using varint64_ptr_loop_prefix [of 0 0 p v q] assms by (auto simp: GetVarint64_def GetVarint64Ptr_def)

lemma GetVarint_shorter:
  "GetVarint32 p = Some (v, q) \<Longrightarrow> length q < length p"
  "GetVarint64 p = Some (w, q) \<Longrightarrow> length q < length p"
  using GetVarint32_prefix GetVarint64_prefix by fastforce+

lemma GetLengthPrefixedSlice_shorter:
  "GetLengthPrefixedSlice p = (Some s, q) \<Longrightarrow> length s + length q < length p"
  using GetVarint_shorter(1)
  by (auto simp: GetLengthPrefixedSlice_def split: option.splits if_splits)

lemma GetLengthPrefixedSlice_Ptr:
  "GetLengthPrefixedSlicePtr p = Some (s, q) \<longleftrightarrow> GetLengthPrefixedSlice p = (Some s, q)"
  by (cases "GetVarint32Ptr p")
     (auto simp: GetLengthPrefixedSlicePtr_def GetLengthPrefixedSlice_def GetVarint32_def split: if_splits)

end
