(* ===== verification/Ldb_Comparator.thy ===== *)
theory Ldb_Comparator
  imports Ldb_Coding
begin

text \<open>
  Slices and comparators: include/leveldb/slice.h, include/leveldb/comparator.h and
  util/comparator.cc.

  A comparator is the record of its virtual methods.  A method returns None where the code
  has no defined behaviour, as the internal key comparator has on keys shorter than eight
  bytes.  \<open>key_order\<close> is the contract of \<open>Compare\<close> on a set of valid keys, \<open>separating\<close>
  the one of the two shortening methods; both are the comments of comparator.h.  They are
  interpreted on the bytewise comparator here and on the internal key comparator in the
  theory of dbformat.
\<close>

section \<open>Slices\<close>

text \<open>\<open>memcmp\<close> on two areas of the same length: the sign of the first difference.\<close>

fun memcmp :: "byte list \<Rightarrow> byte list \<Rightarrow> int" where
  "memcmp (x # xs) (y # ys) = (if x = y then memcmp xs ys else if x < y then - 1 else 1)"
| "memcmp _ _ = 0"

definition slice_compare :: "slice \<Rightarrow> slice \<Rightarrow> int" where
  "slice_compare a b =
     (let min_len = (if length a < length b then length a else length b);
          r = memcmp (take min_len a) (take min_len b)
      in if r = 0
         then (if length a < length b then - 1 else if length a > length b then 1 else r)
         else r)"

definition slice_eq :: "slice \<Rightarrow> slice \<Rightarrow> bool" where
  "slice_eq x y \<longleftrightarrow> length x = length y \<and> memcmp x y = 0"

definition starts_with :: "slice \<Rightarrow> slice \<Rightarrow> bool" where
  "starts_with s x \<longleftrightarrow> length s \<ge> length x \<and> memcmp (take (length x) s) x = 0"

text \<open>\<open>remove_prefix\<close> asserts that the bytes are there.\<close>

definition remove_prefix :: "slice \<Rightarrow> nat \<Rightarrow> slice option" where
  "remove_prefix s n = (if n \<le> length s then Some (drop n s) else None)"

lemma memcmp_0_iff: "length x = length y \<Longrightarrow> memcmp x y = 0 \<longleftrightarrow> x = y"
  by (induction x y rule: list_induct2) auto

lemma slice_eq_iff [simp]: "slice_eq x y \<longleftrightarrow> x = y"
  by (auto simp: slice_eq_def memcmp_0_iff)

lemma starts_with_iff: "starts_with s x \<longleftrightarrow> (\<exists>t. s = x @ t)"
  by (auto simp: starts_with_def memcmp_0_iff) (metis append_take_drop_id)

lemma slice_compare_simps [simp]:
  "slice_compare [] [] = 0" "slice_compare [] (y # ys) = - 1" "slice_compare (x # xs) [] = 1"
  "slice_compare (x # xs) (y # ys) =
    (if x = y then slice_compare xs ys else if x < y then - 1 else 1)"
  by (auto simp: slice_compare_def Let_def)

lemma slice_compare_induct:
  assumes "P [] []" "\<And>y ys. P [] (y # ys)" "\<And>x xs. P (x # xs) []"
    and "\<And>x y xs ys. (x = y \<Longrightarrow> P xs ys) \<Longrightarrow> P (x # xs) (y # ys)"
  shows "P (a :: byte list) (b :: byte list)"
proof (induction a arbitrary: b)
  case Nil
  then show ?case using assms by (cases b) auto
next
  case (Cons x xs)
  then show ?case using assms by (cases b) auto
qed

lemma slice_compare_range: "slice_compare a b = - 1 \<or> slice_compare a b = 0 \<or> slice_compare a b = 1"
  by (induction a b rule: slice_compare_induct) auto

lemma slice_compare_0 [simp]: "slice_compare a b = 0 \<longleftrightarrow> a = b"
  by (induction a b rule: slice_compare_induct) auto

lemma slice_compare_self [simp]: "slice_compare a a = 0"
  by simp

lemma slice_compare_flip: "slice_compare b a = - slice_compare a b"
  by (induction a b rule: slice_compare_induct) (auto simp: not_less order.order_iff_strict)

lemma slice_compare_trans:
  "slice_compare a b < 0 \<Longrightarrow> slice_compare b c < 0 \<Longrightarrow> slice_compare a c < 0"
proof (induction a b arbitrary: c rule: slice_compare_induct)
  case (2 y ys)
  then show ?case by (cases c) auto
next
  case (4 x y xs ys)
  then show ?case by (cases c) (auto split: if_splits)
qed auto

lemma slice_compare_common [simp]: "slice_compare (p @ a) (p @ b) = slice_compare a b"
  by (induction p) auto


section \<open>The interface\<close>

record comparator =
  cmp_Name :: string
  Compare :: "slice \<Rightarrow> slice \<Rightarrow> int option"
  FindShortestSeparator :: "slice \<Rightarrow> slice \<Rightarrow> slice option"
  FindShortSuccessor :: "slice \<Rightarrow> slice option"

locale weak_order =
  fixes cmp :: "'k \<Rightarrow> 'k \<Rightarrow> int option" and valid :: "'k set"
  assumes defined: "a \<in> valid \<Longrightarrow> b \<in> valid \<Longrightarrow> \<exists>r. cmp a b = Some r"
    and same: "a \<in> valid \<Longrightarrow> cmp a a = Some 0"
    and flip: "a \<in> valid \<Longrightarrow> b \<in> valid \<Longrightarrow> cmp a b = Some r \<Longrightarrow> r < 0 \<Longrightarrow>
      \<exists>r' > 0. cmp b a = Some r'"
    and flip_pos: "a \<in> valid \<Longrightarrow> b \<in> valid \<Longrightarrow> cmp a b = Some r \<Longrightarrow> 0 < r \<Longrightarrow>
      \<exists>r' < 0. cmp b a = Some r'"
    and trans: "a \<in> valid \<Longrightarrow> b \<in> valid \<Longrightarrow> c \<in> valid \<Longrightarrow>
      cmp a b = Some r \<Longrightarrow> r \<le> 0 \<Longrightarrow> cmp b c = Some s \<Longrightarrow> s \<le> 0 \<Longrightarrow>
      \<exists>t \<le> 0. cmp a c = Some t"
begin

definition lt :: "'k \<Rightarrow> 'k \<Rightarrow> bool" where
  "lt a b \<longleftrightarrow> (\<exists>r < 0. cmp a b = Some r)"

definition le :: "'k \<Rightarrow> 'k \<Rightarrow> bool" where
  "le a b \<longleftrightarrow> (\<exists>r \<le> 0. cmp a b = Some r)"

lemma lt_irrefl [simp]: "a \<in> valid \<Longrightarrow> \<not> lt a a"
  using same [of a] by (auto simp: lt_def)

lemma le_refl [simp]: "a \<in> valid \<Longrightarrow> le a a"
  using same [of a] by (auto simp: le_def)

lemma lt_imp_le: "lt a b \<Longrightarrow> le a b"
  by (auto simp: lt_def le_def intro: less_imp_le)

lemma le_trans: "le a b \<Longrightarrow> le b c \<Longrightarrow> a \<in> valid \<Longrightarrow> b \<in> valid \<Longrightarrow> c \<in> valid \<Longrightarrow> le a c"
  unfolding le_def using trans by blast

lemma not_lt: "a \<in> valid \<Longrightarrow> b \<in> valid \<Longrightarrow> \<not> lt a b \<longleftrightarrow> le b a"
proof -
  assume v: "a \<in> valid" "b \<in> valid"
  from defined [OF v] obtain r where r: "cmp a b = Some r" ..
  consider "r < 0" | "r = 0" | "0 < r" by linarith
  then show ?thesis
  proof cases
    case 1
    with flip [OF v r] r show ?thesis by (auto simp: lt_def le_def)
  next
    case 2
    from defined [OF v(2,1)] obtain r' where r': "cmp b a = Some r'" ..
    have "\<not> 0 < r'" using flip_pos [OF v(2,1) r'] r 2 by auto
    with r r' 2 show ?thesis by (auto simp: lt_def le_def)
  next
    case 3
    with flip_pos [OF v r] r show ?thesis by (auto simp: lt_def le_def)
  qed
qed

lemma not_le: "a \<in> valid \<Longrightarrow> b \<in> valid \<Longrightarrow> \<not> le a b \<longleftrightarrow> lt b a"
  using not_lt [of b a] by blast

lemma lt_asym: "lt a b \<Longrightarrow> a \<in> valid \<Longrightarrow> b \<in> valid \<Longrightarrow> \<not> lt b a"
  using not_lt [of b a] lt_imp_le by blast

lemma le_lt_trans: "le a b \<Longrightarrow> lt b c \<Longrightarrow> a \<in> valid \<Longrightarrow> b \<in> valid \<Longrightarrow> c \<in> valid \<Longrightarrow> lt a c"
  using not_le [of c a] not_le [of c b] le_trans [of c a b] by blast

lemma lt_le_trans: "lt a b \<Longrightarrow> le b c \<Longrightarrow> a \<in> valid \<Longrightarrow> b \<in> valid \<Longrightarrow> c \<in> valid \<Longrightarrow> lt a c"
  using not_le [of c a] not_le [of b a] le_trans [of b c a] by blast

lemma lt_trans: "lt a b \<Longrightarrow> lt b c \<Longrightarrow> a \<in> valid \<Longrightarrow> b \<in> valid \<Longrightarrow> c \<in> valid \<Longrightarrow> lt a c"
  using le_lt_trans [of a b c] lt_imp_le [of a b] by blast

lemma cmp_cases:
  assumes "a \<in> valid" "b \<in> valid"
  obtains r where "cmp a b = Some r" "r < 0 \<longleftrightarrow> lt a b" "r = 0 \<longleftrightarrow> le a b \<and> le b a"
    "0 < r \<longleftrightarrow> lt b a"
proof -
  from defined [OF assms] obtain r where r: "cmp a b = Some r" ..
  moreover have l: "r < 0 \<longleftrightarrow> lt a b" using r by (auto simp: lt_def)
  moreover have g: "0 < r \<longleftrightarrow> lt b a"
    using flip_pos [OF assms r] flip [OF assms(2,1)] r by (auto simp: lt_def)
  moreover have "r = 0 \<longleftrightarrow> le a b \<and> le b a"
    using l g not_lt [OF assms] not_lt [OF assms(2,1)] by linarith
  ultimately show ?thesis using that by blast
qed

end

text \<open>A total order: only equal keys compare as equal.\<close>

locale key_order = weak_order +
  assumes equal: "a \<in> valid \<Longrightarrow> b \<in> valid \<Longrightarrow> cmp a b = Some 0 \<Longrightarrow> a = b"
begin

lemma le_iff: "a \<in> valid \<Longrightarrow> b \<in> valid \<Longrightarrow> le a b \<longleftrightarrow> lt a b \<or> a = b"
  using equal [of a b] same [of a] by (auto simp: le_def lt_def le_less)

lemma eq_cases:
  assumes "a \<in> valid" "b \<in> valid"
  obtains r where "cmp a b = Some r" "r < 0 \<longleftrightarrow> lt a b" "r = 0 \<longleftrightarrow> a = b" "0 < r \<longleftrightarrow> lt b a"
proof -
  obtain r where "cmp a b = Some r" "r < 0 \<longleftrightarrow> lt a b" "0 < r \<longleftrightarrow> lt b a"
    using cmp_cases [OF assms] by blast
  moreover from this have "r = 0 \<longleftrightarrow> a = b" using equal [OF assms] same [OF assms(1)] by auto
  ultimately show ?thesis using that by blast
qed

end

locale separating = key_order "Compare c" valid for c :: comparator and valid :: "slice set" +
  assumes separator: "s \<in> valid \<Longrightarrow> l \<in> valid \<Longrightarrow> lt s l \<Longrightarrow>
      \<exists>t \<in> valid. FindShortestSeparator c s l = Some t \<and> le s t \<and> lt t l"
    and successor: "k \<in> valid \<Longrightarrow> \<exists>t \<in> valid. FindShortSuccessor c k = Some t \<and> le k t"

text \<open>
  comparator.h says nothing of a separator of a key and itself, but the internal key
  comparator asks for one when two internal keys have the same user key: it relies on an
  answer that is not larger.
\<close>

locale separating_same = separating +
  assumes separator_same: "s \<in> valid \<Longrightarrow>
      \<exists>t \<in> valid. FindShortestSeparator c s s = Some t \<and> le t s"


section \<open>The bytewise comparator\<close>

function diff_index_loop :: "nat \<Rightarrow> nat \<Rightarrow> slice \<Rightarrow> slice \<Rightarrow> nat" where
  "diff_index_loop min_length diff_index start limit =
     (if diff_index < min_length \<and> start ! diff_index = limit ! diff_index
      then diff_index_loop min_length (diff_index + 1) start limit else diff_index)"
  by pat_completeness auto
termination by (relation "measure (\<lambda>(n, d, s, l). n - d)") auto

declare diff_index_loop.simps [simp del]

definition bytewise_FindShortestSeparator :: "slice \<Rightarrow> slice \<Rightarrow> slice" where
  "bytewise_FindShortestSeparator start limit =
     (let min_length = min (length start) (length limit);
          diff_index = diff_index_loop min_length 0 start limit
      in if diff_index \<ge> min_length then start
         else let diff_byte = start ! diff_index in
           if diff_byte < 0xff \<and> unat diff_byte + 1 < unat (limit ! diff_index)
           then take (diff_index + 1) (start[diff_index := diff_byte + 1])
           else start)"

fun successor_loop :: "nat \<Rightarrow> nat \<Rightarrow> slice \<Rightarrow> slice" where
  "successor_loop 0 i key = key"
| "successor_loop (Suc n) i key =
     (let byte = key ! i in
      if byte \<noteq> 0xff then take (i + 1) (key[i := byte + 1])
      else successor_loop n (i + 1) key)"

definition bytewise_FindShortSuccessor :: "slice \<Rightarrow> slice" where
  "bytewise_FindShortSuccessor key = successor_loop (length key) 0 key"

definition BytewiseComparator :: comparator where
  "BytewiseComparator =
     \<lparr>cmp_Name = ''leveldb.BytewiseComparator'',
      Compare = (\<lambda>a b. Some (slice_compare a b)),
      FindShortestSeparator = (\<lambda>s l. Some (bytewise_FindShortestSeparator s l)),
      FindShortSuccessor = (\<lambda>k. Some (bytewise_FindShortSuccessor k))\<rparr>"

text \<open>The loop stops at the end of the common prefix.\<close>

lemma diff_index_loop_spec:
  assumes "i \<le> n" and "take i s = take i l" and "n \<le> length s" and "n \<le> length l"
  shows "let d = diff_index_loop n i s l in
    d \<le> n \<and> take d s = take d l \<and> (d < n \<longrightarrow> s ! d \<noteq> l ! d)"
  using assms
proof (induction n i s l rule: diff_index_loop.induct)
  case (1 n i s l)
  show ?case
  proof (cases "i < n \<and> s ! i = l ! i")
    case True
    then have "take (i + 1) s = take (i + 1) l" using 1 by (simp add: take_Suc_conv_app_nth)
    with 1 True show ?thesis by (subst diff_index_loop.simps) simp
  next
    case False
    with 1 show ?thesis by (subst diff_index_loop.simps) (auto simp: Let_def)
  qed
qed

text \<open>
  The separator is the start key itself, or the common prefix and one byte that lies
  strictly between the two bytes that differ.
\<close>

lemma separator_cases:
  obtains "bytewise_FindShortestSeparator s l = s"
  | p x y s' l' where "s = p @ x # s'" "l = p @ y # l'" "unat x + 1 < unat y"
      "bytewise_FindShortestSeparator s l = p @ [x + 1]"
proof -
  let ?n = "min (length s) (length l)"
  let ?d = "diff_index_loop ?n 0 s l"
  have d: "?d \<le> ?n" "take ?d s = take ?d l"
    using diff_index_loop_spec [of 0 ?n s l] by (simp_all add: Let_def)
  show ?thesis
  proof (cases "?d < ?n \<and> s ! ?d < 0xff \<and> unat (s ! ?d) + 1 < unat (l ! ?d)")
    case True
    then have "s = take ?d s @ s ! ?d # drop (Suc ?d) s" "l = take ?d s @ l ! ?d # drop (Suc ?d) l"
      unfolding d(2) by (metis d(2) id_take_nth_drop min_less_iff_conj)+
    moreover have "bytewise_FindShortestSeparator s l = take ?d s @ [s ! ?d + 1]"
    proof -
      from True have "\<not> ?n \<le> ?d" "?d < length s" by auto
      with True show ?thesis
        by (simp only: bytewise_FindShortestSeparator_def Let_def if_False if_True)
           (simp add: take_Suc_conv_app_nth)
    qed
    ultimately show ?thesis using True that(2) by blast
  next
    case False
    then have "bytewise_FindShortestSeparator s l = s"
      by (auto simp: bytewise_FindShortestSeparator_def Let_def)
    then show ?thesis by (rule that(1))
  qed
qed

lemma byte_inc_less: "(x :: byte) \<noteq> 0xff \<Longrightarrow> x < x + 1"
proof -
  assume "x \<noteq> 0xff"
  moreover have "(0xff :: byte) = - 1" by simp
  ultimately have "1 + x \<noteq> 0" by (metis add.commute eq_neg_iff_add_eq_0)
  then have "unat (1 + x) = Suc (unat x)" by (rule unatSuc)
  then show ?thesis by (simp add: word_less_nat_alt add.commute)
qed

lemma successor_loop_spec:
  assumes "i + n = length key"
  shows "slice_compare key (successor_loop n i key) \<le> 0 \<and> length (successor_loop n i key) \<le> length key"
  using assms
proof (induction n i key rule: successor_loop.induct)
  case (2 n i key)
  show ?case
  proof (cases "key ! i = 0xff")
    case False
    have "key = take i key @ key ! i # drop (Suc i) key"
      using "2.prems" by (simp add: id_take_nth_drop)
    moreover have "successor_loop (Suc n) i key = take i key @ [key ! i + 1]"
      using False "2.prems" by (simp add: Let_def take_Suc_conv_app_nth)
    moreover have "slice_compare (key ! i # drop (Suc i) key) [key ! i + 1] = - 1"
      using byte_inc_less [OF False] by simp
    ultimately have "slice_compare key (successor_loop (Suc n) i key) = - 1"
      by (metis slice_compare_common)
    with "2.prems" False show ?thesis by (simp add: Let_def)
  next
    case True
    with 2 show ?thesis by (simp add: Let_def)
  qed
qed simp

lemma bytewise_separator:
  assumes "slice_compare s l < 0"
  shows "slice_compare s (bytewise_FindShortestSeparator s l) \<le> 0"
    and "slice_compare (bytewise_FindShortestSeparator s l) l < 0"
    and "length (bytewise_FindShortestSeparator s l) \<le> length s"
proof -
  have "slice_compare s (bytewise_FindShortestSeparator s l) \<le> 0 \<and>
    slice_compare (bytewise_FindShortestSeparator s l) l < 0 \<and>
    length (bytewise_FindShortestSeparator s l) \<le> length s"
  proof (cases rule: separator_cases [of s l])
    case 1
    with assms show ?thesis by simp
  next
    case (2 p x y s' l')
    have x: "x \<noteq> 0xff"
    proof
      assume "x = 0xff"
      then have "unat x = 255" by simp
      moreover have "unat y < 2 ^ LENGTH(8)" by (rule unsigned_less)
      ultimately show False using 2(3) by simp
    qed
    have "unat y < 2 ^ LENGTH(8)" by (rule unsigned_less)
    then have "unat (x + 1) = unat x + 1" using 2(3) by (simp add: unat_word_ariths)
    with 2(3) have "x + 1 < y" by (simp add: word_less_nat_alt)
    moreover from this have "x + 1 \<noteq> y" by auto
    moreover from 2(3) have "x < y" "x \<noteq> y" by (auto simp: word_less_nat_alt)
    ultimately show ?thesis using byte_inc_less [OF x] 2 by simp
  qed
  then show "slice_compare s (bytewise_FindShortestSeparator s l) \<le> 0"
    and "slice_compare (bytewise_FindShortestSeparator s l) l < 0"
    and "length (bytewise_FindShortestSeparator s l) \<le> length s" by blast+
qed

lemma BytewiseComparator_Compare: "Compare BytewiseComparator a b = Some (slice_compare a b)"
  by (simp add: BytewiseComparator_def)

interpretation bytewise_order: key_order "Compare BytewiseComparator" UNIV
proof unfold_locales
  fix a b c :: slice and r s :: int
  show "Compare BytewiseComparator a b = Some r \<Longrightarrow> r < 0 \<Longrightarrow>
      \<exists>r' > 0. Compare BytewiseComparator b a = Some r'"
    and "Compare BytewiseComparator a b = Some r \<Longrightarrow> 0 < r \<Longrightarrow>
      \<exists>r' < 0. Compare BytewiseComparator b a = Some r'"
    using slice_compare_flip [of b a] by (auto simp: BytewiseComparator_Compare)
  show "Compare BytewiseComparator a b = Some r \<Longrightarrow> r \<le> 0 \<Longrightarrow>
      Compare BytewiseComparator b c = Some s \<Longrightarrow> s \<le> 0 \<Longrightarrow>
      \<exists>t \<le> 0. Compare BytewiseComparator a c = Some t"
    using slice_compare_trans [of a b c]
    by (auto simp: BytewiseComparator_Compare order.order_iff_strict)
qed (auto simp: BytewiseComparator_Compare)

lemma bytewise_separator_same: "bytewise_FindShortestSeparator s s = s"
  by (cases rule: separator_cases [of s s]) auto

interpretation bytewise: separating_same BytewiseComparator UNIV
proof unfold_locales
  fix s l :: slice
  assume "bytewise_order.lt s l"
  then have "slice_compare s l < 0" by (simp add: bytewise_order.lt_def BytewiseComparator_Compare)
  from bytewise_separator [OF this]
  show "\<exists>t \<in> UNIV. FindShortestSeparator BytewiseComparator s l = Some t \<and>
      bytewise_order.le s t \<and> bytewise_order.lt t l"
    by (simp add: bytewise_order.lt_def bytewise_order.le_def BytewiseComparator_Compare)
       (simp add: BytewiseComparator_def)
next
  fix k :: slice
  show "\<exists>t \<in> UNIV. FindShortSuccessor BytewiseComparator k = Some t \<and> bytewise_order.le k t"
    using successor_loop_spec [of 0 "length k" k]
    by (simp add: bytewise_order.le_def BytewiseComparator_Compare)
       (simp add: BytewiseComparator_def bytewise_FindShortSuccessor_def)
  show "\<exists>t \<in> UNIV. FindShortestSeparator BytewiseComparator k k = Some t \<and> bytewise_order.le t k"
    by (simp add: bytewise_order.le_def BytewiseComparator_Compare)
       (simp add: BytewiseComparator_def bytewise_separator_same)
qed

end
