(* ===== verification/Ldb_Random.thy ===== *)
theory Ldb_Random
  imports Prelude
begin

text \<open>
  The pseudo-random generator of util/random.h: its state is the seed.  The two-step
  reduction of the code computes \<open>seed * 16807 mod (2 ^ 31 - 1)\<close>, and from a good seed it
  never reaches one of the two bad ones.
\<close>

definition Random :: "u32 \<Rightarrow> u32" where
  "Random s =
     (let seed = s AND 0x7fffffff in if seed = 0 \<or> seed = 2147483647 then 1 else seed)"

definition random_Next :: "u32 \<Rightarrow> u32" where
  "random_Next seed =
     (let M = 2147483647 :: u32;
          A = 16807 :: u64;
          product = ucast seed * A;
          seed1 = ucast (drop_bit 31 product + (product AND ucast M)) :: u32
      in if seed1 > M then seed1 - M else seed1)"

text \<open>The results are the number drawn and the new seed.\<close>

definition random_Uniform :: "u32 \<Rightarrow> u32 \<Rightarrow> u32 \<times> u32" where
  "random_Uniform seed n = (let s = random_Next seed in (s mod n, s))"

definition random_OneIn :: "u32 \<Rightarrow> u32 \<Rightarrow> bool \<times> u32" where
  "random_OneIn seed n = (let s = random_Next seed in (s mod n = 0, s))"

definition random_Skewed :: "u32 \<Rightarrow> nat \<Rightarrow> u32 \<times> u32" where
  "random_Skewed seed max_log =
     (let (b, s1) = random_Uniform seed (of_nat max_log + 1)
      in random_Uniform s1 (push_bit (unat b) 1))"

definition good_seed :: "u32 \<Rightarrow> bool" where
  "good_seed s \<longleftrightarrow> 0 < unat s \<and> unat s < 2147483647"

lemma unat_ucast_64: "unat (ucast (s :: u32) :: u64) = unat s"
proof -
  have "unat s < 2 ^ LENGTH(32)" by (rule unsigned_less)
  then have "unat (of_nat (unat s) :: u64) = unat s" by (simp only: unat_of_nat) simp
  then show ?thesis by simp
qed

lemma Random_good: "good_seed (Random s)"
proof -
  let ?t = "s AND 0x7fffffff"
  have "(0x7fffffff :: u32) = mask 31" by (simp add: mask_eq_exp_minus_1)
  then have "unat ?t = unat (take_bit 31 s)" by (simp add: take_bit_eq_mask)
  also have "\<dots> < 2 ^ 31" by (simp only: unsigned_take_bit_eq take_bit_nat_less_exp)
  finally have "unat ?t < 2147483648" by simp
  moreover have "unat ?t \<noteq> 2147483647" if "?t \<noteq> 2147483647"
    using that by (simp add: word_unat_eq_iff)
  moreover have "unat ?t \<noteq> 0" if "?t \<noteq> 0" using that by (simp add: unat_eq_zero)
  ultimately show ?thesis by (auto simp: Random_def good_seed_def Let_def)
qed

text \<open>Reducing modulo a Mersenne number: the bits above the 31st have weight one.\<close>

lemma mersenne_fold: "(p :: nat) div 2147483648 + p mod 2147483648 = p - 2147483647 * (p div 2147483648)"
proof -
  have "p = 2147483648 * (p div 2147483648) + p mod 2147483648" by simp
  then show ?thesis by linarith
qed

lemma mersenne_mod: "((p :: nat) div 2147483648 + p mod 2147483648) mod 2147483647 = p mod 2147483647"
proof -
  have "p = (p div 2147483648 + p mod 2147483648) + 2147483647 * (p div 2147483648)" by simp
  then show ?thesis by (metis mod_mult_self2)
qed

lemma not_multiple: "0 < s \<Longrightarrow> s < 2147483647 \<Longrightarrow> (s * 16807) mod 2147483647 \<noteq> (0 :: nat)"
proof
  assume s: "0 < s" "s < 2147483647" and "(s * 16807) mod 2147483647 = 0"
  then have "2147483647 dvd s * (16807 :: nat)" by presburger
  moreover have "coprime (2147483647 :: nat) 16807" by (simp add: coprime_iff_gcd_eq_1 gcd_non_0_nat)
  ultimately have "2147483647 dvd s" by (simp add: coprime_dvd_mult_left_iff)
  with s show False by (simp add: nat_dvd_not_less)
qed

lemma reduce_once: "q \<noteq> m \<Longrightarrow> q < 2 * m \<Longrightarrow> (if m < q then q - m else q) = q mod (m :: nat)"
  by (cases "m < q") (simp_all add: le_mod_geq)

lemma unat_reduce:
  "unat (if (w :: u32) > m then w - m else w) = (if unat m < unat w then unat w - unat m else unat w)"
  by (simp add: word_less_nat_alt unat_sub word_le_nat_alt)

lemma random_Next_mod:
  assumes "good_seed s"
  shows "unat (random_Next s) = unat s * 16807 mod 2147483647"
proof -
  let ?p = "unat s * 16807" and ?prod = "ucast s * 16807 :: u64"
  let ?q = "?p div 2147483648 + ?p mod 2147483648"
  have s: "0 < unat s" "unat s < 2147483647" using assms by (simp_all add: good_seed_def)
  have p: "unat ?prod = ?p"
    using s by (simp add: unat_word_ariths unat_ucast_64)
  have lo: "?prod AND ucast (2147483647 :: u32) = take_bit 31 ?prod"
    by (simp add: take_bit_eq_mask mask_eq_exp_minus_1)
  have hi: "?p div 2147483648 < 32768" using s by (simp add: less_mult_imp_div_less)
  have "unat (drop_bit 31 ?prod + take_bit 31 ?prod) = ?q"
  proof -
    have "unat (drop_bit 31 ?prod) = ?p div 2147483648"
      by (simp only: unat_drop_bit_eq p) (simp add: drop_bit_eq_div)
    moreover have "unat (take_bit 31 ?prod) = ?p mod 2147483648"
      by (simp only: unsigned_take_bit_eq p) (simp add: take_bit_eq_mod)
    moreover have "?p mod 2147483648 < 2147483648" by simp
    ultimately show ?thesis using hi by (simp add: unat_word_ariths)
  qed
  then have q: "unat (ucast (drop_bit 31 ?prod + (?prod AND ucast (2147483647 :: u32))) :: u32) = ?q"
    unfolding lo using hi by (simp add: unsigned_ucast_eq unsigned_take_bit_eq take_bit_eq_mod)
  have less: "?q < 2 * 2147483647"
  proof -
    have "?p mod 2147483648 < 2147483648" by simp
    with hi show ?thesis by linarith
  qed
  have "?q mod 2147483647 \<noteq> 0" using not_multiple [OF s] mersenne_mod [of ?p] by simp
  then have "?q \<noteq> 2147483647" by auto
  with less have "(if 2147483647 < ?q then ?q - 2147483647 else ?q) = ?q mod 2147483647"
    by (rule reduce_once [rotated])
  also have "\<dots> = ?p mod 2147483647" by (rule mersenne_mod)
  finally have r: "(if 2147483647 < ?q then ?q - 2147483647 else ?q) = ?p mod 2147483647" .
  have m: "unat (2147483647 :: u32) = 2147483647" by simp
  show ?thesis unfolding random_Next_def Let_def unat_reduce q m by (rule r)
qed

lemma random_Next_good: "good_seed s \<Longrightarrow> good_seed (random_Next s)"
  using not_multiple [of "unat s"] random_Next_mod [of s] by (simp add: good_seed_def)

end
