(* ===== verification/Ldb_SkipListSpec.thy ===== *)
theory Ldb_SkipListSpec
  imports Ldb_SkipList
begin

text \<open>
  The skip list refines a sorted sequence.  The searches are analysed on the invariant
  \<open>skip_inv\<close>: at every step the node \<open>x\<close> splits the level-0 order in a part before the
  target and the rest.  The predecessors that \<open>Insert\<close> collects are \<open>pred_at\<close>; linking the
  new node behind them at its levels gives the invariant of the sequence with the new key
  at its place.
\<close>

section \<open>Searching\<close>

text \<open>
  \<open>p\<close> is the last node of level \<open>l\<close> before the position of a key, when \<open>before\<close> says which
  nodes are.
\<close>

definition pred_at :: "'k skiplist \<Rightarrow> nat list \<Rightarrow> (nat \<Rightarrow> bool) \<Rightarrow> nat \<Rightarrow> nat \<Rightarrow> bool" where
  "pred_at sl order before l p \<longleftrightarrow>
     (\<exists>xs ys. 0 # order = xs @ p # ys \<and> l < height sl p \<and>
        (\<forall>i \<in> set (xs @ [p]) - {0}. before i) \<and> (\<forall>i \<in> set ys. l < height sl i \<longrightarrow> \<not> before i))"

lemma order_split:
  assumes "0 # order = xs @ x # ys" and "distinct (0 # order)"
  shows "set (xs @ [x]) - {0} \<union> set ys = set order" and "0 \<notin> set ys"
    and "order = tl (xs @ [x]) @ ys" and "set (tl (xs @ [x])) = set (xs @ [x]) - {0}"
proof -
  show t: "order = tl (xs @ [x]) @ ys" using assms(1) by (cases xs) auto
  show "0 \<notin> set ys" using assms by (cases xs) auto
  show u: "set (tl (xs @ [x])) = set (xs @ [x]) - {0}" using assms by (cases xs) auto
  show "set (xs @ [x]) - {0} \<union> set ys = set order" unfolding u [symmetric] by (subst t) simp
qed

context weak_order
begin

lemma skip_invD:
  assumes "skip_inv cmp valid sl order"
  shows "shape sl order" and "i \<in> set order \<Longrightarrow> key_of sl i \<in> valid"
    and "sorted_wrt (\<lambda>i j. lt (key_of sl i) (key_of sl j)) order"
  using assms by (auto simp: skip_inv_def lt_def)

text \<open>\<open>before\<close> a key is a prefix of the order.\<close>

lemma before_closed:
  assumes "skip_inv cmp valid sl order" and "key \<in> valid"
    and "0 # order = xs @ x # as @ n # bs"
  shows "lt (key_of sl n) key \<Longrightarrow> i \<in> set as \<Longrightarrow> lt (key_of sl i) key"
    and "\<not> lt (key_of sl n) key \<Longrightarrow> i \<in> set bs \<Longrightarrow> \<not> lt (key_of sl i) key"
proof -
  note inv = skip_invD [OF assms(1)]
  have o: "order = tl (xs @ [x]) @ as @ n # bs" using assms(3) by (cases xs) auto
  have v: "key_of sl j \<in> valid" if "j \<in> set as \<union> {n} \<union> set bs" for j
    using that inv(2) [of j] o by auto
  have "\<forall>i \<in> set as. lt (key_of sl i) (key_of sl n)" "\<forall>i \<in> set bs. lt (key_of sl n) (key_of sl i)"
    using inv(3) by (simp_all add: o sorted_wrt_append)
  then show "lt (key_of sl n) key \<Longrightarrow> i \<in> set as \<Longrightarrow> lt (key_of sl i) key"
    and "\<not> lt (key_of sl n) key \<Longrightarrow> i \<in> set bs \<Longrightarrow> \<not> lt (key_of sl i) key"
    using v lt_trans assms(2) by (meson UnI1 UnI2 insertI1)+
qed

lemma after_defined:
  assumes "skip_inv cmp valid sl order" and "key \<in> valid" and "\<forall>i. n = Some i \<longrightarrow> i \<in> set order"
  shows "KeyIsAfterNode cmp sl key n =
    Some (case n of None \<Rightarrow> False | Some i \<Rightarrow> lt (key_of sl i) key)"
proof (cases n)
  case None
  then show ?thesis by (simp add: KeyIsAfterNode_def)
next
  case (Some i)
  with assms have i: "i \<in> set order" "key_of sl i \<in> valid" using skip_invD(2) by auto
  from cmp_cases [OF i(2) assms(2)] obtain r
    where "cmp (key_of sl i) key = Some r" "r < 0 \<longleftrightarrow> lt (key_of sl i) key" by blast
  with Some node_key_shape [OF skip_invD(1) [OF assms(1)] i(1)] show ?thesis
    by (simp add: KeyIsAfterNode_def)
qed

definition prev_ok :: "'k skiplist \<Rightarrow> nat list \<Rightarrow> 'k \<Rightarrow> nat \<Rightarrow> nat option list option \<Rightarrow> nat option list option \<Rightarrow> bool" where
  "prev_ok sl order key level prev prev' \<longleftrightarrow>
     (\<forall>pv. prev = Some pv \<longrightarrow> level < length pv \<longrightarrow>
       (\<exists>pv'. prev' = Some pv' \<and> length pv' = length pv \<and>
          (\<forall>l \<le> level. \<exists>p. pv' ! l = Some p \<and> pred_at sl order (\<lambda>i. lt (key_of sl i) key) l p) \<and>
          (\<forall>l. level < l \<longrightarrow> pv' ! l = pv ! l)))"

lemma find_ge_loop:
  assumes inv: "skip_inv cmp valid sl order" and key: "key \<in> valid"
    and "0 # order = xs @ x # ys" and "level < height sl x"
    and "\<forall>i \<in> set (xs @ [x]) - {0}. lt (key_of sl i) key"
  shows "\<exists>prev'. find_ge_loop cmp sl key x level prev =
      Some (find (\<lambda>i. \<not> lt (key_of sl i) key) order, prev') \<and> prev_ok sl order key level prev prev'"
  using assms(3-)
proof (induction "level + length ys" arbitrary: level xs x ys prev rule: less_induct)
  case less
  note sh = skip_invD(1) [OF inv]
  note split = order_split [OF less.prems(1) shapeD(1) [OF sh]]
  let ?n = "find (\<lambda>i. level < height sl i) ys"
  have nx: "node_Next sl x level = Some ?n" using next_shape [OF sh less.prems(1,2)] .
  have "\<forall>i. ?n = Some i \<longrightarrow> i \<in> set order" using split(1) by (auto elim!: find_SomeE)
  note after = after_defined [OF inv key this]
  obtain n0 where n0: "?n = n0" by simp
  note nx0 = nx [unfolded n0] and after0 = after [unfolded n0]
  show ?case
  proof (cases "\<exists>n. ?n = Some n \<and> lt (key_of sl n) key")
    case True
    then obtain n where n: "?n = Some n" and lt: "lt (key_of sl n) key" by blast
    then obtain as bs where ys: "ys = as @ n # bs" and "level < height sl n" by (auto elim!: find_SomeE)
    have o: "0 # order = (xs @ x # as) @ n # bs" using less.prems(1) ys by simp
    have "lt (key_of sl i) key" if "i \<in> set as" for i
      using before_closed(1) [OF inv key _ lt that, of xs x bs] less.prems(1) ys by simp
    then have "\<forall>i \<in> set ((xs @ x # as) @ [n]) - {0}. lt (key_of sl i) key"
      using less.prems(3) lt by auto
    from less.hyps [OF _ o \<open>level < height sl n\<close> this, of prev] ys obtain prev'
      where "find_ge_loop cmp sl key n level prev =
        Some (find (\<lambda>i. \<not> lt (key_of sl i) key) order, prev')" "prev_ok sl order key level prev prev'"
      by auto
    with nx n lt after show ?thesis by (subst find_ge_loop.simps) simp
  next
    case False
    have rest: "\<forall>i \<in> set ys. level < height sl i \<longrightarrow> \<not> lt (key_of sl i) key"
    proof (cases ?n)
      case None
      then show ?thesis by (simp add: find_none)
    next
      case (Some n)
      then obtain as bs where ys: "ys = as @ n # bs" "\<forall>i \<in> set as. \<not> level < height sl i"
        by (auto elim!: find_SomeE)
      moreover have "\<not> lt (key_of sl n) key" using False Some by simp
      moreover from this have "\<not> lt (key_of sl i) key" if "i \<in> set bs" for i
        using before_closed(2) [OF inv key _ _ that, of xs x as n] less.prems(1) ys by simp
      ultimately show ?thesis by auto
    qed
    with less.prems have pred: "pred_at sl order (\<lambda>i. lt (key_of sl i) key) level x"
      unfolding pred_at_def by blast
    have step: "find_ge_loop cmp sl key x level prev =
        (if level = 0 then Some (?n, set_prev prev level x)
         else find_ge_loop cmp sl key x (level - 1) (set_prev prev level x))"
      using False unfolding n0
      by (subst find_ge_loop.simps) (simp add: nx0 after0 split: option.splits)
    show ?thesis
    proof (cases level)
      case 0
      have "1 \<le> height sl i" if "i \<in> set ys" for i using shapeD(6) [OF sh] that split(1) by auto
      then have "?n = find (\<lambda>i. \<not> lt (key_of sl i) key) ys"
        using rest 0 by (intro find_cong) (auto simp: Suc_le_eq)
      moreover have "find (\<lambda>i. \<not> lt (key_of sl i) key) (tl (xs @ [x])) = None"
        using less.prems(3) split(4) by (auto simp: find_none)
      ultimately have "?n = find (\<lambda>i. \<not> lt (key_of sl i) key) order"
        by (subst split(3)) (simp only: find_app option.simps)
      with step 0 pred show ?thesis by (auto simp: prev_ok_def set_prev_def)
    next
      case (Suc k)
      with less.hyps [of k ys xs x "set_prev prev level x"] less.prems obtain prev'
        where f: "find_ge_loop cmp sl key x k (set_prev prev level x) =
          Some (find (\<lambda>i. \<not> lt (key_of sl i) key) order, prev')"
        and p: "prev_ok sl order key k (set_prev prev level x) prev'"
        by auto
      from p pred Suc have "prev_ok sl order key level prev prev'"
        by (force simp: prev_ok_def set_prev_def le_Suc_eq)
      with step f Suc show ?thesis by simp
    qed
  qed
qed

lemma FindGreaterOrEqual:
  assumes "skip_inv cmp valid sl order" and "key \<in> valid"
  shows "\<exists>prev'. FindGreaterOrEqual cmp sl key prev =
      Some (find (\<lambda>i. \<not> lt (key_of sl i) key) order, prev') \<and>
      prev_ok sl order key (max_height sl - 1) prev prev'"
proof -
  have "max_height sl - 1 < height sl 0"
    using shapeD(3,4,5) [OF skip_invD(1) [OF assms(1)]] by simp
  from find_ge_loop [OF assms, of "[]" 0 order, OF _ this] show ?thesis
    by (simp add: FindGreaterOrEqual_def)
qed

lemma find_lt_loop:
  assumes inv: "skip_inv cmp valid sl order" and key: "key \<in> valid"
    and "0 # order = xs @ x # ys" and "level < height sl x"
    and "\<forall>i \<in> set (xs @ [x]) - {0}. lt (key_of sl i) key"
  shows "\<exists>p. find_lt_loop cmp sl key x level = Some p \<and>
    pred_at sl order (\<lambda>i. lt (key_of sl i) key) 0 p"
  using assms(3-)
proof (induction "level + length ys" arbitrary: level xs x ys rule: less_induct)
  case less
  note sh = skip_invD(1) [OF inv]
  note split = order_split [OF less.prems(1) shapeD(1) [OF sh]]
  let ?n = "find (\<lambda>i. level < height sl i) ys"
  have nx: "node_Next sl x level = Some ?n" using next_shape [OF sh less.prems(1,2)] .
  have "\<forall>i. ?n = Some i \<longrightarrow> i \<in> set order" using split(1) by (auto elim!: find_SomeE)
  note after = after_defined [OF inv key this]
  obtain n0 where n0: "?n = n0" by simp
  note nx0 = nx [unfolded n0] and after0 = after [unfolded n0]
  have stop: "node_not_less cmp sl key n = map_option Not (KeyIsAfterNode cmp sl key n)" for n
    by (cases n) (auto simp: node_not_less_def KeyIsAfterNode_def not_less outcome_simps
        split: option.splits bind_splits)
  have as: "find_lt_assert cmp sl key x = Some True"
  proof (cases "x = 0")
    case False
    then have "x \<in> set order" "lt (key_of sl x) key" using split(1) less.prems(3) by auto
    then show ?thesis
      using node_key_shape [OF sh] by (auto simp: find_lt_assert_def lt_def)
  qed (simp add: find_lt_assert_def)
  show ?case
  proof (cases "\<exists>n. ?n = Some n \<and> lt (key_of sl n) key")
    case True
    then obtain n where n: "?n = Some n" and lt: "lt (key_of sl n) key" by blast
    then obtain as bs where ys: "ys = as @ n # bs" and "level < height sl n" by (auto elim!: find_SomeE)
    have o: "0 # order = (xs @ x # as) @ n # bs" using less.prems(1) ys by simp
    have "lt (key_of sl i) key" if "i \<in> set as" for i
      using before_closed(1) [OF inv key _ lt that, of xs x bs] less.prems(1) ys by simp
    then have "\<forall>i \<in> set ((xs @ x # as) @ [n]) - {0}. lt (key_of sl i) key"
      using less.prems(3) lt by auto
    from less.hyps [OF _ o \<open>level < height sl n\<close> this] ys
    have "\<exists>p. find_lt_loop cmp sl key n level = Some p \<and>
        pred_at sl order (\<lambda>i. lt (key_of sl i) key) 0 p" by auto
    with nx n lt after as stop show ?thesis by (subst find_lt_loop.simps) simp
  next
    case False
    have step: "find_lt_loop cmp sl key x level =
        (if level = 0 then Some x else find_lt_loop cmp sl key x (level - 1))"
      using False unfolding n0
      by (subst find_lt_loop.simps) (simp add: nx0 after0 as stop split: option.splits)
    show ?thesis
    proof (cases level)
      case 0
      obtain prev' where "prev_ok sl order key 0 (Some [None]) prev'"
        and "find_ge_loop cmp sl key x 0 (Some [None]) =
          Some (find (\<lambda>i. \<not> lt (key_of sl i) key) order, prev')"
        using find_ge_loop [OF inv key less.prems(1) _ less.prems(3), of 0 "Some [None]"] less.prems(2) 0
        by auto
      moreover have "find_ge_loop cmp sl key x 0 (Some [None]) = Some (?n, Some [Some x])"
        using False unfolding 0 n0 [unfolded 0]
        by (subst find_ge_loop.simps)
           (simp add: nx0 [unfolded 0] after0 [unfolded 0] set_prev_def split: option.splits)
      ultimately show ?thesis using step 0 by (auto simp: prev_ok_def)
    next
      case (Suc k)
      with less.hyps [of k ys xs x] less.prems step show ?thesis by simp
    qed
  qed
qed

lemma FindLessThan:
  assumes "skip_inv cmp valid sl order" and "key \<in> valid"
  shows "\<exists>p. FindLessThan cmp sl key = Some p \<and> pred_at sl order (\<lambda>i. lt (key_of sl i) key) 0 p"
proof -
  have "max_height sl - 1 < height sl 0"
    using shapeD(3,4,5) [OF skip_invD(1) [OF assms(1)]] by simp
  from find_lt_loop [OF assms, of "[]" 0 order, OF _ this] show ?thesis
    by (simp add: FindLessThan_def)
qed

end

lemma find_last_loop:
  assumes sh: "shape sl order" and "0 # order = xs @ x # ys" and "level < height sl x"
  shows "find_last_loop sl x level = Some (last (0 # order))"
  using assms(2-)
proof (induction "level + length ys" arbitrary: level xs x ys rule: less_induct)
  case less
  let ?n = "find (\<lambda>i. level < height sl i) ys"
  have nx: "node_Next sl x level = Some ?n" using next_shape [OF sh less.prems(1,2)] .
  show ?case
  proof (cases ?n)
    case (Some n)
    then obtain as bs where ys: "ys = as @ n # bs" and "level < height sl n" by (auto elim!: find_SomeE)
    with less.hyps [of level bs "xs @ x # as" n] less.prems Some nx show ?thesis
      by (subst find_last_loop.simps) simp
  next
    case None
    have step: "find_last_loop sl x level =
        (if level = 0 then Some x else find_last_loop sl x (level - 1))"
      by (subst find_last_loop.simps) (simp only: nx None bind.bind_lunit option.simps)
    show ?thesis
    proof (cases level)
      case 0
      have "set ys \<subseteq> set order" using less.prems(1) by (cases xs) auto
      then have "1 \<le> height sl i" if "i \<in> set ys" for i using shapeD(6) [OF sh] that by auto
      moreover have "\<not> 0 < height sl i" if "i \<in> set ys" for i
        using None 0 that unfolding find_none by blast
      ultimately have "i \<notin> set ys" for i by fastforce
      then have "ys = []" by (meson last_in_set)
      with step 0 less.prems(1) show ?thesis by simp
    next
      case (Suc k)
      with less.hyps [of k ys xs x] less.prems step show ?thesis by simp
    qed
  qed
qed

lemma FindLast: "shape sl order \<Longrightarrow> FindLast sl = Some (last (0 # order))"
  using find_last_loop [of sl order "[]" 0 order "max_height sl - 1"] shapeD(3-5) [of sl order]
  by (simp add: FindLast_def)


section \<open>Linking a node\<close>

text \<open>What \<open>link_loop\<close> leaves: only the links of the listed levels change.\<close>

definition relinked :: "'k skiplist \<Rightarrow> 'k skiplist \<Rightarrow> nat \<Rightarrow> (nat \<Rightarrow> nat) \<Rightarrow> nat set \<Rightarrow> bool" where
  "relinked sl sl' x p L \<longleftrightarrow>
     length (sl_nodes sl') = length (sl_nodes sl) \<and> max_height sl' = max_height sl \<and>
     sl_rnd sl' = sl_rnd sl \<and>
     (\<forall>i < length (sl_nodes sl). key_of sl' i = key_of sl i \<and> height sl' i = height sl i \<and>
       (\<forall>l < height sl i. node_links (sl_nodes sl' ! i) ! l =
          (if l \<in> L then if i = x then node_links (sl_nodes sl ! p l) ! l
                        else if i = p l then Some x else node_links (sl_nodes sl ! i) ! l
           else node_links (sl_nodes sl ! i) ! l)))"

lemma link_one:
  assumes "x < length (sl_nodes sl)" "l < height sl x" "q < length (sl_nodes sl)" "l < height sl q"
    and "q \<noteq> x"
  shows "\<exists>sl1 sl2. node_Next sl q l = Some (node_links (sl_nodes sl ! q) ! l) \<and>
    node_SetNext sl x l (node_links (sl_nodes sl ! q) ! l) = Some sl1 \<and>
    node_SetNext sl1 q l (Some x) = Some sl2 \<and> relinked sl sl2 x (\<lambda>_. q) {l}"
  using assms by (auto simp: node_Next_def node_SetNext_def Let_def relinked_def nth_list_update)

lemma relinked_trans:
  assumes "relinked sl sl1 x (\<lambda>_. p l) {l}" and "relinked sl1 sl2 x p L" and "l \<notin> L"
    and "\<forall>k \<in> L. p k < length (sl_nodes sl) \<and> p k \<noteq> x \<and> k < height sl (p k)"
  shows "relinked sl sl2 x p (insert l L)"
  using assms by (auto simp: relinked_def)

lemma link_loop:
  assumes "x < length (sl_nodes sl)" and "distinct is"
    and "\<forall>l \<in> set is. l < height sl x \<and> prev ! l = Some (p l) \<and> p l < length (sl_nodes sl) \<and>
      p l \<noteq> x \<and> l < height sl (p l)"
  shows "\<exists>sl'. link_loop sl x prev is = Some sl' \<and> relinked sl sl' x p (set is)"
  using assms
proof (induction "is" arbitrary: sl)
  case Nil
  then show ?case by (simp add: relinked_def)
next
  case (Cons l ls)
  from Cons.prems link_one [of x sl l "p l"] obtain sl1 sl2
    where s: "node_Next sl (p l) l = Some (node_links (sl_nodes sl ! p l) ! l)"
      "node_SetNext sl x l (node_links (sl_nodes sl ! p l) ! l) = Some sl1"
      "node_SetNext sl1 (p l) l (Some x) = Some sl2" and r: "relinked sl sl2 x (\<lambda>_. p l) {l}"
    by auto
  from r have "length (sl_nodes sl2) = length (sl_nodes sl)"
    and "\<And>i. i < length (sl_nodes sl) \<Longrightarrow> height sl2 i = height sl i" by (auto simp: relinked_def)
  with Cons.prems Cons.IH [of sl2] obtain sl'
    where "link_loop sl2 x prev ls = Some sl'" "relinked sl2 sl' x p (set ls)" by auto
  moreover from this relinked_trans [of sl sl2 x p l sl' "set ls"] r Cons.prems
  have "relinked sl sl' x p (set (l # ls))" by auto
  ultimately show ?case using s Cons.prems by simp
qed


section \<open>Insertion\<close>

text \<open>
  Linking a new node of height \<open>h\<close> behind the predecessors of its position: the order of
  level 0 gets the node at that position.
\<close>

lemma pred_split:
  assumes "pred_at sl (as @ bs) before l p" and "distinct (0 # as @ bs)"
    and "\<forall>i \<in> set as. before i" and "\<forall>i \<in> set bs. \<not> before i"
  shows "\<exists>xs ys. 0 # as = xs @ p # ys \<and> (\<forall>i \<in> set ys. \<not> l < height sl i) \<and> l < height sl p"
proof -
  from assms(1) obtain xs zs where o: "0 # as @ bs = xs @ p # zs" and h: "l < height sl p"
    and b: "\<forall>i \<in> set (xs @ [p]) - {0}. before i" and nb: "\<forall>i \<in> set zs. l < height sl i \<longrightarrow> \<not> before i"
    unfolding pred_at_def by blast
  have "p \<in> set (0 # as)"
  proof (rule ccontr)
    assume p: "p \<notin> set (0 # as)"
    have "p \<in> set (0 # as @ bs)" unfolding o by simp
    with p have "p \<in> set bs" by auto
    with assms(2,4) b show False by auto
  qed
  then obtain us vs where s: "0 # as = us @ p # vs" by (meson split_list)
  then have e: "0 # as @ bs = us @ p # vs @ bs" by (metis append.assoc append_Cons)
  with assms(2) o split_unique [of us p "vs @ bs" xs zs] have "us = xs" "vs @ bs = zs" by simp_all
  moreover have "\<forall>i \<in> set vs. before i" using assms(2,3) s by (cases us) auto
  ultimately show ?thesis using s nb h by (intro exI [of _ us] exI [of _ vs]) auto
qed

lemma linked_insert:
  assumes sh: "shape sl (as @ bs)" and z: "z = length (sl_nodes sl)"
    and nodes: "length (sl_nodes sl') = Suc z" "height sl' z = h"
      "\<forall>i < z. height sl' i = height sl i"
    and zlinks: "\<forall>l < h. node_links (sl_nodes sl' ! z) ! l = node_links (sl_nodes sl ! p l) ! l"
    and links: "\<forall>i < z. \<forall>l < height sl i. node_links (sl_nodes sl' ! i) ! l =
      (if l < h \<and> i = p l then Some z else node_links (sl_nodes sl ! i) ! l)"
    and pred: "\<forall>l < h. \<exists>xs ys. 0 # as = xs @ p l # ys \<and> (\<forall>i \<in> set ys. \<not> l < height sl i) \<and>
      l < height sl (p l)"
  shows "linked sl' (as @ z # bs)"
  unfolding linked_def
proof (intro allI impI)
  fix xs x ys l
  assume o: "0 # as @ z # bs = xs @ x # ys" and l: "l < height sl' x"
  note lk = shapeD(8) [OF sh, unfolded linked_def, rule_format]
  have old: "i < z \<and> i \<noteq> z" if "i \<in> set (0 # as @ bs)" for i
    using shapeD(2) [OF sh] that z by auto
  have cong: "find (\<lambda>i. l < height sl' i) vs = find (\<lambda>i. l < height sl i) vs"
    if "set vs \<subseteq> set (0 # as @ bs)" for vs
    using that old nodes(3) by (intro find_cong) auto
  have cong_bs: "find (\<lambda>i. l < height sl' i) bs = find (\<lambda>i. l < height sl i) bs"
    by (rule cong) auto
  have dist: "distinct (0 # as @ z # bs)" using shapeD(1) [OF sh] old by auto
  consider (before) ys1 where "0 # as = xs @ x # ys1" "ys = ys1 @ z # bs"
    | (new) "xs = 0 # as" "x = z" "ys = bs"
    | (after) xs1 where "xs = 0 # as @ z # xs1" "bs = xs1 @ x # ys"
    using o by (auto simp: append_eq_append_conv2 append_eq_Cons_conv Cons_eq_append_conv)
  then show "node_links (sl_nodes sl' ! x) ! l = find (\<lambda>i. l < height sl' i) ys"
  proof cases
    case (before ys1)
    have x: "x \<in> set (0 # as @ bs)" and ys1: "set ys1 \<subseteq> set (0 # as @ bs)"
    proof -
      have "set (xs @ x # ys1) \<subseteq> set (0 # as @ bs)" unfolding before(1) [symmetric] by auto
      then show "x \<in> set (0 # as @ bs)" "set ys1 \<subseteq> set (0 # as @ bs)" by auto
    qed
    with old nodes(3) l have lx: "l < height sl x" by auto
    have was: "node_links (sl_nodes sl ! x) ! l = find (\<lambda>i. l < height sl i) (ys1 @ bs)"
      using lk [of xs x "ys1 @ bs" l] before(1) lx by simp
    have now: "node_links (sl_nodes sl' ! x) ! l =
        (if l < h \<and> x = p l then Some z else find (\<lambda>i. l < height sl i) (ys1 @ bs))"
      using links lx old [OF x] was by auto
    have rhs: "find (\<lambda>i. l < height sl' i) ys =
        (case find (\<lambda>i. l < height sl i) ys1 of Some i \<Rightarrow> Some i
         | None \<Rightarrow> if l < h then Some z else find (\<lambda>i. l < height sl i) bs)"
      using cong [OF ys1] cong_bs nodes(2) by (auto simp: before(2) find_app split: option.splits)
    show ?thesis
    proof (cases "l < h")
      case False
      with now rhs show ?thesis by (simp add: find_app split: option.splits)
    next
      case True
      with pred obtain us vs where p: "0 # as = us @ p l # vs" "\<forall>i \<in> set vs. \<not> l < height sl i"
        "l < height sl (p l)" by blast
      have d: "distinct (0 # as)" using dist by simp
      show ?thesis
      proof (cases "x = p l")
        case True
        have "distinct (us @ p l # vs)" "us @ p l # vs = xs @ p l # ys1"
          using d p(1) before(1) True by metis+
        then have "ys1 = vs" by (metis split_unique)
        with p(2) have "find (\<lambda>i. l < height sl i) ys1 = None" by (simp add: find_none)
        with now rhs True \<open>l < h\<close> show ?thesis by simp
      next
        case False
        have "p l \<in> set ys1"
        proof (rule ccontr)
          assume "p l \<notin> set ys1"
          moreover have "p l \<in> set (xs @ x # ys1)" using p(1) before(1) by (metis in_set_conv_decomp)
          ultimately have "p l \<in> set xs" using False by auto
          then obtain u v where xs: "xs = u @ p l # v" by (meson split_list)
          have "distinct (us @ p l # vs)" "us @ p l # vs = u @ p l # (v @ x # ys1)"
            using d p(1) before(1) xs by (metis, metis append.assoc append_Cons)
          then have "vs = v @ x # ys1" by (metis split_unique)
          with p(2) lx show False by simp
        qed
        with p(3) have "find (\<lambda>i. l < height sl i) ys1 \<noteq> None" by (auto simp: find_none)
        with now rhs False show ?thesis by (auto simp: find_app split: option.splits)
      qed
    qed
  next
    case new
    with l nodes(2) have lh: "l < h" by simp
    with pred obtain us vs where p: "0 # as = us @ p l # vs" "\<forall>i \<in> set vs. \<not> l < height sl i"
      "l < height sl (p l)" by blast
    have "node_links (sl_nodes sl ! p l) ! l = find (\<lambda>i. l < height sl i) (vs @ bs)"
      using lk [of us "p l" "vs @ bs" l] p by simp
    also have "\<dots> = find (\<lambda>i. l < height sl i) bs"
    proof -
      have "find (\<lambda>i. l < height sl i) vs = None" using p(2) by (simp add: find_none)
      then show ?thesis by (simp add: find_app)
    qed
    finally show ?thesis using zlinks lh new cong_bs by simp
  next
    case (after xs1)
    then have x: "x \<in> set (0 # as @ bs)" and "set ys \<subseteq> set (0 # as @ bs)" by auto
    with old nodes(3) l have lx: "l < height sl x" by auto
    have "x \<noteq> p l" if "l < h"
    proof
      assume "x = p l"
      with that pred have "x \<in> set (0 # as)" by (metis in_set_conv_decomp)
      with dist after show False by auto
    qed
    then have "node_links (sl_nodes sl' ! x) ! l = node_links (sl_nodes sl ! x) ! l"
      using links lx old [OF x] by auto
    also have "\<dots> = find (\<lambda>i. l < height sl i) ys"
      using lk [of "0 # as @ xs1" x ys l] after lx by simp
    finally show ?thesis using cong \<open>set ys \<subseteq> set (0 # as @ bs)\<close> by simp
  qed
qed


lemma fold_update_nth:
  "l < length pv \<Longrightarrow> fold (\<lambda>i p. p[i := c]) [a..<b] pv ! l = (if a \<le> l \<and> l < b then c else pv ! l)"
proof (induction b)
  case (Suc b)
  have "length (fold (\<lambda>i p. p[i := c]) xs pv) = length pv" for xs
    by (induction xs arbitrary: pv) auto
  with Suc show ?case by (cases "l = b") (auto simp: nth_list_update)
qed simp

lemma head_is_pred:
  "shape sl order \<Longrightarrow> max_height sl \<le> l \<Longrightarrow> l < kMaxHeight \<Longrightarrow> pred_at sl order before l 0"
  using shapeD(3,7) [of sl order] unfolding pred_at_def
  by (intro exI [of _ "[]"] exI [of _ order]) fastforce

lemma shape_insert:
  assumes sh: "shape sl (as @ bs)" and z: "z = length (sl_nodes sl)"
    and h: "1 \<le> h" "h \<le> kMaxHeight"
    and new: "sl3 = sl\<lparr>sl_nodes := sl_nodes sl @ [NewNode key h],
      max_height := max (max_height sl) h, sl_rnd := s\<rparr>"
    and rel: "relinked sl3 sl' z p {0..<h}"
    and pred: "\<forall>l < h. \<exists>xs ys. 0 # as = xs @ p l # ys \<and> (\<forall>i \<in> set ys. \<not> l < height sl i) \<and>
      l < height sl (p l)"
  shows "shape sl' (as @ z # bs)" and "key_of sl' z = key"
    and "\<forall>i < z. key_of sl' i = key_of sl i"
proof -
  have old: "sl_nodes sl3 ! i = sl_nodes sl ! i" if "i < z" for i
    using that z by (simp add: new nth_append)
  have zn: "sl_nodes sl3 ! z = NewNode key h" using z by (simp add: new)
  have len: "length (sl_nodes sl3) = Suc z" using z by (simp add: new)
  have p: "p l < z \<and> l < height sl (p l)" if "l < h" for l
  proof -
    from pred that have "p l \<in> set (0 # as)" and "l < height sl (p l)"
      by (metis in_set_conv_decomp, metis)
    with shapeD(2) [OF sh] z show ?thesis by auto
  qed
  note r = rel [unfolded relinked_def len]
  have keys: "key_of sl' i = key_of sl3 i" "height sl' i = height sl3 i" if "i < Suc z" for i
    using r that by blast+
  have links: "node_links (sl_nodes sl' ! i) ! l =
      (if l < h then if i = z then node_links (sl_nodes sl3 ! p l) ! l
                     else if i = p l then Some z else node_links (sl_nodes sl3 ! i) ! l
       else node_links (sl_nodes sl3 ! i) ! l)" if "i < Suc z" "l < height sl3 i" for i l
    using r that by auto
  have hz: "height sl' z = h" using keys(2) [of z] zn by (simp add: NewNode_def)
  have ho: "\<forall>i < z. height sl' i = height sl i" using keys(2) old by simp
  have lnk: "linked sl' (as @ z # bs)"
  proof (rule linked_insert [OF sh z _ hz ho _ _ pred])
    show "length (sl_nodes sl') = Suc z" using r by simp
    show "\<forall>l < h. node_links (sl_nodes sl' ! z) ! l = node_links (sl_nodes sl ! p l) ! l"
      using links [of z] p old zn by (auto simp: NewNode_def)
    show "\<forall>i < z. \<forall>l < height sl i. node_links (sl_nodes sl' ! i) ! l =
        (if l < h \<and> i = p l then Some z else node_links (sl_nodes sl ! i) ! l)"
      using links old by auto
  qed
  have inz: "i < z" if "i \<in> set (as @ bs)" for i using shapeD(2) [OF sh] that z by auto
  show "key_of sl' z = key" using keys(1) [of z] zn by (simp add: NewNode_def)
  show "\<forall>i < z. key_of sl' i = key_of sl i" using keys(1) old by simp
  have zpos: "0 < z" using shapeD(2) [OF sh] z by (metis insertI1 lessThan_iff list.simps(15))
  have mh: "max_height sl' = max (max_height sl) h" using r by (simp add: new)
  show "shape sl' (as @ z # bs)"
    unfolding shape_def
  proof (intro conjI ballI)
    show "distinct (0 # as @ z # bs)" using shapeD(1) [OF sh] inz zpos by auto
    have "set (0 # as @ z # bs) = insert z (set (0 # as @ bs))" by auto
    also have "\<dots> = insert z {..<z}" by (simp only: shapeD(2) [OF sh] z)
    also have "\<dots> = {..<length (sl_nodes sl')}" using r by (simp add: lessThan_Suc)
    finally show "set (0 # as @ z # bs) = {..<length (sl_nodes sl')}" .
    show "height sl' 0 = kMaxHeight" using ho zpos shapeD(3) [OF sh] by simp
    show "1 \<le> max_height sl'" "max_height sl' \<le> kMaxHeight"
      using mh h shapeD(4,5) [OF sh] by auto
    show "linked sl' (as @ z # bs)" by (rule lnk)
    fix i assume "i \<in> set (as @ z # bs)"
    then show "1 \<le> height sl' i" "height sl' i \<le> max_height sl'"
      using h hz ho inz mh shapeD(6,7) [OF sh, of i] by auto
  qed
qed

context weak_order
begin

text \<open>Where a key belongs in a sorted list of keys.\<close>

definition ins :: "'k \<Rightarrow> 'k list \<Rightarrow> 'k list" where
  "ins key ks = takeWhile (\<lambda>k. lt k key) ks @ key # dropWhile (\<lambda>k. lt k key) ks"

lemma not_before_dropWhile:
  assumes inv: "skip_inv cmp valid sl order" and key: "key \<in> valid"
  shows "\<forall>i \<in> set (dropWhile (\<lambda>i. lt (key_of sl i) key) order). \<not> lt (key_of sl i) key"
proof (cases "dropWhile (\<lambda>i. lt (key_of sl i) key) order")
  case (Cons n bs)
  then have "\<not> lt (key_of sl n) key" by (simp add: dropWhile_eq_Cons_conv)
  moreover have "0 # order = [] @ 0 # takeWhile (\<lambda>i. lt (key_of sl i) key) order @ n # bs"
    using Cons by (metis append_Nil takeWhile_dropWhile_id)
  note before_closed(2) [OF inv key this]
  ultimately show ?thesis using Cons by auto
next
  case Nil
  then show ?thesis by (simp only: list.set ball_empty)
qed

lemma predecessors:
  assumes inv: "skip_inv cmp valid sl order" and key: "key \<in> valid" and "h \<le> kMaxHeight"
  shows "\<exists>prev. FindGreaterOrEqual cmp sl key (Some (replicate kMaxHeight None)) =
      Some (find (\<lambda>i. \<not> lt (key_of sl i) key) order, Some prev) \<and>
    (\<forall>l < h. \<exists>p. snd (raise_height (sl\<lparr>sl_rnd := s\<rparr>) h prev) ! l = Some p \<and>
      pred_at sl order (\<lambda>i. lt (key_of sl i) key) l p)"
proof -
  note sh = skip_invD(1) [OF inv]
  have m: "max_height sl - 1 < kMaxHeight" "1 \<le> max_height sl" using shapeD(4,5) [OF sh] by auto
  obtain prev where f: "FindGreaterOrEqual cmp sl key (Some (replicate kMaxHeight None)) =
      Some (find (\<lambda>i. \<not> lt (key_of sl i) key) order, Some prev)"
    and len: "length prev = kMaxHeight"
    and pv: "\<And>l. l \<le> max_height sl - 1 \<Longrightarrow>
      \<exists>p. prev ! l = Some p \<and> pred_at sl order (\<lambda>i. lt (key_of sl i) key) l p"
    using FindGreaterOrEqual [OF inv key, of "Some (replicate kMaxHeight None)"] m
    by (auto simp: prev_ok_def)
  have "\<exists>p. snd (raise_height (sl\<lparr>sl_rnd := s\<rparr>) h prev) ! l = Some p \<and>
      pred_at sl order (\<lambda>i. lt (key_of sl i) key) l p" if "l < h" for l
  proof (cases "l < max_height sl")
    case True
    with pv [of l] that assms(3) len show ?thesis
      by (auto simp: raise_height_def fold_update_nth)
  next
    case False
    with that assms(3) len have "snd (raise_height (sl\<lparr>sl_rnd := s\<rparr>) h prev) ! l = Some 0"
      by (auto simp: raise_height_def fold_update_nth)
    with head_is_pred [OF sh, of l] False that assms(3) show ?thesis by auto
  qed
  with f show ?thesis by blast
qed

lemma no_duplicate_ok:
  assumes inv: "skip_inv cmp valid sl order" and key: "key \<in> valid"
    and "\<forall>k \<in> set (skip_keys sl order). cmp key k \<noteq> Some 0" and "\<forall>i. x = Some i \<longrightarrow> i \<in> set order"
  shows "no_duplicate cmp sl key x = Some True"
proof (cases x)
  case (Some i)
  with assms have i: "i \<in> set order" "key_of sl i \<in> valid" "cmp key (key_of sl i) \<noteq> Some 0"
    using skip_invD(2) [OF inv] by (auto simp: skip_keys_def)
  from defined [OF key i(2)] i(3) obtain r where "cmp key (key_of sl i) = Some r" "r \<noteq> 0" by auto
  with Some node_key_shape [OF skip_invD(1) [OF inv] i(1)] show ?thesis
    by (simp add: no_duplicate_def)
qed (simp add: no_duplicate_def)

theorem Insert:
  assumes inv: "skip_inv cmp valid sl order" and key: "key \<in> valid"
    and fresh: "\<forall>k \<in> set (skip_keys sl order). cmp key k \<noteq> Some 0"
  shows "\<exists>sl' order'. skip_Insert cmp sl key = Some sl' \<and> skip_inv cmp valid sl' order' \<and>
    skip_keys sl' order' = ins key (skip_keys sl order)"
proof -
  note sh = skip_invD(1) [OF inv]
  let ?before = "\<lambda>i. lt (key_of sl i) key"
  define as bs where "as = takeWhile ?before order" and "bs = dropWhile ?before order"
  have o: "order = as @ bs" by (simp add: as_def bs_def)
  obtain h s where hs: "height_loop 1 (sl_rnd sl) = (h, s)" by fastforce
  then have h: "1 \<le> h" "h \<le> kMaxHeight"
    using height_loop_bound [of 1 "sl_rnd sl" h s] by (simp_all add: kMaxHeight_def)
  obtain prev where f: "FindGreaterOrEqual cmp sl key (Some (replicate kMaxHeight None)) =
      Some (find (\<lambda>i. \<not> ?before i) order, Some prev)"
    and pv: "\<forall>l < h. \<exists>p. snd (raise_height (sl\<lparr>sl_rnd := s\<rparr>) h prev) ! l = Some p \<and>
      pred_at sl order ?before l p"
    using predecessors [OF inv key h(2), of s] by blast
  obtain p where p: "\<forall>l < h. snd (raise_height (sl\<lparr>sl_rnd := s\<rparr>) h prev) ! l = Some (p l) \<and>
      pred_at sl order ?before l (p l)"
    using pv by metis
  let ?sl2 = "fst (raise_height (sl\<lparr>sl_rnd := s\<rparr>) h prev)"
  let ?prev2 = "snd (raise_height (sl\<lparr>sl_rnd := s\<rparr>) h prev)"
  let ?z = "length (sl_nodes sl)"
  let ?sl3 = "sl\<lparr>sl_nodes := sl_nodes sl @ [NewNode key h],
      max_height := max (max_height sl) h, sl_rnd := s\<rparr>"
  have sl3: "?sl2\<lparr>sl_nodes := sl_nodes ?sl2 @ [NewNode key h]\<rparr> = ?sl3" and z2: "length (sl_nodes ?sl2) = ?z"
    by (simp_all add: raise_height_def)
  have before: "\<forall>i \<in> set as. ?before i" by (auto simp: as_def dest: set_takeWhileD)
  have after: "\<forall>i \<in> set bs. \<not> ?before i"
    unfolding bs_def by (rule not_before_dropWhile [OF inv key])
  have pred: "\<forall>l < h. \<exists>xs ys. 0 # as = xs @ p l # ys \<and> (\<forall>i \<in> set ys. \<not> l < height sl i) \<and>
      l < height sl (p l)"
  proof (intro allI impI)
    fix l assume "l < h"
    with p have "pred_at sl (as @ bs) ?before l (p l)" by (simp add: o)
    from pred_split [OF this _ before after] shapeD(1) [OF sh]
    show "\<exists>xs ys. 0 # as = xs @ p l # ys \<and> (\<forall>i \<in> set ys. \<not> l < height sl i) \<and> l < height sl (p l)"
      by (simp only: o)
  qed
  have pz: "p l < ?z" if "l < h" for l
  proof -
    from pred that have "p l \<in> set (0 # as)" by (metis in_set_conv_decomp)
    with shapeD(2) [OF sh] show ?thesis by (auto simp: o)
  qed
  have "\<forall>l \<in> set [0..<h]. l < height ?sl3 ?z \<and> ?prev2 ! l = Some (p l) \<and>
      p l < length (sl_nodes ?sl3) \<and> p l \<noteq> ?z \<and> l < height ?sl3 (p l)"
    using p pred less_SucI [OF pz] less_imp_neq [OF pz] pz by (auto simp: nth_append NewNode_def)
  from link_loop [of ?z ?sl3 "[0..<h]", OF _ _ this] obtain sl'
    where l: "link_loop ?sl3 ?z ?prev2 [0..<h] = Some sl'" and r: "relinked ?sl3 sl' ?z p {0..<h}"
    by auto
  note new = shape_insert [OF sh [unfolded o] refl h refl r pred]
  have "skip_Insert cmp sl key = Some sl'"
  proof -
    have "\<forall>i. find (\<lambda>i. \<not> ?before i) order = Some i \<longrightarrow> i \<in> set order" by (auto elim!: find_SomeE)
    from no_duplicate_ok [OF inv key fresh this] f hs l show ?thesis
      by (simp add: skip_Insert_def RandomHeight_def Let_def case_prod_beta sl3 z2)
  qed
  moreover have old: "key_of sl' i = key_of sl i" if "i \<in> set order" for i
    using new(3) shapeD(2) [OF sh] that by auto
  moreover have "skip_keys sl' (as @ ?z # bs) = ins key (skip_keys sl order)"
    using old new(2) by (simp add: skip_keys_def ins_def takeWhile_map dropWhile_map o_def
        as_def [symmetric] bs_def [symmetric]) (simp add: o)
  moreover have "skip_inv cmp valid sl' (as @ ?z # bs)"
    unfolding skip_inv_def
  proof (intro conjI)
    show "shape sl' (as @ ?z # bs)" by (rule new(1))
    show "key_of sl' ` set (as @ ?z # bs) \<subseteq> valid"
      using old new(2) key skip_invD(2) [OF inv] by (auto simp: o)
    have v: "key_of sl i \<in> valid" if "i \<in> set bs" for i using skip_invD(2) [OF inv] that by (simp add: o)
    have "lt key (key_of sl i)" if "i \<in> set bs" for i
    proof -
      have "cmp key (key_of sl i) \<noteq> Some 0" using fresh that by (auto simp: skip_keys_def o)
      with after that not_lt [OF v [OF that] key] cmp_cases [OF key v [OF that]] show ?thesis
        by (metis not_lt key v that)
    qed
    moreover have "sorted_wrt (\<lambda>i j. lt (key_of sl' i) (key_of sl' j)) (as @ bs)"
      using skip_invD(3) [OF inv] unfolding o
      by (rule sorted_wrt_mono_rel [rotated]) (simp add: old o)
    ultimately show "sorted_wrt (\<lambda>i j. \<exists>r < 0. cmp (key_of sl' i) (key_of sl' j) = Some r) (as @ ?z # bs)"
      using before old new(2) unfolding lt_def [symmetric] by (auto simp: sorted_wrt_append o)
  qed
  ultimately show ?thesis by blast
qed

section \<open>Lookup and iteration\<close>

lemma find_first_not_less:
  "find (\<lambda>i. \<not> lt (key_of sl i) key) order = Some i \<Longrightarrow>
    dropWhile (\<lambda>k. lt k key) (skip_keys sl order) \<noteq> [] \<and>
    key_of sl i = hd (dropWhile (\<lambda>k. lt k key) (skip_keys sl order))"
  by (induction order) (auto simp: skip_keys_def split: if_splits)

theorem Contains:
  assumes inv: "skip_inv cmp valid sl order" and key: "key \<in> valid"
  shows "skip_Contains cmp sl key = Some (\<exists>k \<in> set (skip_keys sl order). cmp key k = Some 0)"
proof -
  note sh = skip_invD(1) [OF inv]
  let ?f = "find (\<lambda>i. \<not> lt (key_of sl i) key) order"
  obtain pv where f: "FindGreaterOrEqual cmp sl key None = Some (?f, pv)"
    using FindGreaterOrEqual [OF inv key] by blast
  have differ: "cmp key k \<noteq> Some 0" if "lt k key \<or> lt key k" "k \<in> valid" for k
    using cmp_cases [OF key that(2)] that(1) by (metis less_irrefl option.inject)
  show ?thesis
  proof (cases ?f)
    case None
    then have "cmp key k \<noteq> Some 0" if "k \<in> set (skip_keys sl order)" for k
      using that differ skip_invD(2) [OF inv] by (auto simp: find_none skip_keys_def)
    with f None show ?thesis by (auto simp: skip_Contains_def)
  next
    case (Some i)
    then obtain as bs where o: "order = as @ i # bs" and ge: "\<not> lt (key_of sl i) key"
      and less: "\<forall>j \<in> set as. lt (key_of sl j) key" by (auto elim!: find_SomeE)
    then have i: "i \<in> set order" and v: "key_of sl i \<in> valid" using skip_invD(2) [OF inv] by auto
    have before: "cmp key (key_of sl j) \<noteq> Some 0" if "j \<in> set as" for j
      using differ less that skip_invD(2) [OF inv, of j] o by auto
    have after: "cmp key (key_of sl j) \<noteq> Some 0" if "j \<in> set bs" for j
    proof -
      have vj: "key_of sl j \<in> valid" using skip_invD(2) [OF inv, of j] that o by auto
      have "lt (key_of sl i) (key_of sl j)"
        using skip_invD(3) [OF inv] that by (simp add: o sorted_wrt_append)
      with ge have "lt key (key_of sl j)" using not_lt [OF v key] le_lt_trans key v vj by blast
      with differ vj show ?thesis by blast
    qed
    have "(\<exists>k \<in> set (skip_keys sl order). cmp key k = Some 0) \<longleftrightarrow> cmp key (key_of sl i) = Some 0"
      using before after by (auto simp: skip_keys_def o)
    moreover obtain r where "cmp key (key_of sl i) = Some r" using defined [OF key v] by blast
    ultimately show ?thesis using f Some node_key_shape [OF sh i] by (simp add: skip_Contains_def)
  qed
qed

theorem Seek:
  assumes inv: "skip_inv cmp valid sl order" and key: "key \<in> valid"
  shows "skip_iter_Seek cmp sl key = Some (find (\<lambda>i. \<not> lt (key_of sl i) key) order)"
  using FindGreaterOrEqual [OF inv key, of None] by (auto simp: skip_iter_Seek_def)

theorem Prev:
  assumes inv: "skip_inv cmp valid sl order" and "order = as @ x # bs"
  shows "skip_iter_Prev cmp sl (Some x) = Some (if as = [] then None else Some (last as))"
proof -
  note sh = skip_invD(1) [OF inv]
  have x: "x \<in> set order" "key_of sl x \<in> valid" using assms(2) skip_invD(2) [OF inv] by auto
  from FindLessThan [OF inv x(2)] obtain p where p: "FindLessThan cmp sl (key_of sl x) = Some p"
    and "pred_at sl order (\<lambda>i. lt (key_of sl i) (key_of sl x)) 0 p" by blast
  then obtain xs ys where o: "0 # order = xs @ p # ys"
    and lt: "\<forall>i \<in> set (xs @ [p]) - {0}. lt (key_of sl i) (key_of sl x)"
    and ge: "\<forall>i \<in> set ys. 0 < height sl i \<longrightarrow> \<not> lt (key_of sl i) (key_of sl x)"
    unfolding pred_at_def by auto
  have "0 # as @ x # bs = xs @ p # ys" using o assms(2) by simp
  moreover have "x \<notin> set (xs @ [p])"
  proof
    assume "x \<in> set (xs @ [p])"
    moreover have "0 \<notin> set order" using shapeD(1) [OF sh] by simp
    with x(1) have "x \<noteq> 0" by metis
    ultimately have "lt (key_of sl x) (key_of sl x)" using lt by blast
    with lt_irrefl [OF x(2)] show False by simp
  qed
  moreover have "set ys \<inter> set as = {}"
  proof -
    have "lt (key_of sl i) (key_of sl x)" if "i \<in> set as" for i
      using skip_invD(3) [OF inv] that by (simp add: assms(2) sorted_wrt_append)
    moreover have "0 < height sl i" if "i \<in> set as" for i
      using shapeD(6) [OF sh, of i] that by (simp add: assms(2) Suc_le_eq)
    ultimately show ?thesis using ge by auto
  qed
  moreover have d: "distinct (0 # as @ x # bs)" using shapeD(1) [OF sh] assms(2) by simp
  ultimately have "xs @ [p] = 0 # as"
  proof -
    assume e: "0 # as @ x # bs = xs @ p # ys" and nx: "x \<notin> set (xs @ [p])"
      and ny: "set ys \<inter> set as = {}" and d: "distinct (0 # as @ x # bs)"
    from e have "(0 # as) @ x # bs = (xs @ [p]) @ ys" by simp
    then consider us where "0 # as = (xs @ [p]) @ us" "us @ x # bs = ys"
      | us where "xs @ [p] = (0 # as) @ us" "x # bs = us @ ys"
      unfolding append_eq_append_conv2 by metis
    then show "xs @ [p] = 0 # as"
    proof cases
      case 1
      then have "set us \<subseteq> set as" by (cases xs) auto
      with 1(2) ny have "us = []" by (cases us) auto
      with 1 show ?thesis by simp
    next
      case 2
      with nx show ?thesis by (cases us) auto
    qed
  qed
  then have "p = last (0 # as)" by (metis last_snoc)
  moreover have "last as \<noteq> 0" if "as \<noteq> []"
  proof -
    from d have "0 \<notin> set as" by simp
    then show ?thesis using last_in_set [OF that] by metis
  qed
  ultimately show ?thesis using p node_key_shape [OF sh x(1)]
    by (cases "as = []") (simp_all add: skip_iter_Prev_def)
qed

end

lemma SeekToFirst: "shape sl order \<Longrightarrow> skip_iter_SeekToFirst sl = Some (case order of [] \<Rightarrow> None | x # _ \<Rightarrow> Some x)"
  using next_shape [of sl order "[]" 0 order 0] shapeD(3,6) [of sl order]
  by (cases order) (auto simp: skip_iter_SeekToFirst_def kMaxHeight_def Suc_le_eq)

lemma iter_Next:
  assumes "shape sl order" and "order = as @ x # bs"
  shows "skip_iter_Next sl (Some x) = Some (case bs of [] \<Rightarrow> None | y # _ \<Rightarrow> Some y)"
  using next_shape [of sl order "0 # as" x bs 0] shapeD(6) [OF assms(1)] assms
  by (cases bs) (auto simp: skip_iter_Next_def Suc_le_eq)

lemma SeekToLast:
  assumes "shape sl order"
  shows "skip_iter_SeekToLast sl = Some (if order = [] then None else Some (last order))"
proof -
  have "0 \<notin> set order" using shapeD(1) [OF assms] by simp
  then have "last order \<noteq> 0" if "order \<noteq> []" using last_in_set [OF that] by metis
  with FindLast [OF assms] show ?thesis
    by (cases "order = []") (simp_all add: skip_iter_SeekToLast_def)
qed

end
