(* ===== verification/Ldb_DbFormat.thy ===== *)
theory Ldb_DbFormat
  imports Ldb_Comparator
begin

text \<open>
  Internal keys, db/dbformat.h and db/dbformat.cc: a user key followed by eight bytes that
  hold a sequence number and a value type.  \<open>kTypeDeletion\<close> and \<open>kTypeValue\<close> are the
  values of the C++ enumeration; a parsed type is any byte, as the code casts it.

  The lemmas: packing and parsing invert each other, internal keys are ordered by user key
  and then by decreasing sequence number, and the shortening of index keys keeps the
  contract of comparator.h when the user's comparator does.
\<close>

section \<open>Constants and types\<close>

definition kNumLevels :: nat where "kNumLevels = 7"
definition kL0_CompactionTrigger :: nat where "kL0_CompactionTrigger = 4"
definition kMaxMemCompactLevel :: nat where "kMaxMemCompactLevel = 2"

type_synonym ValueType = byte
type_synonym SequenceNumber = u64

definition kTypeDeletion :: ValueType where "kTypeDeletion = 0x0"
definition kTypeValue :: ValueType where "kTypeValue = 0x1"
definition kValueTypeForSeek :: ValueType where "kValueTypeForSeek = kTypeValue"

definition kMaxSequenceNumber :: SequenceNumber where
  "kMaxSequenceNumber = push_bit 56 0x1 - 1"

record ParsedInternalKey =
  pk_user_key :: slice
  pk_sequence :: SequenceNumber
  pk_type :: ValueType

definition InternalKeyEncodingLength :: "ParsedInternalKey \<Rightarrow> nat" where
  "InternalKeyEncodingLength key = length (pk_user_key key) + 8"

text \<open>
  The number of an internal key.  The code asserts that the sequence number has at most 56
  bits and that the type is known, and packs any numbers when assertions are compiled out;
  the lemmas on packed keys state the two assertions as hypotheses where they need them.
\<close>

definition PackSequenceAndType :: "SequenceNumber \<Rightarrow> ValueType \<Rightarrow> u64" where
  "PackSequenceAndType seq t = push_bit 8 seq OR ucast t"

definition AppendInternalKey :: "byte list \<Rightarrow> ParsedInternalKey \<Rightarrow> byte list" where
  "AppendInternalKey result key =
     PutFixed64 (result @ pk_user_key key) (PackSequenceAndType (pk_sequence key) (pk_type key))"

text \<open>None where the code asserts that the key has eight bytes and then reads behind it.\<close>

definition ExtractUserKey :: "slice \<Rightarrow> slice option" where
  "ExtractUserKey internal_key =
     (if length internal_key \<ge> 8 then Some (take (length internal_key - 8) internal_key) else None)"

definition ExtractValueType :: "slice \<Rightarrow> ValueType option" where
  "ExtractValueType internal_key =
     (if length internal_key \<ge> 8
      then do { num \<leftarrow> DecodeFixed64 (drop (length internal_key - 8) internal_key);
                Some (ucast (num AND 0xff)) }
      else None)"

text \<open>
  \<open>ParseInternalKey\<close> returns false for a short key and for an unknown type; in the second
  case \<open>*result\<close> has been filled.
\<close>

definition ParseInternalKey :: "slice \<Rightarrow> bool \<times> ParsedInternalKey option" where
  "ParseInternalKey internal_key =
     (let n = length internal_key in
      if n < 8 then (False, None)
      else case DecodeFixed64 (drop (n - 8) internal_key) of
          None \<Rightarrow> (False, None)
        | Some num \<Rightarrow>
            let c = ucast (num AND 0xff) :: byte in
            (c \<le> kTypeValue,
             Some \<lparr>pk_user_key = take (n - 8) internal_key, pk_sequence = drop_bit 8 num,
                   pk_type = c\<rparr>))"


section \<open>The internal key comparator\<close>

definition ikey_number :: "slice \<Rightarrow> u64 option" where
  "ikey_number key = (if length key \<ge> 8 then DecodeFixed64 (drop (length key - 8) key) else None)"

definition ikey_Compare :: "comparator \<Rightarrow> slice \<Rightarrow> slice \<Rightarrow> int option" where
  "ikey_Compare user_comparator akey bkey =
     do { ua \<leftarrow> ExtractUserKey akey;
          ub \<leftarrow> ExtractUserKey bkey;
          r \<leftarrow> Compare user_comparator ua ub;
          if r = 0
          then do { anum \<leftarrow> ikey_number akey;
                    bnum \<leftarrow> ikey_number bkey;
                    Some (if anum > bnum then - 1 else if anum < bnum then 1 else r) }
          else Some r }"

definition ikey_FindShortestSeparator :: "comparator \<Rightarrow> slice \<Rightarrow> slice \<Rightarrow> slice option" where
  "ikey_FindShortestSeparator user_comparator start limit =
     do { user_start \<leftarrow> ExtractUserKey start;
          user_limit \<leftarrow> ExtractUserKey limit;
          tmp \<leftarrow> FindShortestSeparator user_comparator user_start user_limit;
          if length tmp < length user_start
          then do { r \<leftarrow> Compare user_comparator user_start tmp;
                    Some (if r < 0
                          then PutFixed64 tmp
                                 (PackSequenceAndType kMaxSequenceNumber kValueTypeForSeek)
                          else start) }
          else Some start }"

definition ikey_FindShortSuccessor :: "comparator \<Rightarrow> slice \<Rightarrow> slice option" where
  "ikey_FindShortSuccessor user_comparator key =
     do { user_key \<leftarrow> ExtractUserKey key;
          tmp \<leftarrow> FindShortSuccessor user_comparator user_key;
          if length tmp < length user_key
          then do { r \<leftarrow> Compare user_comparator user_key tmp;
                    Some (if r < 0
                          then PutFixed64 tmp
                                 (PackSequenceAndType kMaxSequenceNumber kValueTypeForSeek)
                          else key) }
          else Some key }"

definition InternalKeyComparator :: "comparator \<Rightarrow> comparator" where
  "InternalKeyComparator c =
     \<lparr>cmp_Name = ''leveldb.InternalKeyComparator'',
      Compare = ikey_Compare c,
      FindShortestSeparator = ikey_FindShortestSeparator c,
      FindShortSuccessor = ikey_FindShortSuccessor c\<rparr>"


section \<open>The internal filter policy\<close>

text \<open>A filter policy: its name, \<open>CreateFilter keys dst\<close> and \<open>KeyMayMatch key filter\<close>.\<close>

record filter_policy =
  fp_Name :: string
  CreateFilter :: "slice list \<Rightarrow> byte list \<Rightarrow> byte list option"
  KeyMayMatch :: "slice \<Rightarrow> slice \<Rightarrow> bool option"

fun user_keys :: "slice list \<Rightarrow> slice list option" where
  "user_keys [] = Some []"
| "user_keys (k # ks) = do { u \<leftarrow> ExtractUserKey k; us \<leftarrow> user_keys ks; Some (u # us) }"

definition ifilter_CreateFilter :: "filter_policy \<Rightarrow> slice list \<Rightarrow> byte list \<Rightarrow> byte list option" where
  "ifilter_CreateFilter user_policy keys dst =
     do { mkey \<leftarrow> user_keys keys; CreateFilter user_policy mkey dst }"

definition ifilter_KeyMayMatch :: "filter_policy \<Rightarrow> slice \<Rightarrow> slice \<Rightarrow> bool option" where
  "ifilter_KeyMayMatch user_policy key f =
     do { u \<leftarrow> ExtractUserKey key; KeyMayMatch user_policy u f }"

definition InternalFilterPolicy :: "filter_policy \<Rightarrow> filter_policy" where
  "InternalFilterPolicy p =
     \<lparr>fp_Name = fp_Name p, CreateFilter = ifilter_CreateFilter p,
      KeyMayMatch = ifilter_KeyMayMatch p\<rparr>"


section \<open>InternalKey and LookupKey\<close>

text \<open>An \<open>InternalKey\<close> is its string \<open>rep_\<close>; the empty string is the invalid key.\<close>

definition InternalKey :: "slice \<Rightarrow> SequenceNumber \<Rightarrow> ValueType \<Rightarrow> byte list" where
  "InternalKey user_key s t =
     AppendInternalKey [] \<lparr>pk_user_key = user_key, pk_sequence = s, pk_type = t\<rparr>"

definition InternalKey_Encode :: "byte list \<Rightarrow> slice option" where
  "InternalKey_Encode rep = (if rep \<noteq> [] then Some rep else None)"

definition InternalKey_SetFrom :: "ParsedInternalKey \<Rightarrow> byte list" where
  "InternalKey_SetFrom p = AppendInternalKey [] p"

definition InternalKey_Compare :: "comparator \<Rightarrow> byte list \<Rightarrow> byte list \<Rightarrow> int option" where
  "InternalKey_Compare ucmp a b =
     do { ea \<leftarrow> InternalKey_Encode a; eb \<leftarrow> InternalKey_Encode b; ikey_Compare ucmp ea eb }"

text \<open>
  A \<open>LookupKey\<close> is the bytes it has written and the offset of \<open>kstart_\<close> in them.  \<open>needed\<close>
  is the space the constructor reserves before it writes.
\<close>

record LookupKey =
  lk_bytes :: "byte list"
  lk_kstart :: nat

definition LookupKey_needed :: "slice \<Rightarrow> nat" where
  "LookupKey_needed user_key = length user_key + 13"

definition LookupKey_make :: "slice \<Rightarrow> SequenceNumber \<Rightarrow> LookupKey" where
  "LookupKey_make user_key s =
     (let usize = length user_key;
          dst = EncodeVarint32 (of_nat (usize + 8));
          kstart = length dst
      in \<lparr>lk_bytes = dst @ user_key @ EncodeFixed64 (PackSequenceAndType s kValueTypeForSeek),
          lk_kstart = kstart\<rparr>)"

definition memtable_key :: "LookupKey \<Rightarrow> slice" where
  "memtable_key k = lk_bytes k"

definition lookup_internal_key :: "LookupKey \<Rightarrow> slice" where
  "lookup_internal_key k = drop (lk_kstart k) (lk_bytes k)"

definition lookup_user_key :: "LookupKey \<Rightarrow> slice" where
  "lookup_user_key k =
     take (length (lk_bytes k) - lk_kstart k - 8) (drop (lk_kstart k) (lk_bytes k))"


section \<open>Packing and parsing\<close>

named_theorems ikey_simps "internal keys taken apart"

lemma kMaxSequenceNumber_eq: "kMaxSequenceNumber = mask 56"
  by (simp add: kMaxSequenceNumber_def mask_eq_exp_minus_1)

lemma seq_take_bit: "s \<le> kMaxSequenceNumber \<longleftrightarrow> take_bit 56 s = s"
proof -
  have "unat (mask 56 :: u64) = 2 ^ 56 - 1" by (simp add: mask_eq_exp_minus_1)
  then have "s \<le> kMaxSequenceNumber \<longleftrightarrow> unat s < 2 ^ 56"
    unfolding kMaxSequenceNumber_eq word_le_nat_alt by simp linarith
  also have "\<dots> \<longleftrightarrow> take_bit 56 s = s"
    by (metis unsigned_take_bit_eq take_bit_nat_eq_self_iff unsigned_word_eqI)
  finally show ?thesis .
qed

lemma unpack_type [ikey_simps]: "ucast (PackSequenceAndType s t AND 0xff) = t"
proof (rule bit_word_eqI)
  fix i assume "i < LENGTH(8)"
  moreover have "PackSequenceAndType s t AND 0xff = take_bit 8 (PackSequenceAndType s t)"
    by (simp add: take_bit_eq_mask mask_eq_exp_minus_1)
  ultimately show "bit (ucast (PackSequenceAndType s t AND 0xff) :: byte) i = bit t i"
    by (simp add: PackSequenceAndType_def) (auto simp: bit_simps)
qed

lemma unpack_sequence [ikey_simps]:
  "s \<le> kMaxSequenceNumber \<Longrightarrow> drop_bit 8 (PackSequenceAndType s t) = s"
proof -
  assume "s \<le> kMaxSequenceNumber"
  then have s: "take_bit 56 s = s" by (simp add: seq_take_bit)
  have "bit (drop_bit 8 (PackSequenceAndType s t)) i = bit (take_bit 56 s) i" if "i < 64" for i
    using that by (auto simp: PackSequenceAndType_def bit_simps dest: bit_imp_le_length)
  then have "drop_bit 8 (PackSequenceAndType s t) = take_bit 56 s"
    by (intro bit_word_eqI) simp
  with s show ?thesis by simp
qed

lemma ExtractUserKey_append [simp, ikey_simps]: "ExtractUserKey (u @ EncodeFixed64 n) = Some u"
  by (simp add: ExtractUserKey_def)

lemma ikey_number_append [simp, ikey_simps]: "ikey_number (u @ EncodeFixed64 n) = Some n"
  by (simp add: ikey_number_def)

lemma AppendInternalKey_eq [ikey_simps]:
  "AppendInternalKey r k =
    r @ pk_user_key k @ EncodeFixed64 (PackSequenceAndType (pk_sequence k) (pk_type k))"
  by (simp add: AppendInternalKey_def PutFixed64_def)

lemma InternalKey_eq [ikey_simps]:
  "InternalKey u s t = u @ EncodeFixed64 (PackSequenceAndType s t)"
  by (simp add: InternalKey_def AppendInternalKey_eq)

lemma Parse_Append:
  assumes "pk_sequence k \<le> kMaxSequenceNumber"
  shows "ParseInternalKey (AppendInternalKey [] k) = (pk_type k \<le> kTypeValue, Some k)"
  using assms by (simp add: ParseInternalKey_def ikey_simps Let_def)

text \<open>Every key of at least eight bytes is an encoded one.\<close>

lemma le_bytes_of_le_8: "length bs = 8 \<Longrightarrow> le_bytes 8 (of_le bs :: u64) = bs"
proof -
  have step: "le_bytes (Suc n) (of_le (b # bs) :: u64) = b # le_bytes n (of_le bs :: u64)"
    if "n < 8" for n b and bs :: "byte list"
  proof -
    have lo: "(ucast (of_le (b # bs) :: u64) :: byte) = b"
      by (rule bit_word_eqI) (auto simp: bit_simps)
    have "(ucast (drop_bit (8 * i) (drop_bit 8 (of_le (b # bs) :: u64))) :: byte)
        = ucast (drop_bit (8 * i) (of_le bs :: u64))" if "i < n" for i
      using that \<open>n < 8\<close> by (intro bit_word_eqI) (auto simp: bit_simps algebra_simps dest: bit_imp_le_length)
    then have "le_bytes n (drop_bit 8 (of_le (b # bs) :: u64)) = le_bytes n (of_le bs :: u64)"
      unfolding le_bytes_def by (intro map_cong) auto
    with lo show ?thesis by (simp only: le_bytes_Suc)
  qed
  have "length bs = n \<Longrightarrow> n \<le> 8 \<Longrightarrow> le_bytes n (of_le bs :: u64) = bs" for n
  proof (induction bs arbitrary: n)
    case (Cons b bs)
    then show ?case by (cases n) (simp_all only: step, simp_all del: of_le.simps)
  qed simp
  then show "length bs = 8 \<Longrightarrow> le_bytes 8 (of_le bs :: u64) = bs" by simp
qed

lemma ikey_cases:
  assumes "8 \<le> length k"
  obtains u n where "k = u @ EncodeFixed64 n"
proof -
  have "drop (length k - 8) k = EncodeFixed64 (of_le (drop (length k - 8) k))"
    using assms by (simp add: EncodeFixed64_le le_bytes_of_le_8)
  then have "k = take (length k - 8) k @ EncodeFixed64 (of_le (drop (length k - 8) k))"
    by (metis append_take_drop_id)
  then show ?thesis by (rule that)
qed

lemma Append_Parse:
  assumes "ParseInternalKey k = (ok, Some p)"
  shows "AppendInternalKey [] p = k"
proof -
  from assms have "8 \<le> length k" by (auto simp: ParseInternalKey_def Let_def split: if_splits)
  then obtain u n where k: "k = u @ EncodeFixed64 n" by (rule ikey_cases)
  with assms have p: "p = \<lparr>pk_user_key = u, pk_sequence = drop_bit 8 n, pk_type = ucast (n AND 0xff)\<rparr>"
    by (auto simp: ParseInternalKey_def Let_def)
  have "n AND 0xff = take_bit 8 n" by (simp add: take_bit_eq_mask mask_eq_exp_minus_1)
  then have "PackSequenceAndType (drop_bit 8 n) (ucast (n AND 0xff)) = n"
    by (simp add: PackSequenceAndType_def) (rule bit_word_eqI, auto simp: bit_simps)
  with p k show ?thesis by (simp add: AppendInternalKey_eq)
qed


section \<open>The order of internal keys\<close>

lemma ikey_Compare_append [simp, ikey_simps]:
  "ikey_Compare c (u @ EncodeFixed64 m) (v @ EncodeFixed64 n) =
    do { r \<leftarrow> Compare c u v;
         Some (if r = 0 then (if m > n then - 1 else if m < n then 1 else 0) else r) }"
  by (cases "Compare c u v") (simp_all add: ikey_Compare_def)

definition ikeys :: "slice set \<Rightarrow> slice set" where
  "ikeys valid = {u @ EncodeFixed64 n | u n. u \<in> valid}"

lemma ikeysI [intro, simp]: "u \<in> valid \<Longrightarrow> u @ EncodeFixed64 n \<in> ikeys valid"
  by (auto simp: ikeys_def)

lemma ikeys_UNIV: "ikeys UNIV = {k. 8 \<le> length k}"
  by (auto simp: ikeys_def elim!: ikey_cases)

lemma EncodeFixed64_inject [simp]: "EncodeFixed64 m = EncodeFixed64 n \<longleftrightarrow> m = n"
  by (metis Decode_Encode_all(2) option.inject)

lemma ikey_append_inject [simp]:
  "u @ EncodeFixed64 m = v @ EncodeFixed64 n \<longleftrightarrow> u = v \<and> m = n"
  by simp

lemma pack_max_ge:
  "n \<le> PackSequenceAndType kMaxSequenceNumber kValueTypeForSeek \<longleftrightarrow> n \<le> 0xFFFFFFFFFFFFFF01"
proof -
  have "PackSequenceAndType kMaxSequenceNumber kValueTypeForSeek = 0xFFFFFFFFFFFFFF01"
    by (simp add: PackSequenceAndType_def kMaxSequenceNumber_def kValueTypeForSeek_def kTypeValue_def)
  then show ?thesis by simp
qed

context separating
begin

lemma ikey_lt:
  assumes "u \<in> valid" "v \<in> valid"
  shows "(\<exists>r < 0. ikey_Compare c (u @ EncodeFixed64 m) (v @ EncodeFixed64 n) = Some r) \<longleftrightarrow>
    lt u v \<or> u = v \<and> m > n"
  using assms by (cases rule: eq_cases [OF assms]) auto

lemma ikey_defined:
  assumes "u \<in> valid" "v \<in> valid"
  shows "\<exists>r. ikey_Compare c (u @ EncodeFixed64 m) (v @ EncodeFixed64 n) = Some r \<and>
    (r < 0 \<longleftrightarrow> lt u v \<or> u = v \<and> m > n) \<and> (r = 0 \<longleftrightarrow> u = v \<and> m = n) \<and>
    (0 < r \<longleftrightarrow> lt v u \<or> u = v \<and> m < n)"
  using assms lt_asym [of u v] by (cases rule: eq_cases [OF assms]) auto

lemma internal_key_order: "key_order (ikey_Compare c) (ikeys valid)"
proof unfold_locales
  fix a b d r s
  assume a: "a \<in> ikeys valid" and b: "b \<in> ikeys valid"
  from a obtain u m where u: "a = u @ EncodeFixed64 m" "u \<in> valid" by (auto simp: ikeys_def)
  from b obtain v n where v: "b = v @ EncodeFixed64 n" "v \<in> valid" by (auto simp: ikeys_def)
  note uv = ikey_defined [OF u(2) v(2), of m n] and vu = ikey_defined [OF v(2) u(2), of n m]
  from uv show "\<exists>r. ikey_Compare c a b = Some r" by (auto simp only: u v)
  show "ikey_Compare c a a = Some 0"
    using ikey_defined [OF u(2) u(2), of m m] by (auto simp only: u)
  from uv show "ikey_Compare c a b = Some 0 \<Longrightarrow> a = b"
    by (auto simp only: u v ikey_append_inject)
  show "ikey_Compare c a b = Some r \<Longrightarrow> r < 0 \<Longrightarrow> \<exists>r' > 0. ikey_Compare c b a = Some r'"
    using uv vu by (auto simp only: u v)
  show "ikey_Compare c a b = Some r \<Longrightarrow> 0 < r \<Longrightarrow> \<exists>r' < 0. ikey_Compare c b a = Some r'"
    using uv vu by (auto simp only: u v)
  assume "d \<in> ikeys valid"
  then obtain w l where w: "d = w @ EncodeFixed64 l" "w \<in> valid" by (auto simp: ikeys_def)
  assume "ikey_Compare c a b = Some r" "r \<le> 0" "ikey_Compare c b d = Some s" "s \<le> 0"
  then have "lt u v \<or> u = v \<and> m \<ge> n" "lt v w \<or> v = w \<and> n \<ge> l"
    using uv ikey_defined [OF v(2) w(2), of n l] lt_asym [OF _ u(2) v(2)] lt_asym [OF _ v(2) w(2)]
      not_lt [OF u(2) v(2)] not_lt [OF v(2) w(2)] le_iff [OF v(2) u(2)] le_iff [OF w(2) v(2)]
      lt_irrefl u(2) v(2)
    unfolding u(1) v(1) w(1) by (metis leD not_le_imp_less option.inject)+
  then have "lt u w \<or> u = w \<and> m \<ge> l"
    by (auto intro: lt_trans [OF _ _ u(2) v(2) w(2)])
  then show "\<exists>t \<le> 0. ikey_Compare c a d = Some t"
    using ikey_defined [OF u(2) w(2), of m l] unfolding u(1) w(1)
    by (metis leI order.strict_implies_order lt_asym u(2) w(2) lt_irrefl not_less)
qed

end

context separating_same
begin

lemma internal_separator:
  assumes "u \<in> valid" "v \<in> valid" and "lt u v \<or> u = v"
  shows "\<exists>w l. w \<in> valid \<and>
    ikey_FindShortestSeparator c (u @ EncodeFixed64 m) (v @ EncodeFixed64 n) =
      Some (w @ EncodeFixed64 l) \<and>
    (lt u w \<or> u = w \<and> m \<ge> l) \<and> (lt w v \<or> u = v \<and> w = u \<and> l = m)"
proof -
  let ?f = "ikey_FindShortestSeparator c (u @ EncodeFixed64 m) (v @ EncodeFixed64 n)"
  obtain t where t: "t \<in> valid" "FindShortestSeparator c u v = Some t"
    and between: "lt u v \<and> lt t v \<or> u = v \<and> le t u"
    using separator [OF assms(1,2)] separator_same [OF assms(1)] assms(3) by blast
  obtain r where r: "Compare c u t = Some r" "r < 0 \<longleftrightarrow> lt u t"
    using cmp_cases [OF assms(1) t(1)] by blast
  show ?thesis
  proof (cases "length t < length u \<and> lt u t")
    case True
    with between not_lt [OF t(1) assms(1)] lt_asym [OF _ assms(1) t(1)] le_iff [OF t(1) assms(1)]
      lt_irrefl [OF t(1)] have "lt t v" by auto
    moreover have "?f = Some (t @ EncodeFixed64 (PackSequenceAndType kMaxSequenceNumber kValueTypeForSeek))"
      using True t r by (simp add: ikey_FindShortestSeparator_def PutFixed64_def)
    ultimately show ?thesis using True t(1) by blast
  next
    case False
    then have "?f = Some (u @ EncodeFixed64 m)"
      using t r by (auto simp: ikey_FindShortestSeparator_def)
    with assms show ?thesis by (intro exI [of _ u] exI [of _ m]) auto
  qed
qed

lemma internal_successor:
  assumes "u \<in> valid"
  shows "\<exists>w l. w \<in> valid \<and>
    ikey_FindShortSuccessor c (u @ EncodeFixed64 m) = Some (w @ EncodeFixed64 l) \<and>
    (lt u w \<or> u = w \<and> m \<ge> l)"
proof -
  let ?f = "ikey_FindShortSuccessor c (u @ EncodeFixed64 m)"
  obtain t where t: "t \<in> valid" "FindShortSuccessor c u = Some t"
    using successor [OF assms] by blast
  obtain r where r: "Compare c u t = Some r" "r < 0 \<longleftrightarrow> lt u t"
    using cmp_cases [OF assms t(1)] by blast
  show ?thesis
  proof (cases "length t < length u \<and> lt u t")
    case True
    then have "?f = Some (t @ EncodeFixed64 (PackSequenceAndType kMaxSequenceNumber kValueTypeForSeek))"
      using t r by (simp add: ikey_FindShortSuccessor_def PutFixed64_def)
    with True t(1) show ?thesis by blast
  next
    case False
    then have "?f = Some (u @ EncodeFixed64 m)"
      using t r by (auto simp: ikey_FindShortSuccessor_def)
    with assms show ?thesis by blast
  qed
qed

lemma internal_separating: "separating_same (InternalKeyComparator c) (ikeys valid)"
proof -
  have cmp: "Compare (InternalKeyComparator c) = ikey_Compare c"
    by (simp add: InternalKeyComparator_def)
  note ord = internal_key_order
  have lt: "weak_order.lt (ikey_Compare c) (u @ EncodeFixed64 m) (v @ EncodeFixed64 n) \<longleftrightarrow>
      lt u v \<or> u = v \<and> m > n"
    if "u \<in> valid" "v \<in> valid" for u v m n
    using ikey_lt [OF that, of m n] unfolding weak_order.lt_def [OF key_order.axioms(1) [OF ord]] .
  have le: "weak_order.le (ikey_Compare c) (u @ EncodeFixed64 m) (v @ EncodeFixed64 n) \<longleftrightarrow>
      lt u v \<or> u = v \<and> m \<ge> n"
    if "u \<in> valid" "v \<in> valid" for u v m n
    using key_order.le_iff [OF ord, of "u @ EncodeFixed64 m" "v @ EncodeFixed64 n"] lt [OF that] that
    by (auto simp: order.order_iff_strict)
  have same: "\<exists>l. ikey_FindShortestSeparator c (u @ EncodeFixed64 m) (u @ EncodeFixed64 m) =
      Some (u @ EncodeFixed64 m)" if "u \<in> valid" for u m
    using internal_separator [OF that that, of m m] lt_irrefl that lt_asym by blast
  show ?thesis
  proof (intro separating_same.intro separating.intro separating_axioms.intro
      separating_same_axioms.intro; unfold cmp)
    show "key_order (ikey_Compare c) (ikeys valid)" by (rule ord)
    show "\<exists>t \<in> ikeys valid. FindShortestSeparator (InternalKeyComparator c) s l = Some t \<and>
        weak_order.le (ikey_Compare c) s t \<and> weak_order.lt (ikey_Compare c) t l"
      if sl: "s \<in> ikeys valid" "l \<in> ikeys valid" "weak_order.lt (ikey_Compare c) s l" for s l
    proof -
      from sl obtain u m v n where s: "s = u @ EncodeFixed64 m" "u \<in> valid"
        and l: "l = v @ EncodeFixed64 n" "v \<in> valid" by (auto simp: ikeys_def)
      with sl lt have less: "lt u v \<or> u = v \<and> m > n" by simp
      with internal_separator [OF s(2) l(2), of m n] obtain w k where "w \<in> valid"
        and "ikey_FindShortestSeparator c (u @ EncodeFixed64 m) (v @ EncodeFixed64 n) =
          Some (w @ EncodeFixed64 k)"
        and "lt u w \<or> u = w \<and> m \<ge> k" "lt w v \<or> u = v \<and> w = u \<and> k = m" by blast
      with less s l lt le lt_irrefl show ?thesis by (auto simp: InternalKeyComparator_def)
    qed
    show "\<exists>t \<in> ikeys valid. FindShortSuccessor (InternalKeyComparator c) k = Some t \<and>
        weak_order.le (ikey_Compare c) k t" if "k \<in> ikeys valid" for k
    proof -
      from that obtain u m where k: "k = u @ EncodeFixed64 m" "u \<in> valid" by (auto simp: ikeys_def)
      with internal_successor [OF k(2), of m] le show ?thesis
        by (auto simp: InternalKeyComparator_def)
    qed
    show "\<exists>t \<in> ikeys valid. FindShortestSeparator (InternalKeyComparator c) s s = Some t \<and>
        weak_order.le (ikey_Compare c) t s" if "s \<in> ikeys valid" for s
      using that same le by (auto simp: ikeys_def InternalKeyComparator_def)
  qed
qed

end

text \<open>The comparator of a database with the default options.\<close>

interpretation internal: separating_same "InternalKeyComparator BytewiseComparator" "{k. 8 \<le> length k}"
  using bytewise.internal_separating by (simp only: ikeys_UNIV)


section \<open>Lookup keys\<close>

lemma LookupKey_make_sel:
  "lookup_user_key (LookupKey_make u s) = u"
  "lookup_internal_key (LookupKey_make u s) = InternalKey u s kValueTypeForSeek"
  "memtable_key (LookupKey_make u s) =
    EncodeVarint32 (of_nat (length u + 8)) @ InternalKey u s kValueTypeForSeek"
  by (simp_all add: lookup_user_key_def lookup_internal_key_def memtable_key_def
      LookupKey_make_def Let_def InternalKey_eq)

lemma EncodeVarint32_length: "length (EncodeVarint32 v) \<le> 5" "0 < length (EncodeVarint32 v)"
  by (simp_all add: EncodeVarint32_def)

text \<open>The constructor stays inside the space it reserves.\<close>

lemma LookupKey_fits: "length (lk_bytes (LookupKey_make u s)) \<le> LookupKey_needed u"
  using EncodeVarint32_length(1) [of "of_nat (length u + 8)"]
  by (simp add: LookupKey_make_def LookupKey_needed_def Let_def)

lemma memtable_key_prefixed:
  assumes "length u + 8 < 2 ^ 32"
  shows "GetLengthPrefixedSlice (memtable_key (LookupKey_make u s) @ rest) =
    (Some (InternalKey u s kValueTypeForSeek), rest)"
proof -
  have "memtable_key (LookupKey_make u s) =
      PutLengthPrefixedSlice [] (InternalKey u s kValueTypeForSeek)"
    by (simp add: LookupKey_make_sel PutLengthPrefixedSlice_def PutVarint32_def InternalKey_eq)
  with assms show ?thesis by (simp add: InternalKey_eq)
qed

end
