(* ===== verification/Ldb_Status.thy ===== *)
theory Ldb_Status
  imports Ldb_Coding
begin

text \<open>
  Statuses and text: include/leveldb/status.h, util/status.cc, util/logging.h and
  util/logging.cc.

  A \<open>Status\<close> is its \<open>state_\<close>: None for success (the null pointer), otherwise the bytes of
  the array: a 32-bit length, the code, the message.  The copy operations of the class
  duplicate that array, so that a status is a value.  \<open>decimal\<close> and \<open>hex2\<close> are what
  \<open>snprintf\<close> writes for the formats \<open>%llu\<close> and \<open>%02x\<close>.
\<close>

definition bytes_of :: "string \<Rightarrow> byte list" where
  "bytes_of s = map of_char s"

lemma length_bytes_of [simp]: "length (bytes_of s) = length s"
  by (simp add: bytes_of_def)


section \<open>Numbers and escapes\<close>

fun decimal :: "nat \<Rightarrow> byte list" where
  "decimal n =
     (if n < 10 then [of_nat (48 + n)] else decimal (n div 10) @ [of_nat (48 + n mod 10)])"

declare decimal.simps [simp del]

definition hex_digit :: "nat \<Rightarrow> byte" where
  "hex_digit n = (if n < 10 then of_nat (48 + n) else of_nat (87 + n))"

definition hex2 :: "nat \<Rightarrow> byte list" where
  "hex2 n = [hex_digit (n div 16 mod 16), hex_digit (n mod 16)]"

definition AppendNumberTo :: "byte list \<Rightarrow> u64 \<Rightarrow> byte list" where
  "AppendNumberTo str num = str @ decimal (unat num)"

definition NumberToString :: "u64 \<Rightarrow> byte list" where
  "NumberToString num = AppendNumberTo [] num"

text \<open>\<open>char\<close> is signed: the bytes from \<open>0x80\<close> on are negative and so below \<open>' '\<close>.\<close>

definition escape_char :: "byte \<Rightarrow> byte list" where
  "escape_char c =
     (if 0x20 \<le>s c \<and> c \<le>s 0x7E then [c] else bytes_of [CHR 0x5C, CHR ''x''] @ hex2 (unat c))"

fun AppendEscapedStringTo :: "byte list \<Rightarrow> slice \<Rightarrow> byte list" where
  "AppendEscapedStringTo str [] = str"
| "AppendEscapedStringTo str (c # value) = AppendEscapedStringTo (str @ escape_char c) value"

definition EscapeString :: "slice \<Rightarrow> byte list" where
  "EscapeString value = AppendEscapedStringTo [] value"

definition is_digit :: "byte \<Rightarrow> bool" where
  "is_digit c \<longleftrightarrow> 48 \<le>s c \<and> c \<le>s 57"

text \<open>The result is whether the call succeeded, \<open>*val\<close> if it was assigned, and \<open>*in\<close>.\<close>

fun decimal_loop :: "u64 \<Rightarrow> nat \<Rightarrow> slice \<Rightarrow> bool \<times> u64 option \<times> slice" where
  "decimal_loop v digits [] = (digits > 0, Some v, [])"
| "decimal_loop v digits (c # input) =
     (if is_digit c
      then let delta = ucast c - 48 :: u64;
               kMaxUint64 = NOT 0 :: u64
           in if v > kMaxUint64 div 10 \<or> v = kMaxUint64 div 10 \<and> delta > kMaxUint64 mod 10
              then (False, None, c # input)
              else decimal_loop (v * 10 + delta) (digits + 1) input
      else (digits > 0, Some v, c # input))"

definition ConsumeDecimalNumber :: "slice \<Rightarrow> bool \<times> u64 option \<times> slice" where
  "ConsumeDecimalNumber input = decimal_loop 0 0 input"


section \<open>Status\<close>

type_synonym Status = "byte list option"

definition kOk :: byte where "kOk = 0"
definition kNotFound :: byte where "kNotFound = 1"
definition kCorruption :: byte where "kCorruption = 2"
definition kNotSupported :: byte where "kNotSupported = 3"
definition kInvalidArgument :: byte where "kInvalidArgument = 4"
definition kIOError :: byte where "kIOError = 5"

lemmas status_codes =
  kOk_def kNotFound_def kCorruption_def kNotSupported_def kInvalidArgument_def kIOError_def

definition OK :: Status where "OK = None"

definition make_Status :: "byte \<Rightarrow> slice \<Rightarrow> slice \<Rightarrow> Status" where
  "make_Status code msg msg2 =
     (let len1 = length msg; len2 = length msg2;
          size = len1 + (if len2 \<noteq> 0 then 2 + len2 else 0)
      in Some (le_bytes 4 (of_nat size :: u32) @ [code] @ msg @
               (if len2 \<noteq> 0 then [58, 32] @ msg2 else [])))"

definition NotFound :: "slice \<Rightarrow> slice \<Rightarrow> Status" where
  "NotFound msg msg2 = make_Status kNotFound msg msg2"
definition Corruption :: "slice \<Rightarrow> slice \<Rightarrow> Status" where
  "Corruption msg msg2 = make_Status kCorruption msg msg2"
definition NotSupported :: "slice \<Rightarrow> slice \<Rightarrow> Status" where
  "NotSupported msg msg2 = make_Status kNotSupported msg msg2"
definition InvalidArgument :: "slice \<Rightarrow> slice \<Rightarrow> Status" where
  "InvalidArgument msg msg2 = make_Status kInvalidArgument msg msg2"
definition IOError :: "slice \<Rightarrow> slice \<Rightarrow> Status" where
  "IOError msg msg2 = make_Status kIOError msg msg2"

definition status_ok :: "Status \<Rightarrow> bool" where
  "status_ok s \<longleftrightarrow> s = None"

definition status_code :: "Status \<Rightarrow> byte" where
  "status_code s = (case s of None \<Rightarrow> kOk | Some st \<Rightarrow> st ! 4)"

definition IsNotFound :: "Status \<Rightarrow> bool" where "IsNotFound s \<longleftrightarrow> status_code s = kNotFound"
definition IsCorruption :: "Status \<Rightarrow> bool" where "IsCorruption s \<longleftrightarrow> status_code s = kCorruption"
definition IsIOError :: "Status \<Rightarrow> bool" where "IsIOError s \<longleftrightarrow> status_code s = kIOError"
definition IsNotSupportedError :: "Status \<Rightarrow> bool" where
  "IsNotSupportedError s \<longleftrightarrow> status_code s = kNotSupported"
definition IsInvalidArgument :: "Status \<Rightarrow> bool" where
  "IsInvalidArgument s \<longleftrightarrow> status_code s = kInvalidArgument"

definition CopyState :: "byte list \<Rightarrow> byte list" where
  "CopyState state = (let size = unat (of_le (take 4 state) :: u32) in take (size + 5) state)"

definition status_type :: "byte \<Rightarrow> byte list" where
  "status_type code =
     (if code = kOk then bytes_of ''OK''
      else if code = kNotFound then bytes_of ''NotFound: ''
      else if code = kCorruption then bytes_of ''Corruption: ''
      else if code = kNotSupported then bytes_of ''Not implemented: ''
      else if code = kInvalidArgument then bytes_of ''Invalid argument: ''
      else if code = kIOError then bytes_of ''IO error: ''
      else take 29 (bytes_of ''Unknown code('' @ decimal (unat code) @ bytes_of ''): ''))"

definition status_ToString :: "Status \<Rightarrow> byte list" where
  "status_ToString s =
     (case s of None \<Rightarrow> bytes_of ''OK''
      | Some st \<Rightarrow>
          let len = unat (of_le (take 4 st) :: u32)
          in status_type (status_code s) @ take len (drop 5 st))"

abbreviation corruption :: "string \<Rightarrow> Status" where
  "corruption msg \<equiv> Corruption (bytes_of msg) []"

lemma make_Status_code [simp]: "status_code (make_Status c m m2) = c"
  by (simp add: make_Status_def status_code_def Let_def nth_append)

lemma make_Status_not_ok [simp]: "\<not> status_ok (make_Status c m m2)"
  by (simp add: make_Status_def status_ok_def Let_def)

lemma OK_ok [simp]: "status_ok OK" "status_code OK = kOk"
  by (simp_all add: OK_def status_ok_def status_code_def)

text \<open>The message of a status is what it was made from, joined by a colon.\<close>

lemma status_message:
  assumes "length m + length m2 + 2 < 2 ^ 32"
  shows "status_ToString (make_Status c m m2) =
    status_type c @ m @ (if m2 = [] then [] else [58, 32] @ m2)"
proof -
  have "unat (of_nat n :: u32) = n" if "n < 2 ^ 32" for n using that by (simp add: unat_of_nat)
  with assms show ?thesis
    by (simp add: status_ToString_def make_Status_def status_code_def Let_def nth_append del: of_nat_add)
qed

lemma CopyState_make:
  assumes "length m + length m2 + 2 < 2 ^ 32" and "make_Status c m m2 = Some st"
  shows "CopyState st = st"
proof -
  have "unat (of_nat n :: u32) = n" if "n < 2 ^ 32" for n using that by (simp add: unat_of_nat)
  with assms show ?thesis by (auto simp: make_Status_def CopyState_def Let_def simp del: of_nat_add)
qed


section \<open>Reading numbers back\<close>

definition digit_val :: "byte \<Rightarrow> nat" where
  "digit_val c = unat c - 48"

definition digits_val :: "nat \<Rightarrow> byte list \<Rightarrow> nat" where
  "digits_val = foldl (\<lambda>v c. 10 * v + digit_val c)"

lemma digits_val_simps [simp]:
  "digits_val v [] = v" "digits_val v (c # cs) = digits_val (10 * v + digit_val c) cs"
  "digits_val v (cs @ ds) = digits_val (digits_val v cs) ds"
  by (simp_all add: digits_val_def)

lemma digits_val_ge: "v \<le> digits_val v cs"
proof (induction cs arbitrary: v)
  case (Cons c cs)
  from Cons.IH [of "10 * v + digit_val c"] show ?case by simp
qed simp

lemma sint_byte: "sint (c :: byte) = (if uint c < 128 then uint c else uint c - 256)"
proof -
  have "sint c = signed_take_bit 7 (uint c)" by (simp add: sint_uint)
  also have "\<dots> = (if uint c < 128 then uint c else uint c - 256)"
  proof (cases "uint c < 128")
    case True
    have "0 \<le> uint c" by simp
    then have "- 128 \<le> uint c" by linarith
    with True show ?thesis by (simp add: signed_take_bit_int_eq_self)
  next
    case False
    have "uint c < 2 ^ LENGTH(8)" by (rule uint_bounded)
    then have "signed_take_bit 7 (uint c - 256) = uint c - 256"
      using False by (intro signed_take_bit_int_eq_self) simp_all
    moreover have "signed_take_bit 7 (uint c - 256) = signed_take_bit 7 (uint c)"
      by (simp add: signed_take_bit_eq_iff_take_bit_eq take_bit_eq_mod mod_diff_eq)
    ultimately show ?thesis using False by simp
  qed
  finally show ?thesis .
qed

lemma is_digit_iff: "is_digit c \<longleftrightarrow> 48 \<le> unat c \<and> unat c \<le> 57"
proof -
  have "uint c = int (unat c)" by simp
  moreover have "is_digit c \<longleftrightarrow> 48 \<le> uint c \<and> uint c \<le> 57"
    using uint_bounded [of c] by (auto simp: is_digit_def word_sle_eq sint_byte)
  ultimately show ?thesis by linarith
qed

lemma digit_val_less: "is_digit c \<Longrightarrow> digit_val c < 10"
  by (auto simp: is_digit_iff digit_val_def)

lemma delta_val: "is_digit c \<Longrightarrow> unat (ucast c - 48 :: u64) = digit_val c"
proof -
  assume "is_digit c"
  then have "48 \<le> unat c" by (simp add: is_digit_iff)
  moreover have "unat (ucast c :: u64) = unat c"
  proof -
    have "unat c < 2 ^ LENGTH(8)" by (rule unsigned_less)
    then have "unat (of_nat (unat c) :: u64) = unat c" by (simp only: unat_of_nat) simp
    then show ?thesis by simp
  qed
  ultimately show ?thesis
    by (simp add: digit_val_def unat_sub word_le_nat_alt)
qed

text \<open>The overflow test of the loop is exact.\<close>

lemma overflow_test:
  assumes "is_digit c"
  shows "(v :: u64) > NOT 0 div 10 \<or> v = NOT 0 div 10 \<and> ucast c - 48 > (NOT 0 :: u64) mod 10 \<longleftrightarrow>
    2 ^ 64 \<le> 10 * unat v + digit_val c"
proof -
  have "unat (NOT 0 :: u64) = 18446744073709551615" by (simp add: unsigned_minus_1_eq_mask mask_eq_exp_minus_1)
  then have "unat (NOT 0 div 10 :: u64) = 1844674407370955161" "unat (NOT 0 mod 10 :: u64) = 5"
    by (simp_all only: unat_div_distrib unat_mod_distrib) simp_all
  then show ?thesis
    using digit_val_less [OF assms] delta_val [OF assms]
    by (auto simp: word_less_nat_alt word_unat_eq_iff)
qed

lemma decimal_loop_digits:
  assumes "\<forall>c \<in> set ds. is_digit c" and "rest = [] \<or> \<not> is_digit (hd rest)"
  shows "2 ^ 64 > digits_val (unat v) ds \<Longrightarrow>
      decimal_loop v n (ds @ rest) =
        (0 < n + length ds, Some (of_nat (digits_val (unat v) ds)), rest)"
    and "2 ^ 64 \<le> digits_val (unat v) ds \<Longrightarrow> \<not> fst (decimal_loop v n (ds @ rest))"
proof -
  have "(2 ^ 64 > digits_val (unat v) ds \<longrightarrow> decimal_loop v n (ds @ rest) =
        (0 < n + length ds, Some (of_nat (digits_val (unat v) ds)), rest)) \<and>
      (2 ^ 64 \<le> digits_val (unat v) ds \<longrightarrow> \<not> fst (decimal_loop v n (ds @ rest)))"
    using assms(1)
  proof (induction ds arbitrary: v n)
    case Nil
    have "unat v < 2 ^ LENGTH(64)" by (rule unsigned_less)
    with assms(2) show ?case by (cases rest) auto
  next
    case (Cons c ds)
    then have c: "is_digit c" by simp
    show ?case
    proof (cases "2 ^ 64 \<le> 10 * unat v + digit_val c")
      case True
      with digits_val_ge [of "10 * unat v + digit_val c" ds]
      have "2 ^ 64 \<le> digits_val (unat v) (c # ds)" by simp
      with True overflow_test [OF c, of v] c show ?thesis by (simp add: Let_def)
    next
      case False
      then have "unat (v * 10 + (ucast c - 48)) = 10 * unat v + digit_val c"
        using delta_val [OF c] by (simp add: unat_word_ariths mult.commute)
      with False Cons overflow_test [OF c, of v] show ?thesis by (auto simp: Let_def)
    qed
  qed
  then show "2 ^ 64 > digits_val (unat v) ds \<Longrightarrow>
      decimal_loop v n (ds @ rest) =
        (0 < n + length ds, Some (of_nat (digits_val (unat v) ds)), rest)"
    and "2 ^ 64 \<le> digits_val (unat v) ds \<Longrightarrow> \<not> fst (decimal_loop v n (ds @ rest))" by blast+
qed

lemma decimal_digits: "\<forall>c \<in> set (decimal n). is_digit c"
proof (induction n rule: decimal.induct)
  case (1 n)
  have "is_digit (of_nat (48 + d))" if "d < 10" for d
    using that by (simp add: is_digit_iff unat_of_nat del: of_nat_add)
  with 1 show ?case by (subst decimal.simps) auto
qed

lemma decimal_not_Nil [simp]: "decimal n \<noteq> []"
  by (subst decimal.simps) simp

lemma digits_val_decimal: "digits_val 0 (decimal n) = n"
proof (induction n rule: decimal.induct)
  case (1 n)
  have "digit_val (of_nat (48 + d)) = d" if "d < 10" for d
    using that by (simp add: digit_val_def unat_of_nat del: of_nat_add)
  with 1 show ?case by (subst decimal.simps) auto
qed

lemma Consume_decimal:
  assumes "n < 2 ^ 64" and "rest = [] \<or> \<not> is_digit (hd rest)"
  shows "ConsumeDecimalNumber (decimal n @ rest) = (True, Some (of_nat n), rest)"
  using decimal_loop_digits(1) [OF decimal_digits assms(2), of 0 n 0] assms(1)
  by (simp add: ConsumeDecimalNumber_def digits_val_decimal)

lemma Consume_overflow:
  assumes "2 ^ 64 \<le> n" and "rest = [] \<or> \<not> is_digit (hd rest)"
  shows "\<not> fst (ConsumeDecimalNumber (decimal n @ rest))"
  using decimal_loop_digits(2) [OF decimal_digits assms(2), of 0 n 0] assms(1)
  by (simp add: ConsumeDecimalNumber_def digits_val_decimal)

end
