(* ===== verification/Ldb_WriteBatch.thy ===== *)
theory Ldb_WriteBatch
  imports Ldb_DbFormat Ldb_Status
begin

text \<open>
  Write batches, db/write_batch.cc: a batch is its string \<open>rep_\<close>, a twelve-byte header
  (sequence number and count) and the records.  A handler is a pair of functions on a state
  of the caller; \<open>Iterate\<close> threads the state through the calls, so that the records before
  a damaged one are seen to have been delivered.

  The lemmas: a batch that was built by \<open>Put\<close>, \<open>Delete\<close> and \<open>Append\<close> iterates as the list
  of its operations, and \<open>Iterate\<close> returns on every string.
\<close>

section \<open>The operations\<close>

definition kHeader :: nat where "kHeader = 12"

definition batch_Clear :: "byte list" where
  "batch_Clear = replicate kHeader 0"

definition batch_Count :: "byte list \<Rightarrow> int option" where
  "batch_Count rep = map_option sint (DecodeFixed32 (drop 8 rep))"

definition overwrite :: "byte list \<Rightarrow> nat \<Rightarrow> byte list \<Rightarrow> byte list option" where
  "overwrite rep i bs =
     (if i + length bs \<le> length rep then Some (take i rep @ bs @ drop (i + length bs) rep) else None)"

definition batch_SetCount :: "byte list \<Rightarrow> int \<Rightarrow> byte list option" where
  "batch_SetCount rep n = overwrite rep 8 (EncodeFixed32 (of_int n))"

definition batch_Sequence :: "byte list \<Rightarrow> SequenceNumber option" where
  "batch_Sequence rep = DecodeFixed64 rep"

definition batch_SetSequence :: "byte list \<Rightarrow> SequenceNumber \<Rightarrow> byte list option" where
  "batch_SetSequence rep seq = overwrite rep 0 (EncodeFixed64 seq)"

definition batch_Put :: "byte list \<Rightarrow> slice \<Rightarrow> slice \<Rightarrow> byte list option" where
  "batch_Put rep key value =
     do { n \<leftarrow> batch_Count rep;
          rep1 \<leftarrow> batch_SetCount rep (n + 1);
          Some (PutLengthPrefixedSlice (PutLengthPrefixedSlice (rep1 @ [kTypeValue]) key) value) }"

definition batch_Delete :: "byte list \<Rightarrow> slice \<Rightarrow> byte list option" where
  "batch_Delete rep key =
     do { n \<leftarrow> batch_Count rep;
          rep1 \<leftarrow> batch_SetCount rep (n + 1);
          Some (PutLengthPrefixedSlice (rep1 @ [kTypeDeletion]) key) }"

definition batch_Append :: "byte list \<Rightarrow> byte list \<Rightarrow> byte list option" where
  "batch_Append dst src =
     do { m \<leftarrow> batch_Count dst;
          n \<leftarrow> batch_Count src;
          dst1 \<leftarrow> batch_SetCount dst (m + n);
          if length src \<ge> kHeader then Some (dst1 @ drop kHeader src) else None }"

definition batch_SetContents :: "slice \<Rightarrow> byte list option" where
  "batch_SetContents contents = (if length contents \<ge> kHeader then Some contents else None)"

record 'h handler =
  h_Put :: "slice \<Rightarrow> slice \<Rightarrow> 'h \<Rightarrow> 'h"
  h_Delete :: "slice \<Rightarrow> 'h \<Rightarrow> 'h"

text \<open>
  One record: the status if the loop returns, and the input and the handler's state behind
  it.
\<close>

definition batch_record :: "'h handler \<Rightarrow> byte \<Rightarrow> slice \<Rightarrow> 'h \<Rightarrow> Status \<times> slice \<times> 'h" where
  "batch_record handler tag input h =
     (if tag = kTypeValue
      then (case GetLengthPrefixedSlice input of
          (Some key, input1) \<Rightarrow>
            (case GetLengthPrefixedSlice input1 of
              (Some value, input2) \<Rightarrow> (OK, input2, h_Put handler key value h)
            | (None, input2) \<Rightarrow> (corruption ''bad WriteBatch Put'', input2, h))
        | (None, input1) \<Rightarrow> (corruption ''bad WriteBatch Put'', input1, h))
      else if tag = kTypeDeletion
      then (case GetLengthPrefixedSlice input of
          (Some key, input1) \<Rightarrow> (OK, input1, h_Delete handler key h)
        | (None, input1) \<Rightarrow> (corruption ''bad WriteBatch Delete'', input1, h))
      else (corruption ''unknown WriteBatch tag'', input, h))"

lemma GetLengthPrefixedSlice_le: "GetLengthPrefixedSlice p = (r, q) \<Longrightarrow> length q \<le> length p"
  by (cases "GetVarint32 p")
     (auto simp: GetLengthPrefixedSlice_def split: if_splits dest!: GetVarint_shorter(1))

lemma batch_record_shorter: "batch_record handler tag input h = (s, q, h') \<Longrightarrow> length q \<le> length input"
  by (auto simp: batch_record_def split: prod.splits option.splits if_splits
      dest!: GetLengthPrefixedSlice_le)

function batch_loop :: "'h handler \<Rightarrow> slice \<Rightarrow> int \<Rightarrow> 'h \<Rightarrow> Status \<times> int \<times> 'h" where
  "batch_loop handler input found h =
     (case input of [] \<Rightarrow> (OK, found, h)
      | tag # rest \<Rightarrow>
          (case batch_record handler tag rest h of (s, q, h1) \<Rightarrow>
             if status_ok s then batch_loop handler q (found + 1) h1 else (s, found + 1, h1)))"
  by pat_completeness auto
termination
  by (relation "measure (\<lambda>(_, input, _, _). length input)")
     (auto dest!: batch_record_shorter [OF sym] simp: le_imp_less_Suc)

declare batch_loop.simps [simp del]

definition batch_Iterate :: "'h handler \<Rightarrow> byte list \<Rightarrow> 'h \<Rightarrow> (Status \<times> 'h) option" where
  "batch_Iterate handler rep h =
     (if length rep < kHeader
      then Some (corruption ''malformed WriteBatch (too small)'', h)
      else
        (case batch_loop handler (drop kHeader rep) 0 h of (s, found, h1) \<Rightarrow>
           if status_ok s
           then do { n \<leftarrow> batch_Count rep;
                     Some (if found \<noteq> n then corruption ''WriteBatch has wrong count'' else OK, h1) }
           else Some (s, h1)))"


section \<open>What a batch means\<close>

datatype batch_op = BPut slice slice | BDelete slice

fun op_bytes :: "batch_op \<Rightarrow> byte list" where
  "op_bytes (BPut k v) =
     kTypeValue # PutLengthPrefixedSlice [] k @ PutLengthPrefixedSlice [] v"
| "op_bytes (BDelete k) = kTypeDeletion # PutLengthPrefixedSlice [] k"

fun op_ok :: "batch_op \<Rightarrow> bool" where
  "op_ok (BPut k v) \<longleftrightarrow> length k < 2 ^ 32 \<and> length v < 2 ^ 32"
| "op_ok (BDelete k) \<longleftrightarrow> length k < 2 ^ 32"

fun op_run :: "'h handler \<Rightarrow> batch_op \<Rightarrow> 'h \<Rightarrow> 'h" where
  "op_run handler (BPut k v) h = h_Put handler k v h"
| "op_run handler (BDelete k) h = h_Delete handler k h"

definition batch_of :: "SequenceNumber \<Rightarrow> batch_op list \<Rightarrow> byte list" where
  "batch_of seq ops =
     EncodeFixed64 seq @ EncodeFixed32 (of_nat (length ops)) @ concat (map op_bytes ops)"

fun apply_op :: "byte list \<Rightarrow> batch_op \<Rightarrow> byte list option" where
  "apply_op rep (BPut k v) = batch_Put rep k v"
| "apply_op rep (BDelete k) = batch_Delete rep k"

fun apply_ops :: "byte list \<Rightarrow> batch_op list \<Rightarrow> byte list option" where
  "apply_ops rep [] = Some rep"
| "apply_ops rep (b # ops) = do { rep1 \<leftarrow> apply_op rep b; apply_ops rep1 ops }"

lemma length_batch_of: "kHeader \<le> length (batch_of seq ops)"
  by (simp add: batch_of_def kHeader_def)

lemma drop_batch_of [simp]: "drop kHeader (batch_of seq ops) = concat (map op_bytes ops)"
  by (simp add: batch_of_def kHeader_def)

lemma batch_Count_of: "batch_Count (batch_of seq ops) = Some (sint (of_nat (length ops) :: u32))"
  by (simp add: batch_Count_def batch_of_def)

lemma batch_Sequence_of [simp]: "batch_Sequence (batch_of seq ops) = Some seq"
  by (simp add: batch_Sequence_def batch_of_def)

lemma batch_SetCount_of:
  "batch_SetCount (batch_of seq ops) n =
    Some (EncodeFixed64 seq @ EncodeFixed32 (of_int n) @ concat (map op_bytes ops))"
  by (simp add: batch_SetCount_def overwrite_def batch_of_def)

lemma batch_SetSequence_of [simp]:
  "batch_SetSequence (batch_of seq ops) seq' = Some (batch_of seq' ops)"
  by (simp add: batch_SetSequence_def overwrite_def batch_of_def)

lemma of_int_sint_Suc: "of_int (sint (of_nat n :: u32) + 1) = (of_nat (Suc n) :: u32)"
  by simp

lemma Clear_batch_of: "batch_Clear = batch_of 0 []"
  by (simp add: batch_Clear_def batch_of_def kHeader_def EncodeFixed32_le EncodeFixed64_le
      le_bytes_def map_replicate_const replicate_add [symmetric])

lemma apply_op_of: "apply_op (batch_of seq ops) b = Some (batch_of seq (ops @ [b]))"
proof -
  have c: "of_int (sint (of_nat (length ops) :: u32) + 1) = (of_nat (length (ops @ [b])) :: u32)"
    by simp
  show ?thesis
  proof (cases b)
    case (BPut k v)
    with c show ?thesis
      by (simp add: batch_Put_def batch_Count_of batch_SetCount_of del: of_int_add)
         (simp add: batch_of_def PutLengthPrefixedSlice_def PutVarint32_def)
  next
    case (BDelete k)
    with c show ?thesis
      by (simp add: batch_Delete_def batch_Count_of batch_SetCount_of del: of_int_add)
         (simp add: batch_of_def PutLengthPrefixedSlice_def PutVarint32_def)
  qed
qed

lemma apply_ops_of: "apply_ops (batch_of seq ops) ops' = Some (batch_of seq (ops @ ops'))"
  by (induction ops' arbitrary: ops) (simp_all add: apply_op_of)

lemma batch_Append_of:
  "batch_Append (batch_of seq ops) (batch_of seq' ops') = Some (batch_of seq (ops @ ops'))"
proof -
  have "of_int (sint (of_nat (length ops) :: u32) + sint (of_nat (length ops') :: u32))
      = (of_nat (length (ops @ ops')) :: u32)" by simp
  then show ?thesis
    using length_batch_of [of seq' ops']
    by (simp add: batch_Append_def batch_Count_of batch_SetCount_of del: of_int_add)
       (simp add: batch_of_def)
qed

lemma tags_distinct [simp]: "kTypeValue \<noteq> kTypeDeletion" "kTypeDeletion \<noteq> kTypeValue"
  by (simp_all add: kTypeValue_def kTypeDeletion_def)

lemma batch_record_op:
  assumes "op_ok b" and "op_bytes b = tag # bs"
  shows "batch_record handler tag (bs @ rest) h = (OK, rest, op_run handler b h)"
  using assms by (cases b) (auto simp: batch_record_def)

lemma batch_loop_ops:
  assumes "\<forall>b \<in> set ops. op_ok b"
  shows "batch_loop handler (concat (map op_bytes ops)) n h =
    (OK, n + int (length ops), fold (op_run handler) ops h)"
  using assms
proof (induction ops arbitrary: n h)
  case Nil
  then show ?case by (simp add: batch_loop.simps)
next
  case (Cons b ops)
  obtain tag bs where b: "op_bytes b = tag # bs" by (cases b) auto
  with Cons batch_record_op [OF _ b, of handler "concat (map op_bytes ops)" h] show ?case
    by (subst batch_loop.simps) simp
qed

lemma sint_small_count: "n < 2 ^ 31 \<Longrightarrow> sint (of_nat n :: u32) = int n"
proof -
  assume n: "n < 2 ^ 31"
  then have "int n < 2 ^ 31" by simp
  then have "signed_take_bit 31 (int n) = int n" by (intro signed_take_bit_int_eq_self) auto
  then show ?thesis by (simp add: signed_of_nat)
qed

lemma batch_Iterate_of:
  assumes "\<forall>b \<in> set ops. op_ok b" and "length ops < 2 ^ 31"
  shows "batch_Iterate handler (batch_of seq ops) h = Some (OK, fold (op_run handler) ops h)"
  using assms length_batch_of [of seq ops]
  by (simp add: batch_Iterate_def batch_loop_ops batch_Count_of sint_small_count)

lemma batch_Iterate_total: "\<exists>s h'. batch_Iterate handler rep h = Some (s, h')"
proof -
  have "batch_Count rep \<noteq> None" if "\<not> length rep < kHeader"
    using that by (simp add: batch_Count_def kHeader_def DecodeFixed32_defined)
  then show ?thesis
    by (auto simp: batch_Iterate_def split: prod.splits)
qed

end
