(* ===== verification/Ldb_MemTable.thy ===== *)
theory Ldb_MemTable
  imports Ldb_SkipListSpec Ldb_WriteBatch
begin

text \<open>
  The memtable, db/memtable.cc, and the insertion of a write batch into it,
  db/write_batch.cc.  A key of the skip list is a pointer to an entry in the arena: the
  model has the bytes of the entry.  The entries are never changed, so sharing does not
  matter.

  The lemmas: entries are ordered as their internal keys, \<open>Add\<close> adds an entry to the
  contents, and \<open>Get\<close> answers with the newest entry of the user key that the snapshot
  sees.
\<close>

section \<open>The operations\<close>

text \<open>
  The static \<open>GetLengthPrefixedSlice\<close> trusts its data: it looks at no more than five bytes
  for the length and does not check that the bytes of the slice are there.  The model
  returns None where the code would leave the entry.  The second result is what is behind
  the slice.
\<close>

definition entry_varint :: "byte list \<Rightarrow> (u32 \<times> byte list) option" where
  "entry_varint data =
     do { (len, q) \<leftarrow> GetVarint32Ptr (take 5 data);
          Some (len, drop (length (take 5 data) - length q) data) }"

definition entry_slice :: "byte list \<Rightarrow> (slice \<times> byte list) option" where
  "entry_slice data =
     do { (len, p) \<leftarrow> entry_varint data;
          if unat len \<le> length p then Some (take (unat len) p, drop (unat len) p) else None }"

definition KeyComparator :: "comparator \<Rightarrow> byte list \<Rightarrow> byte list \<Rightarrow> int option" where
  "KeyComparator user_comparator aptr bptr =
     do { (a, _) \<leftarrow> entry_slice aptr;
          (b, _) \<leftarrow> entry_slice bptr;
          ikey_Compare user_comparator a b }"

definition EncodeKey :: "slice \<Rightarrow> byte list" where
  "EncodeKey target = PutVarint32 [] (of_nat (length target)) @ target"

record memtable =
  mt_comparator :: comparator
  mt_refs :: int
  mt_table :: "byte list skiplist"

definition MemTable :: "comparator \<Rightarrow> memtable" where
  "MemTable cmp = \<lparr>mt_comparator = cmp, mt_refs = 0, mt_table = SkipList []\<rparr>"

definition mt_Ref :: "memtable \<Rightarrow> memtable" where
  "mt_Ref m = m\<lparr>mt_refs := mt_refs m + 1\<rparr>"

text \<open>The result is None where the assertion fails; the Boolean says that the table is deleted.\<close>

definition mt_Unref :: "memtable \<Rightarrow> (memtable \<times> bool) option" where
  "mt_Unref m =
     (let refs = mt_refs m - 1
      in if refs \<ge> 0 then Some (m\<lparr>mt_refs := refs\<rparr>, refs \<le> 0) else None)"

definition mt_Add :: "memtable \<Rightarrow> SequenceNumber \<Rightarrow> ValueType \<Rightarrow> slice \<Rightarrow> slice \<Rightarrow> memtable option" where
  "mt_Add m s type key value =
     (let key_size = length key; val_size = length value;
          internal_key_size = key_size + 8;
          encoded_len = VarintLength (of_nat internal_key_size) + internal_key_size +
            VarintLength (of_nat val_size) + val_size;
          buf = EncodeVarint32 (of_nat internal_key_size) @ key @
            EncodeFixed64 (push_bit 8 s OR ucast type) @
            EncodeVarint32 (of_nat val_size) @ value
      in if length buf = encoded_len
         then do { t \<leftarrow> skip_Insert (KeyComparator (mt_comparator m)) (mt_table m) buf;
                   Some (m\<lparr>mt_table := t\<rparr>) }
         else None)"

text \<open>Whether the key was found, \<open>*value\<close> and \<open>*s\<close> where they were assigned.\<close>

definition mt_Get :: "memtable \<Rightarrow> LookupKey \<Rightarrow> (bool \<times> byte list option \<times> Status option) option" where
  "mt_Get m key =
     do { it \<leftarrow> skip_iter_Seek (KeyComparator (mt_comparator m)) (mt_table m) (memtable_key key);
          if \<not> iter_Valid it then Some (False, None, None)
          else do {
            entry \<leftarrow> iter_key (mt_table m) it;
            (key_length, key_ptr) \<leftarrow> entry_varint entry;
            let n = unat key_length;
            if n < 8 \<or> length key_ptr < n then None
            else do {
              r \<leftarrow> Compare (mt_comparator m) (take (n - 8) key_ptr) (lookup_user_key key);
              if r = 0
              then do {
                tag \<leftarrow> DecodeFixed64 (drop (n - 8) key_ptr);
                let type = (ucast (tag AND 0xff) :: ValueType);
                if type = kTypeValue
                then do { (v, _) \<leftarrow> entry_slice (drop n key_ptr); Some (True, Some v, None) }
                else if type = kTypeDeletion then Some (True, None, Some (NotFound [] []))
                else Some (False, None, None) }
              else Some (False, None, None) } } }"

text \<open>The memtable iterator: the iterator of the table, with keys and values taken apart.\<close>

definition mt_iter_Seek :: "memtable \<Rightarrow> slice \<Rightarrow> nat option option" where
  "mt_iter_Seek m k = skip_iter_Seek (KeyComparator (mt_comparator m)) (mt_table m) (EncodeKey k)"

definition mt_iter_key :: "memtable \<Rightarrow> nat option \<Rightarrow> slice option" where
  "mt_iter_key m it = do { e \<leftarrow> iter_key (mt_table m) it; (k, _) \<leftarrow> entry_slice e; Some k }"

definition mt_iter_value :: "memtable \<Rightarrow> nat option \<Rightarrow> slice option" where
  "mt_iter_value m it =
     do { e \<leftarrow> iter_key (mt_table m) it;
          (_, rest) \<leftarrow> entry_slice e;
          (v, _) \<leftarrow> entry_slice rest;
          Some v }"

text \<open>
  \<open>MemTableInserter\<close>: the state is the next sequence number and the memtable, None once an
  insertion has no defined result.
\<close>

definition MemTableInserter :: "(SequenceNumber \<times> memtable option) handler" where
  "MemTableInserter =
     \<lparr>h_Put = (\<lambda>k v (s, m). (s + 1, do { m1 \<leftarrow> m; mt_Add m1 s kTypeValue k v })),
      h_Delete = (\<lambda>k (s, m). (s + 1, do { m1 \<leftarrow> m; mt_Add m1 s kTypeDeletion k [] }))\<rparr>"

definition InsertInto :: "byte list \<Rightarrow> memtable \<Rightarrow> (Status \<times> memtable) option" where
  "InsertInto b m =
     do { seq \<leftarrow> batch_Sequence b;
          (s, _, m1) \<leftarrow> batch_Iterate MemTableInserter b (seq, Some m);
          m2 \<leftarrow> m1;
          Some (s, m2) }"


section \<open>Entries\<close>

definition mem_entry :: "slice \<Rightarrow> u64 \<Rightarrow> slice \<Rightarrow> byte list" where
  "mem_entry u n v = PutLengthPrefixedSlice (PutLengthPrefixedSlice [] (u @ EncodeFixed64 n)) v"

lemma entry_varint_Encode: "entry_varint (EncodeVarint32 n @ rest) = Some (n, rest)"
proof -
  let ?e = "EncodeVarint32 n"
  have "length ?e \<le> 5" by (rule EncodeVarint32_length)
  then have t: "take 5 (?e @ rest) = ?e @ take (5 - length ?e) rest" by simp
  have "GetVarint32Ptr (take 5 (?e @ rest)) = Some (n, take (5 - length ?e) rest)"
    unfolding t using GetVarint32_Encode [of n] by (simp only: GetVarint32_def)
  moreover have "length (take 5 (?e @ rest)) - length (take (5 - length ?e) rest) = length ?e"
    unfolding t by simp
  ultimately show ?thesis by (simp add: entry_varint_def)
qed

lemma entry_slice_Put:
  "length v < 2 ^ 32 \<Longrightarrow> entry_slice (PutLengthPrefixedSlice [] v @ rest) = Some (v, rest)"
  by (simp add: entry_slice_def PutLengthPrefixedSlice_def PutVarint32_def entry_varint_Encode unat_of_nat)

lemma entry_slice_mem_entry:
  assumes "length u + 8 < 2 ^ 32"
  shows "entry_slice (mem_entry u n v) = Some (u @ EncodeFixed64 n, PutLengthPrefixedSlice [] v)"
  using entry_slice_Put [of "u @ EncodeFixed64 n" "PutLengthPrefixedSlice [] v"] assms
  by (simp add: mem_entry_def Put_append(1) [of "PutLengthPrefixedSlice _ _"])

lemma entry_slice_lookup:
  assumes "length u + 8 < 2 ^ 32"
  shows "entry_slice (memtable_key (LookupKey_make u s)) =
    Some (u @ EncodeFixed64 (PackSequenceAndType s kValueTypeForSeek), [])"
proof -
  have "memtable_key (LookupKey_make u s) = PutLengthPrefixedSlice []
      (u @ EncodeFixed64 (PackSequenceAndType s kValueTypeForSeek)) @ []"
    by (simp add: LookupKey_make_sel InternalKey_eq PutLengthPrefixedSlice_def PutVarint32_def)
  then show ?thesis using assms by (simp only:) (rule entry_slice_Put, simp)
qed

text \<open>An order on what the entries decode to is an order on the entries.\<close>

lemma weak_order_decode:
  assumes "weak_order cmp V" and "\<And>e. e \<in> W \<Longrightarrow> \<exists>k \<in> V. \<exists>r. dec e = Some (k, r)"
  shows "weak_order (\<lambda>a b. do { (x, _) \<leftarrow> dec a; (y, _) \<leftarrow> dec b; cmp x y }) W"
proof
  fix a b c r s
  assume "a \<in> W"
  then obtain x rx where a: "x \<in> V" "dec a = Some (x, rx)" using assms(2) by blast
  then show "(do { (x, _) \<leftarrow> dec a; (y, _) \<leftarrow> dec a; cmp x y }) = Some 0"
    using weak_order.same [OF assms(1) a(1)] by simp
  assume "b \<in> W"
  then obtain y ry where b: "y \<in> V" "dec b = Some (y, ry)" using assms(2) by blast
  show "\<exists>r. (do { (x, _) \<leftarrow> dec a; (y, _) \<leftarrow> dec b; cmp x y }) = Some r"
    using weak_order.defined [OF assms(1) a(1) b(1)] a b by simp
  show "(do { (x, _) \<leftarrow> dec a; (y, _) \<leftarrow> dec b; cmp x y }) = Some r \<Longrightarrow> r < 0 \<Longrightarrow>
      \<exists>r' > 0. (do { (x, _) \<leftarrow> dec b; (y, _) \<leftarrow> dec a; cmp x y }) = Some r'"
    using weak_order.flip [OF assms(1) a(1) b(1)] a b by simp
  show "(do { (x, _) \<leftarrow> dec a; (y, _) \<leftarrow> dec b; cmp x y }) = Some r \<Longrightarrow> 0 < r \<Longrightarrow>
      \<exists>r' < 0. (do { (x, _) \<leftarrow> dec b; (y, _) \<leftarrow> dec a; cmp x y }) = Some r'"
    using weak_order.flip_pos [OF assms(1) a(1) b(1)] a b by simp
  assume "c \<in> W"
  then obtain z rz where c: "z \<in> V" "dec c = Some (z, rz)" using assms(2) by blast
  show "(do { (x, _) \<leftarrow> dec a; (y, _) \<leftarrow> dec b; cmp x y }) = Some r \<Longrightarrow> r \<le> 0 \<Longrightarrow>
      (do { (x, _) \<leftarrow> dec b; (y, _) \<leftarrow> dec c; cmp x y }) = Some s \<Longrightarrow> s \<le> 0 \<Longrightarrow>
      \<exists>t \<le> 0. (do { (x, _) \<leftarrow> dec a; (y, _) \<leftarrow> dec c; cmp x y }) = Some t"
    using weak_order.trans [OF assms(1) a(1) b(1) c(1)] a b c by simp
qed

definition mem_entries :: "slice set \<Rightarrow> byte list set" where
  "mem_entries valid = {e. \<exists>k \<in> ikeys valid. \<exists>r. entry_slice e = Some (k, r)}"

definition user_ok :: "slice set \<Rightarrow> slice \<Rightarrow> bool" where
  "user_ok valid u \<longleftrightarrow> u \<in> valid \<and> length u + 8 < 2 ^ 32"

definition mem_inv :: "comparator \<Rightarrow> slice set \<Rightarrow> memtable \<Rightarrow> (slice \<times> u64 \<times> slice) list \<Rightarrow> bool" where
  "mem_inv c valid m E \<longleftrightarrow>
     mt_comparator m = c \<and>
     (\<exists>order. skip_inv (KeyComparator c) (mem_entries valid) (mt_table m) order \<and>
        skip_keys (mt_table m) order = map (\<lambda>(u, n, v). mem_entry u n v) E) \<and>
     (\<forall>(u, n, v) \<in> set E. user_ok valid u \<and> length v < 2 ^ 32)"

lemma MemTable_inv: "mem_inv c valid (MemTable c) []"
  by (simp add: mem_inv_def MemTable_def skip_keys_def SkipList_inv [of _ _ "[]"] exI [of _ "[]"])

lemma VarintLength_Encode: "n < 2 ^ 32 \<Longrightarrow> VarintLength (of_nat n) = length (EncodeVarint32 (of_nat n))"
  by (simp add: VarintLength_leb EncodeVarint32_leb unat_of_nat)

context separating
begin

lemma mem_order: "weak_order (KeyComparator c) (mem_entries valid)"
  unfolding KeyComparator_def [abs_def]
  by (rule weak_order_decode [OF key_order.axioms(1) [OF internal_key_order]])
     (simp add: mem_entries_def)

lemma mem_entry_valid: "user_ok valid u \<Longrightarrow> mem_entry u n v \<in> mem_entries valid"
  by (auto simp: user_ok_def mem_entries_def entry_slice_mem_entry)

lemma lookup_valid: "user_ok valid u \<Longrightarrow> memtable_key (LookupKey_make u s) \<in> mem_entries valid"
  by (auto simp: user_ok_def mem_entries_def entry_slice_lookup)

lemma mem_entry_compare:
  assumes "user_ok valid u" "user_ok valid w"
  shows "KeyComparator c (mem_entry u m x) (mem_entry w n y) =
      ikey_Compare c (u @ EncodeFixed64 m) (w @ EncodeFixed64 n)"
    and "KeyComparator c (mem_entry u m x) (memtable_key (LookupKey_make w s)) =
      ikey_Compare c (u @ EncodeFixed64 m)
        (w @ EncodeFixed64 (PackSequenceAndType s kValueTypeForSeek))"
  using assms by (simp_all add: KeyComparator_def user_ok_def entry_slice_mem_entry entry_slice_lookup)

theorem Add:
  assumes inv: "mem_inv c valid m E" and u: "user_ok valid u" and v: "length v < 2 ^ 32"
    and fresh: "\<forall>w. (u, PackSequenceAndType s t, w) \<notin> set E"
  shows "\<exists>m' E'. mt_Add m s t u v = Some m' \<and> mem_inv c valid m' E' \<and>
    set E' = insert (u, PackSequenceAndType s t, v) (set E)"
proof -
  let ?n = "PackSequenceAndType s t" and ?cmp = "KeyComparator c"
  let ?e = "mem_entry u ?n v" and ?f = "\<lambda>(u, n, v). mem_entry u n v"
  obtain order where sk: "skip_inv ?cmp (mem_entries valid) (mt_table m) order"
    and keys: "skip_keys (mt_table m) order = map ?f E"
    and ok: "\<forall>(u, n, v) \<in> set E. user_ok valid u \<and> length v < 2 ^ 32" and c: "mt_comparator m = c"
    using inv by (auto simp: mem_inv_def)
  note weak_order.Insert [OF mem_order sk mem_entry_valid [OF u, of ?n v]]
  moreover have "\<forall>k \<in> set (skip_keys (mt_table m) order). ?cmp ?e k \<noteq> Some 0"
  proof
    fix k assume "k \<in> set (skip_keys (mt_table m) order)"
    then obtain w n x where k: "k = mem_entry w n x" "(w, n, x) \<in> set E" by (auto simp: keys)
    then have w: "user_ok valid w" using ok by auto
    have "\<not> (u = w \<and> ?n = n)" using fresh k(2) by auto
    from u w have "u \<in> valid" "w \<in> valid" by (simp_all add: user_ok_def)
    from ikey_defined [OF this, of ?n n] obtain r
      where "ikey_Compare c (u @ EncodeFixed64 ?n) (w @ EncodeFixed64 n) = Some r"
        and "r = 0 \<longleftrightarrow> u = w \<and> ?n = n" by blast
    then show "?cmp ?e k \<noteq> Some 0"
      using \<open>\<not> (u = w \<and> ?n = n)\<close> unfolding k(1) mem_entry_compare(1) [OF u w] by auto
  qed
  ultimately obtain sl order' where ins: "skip_Insert ?cmp (mt_table m) ?e = Some sl"
    and sk': "skip_inv ?cmp (mem_entries valid) sl order'"
    and keys': "skip_keys sl order' = weak_order.ins ?cmp ?e (map ?f E)"
    unfolding keys by blast
  define k where "k = length (takeWhile (\<lambda>x. weak_order.lt ?cmp x ?e) (map ?f E))"
  define E' where "E' = take k E @ (u, ?n, v) # drop k E"
  have "skip_keys sl order' = map ?f E'"
  proof -
    have "take k (map ?f E) = takeWhile (\<lambda>x. weak_order.lt ?cmp x ?e) (map ?f E)"
      "drop k (map ?f E) = dropWhile (\<lambda>x. weak_order.lt ?cmp x ?e) (map ?f E)"
      unfolding k_def by (rule takeWhile_eq_take [symmetric], rule dropWhile_eq_drop [symmetric])
    then show ?thesis
      unfolding keys' weak_order.ins_def [OF mem_order] E'_def by (simp add: take_map drop_map)
  qed
  moreover have set_E': "set E' = insert (u, ?n, v) (set E)"
    unfolding E'_def by simp (metis append_take_drop_id set_append)
  moreover have "mt_Add m s t u v = Some (m\<lparr>mt_table := sl\<rparr>)"
  proof -
    have b: "EncodeVarint32 (of_nat (length u + 8)) @ u @ EncodeFixed64 (push_bit 8 s OR ucast t) @
        EncodeVarint32 (of_nat (length v)) @ v = ?e"
      by (simp add: mem_entry_def PutLengthPrefixedSlice_def PutVarint32_def PackSequenceAndType_def)
    have "VarintLength (of_nat (length u + 8)) = length (EncodeVarint32 (of_nat (length u + 8)))"
      "VarintLength (of_nat (length v)) = length (EncodeVarint32 (of_nat (length v)))"
      using u v VarintLength_Encode by (simp_all only: user_ok_def)
    then have "length ?e = VarintLength (of_nat (length u + 8)) + (length u + 8) +
        VarintLength (of_nat (length v)) + length v"
      unfolding b [symmetric] by simp
    with b ins c show ?thesis by (simp only: mt_Add_def Let_def) simp
  qed
  ultimately show ?thesis using sk' ok u v c unfolding mem_inv_def
    by (intro exI [of _ "m\<lparr>mt_table := sl\<rparr>"] exI [of _ E']) auto
qed

end


section \<open>Lookup\<close>

text \<open>The newest entry of a user key among those a snapshot sees, and what \<open>Get\<close> makes of it.\<close>

definition newest :: "(slice \<times> u64 \<times> slice) set \<Rightarrow> slice \<Rightarrow> u64 \<Rightarrow> (u64 \<times> slice) option \<Rightarrow> bool" where
  "newest S u N r \<longleftrightarrow>
     (case r of None \<Rightarrow> \<forall>n v. (u, n, v) \<in> S \<longrightarrow> \<not> n \<le> N
      | Some (n, v) \<Rightarrow> (u, n, v) \<in> S \<and> n \<le> N \<and> (\<forall>n' v'. (u, n', v') \<in> S \<longrightarrow> n' \<le> N \<longrightarrow> n' \<le> n))"

definition answer :: "(u64 \<times> slice) option \<Rightarrow> bool \<times> byte list option \<times> Status option" where
  "answer r =
     (case r of None \<Rightarrow> (False, None, None)
      | Some (n, v) \<Rightarrow>
          if ucast (n AND 0xff) = kTypeValue then (True, Some v, None)
          else if ucast (n AND 0xff) = kTypeDeletion then (True, None, Some (NotFound [] []))
          else (False, None, None))"

lemma entry_varint_mem_entry:
  "length u + 8 < 2 ^ 32 \<Longrightarrow> entry_varint (mem_entry u n v) =
    Some (of_nat (length u + 8), u @ EncodeFixed64 n @ PutLengthPrefixedSlice [] v)"
  by (simp add: mem_entry_def PutLengthPrefixedSlice_def PutVarint32_def entry_varint_Encode)

context separating
begin

text \<open>The test on the entry that the seek has found.\<close>

lemma Get_found:
  assumes "mt_comparator m = c" and w: "user_ok valid w" and v: "length v < 2 ^ 32"
    and u: "user_ok valid u"
    and "skip_iter_Seek (KeyComparator c) (mt_table m) (memtable_key (LookupKey_make u s)) = Some (Some i)"
    and "node_key_at (mt_table m) i = Some (mem_entry w n v)"
  shows "mt_Get m (LookupKey_make u s) = Some (if w = u then answer (Some (n, v)) else answer None)"
proof -
  have len: "unat (of_nat (length w + 8) :: u32) = length w + 8"
    using w by (simp add: user_ok_def unat_of_nat del: of_nat_add)
  have slice: "entry_slice (PutLengthPrefixedSlice [] v) = Some (v, [])"
    using entry_slice_Put [OF v, of "[]"] by simp
  obtain r where r: "Compare c w u = Some r" "r = 0 \<longleftrightarrow> w = u"
    using eq_cases [of w u] w u by (auto simp: user_ok_def)
  have v': "entry_varint (mem_entry w n v) =
      Some (of_nat (length w + 8), w @ EncodeFixed64 n @ PutLengthPrefixedSlice [] v)"
    using w by (intro entry_varint_mem_entry) (simp add: user_ok_def)
  show ?thesis
    using assms(1,5,6) r slice
    by (simp add: mt_Get_def iter_Valid_def iter_key_def v' len LookupKey_make_sel answer_def
        del: of_nat_add)
qed

theorem Get:
  assumes inv: "mem_inv c valid m E" and u: "user_ok valid u"
  shows "\<exists>r. newest (set E) u (PackSequenceAndType s kValueTypeForSeek) r \<and>
    mt_Get m (LookupKey_make u s) = Some (answer r)"
proof -
  let ?N = "PackSequenceAndType s kValueTypeForSeek" and ?cmp = "KeyComparator c"
  let ?f = "\<lambda>(u, n, v). mem_entry u n v" and ?lk = "memtable_key (LookupKey_make u s)"
  let ?lt = "weak_order.lt ?cmp"
  obtain order where sk: "skip_inv ?cmp (mem_entries valid) (mt_table m) order"
    and keys: "skip_keys (mt_table m) order = map ?f E"
    and ok: "\<forall>(u, n, v) \<in> set E. user_ok valid u \<and> length v < 2 ^ 32" and c: "mt_comparator m = c"
    using inv by (auto simp: mem_inv_def)
  note lt_def = weak_order.lt_def [OF mem_order]
  have lt_lk: "?lt (mem_entry w n x) ?lk \<longleftrightarrow> lt w u \<or> w = u \<and> n > ?N" if "(w, n, x) \<in> set E" for w n x
  proof -
    from that ok have w: "user_ok valid w" by auto
    then have "w \<in> valid" "u \<in> valid" using u by (simp_all add: user_ok_def)
    then show ?thesis unfolding lt_def mem_entry_compare(2) [OF w u] by (rule ikey_lt)
  qed
  have lt_e: "?lt (mem_entry w n x) (mem_entry w' n' x') \<longleftrightarrow> lt w w' \<or> w = w' \<and> n > n'"
    if "(w, n, x) \<in> set E" "(w', n', x') \<in> set E" for w n x w' n' x'
  proof -
    from that ok have w: "user_ok valid w" "user_ok valid w'" by auto
    then have "w \<in> valid" "w' \<in> valid" by (simp_all add: user_ok_def)
    then show ?thesis unfolding lt_def mem_entry_compare(1) [OF w] by (rule ikey_lt)
  qed
  let ?seek = "find (\<lambda>i. \<not> ?lt (key_of (mt_table m) i) ?lk) order"
  have seek: "skip_iter_Seek ?cmp (mt_table m) ?lk = Some ?seek"
    by (rule weak_order.Seek [OF mem_order sk lookup_valid [OF u]])
  show ?thesis
  proof (cases ?seek)
    case None
    then have "\<forall>k \<in> set (skip_keys (mt_table m) order). ?lt k ?lk" by (auto simp: find_none skip_keys_def)
    then have "\<forall>e \<in> set E. ?lt (?f e) ?lk" unfolding keys by simp
    then have "newest (set E) u ?N None"
      using lt_lk lt_irrefl u by (fastforce simp: newest_def user_ok_def)
    moreover have "mt_Get m (LookupKey_make u s) = Some (answer None)"
      using seek None c by (simp add: mt_Get_def iter_Valid_def answer_def)
    ultimately show ?thesis by blast
  next
    case (Some i)
    then obtain as bs where o: "order = as @ i # bs" and nlt: "\<not> ?lt (key_of (mt_table m) i) ?lk"
      and less: "\<forall>j \<in> set as. ?lt (key_of (mt_table m) j) ?lk"
      by (rule find_SomeE) blast
    have "map ?f E = map (key_of (mt_table m)) as @ key_of (mt_table m) i # map (key_of (mt_table m)) bs"
      using keys by (simp add: skip_keys_def o)
    then obtain E1 e E2 where E: "E = E1 @ e # E2" and E1: "map ?f E1 = map (key_of (mt_table m)) as"
      and e: "?f e = key_of (mt_table m) i" and E2: "map ?f E2 = map (key_of (mt_table m)) bs"
      by (auto simp: map_eq_append_conv map_eq_Cons_conv)
    obtain w n x where [simp]: "e = (w, n, x)" by (cases e)
    have w: "user_ok valid w" and x: "length x < 2 ^ 32" using ok E by auto
    have i: "i \<in> set order" using o by simp
    have nk: "node_key_at (mt_table m) i = Some (mem_entry w n x)"
      using node_key_shape [OF weak_order.skip_invD(1) [OF mem_order sk] i] e by simp
    have get: "mt_Get m (LookupKey_make u s) = Some (if w = u then answer (Some (n, x)) else answer None)"
      by (rule Get_found [OF c w x u _ nk]) (simp only: seek Some)
    have eE: "(w, n, x) \<in> set E" by (simp add: E)
    have at_i: "\<not> (lt w u \<or> w = u \<and> n > ?N)" using nlt lt_lk [OF eE] e by simp
    have front: "lt w' u \<or> w' = u \<and> n' > ?N" if "(w', n', x') \<in> set E1" for w' n' x'
    proof -
      have "mem_entry w' n' x' \<in> set (map ?f E1)" using that by force
      then have "?lt (mem_entry w' n' x') ?lk" using less unfolding E1 by auto
      with lt_lk [of w' n' x'] that E show ?thesis by simp
    qed
    have behind: "lt w w' \<or> w = w' \<and> n > n'" if "(w', n', x') \<in> set E2" for w' n' x'
    proof -
      have "mem_entry w' n' x' \<in> set (map ?f E2)" using that by force
      then obtain j where j: "j \<in> set bs" "key_of (mt_table m) j = mem_entry w' n' x'"
        unfolding E2 by auto
      have "?lt (key_of (mt_table m) i) (key_of (mt_table m) j)"
        using weak_order.skip_invD(3) [OF mem_order sk] j(1) by (simp add: o sorted_wrt_append)
      with lt_e [OF eE, of w' n' x'] e j that E show ?thesis by simp
    qed
    note uv = u [unfolded user_ok_def, THEN conjunct1] and wv = w [unfolded user_ok_def, THEN conjunct1]
    have only: "n' \<le> n \<and> w = u" if "(u, n', x') \<in> set E" "n' \<le> ?N" for n' x'
    proof -
      note mem = that(1)
      consider "(u, n', x') \<in> set E1" | "u = w" "n' = n" | "(u, n', x') \<in> set E2"
        using mem E by auto
      then show ?thesis
      proof cases
        case 1
        with front [of u n' x'] that(2) lt_irrefl [OF uv] show ?thesis by auto
      next
        case 3
        with behind [of u n' x'] at_i show ?thesis by auto
      qed simp
    qed
    show ?thesis
    proof (cases "w = u")
      case True
      with at_i only eE have "newest (set E) u ?N (Some (n, x))" by (auto simp: newest_def)
      with get True show ?thesis by auto
    next
      case False
      with only have "newest (set E) u ?N None" by (auto simp: newest_def)
      with get False show ?thesis by auto
    qed
  qed
qed

end


section \<open>A batch in the memtable\<close>

text \<open>The entries that a list of operations stands for, from a sequence number on.\<close>

fun op_entry :: "u64 \<Rightarrow> batch_op \<Rightarrow> slice \<times> u64 \<times> slice" where
  "op_entry s (BPut k v) = (k, PackSequenceAndType s kTypeValue, v)"
| "op_entry s (BDelete k) = (k, PackSequenceAndType s kTypeDeletion, [])"

fun op_entries :: "u64 \<Rightarrow> batch_op list \<Rightarrow> (slice \<times> u64 \<times> slice) list" where
  "op_entries s [] = []"
| "op_entries s (b # ops) = op_entry s b # op_entries (s + 1) ops"

fun op_key :: "batch_op \<Rightarrow> slice" where
  "op_key (BPut k v) = k"
| "op_key (BDelete k) = k"

lemma pack_le:
  assumes "s \<le> kMaxSequenceNumber" "s' \<le> kMaxSequenceNumber"
    and "PackSequenceAndType s t \<le> PackSequenceAndType s' t'"
  shows "s \<le> s'"
proof -
  have "drop_bit 8 x \<le> drop_bit 8 y" if "x \<le> y" for x y :: u64
    using that by (simp add: word_le_nat_alt unat_drop_bit_eq) (simp add: drop_bit_eq_div div_le_mono)
  from this [OF assms(3)] assms(1,2) show ?thesis by (simp add: unpack_sequence)
qed

lemma pack_eq:
  assumes "s \<le> kMaxSequenceNumber" "s' \<le> kMaxSequenceNumber"
    and "PackSequenceAndType s t = PackSequenceAndType s' t'"
  shows "s = s'"
  using pack_le [of s s' t t'] pack_le [of s' s t' t] assms by (intro order.antisym) auto

lemma next_sequence:
  assumes "s \<le> kMaxSequenceNumber" "unat s + Suc n \<le> 2 ^ 56"
  shows "n > 0 \<Longrightarrow> s + 1 \<le> kMaxSequenceNumber" and "unat (s + 1) = unat s + 1"
proof -
  have k: "unat kMaxSequenceNumber = 2 ^ 56 - 1" by (simp add: kMaxSequenceNumber_def)
  show u: "unat (s + 1) = unat s + 1" using assms(2) by (simp add: unat_word_ariths)
  show "n > 0 \<Longrightarrow> s + 1 \<le> kMaxSequenceNumber" using assms(2) u k by (simp add: word_le_nat_alt)
qed

text \<open>The sequence numbers of the entries of a list of operations.\<close>

definition sequences_below :: "(slice \<times> u64 \<times> slice) set \<Rightarrow> u64 \<Rightarrow> bool" where
  "sequences_below S s \<longleftrightarrow>
     (\<forall>(u, n, v) \<in> S. \<exists>s' t. n = PackSequenceAndType s' t \<and> s' \<le> kMaxSequenceNumber \<and> unat s' < unat s)"

lemma fresh_below:
  assumes "sequences_below S s" and "s \<le> kMaxSequenceNumber"
  shows "(u, PackSequenceAndType s t, w) \<notin> S"
proof
  assume "(u, PackSequenceAndType s t, w) \<in> S"
  with assms obtain s' t' where "PackSequenceAndType s t = PackSequenceAndType s' t'"
    "s' \<le> kMaxSequenceNumber" "unat s' < unat s" unfolding sequences_below_def by fast
  with pack_eq [of s s' t t'] assms(2) show False by simp
qed

context separating
begin

lemma insert_ops:
  assumes "mem_inv c valid m E" and "sequences_below (set E) s"
    and "\<forall>b \<in> set ops. op_ok b \<and> user_ok valid (op_key b)"
    and "s \<le> kMaxSequenceNumber" and "unat s + length ops \<le> 2 ^ 56"
  shows "\<exists>m' E'. fold (op_run MemTableInserter) ops (s, Some m) = (s + of_nat (length ops), Some m') \<and>
    mem_inv c valid m' E' \<and> set E' = set E \<union> set (op_entries s ops)"
  using assms
proof (induction ops arbitrary: m E s)
  case Nil
  then show ?case by auto
next
  case (Cons b ops)
  obtain u n v where e: "op_entry s b = (u, n, v)" by (metis prod_cases3)
  have one: "\<exists>m' E'. op_run MemTableInserter b (s, Some m) = (s + 1, Some m') \<and>
      mem_inv c valid m' E' \<and> set E' = insert (op_entry s b) (set E)"
  proof (cases b)
    case (BPut k w)
    with Cons.prems fresh_below [of "set E" s k kTypeValue] show ?thesis
      using Add [of m E k w s kTypeValue] by (auto simp: MemTableInserter_def)
  next
    case (BDelete k)
    with Cons.prems fresh_below [of "set E" s k kTypeDeletion] show ?thesis
      using Add [of m E k "[]" s kTypeDeletion] by (auto simp: MemTableInserter_def)
  qed
  then obtain m' E' where m': "op_run MemTableInserter b (s, Some m) = (s + 1, Some m')"
    "mem_inv c valid m' E'" "set E' = insert (op_entry s b) (set E)" by blast
  show ?case
  proof (cases ops)
    case Nil
    with m' show ?thesis by auto
  next
    case Cons': (Cons b' ops')
    note nx = next_sequence [OF Cons.prems(4), of "length ops"]
    have s1: "s + 1 \<le> kMaxSequenceNumber" "unat (s + 1) = unat s + 1"
      using nx Cons.prems(5) Cons' by simp_all
    have "sequences_below (set E') (s + 1)"
      unfolding sequences_below_def m'(3)
    proof (clarsimp simp only: insert_iff)
      fix u n v
      assume "(u, n, v) = op_entry s b \<or> (u, n, v) \<in> set E"
      then show "\<exists>s' t. n = PackSequenceAndType s' t \<and> s' \<le> kMaxSequenceNumber \<and> unat s' < unat (s + 1)"
      proof
        assume "(u, n, v) = op_entry s b"
        then obtain t where "n = PackSequenceAndType s t" by (cases b) auto
        then show ?thesis using Cons.prems(4) s1(2) by auto
      next
        assume "(u, n, v) \<in> set E"
        then obtain s' t where "n = PackSequenceAndType s' t" "s' \<le> kMaxSequenceNumber" "unat s' < unat s"
          using Cons.prems(2) unfolding sequences_below_def by fast
        then show ?thesis using s1(2) by (intro exI [of _ s'] exI [of _ t]) simp
      qed
    qed
    from Cons.IH [OF m'(2) this] Cons.prems s1 obtain m2 E2
      where "fold (op_run MemTableInserter) ops (s + 1, Some m') = (s + 1 + of_nat (length ops), Some m2)"
        "mem_inv c valid m2 E2" "set E2 = set E' \<union> set (op_entries (s + 1) ops)" by auto
    with m' show ?thesis by (intro exI [of _ m2] exI [of _ E2]) (auto simp: algebra_simps)
  qed
qed

theorem InsertInto:
  assumes "mem_inv c valid m E" and "sequences_below (set E) s"
    and "\<forall>b \<in> set ops. op_ok b \<and> user_ok valid (op_key b)"
    and "s \<le> kMaxSequenceNumber" and "unat s + length ops \<le> 2 ^ 56" and "length ops < 2 ^ 31"
  shows "\<exists>m' E'. InsertInto (batch_of s ops) m = Some (OK, m') \<and> mem_inv c valid m' E' \<and>
    set E' = set E \<union> set (op_entries s ops)"
  using insert_ops [OF assms(1-5)] batch_Iterate_of [of ops MemTableInserter s "(s, Some m)"] assms(3,6)
  by (auto simp: InsertInto_def)

end

end
