(* ===== verification/Ldb_Log.thy ===== *)
theory Ldb_Log
  imports Ldb_Crc32c Ldb_Status
begin

text \<open>
  The write-ahead log: db/log_format.h, db/log_writer.cc and db/log_reader.cc.  A file is
  what the abstract classes of env.h make it: a state and functions that append, flush,
  read or skip and return a status; \<open>mem_wfile\<close> and \<open>mem_sfile\<close> are the files that are
  strings and never fail.  The reports of the reader to its \<open>Reporter\<close> are collected in a
  list.  Offsets in the file are 64-bit words, as the code computes with them modulo
  \<open>2 ^ 64\<close>.
\<close>

section \<open>The format\<close>

definition kZeroType :: nat where "kZeroType = 0"
definition kFullType :: nat where "kFullType = 1"
definition kFirstType :: nat where "kFirstType = 2"
definition kMiddleType :: nat where "kMiddleType = 3"
definition kLastType :: nat where "kLastType = 4"
definition kMaxRecordType :: nat where "kMaxRecordType = kLastType"
definition kBlockSize :: nat where "kBlockSize = 32768"
definition kHeaderSize :: nat where "kHeaderSize = 4 + 2 + 1"
definition kEof :: nat where "kEof = kMaxRecordType + 1"
definition kBadRecord :: nat where "kBadRecord = kMaxRecordType + 2"

named_theorems log_consts "constants of log_format.h and log_reader.h"

lemmas [log_consts] = kZeroType_def kFullType_def kFirstType_def kMiddleType_def kLastType_def
  kMaxRecordType_def kBlockSize_def kHeaderSize_def kEof_def kBadRecord_def


section \<open>Files\<close>

record 'f wfile =
  wf_Append :: "'f \<Rightarrow> byte list \<Rightarrow> Status \<times> 'f"
  wf_Flush :: "'f \<Rightarrow> Status \<times> 'f"

record 'f sfile =
  sf_Read :: "'f \<Rightarrow> nat \<Rightarrow> Status \<times> slice \<times> 'f"
  sf_Skip :: "'f \<Rightarrow> nat \<Rightarrow> Status \<times> 'f"

definition mem_wfile :: "byte list wfile" where
  "mem_wfile = \<lparr>wf_Append = (\<lambda>f bs. (OK, f @ bs)), wf_Flush = (\<lambda>f. (OK, f))\<rparr>"

definition mem_sfile :: "byte list sfile" where
  "mem_sfile = \<lparr>sf_Read = (\<lambda>f n. (OK, take n f, drop n f)), sf_Skip = (\<lambda>f n. (OK, drop n f))\<rparr>"


section \<open>The writer\<close>

record 'f log_writer =
  w_dest :: 'f
  block_offset :: nat

definition log_Writer :: "'f \<Rightarrow> nat \<Rightarrow> 'f log_writer" where
  "log_Writer dest dest_length = \<lparr>w_dest = dest, block_offset = dest_length mod kBlockSize\<rparr>"

definition type_crc :: "nat \<Rightarrow> u32 option" where
  "type_crc t = crc_Value 0 [of_nat t]"

definition EmitPhysicalRecord ::
    "'f wfile \<Rightarrow> 'f log_writer \<Rightarrow> nat \<Rightarrow> byte list \<Rightarrow> (Status \<times> 'f log_writer) option" where
  "EmitPhysicalRecord ops w t ptr =
     (let n = length ptr in
      if n > 0xffff \<or> block_offset w + kHeaderSize + n > kBlockSize then None
      else do {
        tc \<leftarrow> type_crc t;
        crc \<leftarrow> crc_Extend 0 tc ptr;
        let buf = EncodeFixed32 (crc_Mask crc) @ [of_nat (n mod 256), of_nat (n div 256), of_nat t];
            (s, f1) = wf_Append ops (w_dest w) buf;
            (s, f2) = (if status_ok s
                       then let (s1, f2) = wf_Append ops f1 ptr
                            in if status_ok s1 then wf_Flush ops f2 else (s1, f2)
                       else (s, f1));
            w1 = w\<lparr>w_dest := f2, block_offset := block_offset w + kHeaderSize + n\<rparr>
        in Some (s, w1) })"

text \<open>
  The switch to a new block; what \<open>Append\<close> returns for the trailer is ignored.
\<close>

definition switch_block :: "'f wfile \<Rightarrow> 'f log_writer \<Rightarrow> 'f log_writer option" where
  "switch_block ops w =
     (if block_offset w > kBlockSize then None
      else
        let leftover = kBlockSize - block_offset w in
        if leftover < kHeaderSize
        then let f = (if leftover > 0 then snd (wf_Append ops (w_dest w) (replicate leftover 0))
                      else w_dest w)
             in Some (w\<lparr>w_dest := f, block_offset := 0\<rparr>)
        else Some w)"

definition fragment_type :: "bool \<Rightarrow> bool \<Rightarrow> nat" where
  "fragment_type fst_part last_part =
     (if fst_part \<and> last_part then kFullType else if fst_part then kFirstType
      else if last_part then kLastType else kMiddleType)"

partial_function (option) add_loop ::
    "'f wfile \<Rightarrow> 'f log_writer \<Rightarrow> byte list \<Rightarrow> bool \<Rightarrow> (Status \<times> 'f log_writer) option" where
  "add_loop ops w ptr fst_part =
     do { w1 \<leftarrow> switch_block ops w;
          let avail = kBlockSize - block_offset w1 - kHeaderSize;
              fragment_length = (if length ptr < avail then length ptr else avail);
              last_part = (length ptr = fragment_length);
              type = fragment_type fst_part last_part;
              left = drop fragment_length ptr
          in do {
            (s, w2) \<leftarrow> EmitPhysicalRecord ops w1 type (take fragment_length ptr);
            if status_ok s \<and> left \<noteq> [] then add_loop ops w2 left False else Some (s, w2) } }"

definition AddRecord :: "'f wfile \<Rightarrow> 'f log_writer \<Rightarrow> slice \<Rightarrow> (Status \<times> 'f log_writer) option" where
  "AddRecord ops w contents = add_loop ops w contents True"


section \<open>The reader\<close>

record 'f log_reader =
  r_file :: 'f
  r_has_reporter :: bool
  r_reports :: "(u64 \<times> Status) list"
  r_checksum :: bool
  r_buffer :: slice
  r_eof :: bool
  last_record_offset :: u64
  end_of_buffer_offset :: u64
  initial_offset :: u64
  resyncing :: bool

definition log_Reader :: "'f \<Rightarrow> bool \<Rightarrow> bool \<Rightarrow> u64 \<Rightarrow> 'f log_reader" where
  "log_Reader file reporter checksum initial =
     \<lparr>r_file = file, r_has_reporter = reporter, r_reports = [], r_checksum = checksum, r_buffer = [],
      r_eof = False, last_record_offset = 0, end_of_buffer_offset = 0, initial_offset = initial,
      resyncing = (initial > 0)\<rparr>"

definition ReportDrop :: "'f log_reader \<Rightarrow> u64 \<Rightarrow> Status \<Rightarrow> 'f log_reader" where
  "ReportDrop r bytes reason =
     (if r_has_reporter r \<and>
         end_of_buffer_offset r - of_nat (length (r_buffer r)) - bytes \<ge> initial_offset r
      then r\<lparr>r_reports := r_reports r @ [(bytes, reason)]\<rparr> else r)"

definition ReportCorruption :: "'f log_reader \<Rightarrow> u64 \<Rightarrow> byte list \<Rightarrow> 'f log_reader" where
  "ReportCorruption r bytes reason = ReportDrop r bytes (Corruption reason [])"

definition SkipToInitialBlock :: "'f sfile \<Rightarrow> 'f log_reader \<Rightarrow> bool \<times> 'f log_reader" where
  "SkipToInitialBlock ops r =
     (let offset_in_block = initial_offset r mod of_nat kBlockSize;
          start = initial_offset r - offset_in_block;
          block_start_location =
            (if offset_in_block > of_nat (kBlockSize - 6) then start + of_nat kBlockSize else start);
          r1 = r\<lparr>end_of_buffer_offset := block_start_location\<rparr>
      in if block_start_location > 0
         then (case sf_Skip ops (r_file r1) (unat block_start_location) of (s, f) \<Rightarrow>
                let r2 = r1\<lparr>r_file := f\<rparr> in
                if \<not> status_ok s then (False, ReportDrop r2 block_start_location s) else (True, r2))
         else (True, r1))"

text \<open>
  The first half of the loop of \<open>ReadPhysicalRecord\<close>: refilling the buffer.  False means to
  return \<open>kEof\<close>, True to go round the loop again.
\<close>

definition refill :: "'f sfile \<Rightarrow> 'f log_reader \<Rightarrow> bool \<times> 'f log_reader" where
  "refill ops r =
     (case sf_Read ops (r_file r) kBlockSize of (s, bs, f) \<Rightarrow>
        let r1 = r\<lparr>r_file := f, r_buffer := bs,
                   end_of_buffer_offset := end_of_buffer_offset r + of_nat (length bs)\<rparr>
        in if \<not> status_ok s
           then (False, (ReportDrop (r1\<lparr>r_buffer := []\<rparr>) (of_nat kBlockSize) s)\<lparr>r_eof := True\<rparr>)
           else (True, if length bs < kBlockSize then r1\<lparr>r_eof := True\<rparr> else r1))"

definition header_length :: "slice \<Rightarrow> nat" where
  "header_length header =
     (let a = ucast (header ! 4) AND 0xff :: u32;
          b = ucast (header ! 5) AND 0xff :: u32
      in unat (a OR push_bit 8 b))"

definition parse_physical :: "'f log_reader \<Rightarrow> slice \<Rightarrow> (u32 \<times> slice \<times> 'f log_reader) option" where
  "parse_physical r result =
     (let header = r_buffer r;
          type = scast (header ! 6) :: u32;
          len = header_length header;
          drop_size = of_nat (length header) :: u64
      in if kHeaderSize + len > length header
         then let r1 = r\<lparr>r_buffer := []\<rparr> in
           if \<not> r_eof r
           then Some (of_nat kBadRecord, result, ReportCorruption r1 drop_size (bytes_of ''bad record length''))
           else Some (of_nat kEof, result, r1)
         else if type = of_nat kZeroType \<and> len = 0
         then Some (of_nat kBadRecord, result, r\<lparr>r_buffer := []\<rparr>)
         else do {
           stored \<leftarrow> DecodeFixed32 header;
           actual_crc \<leftarrow> crc_Value 0 (take (1 + len) (drop 6 header));
           if r_checksum r \<and> actual_crc \<noteq> crc_Unmask stored
           then Some (of_nat kBadRecord, result,
                  ReportCorruption (r\<lparr>r_buffer := []\<rparr>) drop_size (bytes_of ''checksum mismatch''))
           else
             let r1 = r\<lparr>r_buffer := drop (kHeaderSize + len) header\<rparr> in
             if end_of_buffer_offset r1 - of_nat (length (r_buffer r1)) - of_nat kHeaderSize - of_nat len
                < initial_offset r1
             then Some (of_nat kBadRecord, [], r1)
             else Some (type, take len (drop kHeaderSize header), r1) })"

text \<open>The results: the type, \<open>*result\<close> and the reader; \<open>result\<close> is what \<open>*result\<close> holds before.\<close>

partial_function (option) ReadPhysicalRecord ::
    "'f sfile \<Rightarrow> 'f log_reader \<Rightarrow> slice \<Rightarrow> (u32 \<times> slice \<times> 'f log_reader) option" where
  "ReadPhysicalRecord ops r result =
     (if length (r_buffer r) < kHeaderSize
      then if \<not> r_eof r
        then (case refill ops r of (ok, r1) \<Rightarrow>
               if ok then ReadPhysicalRecord ops r1 result else Some (of_nat kEof, result, r1))
        else Some (of_nat kEof, result, r\<lparr>r_buffer := []\<rparr>)
      else parse_physical r result)"

record 'f read_state =
  rs_reader :: "'f log_reader"
  rs_fragment :: slice
  rs_in_fragmented :: bool
  rs_prospective :: u64
  rs_scratch :: "byte list"

text \<open>
  What the switch of \<open>ReadRecord\<close> does with a physical record: go on with the loop, or
  return true with the record, or return false.
\<close>

datatype read_flow = Read_on | Read_record slice | Read_end

definition unfinished :: "'f read_state \<Rightarrow> string \<Rightarrow> 'f read_state" where
  "unfinished st msg =
     (if rs_in_fragmented st
      then if rs_scratch st = [] then st\<lparr>rs_in_fragmented := False\<rparr>
           else st\<lparr>rs_reader := ReportCorruption (rs_reader st) (of_nat (length (rs_scratch st))) (bytes_of msg)\<rparr>
      else st)"

definition unknown_type_msg :: "u32 \<Rightarrow> byte list" where
  "unknown_type_msg t = take 39 (bytes_of ''unknown record type '' @ decimal (unat t))"

definition read_switch :: "u32 \<Rightarrow> u64 \<Rightarrow> 'f read_state \<Rightarrow> read_flow \<times> 'f read_state" where
  "read_switch record_type physical_record_offset st =
     (if record_type = of_nat kFullType
      then let st1 = unfinished st ''partial record without end(1)'' in
        (Read_record (rs_fragment st1),
         st1\<lparr>rs_prospective := physical_record_offset, rs_scratch := [],
             rs_reader := (rs_reader st1)\<lparr>last_record_offset := physical_record_offset\<rparr>\<rparr>)
      else if record_type = of_nat kFirstType
      then let st1 = unfinished st ''partial record without end(2)'' in
        (Read_on, st1\<lparr>rs_prospective := physical_record_offset, rs_scratch := rs_fragment st1,
                      rs_in_fragmented := True\<rparr>)
      else if record_type = of_nat kMiddleType
      then (Read_on,
            if \<not> rs_in_fragmented st
            then st\<lparr>rs_reader := ReportCorruption (rs_reader st) (of_nat (length (rs_fragment st)))
                                  (bytes_of ''missing start of fragmented record(1)'')\<rparr>
            else st\<lparr>rs_scratch := rs_scratch st @ rs_fragment st\<rparr>)
      else if record_type = of_nat kLastType
      then if \<not> rs_in_fragmented st
        then (Read_on, st\<lparr>rs_reader := ReportCorruption (rs_reader st) (of_nat (length (rs_fragment st)))
                                  (bytes_of ''missing start of fragmented record(2)'')\<rparr>)
        else let st1 = st\<lparr>rs_scratch := rs_scratch st @ rs_fragment st\<rparr> in
          (Read_record (rs_scratch st1),
           st1\<lparr>rs_reader := (rs_reader st1)\<lparr>last_record_offset := rs_prospective st1\<rparr>\<rparr>)
      else if record_type = of_nat kEof
      then (Read_end, if rs_in_fragmented st then st\<lparr>rs_scratch := []\<rparr> else st)
      else if record_type = of_nat kBadRecord
      then (Read_on,
            if rs_in_fragmented st
            then st\<lparr>rs_reader := ReportCorruption (rs_reader st) (of_nat (length (rs_scratch st)))
                                  (bytes_of ''error in middle of record''),
                    rs_in_fragmented := False, rs_scratch := []\<rparr>
            else st)
      else (Read_on,
            st\<lparr>rs_reader := ReportCorruption (rs_reader st)
                 (of_nat (length (rs_fragment st) + (if rs_in_fragmented st then length (rs_scratch st) else 0)))
                 (unknown_type_msg record_type),
               rs_in_fragmented := False, rs_scratch := []\<rparr>))"

text \<open>One round of the loop: while resynchronising, the rest of a record is skipped.\<close>

definition read_step :: "u32 \<Rightarrow> 'f read_state \<Rightarrow> read_flow \<times> 'f read_state" where
  "read_step record_type st =
     (let r = rs_reader st;
          physical_record_offset = end_of_buffer_offset r - of_nat (length (r_buffer r)) -
            of_nat kHeaderSize - of_nat (length (rs_fragment st))
      in if resyncing r
         then if record_type = of_nat kMiddleType then (Read_on, st)
           else if record_type = of_nat kLastType then (Read_on, st\<lparr>rs_reader := r\<lparr>resyncing := False\<rparr>\<rparr>)
           else read_switch record_type physical_record_offset (st\<lparr>rs_reader := r\<lparr>resyncing := False\<rparr>\<rparr>)
         else read_switch record_type physical_record_offset st)"

partial_function (option) read_loop ::
    "'f sfile \<Rightarrow> 'f read_state \<Rightarrow> (slice option \<times> 'f read_state) option" where
  "read_loop ops st =
     do { (t, frag, r1) \<leftarrow> ReadPhysicalRecord ops (rs_reader st) (rs_fragment st);
          (case read_step t (st\<lparr>rs_reader := r1, rs_fragment := frag\<rparr>) of
            (Read_on, st1) \<Rightarrow> read_loop ops st1
          | (Read_record rec, st1) \<Rightarrow> Some (Some rec, st1)
          | (Read_end, st1) \<Rightarrow> Some (None, st1)) }"

text \<open>The record if \<open>ReadRecord\<close> returns true, and the reader behind it.\<close>

definition ReadRecord :: "'f sfile \<Rightarrow> 'f log_reader \<Rightarrow> (slice option \<times> 'f log_reader) option" where
  "ReadRecord ops r =
     (case (if last_record_offset r < initial_offset r then SkipToInitialBlock ops r else (True, r)) of
        (ok, r1) \<Rightarrow>
          if \<not> ok then Some (None, r1)
          else do {
            (rec, st) \<leftarrow> read_loop ops
              \<lparr>rs_reader = r1, rs_fragment = [], rs_in_fragmented = False, rs_prospective = 0,
               rs_scratch = []\<rparr>;
            Some (rec, rs_reader st) })"

definition LastRecordOffset :: "'f log_reader \<Rightarrow> u64" where
  "LastRecordOffset r = last_record_offset r"

end
