(* ===== verification/Ldb_LogSpec.thy ===== *)
theory Ldb_LogSpec
  imports Ldb_Log
begin

text \<open>
  What the log guarantees on a file that is a string.  \<open>reader_at r o S\<close> relates a reader
  to its position: \<open>o\<close> is the offset in the block, \<open>S\<close> the bytes that it has not consumed.
  A physical record at that position is read as it was written, the trailer of a block is
  skipped, and at the end of the file the reader stops without a report.  The writer's loop
  is analysed together with the reader's, so that the layout of the fragments appears in no
  statement.
\<close>

definition physical :: "nat \<Rightarrow> byte list \<Rightarrow> byte list" where
  "physical t d =
     EncodeFixed32 (crc_Mask (crc32c (of_nat t # d))) @
       [of_nat (length d mod 256), of_nat (length d div 256), of_nat t] @ d"

lemma length_physical [simp]: "length (physical t d) = kHeaderSize + length d"
  by (simp add: physical_def kHeaderSize_def)

lemma Emit_physical:
  assumes "block_offset w + kHeaderSize + length d \<le> kBlockSize"
  shows "EmitPhysicalRecord mem_wfile w t d =
    Some (OK, \<lparr>w_dest = w_dest w @ physical t d, block_offset = block_offset w + kHeaderSize + length d\<rparr>)"
proof -
  have "crc_Extend 0 (crc32c [of_nat t]) d = Some (crc32c (of_nat t # d))"
    using crc_Extend_append [of 0 "[of_nat t]" d] by simp
  moreover have "\<not> length d > 0xffff" using assms by (simp add: log_consts)
  ultimately show ?thesis
    using assms
    by (simp add: EmitPhysicalRecord_def type_crc_def crc_Value_spec mem_wfile_def Let_def physical_def)
qed

definition reader_at :: "byte list log_reader \<Rightarrow> nat \<Rightarrow> byte list \<Rightarrow> bool" where
  "reader_at r pos S \<longleftrightarrow>
     pos \<le> kBlockSize \<and> r_buffer r = take (kBlockSize - pos) S \<and> r_file r = drop (kBlockSize - pos) S \<and>
     r_eof r = (length S < kBlockSize - pos) \<and> initial_offset r = 0 \<and> \<not> resyncing r"

lemma reader_at_start: "reader_at (log_Reader S rep chk 0) kBlockSize S"
  by (simp add: reader_at_def log_Reader_def)

lemma length_field:
  assumes "n < 65536"
  shows "unat ((ucast (of_nat (n mod 256) :: byte) AND 0xff :: u32) OR
    push_bit 8 (ucast (of_nat (n div 256) :: byte) AND 0xff)) = n"
proof -
  have b: "(ucast (of_nat m :: byte) :: u32) = of_nat m" if "m < 256" for m
  proof -
    have "unat (of_nat m :: byte) = m" using that by (simp add: unat_of_nat)
    then show ?thesis by (metis of_nat_unat)
  qed
  have d: "n div 256 < 256" using assms by (simp add: less_mult_imp_div_less)
  have a: "(of_nat m :: u32) AND 0xff = of_nat m" if "m < 256" for m
  proof -
    have "take_bit 8 (of_nat m :: u32) = of_nat m"
      using that by (simp add: take_bit_of_nat take_bit_nat_eq_self)
    then show ?thesis by (simp add: and_255_32)
  qed
  have "of_nat (n mod 256) OR push_bit 8 (of_nat (n div 256)) = (of_nat n :: u32)"
  proof -
    have "n mod 256 = take_bit 8 n" "n div 256 = drop_bit 8 n"
      by (simp_all add: take_bit_eq_mod drop_bit_eq_div)
    then show ?thesis by (auto intro!: bit_word_eqI simp: bit_simps)
  qed
  moreover have "unat (of_nat n :: u32) = n" using assms by (simp add: unat_of_nat)
  ultimately show ?thesis using b a d by simp
qed

lemma type_field: "t \<le> 4 \<Longrightarrow> (scast (of_nat t :: byte) :: u32) = of_nat t"
proof -
  assume "t \<le> 4"
  then have "t = 0 \<or> t = 1 \<or> t = 2 \<or> t = 3 \<or> t = 4" by auto
  then show ?thesis by auto
qed

lemma header_length_at:
  assumes "n < 65536" and "h ! 4 = of_nat (n mod 256)" and "h ! 5 = of_nat (n div 256)"
  shows "header_length h = n"
  unfolding header_length_def Let_def assms(2,3) by (rule length_field [OF assms(1)])

lemma parse_record:
  assumes "1 \<le> t" "t \<le> 4" and "length d < 65536" and "r_buffer r = physical t d @ B" and "initial_offset r = 0"
  shows "parse_physical r res = Some (of_nat t, d, r\<lparr>r_buffer := B\<rparr>)"
proof -
  let ?h = "physical t d @ B"
  have h: "header_length ?h = length d" "?h ! 6 = of_nat t"
    using assms(3) by (intro header_length_at) (simp_all add: physical_def nth_append)
  have "DecodeFixed32 ?h = Some (crc_Mask (crc32c (of_nat t # d)))" by (simp add: physical_def)
  moreover have "take (1 + length d) (drop 6 ?h) = of_nat t # d" by (simp add: physical_def)
  moreover have "take (length d) (drop kHeaderSize ?h) = d" by (simp add: physical_def kHeaderSize_def)
  moreover have "drop (kHeaderSize + length d) ?h = B" by simp
  moreover have "(of_nat t :: u32) \<noteq> of_nat kZeroType"
  proof -
    have "unat (of_nat t :: u32) = t" using assms(2) by (simp add: unat_of_nat)
    with assms(1) show ?thesis by (auto simp: kZeroType_def)
  qed
  ultimately show ?thesis
    using assms(4,5)
    by (simp add: parse_physical_def h type_field [OF assms(2)]
        crc_Value_spec crc_Unmask_Mask Let_def del: of_nat_Suc take_append drop_append)
qed

lemma Read_physical:
  assumes at: "reader_at r pos (physical t d @ S)" and "1 \<le> t" "t \<le> 4"
    and fit: "pos + kHeaderSize + length d \<le> kBlockSize"
  shows "\<exists>r'. ReadPhysicalRecord mem_sfile r res = Some (of_nat t, d, r') \<and>
    reader_at r' (pos + kHeaderSize + length d) S \<and> r_reports r' = r_reports r"
proof -
  have n: "length d < 65536" using fit by (simp add: log_consts)
  have b: "r_buffer r = physical t d @ take (kBlockSize - (pos + kHeaderSize + length d)) S"
    and f: "r_file r = drop (kBlockSize - (pos + kHeaderSize + length d)) S"
    and "r_eof r = (length S < kBlockSize - (pos + kHeaderSize + length d))"
    and i: "initial_offset r = 0" and "\<not> resyncing r"
    using at fit by (auto simp: reader_at_def diff_diff_left add.assoc)
  note parse_record [OF assms(2,3) n b i]
  moreover have "\<not> length (r_buffer r) < kHeaderSize" by (simp add: b)
  ultimately show ?thesis
    using f at fit \<open>r_eof r = _\<close>
    by (subst ReadPhysicalRecord.simps) (auto simp: reader_at_def)
qed

lemma Read_trailer:
  assumes at: "reader_at r pos (replicate (kBlockSize - pos) 0 @ S)" and "kBlockSize - pos < kHeaderSize"
  shows "\<exists>r1. ReadPhysicalRecord mem_sfile r res = ReadPhysicalRecord mem_sfile r1 res \<and>
    reader_at r1 0 S \<and> r_reports r1 = r_reports r"
proof -
  have "length (r_buffer r) < kHeaderSize" "\<not> r_eof r" "r_file r = S"
    and "initial_offset r = 0" "\<not> resyncing r"
    using assms by (auto simp: reader_at_def)
  then show ?thesis
    by (subst ReadPhysicalRecord.simps)
       (auto simp: refill_def mem_sfile_def reader_at_def Let_def split: if_splits)
qed

lemma Read_end_of_file:
  assumes "reader_at r pos []"
  shows "\<exists>r'. ReadPhysicalRecord mem_sfile r res = Some (of_nat kEof, res, r') \<and>
    r_reports r' = r_reports r \<and> \<not> resyncing r'"
proof -
  have b: "length (r_buffer r) < kHeaderSize" and f: "r_file r = []" and r: "\<not> resyncing r"
    using assms by (auto simp: reader_at_def kHeaderSize_def)
  show ?thesis
  proof (cases "r_eof r")
    case True
    with b r show ?thesis by (subst ReadPhysicalRecord.simps) auto
  next
    case False
    have "refill mem_sfile r = (True, r\<lparr>r_buffer := [], r_eof := True\<rparr>)"
      using f by (simp add: refill_def mem_sfile_def kBlockSize_def Let_def)
    moreover have "ReadPhysicalRecord mem_sfile (r\<lparr>r_buffer := [], r_eof := True\<rparr>) res =
        Some (of_nat kEof, res, r\<lparr>r_buffer := [], r_eof := True\<rparr>)"
      by (subst ReadPhysicalRecord.simps) (simp add: kHeaderSize_def)
    ultimately show ?thesis using b False r by (subst ReadPhysicalRecord.simps) simp
  qed
qed


section \<open>One record\<close>

text \<open>
  \<open>bs\<close>, written at offset \<open>pos\<close>, is the rest of a record: a reader there returns what it has
  collected followed by \<open>d\<close>.
\<close>

definition reads_as :: "nat \<Rightarrow> bool \<Rightarrow> byte list \<Rightarrow> byte list \<Rightarrow> nat \<Rightarrow> bool" where
  "reads_as pos fst_part d bs pos' \<longleftrightarrow>
     (\<forall>st S. reader_at (rs_reader st) pos (bs @ S) \<and> rs_in_fragmented st = (\<not> fst_part) \<and>
        (fst_part \<longrightarrow> rs_scratch st = []) \<longrightarrow>
        (\<exists>st'. read_loop mem_sfile st = Some (Some (rs_scratch st @ d), st') \<and>
           reader_at (rs_reader st') pos' S \<and> r_reports (rs_reader st') = r_reports (rs_reader st)))"

lemma type_words [simp]:
  "(of_nat kFullType :: u32) = 1" "(of_nat kFirstType :: u32) = 2" "(of_nat kMiddleType :: u32) = 3"
  "(of_nat kLastType :: u32) = 4" "(of_nat kEof :: u32) = 5" "(of_nat kBadRecord :: u32) = 6"
  by (simp_all add: log_consts)

lemma fragment_type_range: "1 \<le> fragment_type a b" "fragment_type a b \<le> 4"
  by (simp_all add: fragment_type_def log_consts)

lemma reads_fragment:
  assumes fit: "pos + kHeaderSize + length d \<le> kBlockSize"
    and rest: "\<not> l \<Longrightarrow> reads_as (pos + kHeaderSize + length d) False e bs pos'"
    and last: "l \<Longrightarrow> e = [] \<and> bs = [] \<and> pos' = pos + kHeaderSize + length d"
  shows "reads_as pos b (d @ e) (physical (fragment_type b l) d @ bs) pos'"
  unfolding reads_as_def
proof (intro allI impI, elim conjE)
  fix st :: "byte list read_state" and S
  assume at: "reader_at (rs_reader st) pos ((physical (fragment_type b l) d @ bs) @ S)"
    and fr: "rs_in_fragmented st = (\<not> b)" "b \<longrightarrow> rs_scratch st = []"
  have at': "reader_at (rs_reader st) pos (physical (fragment_type b l) d @ bs @ S)" using at by simp
  from Read_physical [OF at' fragment_type_range fit, of "rs_fragment st"] obtain r'
    where r: "ReadPhysicalRecord mem_sfile (rs_reader st) (rs_fragment st) =
        Some (of_nat (fragment_type b l), d, r')"
      and r': "reader_at r' (pos + kHeaderSize + length d) (bs @ S)"
      and rep: "r_reports r' = r_reports (rs_reader st)" by blast
  have nr: "\<not> resyncing r'" using r' by (simp add: reader_at_def)
  show "\<exists>st'. read_loop mem_sfile st = Some (Some (rs_scratch st @ d @ e), st') \<and>
      reader_at (rs_reader st') pos' S \<and> r_reports (rs_reader st') = r_reports (rs_reader st)"
  proof (cases l)
    case True
    with last have e: "e = []" "bs = []" "pos' = pos + kHeaderSize + length d" by auto
    have "\<exists>st'. read_step (of_nat (fragment_type b True)) (st\<lparr>rs_reader := r', rs_fragment := d\<rparr>) =
        (Read_record (rs_scratch st @ d), st') \<and> reader_at (rs_reader st') pos' S \<and>
        r_reports (rs_reader st') = r_reports (rs_reader st)"
      using r' fr e rep nr
      by (cases b) (auto simp: read_step_def read_switch_def fragment_type_def unfinished_def
          Let_def reader_at_def)
    with r True e show ?thesis by (subst read_loop.simps) auto
  next
    case False
    have "\<exists>st1. read_step (of_nat (fragment_type b False)) (st\<lparr>rs_reader := r', rs_fragment := d\<rparr>) =
        (Read_on, st1) \<and> reader_at (rs_reader st1) (pos + kHeaderSize + length d) (bs @ S) \<and>
        r_reports (rs_reader st1) = r_reports (rs_reader st) \<and>
        rs_in_fragmented st1 \<and> rs_scratch st1 = rs_scratch st @ d"
      using r' fr rep nr
      by (cases b) (auto simp: read_step_def read_switch_def fragment_type_def unfinished_def Let_def)
    then obtain st1 where st1: "read_step (of_nat (fragment_type b False))
        (st\<lparr>rs_reader := r', rs_fragment := d\<rparr>) = (Read_on, st1)"
      "reader_at (rs_reader st1) (pos + kHeaderSize + length d) (bs @ S)"
      "r_reports (rs_reader st1) = r_reports (rs_reader st)"
      "rs_in_fragmented st1" "rs_scratch st1 = rs_scratch st @ d" by blast
    with rest [OF False] obtain st' where "read_loop mem_sfile st1 = Some (Some (rs_scratch st1 @ e), st')"
      "reader_at (rs_reader st') pos' S" "r_reports (rs_reader st') = r_reports (rs_reader st1)"
      unfolding reads_as_def by blast
    with r False st1 show ?thesis by (subst read_loop.simps) auto
  qed
qed

lemma reads_trailer:
  assumes "kBlockSize - pos < kHeaderSize" and "reads_as 0 b d bs pos'"
  shows "reads_as pos b d (replicate (kBlockSize - pos) 0 @ bs) pos'"
  unfolding reads_as_def
proof (intro allI impI, elim conjE)
  fix st :: "byte list read_state" and S
  assume at: "reader_at (rs_reader st) pos ((replicate (kBlockSize - pos) 0 @ bs) @ S)"
    and fr: "rs_in_fragmented st = (\<not> b)" "b \<longrightarrow> rs_scratch st = []"
  have "reader_at (rs_reader st) pos (replicate (kBlockSize - pos) 0 @ bs @ S)" using at by simp
  from Read_trailer [OF this assms(1), of "rs_fragment st"] obtain r1
    where r1: "ReadPhysicalRecord mem_sfile (rs_reader st) (rs_fragment st) =
        ReadPhysicalRecord mem_sfile r1 (rs_fragment st)" "reader_at r1 0 (bs @ S)"
      "r_reports r1 = r_reports (rs_reader st)" by blast
  let ?st = "st\<lparr>rs_reader := r1\<rparr>"
  have "read_loop mem_sfile st = read_loop mem_sfile ?st"
    by (subst (1 2) read_loop.simps) (simp add: r1(1))
  moreover have "reader_at (rs_reader ?st) 0 (bs @ S) \<and> rs_in_fragmented ?st = (\<not> b) \<and>
      (b \<longrightarrow> rs_scratch ?st = [])" using r1(2) fr by simp
  with assms(2) obtain st' where "read_loop mem_sfile ?st = Some (Some (rs_scratch ?st @ d), st')"
    "reader_at (rs_reader st') pos' S" "r_reports (rs_reader st') = r_reports (rs_reader ?st)"
    unfolding reads_as_def by blast
  ultimately show "\<exists>st'. read_loop mem_sfile st = Some (Some (rs_scratch st @ d), st') \<and>
      reader_at (rs_reader st') pos' S \<and> r_reports (rs_reader st') = r_reports (rs_reader st)"
    using r1(3) by auto
qed

lemma add_loop_reads:
  assumes "block_offset w \<le> kBlockSize"
  shows "\<exists>bs w'. add_loop mem_wfile w d b = Some (OK, w') \<and> w_dest w' = w_dest w @ bs \<and>
    block_offset w' \<le> kBlockSize \<and> reads_as (block_offset w) b d bs (block_offset w')"
  using assms
proof (induction "2 * length d + (if kBlockSize - block_offset w = kHeaderSize then 1 else 0)"
    arbitrary: w d b rule: less_induct)
  case less
  define sw where "sw = (if kBlockSize - block_offset w < kHeaderSize then
      \<lparr>w_dest = w_dest w @ replicate (kBlockSize - block_offset w) 0, block_offset = 0\<rparr> else w)"
  have sw: "switch_block mem_wfile w = Some sw"
    using less.prems by (simp add: switch_block_def sw_def mem_wfile_def Let_def)
  have o1: "block_offset sw + kHeaderSize \<le> kBlockSize"
    using less.prems by (auto simp: sw_def log_consts)
  define avail where "avail = kBlockSize - block_offset sw - kHeaderSize"
  define n where "n = min (length d) avail"
  let ?t = "fragment_type b (length d \<le> avail)"
  have fit: "block_offset sw + kHeaderSize + length (take n d) \<le> kBlockSize"
    using o1 by (simp add: n_def avail_def)
  let ?w2 = "\<lparr>w_dest = w_dest sw @ physical ?t (take n d),
    block_offset = block_offset sw + kHeaderSize + length (take n d)\<rparr>"
  have step: "add_loop mem_wfile w d b =
      (if drop n d \<noteq> [] then add_loop mem_wfile ?w2 (drop n d) False else Some (OK, ?w2))"
  proof -
    have fl: "(if length d < avail then length d else avail) = n" by (simp add: n_def min_def)
    have lp: "(length d = n) = (length d \<le> avail)" by (auto simp: n_def)
    show ?thesis
      by (subst add_loop.simps)
         (simp only: sw bind.bind_lunit Let_def avail_def [symmetric] fl lp Emit_physical [OF fit]
           prod.case OK_ok simp_thms)
  qed
  have inner: "\<exists>bs w'. add_loop mem_wfile w d b = Some (OK, w') \<and> w_dest w' = w_dest sw @ bs \<and>
      block_offset w' \<le> kBlockSize \<and> reads_as (block_offset sw) b d bs (block_offset w')"
  proof (cases "length d \<le> avail")
    case True
    then have "n = length d" by (simp add: n_def)
    with step True fit reads_fragment [OF fit, of True "[]" "[]" "block_offset ?w2" b]
    show ?thesis by auto
  next
    case False
    then have n: "n = avail" "drop n d \<noteq> []" by (simp_all add: n_def)
    have "2 * length (drop n d) + (if kBlockSize - block_offset ?w2 = kHeaderSize then 1 else 0) <
        2 * length d + (if kBlockSize - block_offset w = kHeaderSize then 1 else 0)"
    proof (cases "n = 0")
      case True
      then have "kBlockSize - block_offset w = kHeaderSize"
        using n(1) o1 by (auto simp: avail_def sw_def log_consts split: if_splits)
      moreover have "kBlockSize - block_offset ?w2 = 0" using n(1) o1 False by (simp add: avail_def)
      ultimately show ?thesis by (simp add: kHeaderSize_def True)
    next
      case False
      with n show ?thesis by (cases d) (auto split: if_splits)
    qed
    from less.hyps [OF this, of False] fit obtain bs w'
      where "add_loop mem_wfile ?w2 (drop n d) False = Some (OK, w')" "w_dest w' = w_dest ?w2 @ bs"
        "block_offset w' \<le> kBlockSize"
        and r: "reads_as (block_offset ?w2) False (drop n d) bs (block_offset w')" by auto
    moreover from r reads_fragment [OF fit, of False "drop n d" bs "block_offset w'" b]
    have "reads_as (block_offset sw) b d (physical (fragment_type b False) (take n d) @ bs) (block_offset w')"
      by simp
    ultimately show ?thesis using step n False by auto
  qed
  show ?case
  proof (cases "kBlockSize - block_offset w < kHeaderSize")
    case False
    with inner show ?thesis by (simp add: sw_def)
  next
    case True
    then have "block_offset sw = 0" "w_dest sw = w_dest w @ replicate (kBlockSize - block_offset w) 0"
      by (simp_all add: sw_def)
    with inner reads_trailer [OF True] show ?thesis by fastforce
  qed
qed


section \<open>A log\<close>

fun AddRecords :: "'f wfile \<Rightarrow> 'f log_writer \<Rightarrow> slice list \<Rightarrow> (Status \<times> 'f log_writer) option" where
  "AddRecords ops w [] = Some (OK, w)"
| "AddRecords ops w (d # ds) =
     do { (s, w1) \<leftarrow> AddRecord ops w d;
          if status_ok s then AddRecords ops w1 ds else Some (s, w1) }"

text \<open>The records that the first \<open>n\<close> calls of \<open>ReadRecord\<close> return, up to a call that returns false.\<close>

fun ReadRecords :: "'f sfile \<Rightarrow> nat \<Rightarrow> 'f log_reader \<Rightarrow> (slice list \<times> 'f log_reader) option" where
  "ReadRecords ops 0 r = Some ([], r)"
| "ReadRecords ops (Suc n) r =
     do { (rec, r1) \<leftarrow> ReadRecord ops r;
          (case rec of None \<Rightarrow> Some ([], r1)
           | Some d \<Rightarrow> do { (ds, r2) \<leftarrow> ReadRecords ops n r1; Some (d # ds, r2) }) }"

lemma ReadRecord_reads:
  assumes "reads_as pos True d bs pos'" and "reader_at r pos (bs @ S)"
  shows "\<exists>r'. ReadRecord mem_sfile r = Some (Some d, r') \<and> reader_at r' pos' S \<and>
    r_reports r' = r_reports r"
proof -
  let ?st = "\<lparr>rs_reader = r, rs_fragment = [], rs_in_fragmented = False, rs_prospective = 0, rs_scratch = []\<rparr>"
  have "reader_at (rs_reader ?st) pos (bs @ S) \<and> rs_in_fragmented ?st = (\<not> True) \<and>
      (True \<longrightarrow> rs_scratch ?st = [])" using assms(2) by simp
  with assms(1) obtain st' where "read_loop mem_sfile ?st = Some (Some (rs_scratch ?st @ d), st')"
    "reader_at (rs_reader st') pos' S" "r_reports (rs_reader st') = r_reports (rs_reader ?st)"
    unfolding reads_as_def by blast
  moreover have "\<not> last_record_offset r < initial_offset r" using assms(2) by (simp add: reader_at_def)
  ultimately show ?thesis by (simp add: ReadRecord_def)
qed

lemma ReadRecord_end:
  assumes "reader_at r pos []"
  shows "\<exists>r'. ReadRecord mem_sfile r = Some (None, r') \<and> r_reports r' = r_reports r"
proof -
  have "\<not> last_record_offset r < initial_offset r" using assms by (simp add: reader_at_def)
  with Read_end_of_file [OF assms, of "[]"] show ?thesis
    by (auto simp: ReadRecord_def read_loop.simps read_step_def read_switch_def Let_def)
qed

lemma AddRecords_read:
  assumes "block_offset w \<le> kBlockSize"
  shows "\<exists>bs w'. AddRecords mem_wfile w ds = Some (OK, w') \<and> w_dest w' = w_dest w @ bs \<and>
    (\<forall>r n. reader_at r (block_offset w) bs \<longrightarrow> length ds < n \<longrightarrow>
      (\<exists>r'. ReadRecords mem_sfile n r = Some (ds, r') \<and> r_reports r' = r_reports r))"
  using assms
proof (induction ds arbitrary: w)
  case Nil
  have "\<exists>r'. ReadRecords mem_sfile n r = Some ([], r') \<and> r_reports r' = r_reports r"
    if "reader_at r (block_offset w) []" "0 < n" for r n
    using ReadRecord_end [OF that(1)] that(2) by (cases n) auto
  then show ?case by (intro exI [of _ "[]"] exI [of _ w]) simp
next
  case (Cons d ds)
  obtain b1 w1 where w1: "AddRecord mem_wfile w d = Some (OK, w1)" "w_dest w1 = w_dest w @ b1"
    "block_offset w1 \<le> kBlockSize" and rd: "reads_as (block_offset w) True d b1 (block_offset w1)"
    using add_loop_reads [OF Cons.prems, of d True] unfolding AddRecord_def by blast
  from Cons.IH [OF w1(3)] obtain b2 w2 where w2: "AddRecords mem_wfile w1 ds = Some (OK, w2)"
    "w_dest w2 = w_dest w1 @ b2"
    and rds: "\<And>r n. reader_at r (block_offset w1) b2 \<Longrightarrow> length ds < n \<Longrightarrow>
      \<exists>r'. ReadRecords mem_sfile n r = Some (ds, r') \<and> r_reports r' = r_reports r" by blast
  have "\<exists>r'. ReadRecords mem_sfile n r = Some (d # ds, r') \<and> r_reports r' = r_reports r"
    if at: "reader_at r (block_offset w) (b1 @ b2)" and n: "length (d # ds) < n" for r n
  proof -
    obtain m where m: "n = Suc m" "length ds < m" using n by (cases n) auto
    from ReadRecord_reads [OF rd at] obtain r1 where "ReadRecord mem_sfile r = Some (Some d, r1)"
      "reader_at r1 (block_offset w1) b2" "r_reports r1 = r_reports r" by blast
    with rds [of r1 m] m show ?thesis by auto
  qed
  with w1 w2 show ?case by (intro exI [of _ "b1 @ b2"] exI [of _ w2]) auto
qed

text \<open>A writer at the start of a block and one at the end of a full block write the same.\<close>

lemma AddRecord_block_end:
  "AddRecord mem_wfile \<lparr>w_dest = f, block_offset = 0\<rparr> d =
    AddRecord mem_wfile \<lparr>w_dest = f, block_offset = kBlockSize\<rparr> d"
proof -
  have "switch_block mem_wfile \<lparr>w_dest = f, block_offset = 0\<rparr> =
      switch_block mem_wfile \<lparr>w_dest = f, block_offset = kBlockSize\<rparr>"
    by (simp add: switch_block_def log_consts)
  then show ?thesis unfolding AddRecord_def by (subst (1 2) add_loop.simps) simp
qed

lemma log_round_trip:
  "\<exists>w'. AddRecords mem_wfile (log_Writer [] 0) ds = Some (OK, w') \<and>
    (\<exists>r'. ReadRecords mem_sfile (Suc (length ds)) (log_Reader (w_dest w') rep chk 0) = Some (ds, r') \<and>
       r_reports r' = [])"
proof -
  let ?w = "\<lparr>w_dest = [], block_offset = kBlockSize\<rparr> :: byte list log_writer"
  obtain bs w' where w': "AddRecords mem_wfile ?w ds = Some (OK, w')" "w_dest w' = bs"
    and rd: "\<And>r n. reader_at r kBlockSize bs \<Longrightarrow> length ds < n \<Longrightarrow>
      \<exists>r'. ReadRecords mem_sfile n r = Some (ds, r') \<and> r_reports r' = r_reports r"
    using AddRecords_read [of ?w ds] by auto
  have "\<exists>w''. AddRecords mem_wfile (log_Writer [] 0) ds = Some (OK, w'') \<and> w_dest w'' = bs"
    using w' AddRecord_block_end [of "[]"] by (cases ds) (auto simp: log_Writer_def)
  moreover have "r_reports (log_Reader bs rep chk 0) = []" by (simp add: log_Reader_def)
  ultimately show ?thesis
    using rd [OF reader_at_start, of "Suc (length ds)" rep chk] by auto
qed


section \<open>Damage\<close>

text \<open>
  One byte of the type or of the payload of a physical record is not what was written: the
  reader drops the block and reports the mismatch.
\<close>

lemma parse_damaged:
  assumes "0 < length d" and "length d < 65536" and "x \<noteq> y" and "of_nat t # d = as @ x # bs"
    and "r_buffer r = take 6 (physical t d) @ as @ y # bs @ B" and "r_checksum r"
  shows "parse_physical r res = Some (of_nat kBadRecord, res,
    ReportCorruption (r\<lparr>r_buffer := []\<rparr>) (of_nat (length (r_buffer r))) (bytes_of ''checksum mismatch''))"
proof -
  let ?h = "r_buffer r"
  have len: "length as + 1 + length bs = 1 + length d"
    using arg_cong [OF assms(4), of length] by simp
  have t6: "take 6 (physical t d) = EncodeFixed32 (crc_Mask (crc32c (of_nat t # d))) @
      [of_nat (length d mod 256), of_nat (length d div 256)]"
    by (simp add: physical_def)
  have h: "header_length ?h = length d"
    using assms(2) by (intro header_length_at) (simp_all add: assms(5) t6 nth_append)
  have "DecodeFixed32 ?h = Some (crc_Mask (crc32c (of_nat t # d)))" by (simp add: assms(5) t6)
  moreover have "take (1 + length d) (drop 6 ?h) = as @ y # bs"
  proof -
    have "length (as @ y # bs) = 1 + length d" using len by simp
    then show ?thesis by (simp add: assms(5) t6 flip: append_Cons append_assoc)
  qed
  moreover have "crc32c (as @ y # bs) \<noteq> crc32c (of_nat t # d)"
    using crc_detects_byte [of as y bs x] assms(3,4) by auto
  moreover have "\<not> kHeaderSize + length d > length ?h" using len by (simp add: assms(5) t6 kHeaderSize_def)
  ultimately show ?thesis
    using assms(1,6)
    by (simp add: parse_physical_def h crc_Value_spec crc_Unmask_Mask Let_def)
qed

text \<open>
  A record type of 5 in the file is taken for the reader's own \<open>kEof\<close>, although no record
  was damaged: the log ends there without a report.
\<close>

lemma stored_type_5:
  assumes "r_buffer r = physical 5 d @ B" and "length d < 65536" and "initial_offset r = 0"
  shows "parse_physical r res = Some (of_nat kEof, d, r\<lparr>r_buffer := B\<rparr>)"
proof -
  let ?h = "physical 5 d @ B"
  have h: "header_length ?h = length d" "?h ! 6 = 5"
    using assms(2) by (intro header_length_at) (simp_all add: physical_def nth_append)
  have "DecodeFixed32 ?h = Some (crc_Mask (crc32c (5 # d)))" by (simp add: physical_def)
  moreover have "take (1 + length d) (drop 6 ?h) = 5 # d" by (simp add: physical_def)
  moreover have "take (length d) (drop kHeaderSize ?h) = d" by (simp add: physical_def kHeaderSize_def)
  moreover have "drop (kHeaderSize + length d) ?h = B" by simp
  ultimately show ?thesis
    using assms(1,3)
    by (simp add: parse_physical_def h crc_Value_spec crc_Unmask_Mask Let_def
        kZeroType_def del: of_nat_Suc take_append drop_append)
qed

end
