(* ===== verification/Ldb_Properties.thy ===== *)
theory Ldb_Properties
  imports Ldb_MemTable Ldb_LogSpec "HOL-Library.Code_Target_Nat"
begin

text \<open>
  The properties of the LevelDB components.  Each rests on the lemmas of the component's
  theory; the witnesses apply them to small concrete inputs.
\<close>

section \<open>Encodings and keys\<close>

text \<open>
  The variable-length integers of coding.cc: what \<open>PutVarint32\<close> and \<open>PutVarint64\<close>
  append is read back by the \<open>Get\<close> functions, which leave exactly the bytes behind it, and
  \<open>VarintLength\<close> is the number of bytes that were appended, at most ten.
\<close>

theorem ldb_varint_round_trip:
  "GetVarint32 (PutVarint32 [] v @ rest) = Some (v, rest) \<and>
   GetVarint64 (PutVarint64 [] w @ rest) = Some (w, rest) \<and>
   length (PutVarint64 [] w) = VarintLength w \<and> VarintLength w \<le> 10"
proof -
  have "\<exists>pre. EncodeVarint64 w = pre @ [] \<and> pre \<noteq> [] \<and> length pre \<le> 10"
    by (rule GetVarint64_prefix) (use GetVarint64_Encode [of w "[]"] in simp)
  then show ?thesis
    by (simp add: PutVarint32_def PutVarint64_def VarintLength_leb EncodeVarint64_leb [symmetric])
qed

text \<open>
  Length-prefixed strings, on any input: when \<open>GetLengthPrefixedSlice\<close> succeeds, the
  string it returns and the new input are what follows a length of at most five bytes, so
  nothing outside the input is read.
\<close>

theorem length_prefixed_confined:
  assumes "GetLengthPrefixedSlice input = (Some s, q)"
  shows "\<exists>pre. input = pre @ s @ q \<and> 1 \<le> length pre \<and> length pre \<le> 5"
proof -
  from assms obtain len p where g: "GetVarint32 input = Some (len, p)" and "p = s @ q"
    by (auto simp: GetLengthPrefixedSlice_def split: option.splits if_splits)
  with GetVarint32_prefix [OF g] show ?thesis by (auto simp: Suc_le_eq)
qed

theorem length_prefixed_confined_witness:
  "\<exists>pre. [2, 7, 8, 9] = pre @ [7, 8] @ [9 :: byte] \<and> 1 \<le> length pre \<and> length pre \<le> 5"
  by (rule length_prefixed_confined)
     (simp add: GetLengthPrefixedSlice_def GetVarint32_def GetVarint32Ptr_def)





text \<open>
  The bytewise comparator's separator of two keys in order is between them and never
  longer than the first.
\<close>

theorem bytewise_separator_between:
  assumes "slice_compare s l < 0"
  shows "slice_compare s (bytewise_FindShortestSeparator s l) \<le> 0 \<and>
    slice_compare (bytewise_FindShortestSeparator s l) l < 0 \<and>
    length (bytewise_FindShortestSeparator s l) \<le> length s"
  using bytewise_separator [OF assms] by blast

theorem bytewise_separator_between_witness:
  "slice_compare [97, 98, 99] (bytewise_FindShortestSeparator [97, 98, 99] [97, 103]) \<le> 0 \<and>
   slice_compare (bytewise_FindShortestSeparator [97, 98, 99] [97, 103]) [97, 103] < 0 \<and>
   length (bytewise_FindShortestSeparator [97, 98, 99] [97, 103]) \<le> length [97, 98, 99 :: byte]"
  by (rule bytewise_separator_between) simp

text \<open>
  Numbers in file names and manifests: \<open>ConsumeDecimalNumber\<close> reads back what
  \<open>AppendNumberTo\<close> wrote, up to the first byte that is no digit.
\<close>

theorem decimal_round_trip:
  assumes "rest = [] \<or> \<not> is_digit (hd rest)"
  shows "ConsumeDecimalNumber (AppendNumberTo [] n @ rest) = (True, Some n, rest)"
proof -
  have "unat n < 2 ^ LENGTH(64)" by (rule unsigned_less)
  then show ?thesis using Consume_decimal [of "unat n" rest] assms by (simp add: AppendNumberTo_def)
qed

theorem decimal_round_trip_witness:
  "ConsumeDecimalNumber (AppendNumberTo [] 42 @ [46]) = (True, Some 42, [46])"
  by (rule decimal_round_trip) (simp add: is_digit_def)


section \<open>Write batches and the memtable\<close>

text \<open>
  C16. A write batch that was built by any sequence of \<open>Put\<close> and \<open>Delete\<close> iterates as that
  sequence, in order, and with status OK.
\<close>

theorem batch_round_trip:
  assumes "\<forall>b \<in> set ops. op_ok b" and "length ops < 2 ^ 31"
  shows "\<exists>rep. apply_ops batch_Clear ops = Some rep \<and>
    batch_Iterate handler rep h = Some (OK, fold (op_run handler) ops h)"
  using batch_Iterate_of [OF assms, of handler 0 h] apply_ops_of [of 0 "[]" ops]
  by (simp add: Clear_batch_of)

theorem batch_round_trip_witness:
  "\<exists>rep. apply_ops batch_Clear [BPut [1] [2], BDelete [3]] = Some rep \<and>
    batch_Iterate \<lparr>h_Put = (\<lambda>k v l. l @ [(k, v)]), h_Delete = (\<lambda>k l. l @ [(k, [])])\<rparr> rep [] =
      Some (OK, [([1], [2]), ([3], [])])"
  using batch_round_trip [of "[BPut [1] [2], BDelete [3]]"
      "\<lparr>h_Put = (\<lambda>k v l. l @ [(k, v)]), h_Delete = (\<lambda>k l. l @ [(k, [])])\<rparr>" "[]"]
  by simp


text \<open>
  C18. The skip list refines a sorted sequence: for any order of the keys and whatever
  heights are drawn, inserting a key that compares equal to none in the list always
  succeeds, keeps the invariant of the links, and the keys are the old ones with the new
  one at its place.
\<close>

theorem skiplist_insert_refines:
  assumes "weak_order cmp valid" and "skip_inv cmp valid sl order" and "key \<in> valid"
    and "\<forall>k \<in> set (skip_keys sl order). cmp key k \<noteq> Some 0"
  shows "\<exists>sl' order'. skip_Insert cmp sl key = Some sl' \<and> skip_inv cmp valid sl' order' \<and>
    skip_keys sl' order' =
      takeWhile (\<lambda>k. \<exists>r < 0. cmp k key = Some r) (skip_keys sl order) @ key #
      dropWhile (\<lambda>k. \<exists>r < 0. cmp k key = Some r) (skip_keys sl order)"
  using weak_order.Insert [OF assms]
  by (simp add: weak_order.ins_def [OF assms(1)] weak_order.lt_def [OF assms(1)])

theorem skiplist_insert_refines_witness:
  "\<exists>sl' order'. skip_Insert (Compare BytewiseComparator) (SkipList []) [5] = Some sl' \<and>
    skip_inv (Compare BytewiseComparator) UNIV sl' order' \<and> skip_keys sl' order' = [[5]]"
  using skiplist_insert_refines [OF bytewise_order.weak_order_axioms SkipList_inv [of _ _ "[]"], of "[5]"]
  by (simp add: skip_keys_def)

text \<open>
  Lookup in a skip list: \<open>Contains\<close> answers whether a key compares as equal to the
  target, \<open>Seek\<close> finds the first key that is not smaller, and \<open>SeekToLast\<close> the last one.
\<close>

theorem skiplist_lookup:
  assumes "weak_order cmp valid" and "skip_inv cmp valid sl order" and "key \<in> valid"
  shows "skip_Contains cmp sl key = Some (\<exists>k \<in> set (skip_keys sl order). cmp key k = Some 0) \<and>
    skip_iter_Seek cmp sl key = Some (find (\<lambda>i. \<not> (\<exists>r < 0. cmp (key_of sl i) key = Some r)) order) \<and>
    skip_iter_SeekToLast sl = Some (if order = [] then None else Some (last order))"
  using weak_order.Contains [OF assms] weak_order.Seek [OF assms]
    SeekToLast [OF weak_order.skip_invD(1) [OF assms(1,2)]]
  by (simp add: weak_order.lt_def [OF assms(1)])

theorem skiplist_lookup_witness:
  "skip_Contains (Compare BytewiseComparator) (SkipList []) [5] = Some False \<and>
   skip_iter_Seek (Compare BytewiseComparator) (SkipList []) [5] = Some None \<and>
   skip_iter_SeekToLast (SkipList [] :: slice skiplist) = Some None"
  using skiplist_lookup [OF bytewise_order.weak_order_axioms SkipList_inv [of _ _ "[]"], of "[5]"]
  by (simp add: skip_keys_def)




section \<open>The log\<close>

text \<open>
  C20. The table-driven checksum, with its alignment and its loops of sixteen and four
  bytes, is the bitwise CRC-32C at any address, and unmasking undoes masking.
\<close>

theorem crc_table_code_correct:
  "crc_Extend pval crc buf = Some (foldl crc_step (crc XOR 0xffffffff) buf XOR 0xffffffff) \<and>
   crc_Unmask (crc_Mask crc) = crc"
  by (simp add: crc_Extend_spec crc_Unmask_Mask)

text \<open>
  C21. What \<open>AddRecord\<close> writes, records of any length split over any number of blocks,
  \<open>ReadRecord\<close> reads back in order, then returns false, and reports no corruption.
\<close>

theorem log_reads_back:
  "\<exists>w'. AddRecords mem_wfile (log_Writer [] 0) ds = Some (OK, w') \<and>
    (\<exists>r'. ReadRecords mem_sfile (Suc (length ds)) (log_Reader (w_dest w') rep chk 0) = Some (ds, r') \<and>
       r_reports r' = [])"
  by (rule log_round_trip)



text \<open>
  A record whose stored type is 5 ends the log silently: the reader's own mark for the
  end of the file has the same number, so what follows is not read and nothing is reported.
\<close>

theorem log_type_5_is_end_of_file:
  assumes "r_buffer r = physical 5 d @ B" and "length d < 65536" and "initial_offset r = 0"
    and "\<not> length (r_buffer r) < kHeaderSize" and "\<not> resyncing r" and "last_record_offset r = 0"
  shows "ReadRecord ops r = Some (None, r\<lparr>r_buffer := B\<rparr>)"
proof -
  have "ReadPhysicalRecord ops r [] = Some (of_nat kEof, d, r\<lparr>r_buffer := B\<rparr>)"
    using assms(4) stored_type_5 [OF assms(1-3), of "[]"] by (subst ReadPhysicalRecord.simps) simp
  then show ?thesis
    using assms(3,5,6) by (simp add: ReadRecord_def read_loop.simps read_step_def read_switch_def Let_def)
qed

theorem log_type_5_is_end_of_file_witness:
  "ReadRecord mem_sfile ((log_Reader [] True True 0)\<lparr>r_buffer := physical 5 [65] @ physical 1 [66]\<rparr>) =
    Some (None, (log_Reader [] True True 0)\<lparr>r_buffer := physical 1 [66]\<rparr>)"
  using log_type_5_is_end_of_file [of "(log_Reader [] True True 0)\<lparr>r_buffer := physical 5 [65] @ physical 1 [66]\<rparr>"
      "[65]" "physical 1 [66]" mem_sfile]
  by (simp add: log_Reader_def kHeaderSize_def)

end
