(* ===== verification/Ldb_LogTotal.thy ===== *)
theory Ldb_LogTotal
  imports Ldb_LogSpec
begin

text \<open>
  The log reader on any bytes at all: every call of \<open>ReadRecord\<close> returns, and after finitely
  many calls it answers that the log is at its end.
\<close>

section \<open>What is left to be read\<close>

definition left_over :: "byte list log_reader \<Rightarrow> nat" where
  "left_over r = 2 * length (r_file r) + length (r_buffer r) + (if r_eof r then 0 else 1)"

lemma left_over_reports [simp]:
  "left_over (ReportDrop r n s) = left_over r" "left_over (ReportCorruption r n m) = left_over r"
  "left_over (r\<lparr>last_record_offset := a\<rparr>) = left_over r" "left_over (r\<lparr>resyncing := b\<rparr>) = left_over r"
  "left_over (r\<lparr>end_of_buffer_offset := a\<rparr>) = left_over r"
  by (simp_all add: left_over_def ReportDrop_def ReportCorruption_def)

lemma ReportDrop_fields [simp]:
  "r_file (ReportDrop r n s) = r_file r" "r_buffer (ReportDrop r n s) = r_buffer r"
  "r_eof (ReportDrop r n s) = r_eof r" "r_file (ReportCorruption r n m) = r_file r"
  "r_buffer (ReportCorruption r n m) = r_buffer r" "r_eof (ReportCorruption r n m) = r_eof r"
  by (simp_all add: ReportDrop_def ReportCorruption_def)

lemma DecodeFixed32_some: "4 \<le> length p \<Longrightarrow> \<exists>w. DecodeFixed32 p = Some w"
  by (cases "DecodeFixed32 p") (simp_all add: DecodeFixed32_defined)

lemma parse_physical_total:
  assumes "kHeaderSize \<le> length (r_buffer r)"
  shows "\<exists>t frag r'. parse_physical r result = Some (t, frag, r') \<and> left_over r' < left_over r"
proof -
  let ?h = "r_buffer r"
  obtain w where w: "DecodeFixed32 ?h = Some w"
    using DecodeFixed32_some [of ?h] assms by (auto simp: kHeaderSize_def)
  show ?thesis
    using assms unfolding parse_physical_def Let_def w crc_Value_spec Option.bind_lunit
    by (auto simp: left_over_def kHeaderSize_def split: if_splits)
qed

lemma refill_less:
  assumes "length (r_buffer r) < kHeaderSize" and "\<not> r_eof r"
  shows "\<exists>r'. refill mem_sfile r = (True, r') \<and> left_over r' < left_over r"
  using assms by (auto simp: refill_def mem_sfile_def left_over_def kBlockSize_def Let_def status_ok_def OK_def)

lemma ReadPhysicalRecord_total:
  "\<exists>t frag r'. ReadPhysicalRecord mem_sfile r result = Some (t, frag, r') \<and>
    (t = of_nat kEof \<and> left_over r' \<le> left_over r \<or> left_over r' < left_over r)"
proof (induction "left_over r" arbitrary: r rule: less_induct)
  case less
  show ?case
  proof (cases "length (r_buffer r) < kHeaderSize")
    case False
    then show ?thesis
      using parse_physical_total [of r result] by (subst ReadPhysicalRecord.simps) fastforce
  next
    case True
    note short = this
    show ?thesis
    proof (cases "r_eof r")
      case True
      with short show ?thesis by (subst ReadPhysicalRecord.simps) (simp add: left_over_def)
    next
      case False
      from refill_less [OF short False] obtain r1 where
        r1: "refill mem_sfile r = (True, r1)" "left_over r1 < left_over r" by blast
      have "ReadPhysicalRecord mem_sfile r result = ReadPhysicalRecord mem_sfile r1 result"
        using short False r1(1) by (subst ReadPhysicalRecord.simps) simp
      with less.hyps [OF r1(2)] r1(2) show ?thesis by fastforce
    qed
  qed
qed


section \<open>One call\<close>

lemma read_step_left: "left_over (rs_reader (snd (read_step t st))) = left_over (rs_reader st)"
  by (simp add: read_step_def read_switch_def unfinished_def Let_def)

lemma read_step_Eof: "\<exists>st'. read_step (of_nat kEof) st = (Read_end, st')"
  by (simp add: read_step_def read_switch_def kEof_def kMaxRecordType_def kLastType_def kMiddleType_def
      kFirstType_def kFullType_def Let_def)

lemma read_loop_total:
  "\<exists>rec st'. read_loop mem_sfile st = Some (rec, st') \<and>
    (rec \<noteq> None \<longrightarrow> left_over (rs_reader st') < left_over (rs_reader st))"
proof (induction "left_over (rs_reader st)" arbitrary: st rule: less_induct)
  case less
  obtain t frag r where p: "ReadPhysicalRecord mem_sfile (rs_reader st) (rs_fragment st) = Some (t, frag, r)"
    "t = of_nat kEof \<and> left_over r \<le> left_over (rs_reader st) \<or> left_over r < left_over (rs_reader st)"
    using ReadPhysicalRecord_total by blast
  let ?st = "st\<lparr>rs_reader := r, rs_fragment := frag\<rparr>"
  obtain flow st1 where s: "read_step t ?st = (flow, st1)" by fastforce
  have l: "left_over (rs_reader st1) = left_over r" using read_step_left [of t ?st] by (simp add: s)
  show ?case
  proof (cases "t = of_nat kEof")
    case True
    with read_step_Eof [of ?st] p(1) show ?thesis by (subst read_loop.simps) auto
  next
    case False
    with p(2) l have lt: "left_over (rs_reader st1) < left_over (rs_reader st)" by simp
    show ?thesis
    proof (cases flow)
      case Read_on
      with p(1) s have "read_loop mem_sfile st = read_loop mem_sfile st1" by (subst read_loop.simps) simp
      with less.hyps [OF lt] lt show ?thesis by fastforce
    qed (use p(1) s lt in \<open>(subst read_loop.simps, simp)+\<close>)
  qed
qed

lemma SkipToInitialBlock_left: "\<exists>b r'. SkipToInitialBlock mem_sfile r = (b, r') \<and> left_over r' \<le> left_over r"
  by (auto simp: SkipToInitialBlock_def mem_sfile_def Let_def left_over_def split: prod.splits)

lemma ReadRecord_total:
  "\<exists>rec r'. ReadRecord mem_sfile r = Some (rec, r') \<and> (rec \<noteq> None \<longrightarrow> left_over r' < left_over r)"
proof -
  obtain b r1 where s: "(if last_record_offset r < initial_offset r then SkipToInitialBlock mem_sfile r else (True, r)) =
      (b, r1)" "left_over r1 \<le> left_over r"
    using SkipToInitialBlock_left [of r] by (cases "last_record_offset r < initial_offset r") auto
  define st where "st = \<lparr>rs_reader = r1, rs_fragment = [], rs_in_fragmented = False, rs_prospective = 0,
    rs_scratch = []\<rparr>"
  obtain rec st' where "read_loop mem_sfile st = Some (rec, st')"
    "rec \<noteq> None \<longrightarrow> left_over (rs_reader st') < left_over (rs_reader st)"
    using read_loop_total [of st] by blast
  with s show ?thesis by (cases b) (auto simp: ReadRecord_def st_def)
qed

text \<open>A list of records that is shorter than the number of calls was ended by the log.\<close>

lemma ReadRecords_total:
  "left_over r < n \<Longrightarrow> \<exists>ds r'. ReadRecords mem_sfile n r = Some (ds, r') \<and> length ds < n"
proof (induction n arbitrary: r)
  case (Suc n)
  obtain rec r1 where r1: "ReadRecord mem_sfile r = Some (rec, r1)" "rec \<noteq> None \<longrightarrow> left_over r1 < left_over r"
    using ReadRecord_total by blast
  show ?case
  proof (cases rec)
    case (Some d)
    with r1 Suc.prems have "left_over r1 < n" by simp
    from Suc.IH [OF this] r1 Some show ?thesis by auto
  qed (use r1 in simp)
qed simp

end
