(* ===== verification/Ldb_Block.thy ===== *)
theory Ldb_Block
  imports Ldb_Comparator Ldb_Status
begin

text \<open>
  Blocks of a table file, Pods/leveldb-library/table/block_builder.{h,cc} and block.{h,cc}:
  sorted entries whose keys are stored as the difference to the key before, with restart
  points where a key is stored whole, and an array of the offsets of the restart points at
  the end.

  A pointer into the block is its offset from \<open>data_\<close>.  None is an access outside the block,
  a failed assertion, or a loop that does not end.  A \<open>size_t\<close> is a natural number.
\<close>

section \<open>The builder\<close>

record block_options =
  opt_comparator :: comparator
  block_restart_interval :: nat

record block_builder =
  bb_options :: block_options
  bb_buffer :: "byte list"
  bb_restarts :: "u32 list"
  bb_counter :: nat
  bb_finished :: bool
  bb_last_key :: "byte list"

definition BlockBuilder :: "block_options \<Rightarrow> block_builder option" where
  "BlockBuilder options =
     (if block_restart_interval options \<ge> 1
      then Some \<lparr>bb_options = options, bb_buffer = [], bb_restarts = [0], bb_counter = 0,
        bb_finished = False, bb_last_key = []\<rparr>
      else None)"

definition bb_Reset :: "block_builder \<Rightarrow> block_builder" where
  "bb_Reset b = b\<lparr>bb_buffer := [], bb_restarts := [0], bb_counter := 0, bb_finished := False,
     bb_last_key := []\<rparr>"

definition CurrentSizeEstimate :: "block_builder \<Rightarrow> nat" where
  "CurrentSizeEstimate b = length (bb_buffer b) + length (bb_restarts b) * 4 + 4"

fun put_restarts :: "byte list \<Rightarrow> u32 list \<Rightarrow> byte list" where
  "put_restarts buffer [] = buffer"
| "put_restarts buffer (r # rs) = put_restarts (PutFixed32 buffer r) rs"

definition bb_Finish :: "block_builder \<Rightarrow> slice \<times> block_builder" where
  "bb_Finish b =
     (let buffer = put_restarts (bb_buffer b) (bb_restarts b);
          buffer = PutFixed32 buffer (of_nat (length (bb_restarts b)));
          b = b\<lparr>bb_buffer := buffer, bb_finished := True\<rparr>
      in (bb_buffer b, b))"

function shared_loop :: "nat \<Rightarrow> nat \<Rightarrow> slice \<Rightarrow> slice \<Rightarrow> nat" where
  "shared_loop shared min_length last_key_piece key =
     (if shared < min_length \<and> last_key_piece ! shared = key ! shared
      then shared_loop (shared + 1) min_length last_key_piece key else shared)"
  by pat_completeness auto
termination by (relation "measure (\<lambda>(s, m, _). m - s)") auto

declare shared_loop.simps [simp del]

text \<open>The three assertions of \<open>Add\<close> before it changes anything.\<close>

definition bb_may_add :: "block_builder \<Rightarrow> slice \<Rightarrow> bool option" where
  "bb_may_add b key =
     (if bb_finished b \<or> \<not> bb_counter b \<le> block_restart_interval (bb_options b) then Some False
      else if bb_buffer b = [] then Some True
      else do { r \<leftarrow> Compare (opt_comparator (bb_options b)) key (bb_last_key b); Some (r > 0) })"

definition bb_Add :: "block_builder \<Rightarrow> slice \<Rightarrow> slice \<Rightarrow> block_builder option" where
  "bb_Add b key val =
     do { let last_key_piece = bb_last_key b;
          ok \<leftarrow> bb_may_add b key;
          if \<not> ok then None
          else do {
            let (shared, b) =
              (if bb_counter b < block_restart_interval (bb_options b)
               then (shared_loop 0 (min (length last_key_piece) (length key)) last_key_piece key, b)
               else (0, b\<lparr>bb_restarts := bb_restarts b @ [of_nat (length (bb_buffer b))],
                          bb_counter := 0\<rparr>));
            let non_shared = length key - shared;
            let buffer = PutVarint32 (bb_buffer b) (of_nat shared);
            let buffer = PutVarint32 buffer (of_nat non_shared);
            let buffer = PutVarint32 buffer (of_nat (length val));
            let buffer = buffer @ take non_shared (drop shared key);
            let buffer = buffer @ val;
            let last_key = take shared (bb_last_key b) @ take non_shared (drop shared key);
            if last_key \<noteq> key then None
            else Some (b\<lparr>bb_buffer := buffer, bb_last_key := last_key,
                         bb_counter := bb_counter b + 1\<rparr>) } }"

definition bb_empty :: "block_builder \<Rightarrow> bool" where
  "bb_empty b \<longleftrightarrow> bb_buffer b = []"


section \<open>Entries\<close>

text \<open>
  \<open>DecodeEntry\<close> on the bytes between \<open>p\<close> and \<open>limit\<close> (none when \<open>p\<close> is past \<open>limit\<close>): None is
  NULL; otherwise the three numbers and the bytes from the key delta on.  The sum of the
  two lengths is computed as a \<open>uint32_t\<close> and may wrap around.
\<close>

definition DecodeEntry :: "slice \<Rightarrow> (u32 \<times> u32 \<times> u32 \<times> slice) option" where
  "DecodeEntry p =
     (if length p < 3 then None
      else do {
        let shared = (ucast (p ! 0) :: u32);
        let non_shared = (ucast (p ! 1) :: u32);
        let value_length = (ucast (p ! 2) :: u32);
        (shared, non_shared, value_length, p) \<leftarrow>
          (if shared OR non_shared OR value_length < 128
           then Some (shared, non_shared, value_length, drop 3 p)
           else do { (shared, p) \<leftarrow> GetVarint32Ptr p;
                     (non_shared, p) \<leftarrow> GetVarint32Ptr p;
                     (value_length, p) \<leftarrow> GetVarint32Ptr p;
                     Some (shared, non_shared, value_length, p) });
        if (of_nat (length p) :: u32) < non_shared + value_length then None
        else Some (shared, non_shared, value_length, p) })"


section \<open>Blocks\<close>

text \<open>
  A block: its bytes, \<open>size_\<close> (0 marks an error) and \<open>restart_offset_\<close>, which the constructor
  leaves uninitialised in the error case (None).
\<close>

record block =
  blk_data :: slice
  blk_size :: nat
  blk_restart_offset :: "u32 option"

definition blk_NumRestarts :: "slice \<Rightarrow> nat \<Rightarrow> u32 option" where
  "blk_NumRestarts data sz = (if sz \<ge> 4 then DecodeFixed32 (drop (sz - 4) data) else None)"

definition Block :: "slice \<Rightarrow> block option" where
  "Block contents =
     (let sz = length contents
      in if sz < 4 then Some \<lparr>blk_data = contents, blk_size = 0, blk_restart_offset = None\<rparr>
         else do {
           let max_restarts_allowed = (sz - 4) div 4;
           n \<leftarrow> blk_NumRestarts contents sz;
           if unat n > max_restarts_allowed
           then Some \<lparr>blk_data = contents, blk_size = 0, blk_restart_offset = None\<rparr>
           else Some \<lparr>blk_data = contents, blk_size = sz,
             blk_restart_offset = Some (of_nat (sz - unat (1 + n) * 4))\<rparr> })"


section \<open>The iterator\<close>

text \<open>
  \<open>value_\<close> is an offset into the block and a length, or None for the slices that do not point
  into it.
\<close>

record block_iter =
  bi_comparator :: comparator
  bi_data :: slice
  bi_restarts :: u32
  bi_num_restarts :: u32
  bi_current :: u32
  bi_restart_index :: u32
  bi_key :: "byte list"
  bi_value :: "(nat \<times> nat) option"
  bi_status :: Status

definition block_Iter :: "comparator \<Rightarrow> slice \<Rightarrow> u32 \<Rightarrow> u32 \<Rightarrow> block_iter option" where
  "block_Iter c data restarts num_restarts =
     (if num_restarts > 0
      then Some \<lparr>bi_comparator = c, bi_data = data, bi_restarts = restarts,
        bi_num_restarts = num_restarts, bi_current = restarts, bi_restart_index = num_restarts,
        bi_key = [], bi_value = None, bi_status = OK\<rparr>
      else None)"

definition bi_Valid :: "block_iter \<Rightarrow> bool" where
  "bi_Valid it \<longleftrightarrow> bi_current it < bi_restarts it"

definition block_key :: "block_iter \<Rightarrow> slice option" where
  "block_key it = (if bi_Valid it then Some (bi_key it) else None)"

definition block_value :: "block_iter \<Rightarrow> slice option" where
  "block_value it =
     (if bi_Valid it
      then (case bi_value it of None \<Rightarrow> Some []
            | Some (off, n) \<Rightarrow>
                if off + n \<le> length (bi_data it) then Some (take n (drop off (bi_data it))) else None)
      else None)"

definition NextEntryOffset :: "block_iter \<Rightarrow> u32 option" where
  "NextEntryOffset it =
     (case bi_value it of None \<Rightarrow> None | Some (off, n) \<Rightarrow> Some (of_nat (off + n)))"

definition GetRestartPoint :: "block_iter \<Rightarrow> u32 \<Rightarrow> u32 option" where
  "GetRestartPoint it index =
     (if index < bi_num_restarts it
      then DecodeFixed32 (drop (unat (bi_restarts it) + unat index * 4) (bi_data it)) else None)"

definition SeekToRestartPoint :: "block_iter \<Rightarrow> u32 \<Rightarrow> block_iter option" where
  "SeekToRestartPoint it index =
     do { offset \<leftarrow> GetRestartPoint it index;
          Some (it\<lparr>bi_key := [], bi_restart_index := index, bi_value := Some (unat offset, 0)\<rparr>) }"

definition CorruptionError :: "block_iter \<Rightarrow> block_iter" where
  "CorruptionError it =
     it\<lparr>bi_current := bi_restarts it, bi_restart_index := bi_num_restarts it,
        bi_status := corruption ''bad entry in block'', bi_key := [], bi_value := None\<rparr>"

text \<open>The bytes from an offset up to the restart array.\<close>

definition entry_at :: "block_iter \<Rightarrow> u32 \<Rightarrow> slice" where
  "entry_at it off = drop (unat off) (take (unat (bi_restarts it)) (bi_data it))"

partial_function (option) advance_restart :: "block_iter \<Rightarrow> block_iter option" where
  "advance_restart it =
     (if bi_restart_index it + 1 < bi_num_restarts it
      then do { r \<leftarrow> GetRestartPoint it (bi_restart_index it + 1);
                if r < bi_current it
                then advance_restart (it\<lparr>bi_restart_index := bi_restart_index it + 1\<rparr>)
                else Some it }
      else Some it)"

definition ParseNextKey :: "block_iter \<Rightarrow> (bool \<times> block_iter) option" where
  "ParseNextKey it =
     do { cur \<leftarrow> NextEntryOffset it;
          let it = it\<lparr>bi_current := cur\<rparr>;
          if cur \<ge> bi_restarts it
          then Some (False, it\<lparr>bi_current := bi_restarts it, bi_restart_index := bi_num_restarts it\<rparr>)
          else (case DecodeEntry (entry_at it cur) of
              None \<Rightarrow> Some (False, CorruptionError it)
            | Some (shared, non_shared, value_length, p) \<Rightarrow>
                if length (bi_key it) < unat shared then Some (False, CorruptionError it)
                else do {
                  let off = unat (bi_restarts it) - length p;
                  delta \<leftarrow> (if off + unat non_shared \<le> length (bi_data it)
                    then Some (take (unat non_shared) (drop off (bi_data it))) else None);
                  it \<leftarrow> advance_restart (it\<lparr>bi_key := take (unat shared) (bi_key it) @ delta,
                    bi_value := Some (off + unat non_shared, unat value_length)\<rparr>);
                  Some (True, it) }) }"

definition bi_Next :: "block_iter \<Rightarrow> block_iter option" where
  "bi_Next it = (if bi_Valid it then map_option snd (ParseNextKey it) else None)"

text \<open>\<open>prev_restart\<close> is the loop that looks for a restart point before the current entry.\<close>

function prev_restart :: "block_iter \<Rightarrow> u32 \<Rightarrow> u32 \<Rightarrow> u32 option option" where
  "prev_restart it original index =
     do { r \<leftarrow> GetRestartPoint it index;
          if r \<ge> original
          then (if index = 0 then Some None else prev_restart it original (index - 1))
          else Some (Some index) }"
  by pat_completeness auto
termination
  by (relation "measure (\<lambda>(_, _, i). unat i)") (auto simp: measure_unat)

declare prev_restart.simps [simp del]

partial_function (option) parse_until :: "u32 \<Rightarrow> block_iter \<Rightarrow> block_iter option" where
  "parse_until limit it =
     do { (more, it) \<leftarrow> ParseNextKey it;
          if more
          then do { next_off \<leftarrow> NextEntryOffset it;
                    if next_off < limit then parse_until limit it else Some it }
          else Some it }"

definition bi_Prev :: "block_iter \<Rightarrow> block_iter option" where
  "bi_Prev it =
     (if bi_Valid it
      then do {
        let original = bi_current it;
        r \<leftarrow> prev_restart it original (bi_restart_index it);
        case r of
          None \<Rightarrow> Some (it\<lparr>bi_current := bi_restarts it, bi_restart_index := bi_num_restarts it\<rparr>)
        | Some index \<Rightarrow>
            do { it \<leftarrow> SeekToRestartPoint (it\<lparr>bi_restart_index := index\<rparr>) index;
                 parse_until original it } }
      else None)"

text \<open>The binary search of \<open>Seek\<close>; None inside is a corrupt entry.\<close>

partial_function (option) seek_restart :: "block_iter \<Rightarrow> slice \<Rightarrow> u32 \<Rightarrow> u32 \<Rightarrow> u32 option option" where
  "seek_restart it target left right =
     (if left < right
      then do {
        let mid = (left + right + 1) div 2;
        region_offset \<leftarrow> GetRestartPoint it mid;
        case DecodeEntry (entry_at it region_offset) of
          None \<Rightarrow> Some None
        | Some (shared, non_shared, value_length, p) \<Rightarrow>
            if shared \<noteq> 0 then Some None
            else do {
              let off = unat (bi_restarts it) - length p;
              mid_key \<leftarrow> (if off + unat non_shared \<le> length (bi_data it)
                then Some (take (unat non_shared) (drop off (bi_data it))) else None);
              r \<leftarrow> Compare (bi_comparator it) mid_key target;
              if r < 0 then seek_restart it target mid right
              else seek_restart it target left (mid - 1) } }
      else Some (Some left))"

partial_function (option) seek_linear :: "slice \<Rightarrow> block_iter \<Rightarrow> block_iter option" where
  "seek_linear target it =
     do { (more, it) \<leftarrow> ParseNextKey it;
          if \<not> more then Some it
          else do { r \<leftarrow> Compare (bi_comparator it) (bi_key it) target;
                    if r \<ge> 0 then Some it else seek_linear target it } }"

definition bi_Seek :: "block_iter \<Rightarrow> slice \<Rightarrow> block_iter option" where
  "bi_Seek it target =
     do { r \<leftarrow> seek_restart it target 0 (bi_num_restarts it - 1);
          case r of
            None \<Rightarrow> Some (CorruptionError it)
          | Some left \<Rightarrow> do { it \<leftarrow> SeekToRestartPoint it left; seek_linear target it } }"

definition bi_SeekToFirst :: "block_iter \<Rightarrow> block_iter option" where
  "bi_SeekToFirst it =
     do { it \<leftarrow> SeekToRestartPoint it 0; map_option snd (ParseNextKey it) }"

definition bi_SeekToLast :: "block_iter \<Rightarrow> block_iter option" where
  "bi_SeekToLast it =
     do { it \<leftarrow> SeekToRestartPoint it (bi_num_restarts it - 1); parse_until (bi_restarts it) it }"

text \<open>What \<open>NewIterator\<close> returns: an iterator with only a status, or one over the entries.\<close>

datatype block_iterator = StatusIterator Status | EntryIterator block_iter

definition blk_NewIterator :: "block \<Rightarrow> comparator \<Rightarrow> block_iterator option" where
  "blk_NewIterator b c =
     (if blk_size b < 4 then Some (StatusIterator (corruption ''bad block contents''))
      else do {
        num_restarts \<leftarrow> blk_NumRestarts (blk_data b) (blk_size b);
        if num_restarts = 0 then Some (StatusIterator OK)
        else do { restarts \<leftarrow> blk_restart_offset b;
                  map_option EntryIterator (block_Iter c (blk_data b) restarts num_restarts) } })"

end
