(* ===== verification/Ldb_BlockSpec.thy ===== *)
theory Ldb_BlockSpec
  imports Ldb_Block
begin

text \<open>
  What a block holds: the layout of its entries as a function of the key-value pairs and the
  restart interval, the proof that the builder writes it, and that the iterator of the
  finished block moves over exactly these pairs, forwards, backwards and by search.
\<close>

section \<open>The layout\<close>

definition common :: "slice \<Rightarrow> slice \<Rightarrow> nat" where
  "common a b = shared_loop 0 (min (length a) (length b)) a b"

definition entry_shared :: "nat \<Rightarrow> (slice \<times> slice) list \<Rightarrow> nat \<Rightarrow> nat" where
  "entry_shared r kvs i = (if i mod r = 0 then 0 else common (fst (kvs ! (i - 1))) (fst (kvs ! i)))"

definition entry_header :: "nat \<Rightarrow> slice \<Rightarrow> slice \<Rightarrow> byte list" where
  "entry_header shared key val = EncodeVarint32 (of_nat shared) @
     EncodeVarint32 (of_nat (length key - shared)) @ EncodeVarint32 (of_nat (length val))"

definition entry :: "nat \<Rightarrow> (slice \<times> slice) list \<Rightarrow> nat \<Rightarrow> byte list" where
  "entry r kvs i = (let (key, val) = kvs ! i; shared = entry_shared r kvs i
     in entry_header shared key val @ drop shared key @ val)"

definition entries :: "nat \<Rightarrow> (slice \<times> slice) list \<Rightarrow> nat \<Rightarrow> byte list" where
  "entries r kvs n = concat (map (entry r kvs) [0..<n])"

definition entry_off :: "nat \<Rightarrow> (slice \<times> slice) list \<Rightarrow> nat \<Rightarrow> nat" where
  "entry_off r kvs i = length (entries r kvs i)"

definition groups :: "nat \<Rightarrow> nat \<Rightarrow> nat" where
  "groups r n = (if n = 0 then 1 else (n - 1) div r + 1)"

definition restarts_of :: "nat \<Rightarrow> (slice \<times> slice) list \<Rightarrow> u32 list" where
  "restarts_of r kvs = map (\<lambda>j. of_nat (entry_off r kvs (j * r))) [0..<groups r (length kvs)]"

definition block_bytes :: "nat \<Rightarrow> (slice \<times> slice) list \<Rightarrow> byte list" where
  "block_bytes r kvs = entries r kvs (length kvs) @ concat (map EncodeFixed32 (restarts_of r kvs)) @
     EncodeFixed32 (of_nat (groups r (length kvs)))"

lemma shared_loop_common:
  "s \<le> shared_loop s m a b \<and> (s \<le> m \<longrightarrow> shared_loop s m a b \<le> m) \<and>
   (take s a = take s b \<longrightarrow> m \<le> length a \<longrightarrow> m \<le> length b \<longrightarrow>
      take (shared_loop s m a b) a = take (shared_loop s m a b) b)"
proof (induction s m a b rule: shared_loop.induct)
  case (1 s m a b)
  then show ?case
    by (subst (1 2 3 4) shared_loop.simps) (auto simp: take_Suc_conv_app_nth)
qed

lemma common_le: "common a b \<le> length a" "common a b \<le> length b"
  using shared_loop_common [of 0 "min (length a) (length b)" a b] by (auto simp: common_def)

lemma common_take: "take (common a b) a = take (common a b) b"
  using shared_loop_common [of 0 "min (length a) (length b)" a b] by (auto simp: common_def)

lemma common_Nil [simp]: "common [] b = 0"
  using common_le(1) [of "[]" b] by simp

lemma entry_shared_le:
  "entry_shared r kvs i \<le> length (fst (kvs ! i))"
  "i mod r \<noteq> 0 \<Longrightarrow> entry_shared r kvs i \<le> length (fst (kvs ! (i - 1)))"
  using common_le by (auto simp: entry_shared_def)

lemma entry_append: "i < length kvs \<Longrightarrow> entry r (kvs @ xs) i = entry r kvs i"
  by (cases i) (auto simp: entry_def entry_shared_def nth_append)

lemma entries_append: "i \<le> length kvs \<Longrightarrow> entries r (kvs @ xs) i = entries r kvs i"
  unfolding entries_def by (rule arg_cong [where f = concat]) (auto simp: entry_append)

lemma entry_off_append: "i \<le> length kvs \<Longrightarrow> entry_off r (kvs @ xs) i = entry_off r kvs i"
  by (simp add: entry_off_def entries_append)

lemma entries_0 [simp]: "entries r kvs 0 = []" "entry_off r kvs 0 = 0"
  by (simp_all add: entries_def entry_off_def)

lemma entries_Suc: "entries r kvs (Suc i) = entries r kvs i @ entry r kvs i"
  by (simp add: entries_def)

lemma entry_off_Suc: "entry_off r kvs (Suc i) = entry_off r kvs i + length (entry r kvs i)"
  by (simp add: entry_off_def entries_Suc)

lemma EncodeVarint32_ge1: "1 \<le> length (EncodeVarint32 v)"
  by (simp add: EncodeVarint32_def)

lemma entry_ge3: "3 \<le> length (entry r kvs i)"
  using EncodeVarint32_ge1 [of "of_nat (entry_shared r kvs i)"]
    EncodeVarint32_ge1 [of "of_nat (length (fst (kvs ! i)) - entry_shared r kvs i)"]
    EncodeVarint32_ge1 [of "of_nat (length (snd (kvs ! i)))"]
  by (auto simp: entry_def entry_header_def Let_def split: prod.split)

lemma entry_off_mono: "i \<le> j \<Longrightarrow> entry_off r kvs i \<le> entry_off r kvs j"
  by (rule lift_Suc_mono_le) (simp_all add: entry_off_Suc)

lemma entry_off_strict: "i < j \<Longrightarrow> entry_off r kvs i < entry_off r kvs j"
proof -
  have "entry_off r kvs n < entry_off r kvs (Suc n)" for n
    using entry_ge3 [of r kvs n] by (auto simp: entry_off_Suc)
  then show "i < j \<Longrightarrow> ?thesis" by (rule lift_Suc_mono_less)
qed

lemma entry_off_less_iff [simp]: "entry_off r kvs i < entry_off r kvs j \<longleftrightarrow> i < j"
  by (meson entry_off_mono entry_off_strict leD leI)

lemma entries_Nil_iff [simp]: "entries r kvs n = [] \<longleftrightarrow> n = 0"
  using entry_off_less_iff [of r kvs 0 n] by (auto simp: entry_off_def)

lemma groups_pos [simp]: "0 < groups r n"
  by (simp add: groups_def)

lemma group_start: "j < groups r n \<Longrightarrow> 0 < r \<Longrightarrow> j * r \<le> n \<and> (0 < n \<longrightarrow> j * r < n)"
proof (cases "n = 0")
  case False
  assume "j < groups r n" "0 < r"
  with False have "j \<le> (n - 1) div r" by (simp add: groups_def)
  then have "j * r \<le> n - 1" using \<open>0 < r\<close> by (simp add: less_eq_div_iff_mult_less_eq)
  with False show ?thesis by auto
qed (simp add: groups_def)


section \<open>The builder writes it\<close>

definition bb_holds :: "block_builder \<Rightarrow> (slice \<times> slice) list \<Rightarrow> bool" where
  "bb_holds b kvs \<longleftrightarrow>
     (let r = block_restart_interval (bb_options b); n = length kvs
      in 1 \<le> r \<and> bb_buffer b = entries r kvs n \<and> bb_restarts b = restarts_of r kvs \<and>
         bb_counter b = (if n = 0 then 0 else (n - 1) mod r + 1) \<and> \<not> bb_finished b \<and>
         bb_last_key b = (if n = 0 then [] else fst (last kvs)))"

lemma BlockBuilder_holds:
  "1 \<le> block_restart_interval options \<Longrightarrow>
    \<exists>b. BlockBuilder options = Some b \<and> bb_options b = options \<and> bb_holds b []"
  by (simp add: BlockBuilder_def bb_holds_def restarts_of_def groups_def)

lemma bb_Reset_holds: "bb_holds b kvs \<Longrightarrow> bb_holds (bb_Reset b) []"
  by (simp add: bb_Reset_def bb_holds_def restarts_of_def groups_def Let_def)

lemma counter_full: "0 < r \<Longrightarrow> 0 < n \<Longrightarrow> (n - 1) mod r + 1 < r \<longleftrightarrow> (n :: nat) mod r \<noteq> 0"
  using mod_Suc [of "n - 1" r] mod_less_divisor [of r "n - 1"]
  by (simp add: Suc_lessI split: if_splits) linarith?

lemma counter_next: "0 < n \<Longrightarrow> n mod r \<noteq> 0 \<Longrightarrow> (n - 1) mod r + 1 = (n :: nat) mod r"
  using mod_Suc [of "n - 1" r] by (simp split: if_splits)

lemma groups_next:
  assumes "0 < n"
  shows "groups r (Suc n) = (if n mod r = 0 then groups r n + 1 else groups r n)"
    and "n mod r = 0 \<Longrightarrow> groups r n * r = n"
proof -
  from assms obtain m where n: "n = Suc m" by (cases n) auto
  show "groups r (Suc n) = (if n mod r = 0 then groups r n + 1 else groups r n)"
    using div_Suc [of m r] by (simp add: n groups_def)
  show "groups r n * r = n" if "n mod r = 0"
    using that div_Suc [of m r] div_mult_mod_eq [of "Suc m" r] by (simp add: n groups_def)
qed

lemma restarts_of_next:
  assumes "0 < r"
  shows "restarts_of r (kvs @ [kv]) = restarts_of r kvs @
    (if kvs \<noteq> [] \<and> length kvs mod r = 0 then [of_nat (length (entries r kvs (length kvs)))] else [])"
proof -
  have "map (\<lambda>j. (of_nat (entry_off r (kvs @ [kv]) (j * r)) :: u32)) [0..<groups r (length kvs)] =
      map (\<lambda>j. of_nat (entry_off r kvs (j * r))) [0..<groups r (length kvs)]"
    using group_start [OF _ assms] by (auto simp: entry_off_append)
  moreover have "kvs \<noteq> [] \<Longrightarrow> length kvs mod r = 0 \<Longrightarrow>
      entry_off r (kvs @ [kv]) (groups r (length kvs) * r) = length (entries r kvs (length kvs))"
    using groups_next(2) [of "length kvs" r] by (simp add: entry_off_append) (simp add: entry_off_def)
  moreover have "groups r (Suc (length kvs)) =
      (if kvs \<noteq> [] \<and> length kvs mod r = 0 then groups r (length kvs) + 1 else groups r (length kvs))"
    using groups_next(1) [of "length kvs" r] by (cases "kvs = []") (auto simp: groups_def)
  ultimately show ?thesis by (cases "kvs = []") (auto simp: restarts_of_def groups_def)
qed

lemma bb_Add_holds:
  assumes holds: "bb_holds b kvs"
    and larger: "kvs \<noteq> [] \<Longrightarrow> \<exists>x > 0. Compare (opt_comparator (bb_options b)) key (fst (last kvs)) = Some x"
  shows "\<exists>b'. bb_Add b key val = Some b' \<and> bb_options b' = bb_options b \<and> bb_holds b' (kvs @ [(key, val)])"
proof -
  let ?r = "block_restart_interval (bb_options b)" and ?n = "length kvs"
  let ?s = "entry_shared ?r (kvs @ [(key, val)]) ?n"
  have r: "0 < ?r" and buf: "bb_buffer b = entries ?r kvs ?n" and res: "bb_restarts b = restarts_of ?r kvs"
    and cnt: "bb_counter b = (if ?n = 0 then 0 else (?n - 1) mod ?r + 1)" and fin: "\<not> bb_finished b"
    and lk: "bb_last_key b = (if ?n = 0 then [] else fst (last kvs))"
    using holds by (auto simp: bb_holds_def Let_def)
  have cnt_le: "bb_counter b \<le> ?r" using r cnt by (auto simp: Suc_le_eq)
  have may: "bb_may_add b key = Some True"
    using larger fin cnt_le by (auto simp: bb_may_add_def buf lk)
  have s: "?s = (if bb_counter b < ?r then common (bb_last_key b) key else 0)"
    using r counter_full [OF r, of ?n]
    by (cases "kvs = []") (auto simp: entry_shared_def lk cnt nth_append last_conv_nth)
  have tk: "take ?s (bb_last_key b) = take ?s key" by (simp add: s common_take)
  have whole: "take ?s key @ take (length key - ?s) (drop ?s key) = key" by simp
  have ent: "entry ?r (kvs @ [(key, val)]) ?n = entry_header ?s key val @ drop ?s key @ val"
    by (simp add: entry_def Let_def)
  have full: "\<not> bb_counter b < ?r \<longleftrightarrow> kvs \<noteq> [] \<and> ?n mod ?r = 0"
    using r counter_full [OF r, of ?n] by (cases "kvs = []") (auto simp: cnt)
  define b' where "b' = b\<lparr>bb_restarts := restarts_of ?r (kvs @ [(key, val)]),
    bb_buffer := entries ?r (kvs @ [(key, val)]) (Suc ?n), bb_last_key := key, bb_counter := ?n mod ?r + 1\<rparr>"
  have cnt': "bb_counter b < ?r \<Longrightarrow> bb_counter b = ?n mod ?r"
    using r full counter_next [of ?n ?r] by (cases "kvs = []") (auto simp: cnt)
  have "bb_Add b key val = Some b'"
  proof (cases "bb_counter b < ?r")
    case True
    with s have "?s = shared_loop 0 (min (length (bb_last_key b)) (length key)) (bb_last_key b) key"
      by (simp add: common_def)
    with True full show ?thesis
      using tk whole cnt' [OF True]
      by (simp add: bb_Add_def Let_def may b'_def restarts_of_next [OF r] entries_Suc entries_append ent
          entry_header_def PutVarint32_def buf res)
  next
    case False
    then have "?s = 0" "?n mod ?r = 0" "kvs \<noteq> []" using s full by auto
    with False show ?thesis
      by (simp add: bb_Add_def Let_def may b'_def restarts_of_next [OF r] entries_Suc entries_append ent
          entry_header_def PutVarint32_def buf res)
  qed
  moreover have "bb_holds b' (kvs @ [(key, val)])"
    using r fin by (simp add: bb_holds_def b'_def)
  ultimately show ?thesis by (auto simp: b'_def)
qed

fun bb_Adds :: "block_builder \<Rightarrow> (slice \<times> slice) list \<Rightarrow> block_builder option" where
  "bb_Adds b [] = Some b"
| "bb_Adds b ((k, v) # kvs) = do { b \<leftarrow> bb_Add b k v; bb_Adds b kvs }"

lemma put_restarts_concat: "put_restarts buf rs = buf @ concat (map EncodeFixed32 rs)"
  by (induction rs arbitrary: buf) (simp_all add: PutFixed32_def)

lemma bb_Finish_holds:
  "bb_holds b kvs \<Longrightarrow> fst (bb_Finish b) = block_bytes (block_restart_interval (bb_options b)) kvs"
  by (simp add: bb_Finish_def bb_holds_def Let_def put_restarts_concat PutFixed32_def block_bytes_def
      restarts_of_def)

lemma CurrentSizeEstimate_holds: "bb_holds b kvs \<Longrightarrow> CurrentSizeEstimate b = length (fst (bb_Finish b))"
proof -
  have "length (concat (map EncodeFixed32 rs)) = 4 * length rs" for rs by (induction rs) simp_all
  then show ?thesis by (simp add: bb_Finish_def CurrentSizeEstimate_def put_restarts_concat PutFixed32_def Let_def)
qed

end
