(* ===== verification/Ldb_BlockIter.thy ===== *)
theory Ldb_BlockIter
  imports Ldb_BlockSpec
begin

text \<open>
  The iterator of a finished block.  \<open>at_entry\<close> and \<open>at_end\<close> are the states it can be in;
  \<open>ready\<close> is the state in front of an entry in which \<open>ParseNextKey\<close> decodes it.  Next, Prev,
  SeekToFirst, SeekToLast and Seek move between them as over the list of pairs.
\<close>

section \<open>Decoding one entry\<close>

text \<open>
  The fast path for three one-byte numbers gives what the general path gives.
\<close>

definition decode_slow :: "slice \<Rightarrow> (u32 \<times> u32 \<times> u32 \<times> slice) option" where
  "decode_slow p =
     do { (shared, p) \<leftarrow> GetVarint32 p;
          (non_shared, p) \<leftarrow> GetVarint32 p;
          (value_length, p) \<leftarrow> GetVarint32 p;
          if (of_nat (length p) :: u32) < non_shared + value_length then None
          else Some (shared, non_shared, value_length, p) }"

lemma or_less_128:
  fixes a b c :: byte
  assumes "(ucast a :: u32) OR ucast b OR ucast c < 128"
  shows "(ucast a :: u32) AND 128 = 0" "(ucast b :: u32) AND 128 = 0" "(ucast c :: u32) AND 128 = 0"
proof -
  have "\<not> bit ((ucast a :: u32) OR ucast b OR ucast c) 7"
    using assms by (simp add: bit_iff_odd div_word_less)
  then show "(ucast a :: u32) AND 128 = 0" "(ucast b :: u32) AND 128 = 0" "(ucast c :: u32) AND 128 = 0"
    using and_exp_eq_0_iff_not_bit [of "ucast a :: u32" 7] and_exp_eq_0_iff_not_bit [of "ucast b :: u32" 7]
      and_exp_eq_0_iff_not_bit [of "ucast c :: u32" 7] by (simp_all add: bit_simps)
qed

lemma DecodeEntry_slow: "DecodeEntry p = decode_slow p"
proof (cases "length p < 3")
  case True
  have "decode_slow p = None"
  proof (rule ccontr)
    assume "decode_slow p \<noteq> None"
    then obtain a p1 b p2 c p3 where "GetVarint32 p = Some (a, p1)" "GetVarint32 p1 = Some (b, p2)"
      "GetVarint32 p2 = Some (c, p3)"
      by (auto simp: decode_slow_def outcome_simps split: prod.splits)
    then show False using True GetVarint_shorter(1) [of p] GetVarint_shorter(1) [of p1]
      GetVarint_shorter(1) [of p2] by fastforce
  qed
  with True show ?thesis by (simp add: DecodeEntry_def)
next
  case False
  then obtain x y z q where p: "p = x # y # z # q"
    by (metis Suc_le_length_iff numeral_3_eq_3 not_less)
  show ?thesis
  proof (cases "(ucast x :: u32) OR ucast y OR ucast z < 128")
    case True
    with or_less_128 [OF True] show ?thesis
      by (simp add: p DecodeEntry_def decode_slow_def GetVarint32_def GetVarint32Ptr_def)
  next
    case False
    then show ?thesis
      by (simp add: p DecodeEntry_def decode_slow_def GetVarint32_def Let_def case_prod_unfold Option.bind_assoc)
         (simp only: fst_conv snd_conv)
  qed
qed

lemma DecodeEntry_entry:
  assumes "length (entry r kvs i @ rest) < 2 ^ 32"
  shows "DecodeEntry (entry r kvs i @ rest) =
    Some (of_nat (entry_shared r kvs i), of_nat (length (fst (kvs ! i)) - entry_shared r kvs i),
      of_nat (length (snd (kvs ! i))), drop (entry_shared r kvs i) (fst (kvs ! i)) @ snd (kvs ! i) @ rest)"
proof -
  obtain key val where kv: "kvs ! i = (key, val)" by fastforce
  define s where "s = entry_shared r kvs i"
  let ?p = "drop s key @ val @ rest"
  have len: "length ?p < 2 ^ 32" using assms by (simp add: entry_def kv s_def Let_def)
  have "(of_nat (length key - s) :: u32) + of_nat (length val) = of_nat (length key - s + length val)"
    by simp
  also have "\<not> (of_nat (length ?p) :: u32) < \<dots>"
    using len by (simp add: word_less_nat_alt unat_of_nat del: of_nat_add)
  finally show ?thesis
    by (simp add: DecodeEntry_slow decode_slow_def entry_def entry_header_def kv s_def [symmetric] Let_def
        del: of_nat_add)
qed


section \<open>The states of the iterator\<close>

definition iter_over :: "comparator \<Rightarrow> nat \<Rightarrow> (slice \<times> slice) list \<Rightarrow> block_iter \<Rightarrow> bool" where
  "iter_over c r kvs it \<longleftrightarrow>
     bi_comparator it = c \<and> bi_data it = block_bytes r kvs \<and>
     bi_restarts it = of_nat (entry_off r kvs (length kvs)) \<and>
     bi_num_restarts it = of_nat (groups r (length kvs)) \<and> bi_status it = OK"

definition in_group :: "nat \<Rightarrow> nat \<Rightarrow> nat \<Rightarrow> u32 \<Rightarrow> bool" where
  "in_group r n i w \<longleftrightarrow> (\<exists>j. w = of_nat j \<and> j < groups r n \<and> j * r \<le> i)"

definition at_entry :: "comparator \<Rightarrow> nat \<Rightarrow> (slice \<times> slice) list \<Rightarrow> nat \<Rightarrow> block_iter \<Rightarrow> bool" where
  "at_entry c r kvs i it \<longleftrightarrow> iter_over c r kvs it \<and> i < length kvs \<and>
     bi_current it = of_nat (entry_off r kvs i) \<and> bi_key it = fst (kvs ! i) \<and>
     bi_value it = Some (entry_off r kvs (Suc i) - length (snd (kvs ! i)), length (snd (kvs ! i))) \<and>
     in_group r (length kvs) i (bi_restart_index it)"

definition at_end :: "comparator \<Rightarrow> nat \<Rightarrow> (slice \<times> slice) list \<Rightarrow> block_iter \<Rightarrow> bool" where
  "at_end c r kvs it \<longleftrightarrow> iter_over c r kvs it \<and> bi_current it = bi_restarts it"

definition ready :: "comparator \<Rightarrow> nat \<Rightarrow> (slice \<times> slice) list \<Rightarrow> nat \<Rightarrow> block_iter \<Rightarrow> bool" where
  "ready c r kvs i it \<longleftrightarrow> iter_over c r kvs it \<and> i \<le> length kvs \<and>
     NextEntryOffset it = Some (of_nat (entry_off r kvs i)) \<and>
     (i < length kvs \<longrightarrow> entry_shared r kvs i \<le> length (bi_key it) \<and>
        take (entry_shared r kvs i) (bi_key it) = take (entry_shared r kvs i) (fst (kvs ! i))) \<and>
     in_group r (length kvs) i (bi_restart_index it)"

text \<open>The pairs of a block whose bytes are counted in 32 bits.\<close>

definition block_fits :: "nat \<Rightarrow> (slice \<times> slice) list \<Rightarrow> bool" where
  "block_fits r kvs \<longleftrightarrow> 0 < r \<and> length (block_bytes r kvs) < 2 ^ 32"

lemma length_restarts: "length (concat (map EncodeFixed32 rs)) = 4 * length rs"
  by (induction rs) simp_all

lemma length_block_bytes:
  "length (block_bytes r kvs) = entry_off r kvs (length kvs) + 4 * groups r (length kvs) + 4"
proof -
  have "length (restarts_of r kvs) = groups r (length kvs)" by (simp add: restarts_of_def)
  then show ?thesis by (simp only: block_bytes_def length_append length_restarts length_EncodeFixed entry_off_def)
qed

lemma block_fits_off:
  "block_fits r kvs \<Longrightarrow> i \<le> length kvs \<Longrightarrow> entry_off r kvs i + 4 * groups r (length kvs) + 4 < 2 ^ 32"
  using entry_off_mono [of i "length kvs" r kvs]
  by (simp add: block_fits_def length_block_bytes)

lemma unat_off [simp]:
  "block_fits r kvs \<Longrightarrow> i \<le> length kvs \<Longrightarrow> unat (of_nat (entry_off r kvs i) :: u32) = entry_off r kvs i"
  using block_fits_off by (fastforce simp: unat_of_nat)

lemma unat_group:
  "block_fits r kvs \<Longrightarrow> j \<le> groups r (length kvs) \<Longrightarrow> unat (of_nat j :: u32) = j \<and> j < 2 ^ 30"
  using block_fits_off [of r kvs 0] by (simp add: unat_of_nat)

lemma off_less_iff [simp]:
  "block_fits r kvs \<Longrightarrow> i \<le> length kvs \<Longrightarrow> j \<le> length kvs \<Longrightarrow>
    (of_nat (entry_off r kvs i) :: u32) < of_nat (entry_off r kvs j) \<longleftrightarrow> i < j"
  by (simp add: word_less_nat_alt)

lemma off_le_iff [simp]:
  "block_fits r kvs \<Longrightarrow> i \<le> length kvs \<Longrightarrow> j \<le> length kvs \<Longrightarrow>
    (of_nat (entry_off r kvs i) :: u32) \<le> of_nat (entry_off r kvs j) \<longleftrightarrow> i \<le> j"
  by (simp add: not_less [symmetric])

lemma group_less_iff:
  "block_fits r kvs \<Longrightarrow> i \<le> groups r (length kvs) \<Longrightarrow> j \<le> groups r (length kvs) \<Longrightarrow>
    (of_nat i :: u32) < of_nat j \<longleftrightarrow> i < j"
  using unat_group by (simp add: word_less_nat_alt)

lemma group_Suc: "(of_nat j :: u32) + 1 = of_nat (Suc j)"
  by simp

lemma drop_restarts: "drop (j * 4) (concat (map EncodeFixed32 rs)) = concat (map EncodeFixed32 (drop j rs))"
proof (induction j arbitrary: rs)
  case (Suc j)
  then show ?case by (cases rs) (simp_all add: drop_append)
qed simp

lemma restart_in_block:
  assumes "j < groups r (length kvs)"
  shows "DecodeFixed32 (drop (entry_off r kvs (length kvs) + j * 4) (block_bytes r kvs)) =
    Some (of_nat (entry_off r kvs (j * r)))"
proof -
  let ?rs = "restarts_of r kvs"
  have len: "length ?rs = groups r (length kvs)" by (simp add: restarts_of_def)
  have "drop (entry_off r kvs (length kvs) + j * 4) (block_bytes r kvs) =
      concat (map EncodeFixed32 (drop j ?rs)) @ EncodeFixed32 (of_nat (groups r (length kvs)))"
    using assms by (simp add: block_bytes_def entry_off_def drop_restarts length_restarts len)
  also have "drop j ?rs = ?rs ! j # drop (Suc j) ?rs" using assms len by (simp add: Cons_nth_drop_Suc)
  finally show ?thesis using assms by (simp add: restarts_of_def)
qed

lemma last_word_in_block:
  "DecodeFixed32 (drop (length (block_bytes r kvs) - 4) (block_bytes r kvs)) =
    Some (of_nat (groups r (length kvs)))"
proof -
  have "length (concat (map EncodeFixed32 (restarts_of r kvs))) = 4 * groups r (length kvs)"
    by (simp only: length_restarts) (simp add: restarts_of_def)
  then show ?thesis by (simp add: length_block_bytes) (simp add: block_bytes_def entry_off_def)
qed

lemma entries_split:
  assumes "i < n"
  shows "\<exists>rest. entries r kvs n = entries r kvs i @ entry r kvs i @ rest"
proof -
  have "[0..<n] = [0..<i] @ i # [Suc i..<n]" using assms by (metis upt_conv_Cons upt_add_eq_append le_add_diff_inverse less_imp_le zero_le)
  then show ?thesis by (auto simp: entries_def)
qed


section \<open>Reading the layout\<close>

lemma entry_at_off:
  assumes "block_fits r kvs" and "iter_over c r kvs it" and "i < length kvs"
  shows "\<exists>rest. entry_at it (of_nat (entry_off r kvs i)) = entry r kvs i @ rest \<and>
    entry_off r kvs i + length (entry r kvs i @ rest) = entry_off r kvs (length kvs) \<and>
    bi_data it = entries r kvs i @ entry r kvs i @ rest @
      drop (entry_off r kvs (length kvs)) (bi_data it)"
proof -
  obtain rest where e: "entries r kvs (length kvs) = entries r kvs i @ entry r kvs i @ rest"
    using entries_split [OF assms(3)] by blast
  then have "entry_off r kvs (length kvs) = entry_off r kvs i + length (entry r kvs i @ rest)"
    by (simp add: entry_off_def)
  moreover have "take (entry_off r kvs (length kvs)) (bi_data it) = entries r kvs (length kvs)"
    using assms(2) by (simp add: iter_over_def block_bytes_def entry_off_def)
  moreover have "entry_at it (of_nat (entry_off r kvs i)) =
      drop (entry_off r kvs i) (take (entry_off r kvs (length kvs)) (bi_data it))"
    using assms by (simp add: entry_at_def iter_over_def)
  ultimately show ?thesis
    using e append_take_drop_id [of "entry_off r kvs (length kvs)" "bi_data it"]
    by (intro exI [of _ rest]) (simp add: entry_off_def)
qed

lemma key_le_off: "i < n \<Longrightarrow> length (fst (kvs ! i)) \<le> entry_off r kvs (Suc i)"
proof (induction i)
  case (Suc i)
  have "entry_shared r kvs (Suc i) \<le> entry_off r kvs (Suc i)"
    using entry_shared_le(2) [of "Suc i" r kvs] Suc by (cases "Suc i mod r = 0") (auto simp: entry_shared_def)
  moreover have "length (fst (kvs ! Suc i)) - entry_shared r kvs (Suc i) \<le> length (entry r kvs (Suc i))"
    by (simp add: entry_def split_beta Let_def)
  ultimately show ?case by (simp add: entry_off_Suc [of r kvs "Suc i"])
qed (simp add: entry_off_Suc entry_def entry_shared_def split_beta Let_def)

lemma GetRestartPoint_over:
  assumes "block_fits r kvs" and "iter_over c r kvs it" and "j < groups r (length kvs)"
  shows "GetRestartPoint it (of_nat j) = Some (of_nat (entry_off r kvs (j * r)))"
  using assms unat_group [OF assms(1), of j]
  by (simp add: GetRestartPoint_def iter_over_def group_less_iff restart_in_block)

lemma group_le: "block_fits r kvs \<Longrightarrow> j < groups r (length kvs) \<Longrightarrow> j * r \<le> length kvs"
  using group_start [of j r "length kvs"] by (simp add: block_fits_def)

text \<open>
  The key delta of an entry lies inside the block and ends where the value starts.
\<close>

lemma delta_in_block:
  assumes "block_fits r kvs" and "iter_over c r kvs it" and "i < length kvs"
  defines "s \<equiv> entry_shared r kvs i" and "key \<equiv> fst (kvs ! i)" and "val \<equiv> snd (kvs ! i)"
  shows "\<exists>p off. DecodeEntry (entry_at it (of_nat (entry_off r kvs i))) =
      Some (of_nat s, of_nat (length key - s), of_nat (length val), p) \<and>
    off = unat (bi_restarts it) - length p \<and>
    off + (length key - s) = entry_off r kvs (Suc i) - length val \<and>
    length val \<le> entry_off r kvs (Suc i) \<and>
    off + (length key - s) + length val \<le> length (bi_data it) \<and>
    take (length key - s) (drop off (bi_data it)) = drop s key \<and>
    take (length val) (drop (off + (length key - s)) (bi_data it)) = val \<and>
    length key - s < 2 ^ 32 \<and> length val < 2 ^ 32 \<and> s < 2 ^ 32"
proof -
  obtain rest where at: "entry_at it (of_nat (entry_off r kvs i)) = entry r kvs i @ rest"
    and len: "entry_off r kvs i + length (entry r kvs i @ rest) = entry_off r kvs (length kvs)"
    and dat: "bi_data it = entries r kvs i @ entry r kvs i @ rest @ drop (entry_off r kvs (length kvs)) (bi_data it)"
    using entry_at_off [OF assms(1-3)] by blast
  define h where "h = entry_header s key val"
  have ent: "entry r kvs i = h @ drop s key @ val"
    by (simp add: entry_def h_def s_def key_def val_def split_beta Let_def)
  have bound: "entry_off r kvs (length kvs) < 2 ^ 32" using block_fits_off [OF assms(1) order_refl] by linarith
  have sk: "s \<le> length key" using entry_shared_le(1) by (simp add: s_def key_def)
  let ?p = "drop s key @ val @ rest" and ?off = "entry_off r kvs i + length h"
  have "DecodeEntry (entry r kvs i @ rest) =
      Some (of_nat s, of_nat (length key - s), of_nat (length val), ?p)"
    using DecodeEntry_entry [of r kvs i rest] len bound by (simp add: s_def key_def val_def)
  moreover have "unat (bi_restarts it) - length ?p = ?off"
    using len ent assms(1,2) by (simp add: iter_over_def)
  moreover have "?off + (length key - s) = entry_off r kvs (Suc i) - length val"
    "length val \<le> entry_off r kvs (Suc i)"
    using ent by (simp_all add: entry_off_Suc)
  moreover have "take (length key - s) (drop ?off (bi_data it)) = drop s key"
    "take (length val) (drop (?off + (length key - s)) (bi_data it)) = val"
    "?off + (length key - s) + length val \<le> length (bi_data it)"
    by (subst dat, simp add: ent entry_off_def)+
  moreover have "length key - s < 2 ^ 32" "length val < 2 ^ 32" "s < 2 ^ 32"
    using len bound ent sk key_le_off [of i "length kvs" kvs r] entry_off_mono [of "Suc i" "length kvs" r kvs] assms(3)
    by (simp_all add: key_def)
  ultimately show ?thesis using at by metis
qed


section \<open>Parsing\<close>

lemma advance_restart_ok:
  assumes "block_fits r kvs" and "iter_over c r kvs it" and "i < length kvs"
    and "bi_current it = of_nat (entry_off r kvs i)" and "bi_restart_index it = of_nat j"
    and "j < groups r (length kvs)" and "j * r \<le> i"
  shows "\<exists>w. advance_restart it = Some (it\<lparr>bi_restart_index := w\<rparr>) \<and> in_group r (length kvs) i w"
  using assms
proof (induction "groups r (length kvs) - j" arbitrary: j it)
  case (Suc d)
  let ?it = "it\<lparr>bi_restart_index := of_nat (Suc j)\<rparr>"
  have num: "bi_num_restarts it = of_nat (groups r (length kvs))" using Suc.prems(2) by (simp add: iter_over_def)
  have stay: "in_group r (length kvs) i (bi_restart_index it)" using Suc.prems by (auto simp: in_group_def)
  show ?case
  proof (cases "Suc j < groups r (length kvs) \<and> Suc j * r < i")
    case True
    then have "GetRestartPoint it (of_nat (Suc j)) = Some (of_nat (entry_off r kvs (Suc j * r)))"
      using Suc.prems by (intro GetRestartPoint_over) auto
    with True Suc.prems num have "advance_restart it = advance_restart ?it"
      by (subst advance_restart.simps) (simp add: group_Suc group_less_iff del: of_nat_Suc mult_Suc)
    moreover have "\<exists>w. advance_restart ?it = Some (?it\<lparr>bi_restart_index := w\<rparr>) \<and> in_group r (length kvs) i w"
      using True Suc.prems Suc.hyps(2) by (intro Suc.hyps(1)) (auto simp: iter_over_def)
    ultimately show ?thesis by simp
  next
    case False
    have "advance_restart it = Some it"
    proof (cases "Suc j < groups r (length kvs)")
      case True
      then have "GetRestartPoint it (of_nat (Suc j)) = Some (of_nat (entry_off r kvs (Suc j * r)))"
        using Suc.prems by (intro GetRestartPoint_over) auto
      with True False Suc.prems num group_le [OF Suc.prems(1) True] show ?thesis
        by (subst advance_restart.simps) (simp add: group_Suc group_less_iff del: of_nat_Suc mult_Suc)
    next
      case False
      with Suc.prems num show ?thesis
        by (subst advance_restart.simps) (simp add: group_Suc group_less_iff del: of_nat_Suc)
    qed
    with stay show ?thesis by (intro exI [of _ "bi_restart_index it"]) simp
  qed
qed simp

lemma parse_entry:
  assumes "block_fits r kvs" and "ready c r kvs i it" and "i < length kvs"
  shows "\<exists>it'. ParseNextKey it = Some (True, it') \<and> at_entry c r kvs i it'"
proof -
  let ?cur = "of_nat (entry_off r kvs i) :: u32" and ?n = "length kvs"
  let ?s = "entry_shared r kvs i" and ?key = "fst (kvs ! i)" and ?val = "snd (kvs ! i)"
  have over: "iter_over c r kvs it" and nxt: "NextEntryOffset it = Some ?cur"
    and key: "?s \<le> length (bi_key it)" "take ?s (bi_key it) = take ?s ?key"
    using assms by (auto simp: ready_def)
  from assms(2) obtain j where j: "bi_restart_index it = of_nat j" "j < groups r ?n" "j * r \<le> i"
    by (auto simp: ready_def in_group_def)
  define it1 where "it1 = it\<lparr>bi_current := ?cur\<rparr>"
  have over1: "iter_over c r kvs it1" using over by (simp add: it1_def iter_over_def)
  obtain p off where dec: "DecodeEntry (entry_at it1 ?cur) =
      Some (of_nat ?s, of_nat (length ?key - ?s), of_nat (length ?val), p)"
    and off: "off = unat (bi_restarts it1) - length p"
    and d: "off + (length ?key - ?s) = entry_off r kvs (Suc i) - length ?val"
      "off + (length ?key - ?s) + length ?val \<le> length (bi_data it1)"
      "take (length ?key - ?s) (drop off (bi_data it1)) = drop ?s ?key"
      "length ?key - ?s < 2 ^ 32" "length ?val < 2 ^ 32" "?s < 2 ^ 32"
    using delta_in_block [OF assms(1) over1 assms(3)] by blast
  define it2 where "it2 = it1\<lparr>bi_key := ?key, bi_value := Some (off + (length ?key - ?s), length ?val)\<rparr>"
  have "\<exists>w. advance_restart it2 = Some (it2\<lparr>bi_restart_index := w\<rparr>) \<and> in_group r ?n i w"
    using assms over j by (intro advance_restart_ok [where j = j]) (auto simp: it2_def it1_def iter_over_def)
  then obtain w where w: "advance_restart it2 = Some (it2\<lparr>bi_restart_index := w\<rparr>)" "in_group r ?n i w" by blast
  have un: "unat (of_nat ?s :: u32) = ?s" "unat (of_nat (length ?key - ?s) :: u32) = length ?key - ?s"
    "unat (of_nat (length ?val) :: u32) = length ?val"
    using d by (simp_all add: unat_of_nat)
  have "\<not> bi_restarts it \<le> ?cur"
    using over assms(1,3) by (simp add: iter_over_def not_le)
  moreover have "it1\<lparr>bi_key := take ?s (bi_key it1) @ take (length ?key - ?s) (drop off (bi_data it1)),
      bi_value := Some (off + (length ?key - ?s), length ?val)\<rparr> = it2"
    using key d(3) by (simp add: it2_def it1_def)
  moreover have "bi_key it1 = bi_key it" "bi_restarts it1 = bi_restarts it" by (simp_all add: it1_def)
  ultimately have "ParseNextKey it = Some (True, it2\<lparr>bi_restart_index := w\<rparr>)"
    using nxt dec key(1) w(1) d(2) off un
    by (simp add: ParseNextKey_def it1_def [symmetric] Let_def not_less)
  moreover have "at_entry c r kvs i (it2\<lparr>bi_restart_index := w\<rparr>)"
    using over1 assms(3) w(2) d(1) by (simp add: at_entry_def it2_def iter_over_def) (simp add: it1_def)
  ultimately show ?thesis by blast
qed

lemma parse_end:
  "block_fits r kvs \<Longrightarrow> ready c r kvs (length kvs) it \<Longrightarrow>
    \<exists>it'. ParseNextKey it = Some (False, it') \<and> at_end c r kvs it'"
  by (auto simp: ParseNextKey_def ready_def iter_over_def at_end_def Let_def)

lemma at_entry_ready: "block_fits r kvs \<Longrightarrow> at_entry c r kvs i it \<Longrightarrow> ready c r kvs (Suc i) it"
proof -
  assume block_fits: "block_fits r kvs" and at: "at_entry c r kvs i it"
  then have i: "i < length kvs" and val: "length (snd (kvs ! i)) \<le> entry_off r kvs (Suc i)"
    by (auto simp: at_entry_def entry_off_Suc entry_def split_beta Let_def)
  have "in_group r (length kvs) (Suc i) (bi_restart_index it)"
    using at by (auto simp: at_entry_def in_group_def)
  with at i val show ?thesis
    using common_le(1) common_take
    by (auto simp: ready_def at_entry_def NextEntryOffset_def entry_shared_def)
qed

lemma SeekToRestartPoint_ready:
  assumes "block_fits r kvs" and "iter_over c r kvs it" and "j < groups r (length kvs)"
  shows "\<exists>it'. SeekToRestartPoint it (of_nat j) = Some it' \<and> ready c r kvs (j * r) it'"
  using assms group_le [OF assms(1,3)] GetRestartPoint_over [OF assms]
  by (auto simp: SeekToRestartPoint_def ready_def iter_over_def NextEntryOffset_def entry_shared_def
      in_group_def)


section \<open>Moving\<close>

lemma at_entry_Valid: "block_fits r kvs \<Longrightarrow> at_entry c r kvs i it \<Longrightarrow> bi_Valid it"
  by (auto simp: at_entry_def iter_over_def bi_Valid_def)

lemma at_end_not_Valid: "at_end c r kvs it \<Longrightarrow> \<not> bi_Valid it"
  by (simp add: at_end_def bi_Valid_def)

lemma at_entry_pair:
  assumes "block_fits r kvs" and "at_entry c r kvs i it"
  shows "block_key it = Some (fst (kvs ! i))" "block_value it = Some (snd (kvs ! i))"
proof -
  have over: "iter_over c r kvs it" and i: "i < length kvs" using assms by (auto simp: at_entry_def)
  show "block_key it = Some (fst (kvs ! i))"
    using at_entry_Valid [OF assms] assms(2) by (simp add: block_key_def at_entry_def)
  show "block_value it = Some (snd (kvs ! i))"
    using delta_in_block [OF assms(1) over i] at_entry_Valid [OF assms] assms(2)
    by (auto simp: block_value_def at_entry_def)
qed

definition at_next :: "comparator \<Rightarrow> nat \<Rightarrow> (slice \<times> slice) list \<Rightarrow> nat \<Rightarrow> block_iter \<Rightarrow> bool" where
  "at_next c r kvs i it \<longleftrightarrow> (if i < length kvs then at_entry c r kvs i it else at_end c r kvs it)"

lemma parse_at:
  assumes "block_fits r kvs" and "ready c r kvs i it"
  shows "\<exists>it'. ParseNextKey it = Some (i < length kvs, it') \<and> at_next c r kvs i it'"
proof (cases "i < length kvs")
  case True
  with parse_entry [OF assms True] show ?thesis by (simp add: at_next_def)
next
  case False
  with assms have "i = length kvs" by (simp add: ready_def)
  with parse_end [OF assms(1)] assms(2) show ?thesis by (simp add: at_next_def)
qed

lemma Next_at:
  assumes "block_fits r kvs" and "at_entry c r kvs i it"
  shows "\<exists>it'. bi_Next it = Some it' \<and> at_next c r kvs (Suc i) it'"
  using parse_at [OF assms(1) at_entry_ready [OF assms]] at_entry_Valid [OF assms]
  by (auto simp: bi_Next_def)

lemma SeekToFirst_at:
  assumes "block_fits r kvs" and "iter_over c r kvs it"
  shows "\<exists>it'. bi_SeekToFirst it = Some it' \<and> at_next c r kvs 0 it'"
proof -
  obtain it1 where "SeekToRestartPoint it 0 = Some it1" and ready: "ready c r kvs 0 it1"
    using SeekToRestartPoint_ready [OF assms, of 0] by auto
  with parse_at [OF assms(1) ready] show ?thesis by (auto simp: bi_SeekToFirst_def)
qed

lemma parse_until_at:
  assumes "block_fits r kvs" and "ready c r kvs k it" and "k \<le> m" and "m < length kvs"
  shows "\<exists>it'. parse_until (of_nat (entry_off r kvs (Suc m))) it = Some it' \<and> at_entry c r kvs m it'"
  using assms(2,3)
proof (induction "m - k" arbitrary: k it)
  case 0
  then obtain it' where p: "ParseNextKey it = Some (True, it')" "at_entry c r kvs m it'"
    using parse_entry [OF assms(1), of c m it] assms(4) by auto
  with at_entry_ready [OF assms(1) p(2)] show ?case
    by (subst parse_until.simps) (simp add: ready_def)
next
  case (Suc d)
  then obtain it' where p: "ParseNextKey it = Some (True, it')" "at_entry c r kvs k it'"
    using parse_entry [OF assms(1), of c k it] assms(4) by auto
  from at_entry_ready [OF assms(1) p(2)] have ready: "ready c r kvs (Suc k) it'" .
  moreover have "(of_nat (entry_off r kvs (Suc k)) :: u32) < of_nat (entry_off r kvs (Suc m))"
    using Suc.hyps(2) Suc.prems assms(1,4) by (subst off_less_iff) auto
  ultimately have "parse_until (of_nat (entry_off r kvs (Suc m))) it =
      parse_until (of_nat (entry_off r kvs (Suc m))) it'"
    using p(1) by (subst parse_until.simps) (simp add: ready_def)
  with Suc.hyps(1) [OF _ ready] Suc.hyps(2) show ?case by simp
qed

lemma SeekToLast_at:
  assumes "block_fits r kvs" and "iter_over c r kvs it"
  shows "\<exists>it'. bi_SeekToLast it = Some it' \<and>
    (if kvs = [] then at_end c r kvs it' else at_entry c r kvs (length kvs - 1) it')"
proof -
  let ?g = "groups r (length kvs)"
  have "bi_num_restarts it - 1 = of_nat (?g - 1)"
    using assms(2) groups_pos [of r "length kvs"] by (simp add: iter_over_def of_nat_diff Suc_le_eq)
  then obtain it1 where s: "SeekToRestartPoint it (bi_num_restarts it - 1) = Some it1"
    and ready: "ready c r kvs ((?g - 1) * r) it1"
    using SeekToRestartPoint_ready [OF assms, of "?g - 1"] by auto
  have rest: "bi_restarts it1 = of_nat (entry_off r kvs (length kvs))"
    using ready by (simp add: ready_def iter_over_def)
  show ?thesis
  proof (cases "kvs = []")
    case True
    with ready have "ready c r kvs (length kvs) it1" by (simp add: groups_def)
    from parse_end [OF assms(1) this] s True show ?thesis
      by (auto simp: bi_SeekToLast_def parse_until.simps)
  next
    case False
    then have "(?g - 1) * r \<le> length kvs - 1"
      using group_start [of "?g - 1" r "length kvs"] assms(1) by (fastforce simp: block_fits_def)
    from parse_until_at [OF assms(1) ready this] False s rest show ?thesis
      by (auto simp: bi_SeekToLast_def)
  qed
qed

lemma prev_restart_ok:
  assumes "block_fits r kvs" and "iter_over c r kvs it" and "i < length kvs" and "j < groups r (length kvs)"
  shows "\<exists>w. prev_restart it (of_nat (entry_off r kvs i)) (of_nat j) = Some w \<and>
    (if i = 0 then w = None else \<exists>k. w = Some (of_nat k) \<and> k \<le> j \<and> k * r < i)"
  using assms(4)
proof (induction j)
  case 0
  with GetRestartPoint_over [OF assms(1,2) 0] assms(1,3) show ?case
    using entry_off_strict [of 0 i r kvs] by (subst prev_restart.simps) (auto simp: word_le_nat_alt)
next
  case (Suc j)
  have g: "GetRestartPoint it (of_nat (Suc j)) = Some (of_nat (entry_off r kvs (Suc j * r)))"
    using GetRestartPoint_over [OF assms(1,2) Suc.prems] .
  have nz: "(of_nat (Suc j) :: u32) \<noteq> 0" "(of_nat (Suc j) :: u32) - 1 = of_nat j"
    using unat_group [OF assms(1), of "Suc j"] Suc.prems by (auto simp: unat_eq_0 [symmetric] simp del: of_nat_Suc) simp
  show ?case
  proof (cases "Suc j * r < i")
    case True
    with g assms(1,3) group_le [OF assms(1) Suc.prems] show ?thesis
      by (subst prev_restart.simps) (auto simp del: of_nat_Suc mult_Suc)
  next
    case False
    with g nz assms(1,3) group_le [OF assms(1) Suc.prems]
    have "prev_restart it (of_nat (entry_off r kvs i)) (of_nat (Suc j)) =
        prev_restart it (of_nat (entry_off r kvs i)) (of_nat j)"
      by (subst prev_restart.simps) (simp del: of_nat_Suc mult_Suc)
    with Suc show ?thesis by (auto intro: le_SucI split: if_splits)
  qed
qed

lemma Prev_at:
  assumes "block_fits r kvs" and "at_entry c r kvs i it"
  shows "\<exists>it'. bi_Prev it = Some it' \<and>
    (if i = 0 then at_end c r kvs it' else at_entry c r kvs (i - 1) it')"
proof -
  have over: "iter_over c r kvs it" and i: "i < length kvs"
    and cur: "bi_current it = of_nat (entry_off r kvs i)" using assms(2) by (auto simp: at_entry_def)
  obtain j where j: "bi_restart_index it = of_nat j" "j < groups r (length kvs)"
    using assms(2) by (auto simp: at_entry_def in_group_def)
  obtain w where w: "prev_restart it (of_nat (entry_off r kvs i)) (of_nat j) = Some w"
    "if i = 0 then w = None else \<exists>k. w = Some (of_nat k) \<and> k \<le> j \<and> k * r < i"
    using prev_restart_ok [OF assms(1) over i j(2)] by blast
  show ?thesis
  proof (cases "i = 0")
    case True
    with w j cur over at_entry_Valid [OF assms] show ?thesis
      by (simp add: bi_Prev_def at_end_def iter_over_def)
  next
    case False
    with w obtain k where k: "w = Some (of_nat k)" "k \<le> j" "k * r < i" by auto
    let ?it = "it\<lparr>bi_restart_index := of_nat k\<rparr>"
    have "iter_over c r kvs ?it" using over by (simp add: iter_over_def)
    from SeekToRestartPoint_ready [OF assms(1) this, of k] k(2) j(2)
    obtain it1 where s: "SeekToRestartPoint ?it (of_nat k) = Some it1" "ready c r kvs (k * r) it1" by auto
    with parse_until_at [OF assms(1) s(2), of "i - 1"] k(3) i False w(1) k(1) j(1) cur at_entry_Valid [OF assms]
    show ?thesis by (auto simp: bi_Prev_def)
  qed
qed


section \<open>Searching\<close>

abbreviation before :: "comparator \<Rightarrow> slice \<Rightarrow> slice \<Rightarrow> bool" where
  "before c a b \<equiv> \<exists>r < 0. Compare c a b = Some r"

definition sorted_pairs :: "comparator \<Rightarrow> slice set \<Rightarrow> (slice \<times> slice) list \<Rightarrow> bool" where
  "sorted_pairs c valid kvs \<longleftrightarrow> fst ` set kvs \<subseteq> valid \<and> sorted_wrt (before c) (map fst kvs)"

lemma sorted_pairsD:
  "sorted_pairs c valid kvs \<Longrightarrow> i < length kvs \<Longrightarrow> fst (kvs ! i) \<in> valid"
  "sorted_pairs c valid kvs \<Longrightarrow> i < j \<Longrightarrow> j < length kvs \<Longrightarrow> before c (fst (kvs ! i)) (fst (kvs ! j))"
  by (auto simp: sorted_pairs_def sorted_wrt_iff_nth_less)

lemma seek_restart_ok:
  assumes block_fits: "block_fits r kvs" and over: "iter_over c r kvs it"
    and order: "weak_order (Compare c) valid" and valid: "\<And>i. i < length kvs \<Longrightarrow> fst (kvs ! i) \<in> valid"
    and target: "target \<in> valid"
    and "l \<le> u" "u < groups r (length kvs)" "l = 0 \<or> before c (fst (kvs ! (l * r))) target"
  shows "\<exists>j. seek_restart it target (of_nat l) (of_nat u) = Some (Some (of_nat j)) \<and>
    j < groups r (length kvs) \<and> (j = 0 \<or> before c (fst (kvs ! (j * r))) target)"
  using assms(6-8)
proof (induction "u - l" arbitrary: l u rule: less_induct)
  case less
  let ?g = "groups r (length kvs)"
  show ?case
  proof (cases "l < u")
    case False
    with less.prems show ?thesis by (subst seek_restart.simps) auto
  next
    case True
    define m where "m = (l + u + 1) div 2"
    have m: "l < m" "m \<le> u" "m < ?g" "0 < m" using True less.prems(2) by (auto simp: m_def)
    have small: "l < 2 ^ 30" "u < 2 ^ 30" using unat_group [OF block_fits, of l] unat_group [OF block_fits, of u] True less.prems by auto
    have mid: "((of_nat l :: u32) + of_nat u + 1) div 2 = of_nat m"
    proof -
      have "(of_nat l :: u32) + of_nat u + 1 = of_nat (l + u + 1)" by simp
      moreover have "unat (of_nat (l + u + 1) :: u32) = l + u + 1"
        using small by (simp add: unat_of_nat del: of_nat_add of_nat_Suc)
      ultimately have "unat (((of_nat l :: u32) + of_nat u + 1) div 2) = m"
        by (simp only: unat_div_distrib m_def) simp
      then show ?thesis by (metis of_nat_unat ucast_id)
    qed
    have mr: "m * r < length kvs"
      using group_start [OF m(3)] m(4) block_fits by (cases "length kvs = 0") (auto simp: block_fits_def groups_def)
    obtain p off where dec: "DecodeEntry (entry_at it (of_nat (entry_off r kvs (m * r)))) =
        Some (0, of_nat (length (fst (kvs ! (m * r)))), of_nat (length (snd (kvs ! (m * r)))), p)"
      and off: "off = unat (bi_restarts it) - length p"
      and key: "off + length (fst (kvs ! (m * r))) \<le> length (bi_data it)"
        "take (length (fst (kvs ! (m * r)))) (drop off (bi_data it)) = fst (kvs ! (m * r))"
        "length (fst (kvs ! (m * r))) < 2 ^ 32"
      using delta_in_block [OF block_fits over mr] by (auto simp: entry_shared_def)
    have step: "seek_restart it target (of_nat l) (of_nat u) =
        do { x \<leftarrow> Compare c (fst (kvs ! (m * r))) target;
             if x < 0 then seek_restart it target (of_nat m) (of_nat u)
             else seek_restart it target (of_nat l) (of_nat m - 1) }"
      using True less.prems m GetRestartPoint_over [OF block_fits over m(3)] dec key over off
      by (subst seek_restart.simps) (simp add: group_less_iff [OF block_fits] mid unat_of_nat iter_over_def Let_def)
    have pred: "(of_nat m :: u32) - 1 = of_nat (m - 1)" using m(4) by (simp add: of_nat_diff Suc_le_eq)
    obtain x where x: "Compare c (fst (kvs ! (m * r))) target = Some x"
      using weak_order.defined [OF order valid [OF mr] target] by blast
    show ?thesis
    proof (cases "x < 0")
      case True
      with x have lo: "m = 0 \<or> before c (fst (kvs ! (m * r))) target" by blast
      have "\<exists>j. seek_restart it target (of_nat m) (of_nat u) = Some (Some (of_nat j)) \<and> j < ?g \<and>
          (j = 0 \<or> before c (fst (kvs ! (j * r))) target)"
        by (rule less.hyps [OF _ m(2) less.prems(2) lo]) (use m \<open>l < u\<close> in arith)
      with step x True show ?thesis by (simp only: Option.bind_lunit if_True)
    next
      case False
      have "\<exists>j. seek_restart it target (of_nat l) (of_nat (m - 1)) = Some (Some (of_nat j)) \<and> j < ?g \<and>
          (j = 0 \<or> before c (fst (kvs ! (j * r))) target)"
        by (rule less.hyps [OF _ _ _ less.prems(3)]) (use m less.prems(2) in arith)+
      with step x False pred show ?thesis by (simp only: Option.bind_lunit if_False)
    qed
  qed
qed

lemma seek_linear_ok:
  assumes "block_fits r kvs" and "ready c r kvs k it"
    and order: "weak_order (Compare c) valid" and valid: "\<And>i. i < length kvs \<Longrightarrow> fst (kvs ! i) \<in> valid"
    and target: "target \<in> valid" and "\<forall>i < k. before c (fst (kvs ! i)) target"
  shows "\<exists>it' j. seek_linear target it = Some it' \<and> at_next c r kvs j it' \<and> j \<le> length kvs \<and>
    (\<forall>i < j. before c (fst (kvs ! i)) target) \<and> (j < length kvs \<longrightarrow> \<not> before c (fst (kvs ! j)) target)"
  using assms(2,6)
proof (induction "length kvs - k" arbitrary: k it rule: less_induct)
  case less
  obtain it1 where p: "ParseNextKey it = Some (k < length kvs, it1)" "at_next c r kvs k it1"
    using parse_at [OF assms(1) less.prems(1)] by blast
  show ?case
  proof (cases "k < length kvs")
    case False
    with p less.prems show ?thesis
      by (subst seek_linear.simps) (auto intro!: exI [of _ k] simp: ready_def)
  next
    case True
    with p have at: "at_entry c r kvs k it1" by (simp add: at_next_def)
    obtain x where x: "Compare c (fst (kvs ! k)) target = Some x"
      using weak_order.defined [OF order valid [OF True] target] by blast
    have step: "seek_linear target it = (if x \<ge> 0 then Some it1 else seek_linear target it1)"
      using p True at x by (subst seek_linear.simps) (simp add: at_entry_def iter_over_def)
    show ?thesis
    proof (cases "x < 0")
      case True
      with x have "\<forall>i < Suc k. before c (fst (kvs ! i)) target" using less.prems(2) by (auto simp: less_Suc_eq)
      from less.hyps [OF _ at_entry_ready [OF assms(1) at] this] \<open>k < length kvs\<close> True step show ?thesis by auto
    next
      case False
      with x step p(2) \<open>k < length kvs\<close> less.prems(2) show ?thesis
        by (auto intro!: exI [of _ it1] exI [of _ k])
    qed
  qed
qed

lemma Seek_at:
  assumes "block_fits r kvs" and "iter_over c r kvs it"
    and order: "weak_order (Compare c) valid" and sorted: "sorted_pairs c valid kvs" and target: "target \<in> valid"
  shows "\<exists>it' j. bi_Seek it target = Some it' \<and> at_next c r kvs j it' \<and> j \<le> length kvs \<and>
    (\<forall>i < j. before c (fst (kvs ! i)) target) \<and> (j < length kvs \<longrightarrow> \<not> before c (fst (kvs ! j)) target)"
proof -
  let ?g = "groups r (length kvs)"
  note valid = sorted_pairsD(1) [OF sorted]
  have num: "bi_num_restarts it - 1 = of_nat (?g - 1)"
    using assms(2) groups_pos [of r "length kvs"] by (simp add: iter_over_def of_nat_diff Suc_le_eq)
  have "\<exists>j. seek_restart it target (of_nat 0) (of_nat (?g - 1)) = Some (Some (of_nat j)) \<and> j < ?g \<and>
      (j = 0 \<or> before c (fst (kvs ! (j * r))) target)"
    by (rule seek_restart_ok [OF assms(1,2) order valid target le0 _ disjI1 [OF refl]]) simp_all
  then obtain j where j: "seek_restart it target (of_nat 0) (of_nat (?g - 1)) = Some (Some (of_nat j))"
    "j < ?g" "j = 0 \<or> before c (fst (kvs ! (j * r))) target" by blast
  obtain it1 where s: "SeekToRestartPoint it (of_nat j) = Some it1" "ready c r kvs (j * r) it1"
    using SeekToRestartPoint_ready [OF assms(1,2) j(2)] by blast
  have "before c (fst (kvs ! i)) target" if "i < j * r" for i
  proof -
    from that have jr: "j * r < length kvs" "0 < j"
      using group_start [OF j(2)] assms(1) by (cases "length kvs = 0"; fastforce simp: block_fits_def groups_def)+
    with sorted_pairsD(2) [OF sorted that] j(3)
    have "before c (fst (kvs ! i)) (fst (kvs ! (j * r)))" "before c (fst (kvs ! (j * r))) target" by auto
    with valid [of i] valid [of "j * r"] that jr target show ?thesis
      using weak_order.lt_trans [OF order] unfolding weak_order.lt_def [OF order] by (meson less_trans)
  qed
  with seek_linear_ok [OF assms(1) s(2) order valid target] show ?thesis
    using j s by (auto simp: bi_Seek_def num)
qed


section \<open>From the builder to the iterator\<close>

lemma NewIterator_over:
  assumes "block_fits r kvs"
  shows "\<exists>b it. Block (block_bytes r kvs) = Some b \<and> blk_NewIterator b c = Some (EntryIterator it) \<and>
    iter_over c r kvs it"
proof -
  let ?b = "block_bytes r kvs" and ?g = "groups r (length kvs)"
  have g: "unat (of_nat ?g :: u32) = ?g" "?g < 2 ^ 30" using unat_group [OF assms order_refl] by auto
  have len: "length ?b = entry_off r kvs (length kvs) + 4 * ?g + 4" by (rule length_block_bytes)
  have num: "blk_NumRestarts ?b (length ?b) = Some (of_nat ?g)"
    by (simp only: blk_NumRestarts_def last_word_in_block) (simp add: len)
  have g1: "unat (1 + of_nat ?g :: u32) = Suc ?g"
    using g unat_of_nat [of "Suc ?g", where 'a = 32] by (simp add: unat_of_nat)
  have b: "Block ?b = Some \<lparr>blk_data = ?b, blk_size = length ?b,
      blk_restart_offset = Some (of_nat (entry_off r kvs (length kvs)))\<rparr>"
    using num by (simp add: Block_def Let_def len g g1)
  have pos: "(0 :: u32) < of_nat ?g" using g groups_pos [of r "length kvs"] by (simp add: word_less_nat_alt)
  then have "(of_nat ?g :: u32) \<noteq> 0" by auto
  then show ?thesis
    using num pos by (simp add: b blk_NewIterator_def len block_Iter_def) (simp add: iter_over_def)
qed

fun scan_forward :: "nat \<Rightarrow> block_iter \<Rightarrow> (slice \<times> slice) list option" where
  "scan_forward 0 it = None"
| "scan_forward (Suc fuel) it =
     (if bi_Valid it
      then do { k \<leftarrow> block_key it; v \<leftarrow> block_value it; it \<leftarrow> bi_Next it;
                kvs \<leftarrow> scan_forward fuel it; Some ((k, v) # kvs) }
      else Some [])"

fun scan_backward :: "nat \<Rightarrow> block_iter \<Rightarrow> (slice \<times> slice) list option" where
  "scan_backward 0 it = None"
| "scan_backward (Suc fuel) it =
     (if bi_Valid it
      then do { k \<leftarrow> block_key it; v \<leftarrow> block_value it; it \<leftarrow> bi_Prev it;
                kvs \<leftarrow> scan_backward fuel it; Some ((k, v) # kvs) }
      else Some [])"

lemma scan_forward_at:
  assumes "block_fits r kvs" and "at_next c r kvs i it" and "i \<le> length kvs" and "length kvs - i < fuel"
  shows "scan_forward fuel it = Some (drop i kvs)"
  using assms(2-4)
proof (induction fuel arbitrary: i it)
  case (Suc fuel)
  show ?case
  proof (cases "i < length kvs")
    case False
    with Suc.prems show ?thesis by (auto simp: at_next_def dest: at_end_not_Valid)
  next
    case True
    with Suc.prems have at: "at_entry c r kvs i it" by (simp add: at_next_def)
    from Next_at [OF assms(1) at] obtain it' where it': "bi_Next it = Some it'" "at_next c r kvs (Suc i) it'" by blast
    have "scan_forward fuel it' = Some (drop (Suc i) kvs)" using Suc True it'(2) by auto
    then show ?thesis
      using at_entry_pair [OF assms(1) at] at_entry_Valid [OF assms(1) at] it'(1) True
      by (simp add: Cons_nth_drop_Suc [symmetric])
  qed
qed simp

lemma scan_backward_at:
  assumes "block_fits r kvs" and "at_entry c r kvs i it" and "Suc i < fuel"
  shows "scan_backward fuel it = Some (rev (take (Suc i) kvs))"
  using assms(2,3)
proof (induction fuel arbitrary: i it)
  case (Suc fuel)
  have i: "i < length kvs" using Suc.prems by (simp add: at_entry_def)
  from Prev_at [OF assms(1) Suc.prems(1)] obtain it' where it': "bi_Prev it = Some it'"
    "if i = 0 then at_end c r kvs it' else at_entry c r kvs (i - 1) it'" by blast
  have "scan_backward fuel it' = Some (rev (take i kvs))"
  proof (cases "i = 0")
    case True
    with it' Suc.prems show ?thesis by (cases fuel) (auto dest: at_end_not_Valid)
  next
    case False
    with it' Suc.IH [of "i - 1" it'] Suc.prems show ?thesis by simp
  qed
  then show ?case
    using at_entry_pair [OF assms(1) Suc.prems(1)] at_entry_Valid [OF assms(1) Suc.prems(1)] it'(1) i
    by (simp add: take_Suc_conv_app_nth)
qed simp

text \<open>What the assertions let pass is what the builder holds.\<close>

lemma bb_Add_asserted:
  assumes "bb_holds b kvs" and "bb_Add b key val = Some b'"
  shows "bb_options b' = bb_options b \<and> bb_holds b' (kvs @ [(key, val)])"
proof -
  have "bb_may_add b key = Some True" using assms(2) by (auto simp: bb_Add_def Let_def outcome_simps split: if_splits)
  then have "\<exists>x > 0. Compare (opt_comparator (bb_options b)) key (fst (last kvs)) = Some x" if "kvs \<noteq> []"
    using assms(1) that by (auto simp: bb_may_add_def bb_holds_def Let_def outcome_simps split: if_splits)
  from bb_Add_holds [OF assms(1) this, of val] show ?thesis using assms(2) by auto
qed

lemma bb_Adds_asserted:
  "bb_holds b kvs0 \<Longrightarrow> bb_Adds b kvs = Some b' \<Longrightarrow>
    bb_options b' = bb_options b \<and> bb_holds b' (kvs0 @ kvs)"
proof (induction kvs arbitrary: b kvs0)
  case (Cons kv kvs)
  obtain k v where kv: "kv = (k, v)" by fastforce
  with Cons.prems(2) obtain b1 where b1: "bb_Add b k v = Some b1" "bb_Adds b1 kvs = Some b'"
    by (auto simp: outcome_simps)
  from bb_Add_asserted [OF Cons.prems(1) b1(1)] Cons.IH [OF _ b1(2), of "kvs0 @ [(k, v)]"]
  show ?case by (simp add: kv)
qed simp

lemma bb_Adds_sorted:
  assumes order: "weak_order (Compare c) valid" and "opt_comparator (bb_options b) = c"
    and "bb_holds b kvs0" and "sorted_pairs c valid (kvs0 @ kvs)"
  shows "\<exists>b'. bb_Adds b kvs = Some b'"
  using assms(2-4)
proof (induction kvs arbitrary: b kvs0)
  case (Cons kv kvs)
  obtain k v where kv: "kv = (k, v)" by fastforce
  have "\<exists>x > 0. Compare (opt_comparator (bb_options b)) k (fst (last kvs0)) = Some x" if "kvs0 \<noteq> []"
  proof -
    have "before c (fst (last kvs0)) k" "fst (last kvs0) \<in> valid" "k \<in> valid"
      using Cons.prems(3) that by (auto simp: kv sorted_pairs_def sorted_wrt_append)
    then show ?thesis using weak_order.flip [OF order] Cons.prems(1) by blast
  qed
  from bb_Add_holds [OF Cons.prems(2) this, of v] obtain b1 where
    "bb_Add b k v = Some b1" "bb_options b1 = bb_options b" "bb_holds b1 (kvs0 @ [(k, v)])" by blast
  with Cons.IH [of b1 "kvs0 @ [(k, v)]"] Cons.prems(1,3) show ?case by (simp add: kv)
qed simp

end
