(* ===== verification/Ldb_BlockSafety.thy ===== *)
theory Ldb_BlockSafety
  imports Ldb_BlockIter
begin

text \<open>
  Blocks that no builder has written.  \<open>DecodeEntry\<close> adds the two lengths of an entry in 32
  bits.  On a block of any bytes in which no sum wraps around, every operation of the
  iterator returns and reads only bytes of the block; an entry whose sum wraps around is
  accepted although its bytes are not there.
\<close>

section \<open>Entries whose lengths wrap around\<close>

definition no_wrap :: "slice \<Rightarrow> nat \<Rightarrow> bool" where
  "no_wrap data restarts \<longleftrightarrow> (\<forall>off < restarts. \<forall>s n v p.
     DecodeEntry (drop off (take restarts data)) = Some (s, n, v, p) \<longrightarrow> unat n + unat v < 2 ^ 32)"

lemma DecodeEntry_shorter:
  assumes "DecodeEntry p = Some (s, n, v, q)"
  shows "length q + 3 \<le> length p" "\<not> (of_nat (length q) :: u32) < n + v"
proof -
  from assms obtain p1 p2 where "GetVarint32 p = Some (s, p1)" "GetVarint32 p1 = Some (n, p2)"
    "GetVarint32 p2 = Some (v, q)" "\<not> (of_nat (length q) :: u32) < n + v"
    by (auto simp: DecodeEntry_slow decode_slow_def outcome_simps split: if_splits)
  then show "length q + 3 \<le> length p" "\<not> (of_nat (length q) :: u32) < n + v"
    using GetVarint_shorter(1) [of p] GetVarint_shorter(1) [of p1] GetVarint_shorter(1) [of p2] by fastforce+
qed

text \<open>A wrapped sum passes the check, and the key is read behind the block.\<close>

lemma wrapped_entry_read:
  assumes "NextEntryOffset it = Some cur" and "cur < bi_restarts it"
    and "DecodeEntry (entry_at it cur) = Some (0, n, v, p)"
    and "length (bi_data it) < unat n"
  shows "ParseNextKey it = None"
  using assms by (simp add: ParseNextKey_def Let_def entry_at_def not_le)


section \<open>Well-formed iterators\<close>

definition iter_shape :: "block_iter \<Rightarrow> bool" where
  "iter_shape it \<longleftrightarrow> 0 < bi_num_restarts it \<and>
     unat (bi_restarts it) + 4 * unat (bi_num_restarts it) \<le> length (bi_data it) \<and>
     length (bi_data it) < 2 ^ 32 \<and> no_wrap (bi_data it) (unat (bi_restarts it))"

definition iter_ready :: "block_iter \<Rightarrow> bool" where
  "iter_ready it \<longleftrightarrow> iter_shape it \<and> bi_restart_index it < bi_num_restarts it \<and>
     (\<exists>off n. bi_value it = Some (off, n) \<and> off + n < 2 ^ 32)"

definition iter_wf :: "block_iter \<Rightarrow> bool" where
  "iter_wf it \<longleftrightarrow> iter_shape it \<and>
     (bi_Valid it \<longrightarrow> bi_restart_index it < bi_num_restarts it \<and>
       (\<exists>off n. bi_value it = Some (off, n) \<and> off + n \<le> unat (bi_restarts it)))"

definition same_block :: "block_iter \<Rightarrow> block_iter \<Rightarrow> bool" where
  "same_block it it' \<longleftrightarrow> bi_data it' = bi_data it \<and> bi_restarts it' = bi_restarts it \<and>
     bi_num_restarts it' = bi_num_restarts it \<and> bi_comparator it' = bi_comparator it"

lemma same_block_simps [simp]:
  "same_block it it" "same_block it (CorruptionError it)"
  "same_block it (it\<lparr>bi_current := a\<rparr>)" "same_block it (it\<lparr>bi_restart_index := b\<rparr>)"
  by (simp_all add: same_block_def CorruptionError_def)

lemma same_block_trans: "same_block a b \<Longrightarrow> same_block b c \<Longrightarrow> same_block a c"
  by (simp add: same_block_def)

lemma same_block_shape: "same_block a b \<Longrightarrow> iter_shape b \<longleftrightarrow> iter_shape a"
  by (simp add: same_block_def iter_shape_def)

lemma GetRestartPoint_total:
  "iter_shape it \<Longrightarrow> i < bi_num_restarts it \<Longrightarrow> \<exists>w. GetRestartPoint it i = Some w"
  by (auto simp: GetRestartPoint_def iter_shape_def word_less_nat_alt DecodeFixed32_defined
      simp flip: not_None_eq)

lemma SeekToRestartPoint_total:
  assumes "iter_shape it" and "i < bi_num_restarts it"
  shows "\<exists>it'. SeekToRestartPoint it i = Some it' \<and> iter_ready it' \<and> same_block it it'"
proof -
  obtain w where "GetRestartPoint it i = Some w" using GetRestartPoint_total [OF assms] by blast
  moreover have "unat w < 2 ^ LENGTH(32)" by (rule unsigned_less)
  ultimately show ?thesis
    using assms by (simp add: SeekToRestartPoint_def iter_ready_def iter_shape_def same_block_def)
qed

lemma unat_Suc_less: "(w :: u32) < v \<Longrightarrow> unat (w + 1) = Suc (unat w)"
proof -
  assume "w < v"
  moreover have "unat v < 2 ^ LENGTH(32)" by (rule unsigned_less)
  ultimately show ?thesis by (simp add: unat_word_ariths word_less_nat_alt)
qed

lemma advance_restart_total:
  assumes "iter_shape it" and "bi_restart_index it < bi_num_restarts it"
  shows "\<exists>w. advance_restart it = Some (it\<lparr>bi_restart_index := w\<rparr>) \<and> w < bi_num_restarts it"
  using assms
proof (induction "unat (bi_num_restarts it) - unat (bi_restart_index it)" arbitrary: it rule: less_induct)
  case less
  let ?i = "bi_restart_index it" and ?it = "it\<lparr>bi_restart_index := bi_restart_index it + 1\<rparr>"
  have stay: "\<exists>w. Some it = Some (it\<lparr>bi_restart_index := w\<rparr>) \<and> w < bi_num_restarts it"
    using less.prems(2) by (intro exI [of _ ?i]) simp
  show ?case
  proof (cases "?i + 1 < bi_num_restarts it")
    case False
    with stay show ?thesis by (subst advance_restart.simps) simp
  next
    case True
    from GetRestartPoint_total [OF less.prems(1) True] obtain w
      where w: "GetRestartPoint it (?i + 1) = Some w" by blast
    show ?thesis
    proof (cases "w < bi_current it")
      case False
      with True w stay show ?thesis by (subst advance_restart.simps) simp
    next
      case wless: True
      have "\<exists>w. advance_restart ?it = Some (?it\<lparr>bi_restart_index := w\<rparr>) \<and> w < bi_num_restarts ?it"
      proof (rule less.hyps)
        show "unat (bi_num_restarts ?it) - unat (bi_restart_index ?it) < unat (bi_num_restarts it) - unat ?i"
          using unat_Suc_less [OF less.prems(2)] less.prems(2) by (simp add: word_less_nat_alt)
      qed (use less.prems True in \<open>simp_all add: iter_shape_def\<close>)
      with True w wless show ?thesis by (subst advance_restart.simps) simp
    qed
  qed
qed


section \<open>Every operation returns\<close>

text \<open>
  One entry: it is decoded inside the block, and the next offset is at least three bytes on.
\<close>

lemma ParseNextKey_total:
  assumes "iter_ready it" and "NextEntryOffset it = Some cur"
  shows "\<exists>more it'. ParseNextKey it = Some (more, it') \<and> iter_wf it' \<and> same_block it it' \<and>
    (more \<longrightarrow> iter_ready it' \<and> (\<exists>nxt. NextEntryOffset it' = Some nxt \<and> unat cur + 3 \<le> unat nxt \<and>
       nxt \<le> bi_restarts it)) \<and> (\<not> more \<longrightarrow> \<not> bi_Valid it')"
proof -
  define it1 where "it1 = it\<lparr>bi_current := cur\<rparr>"
  have shape: "iter_shape it" and ri: "bi_restart_index it < bi_num_restarts it"
    using assms(1) by (auto simp: iter_ready_def)
  have sb1: "same_block it it1" by (simp add: it1_def)
  have corrupt: ?thesis if "ParseNextKey it = Some (False, CorruptionError it1)"
    using that shape sb1
    by (auto simp: iter_wf_def bi_Valid_def CorruptionError_def same_block_def iter_shape_def)
  show ?thesis
  proof (cases "cur \<ge> bi_restarts it")
    case True
    let ?it = "it1\<lparr>bi_current := bi_restarts it, bi_restart_index := bi_num_restarts it\<rparr>"
    have "ParseNextKey it = Some (False, ?it)"
      using assms(2) True by (simp add: ParseNextKey_def Let_def it1_def)
    moreover have "iter_wf ?it \<and> same_block it ?it \<and> \<not> bi_Valid ?it"
      using shape by (simp add: iter_wf_def bi_Valid_def it1_def iter_shape_def same_block_def)
    ultimately show ?thesis by blast
  next
    case False
    show ?thesis
    proof (cases "DecodeEntry (entry_at it1 cur)")
      case None
      with False assms(2) show ?thesis
        by (intro corrupt) (simp add: ParseNextKey_def Let_def it1_def [symmetric])
    next
      case (Some e)
      obtain s n v p where e: "e = (s, n, v, p)" by (cases e)
      have at: "entry_at it1 cur = drop (unat cur) (take (unat (bi_restarts it)) (bi_data it))"
        by (simp add: entry_at_def it1_def)
      have lim: "unat (bi_restarts it) \<le> length (bi_data it)" "length (bi_data it) < 2 ^ 32"
        and cl: "unat cur < unat (bi_restarts it)"
        using shape False by (auto simp: iter_shape_def not_le word_less_nat_alt)
      have nw: "unat n + unat v < 2 ^ 32"
        using shape Some e at cl unfolding iter_shape_def no_wrap_def by metis
      have short: "length p + 3 \<le> unat (bi_restarts it) - unat cur" "\<not> (of_nat (length p) :: u32) < n + v"
        using DecodeEntry_shorter [of "entry_at it1 cur"] Some e lim by (auto simp: at)
      have "unat (n + v) = unat n + unat v" using nw by (simp add: unat_word_ariths)
      moreover have "unat (of_nat (length p) :: u32) = length p"
        using short(1) lim by (simp add: unat_of_nat)
      ultimately have fit: "unat n + unat v \<le> length p" using short(2) by (simp add: word_less_nat_alt)
      let ?off = "unat (bi_restarts it) - length p"
      show ?thesis
      proof (cases "length (bi_key it) < unat s")
        case True
        with Some e False assms(2) show ?thesis
          by (intro corrupt) (simp add: ParseNextKey_def Let_def it1_def [symmetric], simp add: it1_def)
      next
        case kl: False
        let ?it2 = "it1\<lparr>bi_key := take (unat s) (bi_key it1) @ take (unat n) (drop ?off (bi_data it1)),
          bi_value := Some (?off + unat n, unat v)\<rparr>"
        have sb2: "same_block it ?it2" by (simp add: same_block_def it1_def)
        then have "iter_shape ?it2" using shape same_block_shape by blast
        moreover have "bi_restart_index ?it2 < bi_num_restarts ?it2" using ri by (simp add: it1_def)
        ultimately obtain w where w: "advance_restart ?it2 = Some (?it2\<lparr>bi_restart_index := w\<rparr>)"
          "w < bi_num_restarts ?it2" using advance_restart_total by blast
        let ?it3 = "?it2\<lparr>bi_restart_index := w\<rparr>"
        have "?off + unat n \<le> length (bi_data it1)" using fit lim short(1) by (simp add: it1_def)
        then have "ParseNextKey it = Some (True, ?it3)"
          using Some e False assms(2) kl w(1)
          by (simp add: ParseNextKey_def Let_def it1_def [symmetric]) (simp add: it1_def)
        moreover have sb3: "same_block it ?it3" by (simp add: same_block_def it1_def)
        moreover have shape3: "iter_shape ?it3" using sb3 shape same_block_shape by blast
        moreover have "?off + unat n + unat v \<le> unat (bi_restarts it)" using fit short(1) by simp
        moreover have "?off + unat n + unat v < 2 ^ 32" using calculation(4) lim by simp
        moreover have "unat (of_nat (?off + unat n + unat v) :: u32) = ?off + unat n + unat v"
          using calculation(5) by (simp add: unat_of_nat del: of_nat_add)
        moreover have "unat cur + 3 \<le> ?off + unat n + unat v" using short(1) cl by linarith
        ultimately have "iter_wf ?it3 \<and> iter_ready ?it3 \<and> (\<exists>nxt. NextEntryOffset ?it3 = Some nxt \<and>
            unat cur + 3 \<le> unat nxt \<and> nxt \<le> bi_restarts it)"
          using w(2) by (simp add: iter_wf_def iter_ready_def NextEntryOffset_def it1_def word_le_nat_alt del: of_nat_add)
        with \<open>ParseNextKey it = Some (True, ?it3)\<close> sb3 show ?thesis by blast
      qed
    qed
  qed
qed

lemma iter_ready_next: "iter_ready it \<Longrightarrow> \<exists>cur. NextEntryOffset it = Some cur"
  by (auto simp: iter_ready_def NextEntryOffset_def)

lemma iter_wf_ready:
  "iter_wf it \<Longrightarrow> bi_Valid it \<Longrightarrow> iter_ready it"
proof -
  assume wf: "iter_wf it" and v: "bi_Valid it"
  then obtain off n where "bi_value it = Some (off, n)" "off + n \<le> unat (bi_restarts it)"
    by (auto simp: iter_wf_def)
  moreover have "unat (bi_restarts it) < 2 ^ LENGTH(32)" by (rule unsigned_less)
  ultimately show ?thesis using wf v by (auto simp: iter_wf_def iter_ready_def)
qed

text \<open>What an operation has to show: it returns, in a well-formed state of the same block.\<close>

definition lands :: "block_iter \<Rightarrow> block_iter option \<Rightarrow> bool" where
  "lands it r \<longleftrightarrow> (\<exists>it'. r = Some it' \<and> iter_wf it' \<and> same_block it it')"

lemma landsI: "r = Some it' \<Longrightarrow> iter_wf it' \<Longrightarrow> same_block it it' \<Longrightarrow> lands it r"
  by (simp add: lands_def)

lemma lands_trans: "same_block it it1 \<Longrightarrow> lands it1 r \<Longrightarrow> lands it r"
  by (auto simp: lands_def intro: same_block_trans)

lemma ParseNextKey_lands: "iter_ready it \<Longrightarrow> lands it (map_option snd (ParseNextKey it))"
  using ParseNextKey_total iter_ready_next by (fastforce simp: lands_def)

lemma Next_lands: "iter_wf it \<Longrightarrow> bi_Valid it \<Longrightarrow> lands it (bi_Next it)"
  by (simp add: bi_Next_def ParseNextKey_lands iter_wf_ready)

lemma SeekToFirst_lands: "iter_shape it \<Longrightarrow> lands it (bi_SeekToFirst it)"
  using SeekToRestartPoint_total [of it 0] ParseNextKey_lands lands_trans
  by (fastforce simp: bi_SeekToFirst_def iter_shape_def)

text \<open>The two loops over entries end because the offset grows.\<close>

lemma parse_until_lands: "iter_ready it \<Longrightarrow> lands it (parse_until limit it)"
proof (induction "2 ^ 32 - unat (the (NextEntryOffset it))" arbitrary: it rule: less_induct)
  case less
  obtain cur where cur: "NextEntryOffset it = Some cur" using iter_ready_next [OF less.prems] by blast
  from ParseNextKey_total [OF less.prems cur] obtain more it' where p: "ParseNextKey it = Some (more, it')"
    "iter_wf it'" "same_block it it'"
    and m: "more \<Longrightarrow> iter_ready it' \<and> (\<exists>nxt. NextEntryOffset it' = Some nxt \<and> unat cur + 3 \<le> unat nxt)"
    by blast
  show ?case
  proof (cases more)
    case False
    with p show ?thesis by (subst parse_until.simps) (auto intro: landsI)
  next
    case True
    with m obtain nxt where n: "iter_ready it'" "NextEntryOffset it' = Some nxt" "unat cur + 3 \<le> unat nxt" by blast
    have "unat nxt < 2 ^ LENGTH(32)" by (rule unsigned_less)
    with n cur have "2 ^ 32 - unat (the (NextEntryOffset it')) < 2 ^ 32 - unat (the (NextEntryOffset it))" by simp
    from less.hyps [OF this n(1)] have "lands it (parse_until limit it')" using p(3) lands_trans by blast
    moreover have "lands it (Some it')" using p by (auto intro: landsI)
    ultimately show ?thesis using True p(1) n(2) by (subst parse_until.simps) simp
  qed
qed

lemma seek_linear_lands:
  assumes "\<And>a b. \<exists>x. Compare (bi_comparator it) a b = Some x" and "iter_ready it"
  shows "lands it (seek_linear target it)"
  using assms
proof (induction "2 ^ 32 - unat (the (NextEntryOffset it))" arbitrary: it rule: less_induct)
  case less
  obtain cur where cur: "NextEntryOffset it = Some cur" using iter_ready_next [OF less.prems(2)] by blast
  from ParseNextKey_total [OF less.prems(2) cur] obtain more it' where p: "ParseNextKey it = Some (more, it')"
    "iter_wf it'" "same_block it it'"
    and m: "more \<Longrightarrow> iter_ready it' \<and> (\<exists>nxt. NextEntryOffset it' = Some nxt \<and> unat cur + 3 \<le> unat nxt)"
    by blast
  have stop: "lands it (Some it')" using p by (auto intro: landsI)
  show ?case
  proof (cases more)
    case False
    with p stop show ?thesis by (subst seek_linear.simps) simp
  next
    case True
    with m obtain nxt where n: "iter_ready it'" "NextEntryOffset it' = Some nxt" "unat cur + 3 \<le> unat nxt" by blast
    have cmp: "bi_comparator it' = bi_comparator it" using p(3) by (simp add: same_block_def)
    obtain x where x: "Compare (bi_comparator it) (bi_key it') target = Some x" using less.prems(1) by blast
    have "unat nxt < 2 ^ LENGTH(32)" by (rule unsigned_less)
    with n cur have "2 ^ 32 - unat (the (NextEntryOffset it')) < 2 ^ 32 - unat (the (NextEntryOffset it))" by simp
    from less.hyps [OF this _ n(1)] less.prems(1) cmp have "lands it (seek_linear target it')"
      using p(3) lands_trans by metis
    with stop True p(1) x cmp show ?thesis by (subst seek_linear.simps) simp
  qed
qed

lemma SeekToLast_lands: "iter_shape it \<Longrightarrow> lands it (bi_SeekToLast it)"
proof -
  assume shape: "iter_shape it"
  then have "bi_num_restarts it - 1 < bi_num_restarts it"
    by (metis iter_shape_def measure_unat word_less_nat_alt word_neq_0_conv)
  from SeekToRestartPoint_total [OF shape this] show ?thesis
    using parse_until_lands lands_trans by (fastforce simp: bi_SeekToLast_def)
qed

lemma prev_restart_total:
  assumes "iter_shape it" and "index < bi_num_restarts it"
  shows "\<exists>w. prev_restart it original index = Some w \<and> (\<forall>i. w = Some i \<longrightarrow> i < bi_num_restarts it)"
  using assms(2)
proof (induction "unat index" arbitrary: index rule: less_induct)
  case less
  obtain r where r: "GetRestartPoint it index = Some r" using GetRestartPoint_total [OF assms(1) less.prems] by blast
  show ?case
  proof (cases "r \<ge> original \<and> index \<noteq> 0")
    case True
    then have "unat (index - 1) < unat index" by (simp add: measure_unat)
    moreover from this have "index - 1 < bi_num_restarts it" using less.prems by (simp add: word_less_nat_alt)
    ultimately have "\<exists>w. prev_restart it original (index - 1) = Some w \<and> (\<forall>i. w = Some i \<longrightarrow> i < bi_num_restarts it)"
      by (rule less.hyps)
    then show ?thesis using r True by (subst prev_restart.simps) simp
  next
    case False
    with r less.prems show ?thesis by (subst prev_restart.simps) auto
  qed
qed

lemma Prev_lands:
  assumes "iter_wf it" and "bi_Valid it"
  shows "lands it (bi_Prev it)"
proof -
  have shape: "iter_shape it" and ri: "bi_restart_index it < bi_num_restarts it"
    using assms by (auto simp: iter_wf_def)
  obtain w where w: "prev_restart it (bi_current it) (bi_restart_index it) = Some w"
    "\<forall>i. w = Some i \<longrightarrow> i < bi_num_restarts it" using prev_restart_total [OF shape ri] by blast
  show ?thesis
  proof (cases w)
    case None
    with w assms shape show ?thesis
      by (auto simp: bi_Prev_def lands_def iter_wf_def bi_Valid_def iter_shape_def same_block_def)
  next
    case (Some i)
    let ?it = "it\<lparr>bi_restart_index := i\<rparr>"
    have "iter_shape ?it" "i < bi_num_restarts ?it" using shape Some w(2) by (simp_all add: iter_shape_def)
    from SeekToRestartPoint_total [OF this] obtain it1 where s: "SeekToRestartPoint ?it i = Some it1"
      "iter_ready it1" "same_block ?it it1" by blast
    from s(3) have "same_block it it1" by (simp add: same_block_def)
    with parse_until_lands [OF s(2)] have "lands it (parse_until (bi_current it) it1)" by (blast intro: lands_trans)
    with w(1) Some s(1) assms(2) show ?thesis by (simp add: bi_Prev_def)
  qed
qed

lemma seek_restart_total:
  assumes shape: "iter_shape it" and cmp: "\<And>a b. \<exists>x. Compare (bi_comparator it) a b = Some x"
    and "l \<le> u" and "u < bi_num_restarts it"
  shows "\<exists>w. seek_restart it target l u = Some w \<and> (\<forall>i. w = Some i \<longrightarrow> i < bi_num_restarts it)"
  using assms(3,4)
proof (induction "unat u - unat l" arbitrary: l u rule: less_induct)
  case less
  show ?case
  proof (cases "l < u")
    case False
    with less.prems show ?thesis by (subst seek_restart.simps) auto
  next
    case True
    define m where "m = (l + u + 1) div 2"
    have "unat (bi_num_restarts it) < 2 ^ 30" using shape by (simp add: iter_shape_def)
    with True less.prems have small: "unat l + unat u + 1 < 2 ^ 32"
      by (simp add: word_less_nat_alt)
    have "unat (l + u + 1) = unat l + unat u + 1"
      using small by (simp add: unat_word_ariths mod_simps)
    then have um: "unat m = (unat l + unat u + 1) div 2" by (simp add: m_def unat_div_distrib)
    then have m: "l < m" "m \<le> u" using True by (simp_all add: word_less_nat_alt word_le_nat_alt)
    then have mn: "m < bi_num_restarts it" and m0: "m \<noteq> 0" using less.prems by auto
    then have "unat (m - 1) = unat m - 1" by (simp add: unat_minus_one)
    then have m1: "l \<le> m - 1" "m - 1 < bi_num_restarts it" "unat (m - 1) - unat l < unat u - unat l"
      using m mn m0 by (auto simp: word_less_nat_alt word_le_nat_alt)
    have m2: "unat u - unat m < unat u - unat l" using m by (simp add: word_less_nat_alt word_le_nat_alt)
    note up = less.hyps [OF m2 m(2) less.prems(2)] and down = less.hyps [OF m1(3,1,2)]
    obtain r where r: "GetRestartPoint it m = Some r" using GetRestartPoint_total [OF shape mn] by blast
    show ?thesis
    proof (cases "DecodeEntry (entry_at it r)")
      case None
      with r True show ?thesis by (subst seek_restart.simps) (simp add: m_def [symmetric] Let_def)
    next
      case (Some e)
      obtain s n v p where e: "e = (s, n, v, p)" by (cases e)
      show ?thesis
      proof (cases "s = 0")
        case False
        with r True Some e show ?thesis by (subst seek_restart.simps) (simp add: m_def [symmetric] Let_def)
      next
        case s0: True
        have lt: "unat r < unat (bi_restarts it)" "length p + 3 \<le> unat (bi_restarts it) - unat r"
          "\<not> (of_nat (length p) :: u32) < n + v"
          using DecodeEntry_shorter [of "entry_at it r"] Some e by (auto simp: entry_at_def)
        have lim: "unat (bi_restarts it) \<le> length (bi_data it)" "length (bi_data it) < 2 ^ 32"
          using shape by (auto simp: iter_shape_def)
        have nw: "unat n + unat v < 2 ^ 32"
          using shape Some e lt(1) unfolding iter_shape_def no_wrap_def entry_at_def by metis
        have "unat (n + v) = unat n + unat v" using nw by (simp add: unat_word_ariths)
        moreover have "unat (of_nat (length p) :: u32) = length p" using lt(2) lim by (simp add: unat_of_nat)
        ultimately have "unat n \<le> length p" using lt(3) by (simp add: word_less_nat_alt)
        then have "unat (bi_restarts it) - length p + unat n \<le> length (bi_data it)" using lt(2) lim by simp
        moreover obtain x where "Compare (bi_comparator it)
            (take (unat n) (drop (unat (bi_restarts it) - length p) (bi_data it))) target = Some x"
          using cmp by blast
        ultimately show ?thesis
          using r True Some e s0 up down
          by (subst seek_restart.simps) (simp add: m_def [symmetric] Let_def)
      qed
    qed
  qed
qed

lemma Seek_lands:
  assumes "iter_shape it" and "\<And>a b. \<exists>x. Compare (bi_comparator it) a b = Some x"
  shows "lands it (bi_Seek it target)"
proof -
  have "bi_num_restarts it - 1 < bi_num_restarts it"
    using assms(1) by (metis iter_shape_def measure_unat word_less_nat_alt word_neq_0_conv)
  then obtain w where
    w: "seek_restart it target 0 (bi_num_restarts it - 1) = Some w" "\<forall>i. w = Some i \<longrightarrow> i < bi_num_restarts it"
    using seek_restart_total [OF assms word_zero_le] by blast
  show ?thesis
  proof (cases w)
    case None
    with w assms(1) show ?thesis
      by (auto simp: bi_Seek_def lands_def iter_wf_def bi_Valid_def CorruptionError_def iter_shape_def same_block_def)
  next
    case (Some i)
    with w(2) SeekToRestartPoint_total [OF assms(1)] obtain it1 where
      s: "SeekToRestartPoint it i = Some it1" "iter_ready it1" "same_block it it1" by blast
    moreover have "bi_comparator it1 = bi_comparator it" using s(3) by (simp add: same_block_def)
    ultimately show ?thesis
      using seek_linear_lands [of it1 target] assms(2) lands_trans [OF s(3)] w(1) Some
      by (simp add: bi_Seek_def)
  qed
qed

text \<open>A well-formed iterator returns values that lie in the block.\<close>

lemma value_lands: "iter_wf it \<Longrightarrow> bi_Valid it \<Longrightarrow> \<exists>v. block_value it = Some v"
  by (auto simp: iter_wf_def block_value_def iter_shape_def)

lemma NewIterator_shape:
  assumes "Block contents = Some b" and "blk_NewIterator b c = Some (EntryIterator it)"
    and "length contents < 2 ^ 32" and "no_wrap contents (unat (bi_restarts it))"
  shows "iter_shape it \<and> iter_wf it \<and> bi_comparator it = c \<and> bi_data it = contents"
proof -
  let ?len = "length contents"
  obtain n where n: "blk_NumRestarts contents ?len = Some n" "\<not> (?len - 4) div 4 < unat n" "\<not> ?len < 4"
    "b = \<lparr>blk_data = contents, blk_size = ?len, blk_restart_offset = Some (of_nat (?len - unat (1 + n) * 4))\<rparr>"
    using assms(1,2) by (auto simp: Block_def Let_def blk_NewIterator_def outcome_simps split: if_splits)
  have "unat n < 2 ^ 30" "unat n * 4 + 4 \<le> ?len" using n(2,3) assms(3) by auto
  then have n1: "unat (1 + n) = unat n + 1" by (simp add: unat_word_ariths)
  have pos: "0 < n" and it: "block_Iter c contents (of_nat (?len - unat (1 + n) * 4)) n = Some it"
    using assms(2) n by (auto simp: blk_NewIterator_def word_neq_0_conv split: if_splits)
  have "unat (of_nat (?len - unat (1 + n) * 4) :: u32) = ?len - unat (1 + n) * 4"
    using assms(3) by (simp add: unat_of_nat)
  with it pos n1 assms(3,4) \<open>unat n * 4 + 4 \<le> ?len\<close> show ?thesis
    by (auto simp: block_Iter_def iter_shape_def iter_wf_def bi_Valid_def)
qed


section \<open>Any sequence of calls\<close>

text \<open>
  The calls a client makes: it moves an iterator forward or backward only while it is valid.
\<close>

datatype block_call = Call_Next | Call_Prev | Call_SeekToFirst | Call_SeekToLast | Call_Seek slice

fun block_step :: "block_call \<Rightarrow> block_iter \<Rightarrow> block_iter option" where
  "block_step Call_Next it = (if bi_Valid it then bi_Next it else Some it)"
| "block_step Call_Prev it = (if bi_Valid it then bi_Prev it else Some it)"
| "block_step Call_SeekToFirst it = bi_SeekToFirst it"
| "block_step Call_SeekToLast it = bi_SeekToLast it"
| "block_step (Call_Seek target) it = bi_Seek it target"

fun block_steps :: "block_call list \<Rightarrow> block_iter \<Rightarrow> block_iter option" where
  "block_steps [] it = Some it"
| "block_steps (call # calls) it = do { it \<leftarrow> block_step call it; block_steps calls it }"

lemma block_step_lands:
  assumes "iter_wf it" and "\<And>a b. \<exists>x. Compare (bi_comparator it) a b = Some x"
  shows "lands it (block_step call it)"
  using assms Next_lands Prev_lands SeekToFirst_lands SeekToLast_lands Seek_lands
  by (cases call) (auto simp: iter_wf_def intro: landsI)

lemma block_steps_land:
  assumes "iter_wf it" and "\<And>a b. \<exists>x. Compare (bi_comparator it) a b = Some x"
  shows "lands it (block_steps calls it)"
  using assms
proof (induction calls arbitrary: it)
  case (Cons call calls)
  obtain it1 where it1: "block_step call it = Some it1" "iter_wf it1" "same_block it it1"
    using block_step_lands [OF Cons.prems, of call] by (auto simp: lands_def)
  have "lands it1 (block_steps calls it1)"
    by (rule Cons.IH [OF it1(2)]) (use it1(3) Cons.prems(2) in \<open>simp add: same_block_def\<close>)
  with it1 lands_trans show ?case by simp
qed (auto intro: landsI)

text \<open>
  A block whose first entry claims a key of \<open>2 ^ 32 - 1\<close> bytes and a value of one byte: the sum
  of the two is 0, and the key is read behind the block.
\<close>

definition wrapping_block :: "byte list" where
  "wrapping_block = [0, 255, 255, 255, 255, 15, 1] @ EncodeFixed32 0 @ EncodeFixed32 1"

lemma wrapping_block_read:
  "\<exists>b it. Block wrapping_block = Some b \<and> blk_NewIterator b c = Some (EntryIterator it) \<and>
    bi_SeekToFirst it = None"
  by (simp add: wrapping_block_def Block_def blk_NewIterator_def blk_NumRestarts_def Let_def block_Iter_def
      bi_SeekToFirst_def SeekToRestartPoint_def GetRestartPoint_def ParseNextKey_def NextEntryOffset_def
      DecodeEntry_def entry_at_def GetVarint32Ptr_def GetVarint32PtrFallback_def varint32_ptr_loop.simps)

end
