(* ===== verification/Ldb_VersionEdit.thy ===== *)
theory Ldb_VersionEdit
  imports Ldb_DbFormat Ldb_Status
begin

text \<open>
  The records of the manifest, Pods/leveldb-library/db/version_edit.{h,cc}, and the readable
  forms of keys and edits (\<open>DebugString\<close>, db/dbformat.cc).

  An \<open>int\<close> is an integer.  \<open>std::set\<close> is a list in increasing order without duplicates.  None
  is the failed assertion that an internal key is not empty.
\<close>

section \<open>Edits\<close>

record FileMetaData =
  fm_refs :: int
  fm_allowed_seeks :: int
  fm_number :: u64
  fm_file_size :: u64
  fm_smallest :: "byte list"
  fm_largest :: "byte list"

text \<open>The constructor leaves \<open>number\<close> uninitialised; every user sets it before it is read.\<close>

definition FileMetaData_init :: "u64 \<Rightarrow> FileMetaData" where
  "FileMetaData_init number = \<lparr>fm_refs = 0, fm_allowed_seeks = 2 ^ 30, fm_number = number,
     fm_file_size = 0, fm_smallest = [], fm_largest = []\<rparr>"

record version_edit =
  ve_comparator :: "byte list"
  ve_log_number :: u64
  ve_prev_log_number :: u64
  ve_next_file_number :: u64
  ve_last_sequence :: SequenceNumber
  ve_has_comparator :: bool
  ve_has_log_number :: bool
  ve_has_prev_log_number :: bool
  ve_has_next_file_number :: bool
  ve_has_last_sequence :: bool
  ve_compact_pointers :: "(int \<times> byte list) list"
  ve_deleted_files :: "(int \<times> u64) list"
  ve_new_files :: "(int \<times> FileMetaData) list"

definition ve_Clear :: "version_edit \<Rightarrow> version_edit" where
  "ve_Clear e = e\<lparr>ve_comparator := [], ve_log_number := 0, ve_prev_log_number := 0,
     ve_last_sequence := 0, ve_next_file_number := 0, ve_has_comparator := False,
     ve_has_log_number := False, ve_has_prev_log_number := False, ve_has_next_file_number := False,
     ve_has_last_sequence := False, ve_deleted_files := [], ve_new_files := []\<rparr>"

text \<open>A constructed edit has its vectors and its set empty and is then cleared.\<close>

definition VersionEdit :: version_edit where
  "VersionEdit = \<lparr>ve_comparator = [], ve_log_number = 0, ve_prev_log_number = 0,
     ve_next_file_number = 0, ve_last_sequence = 0, ve_has_comparator = False,
     ve_has_log_number = False, ve_has_prev_log_number = False, ve_has_next_file_number = False,
     ve_has_last_sequence = False, ve_compact_pointers = [], ve_deleted_files = [],
     ve_new_files = []\<rparr>"

definition SetComparatorName :: "version_edit \<Rightarrow> slice \<Rightarrow> version_edit" where
  "SetComparatorName e name = e\<lparr>ve_has_comparator := True, ve_comparator := name\<rparr>"

definition SetLogNumber :: "version_edit \<Rightarrow> u64 \<Rightarrow> version_edit" where
  "SetLogNumber e num = e\<lparr>ve_has_log_number := True, ve_log_number := num\<rparr>"

definition SetPrevLogNumber :: "version_edit \<Rightarrow> u64 \<Rightarrow> version_edit" where
  "SetPrevLogNumber e num = e\<lparr>ve_has_prev_log_number := True, ve_prev_log_number := num\<rparr>"

definition SetNextFile :: "version_edit \<Rightarrow> u64 \<Rightarrow> version_edit" where
  "SetNextFile e num = e\<lparr>ve_has_next_file_number := True, ve_next_file_number := num\<rparr>"

definition SetLastSequence :: "version_edit \<Rightarrow> SequenceNumber \<Rightarrow> version_edit" where
  "SetLastSequence e seq = e\<lparr>ve_has_last_sequence := True, ve_last_sequence := seq\<rparr>"

definition SetCompactPointer :: "version_edit \<Rightarrow> int \<Rightarrow> byte list \<Rightarrow> version_edit" where
  "SetCompactPointer e level key =
     e\<lparr>ve_compact_pointers := ve_compact_pointers e @ [(level, key)]\<rparr>"

definition AddFile :: "version_edit \<Rightarrow> int \<Rightarrow> u64 \<Rightarrow> u64 \<Rightarrow> byte list \<Rightarrow> byte list \<Rightarrow> version_edit" where
  "AddFile e level file file_size smallest largest =
     (let f = (FileMetaData_init file)\<lparr>fm_file_size := file_size, fm_smallest := smallest,
                fm_largest := largest\<rparr>
      in e\<lparr>ve_new_files := ve_new_files e @ [(level, f)]\<rparr>)"

definition pair_less :: "int \<times> u64 \<Rightarrow> int \<times> u64 \<Rightarrow> bool" where
  "pair_less a b \<longleftrightarrow> fst a < fst b \<or> fst a = fst b \<and> snd a < snd b"

fun set_insert :: "int \<times> u64 \<Rightarrow> (int \<times> u64) list \<Rightarrow> (int \<times> u64) list" where
  "set_insert x [] = [x]"
| "set_insert x (y # ys) =
     (if pair_less x y then x # y # ys else if x = y then y # ys else y # set_insert x ys)"

definition ve_DeleteFile :: "version_edit \<Rightarrow> int \<Rightarrow> u64 \<Rightarrow> version_edit" where
  "ve_DeleteFile e level file = e\<lparr>ve_deleted_files := set_insert (level, file) (ve_deleted_files e)\<rparr>"


section \<open>Encoding\<close>

definition kComparator :: u32 where "kComparator = 1"
definition kLogNumber :: u32 where "kLogNumber = 2"
definition kNextFileNumber :: u32 where "kNextFileNumber = 3"
definition kLastSequence :: u32 where "kLastSequence = 4"
definition kCompactPointer :: u32 where "kCompactPointer = 5"
definition kDeletedFile :: u32 where "kDeletedFile = 6"
definition kNewFile :: u32 where "kNewFile = 7"
definition kPrevLogNumber :: u32 where "kPrevLogNumber = 9"

lemmas tag_defs = kComparator_def kLogNumber_def kNextFileNumber_def kLastSequence_def
  kCompactPointer_def kDeletedFile_def kNewFile_def kPrevLogNumber_def

fun put_pointers :: "byte list \<Rightarrow> (int \<times> byte list) list \<Rightarrow> byte list option" where
  "put_pointers dst [] = Some dst"
| "put_pointers dst ((level, key) # ps) =
     do { k \<leftarrow> InternalKey_Encode key;
          let dst = PutVarint32 dst kCompactPointer;
          let dst = PutVarint32 dst (of_int level);
          let dst = PutLengthPrefixedSlice dst k;
          put_pointers dst ps }"

fun put_deleted :: "byte list \<Rightarrow> (int \<times> u64) list \<Rightarrow> byte list" where
  "put_deleted dst [] = dst"
| "put_deleted dst ((level, file) # ds) =
     (let dst = PutVarint32 dst kDeletedFile;
          dst = PutVarint32 dst (of_int level);
          dst = PutVarint64 dst file
      in put_deleted dst ds)"

fun put_files :: "byte list \<Rightarrow> (int \<times> FileMetaData) list \<Rightarrow> byte list option" where
  "put_files dst [] = Some dst"
| "put_files dst ((level, f) # fs) =
     do { let dst = PutVarint32 dst kNewFile;
          let dst = PutVarint32 dst (of_int level);
          let dst = PutVarint64 dst (fm_number f);
          let dst = PutVarint64 dst (fm_file_size f);
          s \<leftarrow> InternalKey_Encode (fm_smallest f);
          let dst = PutLengthPrefixedSlice dst s;
          l \<leftarrow> InternalKey_Encode (fm_largest f);
          let dst = PutLengthPrefixedSlice dst l;
          put_files dst fs }"

definition put_scalars :: "version_edit \<Rightarrow> byte list \<Rightarrow> byte list" where
  "put_scalars e dst =
     (let dst = (if ve_has_comparator e
                 then PutLengthPrefixedSlice (PutVarint32 dst kComparator) (ve_comparator e) else dst);
          dst = (if ve_has_log_number e
                 then PutVarint64 (PutVarint32 dst kLogNumber) (ve_log_number e) else dst);
          dst = (if ve_has_prev_log_number e
                 then PutVarint64 (PutVarint32 dst kPrevLogNumber) (ve_prev_log_number e) else dst);
          dst = (if ve_has_next_file_number e
                 then PutVarint64 (PutVarint32 dst kNextFileNumber) (ve_next_file_number e) else dst);
          dst = (if ve_has_last_sequence e
                 then PutVarint64 (PutVarint32 dst kLastSequence) (ve_last_sequence e) else dst)
      in dst)"

definition ve_EncodeTo :: "version_edit \<Rightarrow> byte list \<Rightarrow> byte list option" where
  "ve_EncodeTo e dst =
     do { dst \<leftarrow> put_pointers (put_scalars e dst) (ve_compact_pointers e);
          let dst = put_deleted dst (ve_deleted_files e);
          put_files dst (ve_new_files e) }"


section \<open>Decoding\<close>

definition GetInternalKey :: "slice \<Rightarrow> byte list option \<times> slice" where
  "GetInternalKey input = GetLengthPrefixedSlice input"

definition GetLevel :: "slice \<Rightarrow> int option \<times> slice" where
  "GetLevel input =
     (case GetVarint32 input of None \<Rightarrow> (None, input)
      | Some (v, input) \<Rightarrow> if v < of_nat kNumLevels then (Some (uint v), input) else (None, input))"

text \<open>The three readers as computations that fail with None.\<close>

definition get_level :: "slice \<Rightarrow> (int \<times> slice) option" where
  "get_level input = (case GetLevel input of (Some l, i) \<Rightarrow> Some (l, i) | (None, _) \<Rightarrow> None)"

definition get_key :: "slice \<Rightarrow> (byte list \<times> slice) option" where
  "get_key input = (case GetInternalKey input of (Some k, i) \<Rightarrow> Some (k, i) | (None, _) \<Rightarrow> None)"

text \<open>
  One case of the switch: the edit and the rest of the input, or None, in which case the
  edit is unchanged and the loop ends with the message.
\<close>

definition ve_case :: "u32 \<Rightarrow> version_edit \<Rightarrow> slice \<Rightarrow> (version_edit \<times> slice) option" where
  "ve_case tag e input =
     (if tag = kComparator then
        do { (str, i) \<leftarrow> get_key input; Some (e\<lparr>ve_comparator := str, ve_has_comparator := True\<rparr>, i) }
      else if tag = kLogNumber then
        do { (v, i) \<leftarrow> GetVarint64 input; Some (e\<lparr>ve_log_number := v, ve_has_log_number := True\<rparr>, i) }
      else if tag = kPrevLogNumber then
        do { (v, i) \<leftarrow> GetVarint64 input;
             Some (e\<lparr>ve_prev_log_number := v, ve_has_prev_log_number := True\<rparr>, i) }
      else if tag = kNextFileNumber then
        do { (v, i) \<leftarrow> GetVarint64 input;
             Some (e\<lparr>ve_next_file_number := v, ve_has_next_file_number := True\<rparr>, i) }
      else if tag = kLastSequence then
        do { (v, i) \<leftarrow> GetVarint64 input;
             Some (e\<lparr>ve_last_sequence := v, ve_has_last_sequence := True\<rparr>, i) }
      else if tag = kCompactPointer then
        do { (level, i) \<leftarrow> get_level input; (key, i) \<leftarrow> get_key i;
             Some (SetCompactPointer e level key, i) }
      else if tag = kDeletedFile then
        do { (level, i) \<leftarrow> get_level input; (number, i) \<leftarrow> GetVarint64 i;
             Some (ve_DeleteFile e level number, i) }
      else if tag = kNewFile then
        do { (level, i) \<leftarrow> get_level input; (number, i) \<leftarrow> GetVarint64 i;
             (file_size, i) \<leftarrow> GetVarint64 i; (smallest, i) \<leftarrow> get_key i; (largest, i) \<leftarrow> get_key i;
             Some (AddFile e level number file_size smallest largest, i) }
      else None)"

definition ve_msg :: "u32 \<Rightarrow> string" where
  "ve_msg tag =
     (if tag = kComparator then ''comparator name''
      else if tag = kLogNumber then ''log number''
      else if tag = kPrevLogNumber then ''previous log number''
      else if tag = kNextFileNumber then ''next file number''
      else if tag = kLastSequence then ''last sequence number''
      else if tag = kCompactPointer then ''compaction pointer''
      else if tag = kDeletedFile then ''deleted file''
      else if tag = kNewFile then ''new-file entry''
      else ''unknown tag'')"

lemma get_shorter:
  "get_key i = Some (k, j) \<Longrightarrow> length j \<le> length i" "get_level i = Some (l, j) \<Longrightarrow> length j \<le> length i"
  using GetLengthPrefixedSlice_shorter [of i k j] GetVarint_shorter(1) [of i _ j]
  by (auto simp: get_key_def get_level_def GetLevel_def GetInternalKey_def less_imp_le
      split: prod.splits option.splits if_splits)

lemma ve_case_shorter: "ve_case tag e i = Some (e', j) \<Longrightarrow> length j \<le> length i"
  by (auto simp: ve_case_def outcome_simps split: if_splits dest!: get_shorter GetVarint_shorter(2))

function ve_loop :: "version_edit \<Rightarrow> slice \<Rightarrow> string option \<times> version_edit \<times> slice" where
  "ve_loop e input =
     (case GetVarint32 input of
        None \<Rightarrow> (None, e, input)
      | Some (tag, i) \<Rightarrow>
          (case ve_case tag e i of
             None \<Rightarrow> (Some (ve_msg tag), e, i)
           | Some (e, i) \<Rightarrow> ve_loop e i))"
  by pat_completeness auto
termination
  by (relation "measure (\<lambda>(_, i). length i)")
     (auto dest!: GetVarint_shorter(1) ve_case_shorter)

declare ve_loop.simps [simp del]

definition ve_DecodeFrom :: "version_edit \<Rightarrow> slice \<Rightarrow> Status \<times> version_edit" where
  "ve_DecodeFrom e src =
     (let (msg, e, input) = ve_loop (ve_Clear e) src;
          msg = (if msg = None \<and> input \<noteq> [] then Some ''invalid tag'' else msg)
      in (case msg of None \<Rightarrow> (OK, e)
          | Some m \<Rightarrow> (Corruption (bytes_of ''VersionEdit'') (bytes_of m), e)))"


section \<open>Readable forms\<close>

definition parsed_DebugString :: "ParsedInternalKey \<Rightarrow> byte list" where
  "parsed_DebugString k =
     bytes_of [CHR 0x27] @ EscapeString (pk_user_key k) @
     (bytes_of [CHR 0x27, CHR '' '', CHR ''@'', CHR '' ''] @ decimal (unat (pk_sequence k)) @
      bytes_of '' : '' @ decimal (unat (pk_type k)))"

definition ikey_DebugString :: "byte list \<Rightarrow> byte list" where
  "ikey_DebugString rep =
     (case ParseInternalKey rep of
        (True, Some parsed) \<Rightarrow> parsed_DebugString parsed
      | _ \<Rightarrow> bytes_of ''(bad)'' @ EscapeString rep)"

definition nl :: string where "nl = [CHR 0x0A]"

fun debug_pointers :: "byte list \<Rightarrow> (int \<times> byte list) list \<Rightarrow> byte list" where
  "debug_pointers r [] = r"
| "debug_pointers r ((level, key) # ps) =
     debug_pointers (AppendNumberTo (r @ bytes_of (nl @ ''  CompactPointer: '')) (of_int level) @
       bytes_of '' '' @ ikey_DebugString key) ps"

fun debug_deleted :: "byte list \<Rightarrow> (int \<times> u64) list \<Rightarrow> byte list" where
  "debug_deleted r [] = r"
| "debug_deleted r ((level, file) # ds) =
     debug_deleted (AppendNumberTo (AppendNumberTo (r @ bytes_of (nl @ ''  DeleteFile: '')) (of_int level) @
       bytes_of '' '') file) ds"

fun debug_files :: "byte list \<Rightarrow> (int \<times> FileMetaData) list \<Rightarrow> byte list" where
  "debug_files r [] = r"
| "debug_files r ((level, f) # fs) =
     (let r = AppendNumberTo (r @ bytes_of (nl @ ''  AddFile: '')) (of_int level) @ bytes_of '' '';
          r = AppendNumberTo r (fm_number f) @ bytes_of '' '';
          r = AppendNumberTo r (fm_file_size f) @ bytes_of '' '';
          r = r @ ikey_DebugString (fm_smallest f) @ bytes_of '' .. '' @ ikey_DebugString (fm_largest f)
      in debug_files r fs)"

definition ve_DebugString :: "version_edit \<Rightarrow> byte list" where
  "ve_DebugString e =
     (let r = bytes_of ''VersionEdit {'';
          r = (if ve_has_comparator e then r @ bytes_of (nl @ ''  Comparator: '') @ ve_comparator e else r);
          r = (if ve_has_log_number e
               then AppendNumberTo (r @ bytes_of (nl @ ''  LogNumber: '')) (ve_log_number e) else r);
          r = (if ve_has_prev_log_number e
               then AppendNumberTo (r @ bytes_of (nl @ ''  PrevLogNumber: '')) (ve_prev_log_number e) else r);
          r = (if ve_has_next_file_number e
               then AppendNumberTo (r @ bytes_of (nl @ ''  NextFile: '')) (ve_next_file_number e) else r);
          r = (if ve_has_last_sequence e
               then AppendNumberTo (r @ bytes_of (nl @ ''  LastSeq: '')) (ve_last_sequence e) else r);
          r = debug_pointers r (ve_compact_pointers e);
          r = debug_deleted r (ve_deleted_files e);
          r = debug_files r (ve_new_files e)
      in r @ bytes_of (nl @ ''}'' @ nl))"



section \<open>Round trip\<close>

lemma get_key_Put: "length k < 2 ^ 32 \<Longrightarrow> get_key (PutLengthPrefixedSlice [] k @ r) = Some (k, r)"
  by (simp add: get_key_def GetInternalKey_def)

lemma get_level_Put:
  assumes "0 \<le> level" and "level < int kNumLevels"
  shows "get_level (EncodeVarint32 (of_int level) @ r) = Some (level, r)"
proof -
  have "uint (of_int level :: u32) = level"
    using assms by (simp add: unsigned_of_int kNumLevels_def take_bit_int_eq_self)
  moreover from this have "(of_int level :: u32) < 7"
    using assms by (simp add: word_less_def kNumLevels_def)
  ultimately show ?thesis by (simp add: get_level_def GetLevel_def kNumLevels_def)
qed

lemma ve_loop_step:
  "ve_case tag e i = Some (e', i') \<Longrightarrow> ve_loop e (EncodeVarint32 tag @ i) = ve_loop e' i'"
  by (subst ve_loop.simps) simp

definition pointer_ok :: "int \<times> byte list \<Rightarrow> bool" where
  "pointer_ok p \<longleftrightarrow> 0 \<le> fst p \<and> fst p < int kNumLevels \<and> snd p \<noteq> [] \<and> length (snd p) < 2 ^ 32"

definition file_ok :: "int \<times> FileMetaData \<Rightarrow> bool" where
  "file_ok p \<longleftrightarrow> pointer_ok (fst p, fm_smallest (snd p)) \<and> pointer_ok (fst p, fm_largest (snd p)) \<and>
     fm_refs (snd p) = 0 \<and> fm_allowed_seeks (snd p) = 2 ^ 30"

text \<open>
  The edits the database writes: known levels, keys that are not empty, the set in order,
  new files as \<open>AddFile\<close> makes them, and no value without its flag.
\<close>

definition edit_ok :: "version_edit \<Rightarrow> bool" where
  "edit_ok e \<longleftrightarrow> length (ve_comparator e) < 2 ^ 32 \<and>
     (\<forall>p \<in> set (ve_compact_pointers e). pointer_ok p) \<and>
     (\<forall>p \<in> set (ve_deleted_files e). 0 \<le> fst p \<and> fst p < int kNumLevels) \<and>
     sorted_wrt pair_less (ve_deleted_files e) \<and> (\<forall>p \<in> set (ve_new_files e). file_ok p) \<and>
     (\<not> ve_has_comparator e \<longrightarrow> ve_comparator e = []) \<and> (\<not> ve_has_log_number e \<longrightarrow> ve_log_number e = 0) \<and>
     (\<not> ve_has_prev_log_number e \<longrightarrow> ve_prev_log_number e = 0) \<and>
     (\<not> ve_has_next_file_number e \<longrightarrow> ve_next_file_number e = 0) \<and>
     (\<not> ve_has_last_sequence e \<longrightarrow> ve_last_sequence e = 0)"

definition pointer_bytes :: "int \<times> byte list \<Rightarrow> byte list" where
  "pointer_bytes p = EncodeVarint32 kCompactPointer @ EncodeVarint32 (of_int (fst p)) @
     PutLengthPrefixedSlice [] (snd p)"

definition deleted_bytes :: "int \<times> u64 \<Rightarrow> byte list" where
  "deleted_bytes p = EncodeVarint32 kDeletedFile @ EncodeVarint32 (of_int (fst p)) @ EncodeVarint64 (snd p)"

definition file_bytes :: "int \<times> FileMetaData \<Rightarrow> byte list" where
  "file_bytes p = EncodeVarint32 kNewFile @ EncodeVarint32 (of_int (fst p)) @
     EncodeVarint64 (fm_number (snd p)) @ EncodeVarint64 (fm_file_size (snd p)) @
     PutLengthPrefixedSlice [] (fm_smallest (snd p)) @ PutLengthPrefixedSlice [] (fm_largest (snd p))"

definition scalar_bytes :: "version_edit \<Rightarrow> byte list" where
  "scalar_bytes e =
     (if ve_has_comparator e then EncodeVarint32 kComparator @ PutLengthPrefixedSlice [] (ve_comparator e) else []) @
     (if ve_has_log_number e then EncodeVarint32 kLogNumber @ EncodeVarint64 (ve_log_number e) else []) @
     (if ve_has_prev_log_number e then EncodeVarint32 kPrevLogNumber @ EncodeVarint64 (ve_prev_log_number e) else []) @
     (if ve_has_next_file_number e then EncodeVarint32 kNextFileNumber @ EncodeVarint64 (ve_next_file_number e) else []) @
     (if ve_has_last_sequence e then EncodeVarint32 kLastSequence @ EncodeVarint64 (ve_last_sequence e) else [])"

lemma put_scalars_bytes: "put_scalars e dst = dst @ scalar_bytes e"
  by (simp add: put_scalars_def scalar_bytes_def Let_def PutVarint32_def PutVarint64_def PutLengthPrefixedSlice_def)

lemma put_pointers_bytes:
  "\<forall>p \<in> set ps. pointer_ok p \<Longrightarrow> put_pointers dst ps = Some (dst @ concat (map pointer_bytes ps))"
  by (induction dst ps rule: put_pointers.induct)
     (simp_all add: pointer_ok_def InternalKey_Encode_def pointer_bytes_def PutVarint32_def PutLengthPrefixedSlice_def)

lemma put_deleted_bytes: "put_deleted dst ds = dst @ concat (map deleted_bytes ds)"
  by (induction dst ds rule: put_deleted.induct)
     (simp_all add: deleted_bytes_def PutVarint32_def PutVarint64_def Let_def)

lemma put_files_bytes:
  "\<forall>p \<in> set fs. file_ok p \<Longrightarrow> put_files dst fs = Some (dst @ concat (map file_bytes fs))"
  by (induction dst fs rule: put_files.induct)
     (simp_all add: file_ok_def pointer_ok_def InternalKey_Encode_def file_bytes_def PutVarint32_def
       PutVarint64_def PutLengthPrefixedSlice_def)

lemma EncodeTo_bytes:
  "edit_ok e \<Longrightarrow> ve_EncodeTo e dst = Some (dst @ scalar_bytes e @ concat (map pointer_bytes (ve_compact_pointers e)) @
    concat (map deleted_bytes (ve_deleted_files e)) @ concat (map file_bytes (ve_new_files e)))"
  by (simp add: ve_EncodeTo_def edit_ok_def put_scalars_bytes put_pointers_bytes put_deleted_bytes put_files_bytes)

lemma loop_pointers:
  "\<forall>p \<in> set ps. pointer_ok p \<Longrightarrow> ve_loop e (concat (map pointer_bytes ps) @ r) =
    ve_loop (e\<lparr>ve_compact_pointers := ve_compact_pointers e @ ps\<rparr>) r"
proof (induction ps arbitrary: e)
  case (Cons p ps)
  have "ve_case kCompactPointer e (EncodeVarint32 (of_int (fst p)) @ PutLengthPrefixedSlice [] (snd p) @ x) =
      Some (SetCompactPointer e (fst p) (snd p), x)" for x
    using Cons.prems by (simp add: ve_case_def tag_defs get_level_Put get_key_Put pointer_ok_def)
  with Cons show ?case by (simp add: pointer_bytes_def ve_loop_step SetCompactPointer_def)
qed simp

lemma set_insert_last:
  "\<forall>y \<in> set ys. pair_less y x \<Longrightarrow> set_insert x ys = ys @ [x]"
  by (induction ys) (auto simp: pair_less_def)

lemma loop_deleted:
  "\<forall>p \<in> set ds. 0 \<le> fst p \<and> fst p < int kNumLevels \<Longrightarrow> sorted_wrt pair_less (ve_deleted_files e @ ds) \<Longrightarrow>
    ve_loop e (concat (map deleted_bytes ds) @ r) =
    ve_loop (e\<lparr>ve_deleted_files := ve_deleted_files e @ ds\<rparr>) r"
proof (induction ds arbitrary: e)
  case (Cons p ds)
  have "ve_case kDeletedFile e (EncodeVarint32 (of_int (fst p)) @ EncodeVarint64 (snd p) @ x) =
      Some (ve_DeleteFile e (fst p) (snd p), x)" for x
    using Cons.prems by (simp add: ve_case_def tag_defs get_level_Put)
  moreover have "set_insert p (ve_deleted_files e) = ve_deleted_files e @ [p]"
    using Cons.prems(2) by (intro set_insert_last) (auto simp: sorted_wrt_append)
  ultimately show ?case using Cons by (simp add: deleted_bytes_def ve_loop_step ve_DeleteFile_def)
qed simp

lemma loop_files:
  "\<forall>p \<in> set fs. file_ok p \<Longrightarrow> ve_loop e (concat (map file_bytes fs) @ r) =
    ve_loop (e\<lparr>ve_new_files := ve_new_files e @ fs\<rparr>) r"
proof (induction fs arbitrary: e)
  case (Cons p fs)
  have "ve_case kNewFile e (EncodeVarint32 (of_int (fst p)) @ EncodeVarint64 (fm_number (snd p)) @
      EncodeVarint64 (fm_file_size (snd p)) @ PutLengthPrefixedSlice [] (fm_smallest (snd p)) @
      PutLengthPrefixedSlice [] (fm_largest (snd p)) @ x) =
      Some (AddFile e (fst p) (fm_number (snd p)) (fm_file_size (snd p)) (fm_smallest (snd p)) (fm_largest (snd p)), x)" for x
    using Cons.prems by (simp add: ve_case_def tag_defs get_level_Put get_key_Put file_ok_def pointer_ok_def)
  moreover have "AddFile e (fst p) (fm_number (snd p)) (fm_file_size (snd p)) (fm_smallest (snd p)) (fm_largest (snd p)) =
      e\<lparr>ve_new_files := ve_new_files e @ [p]\<rparr>"
    using Cons.prems by (cases p; cases "snd p") (simp add: AddFile_def FileMetaData_init_def file_ok_def)
  ultimately show ?case using Cons by (simp add: file_bytes_def ve_loop_step)
qed simp

definition scalars_read :: "version_edit \<Rightarrow> version_edit \<Rightarrow> version_edit" where
  "scalars_read e e0 =
     (let e0 = (if ve_has_comparator e then e0\<lparr>ve_comparator := ve_comparator e, ve_has_comparator := True\<rparr> else e0);
          e0 = (if ve_has_log_number e then e0\<lparr>ve_log_number := ve_log_number e, ve_has_log_number := True\<rparr> else e0);
          e0 = (if ve_has_prev_log_number e
                then e0\<lparr>ve_prev_log_number := ve_prev_log_number e, ve_has_prev_log_number := True\<rparr> else e0);
          e0 = (if ve_has_next_file_number e
                then e0\<lparr>ve_next_file_number := ve_next_file_number e, ve_has_next_file_number := True\<rparr> else e0)
      in (if ve_has_last_sequence e
          then e0\<lparr>ve_last_sequence := ve_last_sequence e, ve_has_last_sequence := True\<rparr> else e0))"

lemma loop_scalars:
  assumes "length (ve_comparator e) < 2 ^ 32"
  shows "ve_loop e0 (scalar_bytes e @ r) = ve_loop (scalars_read e e0) r"
proof -
  have s: "ve_loop e0 ((if b then EncodeVarint32 tag @ x else []) @ y) = ve_loop (if b then e1 else e0) y"
    if "ve_case tag e0 (x @ y) = Some (e1, y)" for b tag x y e0 e1
    using ve_loop_step [OF that] by simp
  have "ve_case kComparator e0 (PutLengthPrefixedSlice [] (ve_comparator e) @ y) =
      Some (e0\<lparr>ve_comparator := ve_comparator e, ve_has_comparator := True\<rparr>, y)" for e0 y
    using assms by (simp add: ve_case_def get_key_Put)
  moreover have "ve_case kLogNumber e0 (EncodeVarint64 v @ y) =
      Some (e0\<lparr>ve_log_number := v, ve_has_log_number := True\<rparr>, y)"
    "ve_case kPrevLogNumber e0 (EncodeVarint64 v @ y) =
      Some (e0\<lparr>ve_prev_log_number := v, ve_has_prev_log_number := True\<rparr>, y)"
    "ve_case kNextFileNumber e0 (EncodeVarint64 v @ y) =
      Some (e0\<lparr>ve_next_file_number := v, ve_has_next_file_number := True\<rparr>, y)"
    "ve_case kLastSequence e0 (EncodeVarint64 v @ y) =
      Some (e0\<lparr>ve_last_sequence := v, ve_has_last_sequence := True\<rparr>, y)" for e0 v y
    by (simp_all add: ve_case_def tag_defs)
  ultimately show ?thesis
    unfolding scalar_bytes_def scalars_read_def Let_def append_assoc by (simp only: s)
qed

lemma scalars_of_Clear:
  "edit_ok e \<Longrightarrow> scalars_read e (ve_Clear e0) =
    e\<lparr>ve_compact_pointers := ve_compact_pointers e0, ve_deleted_files := [], ve_new_files := []\<rparr>"
  by (cases e; cases e0)
     (auto simp: scalars_read_def ve_Clear_def edit_ok_def Let_def)

text \<open>
  Decoding gives the edit back, except that the compaction pointers of the edit that is
  decoded into are kept in front: \<open>Clear\<close> does not clear them.
\<close>

lemma Decode_Encode_edit:
  assumes "edit_ok e"
  shows "\<exists>rep. ve_EncodeTo e [] = Some rep \<and> ve_DecodeFrom e0 rep =
    (OK, e\<lparr>ve_compact_pointers := ve_compact_pointers e0 @ ve_compact_pointers e\<rparr>)"
proof -
  define e1 where "e1 = e\<lparr>ve_compact_pointers := ve_compact_pointers e0, ve_deleted_files := [], ve_new_files := []\<rparr>"
  have "ve_loop (ve_Clear e0) (scalar_bytes e @ concat (map pointer_bytes (ve_compact_pointers e)) @
      concat (map deleted_bytes (ve_deleted_files e)) @ concat (map file_bytes (ve_new_files e)) @ []) =
      ve_loop (e\<lparr>ve_compact_pointers := ve_compact_pointers e0 @ ve_compact_pointers e\<rparr>) []"
    using assms by (simp add: loop_scalars loop_pointers loop_deleted loop_files scalars_of_Clear edit_ok_def
      del: append_Nil2)
  moreover have "ve_loop x [] = (None, x, [])" for x
    by (subst ve_loop.simps) (simp add: GetVarint32_def GetVarint32Ptr_def GetVarint32PtrFallback_def)
  ultimately show ?thesis
    using EncodeTo_bytes [OF assms, of "[]"] by (simp add: ve_DecodeFrom_def)
qed

end
