(* ===== verification/Ldb_Format.thy ===== *)
theory Ldb_Format
  imports Ldb_Block Ldb_Crc32c
begin

text \<open>
  The frame of a table file, Pods/leveldb-library/table/format.{h,cc}: block handles, the
  footer, and the reading of a block with its trailer (type and checksum).  Snappy is not
  compiled in for the targets (port/port_posix.h without \<open>SNAPPY\<close>), so the compression
  functions always fail.
\<close>

section \<open>Block handles\<close>

record block_handle =
  bh_offset :: u64
  bh_size :: u64

definition BlockHandle :: block_handle where
  "BlockHandle = \<lparr>bh_offset = NOT 0, bh_size = NOT 0\<rparr>"

definition bh_EncodeTo :: "block_handle \<Rightarrow> byte list \<Rightarrow> byte list option" where
  "bh_EncodeTo h dst =
     (if bh_offset h = NOT 0 \<or> bh_size h = NOT 0 then None
      else Some (PutVarint64 (PutVarint64 dst (bh_offset h)) (bh_size h)))"

text \<open>The status, the handle and the input afterwards.\<close>

definition bh_DecodeFrom :: "block_handle \<Rightarrow> slice \<Rightarrow> Status \<times> block_handle \<times> slice" where
  "bh_DecodeFrom h input =
     (case GetVarint64 input of
        None \<Rightarrow> (corruption ''bad block handle'', h, input)
      | Some (off, i) \<Rightarrow>
          (case GetVarint64 i of
             None \<Rightarrow> (corruption ''bad block handle'', h\<lparr>bh_offset := off\<rparr>, i)
           | Some (sz, i) \<Rightarrow> (OK, h\<lparr>bh_offset := off, bh_size := sz\<rparr>, i)))"

definition kMaxEncodedLength :: nat where "kMaxEncodedLength = 10 + 10"


section \<open>The footer\<close>

record footer =
  ft_metaindex_handle :: block_handle
  ft_index_handle :: block_handle

definition kEncodedLength :: nat where "kEncodedLength = 2 * kMaxEncodedLength + 8"
definition kTableMagicNumber :: u64 where "kTableMagicNumber = 0xdb4775248b80fb57"

text \<open>\<open>std::string::resize\<close>: cut off or filled up with zero bytes.\<close>

definition string_resize :: "byte list \<Rightarrow> nat \<Rightarrow> byte list" where
  "string_resize s n = take n s @ replicate (n - length s) 0"

definition ft_EncodeTo :: "footer \<Rightarrow> byte list \<Rightarrow> byte list option" where
  "ft_EncodeTo ft dst =
     do { let original_size = length dst;
          dst \<leftarrow> bh_EncodeTo (ft_metaindex_handle ft) dst;
          dst \<leftarrow> bh_EncodeTo (ft_index_handle ft) dst;
          let dst = string_resize dst (2 * kMaxEncodedLength);
          let dst = PutFixed32 dst (ucast (kTableMagicNumber AND 0xffffffff));
          let dst = PutFixed32 dst (ucast (drop_bit 32 kTableMagicNumber));
          if length dst \<noteq> original_size + kEncodedLength then None else Some dst }"

text \<open>None: the magic number is read behind the input when it is shorter than a footer.\<close>

definition ft_DecodeFrom :: "footer \<Rightarrow> slice \<Rightarrow> (Status \<times> footer \<times> slice) option" where
  "ft_DecodeFrom ft input =
     do { magic_lo \<leftarrow> DecodeFixed32 (drop (kEncodedLength - 8) input);
          magic_hi \<leftarrow> DecodeFixed32 (drop (kEncodedLength - 8 + 4) input);
          let magic = (push_bit 32 (ucast magic_hi) OR ucast magic_lo :: u64);
          if magic \<noteq> kTableMagicNumber
          then Some (corruption ''not an sstable (bad magic number)'', ft, input)
          else Some (
            let (s, h1, i1) = bh_DecodeFrom (ft_metaindex_handle ft) input
            in if status_ok s
               then let (s, h2, i2) = bh_DecodeFrom (ft_index_handle ft) i1
                    in (s, \<lparr>ft_metaindex_handle = h1, ft_index_handle = h2\<rparr>,
                        if status_ok s then drop kEncodedLength input else i2)
               else (s, ft\<lparr>ft_metaindex_handle := h1\<rparr>, i1)) }"


section \<open>Reading a block\<close>

text \<open>
  A file that is read at any position: the status, the bytes read, and whether they lie in
  the buffer of the caller.
\<close>

record 'f rafile =
  ra_Read :: "'f \<Rightarrow> u64 \<Rightarrow> nat \<Rightarrow> Status \<times> slice \<times> bool"

definition mem_rafile :: "byte list rafile" where
  "mem_rafile = \<lparr>ra_Read = (\<lambda>f off n. (OK, take n (drop (unat off) f), True))\<rparr>"

definition kBlockTrailerSize :: nat where "kBlockTrailerSize = 5"

datatype CompressionType = kNoCompression | kSnappyCompression

definition compression_byte :: "CompressionType \<Rightarrow> byte" where
  "compression_byte t = (case t of kNoCompression \<Rightarrow> 0 | kSnappyCompression \<Rightarrow> 1)"

definition Snappy_Compress :: "slice \<Rightarrow> byte list option" where
  "Snappy_Compress input = None"

definition Snappy_GetUncompressedLength :: "slice \<Rightarrow> nat option" where
  "Snappy_GetUncompressedLength input = None"

definition Snappy_Uncompress :: "slice \<Rightarrow> byte list option" where
  "Snappy_Uncompress input = None"

record BlockContents =
  bc_data :: slice
  bc_cachable :: bool
  bc_heap_allocated :: bool

definition empty_contents :: BlockContents where
  "empty_contents = \<lparr>bc_data = [], bc_cachable = False, bc_heap_allocated = False\<rparr>"

text \<open>
  \<open>n + kBlockTrailerSize\<close> is computed as a \<open>size_t\<close>.  None is a read behind the bytes of the
  file.
\<close>

definition ReadBlock ::
    "'f rafile \<Rightarrow> 'f \<Rightarrow> bool \<Rightarrow> block_handle \<Rightarrow> (Status \<times> BlockContents) option" where
  "ReadBlock ops file verify_checksums handle =
     (let n = unat (bh_size handle);
          (s, contents, in_buf) = ra_Read ops file (bh_offset handle) (size_add n kBlockTrailerSize)
      in if \<not> status_ok s then Some (s, empty_contents)
         else if length contents \<noteq> size_add n kBlockTrailerSize
         then Some (corruption ''truncated block read'', empty_contents)
         else if length contents \<le> n then None
         else do {
           bad \<leftarrow> (if verify_checksums
                   then do { stored \<leftarrow> DecodeFixed32 (drop (n + 1) contents);
                             actual \<leftarrow> crc_Value 0 (take (n + 1) contents);
                             Some (actual \<noteq> crc_Unmask stored) }
                   else Some False);
           if bad then Some (corruption ''block checksum mismatch'', empty_contents)
           else if contents ! n = compression_byte kNoCompression
           then Some (OK, if \<not> in_buf
             then \<lparr>bc_data = take n contents, bc_cachable = False, bc_heap_allocated = False\<rparr>
             else \<lparr>bc_data = take n contents, bc_cachable = True, bc_heap_allocated = True\<rparr>)
           else if contents ! n = compression_byte kSnappyCompression
           then (case Snappy_GetUncompressedLength (take n contents) of
                   None \<Rightarrow> Some (corruption ''corrupted compressed block contents'', empty_contents)
                 | Some ulength \<Rightarrow>
                     (case Snappy_Uncompress (take n contents) of
                        None \<Rightarrow> Some (corruption ''corrupted compressed block contents'', empty_contents)
                      | Some ubuf \<Rightarrow> Some (OK, \<lparr>bc_data = ubuf, bc_cachable = True, bc_heap_allocated = True\<rparr>)))
           else Some (corruption ''bad block type'', empty_contents) })"


section \<open>Round trips\<close>

definition handle_ok :: "block_handle \<Rightarrow> bool" where
  "handle_ok h \<longleftrightarrow> bh_offset h \<noteq> NOT 0 \<and> bh_size h \<noteq> NOT 0"

definition handle_bytes :: "block_handle \<Rightarrow> byte list" where
  "handle_bytes h = EncodeVarint64 (bh_offset h) @ EncodeVarint64 (bh_size h)"

lemma bh_EncodeTo_bytes: "handle_ok h \<Longrightarrow> bh_EncodeTo h dst = Some (dst @ handle_bytes h)"
  by (simp add: handle_ok_def bh_EncodeTo_def handle_bytes_def PutVarint64_def)

lemma bh_Decode_bytes: "bh_DecodeFrom h0 (handle_bytes h @ rest) = (OK, h, rest)"
  by (simp add: bh_DecodeFrom_def handle_bytes_def)

lemma EncodeVarint64_le10: "length (EncodeVarint64 v) \<le> 10"
proof -
  have "\<exists>pre. EncodeVarint64 v = pre @ [] \<and> pre \<noteq> [] \<and> length pre \<le> 10"
    by (rule GetVarint64_prefix) (use GetVarint64_Encode [of v "[]"] in simp)
  then show ?thesis by auto
qed

lemma handle_bytes_le: "length (handle_bytes h) \<le> kMaxEncodedLength"
  using EncodeVarint64_le10 [of "bh_offset h"] EncodeVarint64_le10 [of "bh_size h"]
  by (simp add: handle_bytes_def kMaxEncodedLength_def)

definition footer_bytes :: "footer \<Rightarrow> byte list" where
  "footer_bytes ft =
     string_resize (handle_bytes (ft_metaindex_handle ft) @ handle_bytes (ft_index_handle ft)) 40 @
     EncodeFixed32 0x8b80fb57 @ EncodeFixed32 0xdb477524"

lemma length_footer_bytes [simp]: "length (footer_bytes ft) = kEncodedLength"
  by (simp add: footer_bytes_def string_resize_def kEncodedLength_def kMaxEncodedLength_def)

lemma ft_EncodeTo_bytes:
  "handle_ok (ft_metaindex_handle ft) \<Longrightarrow> handle_ok (ft_index_handle ft) \<Longrightarrow>
    ft_EncodeTo ft [] = Some (footer_bytes ft)"
  by (simp add: ft_EncodeTo_def bh_EncodeTo_bytes footer_bytes_def string_resize_def PutFixed32_def
      kMaxEncodedLength_def kEncodedLength_def kTableMagicNumber_def)

lemma ft_Decode_bytes: "ft_DecodeFrom ft0 (footer_bytes ft @ rest) = Some (OK, ft, rest)"
proof -
  let ?hs = "handle_bytes (ft_metaindex_handle ft) @ handle_bytes (ft_index_handle ft)"
  have "length ?hs \<le> 40"
    using handle_bytes_le [of "ft_metaindex_handle ft"] handle_bytes_le [of "ft_index_handle ft"]
    by (simp add: kMaxEncodedLength_def)
  then have hs: "string_resize ?hs 40 = ?hs @ replicate (40 - length ?hs) 0" "length (string_resize ?hs 40) = 40"
    by (simp_all add: string_resize_def)
  have "drop 40 (footer_bytes ft @ rest) = EncodeFixed32 0x8b80fb57 @ EncodeFixed32 0xdb477524 @ rest"
    using hs(2) by (simp add: footer_bytes_def)
  moreover from this have "drop 44 (footer_bytes ft @ rest) = EncodeFixed32 0xdb477524 @ rest"
    using drop_drop [of 4 40 "footer_bytes ft @ rest"] by simp
  moreover have "footer_bytes ft @ rest = handle_bytes (ft_metaindex_handle ft) @
      handle_bytes (ft_index_handle ft) @ (replicate (40 - length ?hs) 0 @
        EncodeFixed32 0x8b80fb57 @ EncodeFixed32 0xdb477524 @ rest)"
    using hs(1) by (simp add: footer_bytes_def)
  then have "bh_DecodeFrom h (footer_bytes ft @ rest) = (OK, ft_metaindex_handle ft,
      handle_bytes (ft_index_handle ft) @ (replicate (40 - length ?hs) 0 @
        EncodeFixed32 0x8b80fb57 @ EncodeFixed32 0xdb477524 @ rest))" for h
    by (simp only: bh_Decode_bytes)
  ultimately show ?thesis
    by (simp add: ft_DecodeFrom_def kEncodedLength_def kMaxEncodedLength_def kTableMagicNumber_def
        bh_Decode_bytes status_ok_def OK_def)
qed

text \<open>A block as it stands in a file: its contents, the type and the masked checksum of both.\<close>

definition framed :: "byte list \<Rightarrow> byte list" where
  "framed contents = contents @ [0] @ EncodeFixed32 (crc_Mask (crc32c (contents @ [0])))"

lemma length_framed [simp]: "length (framed contents) = length contents + 5"
  by (simp add: framed_def)

lemma ReadBlock_framed:
  assumes "unat (bh_offset h) = length pre" and "unat (bh_size h) = length contents"
    and "length contents + 5 < SIZE_MOD"
  shows "ReadBlock mem_rafile (pre @ framed contents @ post) verify h =
    Some (OK, \<lparr>bc_data = contents, bc_cachable = True, bc_heap_allocated = True\<rparr>)"
proof -
  have sz: "size_add (length contents) kBlockTrailerSize = length contents + 5"
    using assms(3) by (simp add: kBlockTrailerSize_def)
  have "take (length contents + 5) (framed contents @ post) = framed contents" by simp
  moreover have "take (length contents + 1) (framed contents) = contents @ [0]"
    "drop (length contents + 1) (framed contents) = EncodeFixed32 (crc_Mask (crc32c (contents @ [0])))"
    "framed contents ! length contents = 0" "take (length contents) (framed contents) = contents"
    by (simp_all add: framed_def nth_append)
  ultimately show ?thesis
    using assms(1,2) by (simp add: ReadBlock_def mem_rafile_def sz Let_def status_ok_def OK_def
      crc_Value_spec crc_Unmask_Mask compression_byte_def)
qed

text \<open>
  A handle whose size is within five bytes of the largest \<open>size_t\<close>: the number of bytes to be
  read wraps around, the short read passes for a complete one, and the type of the block is
  read far behind it.
\<close>

lemma ReadBlock_wraps:
  assumes "2 ^ 64 - 5 \<le> unat (bh_size h)"
    and "unat (bh_offset h) + 5 \<le> length file"
  shows "ReadBlock mem_rafile file verify h = None"
proof -
  have lt: "unat (bh_size h) < 2 ^ LENGTH(64)" by (rule unsigned_less)
  define k where "k = unat (bh_size h) + 5 - 2 ^ 64"
  have "unat (bh_size h) + 5 = 2 ^ 64 + k" "k < 5" using assms(1) lt by (simp_all add: k_def)
  then have "size_add (unat (bh_size h)) kBlockTrailerSize = k"
    by (simp add: size_add_def SIZE_MOD_def kBlockTrailerSize_def)
  moreover have "length (take k (drop (unat (bh_offset h)) file)) = k"
    using assms(2) \<open>k < 5\<close> by simp
  ultimately show ?thesis
    using assms(1) \<open>k < 5\<close> by (simp add: ReadBlock_def mem_rafile_def status_ok_def OK_def Let_def)
qed

end
