(* ===== verification/Ldb_Filter.thy ===== *)
theory Ldb_Filter
  imports Ldb_DbFormat
begin

text \<open>
  Filters: the hash function (Pods/leveldb-library/util/hash.cc) and the Bloom filter policy
  (util/bloom.cc).

  \<open>sound_filter\<close> is the contract of filter_policy.h: a filter that was created for a list of
  keys matches every key of the list, and any filter can be asked about a valid key.  The Bloom policy and the wrapper for internal keys keep
  it; the filter block (Ldb_FilterBlock) rests on it.
\<close>

section \<open>The hash function\<close>

definition hash_m :: u32 where "hash_m = 0xc6a4a793"
definition hash_r :: nat where "hash_r = 24"

fun hash_loop :: "u32 \<Rightarrow> slice \<Rightarrow> u32 \<times> slice" where
  "hash_loop h (a # b # c # d # data) =
     (let w = ucast a OR push_bit 8 (ucast b) OR push_bit 16 (ucast c) OR push_bit 24 (ucast d);
          h = h + w;
          h = h * hash_m;
          h = h XOR drop_bit 16 h
      in hash_loop h data)"
| "hash_loop h data = (h, data)"

definition hash_tail :: "u32 \<Rightarrow> slice \<Rightarrow> u32" where
  "hash_tail h data =
     (let h = (if length data = 3 then h + push_bit 16 (ucast (data ! 2)) else h);
          h = (if length data = 3 \<or> length data = 2 then h + push_bit 8 (ucast (data ! 1)) else h)
      in if length data = 3 \<or> length data = 2 \<or> length data = 1
         then (let h = h + ucast (data ! 0); h = h * hash_m in h XOR drop_bit hash_r h)
         else h)"

definition Hash :: "slice \<Rightarrow> u32 \<Rightarrow> u32" where
  "Hash data seed =
     (let h = seed XOR (of_nat (length data) * hash_m); (h, data) = hash_loop h data
      in hash_tail h data)"

lemma hash_loop_rest: "length (snd (hash_loop h data)) < 4"
  by (induction h data rule: hash_loop.induct) (simp_all add: Let_def)


section \<open>The Bloom filter\<close>

definition BloomHash :: "slice \<Rightarrow> u32" where
  "BloomHash key = Hash key 0xbc9f1d34"

text \<open>
  The number of probes.  The code multiplies by the floating-point number 0.69 and rounds
  down; for a non-negative number of bits that is \<open>69 * bits div 100\<close> where the bounds 1
  and 30 do not decide.
\<close>

definition bloom_k :: "nat \<Rightarrow> nat" where
  "bloom_k bits_per_key =
     (let k = bits_per_key * 69 div 100; k = (if k < 1 then 1 else k) in if k > 30 then 30 else k)"

definition bloom_delta :: "u32 \<Rightarrow> u32" where
  "bloom_delta h = drop_bit 17 h OR push_bit 15 h"

definition set_array_bit :: "byte list \<Rightarrow> nat \<Rightarrow> byte list" where
  "set_array_bit array bitpos =
     array[bitpos div 8 := array ! (bitpos div 8) OR push_bit (bitpos mod 8) 1]"

fun bloom_probe :: "nat \<Rightarrow> nat \<Rightarrow> u32 \<Rightarrow> u32 \<Rightarrow> byte list \<Rightarrow> byte list" where
  "bloom_probe 0 bits h delta array = array"
| "bloom_probe (Suc j) bits h delta array =
     bloom_probe j bits (h + delta) delta (set_array_bit array (unat h mod bits))"

fun bloom_add_keys :: "nat \<Rightarrow> nat \<Rightarrow> slice list \<Rightarrow> byte list \<Rightarrow> byte list" where
  "bloom_add_keys k bits [] array = array"
| "bloom_add_keys k bits (key # keys) array =
     (let h = BloomHash key; delta = bloom_delta h
      in bloom_add_keys k bits keys (bloom_probe k bits h delta array))"

definition bloom_CreateFilter :: "nat \<Rightarrow> slice list \<Rightarrow> byte list \<Rightarrow> byte list" where
  "bloom_CreateFilter bits_per_key keys dst =
     (let bits = length keys * bits_per_key;
          bits = (if bits < 64 then 64 else bits);
          bytes = (bits + 7) div 8;
          bits = bytes * 8;
          array = bloom_add_keys (bloom_k bits_per_key) bits keys (replicate bytes 0)
      in dst @ array @ [of_nat (bloom_k bits_per_key)])"

fun bloom_check :: "nat \<Rightarrow> nat \<Rightarrow> u32 \<Rightarrow> u32 \<Rightarrow> byte list \<Rightarrow> bool" where
  "bloom_check 0 bits h delta array = True"
| "bloom_check (Suc j) bits h delta array =
     (let bitpos = unat h mod bits
      in if array ! (bitpos div 8) AND push_bit (bitpos mod 8) 1 = 0 then False
         else bloom_check j bits (h + delta) delta array)"

text \<open>
  The last byte is the number of probes.  As a signed \<open>char\<close> that is negative it becomes a
  large \<open>size_t\<close>, which is above 30 as the unsigned byte is.
\<close>

definition bloom_KeyMayMatch :: "slice \<Rightarrow> slice \<Rightarrow> bool" where
  "bloom_KeyMayMatch key bloom_filter =
     (let len = length bloom_filter
      in if len < 2 then False
         else (let array = bloom_filter; bits = (len - 1) * 8; k = unat (array ! (len - 1))
               in if k > 30 then True
                  else (let h = BloomHash key; delta = bloom_delta h
                        in bloom_check k bits h delta array)))"

definition BloomFilterPolicy :: "nat \<Rightarrow> filter_policy" where
  "BloomFilterPolicy bits_per_key =
     \<lparr>fp_Name = ''leveldb.BuiltinBloomFilter2'',
      CreateFilter = (\<lambda>keys dst. Some (bloom_CreateFilter bits_per_key keys dst)),
      KeyMayMatch = (\<lambda>key f. Some (bloom_KeyMayMatch key f))\<rparr>"


section \<open>The contract\<close>

locale sound_filter =
  fixes policy :: filter_policy and valid :: "slice set"
  assumes create: "set keys \<subseteq> valid \<Longrightarrow> \<exists>f. CreateFilter policy keys dst = Some (dst @ f)"
    and match: "set keys \<subseteq> valid \<Longrightarrow> CreateFilter policy keys dst = Some (dst @ f) \<Longrightarrow> key \<in> set keys \<Longrightarrow>
      KeyMayMatch policy key f = Some True"
    and answers: "key \<in> valid \<Longrightarrow> \<exists>m. KeyMayMatch policy key f = Some m"


section \<open>The Bloom filter keeps it\<close>

definition array_bit :: "byte list \<Rightarrow> nat \<Rightarrow> bool" where
  "array_bit array n \<longleftrightarrow> bit (array ! (n div 8)) (n mod 8)"

lemma array_bit_test:
  "array ! (n div 8) AND push_bit (n mod 8) 1 = 0 \<longleftrightarrow> \<not> array_bit array n"
proof -
  have "push_bit (n mod 8) (1 :: byte) = 2 ^ (n mod 8)" by (simp add: push_bit_eq_mult)
  then show ?thesis by (simp add: array_bit_def and_exp_eq_0_iff_not_bit)
qed

lemma array_bit_set:
  assumes "n < 8 * length array"
  shows "array_bit (set_array_bit array n) i \<longleftrightarrow> i = n \<or> array_bit array i"
proof -
  have n: "n div 8 < length array" using assms by (simp add: less_mult_imp_div_less mult.commute)
  have "bit (push_bit (n mod 8) (1 :: byte)) (i mod 8) \<longleftrightarrow> i mod 8 = n mod 8"
    by (auto simp: bit_simps)
  moreover have "i = n \<longleftrightarrow> i div 8 = n div 8 \<and> i mod 8 = n mod 8"
    by (metis div_mult_mod_eq)
  ultimately show ?thesis
    using n by (auto simp: array_bit_def set_array_bit_def nth_list_update bit_or_iff)
qed

lemma length_set_array_bit [simp]: "length (set_array_bit array n) = length array"
  by (simp add: set_array_bit_def)

lemma length_bloom_probe [simp]: "length (bloom_probe k bits h d array) = length array"
  by (induction k bits h d array rule: bloom_probe.induct) simp_all

lemma length_bloom_add_keys [simp]: "length (bloom_add_keys k bits keys array) = length array"
  by (induction k bits keys array rule: bloom_add_keys.induct) (simp_all add: Let_def)

text \<open>Setting bits never clears one, and all probes of a key are set.\<close>

lemma bloom_probe_bits:
  assumes "bits = 8 * length array" and "0 < length array"
  shows "(array_bit array i \<longrightarrow> array_bit (bloom_probe k bits h d array) i) \<and>
    (\<forall>a. (\<forall>i. array_bit (bloom_probe k bits h d array) i \<longrightarrow> array_bit a i) \<longrightarrow> bloom_check k bits h d a)"
  using assms
proof (induction k arbitrary: h array i)
  case (Suc k)
  let ?pos = "unat h mod bits" and ?array = "set_array_bit array (unat h mod bits)"
  have pos: "?pos < 8 * length array" using Suc.prems by simp
  have step: "(array_bit ?array i \<longrightarrow> array_bit (bloom_probe k bits (h + d) d ?array) i) \<and>
      (\<forall>a. (\<forall>i. array_bit (bloom_probe k bits (h + d) d ?array) i \<longrightarrow> array_bit a i) \<longrightarrow>
        bloom_check k bits (h + d) d a)" for i
    by (rule Suc.IH) (use Suc.prems in simp_all)
  have "array_bit (bloom_probe (Suc k) bits h d array) ?pos"
    using step [of ?pos] array_bit_set [OF pos, of ?pos] by simp
  moreover have "array_bit array i \<longrightarrow> array_bit (bloom_probe (Suc k) bits h d array) i"
    using step [of i] array_bit_set [OF pos, of i] by simp
  ultimately show ?case using step array_bit_test by (auto simp: Let_def)
qed simp

lemma bloom_add_keys_bits:
  assumes "bits = 8 * length array" and "0 < length array"
  shows "(array_bit array i \<longrightarrow> array_bit (bloom_add_keys k bits keys array) i) \<and>
    (\<forall>key \<in> set keys. bloom_check k bits (BloomHash key) (bloom_delta (BloomHash key))
       (bloom_add_keys k bits keys array))"
  using assms
proof (induction keys arbitrary: array i)
  case (Cons key keys)
  let ?h = "BloomHash key"
  let ?array = "bloom_probe k bits ?h (bloom_delta ?h) array"
  have step: "(array_bit ?array i \<longrightarrow> array_bit (bloom_add_keys k bits keys ?array) i) \<and>
      (\<forall>key \<in> set keys. bloom_check k bits (BloomHash key) (bloom_delta (BloomHash key))
        (bloom_add_keys k bits keys ?array))" for i
    by (rule Cons.IH) (use Cons.prems in simp_all)
  note first = bloom_probe_bits [OF Cons.prems, of _ k ?h "bloom_delta ?h"]
  from step first show ?case by (auto simp: Let_def)
qed simp

lemma bloom_check_append:
  "bits = 8 * length array \<Longrightarrow> 0 < bits \<Longrightarrow> bloom_check k bits h d (array @ x) = bloom_check k bits h d array"
proof (induction k arbitrary: h)
  case (Suc k)
  have "unat h mod bits < 8 * length array" using Suc.prems by simp
  then have "unat h mod bits div 8 < length array" by (simp add: less_mult_imp_div_less mult.commute)
  with Suc show ?case by (simp add: Let_def nth_append)
qed simp

lemma bloom_k_range: "1 \<le> bloom_k b" "bloom_k b \<le> 30"
  by (simp_all add: bloom_k_def Let_def)

lemma bloom_match:
  assumes "key \<in> set keys" and "bloom_CreateFilter b keys dst = dst @ f"
  shows "bloom_KeyMayMatch key f"
proof -
  define bytes where "bytes = ((if length keys * b < 64 then 64 else length keys * b) + 7) div 8"
  have "64 \<le> (if length keys * b < 64 then 64 else length keys * b)" by simp
  then have pos: "0 < bytes" unfolding bytes_def by (simp only: div_greater_zero_iff) linarith
  let ?array = "bloom_add_keys (bloom_k b) (8 * bytes) keys (replicate bytes 0)"
  have f: "f = ?array @ [of_nat (bloom_k b)]"
    using assms(2) unfolding bloom_CreateFilter_def Let_def bytes_def [symmetric] by (simp add: mult.commute)
  have k: "unat (of_nat (bloom_k b) :: byte) = bloom_k b"
    using bloom_k_range [of b] by (simp add: unat_of_nat)
  show ?thesis
    using bloom_add_keys_bits [of "8 * bytes" "replicate bytes 0" _ "bloom_k b" keys] assms(1) pos bloom_k_range [of b]
    by (simp add: bloom_KeyMayMatch_def f Let_def nth_append k bloom_check_append mult.commute)
qed

interpretation bloom: sound_filter "BloomFilterPolicy b" UNIV for b
proof
  show "\<exists>f. CreateFilter (BloomFilterPolicy b) keys dst = Some (dst @ f)" for keys dst
    by (simp add: BloomFilterPolicy_def bloom_CreateFilter_def Let_def)
  show "KeyMayMatch (BloomFilterPolicy b) key f = Some True"
    if "CreateFilter (BloomFilterPolicy b) keys dst = Some (dst @ f)" "key \<in> set keys" for keys dst f key
    using that bloom_match by (simp add: BloomFilterPolicy_def)
  show "\<exists>m. KeyMayMatch (BloomFilterPolicy b) key f = Some m" for key f
    by (simp add: BloomFilterPolicy_def)
qed

text \<open>The wrapper for internal keys keeps the contract of the policy it wraps.\<close>

lemma user_keys_some:
  "\<forall>k \<in> set keys. 8 \<le> length k \<Longrightarrow> user_keys keys = Some (map (\<lambda>k. take (length k - 8) k) keys)"
  by (induction keys) (simp_all add: ExtractUserKey_def)

context sound_filter
begin

lemma internal_sound:
  "sound_filter (InternalFilterPolicy policy) {k. 8 \<le> length k \<and> take (length k - 8) k \<in> valid}"
proof
  show "\<exists>m. KeyMayMatch (InternalFilterPolicy policy) key f = Some m"
    if "key \<in> {k. 8 \<le> length k \<and> take (length k - 8) k \<in> valid}" for key f
    using that answers [of "take (length key - 8) key" f]
    by (auto simp: InternalFilterPolicy_def ifilter_KeyMayMatch_def ExtractUserKey_def)
next
  fix keys dst
  assume "set keys \<subseteq> {k. 8 \<le> length k \<and> take (length k - 8) k \<in> valid}"
  then have k: "\<forall>k \<in> set keys. 8 \<le> length k"
    and v: "set (map (\<lambda>k. take (length k - 8) k) keys) \<subseteq> valid" by auto
  show "\<exists>f. CreateFilter (InternalFilterPolicy policy) keys dst = Some (dst @ f)"
    using create [OF v] by (simp add: InternalFilterPolicy_def ifilter_CreateFilter_def user_keys_some [OF k])
  fix f key
  assume "CreateFilter (InternalFilterPolicy policy) keys dst = Some (dst @ f)" "key \<in> set keys"
  then show "KeyMayMatch (InternalFilterPolicy policy) key f = Some True"
    using match [OF v, of dst f "take (length key - 8) key"] k
    by (simp add: InternalFilterPolicy_def ifilter_CreateFilter_def ifilter_KeyMayMatch_def
        user_keys_some [OF k] ExtractUserKey_def)
qed

end


end
