(* ===== verification/Ldb_FilterBlock.thy ===== *)
theory Ldb_FilterBlock
  imports Ldb_Filter
begin

text \<open>
  The filter block of a table, Pods/leveldb-library/table/filter_block.{h,cc}: one filter for
  each two kilobytes of data blocks, an array of their offsets, the offset of the array and
  the base of the division.  The builder is proved to give filters that match every key of
  the block they are asked about, for any policy with the contract \<open>sound_filter\<close>.
\<close>

section \<open>The builder\<close>

definition kFilterBaseLg :: nat where "kFilterBaseLg = 11"
definition kFilterBase :: nat where "kFilterBase = 2 ^ kFilterBaseLg"

record filter_block_builder =
  fbb_policy :: filter_policy
  fbb_keys :: "byte list"
  fbb_start :: "nat list"
  fbb_result :: "byte list"
  fbb_filter_offsets :: "u32 list"

definition FilterBlockBuilder :: "filter_policy \<Rightarrow> filter_block_builder" where
  "FilterBlockBuilder policy = \<lparr>fbb_policy = policy, fbb_keys = [], fbb_start = [], fbb_result = [],
     fbb_filter_offsets = []\<rparr>"

text \<open>The keys, cut out of \<open>keys_\<close> at the positions in \<open>start_\<close> (the last one is its end).\<close>

fun tmp_keys :: "byte list \<Rightarrow> nat list \<Rightarrow> slice list" where
  "tmp_keys keys (a # b # start) = take (b - a) (drop a keys) # tmp_keys keys (b # start)"
| "tmp_keys keys start = []"

definition GenerateFilter :: "filter_block_builder \<Rightarrow> filter_block_builder option" where
  "GenerateFilter b =
     (let num_keys = length (fbb_start b)
      in if num_keys = 0
         then Some (b\<lparr>fbb_filter_offsets := fbb_filter_offsets b @ [of_nat (length (fbb_result b))]\<rparr>)
         else do {
           let start = fbb_start b @ [length (fbb_keys b)];
           let tmp = tmp_keys (fbb_keys b) start;
           let offsets = fbb_filter_offsets b @ [of_nat (length (fbb_result b))];
           result \<leftarrow> CreateFilter (fbb_policy b) tmp (fbb_result b);
           Some (b\<lparr>fbb_keys := [], fbb_start := [], fbb_result := result, fbb_filter_offsets := offsets\<rparr>) })"

partial_function (option) catch_up :: "nat \<Rightarrow> filter_block_builder \<Rightarrow> filter_block_builder option" where
  "catch_up filter_index b =
     (if filter_index > length (fbb_filter_offsets b)
      then do { b \<leftarrow> GenerateFilter b; catch_up filter_index b } else Some b)"

definition StartBlock :: "filter_block_builder \<Rightarrow> u64 \<Rightarrow> filter_block_builder option" where
  "StartBlock b block_offset =
     (let filter_index = unat block_offset div kFilterBase
      in if filter_index \<ge> length (fbb_filter_offsets b) then catch_up filter_index b else None)"

definition AddKey :: "filter_block_builder \<Rightarrow> slice \<Rightarrow> filter_block_builder" where
  "AddKey b key = b\<lparr>fbb_start := fbb_start b @ [length (fbb_keys b)], fbb_keys := fbb_keys b @ key\<rparr>"

fun put_offsets :: "byte list \<Rightarrow> u32 list \<Rightarrow> byte list" where
  "put_offsets result [] = result"
| "put_offsets result (off # offs) = put_offsets (PutFixed32 result off) offs"

definition fbb_Finish :: "filter_block_builder \<Rightarrow> (slice \<times> filter_block_builder) option" where
  "fbb_Finish b =
     do { b \<leftarrow> (if fbb_start b \<noteq> [] then GenerateFilter b else Some b);
          let array_offset = (of_nat (length (fbb_result b)) :: u32);
          let result = put_offsets (fbb_result b) (fbb_filter_offsets b);
          let result = PutFixed32 result array_offset;
          let result = result @ [of_nat kFilterBaseLg];
          Some (result, b\<lparr>fbb_result := result\<rparr>) }"


section \<open>The reader\<close>

text \<open>
  \<open>data_\<close> is the contents or NULL, \<open>offset_\<close> an offset into them.  The byte \<open>base_lg_\<close> is read as
  a signed \<open>char\<close> and becomes a \<open>size_t\<close>.
\<close>

record filter_block_reader =
  fbr_policy :: filter_policy
  fbr_data :: "slice option"
  fbr_offset :: nat
  fbr_num :: nat
  fbr_base_lg :: u64

definition FilterBlockReader :: "filter_policy \<Rightarrow> slice \<Rightarrow> filter_block_reader option" where
  "FilterBlockReader policy contents =
     (let n = length contents;
          r = \<lparr>fbr_policy = policy, fbr_data = None, fbr_offset = 0, fbr_num = 0, fbr_base_lg = 0\<rparr>
      in if n < 5 then Some r
         else do {
           let r = r\<lparr>fbr_base_lg := scast (contents ! (n - 1))\<rparr>;
           last_word \<leftarrow> DecodeFixed32 (drop (n - 5) contents);
           if unat last_word > n - 5 then Some r
           else Some (r\<lparr>fbr_data := Some contents, fbr_offset := unat last_word,
                        fbr_num := (n - 5 - unat last_word) div 4\<rparr>) })"

text \<open>A shift by 64 or more is undefined.\<close>

definition fbr_KeyMayMatch :: "filter_block_reader \<Rightarrow> u64 \<Rightarrow> slice \<Rightarrow> bool option" where
  "fbr_KeyMayMatch r block_offset key =
     (if unat (fbr_base_lg r) \<ge> 64 then None
      else (let index = unat (drop_bit (unat (fbr_base_lg r)) block_offset)
            in if index < fbr_num r
               then do {
                 data \<leftarrow> fbr_data r;
                 start \<leftarrow> DecodeFixed32 (drop (fbr_offset r + index * 4) data);
                 limit \<leftarrow> DecodeFixed32 (drop (fbr_offset r + index * 4 + 4) data);
                 if start \<le> limit \<and> unat limit \<le> fbr_offset r
                 then KeyMayMatch (fbr_policy r) key (take (unat (limit - start)) (drop (unat start) data))
                 else if start = limit then Some False
                 else Some True }
               else Some True))"


section \<open>What the builder holds\<close>

text \<open>
  \<open>G\<close> is the list of the key lists of the filters made so far, \<open>P\<close> the keys added since.
\<close>

fun starts :: "nat \<Rightarrow> slice list \<Rightarrow> nat list" where
  "starts off [] = []"
| "starts off (k # ks) = off # starts (off + length k) ks"

lemma starts_append: "starts off (ks @ [k]) = starts off ks @ [off + length (concat ks)]"
  by (induction ks arbitrary: off) simp_all

lemma starts_Nil [simp]: "starts off ks = [] \<longleftrightarrow> ks = []"
  by (cases ks) simp_all

lemma tmp_keys_starts:
  "tmp_keys (pre @ concat ks) (starts (length pre) ks @ [length pre + length (concat ks)]) = ks"
proof (induction ks arbitrary: pre)
  case (Cons k ks)
  from Cons [of "pre @ k"] show ?case by (cases ks) (simp_all add: add.assoc)
qed simp

definition filter_slice :: "nat list \<Rightarrow> byte list \<Rightarrow> nat \<Rightarrow> slice" where
  "filter_slice os result i =
     (let os' = os @ [length result] in take (os' ! Suc i - os' ! i) (drop (os' ! i) result))"

context sound_filter
begin

definition holds :: "filter_block_builder \<Rightarrow> slice list list \<Rightarrow> slice list \<Rightarrow> bool" where
  "holds b G P \<longleftrightarrow> fbb_policy b = policy \<and> fbb_keys b = concat P \<and> fbb_start b = starts 0 P \<and>
     set P \<subseteq> valid \<and>
     (\<exists>os. fbb_filter_offsets b = map of_nat os \<and> length os = length G \<and>
        sorted (os @ [length (fbb_result b)]) \<and>
        (\<forall>i < length G. \<forall>key \<in> set (G ! i). KeyMayMatch policy key (filter_slice os (fbb_result b) i) = Some True))"

lemma FilterBlockBuilder_holds: "holds (FilterBlockBuilder policy) [] []"
  by (simp add: holds_def FilterBlockBuilder_def)

lemma AddKey_holds: "holds b G P \<Longrightarrow> key \<in> valid \<Longrightarrow> holds (AddKey b key) G (P @ [key])"
  by (simp add: holds_def AddKey_def starts_append)

lemma AddKeys_holds:
  "holds b G P \<Longrightarrow> set keys \<subseteq> valid \<Longrightarrow> holds (fold (\<lambda>k b. AddKey b k) keys b) G (P @ keys)"
proof (induction keys arbitrary: b P)
  case (Cons k ks)
  then show ?case using Cons.IH [OF AddKey_holds] by fastforce
qed simp

lemma filter_slice_append:
  assumes "sorted (os @ [length result])" and "i < length os"
  shows "filter_slice (os @ [length result]) (result @ f) i = filter_slice os result i"
proof -
  have "(os @ [length result]) ! Suc i \<le> length result"
    using assms by (cases "Suc i < length os") (auto simp: nth_append sorted_append less_Suc_eq)
  moreover have "(os @ [length result]) ! i = os ! i" using assms(2) by (simp add: nth_append)
  moreover have "os ! i \<le> length result" using assms by (simp add: sorted_append)
  ultimately show ?thesis using assms(2)
    by (simp add: filter_slice_def Let_def nth_append split: if_splits)
qed

lemma GenerateFilter_holds:
  assumes "holds b G P"
  shows "\<exists>b'. GenerateFilter b = Some b' \<and> holds b' (G @ [P]) []"
proof -
  obtain os where os: "fbb_filter_offsets b = map of_nat os" "length os = length G"
    "sorted (os @ [length (fbb_result b)])"
    "\<forall>i < length G. \<forall>key \<in> set (G ! i). KeyMayMatch policy key (filter_slice os (fbb_result b) i) = Some True"
    and b: "fbb_policy b = policy" "fbb_keys b = concat P" "fbb_start b = starts 0 P" "set P \<subseteq> valid"
    using assms by (auto simp: holds_def)
  let ?os = "os @ [length (fbb_result b)]"
  have old: "\<forall>i < length G. \<forall>key \<in> set ((G @ [P]) ! i).
      KeyMayMatch policy key (filter_slice ?os (fbb_result b @ f) i) = Some True" for f
    using os by (simp add: nth_append filter_slice_append)
  obtain f where f: "if P = [] then f = [] else CreateFilter policy P (fbb_result b) = Some (fbb_result b @ f)"
  proof -
    obtain f0 where "CreateFilter policy P (fbb_result b) = Some (fbb_result b @ f0)"
      using create [OF b(4)] by blast
    with that [of "if P = [] then [] else f0"] show ?thesis by simp
  qed
  have "filter_slice ?os (fbb_result b @ f) (length G) = f"
    using os(2) by (simp add: filter_slice_def Let_def nth_append)
  then have "\<forall>key \<in> set P. KeyMayMatch policy key (filter_slice ?os (fbb_result b @ f) (length G)) = Some True"
    using f match [OF b(4)] by (auto split: if_splits)
  with old os have new: "\<forall>i < length (G @ [P]). \<forall>key \<in> set ((G @ [P]) ! i).
      KeyMayMatch policy key (filter_slice ?os (fbb_result b @ f) i) = Some True"
    by (auto simp: less_Suc_eq)
  have finish: "holds b' (G @ [P]) []" if "fbb_policy b' = policy" "fbb_keys b' = []" "fbb_start b' = []"
    "fbb_result b' = fbb_result b @ f" "fbb_filter_offsets b' = map of_nat ?os" for b'
    unfolding holds_def using that new os(2,3) by (intro conjI exI [of _ ?os]) (auto simp: sorted_append)
  show ?thesis
  proof (cases "P = []")
    case True
    then have "GenerateFilter b = Some (b\<lparr>fbb_filter_offsets := map of_nat ?os\<rparr>)"
      using b(3) os(1) by (simp add: GenerateFilter_def)
    moreover have "holds (b\<lparr>fbb_filter_offsets := map of_nat ?os\<rparr>) (G @ [P]) []"
      by (rule finish) (use b f True in simp_all)
    ultimately show ?thesis by blast
  next
    case False
    then have "length (fbb_start b) \<noteq> 0" using b(3) by simp
    moreover have "tmp_keys (fbb_keys b) (fbb_start b @ [length (fbb_keys b)]) = P"
      using tmp_keys_starts [of "[]" P] b(2,3) by simp
    ultimately have "GenerateFilter b = Some (b\<lparr>fbb_keys := [], fbb_start := [],
        fbb_result := fbb_result b @ f, fbb_filter_offsets := map of_nat ?os\<rparr>)"
      using b(1) f os(1) False by (simp add: GenerateFilter_def)
    moreover have "holds (b\<lparr>fbb_keys := [], fbb_start := [], fbb_result := fbb_result b @ f,
        fbb_filter_offsets := map of_nat ?os\<rparr>) (G @ [P]) []"
      by (rule finish) (use b(1) in simp_all)
    ultimately show ?thesis by blast
  qed
qed

lemma catch_up_holds:
  assumes "holds b G P" and "length G \<le> n"
  shows "\<exists>b'. catch_up n b = Some b' \<and> (if n = length G then b' = b
    else holds b' (G @ [P] @ replicate (n - Suc (length G)) []) [])"
  using assms
proof (induction "n - length G" arbitrary: b G P)
  case 0
  then have "length (fbb_filter_offsets b) = length G" by (auto simp: holds_def)
  with 0 show ?case by (subst catch_up.simps) simp
next
  case (Suc d)
  have len: "length (fbb_filter_offsets b) = length G" using Suc.prems by (auto simp: holds_def)
  obtain b1 where b1: "GenerateFilter b = Some b1" "holds b1 (G @ [P]) []"
    using GenerateFilter_holds [OF Suc.prems(1)] by blast
  have "length G < n" using Suc.hyps(2) by simp
  then have "catch_up n b = catch_up n b1" using len b1(1) by (subst catch_up.simps) simp
  moreover have "replicate (n - Suc (length G)) ([] :: slice list) = [] # replicate (n - Suc (Suc (length G))) []"
    if "n \<noteq> Suc (length G)"
    using that \<open>length G < n\<close> by (cases "n - Suc (length G)") auto
  moreover have "\<exists>b'. catch_up n b1 = Some b' \<and> (if n = length (G @ [P]) then b' = b1
      else holds b' ((G @ [P]) @ [[]] @ replicate (n - Suc (length (G @ [P]))) []) [])"
    by (rule Suc.hyps(1) [OF _ b1(2)]) (use Suc.hyps(2) \<open>length G < n\<close> in auto)
  ultimately show ?case using b1(2) \<open>length G < n\<close> by (cases "n = Suc (length G)") auto
qed


section \<open>A sequence of blocks\<close>

definition covered :: "(u64 \<times> slice list) set \<Rightarrow> slice list list \<Rightarrow> slice list \<Rightarrow> bool" where
  "covered D G P \<longleftrightarrow> (\<forall>(off, ks) \<in> D. let i = unat off div kFilterBase in
     i < length G \<and> set ks \<subseteq> set (G ! i) \<or> i = length G \<and> set ks \<subseteq> set P)"

lemma covered_next:
  assumes "covered D G P"
  shows "covered D (G @ [P] @ replicate k []) []"
  unfolding covered_def
proof (intro ballI, clarify)
  fix off ks assume "(off, ks) \<in> D"
  with assms show "let i = unat off div kFilterBase in
      i < length (G @ [P] @ replicate k []) \<and> set ks \<subseteq> set ((G @ [P] @ replicate k []) ! i) \<or>
      i = length (G @ [P] @ replicate k []) \<and> set ks \<subseteq> set []"
    by (fastforce simp: covered_def Let_def nth_append)
qed

lemma covered_more: "covered D G P \<Longrightarrow> covered D G (P @ ks)"
  by (fastforce simp: covered_def Let_def)

end

fun fbb_blocks :: "filter_block_builder \<Rightarrow> (u64 \<times> slice list) list \<Rightarrow> filter_block_builder option" where
  "fbb_blocks b [] = Some b"
| "fbb_blocks b ((off, keys) # bs) =
     do { b \<leftarrow> StartBlock b off; fbb_blocks (fold (\<lambda>k b. AddKey b k) keys b) bs }"


context sound_filter
begin

lemma StartBlock_holds:
  assumes "holds b G P" and "length G \<le> unat off div kFilterBase"
  shows "\<exists>b' G' P'. StartBlock b off = Some b' \<and> holds b' G' P' \<and> length G' = unat off div kFilterBase \<and>
    (\<forall>D. covered D G P \<longrightarrow> covered D G' P')"
proof -
  let ?n = "unat off div kFilterBase"
  obtain b1 where b1: "catch_up ?n b = Some b1" "if ?n = length G then b1 = b
      else holds b1 (G @ [P] @ replicate (?n - Suc (length G)) []) []"
    using catch_up_holds [OF assms] by blast
  have "length (fbb_filter_offsets b) = length G" using assms(1) by (auto simp: holds_def)
  then have start: "StartBlock b off = Some b1" using assms(2) b1(1) by (simp add: StartBlock_def)
  show ?thesis
  proof (cases "?n = length G")
    case True
    with start b1(2) assms(1) show ?thesis by auto
  next
    case False
    with assms(2) have "length (G @ [P] @ replicate (?n - Suc (length G)) []) = ?n" by simp
    with False start b1(2) covered_next show ?thesis by metis
  qed
qed

lemma covered_add:
  "covered D G P \<Longrightarrow> length G = unat off div kFilterBase \<Longrightarrow> covered (insert (off, ks) D) G (P @ ks)"
  using covered_more [of D G P ks] by (auto simp: covered_def Let_def)

lemma blocks_hold:
  assumes "holds b G P" and "covered D G P" and "sorted (map fst bs)"
    and "\<forall>(off, ks) \<in> set bs. length G \<le> unat off div kFilterBase \<and> set ks \<subseteq> valid"
  shows "\<exists>b' G' P'. fbb_blocks b bs = Some b' \<and> holds b' G' P' \<and> covered (D \<union> set bs) G' P'"
  using assms
proof (induction bs arbitrary: b G P D)
  case (Cons e bs)
  obtain off ks where e: "e = (off, ks)" by fastforce
  let ?n = "unat off div kFilterBase"
  have n: "length G \<le> ?n" and ks: "set ks \<subseteq> valid" using Cons.prems(4) e by auto
  have later: "\<forall>(off', ks') \<in> set bs. ?n \<le> unat off' div kFilterBase \<and> set ks' \<subseteq> valid"
    using Cons.prems(3,4) e by (fastforce simp: word_le_nat_alt intro: div_le_mono)
  obtain b1 G1 P1 where b1: "StartBlock b off = Some b1" "holds b1 G1 P1" "covered D G1 P1" "length G1 = ?n"
    using StartBlock_holds [OF Cons.prems(1) n] Cons.prems(2) by blast
  let ?b2 = "fold (\<lambda>k b. AddKey b k) ks b1"
  have "holds ?b2 G1 (P1 @ ks)" by (rule AddKeys_holds [OF b1(2) ks])
  moreover have "covered (insert (off, ks) D) G1 (P1 @ ks)" by (rule covered_add [OF b1(3,4)])
  ultimately obtain b' G' P' where "fbb_blocks ?b2 bs = Some b'" "holds b' G' P'"
    "covered (insert (off, ks) D \<union> set bs) G' P'"
    using Cons.IH [of ?b2 G1 "P1 @ ks" "insert (off, ks) D"] Cons.prems(3) later b1(4) by auto
  with b1(1) e show ?case by auto
qed auto

lemma put_offsets_concat: "put_offsets buf rs = buf @ concat (map EncodeFixed32 rs)"
  by (induction rs arbitrary: buf) (simp_all add: PutFixed32_def)

text \<open>The reader of a finished block finds the slices the builder has made.\<close>

lemma offset_in_block:
  assumes "i < length rs"
  shows "DecodeFixed32 (drop (length res + i * 4) (res @ concat (map EncodeFixed32 rs) @ x)) = Some (rs ! i)"
proof -
  have "drop (i * 4) (concat (map EncodeFixed32 rs) @ x) = concat (map EncodeFixed32 (drop i rs)) @ x" for x
    using assms
  proof (induction i arbitrary: rs)
    case (Suc i)
    then show ?case by (cases rs) (simp_all add: drop_append)
  qed simp
  moreover have "drop i rs = rs ! i # drop (Suc i) rs" using assms by (simp add: Cons_nth_drop_Suc)
  ultimately show ?thesis by simp
qed

lemma Finish_reader:
  assumes holds: "holds b G P" and finish: "fbb_Finish b = Some (contents, b')" and small_block: "length contents < 2 ^ 32"
  obtains r os res G1 where "FilterBlockReader policy contents = Some r" "G1 = (if P = [] then G else G @ [P])"
    "\<And>i key. i < length G1 \<Longrightarrow> key \<in> set (G1 ! i) \<Longrightarrow> KeyMayMatch policy key (filter_slice os res i) = Some True"
    "\<And>off key. fbr_KeyMayMatch r off key = (let i = unat off div kFilterBase
      in if i < length G1 then KeyMayMatch policy key (filter_slice os res i) else Some True)"
proof -
  define G1 where "G1 = (if P = [] then G else G @ [P])"
  obtain b1 where b1: "(if fbb_start b \<noteq> [] then GenerateFilter b else Some b) = Some b1" "holds b1 G1 []"
  proof (cases "P = []")
    case True
    with holds that [of b] show ?thesis by (simp add: holds_def G1_def)
  next
    case False
    then have "fbb_start b \<noteq> []" using holds by (simp add: holds_def)
    with that GenerateFilter_holds [OF holds] False show ?thesis by (auto simp: G1_def)
  qed
  obtain os where os: "fbb_filter_offsets b1 = map of_nat os" "length os = length G1"
    "sorted (os @ [length (fbb_result b1)])"
    and m: "\<And>i key. i < length G1 \<Longrightarrow> key \<in> set (G1 ! i) \<Longrightarrow>
      KeyMayMatch policy key (filter_slice os (fbb_result b1) i) = Some True"
    using b1(2) by (auto simp: holds_def)
  let ?res = "fbb_result b1" and ?os' = "os @ [length (fbb_result b1)]"
  have c: "contents = ?res @ concat (map EncodeFixed32 (map of_nat ?os')) @ [11]"
    using finish b1(1) os(1)
    by (simp add: fbb_Finish_def put_offsets_concat PutFixed32_def Let_def kFilterBaseLg_def)
  have lc: "length (concat (map EncodeFixed32 rs)) = 4 * length rs" for rs by (induction rs) simp_all
  have len: "length contents = length ?res + 4 * length os + 5"
    by (simp only: c lc length_append length_map) simp
  have small: "n \<le> length ?res \<Longrightarrow> unat (of_nat n :: u32) = n" for n
    using small_block len by (simp add: unat_of_nat)
  have word: "DecodeFixed32 (drop (length ?res + i * 4) contents) = Some (of_nat (?os' ! i))" if "i \<le> length os" for i
    unfolding c using that offset_in_block [of i "map of_nat ?os'" ?res "[11]"] by (simp add: nth_append)
  define r where "r = \<lparr>fbr_policy = policy, fbr_data = Some contents, fbr_offset = length ?res,
    fbr_num = length os, fbr_base_lg = 11\<rparr>"
  have "last contents = 11" "contents \<noteq> []" by (simp_all add: c)
  then have "contents ! (length contents - 1) = 11" by (simp add: last_conv_nth)
  then have "FilterBlockReader policy contents = Some r"
    using word [of "length os"] len small [of "length ?res"]
    by (simp add: FilterBlockReader_def Let_def r_def nth_append mult.commute)
  moreover have "fbr_KeyMayMatch r off key = (let i = unat off div kFilterBase
      in if i < length G1 then KeyMayMatch policy key (filter_slice os ?res i) else Some True)" for off key
  proof -
    let ?i = "unat off div kFilterBase"
    have i: "unat (drop_bit 11 off) = ?i" by (simp add: unat_drop_bit_word kFilterBase_def kFilterBaseLg_def)
    show ?thesis
    proof (cases "?i < length G1")
      case True
      define lo hi where "lo = ?os' ! ?i" and "hi = ?os' ! Suc ?i"
      have le: "lo \<le> hi" "hi \<le> length ?res"
        using os True sorted_nth_mono [OF os(3), of ?i "Suc ?i"] sorted_nth_mono [OF os(3), of "Suc ?i" "length os"]
        by (simp_all add: lo_def hi_def nth_append)
      have un: "unat (of_nat lo :: u32) = lo" "unat (of_nat hi :: u32) = hi"
        using small [of lo] small [of hi] le by simp_all
      have d: "unat (of_nat hi - of_nat lo :: u32) = hi - lo"
        using un le(1) unat_sub [of "of_nat lo :: u32" "of_nat hi"] by (simp add: word_le_nat_alt)
      have "take (hi - lo) (drop lo contents) = take (hi - lo) (drop lo ?res)" using le by (simp add: c)
      then have s: "take (hi - lo) (drop lo contents) = filter_slice os ?res ?i"
        by (simp add: filter_slice_def Let_def lo_def hi_def)
      have "DecodeFixed32 (drop (length ?res + ?i * 4) contents) = Some (of_nat lo)"
        "DecodeFixed32 (drop (length ?res + ?i * 4 + 4) contents) = Some (of_nat hi)"
        using word [of ?i] word [of "Suc ?i"] True os(2) by (simp_all add: lo_def hi_def add.commute add.left_commute)
      with True os(2) le un d s i show ?thesis
        by (simp add: fbr_KeyMayMatch_def r_def Let_def word_le_nat_alt)
    next
      case False
      with os(2) i show ?thesis by (simp add: fbr_KeyMayMatch_def r_def Let_def)
    qed
  qed
  ultimately show thesis using that [OF _ G1_def m] by blast
qed

lemma Finish_match:
  assumes "holds b G P" and "covered D G P"
    and "fbb_Finish b = Some (contents, b')" and "length contents < 2 ^ 32"
  shows "\<exists>r. FilterBlockReader policy contents = Some r \<and>
    (\<forall>(off, ks) \<in> D. \<forall>key \<in> set ks. fbr_KeyMayMatch r off key = Some True) \<and>
    (\<forall>off. \<forall>key \<in> valid. \<exists>m. fbr_KeyMayMatch r off key = Some m)"
proof -
  obtain r os res G1 where r: "FilterBlockReader policy contents = Some r" "G1 = (if P = [] then G else G @ [P])"
    "\<And>i key. i < length G1 \<Longrightarrow> key \<in> set (G1 ! i) \<Longrightarrow> KeyMayMatch policy key (filter_slice os res i) = Some True"
    "\<And>off key. fbr_KeyMayMatch r off key = (let i = unat off div kFilterBase
      in if i < length G1 then KeyMayMatch policy key (filter_slice os res i) else Some True)"
    by (rule Finish_reader [OF assms(1,3,4)]) (rule that)
  have "fbr_KeyMayMatch r off key = Some True" if "(off, ks) \<in> D" "key \<in> set ks" for off ks key
  proof -
    let ?i = "unat off div kFilterBase"
    have "?i < length G \<and> set ks \<subseteq> set (G ! ?i) \<or> ?i = length G \<and> set ks \<subseteq> set P"
      using assms(2) that(1) by (auto simp: covered_def Let_def)
    with that(2) have "?i < length G1 \<and> key \<in> set (G1 ! ?i)" by (auto simp: r(2) nth_append)
    with r(3,4) show ?thesis by (simp add: Let_def)
  qed
  moreover have "\<exists>m. fbr_KeyMayMatch r off key = Some m" if "key \<in> valid" for off key
    using answers [OF that] by (simp add: r(4) Let_def)
  ultimately show ?thesis using r(1) by blast
qed

lemma Finish_total: "holds b G P \<Longrightarrow> \<exists>contents b'. fbb_Finish b = Some (contents, b')"
  using GenerateFilter_holds [of b G P] by (auto simp: fbb_Finish_def Let_def)

lemma filter_block_matches:
  assumes "sorted (map fst bs)" and "\<forall>(off, ks) \<in> set bs. set ks \<subseteq> valid"
  shows "\<exists>b contents b'. fbb_blocks (FilterBlockBuilder policy) bs = Some b \<and>
    fbb_Finish b = Some (contents, b') \<and>
    (length contents < 2 ^ 32 \<longrightarrow> (\<exists>r. FilterBlockReader policy contents = Some r \<and>
       (\<forall>(off, ks) \<in> set bs. \<forall>key \<in> set ks. fbr_KeyMayMatch r off key = Some True)))"
proof -
  have "covered {} [] []" by (simp add: covered_def)
  from blocks_hold [OF FilterBlockBuilder_holds this assms(1)] assms(2)
  obtain b G P where b: "fbb_blocks (FilterBlockBuilder policy) bs = Some b" "holds b G P" "covered (set bs) G P"
    by (auto simp: split_beta)
  note Finish_total [OF b(2)]
  then obtain contents b' where f: "fbb_Finish b = Some (contents, b')" by blast
  moreover note Finish_match [OF b(2,3) f]
  ultimately show ?thesis using b(1) by blast
qed

end

end
