(* ===== verification/Ldb_TableBuilder.thy ===== *)
theory Ldb_TableBuilder
  imports Ldb_Format Ldb_FilterBlock Ldb_Log
begin

text \<open>
  The builder of table files, Pods/leveldb-library/table/table_builder.cc.  The file it
  writes to is any \<open>WritableFile\<close>.  None is a failed assertion.
\<close>

section \<open>The state\<close>

record table_options =
  to_comparator :: comparator
  to_block_size :: nat
  to_block_restart_interval :: nat
  to_compression :: CompressionType
  to_filter_policy :: "filter_policy option"
  to_paranoid_checks :: bool

text \<open>The options as util/options.cc sets them, and what the database makes of them (db/db_impl.cc).\<close>

definition Options_init :: table_options where
  "Options_init = \<lparr>to_comparator = BytewiseComparator, to_block_size = 4096, to_block_restart_interval = 16,
     to_compression = kSnappyCompression, to_filter_policy = None, to_paranoid_checks = False\<rparr>"

definition ClipToRange :: "nat \<Rightarrow> nat \<Rightarrow> nat \<Rightarrow> nat" where
  "ClipToRange val minvalue maxvalue =
     (let val = (if val > maxvalue then maxvalue else val) in if val < minvalue then minvalue else val)"

definition SanitizeOptions :: "table_options \<Rightarrow> table_options" where
  "SanitizeOptions src = src\<lparr>to_comparator := InternalKeyComparator (to_comparator src),
     to_filter_policy := map_option InternalFilterPolicy (to_filter_policy src),
     to_block_size := ClipToRange (to_block_size src) (2 ^ 10) (4 * 2 ^ 20)\<rparr>"

definition block_opts :: "table_options \<Rightarrow> block_options" where
  "block_opts o1 = \<lparr>opt_comparator = to_comparator o1, block_restart_interval = to_block_restart_interval o1\<rparr>"

definition index_block_opts :: "table_options \<Rightarrow> block_options" where
  "index_block_opts o1 = (block_opts o1)\<lparr>block_restart_interval := 1\<rparr>"

record 'f table_builder =
  tb_options :: table_options
  tb_file :: 'f
  tb_offset :: u64
  tb_status :: Status
  tb_data_block :: block_builder
  tb_index_block :: block_builder
  tb_last_key :: "byte list"
  tb_num_entries :: int
  tb_closed :: bool
  tb_filter_block :: "filter_block_builder option"
  tb_pending_index_entry :: bool
  tb_pending_handle :: block_handle

definition TableBuilder :: "table_options \<Rightarrow> 'f \<Rightarrow> 'f table_builder option" where
  "TableBuilder options file =
     do { data \<leftarrow> BlockBuilder (block_opts options);
          index \<leftarrow> BlockBuilder (index_block_opts options);
          fb \<leftarrow> (case to_filter_policy options of None \<Rightarrow> Some None
                 | Some p \<Rightarrow> map_option Some (StartBlock (FilterBlockBuilder p) 0));
          Some \<lparr>tb_options = options, tb_file = file, tb_offset = 0, tb_status = OK,
            tb_data_block = data, tb_index_block = index, tb_last_key = [], tb_num_entries = 0,
            tb_closed = False, tb_filter_block = fb, tb_pending_index_entry = False,
            tb_pending_handle = BlockHandle\<rparr> }"

text \<open>
  \<open>same_comparator\<close> is the comparison of the two comparator pointers.  The block builders
  point to the options, so they see the new ones.
\<close>

definition tb_ChangeOptions :: "'f table_builder \<Rightarrow> bool \<Rightarrow> table_options \<Rightarrow> Status \<times> 'f table_builder" where
  "tb_ChangeOptions r same_comparator options =
     (if \<not> same_comparator
      then (InvalidArgument (bytes_of ''changing comparator while building table'') [], r)
      else (OK, r\<lparr>tb_options := options,
        tb_data_block := (tb_data_block r)\<lparr>bb_options := block_opts options\<rparr>,
        tb_index_block := (tb_index_block r)\<lparr>bb_options := index_block_opts options\<rparr>\<rparr>))"

definition tb_ok :: "'f table_builder \<Rightarrow> bool" where
  "tb_ok r \<longleftrightarrow> status_ok (tb_status r)"


section \<open>Writing blocks\<close>

definition WriteRawBlock ::
    "'f wfile \<Rightarrow> 'f table_builder \<Rightarrow> slice \<Rightarrow> CompressionType \<Rightarrow> (block_handle \<times> 'f table_builder) option" where
  "WriteRawBlock ops r block_contents type =
     do { let handle = \<lparr>bh_offset = tb_offset r, bh_size = of_nat (length block_contents)\<rparr>;
          let (s, file) = wf_Append ops (tb_file r) block_contents;
          let r = r\<lparr>tb_status := s, tb_file := file\<rparr>;
          if status_ok s
          then do {
            crc \<leftarrow> crc_Value 0 block_contents;
            crc \<leftarrow> crc_Extend 0 crc [compression_byte type];
            let trailer = [compression_byte type] @ EncodeFixed32 (crc_Mask crc);
            let (s, file) = wf_Append ops (tb_file r) trailer;
            let r = r\<lparr>tb_status := s, tb_file := file\<rparr>;
            Some (handle, if status_ok s
              then r\<lparr>tb_offset := tb_offset r + of_nat (length block_contents + kBlockTrailerSize)\<rparr> else r) }
          else Some (handle, r) }"

text \<open>The handle, the block builder after its \<open>Reset\<close>, and the table builder.\<close>

definition WriteBlock ::
    "'f wfile \<Rightarrow> 'f table_builder \<Rightarrow> block_builder \<Rightarrow> (block_handle \<times> block_builder \<times> 'f table_builder) option" where
  "WriteBlock ops r block =
     (if \<not> tb_ok r then None
      else do {
        let (raw, block) = bb_Finish block;
        let (block_contents, type) =
          (case to_compression (tb_options r) of
             kNoCompression \<Rightarrow> (raw, kNoCompression)
           | kSnappyCompression \<Rightarrow>
               (case Snappy_Compress raw of
                  Some compressed \<Rightarrow>
                    (if length compressed < length raw - length raw div 8
                     then (compressed, kSnappyCompression) else (raw, kNoCompression))
                | None \<Rightarrow> (raw, kNoCompression)));
        (handle, r) \<leftarrow> WriteRawBlock ops r block_contents type;
        Some (handle, bb_Reset block, r) })"

definition tb_Flush :: "'f wfile \<Rightarrow> 'f table_builder \<Rightarrow> 'f table_builder option" where
  "tb_Flush ops r =
     (if tb_closed r then None
      else if \<not> tb_ok r then Some r
      else if bb_empty (tb_data_block r) then Some r
      else if tb_pending_index_entry r then None
      else do {
        (handle, block, r) \<leftarrow> WriteBlock ops r (tb_data_block r);
        let r = r\<lparr>tb_data_block := block, tb_pending_handle := handle\<rparr>;
        let r = (if tb_ok r
                 then (let (s, file) = wf_Flush ops (tb_file r)
                       in r\<lparr>tb_pending_index_entry := True, tb_status := s, tb_file := file\<rparr>)
                 else r);
        case tb_filter_block r of
          None \<Rightarrow> Some r
        | Some fb \<Rightarrow> do { fb \<leftarrow> StartBlock fb (tb_offset r); Some (r\<lparr>tb_filter_block := Some fb\<rparr>) } })"

text \<open>The index entry of the last block, under the separator of its last key and the new key.\<close>

definition emit_index_entry :: "'f table_builder \<Rightarrow> (slice \<Rightarrow> slice option) \<Rightarrow> 'f table_builder option" where
  "emit_index_entry r shorten =
     do { last_key \<leftarrow> shorten (tb_last_key r);
          handle_encoding \<leftarrow> bh_EncodeTo (tb_pending_handle r) [];
          index \<leftarrow> bb_Add (tb_index_block r) last_key handle_encoding;
          Some (r\<lparr>tb_last_key := last_key, tb_index_block := index, tb_pending_index_entry := False\<rparr>) }"

definition tb_Add :: "'f wfile \<Rightarrow> 'f table_builder \<Rightarrow> slice \<Rightarrow> slice \<Rightarrow> 'f table_builder option" where
  "tb_Add ops r key val =
     (if tb_closed r then None
      else if \<not> tb_ok r then Some r
      else do {
        larger \<leftarrow> (if tb_num_entries r > 0
                   then do { x \<leftarrow> Compare (to_comparator (tb_options r)) key (tb_last_key r); Some (x > 0) }
                   else Some True);
        if \<not> larger then None
        else do {
          r \<leftarrow> (if tb_pending_index_entry r
                then if \<not> bb_empty (tb_data_block r) then None
                     else emit_index_entry r (\<lambda>l. FindShortestSeparator (to_comparator (tb_options r)) l key)
                else Some r);
          let r = r\<lparr>tb_filter_block := map_option (\<lambda>fb. AddKey fb key) (tb_filter_block r)\<rparr>;
          let r = r\<lparr>tb_last_key := key, tb_num_entries := tb_num_entries r + 1\<rparr>;
          data \<leftarrow> bb_Add (tb_data_block r) key val;
          let r = r\<lparr>tb_data_block := data\<rparr>;
          if CurrentSizeEstimate (tb_data_block r) \<ge> to_block_size (tb_options r)
          then tb_Flush ops r else Some r } })"


section \<open>Finishing the file\<close>

text \<open>The filter block, when there is a policy: its handle.\<close>

definition write_filter ::
    "'f wfile \<Rightarrow> 'f table_builder \<Rightarrow> (block_handle \<times> 'f table_builder) option" where
  "write_filter ops r =
     (case tb_filter_block r of
        None \<Rightarrow> Some (BlockHandle, r)
      | Some fb \<Rightarrow>
          if tb_ok r
          then do { (contents, fb) \<leftarrow> fbb_Finish fb;
                    WriteRawBlock ops (r\<lparr>tb_filter_block := Some fb\<rparr>) contents kNoCompression }
          else Some (BlockHandle, r))"

definition filter_key :: "filter_policy \<Rightarrow> byte list" where
  "filter_key p = bytes_of ''filter.'' @ bytes_of (fp_Name p)"

definition write_metaindex ::
    "'f wfile \<Rightarrow> 'f table_builder \<Rightarrow> block_handle \<Rightarrow> (block_handle \<times> 'f table_builder) option" where
  "write_metaindex ops r filter_block_handle =
     (if \<not> tb_ok r then Some (BlockHandle, r)
      else do {
        meta \<leftarrow> BlockBuilder (block_opts (tb_options r));
        meta \<leftarrow> (case (tb_filter_block r, to_filter_policy (tb_options r)) of
                  (Some fb, Some p) \<Rightarrow>
                    do { handle_encoding \<leftarrow> bh_EncodeTo filter_block_handle [];
                         bb_Add meta (filter_key p) handle_encoding }
                | (Some fb, None) \<Rightarrow> None
                | (None, _) \<Rightarrow> Some meta);
        (handle, _, r) \<leftarrow> WriteBlock ops r meta;
        Some (handle, r) })"

definition write_index ::
    "'f wfile \<Rightarrow> 'f table_builder \<Rightarrow> (block_handle \<times> 'f table_builder) option" where
  "write_index ops r =
     (if \<not> tb_ok r then Some (BlockHandle, r)
      else do {
        r \<leftarrow> (if tb_pending_index_entry r
              then emit_index_entry r (FindShortSuccessor (to_comparator (tb_options r)))
              else Some r);
        (handle, block, r) \<leftarrow> WriteBlock ops r (tb_index_block r);
        Some (handle, r\<lparr>tb_index_block := block\<rparr>) })"

definition write_footer ::
    "'f wfile \<Rightarrow> 'f table_builder \<Rightarrow> block_handle \<Rightarrow> block_handle \<Rightarrow> 'f table_builder option" where
  "write_footer ops r metaindex index =
     (if \<not> tb_ok r then Some r
      else do {
        footer_encoding \<leftarrow> ft_EncodeTo \<lparr>ft_metaindex_handle = metaindex, ft_index_handle = index\<rparr> [];
        let (s, file) = wf_Append ops (tb_file r) footer_encoding;
        let r = r\<lparr>tb_status := s, tb_file := file\<rparr>;
        Some (if status_ok s then r\<lparr>tb_offset := tb_offset r + of_nat (length footer_encoding)\<rparr> else r) })"

definition tb_Finish :: "'f wfile \<Rightarrow> 'f table_builder \<Rightarrow> (Status \<times> 'f table_builder) option" where
  "tb_Finish ops r =
     do { r \<leftarrow> tb_Flush ops r;
          if tb_closed r then None
          else do {
            let r = r\<lparr>tb_closed := True\<rparr>;
            (filter_block_handle, r) \<leftarrow> write_filter ops r;
            (metaindex_block_handle, r) \<leftarrow> write_metaindex ops r filter_block_handle;
            (index_block_handle, r) \<leftarrow> write_index ops r;
            r \<leftarrow> write_footer ops r metaindex_block_handle index_block_handle;
            Some (tb_status r, r) } }"

definition tb_Abandon :: "'f table_builder \<Rightarrow> 'f table_builder option" where
  "tb_Abandon r = (if tb_closed r then None else Some (r\<lparr>tb_closed := True\<rparr>))"

definition tb_NumEntries :: "'f table_builder \<Rightarrow> u64" where
  "tb_NumEntries r = of_int (tb_num_entries r)"

definition tb_FileSize :: "'f table_builder \<Rightarrow> u64" where
  "tb_FileSize r = tb_offset r"

end
