(* ===== verification/Ldb_Table.thy ===== *)
theory Ldb_Table
  imports Ldb_TableBuilder
begin

text \<open>
  Reading table files: Pods/leveldb-library/table/table.cc, iterator.cc and
  two_level_iterator.cc.  The block cache is not modelled: the functions are those of a table
  whose options have no \<open>block_cache\<close>.  The iterator wrapper only remembers what the wrapped
  iterator answers, and is left out.
\<close>

section \<open>The iterators of blocks\<close>

definition it_Valid :: "block_iterator \<Rightarrow> bool" where
  "it_Valid i = (case i of StatusIterator s \<Rightarrow> False | EntryIterator b \<Rightarrow> bi_Valid b)"

definition it_status :: "block_iterator \<Rightarrow> Status" where
  "it_status i = (case i of StatusIterator s \<Rightarrow> s | EntryIterator b \<Rightarrow> bi_status b)"

definition it_key :: "block_iterator \<Rightarrow> slice option" where
  "it_key i = (case i of StatusIterator s \<Rightarrow> None | EntryIterator b \<Rightarrow> block_key b)"

definition it_value :: "block_iterator \<Rightarrow> slice option" where
  "it_value i = (case i of StatusIterator s \<Rightarrow> None | EntryIterator b \<Rightarrow> block_value b)"

definition it_Seek :: "block_iterator \<Rightarrow> slice \<Rightarrow> block_iterator option" where
  "it_Seek i target = (case i of StatusIterator s \<Rightarrow> Some i | EntryIterator b \<Rightarrow> map_option EntryIterator (bi_Seek b target))"

definition it_SeekToFirst :: "block_iterator \<Rightarrow> block_iterator option" where
  "it_SeekToFirst i = (case i of StatusIterator s \<Rightarrow> Some i | EntryIterator b \<Rightarrow> map_option EntryIterator (bi_SeekToFirst b))"

definition it_SeekToLast :: "block_iterator \<Rightarrow> block_iterator option" where
  "it_SeekToLast i = (case i of StatusIterator s \<Rightarrow> Some i | EntryIterator b \<Rightarrow> map_option EntryIterator (bi_SeekToLast b))"

definition it_Next :: "block_iterator \<Rightarrow> block_iterator option" where
  "it_Next i = (case i of StatusIterator s \<Rightarrow> None | EntryIterator b \<Rightarrow> map_option EntryIterator (bi_Next b))"

definition it_Prev :: "block_iterator \<Rightarrow> block_iterator option" where
  "it_Prev i = (case i of StatusIterator s \<Rightarrow> None | EntryIterator b \<Rightarrow> map_option EntryIterator (bi_Prev b))"


section \<open>Tables\<close>

record 'f table =
  t_options :: table_options
  t_file :: 'f
  t_filter :: "filter_block_reader option"
  t_metaindex_handle :: block_handle
  t_index_block :: block

definition t_ReadFilter :: "'f rafile \<Rightarrow> 'f table \<Rightarrow> slice \<Rightarrow> 'f table option" where
  "t_ReadFilter ops t filter_handle_value =
     (let (s, filter_handle, _) = bh_DecodeFrom BlockHandle filter_handle_value
      in if \<not> status_ok s then Some t
         else do {
           (s, block) \<leftarrow> ReadBlock ops (t_file t) (to_paranoid_checks (t_options t)) filter_handle;
           if \<not> status_ok s then Some t
           else do { p \<leftarrow> to_filter_policy (t_options t);
                     r \<leftarrow> FilterBlockReader p (bc_data block);
                     Some (t\<lparr>t_filter := Some r\<rparr>) } })"

definition t_ReadMeta :: "'f rafile \<Rightarrow> 'f table \<Rightarrow> footer \<Rightarrow> 'f table option" where
  "t_ReadMeta ops t ft =
     (case to_filter_policy (t_options t) of
        None \<Rightarrow> Some t
      | Some p \<Rightarrow>
          do { (s, contents) \<leftarrow> ReadBlock ops (t_file t) (to_paranoid_checks (t_options t)) (ft_metaindex_handle ft);
               if \<not> status_ok s then Some t
               else do {
                 meta \<leftarrow> Block (bc_data contents);
                 it \<leftarrow> blk_NewIterator meta BytewiseComparator;
                 it \<leftarrow> it_Seek it (filter_key p);
                 if it_Valid it
                 then do { k \<leftarrow> it_key it;
                           if slice_eq k (filter_key p)
                           then do { v \<leftarrow> it_value it; t_ReadFilter ops t v } else Some t }
                 else Some t } })"

definition Table_Open ::
    "'f rafile \<Rightarrow> table_options \<Rightarrow> 'f \<Rightarrow> nat \<Rightarrow> (Status \<times> 'f table option) option" where
  "Table_Open ops options file sz =
     (if sz < kEncodedLength then Some (corruption ''file is too short to be an sstable'', None)
      else (let (s, footer_input, _) = ra_Read ops file (of_nat (sz - kEncodedLength)) kEncodedLength
            in if \<not> status_ok s then Some (s, None)
               else do {
                 (s, ft, _) \<leftarrow> ft_DecodeFrom \<lparr>ft_metaindex_handle = BlockHandle, ft_index_handle = BlockHandle\<rparr>
                   footer_input;
                 if \<not> status_ok s then Some (s, None)
                 else do {
                   (s, contents) \<leftarrow> ReadBlock ops file (to_paranoid_checks options) (ft_index_handle ft);
                   if \<not> status_ok s then Some (s, None)
                   else do {
                     index_block \<leftarrow> Block (bc_data contents);
                     t \<leftarrow> t_ReadMeta ops \<lparr>t_options = options, t_file = file, t_filter = None,
                       t_metaindex_handle = ft_metaindex_handle ft, t_index_block = index_block\<rparr> ft;
                     Some (s, Some t) } } }))"

definition t_BlockReader :: "'f rafile \<Rightarrow> 'f table \<Rightarrow> bool \<Rightarrow> slice \<Rightarrow> block_iterator option" where
  "t_BlockReader ops t verify_checksums index_value =
     (let (s, handle, _) = bh_DecodeFrom BlockHandle index_value
      in if \<not> status_ok s then Some (StatusIterator s)
         else do {
           (s, contents) \<leftarrow> ReadBlock ops (t_file t) verify_checksums handle;
           if \<not> status_ok s then Some (StatusIterator s)
           else do { b \<leftarrow> Block (bc_data contents);
                     blk_NewIterator b (to_comparator (t_options t)) } })"

text \<open>
  \<open>InternalGet\<close>: the status and the key and value that \<open>saver\<close> is called with, if it is.
\<close>

definition t_InternalGet ::
    "'f rafile \<Rightarrow> 'f table \<Rightarrow> bool \<Rightarrow> slice \<Rightarrow> (Status \<times> (slice \<times> slice) option) option" where
  "t_InternalGet ops t verify_checksums k =
     do { iiter \<leftarrow> blk_NewIterator (t_index_block t) (to_comparator (t_options t));
          iiter \<leftarrow> it_Seek iiter k;
          if it_Valid iiter
          then do {
            handle_value \<leftarrow> it_value iiter;
            may_match \<leftarrow> (case t_filter t of None \<Rightarrow> Some True
              | Some f \<Rightarrow> (let (s, handle, _) = bh_DecodeFrom BlockHandle handle_value
                          in if status_ok s then fbr_KeyMayMatch f (bh_offset handle) k else Some True));
            if \<not> may_match then Some (it_status iiter, None)
            else do {
              block_iter \<leftarrow> t_BlockReader ops t verify_checksums handle_value;
              block_iter \<leftarrow> it_Seek block_iter k;
              saved \<leftarrow> (if it_Valid block_iter
                then do { sk \<leftarrow> it_key block_iter; v \<leftarrow> it_value block_iter; Some (Some (sk, v)) }
                else Some None);
              let s = it_status block_iter;
              Some (if status_ok s then it_status iiter else s, saved) } }
          else Some (it_status iiter, None) }"

definition t_ApproximateOffsetOf :: "'f table \<Rightarrow> slice \<Rightarrow> u64 option" where
  "t_ApproximateOffsetOf t key =
     do { index_iter \<leftarrow> blk_NewIterator (t_index_block t) (to_comparator (t_options t));
          index_iter \<leftarrow> it_Seek index_iter key;
          if it_Valid index_iter
          then do { input \<leftarrow> it_value index_iter;
                    let (s, handle, _) = bh_DecodeFrom BlockHandle input;
                    Some (if status_ok s then bh_offset handle else bh_offset (t_metaindex_handle t)) }
          else Some (bh_offset (t_metaindex_handle t)) }"


section \<open>The two-level iterator\<close>

record two_level =
  tl_block_function :: "slice \<Rightarrow> block_iterator option"
  tl_status :: Status
  tl_index :: block_iterator
  tl_data :: "block_iterator option"
  tl_handle :: "byte list"

definition NewTwoLevelIterator :: "block_iterator \<Rightarrow> (slice \<Rightarrow> block_iterator option) \<Rightarrow> two_level" where
  "NewTwoLevelIterator index_iter block_function =
     \<lparr>tl_block_function = block_function, tl_status = OK, tl_index = index_iter, tl_data = None, tl_handle = []\<rparr>"

definition tl_Valid :: "two_level \<Rightarrow> bool" where
  "tl_Valid t = (case tl_data t of None \<Rightarrow> False | Some d \<Rightarrow> it_Valid d)"

definition tl_key :: "two_level \<Rightarrow> slice option" where
  "tl_key t = (if tl_Valid t then Option.bind (tl_data t) it_key else None)"

definition tl_value :: "two_level \<Rightarrow> slice option" where
  "tl_value t = (if tl_Valid t then Option.bind (tl_data t) it_value else None)"

definition tl_get_status :: "two_level \<Rightarrow> Status" where
  "tl_get_status t =
     (if \<not> status_ok (it_status (tl_index t)) then it_status (tl_index t)
      else case tl_data t of
             Some d \<Rightarrow> if \<not> status_ok (it_status d) then it_status d else tl_status t
           | None \<Rightarrow> tl_status t)"

definition tl_SaveError :: "two_level \<Rightarrow> Status \<Rightarrow> two_level" where
  "tl_SaveError t s = (if status_ok (tl_status t) \<and> \<not> status_ok s then t\<lparr>tl_status := s\<rparr> else t)"

definition SetDataIterator :: "two_level \<Rightarrow> block_iterator option \<Rightarrow> two_level" where
  "SetDataIterator t data_iter =
     (case tl_data t of None \<Rightarrow> t | Some d \<Rightarrow> tl_SaveError t (it_status d))\<lparr>tl_data := data_iter\<rparr>"

definition InitDataBlock :: "two_level \<Rightarrow> two_level option" where
  "InitDataBlock t =
     (if \<not> it_Valid (tl_index t) then Some (SetDataIterator t None)
      else do {
        handle \<leftarrow> it_value (tl_index t);
        if (case tl_data t of None \<Rightarrow> False | Some d \<Rightarrow> slice_compare handle (tl_handle t) = 0) then Some t
        else do { it \<leftarrow> tl_block_function t handle;
                  Some (SetDataIterator (t\<lparr>tl_handle := handle\<rparr>) (Some it)) } })"

text \<open>An operation on the data iterator, when there is one.\<close>

definition with_data :: "(block_iterator \<Rightarrow> block_iterator option) \<Rightarrow> two_level \<Rightarrow> two_level option" where
  "with_data f t =
     (case tl_data t of None \<Rightarrow> Some t
      | Some d \<Rightarrow> do { d \<leftarrow> f d; Some (t\<lparr>tl_data := Some d\<rparr>) })"

partial_function (option) SkipEmptyDataBlocksForward :: "two_level \<Rightarrow> two_level option" where
  "SkipEmptyDataBlocksForward t =
     (if tl_Valid t then Some t
      else if \<not> it_Valid (tl_index t) then Some (SetDataIterator t None)
      else do { i \<leftarrow> it_Next (tl_index t);
                t \<leftarrow> InitDataBlock (t\<lparr>tl_index := i\<rparr>);
                t \<leftarrow> with_data it_SeekToFirst t;
                SkipEmptyDataBlocksForward t })"

partial_function (option) SkipEmptyDataBlocksBackward :: "two_level \<Rightarrow> two_level option" where
  "SkipEmptyDataBlocksBackward t =
     (if tl_Valid t then Some t
      else if \<not> it_Valid (tl_index t) then Some (SetDataIterator t None)
      else do { i \<leftarrow> it_Prev (tl_index t);
                t \<leftarrow> InitDataBlock (t\<lparr>tl_index := i\<rparr>);
                t \<leftarrow> with_data it_SeekToLast t;
                SkipEmptyDataBlocksBackward t })"

definition tl_Seek :: "two_level \<Rightarrow> slice \<Rightarrow> two_level option" where
  "tl_Seek t target =
     do { i \<leftarrow> it_Seek (tl_index t) target;
          t \<leftarrow> InitDataBlock (t\<lparr>tl_index := i\<rparr>);
          t \<leftarrow> with_data (\<lambda>d. it_Seek d target) t;
          SkipEmptyDataBlocksForward t }"

definition tl_SeekToFirst :: "two_level \<Rightarrow> two_level option" where
  "tl_SeekToFirst t =
     do { i \<leftarrow> it_SeekToFirst (tl_index t);
          t \<leftarrow> InitDataBlock (t\<lparr>tl_index := i\<rparr>);
          t \<leftarrow> with_data it_SeekToFirst t;
          SkipEmptyDataBlocksForward t }"

definition tl_SeekToLast :: "two_level \<Rightarrow> two_level option" where
  "tl_SeekToLast t =
     do { i \<leftarrow> it_SeekToLast (tl_index t);
          t \<leftarrow> InitDataBlock (t\<lparr>tl_index := i\<rparr>);
          t \<leftarrow> with_data it_SeekToLast t;
          SkipEmptyDataBlocksBackward t }"

definition tl_Next :: "two_level \<Rightarrow> two_level option" where
  "tl_Next t =
     (if tl_Valid t then do { t \<leftarrow> with_data it_Next t; SkipEmptyDataBlocksForward t } else None)"

definition tl_Prev :: "two_level \<Rightarrow> two_level option" where
  "tl_Prev t =
     (if tl_Valid t then do { t \<leftarrow> with_data it_Prev t; SkipEmptyDataBlocksBackward t } else None)"

definition t_NewIterator :: "'f rafile \<Rightarrow> 'f table \<Rightarrow> bool \<Rightarrow> two_level option" where
  "t_NewIterator ops t verify_checksums =
     do { i \<leftarrow> blk_NewIterator (t_index_block t) (to_comparator (t_options t));
          Some (NewTwoLevelIterator i (t_BlockReader ops t verify_checksums)) }"

end
