(* ===== verification/Ldb_TableSpec.thy ===== *)
theory Ldb_TableSpec
  imports Ldb_Table Ldb_BlockIter
begin

text \<open>
  Writing a block into a file that has a capacity: a write that does not fit fails with an
  I/O error, as on a full disk.  What was written is where its handle says, and is read back.
\<close>

section \<open>A file with a capacity\<close>

definition cap_wfile :: "nat \<Rightarrow> byte list wfile" where
  "cap_wfile cap =
     \<lparr>wf_Append = (\<lambda>f bs. if length f + length bs \<le> cap then (OK, f @ bs)
                         else (IOError (bytes_of ''no space'') [], f)),
      wf_Flush = (\<lambda>f. (OK, f))\<rparr>"

lemma status_ok_simps [simp]: "status_ok OK" "\<not> status_ok (IOError a b)"
  by (simp_all add: status_ok_def OK_def IOError_def make_Status_def Let_def)

definition placed :: "byte list \<Rightarrow> block_handle \<Rightarrow> byte list \<Rightarrow> bool" where
  "placed F h contents \<longleftrightarrow> (\<exists>pre post. F = pre @ framed contents @ post \<and>
     unat (bh_offset h) = length pre \<and> unat (bh_size h) = length contents)"

lemma placed_append: "placed F h contents \<Longrightarrow> placed (F @ x) h contents"
  unfolding placed_def append_assoc [symmetric] by (metis append_assoc)

lemma placed_length: "placed F h contents \<Longrightarrow> length contents + 5 \<le> length F"
  by (auto simp: placed_def)

lemma ReadBlock_placed:
  assumes "placed F h contents" and "length F < 2 ^ 32"
  shows "ReadBlock mem_rafile F verify h =
    Some (OK, \<lparr>bc_data = contents, bc_cachable = True, bc_heap_allocated = True\<rparr>)"
proof -
  have "length contents + 5 < SIZE_MOD" using placed_length [OF assms(1)] assms(2) by (simp add: SIZE_MOD_def)
  with assms(1) show ?thesis by (auto simp: placed_def intro: ReadBlock_framed)
qed

definition handle_at :: "byte list \<Rightarrow> byte list \<Rightarrow> block_handle" where
  "handle_at F contents = \<lparr>bh_offset = of_nat (length F), bh_size = of_nat (length contents)\<rparr>"

lemma small_nat64: "n < 2 ^ 32 \<Longrightarrow> unat (of_nat n :: u64) = n \<and> (of_nat n :: u64) \<noteq> NOT 0"
proof -
  assume n: "n < 2 ^ 32"
  then have u: "unat (of_nat n :: u64) = n" by (simp add: unat_of_nat)
  moreover have "(NOT 0 :: u64) = 0xFFFFFFFFFFFFFFFF" by simp
  then have "unat (NOT 0 :: u64) = 0xFFFFFFFFFFFFFFFF" by (simp only: unat_numeral) simp
  ultimately show ?thesis using n by force
qed

lemma handle_at_placed:
  assumes "length F + length contents < 2 ^ 32"
  shows "placed (F @ framed contents) (handle_at F contents) contents" "handle_ok (handle_at F contents)"
proof -
  note small = small_nat64 [of "length F"] small_nat64 [of "length contents"]
  have "F @ framed contents = F @ framed contents @ []" by simp
  moreover have "unat (bh_offset (handle_at F contents)) = length F" "unat (bh_size (handle_at F contents)) = length contents"
    using assms small by (simp_all add: handle_at_def)
  ultimately show "placed (F @ framed contents) (handle_at F contents) contents"
    unfolding placed_def by blast
  show "handle_ok (handle_at F contents)" using assms small by (simp add: handle_at_def handle_ok_def)
qed


section \<open>Writing one block\<close>

lemma framed_crc:
  "\<exists>crc. crc_Value 0 contents = Some crc \<and>
    crc_Extend 0 crc [0] = Some (crc32c (contents @ [0])) \<and>
    framed contents = contents @ [0] @ EncodeFixed32 (crc_Mask (crc32c (contents @ [0])))"
  by (simp add: crc_Value_spec crc_Extend_append framed_def)

definition at_offset :: "byte list table_builder \<Rightarrow> bool" where
  "at_offset r \<longleftrightarrow> tb_offset r = of_nat (length (tb_file r))"

lemma WriteRawBlock_cap:
  assumes "at_offset r"
  shows "\<exists>h r'. WriteRawBlock (cap_wfile cap) r contents kNoCompression = Some (h, r') \<and>
    (if length (tb_file r @ framed contents) \<le> cap
     then r' = r\<lparr>tb_status := OK, tb_file := tb_file r @ framed contents,
            tb_offset := of_nat (length (tb_file r @ framed contents))\<rparr> \<and> h = handle_at (tb_file r) contents
     else \<not> tb_ok r' \<and> (\<exists>s f. r' = r\<lparr>tb_status := s, tb_file := f\<rparr>))"
proof -
  obtain crc where crc: "crc_Value 0 contents = Some crc" "crc_Extend 0 crc [0] = Some (crc32c (contents @ [0]))"
    "framed contents = contents @ [0] @ EncodeFixed32 (crc_Mask (crc32c (contents @ [0])))"
    using framed_crc by blast
  let ?f = "tb_file r" and ?e = "IOError (bytes_of ''no space'') []"
  consider "cap < length ?f + length contents"
    | "length ?f + length contents \<le> cap" "cap < length ?f + length contents + 5"
    | "length ?f + length contents + 5 \<le> cap" by linarith
  then show ?thesis
  proof cases
    case 1
    then have "WriteRawBlock (cap_wfile cap) r contents kNoCompression =
        Some (handle_at ?f contents, r\<lparr>tb_status := ?e, tb_file := ?f\<rparr>)"
      using assms by (simp add: WriteRawBlock_def cap_wfile_def handle_at_def at_offset_def)
    moreover have "\<not> tb_ok (r\<lparr>tb_status := ?e, tb_file := ?f\<rparr>)" by (simp add: tb_ok_def)
    moreover have "\<not> length (?f @ framed contents) \<le> cap" using 1 by simp
    ultimately show ?thesis by metis
  next
    case 2
    then have "WriteRawBlock (cap_wfile cap) r contents kNoCompression =
        Some (handle_at ?f contents, r\<lparr>tb_status := ?e, tb_file := ?f @ contents\<rparr>)"
      using assms crc(1,2)
      by (simp add: WriteRawBlock_def cap_wfile_def handle_at_def at_offset_def compression_byte_def)
    moreover have "\<not> tb_ok (r\<lparr>tb_status := ?e, tb_file := ?f @ contents\<rparr>)" by (simp add: tb_ok_def)
    moreover have "\<not> length (?f @ framed contents) \<le> cap" using 2 by simp
    ultimately show ?thesis by metis
  next
    case 3
    then have "WriteRawBlock (cap_wfile cap) r contents kNoCompression =
        Some (handle_at ?f contents, r\<lparr>tb_status := OK, tb_file := ?f @ framed contents,
          tb_offset := of_nat (length (?f @ framed contents))\<rparr>)"
      using assms crc
      by (simp add: WriteRawBlock_def cap_wfile_def handle_at_def at_offset_def compression_byte_def kBlockTrailerSize_def)
    with 3 show ?thesis by simp
  qed
qed

lemma WriteBlock_cap:
  assumes "at_offset r" and "tb_ok r"
  shows "\<exists>h r'. WriteBlock (cap_wfile cap) r block = Some (h, bb_Reset (snd (bb_Finish block)), r') \<and>
    (let contents = fst (bb_Finish block) in
     if length (tb_file r @ framed contents) \<le> cap
     then r' = r\<lparr>tb_status := OK, tb_file := tb_file r @ framed contents,
            tb_offset := of_nat (length (tb_file r @ framed contents))\<rparr> \<and> h = handle_at (tb_file r) contents
     else \<not> tb_ok r' \<and> (\<exists>s f. r' = r\<lparr>tb_status := s, tb_file := f\<rparr>))"
proof -
  let ?c = "fst (bb_Finish block)"
  obtain h r' where w: "WriteRawBlock (cap_wfile cap) r ?c kNoCompression = Some (h, r')"
    "if length (tb_file r @ framed ?c) \<le> cap
     then r' = r\<lparr>tb_status := OK, tb_file := tb_file r @ framed ?c,
            tb_offset := of_nat (length (tb_file r @ framed ?c))\<rparr> \<and> h = handle_at (tb_file r) ?c
     else \<not> tb_ok r' \<and> (\<exists>s f. r' = r\<lparr>tb_status := s, tb_file := f\<rparr>)"
    using WriteRawBlock_cap [OF assms(1)] by blast
  have "WriteBlock (cap_wfile cap) r block = Some (h, bb_Reset (snd (bb_Finish block)), r')"
    using assms(2) w(1)
    by (cases "to_compression (tb_options r)") (simp_all add: WriteBlock_def Snappy_Compress_def split_beta Let_def)
  with w(2) show ?thesis unfolding Let_def by blast
qed

lemma Reset_Finish_holds:
  "bb_holds b kvs \<Longrightarrow> bb_holds (bb_Reset (snd (bb_Finish b))) [] \<and>
    bb_options (bb_Reset (snd (bb_Finish b))) = bb_options b"
  using bb_Reset_holds [of b kvs]
  by (simp add: bb_Finish_def bb_Reset_def bb_holds_def restarts_of_def Let_def)

lemma WriteBlock_fits:
  assumes "at_offset r" and "tb_ok r" and "length (tb_file r) + length (fst (bb_Finish block)) + 5 \<le> cap"
  shows "WriteBlock (cap_wfile cap) r block = Some (handle_at (tb_file r) (fst (bb_Finish block)),
    bb_Reset (snd (bb_Finish block)), r\<lparr>tb_status := OK, tb_file := tb_file r @ framed (fst (bb_Finish block)),
      tb_offset := of_nat (length (tb_file r @ framed (fst (bb_Finish block))))\<rparr>)"
  using WriteBlock_cap [OF assms(1,2), of cap block] assms(3) unfolding Let_def by auto

end
