(* ===== verification/Ldb_TableBuild.thy ===== *)
theory Ldb_TableBuild
  imports Ldb_TableSpec
begin

text \<open>
  The table builder against an abstract view of the file: a list of data blocks with their
  separators and handles.  The builder returns in every case; when its status is OK, the file
  has the layout from which a table reads every key back (Ldb_TableRead).
\<close>

section \<open>The contract between a table and its options\<close>

locale table_contract = separating c valid for c :: comparator and valid :: "slice set" +
  fixes opts :: table_options and cap :: nat
  assumes comparator: "to_comparator opts = c"
    and interval: "1 \<le> to_block_restart_interval opts"
    and filter_sound: "to_filter_policy opts = Some p \<Longrightarrow> sound_filter p valid"
    and small_file: "cap < 2 ^ 32"

text \<open>
  A data block in the file: its separator in the index, its handle and its pairs.
\<close>

type_synonym data_block = "slice \<times> block_handle \<times> (slice \<times> slice) list"

definition index_pair :: "data_block \<Rightarrow> slice \<times> slice" where
  "index_pair d = (fst d, handle_bytes (fst (snd d)))"

definition block_pairs :: "data_block \<Rightarrow> (slice \<times> slice) list" where
  "block_pairs d = snd (snd d)"

definition block_keys :: "data_block \<Rightarrow> slice set" where
  "block_keys d = fst ` set (block_pairs d)"

definition stored :: "nat \<Rightarrow> byte list \<Rightarrow> block_handle \<Rightarrow> (slice \<times> slice) list \<Rightarrow> bool" where
  "stored r F h kvs \<longleftrightarrow> kvs \<noteq> [] \<and> handle_ok h \<and> placed F h (block_bytes r kvs)"

lemma stored_append: "stored r F h kvs \<Longrightarrow> stored r (F @ x) h kvs"
  by (simp add: stored_def placed_append)

definition all_pairs :: "data_block list \<Rightarrow> (slice \<times> slice) list \<Rightarrow> (slice \<times> slice) list" where
  "all_pairs ds rest = concat (map block_pairs ds) @ rest"

lemma all_pairs_snoc [simp]: "all_pairs (ds @ [(t, h, kvs)]) rest = all_pairs ds (kvs @ rest)"
  by (simp add: all_pairs_def block_pairs_def)

lemma all_pairs_append: "all_pairs ds (rest @ kvs) = all_pairs ds rest @ kvs"
  by (simp add: all_pairs_def)

text \<open>The keys of the blocks with the offsets under which the filter is asked.\<close>

definition filter_entries :: "data_block list \<Rightarrow> (u64 \<times> slice list) set" where
  "filter_entries ds = (\<lambda>d. (bh_offset (fst (snd d)), map fst (block_pairs d))) ` set ds"

lemma filter_entries_snoc [simp]:
  "filter_entries (ds @ [(t, h, kvs)]) = insert (bh_offset h, map fst kvs) (filter_entries ds)"
  "filter_entries [] = {}"
  by (auto simp: filter_entries_def block_pairs_def)

context table_contract
begin

lemma before_lt [simp]: "before c a b \<longleftrightarrow> lt a b"
  by (simp add: lt_def)

text \<open>
  A separator is not smaller than the keys of its block and smaller than those of the blocks
  behind it and of the pairs that follow the blocks.
\<close>

definition separated :: "data_block list \<Rightarrow> slice set \<Rightarrow> bool" where
  "separated ds rest \<longleftrightarrow>
     (\<forall>d \<in> set ds. fst d \<in> valid \<and> (\<forall>k \<in> block_keys d. le k (fst d)) \<and> (\<forall>k \<in> rest. lt (fst d) k)) \<and>
     sorted_wrt (\<lambda>d d'. \<forall>k \<in> block_keys d'. lt (fst d) k) ds"

lemma separated_snoc:
  assumes "separated ds (fst ` set kvs)" and "t \<in> valid" and "fst ` set kvs \<subseteq> valid" and "rest \<subseteq> valid"
    and "\<forall>k \<in> fst ` set kvs. le k t" and "\<forall>k \<in> rest. lt t k" and "kvs \<noteq> []"
  shows "separated (ds @ [(t, h, kvs)]) rest"
proof -
  obtain k0 where k0: "k0 \<in> fst ` set kvs" using assms(7) by (cases kvs) auto
  have "lt (fst d) k" if "d \<in> set ds" "k \<in> rest" for d k
  proof -
    have "lt (fst d) k0" "le k0 t" "lt t k" using assms(1,5,6) that k0 by (auto simp: separated_def)
    moreover have "fst d \<in> valid" using assms(1) that(1) by (simp add: separated_def)
    moreover have "k0 \<in> valid" "k \<in> valid" using assms(3,4) k0 that(2) by auto
    ultimately show ?thesis using lt_le_trans lt_trans assms(2) by blast
  qed
  with assms show ?thesis by (auto simp: separated_def sorted_wrt_append block_keys_def block_pairs_def)
qed

lemma separated_rest: "separated ds rest \<Longrightarrow> \<forall>d \<in> set ds. \<forall>k \<in> rest'. lt (fst d) k \<Longrightarrow> separated ds rest'"
  by (auto simp: separated_def)


section \<open>The filter of the builder\<close>

definition filter_inv :: "filter_block_builder option \<Rightarrow> u64 \<Rightarrow> (u64 \<times> slice list) set \<Rightarrow> bool" where
  "filter_inv fb off D \<longleftrightarrow>
     (case to_filter_policy opts of None \<Rightarrow> fb = None
      | Some p \<Rightarrow> \<exists>f G P. fb = Some f \<and> sound_filter.holds p valid f G P \<and>
          sound_filter.covered D G P \<and> length G = unat off div kFilterBase)"

lemma filter_start:
  assumes "filter_inv fb off D" and "unat off \<le> unat off'"
  shows "\<exists>fb'. (case fb of None \<Rightarrow> Some None | Some f \<Rightarrow> map_option Some (StartBlock f off')) = Some fb' \<and>
    filter_inv fb' off' D"
proof (cases "to_filter_policy opts")
  case None
  with assms(1) show ?thesis by (simp add: filter_inv_def)
next
  case (Some p)
  note sf = filter_sound [OF Some]
  obtain f G P where f: "fb = Some f" "sound_filter.holds p valid f G P" "sound_filter.covered D G P"
    "length G = unat off div kFilterBase" using assms(1) Some by (auto simp: filter_inv_def)
  have "length G \<le> unat off' div kFilterBase" using f(4) assms(2) by (simp add: div_le_mono)
  with sound_filter.StartBlock_holds [OF sf f(2)] f(1,3) Some show ?thesis
    by (fastforce simp: filter_inv_def)
qed

lemma filter_add:
  assumes "filter_inv fb off (insert (off, ks) D)" and "key \<in> valid"
  shows "filter_inv (map_option (\<lambda>f. AddKey f key) fb) off (insert (off, ks @ [key]) D)"
proof (cases "to_filter_policy opts")
  case None
  with assms(1) show ?thesis by (simp add: filter_inv_def)
next
  case (Some p)
  note sf = filter_sound [OF Some]
  obtain f G P where f: "fb = Some f" "sound_filter.holds p valid f G P" "sound_filter.covered (insert (off, ks) D) G P"
    "length G = unat off div kFilterBase" using assms(1) Some by (auto simp: filter_inv_def)
  have "sound_filter.covered (insert (off, ks @ [key]) D) G (P @ [key])"
    using f(3,4) by (auto simp: sound_filter.covered_def [OF sf] Let_def)
  with sound_filter.AddKey_holds [OF sf f(2) assms(2)] f(1,4) Some show ?thesis
    by (auto simp: filter_inv_def)
qed

lemma filter_open:
  assumes "filter_inv fb off D"
  shows "filter_inv fb off (insert (off, []) D)"
proof (cases "to_filter_policy opts")
  case (Some p)
  obtain f G P where f: "fb = Some f" "sound_filter.holds p valid f G P" "sound_filter.covered D G P"
    "length G = unat off div kFilterBase" using assms Some by (auto simp: filter_inv_def)
  from sound_filter.covered_add [OF filter_sound [OF Some] f(3,4), of "[]"]
  have "sound_filter.covered (insert (off, []) D) G P" by simp
  with f Some show ?thesis by (auto simp: filter_inv_def)
qed (use assms in \<open>simp add: filter_inv_def\<close>)


section \<open>The invariant\<close>

text \<open>
  The pairs that are not in an indexed block: a block that is written but not indexed
  (\<open>pend\<close>), or the pairs in the block that is being built (\<open>cur\<close>).
\<close>

definition rest_pairs :: "(block_handle \<times> (slice \<times> slice) list) option \<Rightarrow> (slice \<times> slice) list \<Rightarrow> (slice \<times> slice) list" where
  "rest_pairs pend cur = (case pend of None \<Rightarrow> cur | Some (h, kvs) \<Rightarrow> kvs)"

definition open_entry :: "u64 \<Rightarrow> (block_handle \<times> (slice \<times> slice) list) option \<Rightarrow> (slice \<times> slice) list \<Rightarrow> u64 \<times> slice list" where
  "open_entry off pend cur = (case pend of None \<Rightarrow> (off, map fst cur) | Some (h, kvs) \<Rightarrow> (bh_offset h, map fst kvs))"

abbreviation interval_of :: nat where
  "interval_of \<equiv> to_block_restart_interval opts"

definition tb_inv ::
    "byte list table_builder \<Rightarrow> data_block list \<Rightarrow> (block_handle \<times> (slice \<times> slice) list) option \<Rightarrow>
     (slice \<times> slice) list \<Rightarrow> bool" where
  "tb_inv b ds pend cur \<longleftrightarrow>
     tb_options b = opts \<and> tb_status b = OK \<and> \<not> tb_closed b \<and> length (tb_file b) \<le> cap \<and> at_offset b \<and>
     bb_options (tb_data_block b) = block_opts opts \<and> bb_holds (tb_data_block b) cur \<and>
     bb_options (tb_index_block b) = index_block_opts opts \<and> bb_holds (tb_index_block b) (map index_pair ds) \<and>
     tb_pending_index_entry b = (pend \<noteq> None) \<and>
     (\<forall>h kvs. pend = Some (h, kvs) \<longrightarrow> cur = [] \<and> tb_pending_handle b = h \<and> stored interval_of (tb_file b) h kvs) \<and>
     (\<forall>d \<in> set ds. stored interval_of (tb_file b) (fst (snd d)) (block_pairs d)) \<and>
     sorted_pairs c valid (all_pairs ds (rest_pairs pend cur)) \<and>
     separated ds (fst ` set (rest_pairs pend cur)) \<and>
     filter_inv (tb_filter_block b) (tb_offset b) (insert (open_entry (tb_offset b) pend cur) (filter_entries ds))"

definition last_inv :: "byte list table_builder \<Rightarrow> (slice \<times> slice) list \<Rightarrow> bool" where
  "last_inv b kvs \<longleftrightarrow> tb_num_entries b = int (length kvs) \<and> (kvs \<noteq> [] \<longrightarrow> tb_last_key b = fst (last kvs))"

lemma flush_step:
  assumes inv: "tb_inv b ds None cur" and "cur \<noteq> []"
  shows "\<exists>b'. tb_Flush (cap_wfile cap) b = Some b' \<and> \<not> tb_closed b' \<and>
    (tb_ok b' \<longrightarrow> (\<exists>h. tb_inv b' ds (Some (h, cur)) [] \<and> tb_last_key b' = tb_last_key b \<and>
       tb_num_entries b' = tb_num_entries b))"
proof -
  let ?db = "tb_data_block b" and ?F = "tb_file b"
  let ?bytes = "block_bytes interval_of cur"
  have ok: "tb_ok b" "at_offset b" "\<not> tb_closed b" "\<not> tb_pending_index_entry b" "bb_holds ?db cur"
    using inv by (auto simp: tb_inv_def tb_ok_def)
  have fin: "fst (bb_Finish ?db) = ?bytes"
    using bb_Finish_holds [OF ok(5)] inv by (simp add: tb_inv_def block_opts_def)
  have ne: "\<not> bb_empty ?db" using ok(5) assms(2) by (simp add: bb_empty_def bb_holds_def Let_def)
  obtain h r where w: "WriteBlock (cap_wfile cap) b ?db = Some (h, bb_Reset (snd (bb_Finish ?db)), r)"
    "if length (?F @ framed ?bytes) \<le> cap
     then r = b\<lparr>tb_status := OK, tb_file := ?F @ framed ?bytes,
            tb_offset := of_nat (length (?F @ framed ?bytes))\<rparr> \<and> h = handle_at ?F ?bytes
     else \<not> tb_ok r \<and> (\<exists>s f. r = b\<lparr>tb_status := s, tb_file := f\<rparr>)"
    using WriteBlock_cap [OF ok(2,1), of cap ?db] unfolding Let_def fin by blast
  define D where "D = insert (open_entry (tb_offset b) None cur) (filter_entries ds)"
  have filter: "filter_inv (tb_filter_block b) (tb_offset b) D" using inv by (simp add: tb_inv_def D_def)
  show ?thesis
  proof (cases "length (?F @ framed ?bytes) \<le> cap")
    case False
    with w(2) obtain s f where r: "r = b\<lparr>tb_status := s, tb_file := f\<rparr>" "\<not> status_ok s" by (auto simp: tb_ok_def)
    obtain fb' where fb': "(case tb_filter_block b of None \<Rightarrow> Some None | Some f \<Rightarrow> map_option Some (StartBlock f (tb_offset b))) = Some fb'"
      using filter_start [OF filter order_refl] by blast
    then show ?thesis
      using ok ne w(1) r by (cases "tb_filter_block b") (auto simp: tb_Flush_def tb_ok_def Let_def)
  next
    case True
    let ?F' = "?F @ framed ?bytes"
    from True w(2) have r: "r = b\<lparr>tb_status := OK, tb_file := ?F', tb_offset := of_nat (length ?F')\<rparr>" "h = handle_at ?F ?bytes"
      by auto
    have small: "length ?F' < 2 ^ 32" using True small_file by simp
    then have sz: "unat (of_nat (length ?F) :: u64) = length ?F" "unat (of_nat (length ?F') :: u64) = length ?F'"
      using small_nat64 [of "length ?F"] small_nat64 [of "length ?F'"] by simp_all
    have off: "tb_offset b = of_nat (length ?F)" using ok(2) by (simp add: at_offset_def)
    have "unat (tb_offset b) \<le> unat (of_nat (length ?F') :: u64)" by (simp only: off sz) simp
    from filter_start [OF filter this] obtain fb' where fb':
      "(case tb_filter_block b of None \<Rightarrow> Some None | Some f \<Rightarrow> map_option Some (StartBlock f (of_nat (length ?F')))) = Some fb'"
      "filter_inv fb' (of_nat (length ?F')) D" by blast
    define b' where "b' = b\<lparr>tb_status := OK, tb_file := ?F', tb_offset := of_nat (length ?F'),
      tb_data_block := bb_Reset (snd (bb_Finish ?db)), tb_pending_handle := h,
      tb_pending_index_entry := True, tb_filter_block := fb'\<rparr>"
    have "tb_Flush (cap_wfile cap) b = Some b'"
      using ok ne w(1) r(1) fb'(1)
      by (cases "tb_filter_block b")
         (auto simp: tb_Flush_def tb_ok_def Let_def cap_wfile_def b'_def simp del: length_append)
    moreover have "tb_inv b' ds (Some (h, cur)) []"
    proof -
      have "stored interval_of ?F' h cur"
        using handle_at_placed [of ?F ?bytes] small assms(2) by (simp add: stored_def r(2))
      moreover have "\<forall>d \<in> set ds. stored interval_of ?F' (fst (snd d)) (block_pairs d)"
        using inv stored_append by (simp add: tb_inv_def)
      moreover have "open_entry (of_nat (length ?F')) (Some (h, cur)) [] = open_entry (tb_offset b) None cur"
        by (simp add: open_entry_def r(2) handle_at_def off)
      ultimately show ?thesis
        using inv fb'(2) True Reset_Finish_holds [OF ok(5)]
        by (simp add: tb_inv_def b'_def at_offset_def rest_pairs_def D_def del: length_append)
    qed
    ultimately show ?thesis using inv by (auto simp: b'_def tb_inv_def)
  qed
qed


section \<open>Adding a pair\<close>

lemma le_last:
  assumes "sorted_wrt lt (map fst kvs)" and "fst ` set kvs \<subseteq> valid" and "k \<in> fst ` set kvs"
  shows "le k (fst (last kvs))"
  using assms by (cases kvs rule: rev_cases) (auto simp: sorted_wrt_append lt_imp_le)

lemma sorted_pairs_lt: "sorted_pairs c valid kvs \<longleftrightarrow> fst ` set kvs \<subseteq> valid \<and> sorted_wrt lt (map fst kvs)"
  by (simp add: sorted_pairs_def)

lemma compare_pos: "lt a b \<Longrightarrow> a \<in> valid \<Longrightarrow> b \<in> valid \<Longrightarrow> \<exists>x > 0. Compare c b a = Some x"
  using flip unfolding lt_def by blast

lemma emit_core:
  assumes index: "bb_options (tb_index_block b) = index_block_opts opts" "bb_holds (tb_index_block b) (map index_pair ds)"
    and h: "handle_ok h" "tb_pending_handle b = h" and ne: "kvs \<noteq> []" and l: "tb_last_key b = fst (last kvs)"
    and sorted: "sorted_wrt lt (map fst kvs)" "fst ` set kvs \<subseteq> valid" "separated ds (fst ` set kvs)"
    and shorten: "shorten (tb_last_key b) = Some t" "t \<in> valid" "le (tb_last_key b) t"
    and rest: "rest \<subseteq> valid" "\<forall>k \<in> rest. lt t k"
  shows "\<exists>ib'. emit_index_entry b shorten =
      Some (b\<lparr>tb_last_key := t, tb_index_block := ib', tb_pending_index_entry := False\<rparr>) \<and>
    bb_options ib' = index_block_opts opts \<and> bb_holds ib' (map index_pair (ds @ [(t, h, kvs)])) \<and>
    separated (ds @ [(t, h, kvs)]) {} \<and> separated (ds @ [(t, h, kvs)]) rest"
proof -
  let ?ib = "tb_index_block b"
  have lv: "fst (last kvs) \<in> fst ` set kvs" using ne by simp
  have "le k t" if "k \<in> fst ` set kvs" for k
    using le_trans [OF le_last [OF sorted(1,2) that]] shorten(2,3) that lv sorted(2) by (auto simp: l)
  then have sep: "separated (ds @ [(t, h, kvs)]) rest'" if "rest' \<subseteq> rest" for rest'
    using rest that by (intro separated_snoc [OF sorted(3) shorten(2) sorted(2)]) (auto simp: ne)
  have "\<exists>x > 0. Compare (opt_comparator (bb_options ?ib)) t (fst (last (map index_pair ds))) = Some x"
    if "map index_pair ds \<noteq> []"
  proof -
    let ?s = "fst (last ds)"
    have s: "last ds \<in> set ds" "fst (last (map index_pair ds)) = ?s" using that by (simp_all add: last_map index_pair_def)
    then have "lt ?s (fst (last kvs))" "?s \<in> valid" using sorted(3) lv unfolding separated_def by blast+
    then have "lt ?s t" using lt_le_trans [of ?s "fst (last kvs)" t] shorten(2,3) lv sorted(2) by (auto simp: l)
    then show ?thesis
      using compare_pos [of ?s t] \<open>?s \<in> valid\<close> shorten(2) index(1) comparator
      by (simp add: s(2) index_block_opts_def block_opts_def)
  qed
  with index(2) obtain ib' where ib': "bb_Add ?ib t (handle_bytes h) = Some ib'" "bb_options ib' = bb_options ?ib"
    "bb_holds ib' (map index_pair ds @ [(t, handle_bytes h)])"
    using bb_Add_holds [of ?ib "map index_pair ds" t "handle_bytes h"] by blast
  have "emit_index_entry b shorten =
      Some (b\<lparr>tb_last_key := t, tb_index_block := ib', tb_pending_index_entry := False\<rparr>)"
    using ib'(1) shorten(1) bh_EncodeTo_bytes [OF h(1), of "[]"] h(2) by (simp add: emit_index_entry_def)
  with ib' sep [of "{}"] sep [of rest] index(1) show ?thesis by (auto simp: index_pair_def)
qed

lemma pending_facts:
  assumes "tb_inv b ds (Some (h, kvs)) []" and "last_inv b (all_pairs ds kvs)"
  shows "handle_ok h" "tb_pending_handle b = h" "kvs \<noteq> []" "tb_last_key b = fst (last kvs)"
    "sorted_wrt lt (map fst kvs)" "fst ` set kvs \<subseteq> valid" "separated ds (fst ` set kvs)"
  using assms
  by (auto simp: tb_inv_def stored_def last_inv_def rest_pairs_def all_pairs_def sorted_pairs_lt sorted_wrt_append)

lemma emit_step:
  assumes inv: "tb_inv b ds (Some (h, kvs)) []" and last: "last_inv b (all_pairs ds kvs)"
    and shorten: "shorten (tb_last_key b) = Some t" "t \<in> valid" "le (tb_last_key b) t"
    and rest: "rest \<subseteq> valid" "\<forall>k \<in> rest. lt t k"
  shows "\<exists>b'. emit_index_entry b shorten = Some b' \<and> tb_inv b' (ds @ [(t, h, kvs)]) None [] \<and>
    tb_num_entries b' = tb_num_entries b \<and> separated (ds @ [(t, h, kvs)]) rest"
proof -
  have index: "bb_options (tb_index_block b) = index_block_opts opts" "bb_holds (tb_index_block b) (map index_pair ds)"
    using inv by (simp_all add: tb_inv_def)
  obtain ib' where ib': "emit_index_entry b shorten =
      Some (b\<lparr>tb_last_key := t, tb_index_block := ib', tb_pending_index_entry := False\<rparr>)"
    "bb_options ib' = index_block_opts opts" "bb_holds ib' (map index_pair (ds @ [(t, h, kvs)]))"
    "separated (ds @ [(t, h, kvs)]) {}" "separated (ds @ [(t, h, kvs)]) rest"
    using emit_core [where shorten = shorten, OF index pending_facts [OF inv last] shorten rest] by blast
  have "tb_inv (b\<lparr>tb_last_key := t, tb_index_block := ib', tb_pending_index_entry := False\<rparr>) (ds @ [(t, h, kvs)]) None []"
    using inv ib'(2-4) filter_open [of "tb_filter_block b" "tb_offset b" "insert (bh_offset h, map fst kvs) (filter_entries ds)"]
    by (auto simp: tb_inv_def rest_pairs_def block_pairs_def at_offset_def open_entry_def)
  with ib'(1,5) show ?thesis by auto
qed

lemma put_step:
  assumes inv: "tb_inv b ds None cur" and sep: "separated ds (insert key (fst ` set cur))"
    and key: "key \<in> valid" "\<forall>k \<in> fst ` set (all_pairs ds cur). lt k key"
  shows "\<exists>data. bb_Add (tb_data_block b) key val = Some data \<and>
    tb_inv (b\<lparr>tb_filter_block := map_option (\<lambda>f. AddKey f key) (tb_filter_block b), tb_last_key := key,
      tb_num_entries := n, tb_data_block := data\<rparr>) ds None (cur @ [(key, val)])"
proof -
  let ?db = "tb_data_block b"
  have sorted: "sorted_pairs c valid (all_pairs ds cur)" using inv by (simp add: tb_inv_def rest_pairs_def)
  have "\<exists>x > 0. Compare (opt_comparator (bb_options ?db)) key (fst (last cur)) = Some x" if "cur \<noteq> []"
  proof -
    have "fst (last cur) \<in> fst ` set (all_pairs ds cur)" using that by (simp add: all_pairs_def)
    moreover from this have "fst (last cur) \<in> valid" using sorted by (auto simp: sorted_pairs_lt)
    ultimately show ?thesis using key compare_pos inv comparator by (auto simp: tb_inv_def block_opts_def)
  qed
  moreover have "bb_holds ?db cur" using inv by (simp add: tb_inv_def)
  ultimately obtain data where data: "bb_Add ?db key val = Some data" "bb_options data = bb_options ?db"
    "bb_holds data (cur @ [(key, val)])" using bb_Add_holds [of ?db cur key val] by blast
  have "sorted_pairs c valid (all_pairs ds cur @ [(key, val)])"
    using sorted key by (auto simp: sorted_pairs_lt sorted_wrt_append)
  moreover have "filter_inv (map_option (\<lambda>f. AddKey f key) (tb_filter_block b)) (tb_offset b)
      (insert (tb_offset b, map fst cur @ [key]) (filter_entries ds))"
    using inv by (intro filter_add key(1)) (simp add: tb_inv_def open_entry_def)
  ultimately show ?thesis
    using inv data sep by (auto simp: tb_inv_def rest_pairs_def at_offset_def open_entry_def all_pairs_append)
qed

definition tb_ready :: "byte list table_builder \<Rightarrow> (slice \<times> slice) list \<Rightarrow> bool" where
  "tb_ready b kvs \<longleftrightarrow> (\<exists>ds pend cur. tb_inv b ds pend cur \<and> kvs = all_pairs ds (rest_pairs pend cur) \<and>
     last_inv b kvs \<and> (rest_pairs pend cur = [] \<longrightarrow> ds = []))"

text \<open>The index entry of a pending block is added before the next pair.\<close>

lemma settle_step:
  assumes inv: "tb_inv b ds pend cur" and last: "last_inv b (all_pairs ds (rest_pairs pend cur))"
    and open_ds: "rest_pairs pend cur = [] \<longrightarrow> ds = []"
    and key: "key \<in> valid" "\<forall>k \<in> fst ` set (all_pairs ds (rest_pairs pend cur)). lt k key"
  shows "\<exists>b1 ds1. (if tb_pending_index_entry b
      then if \<not> bb_empty (tb_data_block b) then None
           else emit_index_entry b (\<lambda>l. FindShortestSeparator (to_comparator (tb_options b)) l key)
      else Some b) = Some b1 \<and>
    tb_inv b1 ds1 None cur \<and> separated ds1 (insert key (fst ` set cur)) \<and>
    all_pairs ds1 cur = all_pairs ds (rest_pairs pend cur) \<and> tb_num_entries b1 = tb_num_entries b"
proof (cases pend)
  case None
  have rv: "fst ` set cur \<subseteq> valid" "separated ds (fst ` set cur)"
    using inv None by (auto simp: tb_inv_def rest_pairs_def sorted_pairs_lt all_pairs_def)
  have "lt (fst d) key" if d: "d \<in> set ds" for d
  proof -
    obtain k where k: "k \<in> fst ` set cur" using open_ds d None by (cases cur) (auto simp: rest_pairs_def)
    with d rv have "lt (fst d) k" "fst d \<in> valid" "k \<in> valid" unfolding separated_def by blast+
    moreover have "lt k key" using key(2) k None by (auto simp: rest_pairs_def all_pairs_def)
    ultimately show ?thesis using lt_trans key(1) by blast
  qed
  with rv(2) have "separated ds (insert key (fst ` set cur))" by (auto simp: separated_def)
  with inv None show ?thesis by (auto simp: tb_inv_def rest_pairs_def)
next
  case (Some hk)
  obtain h kvs where hk: "hk = (h, kvs)" by fastforce
  have c0: "cur = []" "kvs \<noteq> []" "tb_pending_index_entry b" "to_comparator (tb_options b) = c" "bb_holds (tb_data_block b) cur"
    using inv Some hk comparator by (auto simp: tb_inv_def stored_def)
  then have empty: "bb_empty (tb_data_block b)" by (simp add: bb_empty_def bb_holds_def Let_def)
  have all: "all_pairs ds (rest_pairs pend cur) = all_pairs ds kvs" by (simp add: Some hk rest_pairs_def)
  have l: "tb_last_key b = fst (last kvs)" using last c0(2) by (simp add: all last_inv_def) (simp add: all_pairs_def)
  have "fst (last kvs) \<in> fst ` set (all_pairs ds kvs)" using c0(2) by (simp add: all_pairs_def)
  moreover have "fst ` set (all_pairs ds kvs) \<subseteq> valid" using inv by (simp add: tb_inv_def sorted_pairs_lt all)
  ultimately have "lt (fst (last kvs)) key" "fst (last kvs) \<in> valid" using key(2) by (auto simp: all)
  from separator [OF this(2) key(1) this(1)] obtain t where t: "t \<in> valid"
    "FindShortestSeparator c (fst (last kvs)) key = Some t" "le (fst (last kvs)) t" "lt t key" by blast
  have "\<exists>b1. emit_index_entry b (\<lambda>l. FindShortestSeparator c l key) = Some b1 \<and>
      tb_inv b1 (ds @ [(t, h, kvs)]) None [] \<and> tb_num_entries b1 = tb_num_entries b \<and>
      separated (ds @ [(t, h, kvs)]) {key}"
    by (rule emit_step) (use inv last t key(1) in \<open>simp_all add: Some hk c0(1) l all [unfolded Some hk c0(1)] rest_pairs_def\<close>)
  then obtain b1 where b1: "emit_index_entry b (\<lambda>l. FindShortestSeparator c l key) = Some b1"
    "tb_inv b1 (ds @ [(t, h, kvs)]) None []" "tb_num_entries b1 = tb_num_entries b"
    "separated (ds @ [(t, h, kvs)]) {key}" by blast
  show ?thesis
    by (rule exI [of _ b1], rule exI [of _ "ds @ [(t, h, kvs)]"]) (use b1 c0 empty all in simp)
qed

lemma add_step:
  assumes ready: "tb_ready b kvs" and key: "key \<in> valid" "\<forall>k \<in> fst ` set kvs. lt k key"
  shows "\<exists>b'. tb_Add (cap_wfile cap) b key val = Some b' \<and> \<not> tb_closed b' \<and>
    (tb_ok b' \<longrightarrow> tb_ready b' (kvs @ [(key, val)]))"
proof -
  obtain ds pend cur where inv: "tb_inv b ds pend cur" and kvs: "kvs = all_pairs ds (rest_pairs pend cur)"
    and last: "last_inv b kvs" and open_ds: "rest_pairs pend cur = [] \<longrightarrow> ds = []"
    using ready by (auto simp: tb_ready_def)
  have c0: "tb_ok b" "\<not> tb_closed b" "to_comparator (tb_options b) = c" using inv comparator by (auto simp: tb_inv_def tb_ok_def)
  have larger: "(if tb_num_entries b > 0
       then do { x \<leftarrow> Compare (to_comparator (tb_options b)) key (tb_last_key b); Some (x > 0) } else Some True) = Some True"
  proof (cases "kvs = []")
    case True
    with last show ?thesis by (simp add: last_inv_def)
  next
    case False
    then have "fst (last kvs) \<in> fst ` set kvs" by simp
    moreover from this have "fst (last kvs) \<in> valid" using inv by (auto simp: tb_inv_def sorted_pairs_lt kvs)
    ultimately obtain x where "x > 0" "Compare c key (fst (last kvs)) = Some x" using compare_pos key by blast
    with False last c0 show ?thesis by (simp add: last_inv_def)
  qed
  obtain b1 ds1 where b1: "(if tb_pending_index_entry b
      then if \<not> bb_empty (tb_data_block b) then None
           else emit_index_entry b (\<lambda>l. FindShortestSeparator (to_comparator (tb_options b)) l key)
      else Some b) = Some b1"
    "tb_inv b1 ds1 None cur" "separated ds1 (insert key (fst ` set cur))" "all_pairs ds1 cur = kvs"
    "tb_num_entries b1 = tb_num_entries b"
    using settle_step [OF inv _ open_ds key(1)] last key(2) by (auto simp: kvs)
  define n where "n = tb_num_entries b1 + 1"
  obtain data where data: "bb_Add (tb_data_block b1) key val = Some data"
    "tb_inv (b1\<lparr>tb_filter_block := map_option (\<lambda>f. AddKey f key) (tb_filter_block b1), tb_last_key := key,
      tb_num_entries := n, tb_data_block := data\<rparr>) ds1 None (cur @ [(key, val)])" (is "tb_inv ?b2 _ _ _")
    using put_step [OF b1(2,3) key(1), of val n] key(2) b1(4) by blast
  have all: "all_pairs ds1 (cur @ [(key, val)]) = kvs @ [(key, val)]" by (simp add: all_pairs_append b1(4))
  have last2: "last_inv ?b2 (kvs @ [(key, val)])" using last b1(5) by (simp add: last_inv_def n_def)
  have add: "tb_Add (cap_wfile cap) b key val =
      (if CurrentSizeEstimate data \<ge> to_block_size (tb_options b1) then tb_Flush (cap_wfile cap) ?b2 else Some ?b2)"
    using c0 larger b1(1) data(1) by (simp add: tb_Add_def n_def)
  show ?thesis
  proof (cases "CurrentSizeEstimate data \<ge> to_block_size (tb_options b1)")
    case True
    with add flush_step [OF data(2)] obtain b' where b': "tb_Add (cap_wfile cap) b key val = Some b'" "\<not> tb_closed b'"
      "tb_ok b' \<longrightarrow> (\<exists>h. tb_inv b' ds1 (Some (h, cur @ [(key, val)])) [] \<and> tb_last_key b' = tb_last_key ?b2 \<and>
         tb_num_entries b' = tb_num_entries ?b2)" by auto
    have "tb_ready b' (kvs @ [(key, val)])" if okb: "tb_ok b'"
    proof -
      obtain h where h: "tb_inv b' ds1 (Some (h, cur @ [(key, val)])) []" "tb_last_key b' = tb_last_key ?b2"
        "tb_num_entries b' = tb_num_entries ?b2" using b'(3) okb by blast
      have "last_inv b' (kvs @ [(key, val)])" using last2 h(2,3) by (simp add: last_inv_def)
      with h(1) show ?thesis
        unfolding tb_ready_def
        by (intro exI [of _ ds1] exI [of _ "Some (h, cur @ [(key, val)])"] exI [of _ "[]"]) (simp add: rest_pairs_def all)
    qed
    with b'(1,2) show ?thesis by blast
  next
    case False
    have "tb_ready ?b2 (kvs @ [(key, val)])"
      unfolding tb_ready_def
      by (intro exI [of _ ds1] exI [of _ None] exI [of _ "cur @ [(key, val)]"]) (use data(2) last2 all in \<open>simp add: rest_pairs_def\<close>)
    moreover have "\<not> tb_closed ?b2" using data(2) by (simp add: tb_inv_def)
    ultimately show ?thesis using add False by auto
  qed
qed


section \<open>From the first to the last pair\<close>

lemma TableBuilder_ready: "\<exists>b. TableBuilder opts ([] :: byte list) = Some b \<and> \<not> tb_closed b \<and> tb_ready b []"
proof -
  let ?fb0 = "map_option FilterBlockBuilder (to_filter_policy opts)"
  obtain data where data: "BlockBuilder (block_opts opts) = Some data" "bb_options data = block_opts opts" "bb_holds data []"
    using BlockBuilder_holds [of "block_opts opts"] interval by (auto simp: block_opts_def)
  obtain index where index: "BlockBuilder (index_block_opts opts) = Some index"
    "bb_options index = index_block_opts opts" "bb_holds index []"
    using BlockBuilder_holds [of "index_block_opts opts"] by (auto simp: index_block_opts_def)
  have "filter_inv ?fb0 0 {(0, [])}"
  proof (cases "to_filter_policy opts")
    case (Some p)
    have "sound_filter.covered {(0, [])} [] []" by (simp add: sound_filter.covered_def [OF filter_sound [OF Some]])
    with Some sound_filter.FilterBlockBuilder_holds [OF filter_sound [OF Some]] show ?thesis
      by (auto simp: filter_inv_def)
  qed (simp add: filter_inv_def)
  from filter_start [OF this, of 0] obtain fb where fb:
    "(case ?fb0 of None \<Rightarrow> Some None | Some f \<Rightarrow> map_option Some (StartBlock f 0)) = Some fb"
    "filter_inv fb 0 {(0, [])}" by auto
  define b where "b = \<lparr>tb_options = opts, tb_file = ([] :: byte list), tb_offset = 0, tb_status = OK, tb_data_block = data,
    tb_index_block = index, tb_last_key = [], tb_num_entries = 0, tb_closed = False, tb_filter_block = fb,
    tb_pending_index_entry = False, tb_pending_handle = BlockHandle\<rparr>"
  have "TableBuilder opts [] = Some b"
    using data(1) index(1) fb(1) by (cases "to_filter_policy opts") (auto simp: TableBuilder_def b_def)
  moreover have "tb_inv b [] None []"
    using data index fb(2)
    by (simp add: tb_inv_def b_def at_offset_def rest_pairs_def all_pairs_def sorted_pairs_lt separated_def open_entry_def)
  then have "tb_ready b []"
    unfolding tb_ready_def
    by (intro exI [of _ "[]"] exI [of _ None]) (simp add: rest_pairs_def all_pairs_def last_inv_def b_def)
  ultimately show ?thesis by (auto simp: b_def)
qed

end

fun tb_Adds :: "'f wfile \<Rightarrow> 'f table_builder \<Rightarrow> (slice \<times> slice) list \<Rightarrow> 'f table_builder option" where
  "tb_Adds ops b [] = Some b"
| "tb_Adds ops b ((k, v) # kvs) = do { b \<leftarrow> tb_Add ops b k v; tb_Adds ops b kvs }"

context table_contract
begin

lemma tb_Add_stopped: "\<not> tb_closed b \<Longrightarrow> \<not> tb_ok b \<Longrightarrow> tb_Add ops b k v = Some b"
  by (simp add: tb_Add_def)

lemma adds_step:
  assumes "\<not> tb_closed b" and "tb_ok b \<longrightarrow> tb_ready b kvs0" and "sorted_pairs c valid (kvs0 @ kvs)"
  shows "\<exists>b'. tb_Adds (cap_wfile cap) b kvs = Some b' \<and> \<not> tb_closed b' \<and> (tb_ok b' \<longrightarrow> tb_ready b' (kvs0 @ kvs))"
  using assms
proof (induction kvs arbitrary: b kvs0)
  case (Cons kv kvs)
  obtain k v where kv: "kv = (k, v)" by fastforce
  have k: "k \<in> valid" "\<forall>k' \<in> fst ` set kvs0. lt k' k"
    using Cons.prems(3) by (auto simp: kv sorted_pairs_lt sorted_wrt_append)
  obtain b1 where b1: "tb_Add (cap_wfile cap) b k v = Some b1" "\<not> tb_closed b1"
    "tb_ok b1 \<longrightarrow> tb_ready b1 (kvs0 @ [(k, v)])"
  proof (cases "tb_ok b")
    case True
    with Cons.prems(2) add_step [OF _ k, of b v] that show ?thesis by blast
  next
    case False
    with Cons.prems(1) that [of b] tb_Add_stopped show ?thesis by blast
  qed
  with Cons.IH [OF b1(2,3)] Cons.prems(3) show ?case by (simp add: kv)
qed simp

end

end
