(* ===== verification/Ldb_TableFinish.thy ===== *)
theory Ldb_TableFinish
  imports Ldb_TableBuild
begin

text \<open>
  The end of a table file: the filter block, the metaindex block, the index block and the
  footer.  The file of a builder whose status stays OK has the layout \<open>table_layout\<close>.
\<close>

context table_contract
begin

section \<open>The layout\<close>

definition reader_ok :: "filter_policy \<Rightarrow> byte list \<Rightarrow> (u64 \<times> slice list) set \<Rightarrow> bool" where
  "reader_ok p contents D \<longleftrightarrow> (\<exists>rd. FilterBlockReader p contents = Some rd \<and>
     (\<forall>(off, ks) \<in> D. \<forall>key \<in> set ks. fbr_KeyMayMatch rd off key = Some True) \<and>
     (\<forall>off. \<forall>key \<in> valid. \<exists>m. fbr_KeyMayMatch rd off key = Some m))"

lemma reader_ok_subset: "reader_ok p contents D \<Longrightarrow> D' \<subseteq> D \<Longrightarrow> reader_ok p contents D'"
  unfolding reader_ok_def by blast

definition filter_layout :: "byte list \<Rightarrow> block_handle \<Rightarrow> (u64 \<times> slice list) set \<Rightarrow> bool" where
  "filter_layout F mh D \<longleftrightarrow>
     (case to_filter_policy opts of None \<Rightarrow> True
      | Some p \<Rightarrow> \<exists>fh contents. handle_ok fh \<and> placed F fh contents \<and> reader_ok p contents D \<and>
          placed F mh (block_bytes interval_of [(filter_key p, handle_bytes fh)]))"

definition table_layout :: "byte list \<Rightarrow> data_block list \<Rightarrow> bool" where
  "table_layout F ds \<longleftrightarrow>
     (\<exists>F0 mh ih. F = F0 @ footer_bytes \<lparr>ft_metaindex_handle = mh, ft_index_handle = ih\<rparr> \<and>
        placed F ih (block_bytes 1 (map index_pair ds)) \<and> filter_layout F mh (filter_entries ds)) \<and>
     (\<forall>d \<in> set ds. stored interval_of F (fst (snd d)) (block_pairs d)) \<and>
     separated ds {} \<and> sorted_pairs c valid (all_pairs ds []) \<and> length F \<le> cap"

text \<open>
  What the last blocks leave alone: the data blocks, what the index holds, and the options.
\<close>

definition tail_inv ::
    "byte list table_builder \<Rightarrow> data_block list \<Rightarrow> (block_handle \<times> (slice \<times> slice) list) option \<Rightarrow> bool" where
  "tail_inv b ds pend \<longleftrightarrow>
     tb_options b = opts \<and> tb_status b = OK \<and> length (tb_file b) \<le> cap \<and> at_offset b \<and>
     bb_options (tb_index_block b) = index_block_opts opts \<and> bb_holds (tb_index_block b) (map index_pair ds) \<and>
     tb_pending_index_entry b = (pend \<noteq> None) \<and>
     (\<forall>h kvs. pend = Some (h, kvs) \<longrightarrow> tb_pending_handle b = h \<and> stored interval_of (tb_file b) h kvs \<and>
        tb_last_key b = fst (last kvs)) \<and>
     (\<forall>d \<in> set ds. stored interval_of (tb_file b) (fst (snd d)) (block_pairs d)) \<and>
     sorted_pairs c valid (all_pairs ds (rest_pairs pend [])) \<and> separated ds (fst ` set (rest_pairs pend [])) \<and>
     (tb_filter_block b \<noteq> None \<longleftrightarrow> to_filter_policy opts \<noteq> None)"

lemma tail_inv_extend:
  assumes "tail_inv b ds pend" and "length (tb_file b @ x) \<le> cap"
  shows "tail_inv (b\<lparr>tb_status := OK, tb_file := tb_file b @ x, tb_offset := of_nat (length (tb_file b @ x))\<rparr>) ds pend"
  using assms stored_append by (auto simp: tail_inv_def at_offset_def)

lemma placed_next:
  assumes "length (F @ framed contents) \<le> cap"
  shows "placed (F @ framed contents) (handle_at F contents) contents" "handle_ok (handle_at F contents)"
  using handle_at_placed [of F contents] assms small_file by simp_all

lemma filter_layout_append: "filter_layout F mh D \<Longrightarrow> filter_layout (F @ x) mh D"
  using placed_append unfolding filter_layout_def by (cases "to_filter_policy opts") (simp, simp, blast)

lemma filter_layout_subset: "filter_layout F mh D \<Longrightarrow> D' \<subseteq> D \<Longrightarrow> filter_layout F mh D'"
  using reader_ok_subset unfolding filter_layout_def by (cases "to_filter_policy opts") (simp, simp, blast)


section \<open>The filter block and the metaindex block\<close>

text \<open>What \<open>write_filter\<close> has put into the file, for the entry of the metaindex.\<close>

definition filter_written :: "byte list \<Rightarrow> block_handle \<Rightarrow> (u64 \<times> slice list) set \<Rightarrow> bool" where
  "filter_written F fh D \<longleftrightarrow>
     (case to_filter_policy opts of None \<Rightarrow> True
      | Some p \<Rightarrow> \<exists>contents. handle_ok fh \<and> placed F fh contents \<and> reader_ok p contents D)"

lemma filter_written_append: "filter_written F fh D \<Longrightarrow> filter_written (F @ x) fh D"
  using placed_append unfolding filter_written_def by (cases "to_filter_policy opts") (simp, simp, blast)

lemma write_filter_step:
  assumes tail: "tail_inv b ds pend" and filter: "filter_inv (tb_filter_block b) (tb_offset b) D"
  shows "\<exists>fh b'. write_filter (cap_wfile cap) b = Some (fh, b') \<and>
    (tb_ok b' \<longrightarrow> tail_inv b' ds pend \<and> filter_written (tb_file b') fh D)"
proof (cases "to_filter_policy opts")
  case None
  with filter have "tb_filter_block b = None" by (simp add: filter_inv_def)
  with tail None show ?thesis by (simp add: write_filter_def filter_written_def)
next
  case (Some p)
  note sf = filter_sound [OF Some]
  obtain f G P where f: "tb_filter_block b = Some f" "sound_filter.holds p valid f G P" "sound_filter.covered D G P"
    using filter Some by (auto simp: filter_inv_def)
  obtain contents f' where fin: "fbb_Finish f = Some (contents, f')"
    using sound_filter.Finish_total [OF sf f(2)] by blast
  let ?b = "b\<lparr>tb_filter_block := Some f'\<rparr>"
  have tail': "tail_inv ?b ds pend" "at_offset ?b" "tb_ok b" using tail Some by (auto simp: tail_inv_def at_offset_def tb_ok_def)
  obtain h r where w: "WriteRawBlock (cap_wfile cap) ?b contents kNoCompression = Some (h, r)"
    "if length (tb_file ?b @ framed contents) \<le> cap
     then r = ?b\<lparr>tb_status := OK, tb_file := tb_file ?b @ framed contents,
            tb_offset := of_nat (length (tb_file ?b @ framed contents))\<rparr> \<and> h = handle_at (tb_file ?b) contents
     else \<not> tb_ok r \<and> (\<exists>s f. r = ?b\<lparr>tb_status := s, tb_file := f\<rparr>)"
    using WriteRawBlock_cap [OF tail'(2)] by blast
  have run: "write_filter (cap_wfile cap) b = Some (h, r)" using f(1) fin w(1) tail'(3) by (simp add: write_filter_def)
  show ?thesis
  proof (cases "length (tb_file b @ framed contents) \<le> cap")
    case False
    with run w(2) show ?thesis by auto
  next
    case True
    let ?F = "tb_file b @ framed contents"
    have r: "r = ?b\<lparr>tb_status := OK, tb_file := tb_file ?b @ framed contents,
        tb_offset := of_nat (length (tb_file ?b @ framed contents))\<rparr>" "h = handle_at (tb_file b) contents"
      using w(2) True by simp_all
    have "length contents < 2 ^ 32" using True small_file by simp
    from sound_filter.Finish_match [OF sf f(2,3) fin this] have "reader_ok p contents D" by (simp add: reader_ok_def)
    with placed_next [OF True] have "filter_written ?F h D" using Some by (auto simp: filter_written_def r(2))
    moreover have "tail_inv r ds pend" unfolding r(1) by (rule tail_inv_extend [OF tail'(1)]) (use True in simp)
    ultimately show ?thesis using run r(1) by simp
  qed
qed

lemma write_block_step:
  assumes tail: "tail_inv b ds pend"
  shows "\<exists>h b'. WriteBlock (cap_wfile cap) b block = Some (h, bb_Reset (snd (bb_Finish block)), b') \<and>
    (tb_ok b' \<longrightarrow> tail_inv b' ds pend \<and> handle_ok h \<and> placed (tb_file b') h (fst (bb_Finish block)) \<and>
      (\<exists>x. tb_file b' = tb_file b @ x))"
proof -
  let ?c = "fst (bb_Finish block)"
  have ok: "at_offset b" "tb_ok b" using tail by (auto simp: tail_inv_def tb_ok_def)
  obtain h r where w: "WriteBlock (cap_wfile cap) b block = Some (h, bb_Reset (snd (bb_Finish block)), r)"
    "if length (tb_file b @ framed ?c) \<le> cap
     then r = b\<lparr>tb_status := OK, tb_file := tb_file b @ framed ?c,
            tb_offset := of_nat (length (tb_file b @ framed ?c))\<rparr> \<and> h = handle_at (tb_file b) ?c
     else \<not> tb_ok r \<and> (\<exists>s f. r = b\<lparr>tb_status := s, tb_file := f\<rparr>)"
    using WriteBlock_cap [OF ok] unfolding Let_def by blast
  show ?thesis
  proof (cases "length (tb_file b @ framed ?c) \<le> cap")
    case True
    with w(2) have r: "r = b\<lparr>tb_status := OK, tb_file := tb_file b @ framed ?c,
        tb_offset := of_nat (length (tb_file b @ framed ?c))\<rparr>" "h = handle_at (tb_file b) ?c" by auto
    from tail_inv_extend [OF tail True] placed_next [OF True] w(1) show ?thesis
      unfolding r by (auto simp: r)
  next
    case False
    with w show ?thesis by auto
  qed
qed

lemma write_metaindex_step:
  assumes tail: "tail_inv b ds pend" and written: "filter_written (tb_file b) fh D"
  shows "\<exists>mh b'. write_metaindex (cap_wfile cap) b fh = Some (mh, b') \<and>
    (tb_ok b' \<longrightarrow> tail_inv b' ds pend \<and> handle_ok mh \<and> filter_layout (tb_file b') mh D)"
proof -
  have ok: "tb_ok b" "tb_options b = opts" using tail by (auto simp: tail_inv_def tb_ok_def)
  obtain meta0 where meta0: "BlockBuilder (block_opts opts) = Some meta0" "bb_options meta0 = block_opts opts" "bb_holds meta0 []"
    using BlockBuilder_holds [of "block_opts opts"] interval by (auto simp: block_opts_def)
  define entries where "entries = (case to_filter_policy opts of None \<Rightarrow> [] | Some p \<Rightarrow> [(filter_key p, handle_bytes fh)])"
  obtain meta where meta: "(case (tb_filter_block b, to_filter_policy (tb_options b)) of
      (Some fb, Some p) \<Rightarrow> do { handle_encoding \<leftarrow> bh_EncodeTo fh []; bb_Add meta0 (filter_key p) handle_encoding }
    | (Some fb, None) \<Rightarrow> None | (None, _) \<Rightarrow> Some meta0) = Some meta"
    "bb_options meta = block_opts opts" "bb_holds meta entries"
  proof (cases "to_filter_policy opts")
    case None
    with tail meta0 that [of meta0] show ?thesis by (simp add: ok(2) entries_def tail_inv_def)
  next
    case (Some p)
    then have "handle_ok fh" using written by (auto simp: filter_written_def)
    moreover obtain fb where "tb_filter_block b = Some fb" using tail Some by (auto simp: tail_inv_def)
    moreover obtain meta where "bb_Add meta0 (filter_key p) (handle_bytes fh) = Some meta"
      "bb_options meta = bb_options meta0" "bb_holds meta ([] @ [(filter_key p, handle_bytes fh)])"
      using bb_Add_holds [OF meta0(3), of "filter_key p" "handle_bytes fh"] by auto
    ultimately show ?thesis using that [of meta] Some meta0(2) by (simp add: ok(2) entries_def bh_EncodeTo_bytes)
  qed
  have bytes: "fst (bb_Finish meta) = block_bytes interval_of entries"
    using bb_Finish_holds [OF meta(3)] meta(2) by (simp add: block_opts_def)
  obtain mh b' where w: "WriteBlock (cap_wfile cap) b meta = Some (mh, bb_Reset (snd (bb_Finish meta)), b')"
    "tb_ok b' \<longrightarrow> tail_inv b' ds pend \<and> handle_ok mh \<and> placed (tb_file b') mh (fst (bb_Finish meta)) \<and>
      (\<exists>x. tb_file b' = tb_file b @ x)" using write_block_step [OF tail] by blast
  have "write_metaindex (cap_wfile cap) b fh = Some (mh, b')"
    using ok meta0(1) meta(1) w(1) by (simp add: write_metaindex_def)
  moreover have "filter_layout (tb_file b') mh D" if "tb_ok b'"
  proof (cases "to_filter_policy opts")
    case (Some p)
    from w(2) that obtain x where "tb_file b' = tb_file b @ x" by blast
    with written have "filter_written (tb_file b') fh D" by (simp add: filter_written_append)
    with Some w(2) that show ?thesis by (auto simp: filter_written_def filter_layout_def bytes entries_def)
  qed (simp add: filter_layout_def)
  ultimately show ?thesis using w(2) by blast
qed


section \<open>The index block and the footer\<close>

lemma index_entry_step:
  assumes tail: "tail_inv b ds pend"
  shows "\<exists>b1 ds1. (if tb_pending_index_entry b
      then emit_index_entry b (FindShortSuccessor (to_comparator (tb_options b))) else Some b) = Some b1 \<and>
    tail_inv b1 ds1 None \<and> all_pairs ds1 [] = all_pairs ds (rest_pairs pend []) \<and> tb_file b1 = tb_file b \<and>
    (\<forall>off. filter_entries ds1 \<subseteq> insert (open_entry off pend []) (filter_entries ds))"
proof (cases pend)
  case None
  with tail show ?thesis by (intro exI [of _ b] exI [of _ ds]) (auto simp: tail_inv_def rest_pairs_def)
next
  case (Some hk)
  obtain h kvs where hk: "hk = (h, kvs)" by fastforce
  have c0: "tb_pending_index_entry b" "to_comparator (tb_options b) = c" "kvs \<noteq> []" "handle_ok h" "tb_pending_handle b = h"
    "tb_last_key b = fst (last kvs)" "stored interval_of (tb_file b) h kvs"
    using tail Some hk comparator by (auto simp: tail_inv_def stored_def)
  have sorted: "sorted_wrt lt (map fst kvs)" "fst ` set kvs \<subseteq> valid" "separated ds (fst ` set kvs)"
    using tail Some hk by (auto simp: tail_inv_def rest_pairs_def all_pairs_def sorted_pairs_lt sorted_wrt_append)
  have index: "bb_options (tb_index_block b) = index_block_opts opts" "bb_holds (tb_index_block b) (map index_pair ds)"
    using tail by (simp_all add: tail_inv_def)
  have "fst (last kvs) \<in> valid" using sorted(2) c0(3) by auto
  from successor [OF this] obtain t where t: "t \<in> valid" "FindShortSuccessor c (tb_last_key b) = Some t"
    "le (tb_last_key b) t" using c0(6) by auto
  obtain ib' where ib': "emit_index_entry b (FindShortSuccessor c) =
      Some (b\<lparr>tb_last_key := t, tb_index_block := ib', tb_pending_index_entry := False\<rparr>)"
    "bb_options ib' = index_block_opts opts" "bb_holds ib' (map index_pair (ds @ [(t, h, kvs)]))"
    "separated (ds @ [(t, h, kvs)]) {}"
    using emit_core [where shorten = "FindShortSuccessor c" and rest = "{}", OF index c0(4,5,3,6) sorted t(2,1,3)] by auto
  let ?b1 = "b\<lparr>tb_last_key := t, tb_index_block := ib', tb_pending_index_entry := False\<rparr>"
  have "tail_inv ?b1 (ds @ [(t, h, kvs)]) None"
    using tail ib'(2-4) c0(7) Some hk by (auto simp: tail_inv_def rest_pairs_def at_offset_def block_pairs_def)
  then show ?thesis
    using ib'(1) c0(1,2) Some hk
    by (intro exI [of _ ?b1] exI [of _ "ds @ [(t, h, kvs)]"]) (auto simp: rest_pairs_def open_entry_def)
qed

lemma write_index_step:
  assumes tail: "tail_inv b ds pend"
  shows "\<exists>ih b' ds1 x. write_index (cap_wfile cap) b = Some (ih, b') \<and>
    (tb_ok b' \<longrightarrow> tb_file b' = tb_file b @ x \<and> handle_ok ih \<and> placed (tb_file b') ih (block_bytes 1 (map index_pair ds1)) \<and>
      (\<forall>d \<in> set ds1. stored interval_of (tb_file b') (fst (snd d)) (block_pairs d)) \<and>
      separated ds1 {} \<and> sorted_pairs c valid (all_pairs ds1 []) \<and>
      all_pairs ds1 [] = all_pairs ds (rest_pairs pend []) \<and>
      (\<forall>off. filter_entries ds1 \<subseteq> insert (open_entry off pend []) (filter_entries ds)))"
proof -
  obtain b1 ds1 where b1: "(if tb_pending_index_entry b
      then emit_index_entry b (FindShortSuccessor (to_comparator (tb_options b))) else Some b) = Some b1"
    "tail_inv b1 ds1 None" "all_pairs ds1 [] = all_pairs ds (rest_pairs pend [])" "tb_file b1 = tb_file b"
    "\<forall>off. filter_entries ds1 \<subseteq> insert (open_entry off pend []) (filter_entries ds)"
    using index_entry_step [OF tail] by blast
  let ?ib = "tb_index_block b1"
  have "bb_holds ?ib (map index_pair ds1)" "bb_options ?ib = index_block_opts opts"
    using b1(2) by (simp_all add: tail_inv_def)
  then have bytes: "fst (bb_Finish ?ib) = block_bytes 1 (map index_pair ds1)"
    using bb_Finish_holds [of ?ib "map index_pair ds1"] by (simp add: index_block_opts_def)
  obtain ih b2 where w: "WriteBlock (cap_wfile cap) b1 ?ib = Some (ih, bb_Reset (snd (bb_Finish ?ib)), b2)"
    "tb_ok b2 \<longrightarrow> tail_inv b2 ds1 None \<and> handle_ok ih \<and> placed (tb_file b2) ih (fst (bb_Finish ?ib)) \<and>
      (\<exists>x. tb_file b2 = tb_file b1 @ x)" using write_block_step [OF b1(2)] by blast
  let ?b' = "b2\<lparr>tb_index_block := bb_Reset (snd (bb_Finish ?ib))\<rparr>"
  have run: "write_index (cap_wfile cap) b = Some (ih, ?b')"
    using tail b1(1) w(1) by (simp add: write_index_def tail_inv_def tb_ok_def)
  show ?thesis
  proof (cases "tb_ok b2")
    case False
    with run show ?thesis by (auto simp: tb_ok_def)
  next
    case True
    with w(2) obtain x where x: "tb_file b2 = tb_file b @ x" by (auto simp: b1(4))
    show ?thesis
      by (rule exI [of _ ih], rule exI [of _ ?b'], rule exI [of _ ds1], rule exI [of _ x])
         (use run True w(2) x b1(3,5) in \<open>simp add: tail_inv_def rest_pairs_def bytes\<close>)
  qed
qed

lemma write_footer_step:
  assumes "handle_ok mh" and "handle_ok ih" and "tb_ok b"
  shows "\<exists>b'. write_footer (cap_wfile cap) b mh ih = Some b' \<and>
    (tb_ok b' \<longrightarrow> tb_file b' = tb_file b @ footer_bytes \<lparr>ft_metaindex_handle = mh, ft_index_handle = ih\<rparr> \<and>
      length (tb_file b') \<le> cap)"
  using assms ft_EncodeTo_bytes [of "\<lparr>ft_metaindex_handle = mh, ft_index_handle = ih\<rparr>"]
  by (auto simp: write_footer_def cap_wfile_def Let_def tb_ok_def)


section \<open>Finishing\<close>

lemma stopped:
  assumes "\<not> tb_ok b"
  shows "write_filter ops b = Some (BlockHandle, b)" "write_metaindex ops b fh = Some (BlockHandle, b)"
    "write_index ops b = Some (BlockHandle, b)" "write_footer ops b mh ih = Some b"
  using assms
  by (auto simp: write_filter_def write_metaindex_def write_index_def write_footer_def split: option.split)

lemma last_flush:
  assumes "\<not> tb_closed b" and "tb_ok b \<longrightarrow> tb_ready b kvs"
  shows "\<exists>b1. tb_Flush (cap_wfile cap) b = Some b1 \<and> \<not> tb_closed b1 \<and>
    (tb_ok b1 \<longrightarrow> (\<exists>ds pend. tb_inv b1 ds pend [] \<and> kvs = all_pairs ds (rest_pairs pend []) \<and>
      (pend = None \<longrightarrow> ds = []) \<and> last_inv b1 kvs))"
proof (cases "tb_ok b")
  case False
  with assms(1) show ?thesis by (simp add: tb_Flush_def)
next
  case True
  with assms(2) obtain ds pend cur where inv: "tb_inv b ds pend cur" and kvs: "kvs = all_pairs ds (rest_pairs pend cur)"
    and last: "last_inv b kvs" and open_ds: "rest_pairs pend cur = [] \<longrightarrow> ds = []"
    by (auto simp: tb_ready_def)
  show ?thesis
  proof (cases "cur = []")
    case True
    then have "bb_empty (tb_data_block b)" using inv by (simp add: tb_inv_def bb_empty_def bb_holds_def Let_def)
    then have "tb_Flush (cap_wfile cap) b = Some b" using assms(1) by (simp add: tb_Flush_def)
    moreover have "pend = None \<longrightarrow> ds = []" using open_ds True by (simp add: rest_pairs_def)
    ultimately show ?thesis using inv kvs last assms(1) True by auto
  next
    case False
    then have pend: "pend = None" using inv by (cases pend) (auto simp: tb_inv_def)
    from flush_step [OF inv [unfolded pend] False] obtain b1 where b1: "tb_Flush (cap_wfile cap) b = Some b1"
      "\<not> tb_closed b1" "tb_ok b1 \<longrightarrow> (\<exists>h. tb_inv b1 ds (Some (h, cur)) [] \<and> tb_last_key b1 = tb_last_key b \<and>
         tb_num_entries b1 = tb_num_entries b)" by blast
    have "\<exists>ds pend. tb_inv b1 ds pend [] \<and> kvs = all_pairs ds (rest_pairs pend []) \<and>
        (pend = None \<longrightarrow> ds = []) \<and> last_inv b1 kvs" if okb: "tb_ok b1"
    proof -
      obtain h where "tb_inv b1 ds (Some (h, cur)) []" "tb_last_key b1 = tb_last_key b"
        "tb_num_entries b1 = tb_num_entries b" using b1(3) okb by blast
      then show ?thesis
        by (intro exI [of _ ds] exI [of _ "Some (h, cur)"]) (use kvs last in \<open>simp add: rest_pairs_def pend last_inv_def\<close>)
    qed
    with b1(1,2) show ?thesis by blast
  qed
qed

lemma tb_inv_tail:
  assumes "tb_inv b ds pend []" and "last_inv b (all_pairs ds (rest_pairs pend []))"
  shows "tail_inv (b\<lparr>tb_closed := True\<rparr>) ds pend"
proof -
  have "tb_filter_block b \<noteq> None \<longleftrightarrow> to_filter_policy opts \<noteq> None"
    using assms(1) by (auto simp: tb_inv_def filter_inv_def split: option.splits)
  moreover have "tb_last_key b = fst (last kvs)" if "pend = Some (h, kvs)" for h kvs
    using assms that pending_facts(4) [of b ds h kvs] by (simp add: rest_pairs_def)
  ultimately show ?thesis using assms(1) by (auto simp: tb_inv_def tail_inv_def at_offset_def)
qed

text \<open>Each step when the ones before may have failed.\<close>

lemma write_filter_any:
  assumes "tb_ok b \<longrightarrow> tail_inv b ds pend \<and> filter_inv (tb_filter_block b) (tb_offset b) D"
  shows "\<exists>fh b'. write_filter (cap_wfile cap) b = Some (fh, b') \<and>
    (tb_ok b' \<longrightarrow> tail_inv b' ds pend \<and> filter_written (tb_file b') fh D)"
  using assms write_filter_step [of b ds pend D] stopped(1) [of b "cap_wfile cap"] by (cases "tb_ok b") simp_all

lemma write_metaindex_any:
  assumes "tb_ok b \<longrightarrow> tail_inv b ds pend \<and> filter_written (tb_file b) fh D"
  shows "\<exists>mh b'. write_metaindex (cap_wfile cap) b fh = Some (mh, b') \<and>
    (tb_ok b' \<longrightarrow> tail_inv b' ds pend \<and> handle_ok mh \<and> filter_layout (tb_file b') mh D)"
  using assms write_metaindex_step [of b ds pend fh D] stopped(2) [of b "cap_wfile cap" fh] by (cases "tb_ok b") simp_all

text \<open>The layout without its footer.\<close>

definition body_layout :: "byte list \<Rightarrow> block_handle \<Rightarrow> block_handle \<Rightarrow> data_block list \<Rightarrow> bool" where
  "body_layout F mh ih ds \<longleftrightarrow> handle_ok mh \<and> handle_ok ih \<and> placed F ih (block_bytes 1 (map index_pair ds)) \<and>
     filter_layout F mh (filter_entries ds) \<and>
     (\<forall>d \<in> set ds. stored interval_of F (fst (snd d)) (block_pairs d)) \<and>
     separated ds {} \<and> sorted_pairs c valid (all_pairs ds [])"

lemma write_index_any:
  assumes "tb_ok b \<longrightarrow> tail_inv b ds pend \<and> handle_ok mh \<and>
      filter_layout (tb_file b) mh (insert (open_entry off pend []) (filter_entries ds))"
  shows "\<exists>ih b'. write_index (cap_wfile cap) b = Some (ih, b') \<and>
    (tb_ok b' \<longrightarrow> (\<exists>ds1. body_layout (tb_file b') mh ih ds1 \<and> all_pairs ds1 [] = all_pairs ds (rest_pairs pend [])))"
proof (cases "tb_ok b")
  case True
  with assms have pre: "tail_inv b ds pend" "handle_ok mh"
    "filter_layout (tb_file b) mh (insert (open_entry off pend []) (filter_entries ds))" by auto
  from write_index_step [OF pre(1)] obtain ih b' ds1 x where w: "write_index (cap_wfile cap) b = Some (ih, b')"
    "tb_ok b' \<longrightarrow> tb_file b' = tb_file b @ x \<and> handle_ok ih \<and>
      placed (tb_file b') ih (block_bytes 1 (map index_pair ds1)) \<and>
      (\<forall>d \<in> set ds1. stored interval_of (tb_file b') (fst (snd d)) (block_pairs d)) \<and>
      separated ds1 {} \<and> sorted_pairs c valid (all_pairs ds1 []) \<and>
      all_pairs ds1 [] = all_pairs ds (rest_pairs pend []) \<and>
      (\<forall>off. filter_entries ds1 \<subseteq> insert (open_entry off pend []) (filter_entries ds))" by blast
  have "body_layout (tb_file b') mh ih ds1 \<and> all_pairs ds1 [] = all_pairs ds (rest_pairs pend [])" if okb: "tb_ok b'"
  proof -
    have "filter_layout (tb_file b') mh (filter_entries ds1)"
      using filter_layout_subset [OF filter_layout_append [OF pre(3), of x]] w(2) okb by metis
    with w(2) okb pre(2) show ?thesis unfolding body_layout_def by blast
  qed
  with w(1) show ?thesis by blast
qed (simp add: stopped)

lemma write_footer_any:
  assumes "tb_ok b \<longrightarrow> body_layout (tb_file b) mh ih ds"
  shows "\<exists>b'. write_footer (cap_wfile cap) b mh ih = Some b' \<and> (tb_ok b' \<longrightarrow> tb_ok b \<and> table_layout (tb_file b') ds)"
proof (cases "tb_ok b")
  case True
  with assms have body: "body_layout (tb_file b) mh ih ds" by blast
  then have "handle_ok mh" "handle_ok ih" by (simp_all add: body_layout_def)
  from write_footer_step [OF this True] obtain b' where b': "write_footer (cap_wfile cap) b mh ih = Some b'"
    "tb_ok b' \<longrightarrow> tb_file b' = tb_file b @ footer_bytes \<lparr>ft_metaindex_handle = mh, ft_index_handle = ih\<rparr> \<and>
      length (tb_file b') \<le> cap" by blast
  have "table_layout (tb_file b') ds" if okb: "tb_ok b'"
  proof -
    obtain x where x: "tb_file b' = tb_file b @ x" "x = footer_bytes \<lparr>ft_metaindex_handle = mh, ft_index_handle = ih\<rparr>"
      and len: "length (tb_file b') \<le> cap" using b'(2) okb by blast
    have "placed (tb_file b') ih (block_bytes 1 (map index_pair ds))" "filter_layout (tb_file b') mh (filter_entries ds)"
      "\<forall>d \<in> set ds. stored interval_of (tb_file b') (fst (snd d)) (block_pairs d)"
      using body placed_append stored_append filter_layout_append by (simp_all add: body_layout_def x(1))
    with body x len show ?thesis unfolding table_layout_def body_layout_def by blast
  qed
  with b'(1) True show ?thesis by blast
qed (simp add: stopped)

lemma finish_step:
  assumes "\<not> tb_closed b" and "tb_ok b \<longrightarrow> tb_ready b kvs"
  shows "\<exists>s b'. tb_Finish (cap_wfile cap) b = Some (s, b') \<and>
    (status_ok s \<longrightarrow> (\<exists>ds. table_layout (tb_file b') ds \<and> all_pairs ds [] = kvs))"
proof -
  let ?ops = "cap_wfile cap"
  obtain b1 where b1: "tb_Flush ?ops b = Some b1" "\<not> tb_closed b1"
    "tb_ok b1 \<longrightarrow> (\<exists>ds pend. tb_inv b1 ds pend [] \<and> kvs = all_pairs ds (rest_pairs pend []) \<and>
      (pend = None \<longrightarrow> ds = []) \<and> last_inv b1 kvs)" using last_flush [OF assms] by blast
  let ?b1 = "b1\<lparr>tb_closed := True\<rparr>"
  have finish: "tb_Finish ?ops b = do { (fh, r) \<leftarrow> write_filter ?ops ?b1; (mh, r) \<leftarrow> write_metaindex ?ops r fh;
      (ih, r) \<leftarrow> write_index ?ops r; r \<leftarrow> write_footer ?ops r mh ih; Some (tb_status r, r) }"
    using b1(1,2) by (simp add: tb_Finish_def)
  have "tb_ok ?b1 \<longrightarrow> (\<exists>ds pend. tail_inv ?b1 ds pend \<and> kvs = all_pairs ds (rest_pairs pend []) \<and>
      filter_inv (tb_filter_block ?b1) (tb_offset ?b1) (insert (open_entry (tb_offset b1) pend []) (filter_entries ds)))"
  proof
    assume "tb_ok ?b1"
    then have "tb_ok b1" by (simp add: tb_ok_def)
    with b1(3) obtain ds pend where inv: "tb_inv b1 ds pend []" and kvs: "kvs = all_pairs ds (rest_pairs pend [])"
      and last: "last_inv b1 kvs" by blast
    have "filter_inv (tb_filter_block ?b1) (tb_offset ?b1) (insert (open_entry (tb_offset b1) pend []) (filter_entries ds))"
      using inv by (simp add: tb_inv_def)
    with tb_inv_tail [OF inv last [unfolded kvs]] kvs
    show "\<exists>ds pend. tail_inv ?b1 ds pend \<and> kvs = all_pairs ds (rest_pairs pend []) \<and>
      filter_inv (tb_filter_block ?b1) (tb_offset ?b1) (insert (open_entry (tb_offset b1) pend []) (filter_entries ds))"
      by blast
  qed
  then obtain ds pend where pre: "tb_ok ?b1 \<longrightarrow> tail_inv ?b1 ds pend \<and>
      filter_inv (tb_filter_block ?b1) (tb_offset ?b1) (insert (open_entry (tb_offset b1) pend []) (filter_entries ds))"
    and kvs: "tb_ok ?b1 \<longrightarrow> kvs = all_pairs ds (rest_pairs pend [])" by blast
  from write_filter_any [OF pre] obtain fh b2 where b2: "write_filter ?ops ?b1 = Some (fh, b2)"
    "tb_ok b2 \<longrightarrow> tail_inv b2 ds pend \<and>
      filter_written (tb_file b2) fh (insert (open_entry (tb_offset b1) pend []) (filter_entries ds))" by blast
  from write_metaindex_any [OF b2(2)] obtain mh b3 where b3: "write_metaindex ?ops b2 fh = Some (mh, b3)"
    "tb_ok b3 \<longrightarrow> tail_inv b3 ds pend \<and> handle_ok mh \<and>
      filter_layout (tb_file b3) mh (insert (open_entry (tb_offset b1) pend []) (filter_entries ds))" by blast
  from write_index_any [OF b3(2)] obtain ih b4 where b4: "write_index ?ops b3 = Some (ih, b4)"
    "tb_ok b4 \<longrightarrow> (\<exists>ds1. body_layout (tb_file b4) mh ih ds1 \<and> all_pairs ds1 [] = all_pairs ds (rest_pairs pend []))"
    by blast
  then obtain ds1 where ds1: "tb_ok b4 \<longrightarrow> body_layout (tb_file b4) mh ih ds1"
    "tb_ok b4 \<longrightarrow> all_pairs ds1 [] = all_pairs ds (rest_pairs pend [])" by blast
  from write_footer_any [OF ds1(1)] obtain b5 where b5: "write_footer ?ops b4 mh ih = Some b5"
    "tb_ok b5 \<longrightarrow> tb_ok b4 \<and> table_layout (tb_file b5) ds1" by blast
  have "tb_ok ?b1" if "tb_ok b4"
    using that stopped [of ?b1 ?ops] b2(1) b3(1) b4(1) by (cases "tb_ok ?b1") auto
  with b2(1) b3(1) b4(1) b5 ds1(2) kvs show ?thesis by (auto simp: finish tb_ok_def)
qed

end

end
