(* ===== verification/Ldb_TableRead.thy ===== *)
theory Ldb_TableRead
  imports Ldb_TableFinish
begin

text \<open>
  Reading a table file of the layout \<open>table_layout\<close>: it opens, its filter is found, and a
  lookup of any valid key ends at the pair with this key, when there is one.
\<close>

lemma find_append_Some: "\<forall>x \<in> set xs. \<not> P x \<Longrightarrow> List.find P (xs @ ys) = List.find P ys"
  by (induction xs) auto

lemma find_append_hit: "List.find P xs = Some x \<Longrightarrow> List.find P (xs @ ys) = Some x"
  by (induction xs) auto

context table_contract
begin

section \<open>The order of the blocks\<close>

lemma layout_facts:
  assumes "table_layout F ds" and "d \<in> set ds"
  shows "block_pairs d \<noteq> []" "handle_ok (fst (snd d))"
    "placed F (fst (snd d)) (block_bytes interval_of (block_pairs d))"
    "block_fits interval_of (block_pairs d)" "sorted_pairs c valid (block_pairs d)" "fst d \<in> valid"
proof -
  have st: "stored interval_of F (fst (snd d)) (block_pairs d)" using assms by (simp add: table_layout_def)
  then show "block_pairs d \<noteq> []" "handle_ok (fst (snd d))"
    and p: "placed F (fst (snd d)) (block_bytes interval_of (block_pairs d))" by (simp_all add: stored_def)
  show "block_fits interval_of (block_pairs d)"
    using placed_length [OF p] assms(1) small_file interval by (simp add: block_fits_def table_layout_def)
  obtain ds1 ds2 where "ds = ds1 @ d # ds2" using assms(2) by (meson split_list)
  then show "sorted_pairs c valid (block_pairs d)" "fst d \<in> valid"
    using assms(1) by (auto simp: table_layout_def sorted_pairs_lt all_pairs_def sorted_wrt_append separated_def)
qed

lemma index_sorted:
  assumes "table_layout F ds"
  shows "sorted_pairs c valid (map index_pair ds)"
proof -
  have sep: "separated ds {}" using assms by (simp add: table_layout_def)
  have "lt (fst (ds ! i)) (fst (ds ! j))" if ij: "i < j" "j < length ds" for i j
  proof -
    obtain k where k: "k \<in> block_keys (ds ! j)"
      using layout_facts(1) [OF assms nth_mem [OF ij(2)]] by (cases "block_pairs (ds ! j)") (auto simp: block_keys_def)
    have "lt (fst (ds ! i)) k"
      using sep that k unfolding separated_def sorted_wrt_iff_nth_less by blast
    moreover have "le k (fst (ds ! j))" "fst (ds ! i) \<in> valid" "fst (ds ! j) \<in> valid"
      using sep that k by (auto simp: separated_def)
    moreover have "k \<in> valid" using layout_facts(5) [OF assms, of "ds ! j"] that k by (auto simp: sorted_pairs_lt block_keys_def)
    ultimately show ?thesis using lt_le_trans by blast
  qed
  then show ?thesis
    using sep by (auto simp: sorted_pairs_lt sorted_wrt_iff_nth_less index_pair_def separated_def)
qed

lemma index_fits: "table_layout F ds \<Longrightarrow> block_fits 1 (map index_pair ds)"
  using placed_length small_file by (fastforce simp: table_layout_def block_fits_def)

text \<open>The block at which the search in the index ends is the one that has the key.\<close>

lemma key_block:
  assumes "table_layout F ds" and "k \<in> valid" and "j \<le> length ds" and "\<forall>i < j. lt (fst (ds ! i)) k"
    and "j < length ds \<longrightarrow> \<not> lt (fst (ds ! j)) k" and "(k, v) \<in> set (all_pairs ds [])"
  shows "j < length ds \<and> (k, v) \<in> set (block_pairs (ds ! j))"
proof -
  have sep: "separated ds {}" using assms(1) by (simp add: table_layout_def)
  obtain d where "d \<in> set ds" "(k, v) \<in> set (block_pairs d)" using assms(6) by (auto simp: all_pairs_def)
  then obtain m where m: "m < length ds" "(k, v) \<in> set (block_pairs (ds ! m))" by (metis in_set_conv_nth)
  then have key: "k \<in> block_keys (ds ! m)" by (force simp: block_keys_def)
  then have "le k (fst (ds ! m))" "fst (ds ! m) \<in> valid" using sep m(1) by (auto simp: separated_def)
  then have "\<not> lt (fst (ds ! m)) k" using not_lt assms(2) by blast
  then have "j \<le> m" using assms(4) linorder_not_le by blast
  moreover have "\<not> j < m"
  proof
    assume "j < m"
    then have "lt (fst (ds ! j)) k" using sep m(1) key unfolding separated_def sorted_wrt_iff_nth_less by blast
    with assms(5) \<open>j < m\<close> m(1) show False by simp
  qed
  ultimately show ?thesis using m by auto
qed

text \<open>The first pair that is not before the key is the first such pair of this block.\<close>

lemma first_in_block:
  assumes "table_layout F ds" and "k \<in> valid" and "j < length ds" and "\<forall>i < j. lt (fst (ds ! i)) k"
    and "List.find (\<lambda>kv. \<not> lt (fst kv) k) (block_pairs (ds ! j)) = Some kv"
  shows "List.find (\<lambda>kv. \<not> lt (fst kv) k) (all_pairs ds []) = Some kv"
proof -
  have sep: "separated ds {}" using assms(1) by (simp add: table_layout_def)
  have "lt (fst x) k" if x: "x \<in> set (concat (map block_pairs (take j ds)))" for x
  proof -
    obtain d where "d \<in> set (take j ds)" "x \<in> set (block_pairs d)" using x by auto
    moreover from this obtain i where "i < length (take j ds)" "take j ds ! i = d" by (metis in_set_conv_nth)
    ultimately have i: "i < j" "x \<in> set (block_pairs (ds ! i))" by auto
    then have "le (fst x) (fst (ds ! i))" "fst (ds ! i) \<in> valid"
      using sep assms(3) by (auto simp: separated_def block_keys_def)
    moreover have "fst x \<in> valid" using layout_facts(5) [OF assms(1), of "ds ! i"] i assms(3) by (auto simp: sorted_pairs_lt)
    ultimately show ?thesis using le_lt_trans assms(2,4) i(1) by blast
  qed
  moreover have "all_pairs ds [] = concat (map block_pairs (take j ds)) @ block_pairs (ds ! j) @
      concat (map block_pairs (drop (Suc j) ds))"
    using arg_cong [OF id_take_nth_drop [OF assms(3)], of "\<lambda>l. concat (map block_pairs l)"] by (simp add: all_pairs_def)
  ultimately show ?thesis
    using find_append_hit [OF assms(5)] by (simp add: find_append_Some)
qed


section \<open>Searching in a block that was read\<close>

text \<open>A block of sorted pairs: its iterator, and where \<open>Seek\<close> ends.\<close>

lemma block_search:
  assumes fits: "block_fits r kvs" and "sorted_pairs c' valid' kvs" and order: "weak_order (Compare c') valid'"
    and "k \<in> valid'"
  obtains b it it' j where "Block (block_bytes r kvs) = Some b" "blk_NewIterator b c' = Some it" "it_Seek it k = Some it'"
    "it_status it' = OK" "it_Valid it' = (j < length kvs)" "j \<le> length kvs" "\<forall>i < j. before c' (fst (kvs ! i)) k"
    "j < length kvs \<Longrightarrow> \<not> before c' (fst (kvs ! j)) k" "j < length kvs \<Longrightarrow> it_key it' = Some (fst (kvs ! j))"
    "j < length kvs \<Longrightarrow> it_value it' = Some (snd (kvs ! j))"
proof -
  obtain b it where it: "Block (block_bytes r kvs) = Some b" "blk_NewIterator b c' = Some (EntryIterator it)"
    "iter_over c' r kvs it" using NewIterator_over [OF fits] by blast
  obtain it' j where j: "bi_Seek it k = Some it'" "at_next c' r kvs j it'" "j \<le> length kvs"
    "\<forall>i < j. before c' (fst (kvs ! i)) k" "j < length kvs \<longrightarrow> \<not> before c' (fst (kvs ! j)) k"
    using Seek_at [OF fits it(3) order assms(2,4)] by blast
  have st: "bi_status it' = OK" using j(2) by (auto simp: at_next_def at_entry_def at_end_def iter_over_def split: if_splits)
  have v: "bi_Valid it' = (j < length kvs)"
    using j(2) at_entry_Valid [OF fits] at_end_not_Valid by (auto simp: at_next_def split: if_splits)
  have kv: "j < length kvs \<longrightarrow> block_key it' = Some (fst (kvs ! j)) \<and> block_value it' = Some (snd (kvs ! j))"
    using j(2) at_entry_pair [OF fits, of c' j it'] by (simp add: at_next_def)
  show thesis
    by (rule that [of b "EntryIterator it" "EntryIterator it'" j])
       (use it(1,2) j(1,3,4,5) st v kv in \<open>simp_all add: it_Seek_def it_status_def it_Valid_def it_key_def it_value_def\<close>)
qed


section \<open>Opening\<close>

definition filter_ready :: "filter_block_reader option \<Rightarrow> data_block list \<Rightarrow> bool" where
  "filter_ready f ds \<longleftrightarrow> (f = None \<longleftrightarrow> to_filter_policy opts = None) \<and>
     (\<forall>rd. f = Some rd \<longrightarrow>
       (\<forall>d \<in> set ds. \<forall>key \<in> block_keys d. fbr_KeyMayMatch rd (bh_offset (fst (snd d))) key = Some True) \<and>
       (\<forall>off. \<forall>key \<in> valid. \<exists>m. fbr_KeyMayMatch rd off key = Some m))"

lemma read_meta:
  assumes "table_layout F ds" and "F = F0 @ footer_bytes \<lparr>ft_metaindex_handle = mh, ft_index_handle = ih\<rparr>"
    and "filter_layout F mh (filter_entries ds)" and "t_options t = opts" and "t_file t = F" and "t_filter t = None"
  shows "\<exists>f. t_ReadMeta mem_rafile t \<lparr>ft_metaindex_handle = mh, ft_index_handle = ih\<rparr> = Some (t\<lparr>t_filter := f\<rparr>) \<and>
    filter_ready f ds"
proof (cases "to_filter_policy opts")
  case None
  with assms(4,6) show ?thesis by (intro exI [of _ None]) (simp add: t_ReadMeta_def filter_ready_def)
next
  case (Some p)
  obtain fh contents where fh: "handle_ok fh" "placed F fh contents" "reader_ok p contents (filter_entries ds)"
    "placed F mh (block_bytes interval_of [(filter_key p, handle_bytes fh)])"
    using assms(3) Some by (auto simp: filter_layout_def)
  have small: "length F < 2 ^ 32" using assms(1) small_file by (simp add: table_layout_def)
  have fits: "block_fits interval_of [(filter_key p, handle_bytes fh)]"
    using placed_length [OF fh(4)] small interval by (simp add: block_fits_def)
  have "sorted_pairs BytewiseComparator UNIV [(filter_key p, handle_bytes fh)]"
    by (simp add: Ldb_BlockIter.sorted_pairs_def)
  note single = this
  let ?e = "[(filter_key p, handle_bytes fh)]"
  obtain b it it' j where s: "Block (block_bytes interval_of ?e) = Some b" "blk_NewIterator b BytewiseComparator = Some it"
      "it_Seek it (filter_key p) = Some it'" "it_status it' = OK" "it_Valid it' = (j < length ?e)" "j \<le> length ?e"
      "\<forall>i < j. before BytewiseComparator (fst (?e ! i)) (filter_key p)" "j < length ?e \<Longrightarrow> \<not> before BytewiseComparator (fst (?e ! j)) (filter_key p)"
      "j < length ?e \<Longrightarrow> it_key it' = Some (fst (?e ! j))"
      "j < length ?e \<Longrightarrow> it_value it' = Some (snd (?e ! j))"
      by (rule block_search [OF fits single bytewise_order.weak_order_axioms UNIV_I]) (rule that)
  have "j = 0"
  proof (rule ccontr)
    assume "j \<noteq> 0"
    then have "before BytewiseComparator (filter_key p) (filter_key p)" using s(7) by force
    then show False by (simp add: BytewiseComparator_Compare)
  qed
  with s have it': "it_Valid it'" "it_key it' = Some (filter_key p)" "it_value it' = Some (handle_bytes fh)" by simp_all
  obtain rd where rd: "FilterBlockReader p contents = Some rd"
    "\<forall>(off, ks) \<in> filter_entries ds. \<forall>key \<in> set ks. fbr_KeyMayMatch rd off key = Some True"
    "\<forall>off. \<forall>key \<in> valid. \<exists>m. fbr_KeyMayMatch rd off key = Some m" using fh(3) by (auto simp: reader_ok_def)
  have "bh_DecodeFrom BlockHandle (handle_bytes fh) = (OK, fh, [])" using bh_Decode_bytes [of _ fh "[]"] by simp
  then have "t_ReadFilter mem_rafile t (handle_bytes fh) = Some (t\<lparr>t_filter := Some rd\<rparr>)"
    using ReadBlock_placed [OF fh(2) small] assms(4,5) Some rd(1) by (simp add: t_ReadFilter_def)
  then have "t_ReadMeta mem_rafile t \<lparr>ft_metaindex_handle = mh, ft_index_handle = ih\<rparr> = Some (t\<lparr>t_filter := Some rd\<rparr>)"
    using ReadBlock_placed [OF fh(4) small] assms(4,5) Some s(1-3) it' by (simp add: t_ReadMeta_def)
  moreover have "filter_ready (Some rd) ds"
    using rd(2,3) Some by (fastforce simp: filter_ready_def filter_entries_def block_keys_def)
  ultimately show ?thesis by blast
qed

lemma table_open:
  assumes "table_layout F ds"
  shows "\<exists>t. Table_Open mem_rafile opts F (length F) = Some (OK, Some t) \<and> t_options t = opts \<and> t_file t = F \<and>
    Block (block_bytes 1 (map index_pair ds)) = Some (t_index_block t) \<and> filter_ready (t_filter t) ds"
proof -
  obtain F0 mh ih where F: "F = F0 @ footer_bytes \<lparr>ft_metaindex_handle = mh, ft_index_handle = ih\<rparr>"
    and ih: "placed F ih (block_bytes 1 (map index_pair ds))" and fl: "filter_layout F mh (filter_entries ds)"
    using assms by (auto simp: table_layout_def)
  let ?ft = "\<lparr>ft_metaindex_handle = mh, ft_index_handle = ih\<rparr>"
  have small: "length F < 2 ^ 32" using assms small_file by (simp add: table_layout_def)
  have len: "length F = length F0 + kEncodedLength" by (simp add: F)
  have "length F - kEncodedLength < 2 ^ 32" using small by simp
  then have "unat (of_nat (length F - kEncodedLength) :: u64) = length F0" using small_nat64 len by simp
  then have rd: "ra_Read mem_rafile F (of_nat (length F - kEncodedLength)) kEncodedLength = (OK, footer_bytes ?ft, True)"
    by (simp add: mem_rafile_def F)
  have dec: "ft_DecodeFrom ft0 (footer_bytes ?ft) = Some (OK, ?ft, [])" for ft0 using ft_Decode_bytes [of ft0 ?ft "[]"] by simp
  obtain b where b: "Block (block_bytes 1 (map index_pair ds)) = Some b"
    using NewIterator_over [OF index_fits [OF assms]] by blast
  let ?t = "\<lparr>t_options = opts, t_file = F, t_filter = None, t_metaindex_handle = mh, t_index_block = b\<rparr>"
  from read_meta [OF assms F fl, of ?t] obtain f where f: "t_ReadMeta mem_rafile ?t ?ft = Some (?t\<lparr>t_filter := f\<rparr>)"
    "filter_ready f ds" by auto
  have "Table_Open mem_rafile opts F (length F) = Some (OK, Some (?t\<lparr>t_filter := f\<rparr>))"
    using rd dec ReadBlock_placed [OF ih small] b f(1) len by (simp add: Table_Open_def)
  with b f(2) show ?thesis by auto
qed


section \<open>Looking up a key\<close>

lemma read_block_iterator:
  assumes "table_layout F ds" and "d \<in> set ds" and "t_file t = F" and "t_options t = opts"
    and "Block (block_bytes interval_of (block_pairs d)) = Some b" and "blk_NewIterator b c = Some it"
  shows "t_BlockReader mem_rafile t verify (handle_bytes (fst (snd d))) = Some it"
proof -
  have "bh_DecodeFrom BlockHandle (handle_bytes (fst (snd d))) = (OK, fst (snd d), [])"
    using bh_Decode_bytes [of _ "fst (snd d)" "[]"] by simp
  moreover have "length F < 2 ^ 32" using assms(1) small_file by (simp add: table_layout_def)
  ultimately show ?thesis
    using ReadBlock_placed [OF layout_facts(3) [OF assms(1,2)]] assms(3-6) comparator by (simp add: t_BlockReader_def)
qed

lemma find_nth:
  "j < length xs \<Longrightarrow> \<forall>i < j. \<not> P (xs ! i) \<Longrightarrow> P (xs ! j) \<Longrightarrow> List.find P xs = Some (xs ! j)"
  unfolding find_Some_iff by blast

lemma internal_get:
  assumes layout: "table_layout F ds" and "t_options t = opts" and "t_file t = F"
    and "Block (block_bytes 1 (map index_pair ds)) = Some (t_index_block t)" and "filter_ready (t_filter t) ds"
    and k: "k \<in> valid"
  shows "\<exists>saved. t_InternalGet mem_rafile t verify k = Some (OK, saved) \<and>
    (\<forall>v. (k, v) \<in> set (all_pairs ds []) \<longrightarrow> saved = Some (k, v)) \<and>
    (\<forall>kv. saved = Some kv \<longrightarrow> List.find (\<lambda>kv. \<not> lt (fst kv) k) (all_pairs ds []) = Some kv)"
proof -
  note order = weak_order_axioms
  let ?ix = "map index_pair ds"
  obtain b it it' j where s0: "Block (block_bytes 1 ?ix) = Some b" "blk_NewIterator b c = Some it"
      "it_Seek it k = Some it'" "it_status it' = OK" "it_Valid it' = (j < length ?ix)" "j \<le> length ?ix"
      "\<forall>i < j. before c (fst (?ix ! i)) k" "j < length ?ix \<Longrightarrow> \<not> before c (fst (?ix ! j)) k"
      "j < length ?ix \<Longrightarrow> it_key it' = Some (fst (?ix ! j))"
      "j < length ?ix \<Longrightarrow> it_value it' = Some (snd (?ix ! j))"
      by (rule block_search [OF index_fits [OF layout] index_sorted [OF layout] order k]) (rule that)
  have s: "blk_NewIterator (t_index_block t) c = Some it" "it_Seek it k = Some it'" "it_status it' = OK"
    "j \<le> length ds" "\<forall>i < j. lt (fst (ds ! i)) k" "j < length ds \<longrightarrow> \<not> lt (fst (ds ! j)) k"
    "j < length ds \<longrightarrow> it_value it' = Some (handle_bytes (fst (snd (ds ! j))))" "it_Valid it' = (j < length ds)"
    using s0 assms(4) by (simp_all add: index_pair_def)
  have c0: "to_comparator (t_options t) = c" using assms(2) comparator by simp
  have has: "j < length ds \<and> (k, v) \<in> set (block_pairs (ds ! j))" if "(k, v) \<in> set (all_pairs ds [])" for v
    using key_block [OF layout k s(4,5,6) that] .
  show ?thesis
  proof (cases "j < length ds")
    case False
    with s c0 has show ?thesis by (auto simp: t_InternalGet_def)
  next
    case True
    let ?d = "ds ! j" and ?kvs = "block_pairs (ds ! j)"
    have d: "?d \<in> set ds" using True by simp
    obtain b2 it2 it2' i where s2: "Block (block_bytes interval_of ?kvs) = Some b2" "blk_NewIterator b2 c = Some it2"
      "it_Seek it2 k = Some it2'" "it_status it2' = OK" "it_Valid it2' = (i < length ?kvs)" "i \<le> length ?kvs"
      "\<forall>m < i. before c (fst (?kvs ! m)) k" "i < length ?kvs \<Longrightarrow> \<not> before c (fst (?kvs ! i)) k"
      "i < length ?kvs \<Longrightarrow> it_key it2' = Some (fst (?kvs ! i))"
      "i < length ?kvs \<Longrightarrow> it_value it2' = Some (snd (?kvs ! i))"
      by (rule block_search [OF layout_facts(4,5) [OF layout d] order k]) (rule that)
    note reader = read_block_iterator [OF layout d assms(3,2) s2(1,2), of verify]
    have dec: "bh_DecodeFrom BlockHandle (handle_bytes (fst (snd ?d))) = (OK, fst (snd ?d), [])"
      using bh_Decode_bytes [of _ "fst (snd ?d)" "[]"] by simp
    define hit where "hit = (if i < length ?kvs then Some (?kvs ! i) else None)"
    have hit_first: "List.find (\<lambda>kv. \<not> lt (fst kv) k) (all_pairs ds []) = Some kv" if "hit = Some kv" for kv
      using first_in_block [OF layout k True s(5)] find_nth [of i ?kvs "\<lambda>kv. \<not> lt (fst kv) k"] s2(7,8) that
      by (auto simp: hit_def split: if_splits)
    have hit_key: "hit = Some (k, v)" if kv: "(k, v) \<in> set (all_pairs ds [])" for v
    proof -
      obtain m where m: "m < length ?kvs" "?kvs ! m = (k, v)" using has [OF kv] by (metis in_set_conv_nth)
      then have "\<not> m < i" using s2(7) lt_irrefl [OF k] by force
      moreover have "\<not> i < m"
      proof
        assume "i < m"
        with m have "lt (fst (?kvs ! i)) k"
          using sorted_pairsD(2) [OF layout_facts(5) [OF layout d], of i m] by simp
        with s2(8) \<open>i < m\<close> m(1) show False by simp
      qed
      ultimately show ?thesis using m by (simp add: hit_def linorder_not_less)
    qed
    have "\<exists>m. (case t_filter t of None \<Rightarrow> Some True
        | Some f \<Rightarrow> fbr_KeyMayMatch f (bh_offset (fst (snd ?d))) k) = Some m \<and>
      (\<forall>v. (k, v) \<in> set (all_pairs ds []) \<longrightarrow> m)"
    proof (cases "t_filter t")
      case (Some f)
      with assms(5) have ready: "\<forall>d \<in> set ds. \<forall>key \<in> block_keys d. fbr_KeyMayMatch f (bh_offset (fst (snd d))) key = Some True"
        "\<forall>off. \<forall>key \<in> valid. \<exists>m. fbr_KeyMayMatch f off key = Some m" by (simp_all add: filter_ready_def)
      with k obtain m where "fbr_KeyMayMatch f (bh_offset (fst (snd ?d))) k = Some m" by blast
      moreover have "m" if "(k, v) \<in> set (all_pairs ds [])" for v
        using bspec [OF ready(1) d] has [OF that] \<open>fbr_KeyMayMatch f _ k = Some m\<close> by (force simp: block_keys_def)
      ultimately show ?thesis using Some by auto
    qed (auto intro: exI [of _ True])
    then obtain m where m: "(case t_filter t of None \<Rightarrow> Some True
        | Some f \<Rightarrow> fbr_KeyMayMatch f (bh_offset (fst (snd ?d))) k) = Some m"
      "\<forall>v. (k, v) \<in> set (all_pairs ds []) \<longrightarrow> m" by blast
    have "t_InternalGet mem_rafile t verify k = Some (OK, if m then hit else None)"
      using s True c0 dec m(1) reader s2(3-5,9,10)
      by (cases "t_filter t"; cases "i < length ?kvs") (auto simp: t_InternalGet_def hit_def)
    then show ?thesis using hit_first hit_key m(2) by (auto split: if_splits)
  qed
qed


section \<open>From the pairs to the lookup\<close>

lemma table_round_trip:
  assumes sorted: "sorted_pairs c valid pairs"
  shows "\<exists>b0 b s b'. TableBuilder opts [] = Some b0 \<and> tb_Adds (cap_wfile cap) b0 pairs = Some b \<and>
    tb_Finish (cap_wfile cap) b = Some (s, b') \<and>
    (status_ok s \<longrightarrow> (\<exists>t. Table_Open mem_rafile opts (tb_file b') (length (tb_file b')) = Some (OK, Some t) \<and>
      (\<forall>k \<in> valid. \<exists>saved. t_InternalGet mem_rafile t verify k = Some (OK, saved) \<and>
        (\<forall>v. (k, v) \<in> set pairs \<longrightarrow> saved = Some (k, v)) \<and>
        (\<forall>kv. saved = Some kv \<longrightarrow> List.find (\<lambda>kv. \<not> lt (fst kv) k) pairs = Some kv))))"
proof -
  obtain b0 where b0: "TableBuilder opts ([] :: byte list) = Some b0" "\<not> tb_closed b0" "tb_ready b0 []"
    using TableBuilder_ready by blast
  obtain b where b: "tb_Adds (cap_wfile cap) b0 pairs = Some b" "\<not> tb_closed b" "tb_ok b \<longrightarrow> tb_ready b pairs"
    using adds_step [of b0 "[]" pairs] b0 sorted by auto
  obtain s b' where fin: "tb_Finish (cap_wfile cap) b = Some (s, b')"
    "status_ok s \<longrightarrow> (\<exists>ds. table_layout (tb_file b') ds \<and> all_pairs ds [] = pairs)"
    using finish_step [OF b(2,3)] by blast
  have "\<exists>t. Table_Open mem_rafile opts (tb_file b') (length (tb_file b')) = Some (OK, Some t) \<and>
      (\<forall>k \<in> valid. \<exists>saved. t_InternalGet mem_rafile t verify k = Some (OK, saved) \<and>
        (\<forall>v. (k, v) \<in> set pairs \<longrightarrow> saved = Some (k, v)) \<and>
        (\<forall>kv. saved = Some kv \<longrightarrow> List.find (\<lambda>kv. \<not> lt (fst kv) k) pairs = Some kv))" if okf: "status_ok s"
  proof -
    obtain ds where ds: "table_layout (tb_file b') ds" "all_pairs ds [] = pairs" using fin(2) okf by blast
    obtain t where t: "Table_Open mem_rafile opts (tb_file b') (length (tb_file b')) = Some (OK, Some t)"
      "t_options t = opts" "t_file t = tb_file b'"
      "Block (block_bytes 1 (map index_pair ds)) = Some (t_index_block t)" "filter_ready (t_filter t) ds"
      using table_open [OF ds(1)] by blast
    show ?thesis using t(1) internal_get [OF ds(1) t(2-5), of _ verify] by (auto simp: ds(2))
  qed
  with b0(1) b(1) fin(1) show ?thesis by blast
qed

end

text \<open>The configuration of a database with a Bloom filter: files of up to four gigabytes.\<close>

interpretation database: table_contract "InternalKeyComparator BytewiseComparator" "{k. 8 \<le> length k}"
  "SanitizeOptions (Options_init\<lparr>to_filter_policy := Some (BloomFilterPolicy bits)\<rparr>)" "2 ^ 32 - 1" for bits
proof (rule table_contract.intro [OF internal.separating_axioms table_contract_axioms.intro])
  show "sound_filter p {k. 8 \<le> length k}"
    if "to_filter_policy (SanitizeOptions (Options_init\<lparr>to_filter_policy := Some (BloomFilterPolicy bits)\<rparr>)) = Some p" for p
    using that bloom.internal_sound [of bits] by (simp add: SanitizeOptions_def)
qed (simp_all add: SanitizeOptions_def Options_init_def)

end
