(* ===== verification/Ldb_TableProperties.thy ===== *)
theory Ldb_TableProperties
  imports Ldb_LogTotal Ldb_BlockSafety Ldb_VersionEdit Ldb_TableRead
begin

text \<open>
  The properties of the table files, the filters, the version edits, and of the log reader
  on arbitrary bytes.
\<close>

section \<open>The log reader on any bytes\<close>

text \<open>
  C23. Whatever bytes a log file has, and wherever reading starts, calling \<open>ReadRecord\<close>
  again and again ends: every call returns, and after at most twice the length of the file
  and two more calls one of them has answered that the log is at its end.
\<close>

theorem log_reader_reaches_end:
  "\<exists>ds r'. ReadRecords mem_sfile (2 * length S + 2) (log_Reader S rep chk start) = Some (ds, r') \<and>
    length ds < 2 * length S + 2"
  by (rule ReadRecords_total) (simp add: left_over_def log_Reader_def)


section \<open>Blocks\<close>

text \<open>
  C24. A block gives its pairs back: whenever the builder accepts a sequence of pairs (its
  assertions hold), the finished block, if its size fits 32 bits, is accepted by \<open>Block\<close>,
  and its iterator visits exactly the pairs from \<open>SeekToFirst\<close> by \<open>Next\<close> and, in reverse,
  from \<open>SeekToLast\<close> by \<open>Prev\<close>.
\<close>

theorem block_reads_back:
  assumes "BlockBuilder options = Some b0" and "bb_Adds b0 kvs = Some b"
    and "length (fst (bb_Finish b)) < 2 ^ 32"
  shows "\<exists>blk it first_it last_it. Block (fst (bb_Finish b)) = Some blk \<and>
    blk_NewIterator blk (opt_comparator options) = Some (EntryIterator it) \<and>
    bi_SeekToFirst it = Some first_it \<and> scan_forward (Suc (length kvs)) first_it = Some kvs \<and>
    bi_SeekToLast it = Some last_it \<and> scan_backward (Suc (length kvs)) last_it = Some (rev kvs)"
proof -
  let ?r = "block_restart_interval options" and ?c = "opt_comparator options"
  have r: "1 \<le> ?r" using assms(1) by (simp add: BlockBuilder_def split: if_splits)
  have "bb_options b0 = options" "bb_holds b0 []" using BlockBuilder_holds [OF r] assms(1) by auto
  with bb_Adds_asserted [OF _ assms(2), of "[]"] have "bb_holds b kvs" "bb_options b = options" by auto
  with bb_Finish_holds [of b kvs] have bytes: "fst (bb_Finish b) = block_bytes ?r kvs" by simp
  have block_fits: "block_fits ?r kvs" using r assms(3) by (simp add: block_fits_def bytes)
  obtain blk it where it: "Block (block_bytes ?r kvs) = Some blk"
    "blk_NewIterator blk ?c = Some (EntryIterator it)" "iter_over ?c ?r kvs it"
    using NewIterator_over [OF block_fits] by blast
  obtain f where f: "bi_SeekToFirst it = Some f" "at_next ?c ?r kvs 0 f" using SeekToFirst_at [OF block_fits it(3)] by blast
  obtain l where l: "bi_SeekToLast it = Some l"
    "if kvs = [] then at_end ?c ?r kvs l else at_entry ?c ?r kvs (length kvs - 1) l"
    using SeekToLast_at [OF block_fits it(3)] by blast
  have "scan_forward (Suc (length kvs)) f = Some kvs" using scan_forward_at [OF block_fits f(2), of "Suc (length kvs)"] by simp
  moreover have "scan_backward (Suc (length kvs)) l = Some (rev kvs)"
  proof (cases "kvs = []")
    case True
    with l(2) show ?thesis by (auto dest: at_end_not_Valid)
  next
    case False
    with l(2) scan_backward_at [OF block_fits, of ?c "length kvs - 1" l "Suc (length kvs)"] show ?thesis by simp
  qed
  ultimately show ?thesis using it(1,2) f(1) l(1) by (auto simp: bytes)
qed

theorem block_reads_back_witness:
  "\<exists>b0 b. BlockBuilder \<lparr>opt_comparator = BytewiseComparator, block_restart_interval = 2\<rparr> = Some b0 \<and>
    bb_Adds b0 [([97], [1]), ([97, 98], [2]), ([98], [])] = Some b \<and>
    (\<exists>blk it first_it. Block (fst (bb_Finish b)) = Some blk \<and>
      blk_NewIterator blk BytewiseComparator = Some (EntryIterator it) \<and>
      bi_SeekToFirst it = Some first_it \<and>
      scan_forward 4 first_it = Some [([97], [1]), ([97, 98], [2]), ([98], [])])"
proof -
  define o1 where "o1 = \<lparr>opt_comparator = BytewiseComparator, block_restart_interval = 2\<rparr>"
  define b0 where "b0 = the (BlockBuilder o1)"
  have b0: "BlockBuilder o1 = Some b0" by (simp add: b0_def o1_def BlockBuilder_def)
  define kvs :: "(slice \<times> slice) list" where "kvs = [([97], [1]), ([97, 98], [2]), ([98], [])]"
  have "sorted_pairs BytewiseComparator UNIV kvs"
    by (simp add: sorted_pairs_def kvs_def BytewiseComparator_Compare slice_compare_def Let_def)
  with bb_Adds_sorted [OF bytewise_order.weak_order_axioms, of b0 "[]" kvs]
    BlockBuilder_holds [of o1] b0 obtain b where b: "bb_Adds b0 kvs = Some b" by (auto simp: o1_def)
  have h: "bb_holds b kvs" "bb_options b = o1"
    using bb_Adds_asserted [OF _ b, of "[]"] BlockBuilder_holds [of o1] b0 by (auto simp: o1_def)
  have "length (fst (bb_Finish b)) < 2 ^ 32"
    using bb_Finish_holds [OF h(1)]
    by (simp add: h(2) o1_def kvs_def block_bytes_def entries_def entry_def entry_header_def entry_shared_def
        restarts_of_def groups_def common_def shared_loop.simps upt_rec EncodeVarint32_def Let_def)
  from block_reads_back [OF b0 b this] b0 b show ?thesis
    unfolding kvs_def o1_def block_options.select_convs by (auto simp del: scan_forward.simps scan_backward.simps bb_Adds.simps simp: numeral_eq_Suc)
qed

text \<open>
  C25. Searching in a block: for pairs in the order of a comparator that is a weak order on
  the valid keys, no assertion of the builder fails, and \<open>Seek\<close> in the finished block ends at
  the first pair whose key is not before the target, or at the end when there is none.
\<close>

theorem block_seek:
  assumes "weak_order (Compare c) valid" and "sorted_pairs c valid kvs" and "target \<in> valid" and "1 \<le> r"
  shows "\<exists>b0 b. BlockBuilder \<lparr>opt_comparator = c, block_restart_interval = r\<rparr> = Some b0 \<and>
    bb_Adds b0 kvs = Some b \<and>
    (length (fst (bb_Finish b)) < 2 ^ 32 \<longrightarrow>
      (\<exists>blk it it'. Block (fst (bb_Finish b)) = Some blk \<and> blk_NewIterator blk c = Some (EntryIterator it) \<and>
        bi_Seek it target = Some it' \<and>
        (case List.find (\<lambda>kv. \<not> before c (fst kv) target) kvs of
           None \<Rightarrow> \<not> bi_Valid it' \<and> bi_status it' = OK
         | Some (k, v) \<Rightarrow> block_key it' = Some k \<and> block_value it' = Some v)))"
proof -
  define o1 where "o1 = \<lparr>opt_comparator = c, block_restart_interval = r\<rparr>"
  obtain b0 where b0: "BlockBuilder o1 = Some b0" "bb_options b0 = o1" "bb_holds b0 []"
    using BlockBuilder_holds [of o1] assms(4) by (auto simp: o1_def)
  obtain b where b: "bb_Adds b0 kvs = Some b"
    using bb_Adds_sorted [OF assms(1) _ b0(3)] assms(2) b0(2) by (auto simp: o1_def)
  have "bb_holds b kvs" "bb_options b = o1" using bb_Adds_asserted [OF b0(3) b] b0(2) by auto
  with bb_Finish_holds [of b kvs] have bytes: "fst (bb_Finish b) = block_bytes r kvs" by (simp add: o1_def)
  have "\<exists>blk it it'. Block (block_bytes r kvs) = Some blk \<and> blk_NewIterator blk c = Some (EntryIterator it) \<and>
        bi_Seek it target = Some it' \<and>
        (case List.find (\<lambda>kv. \<not> before c (fst kv) target) kvs of
           None \<Rightarrow> \<not> bi_Valid it' \<and> bi_status it' = OK
         | Some (k, v) \<Rightarrow> block_key it' = Some k \<and> block_value it' = Some v)"
    if "length (block_bytes r kvs) < 2 ^ 32"
  proof -
    have block_fits: "block_fits r kvs" using that assms(4) by (simp add: block_fits_def)
    obtain blk it where it: "Block (block_bytes r kvs) = Some blk"
      "blk_NewIterator blk c = Some (EntryIterator it)" "iter_over c r kvs it"
      using NewIterator_over [OF block_fits] by blast
    obtain it' j where j: "bi_Seek it target = Some it'" "at_next c r kvs j it'" "j \<le> length kvs"
      "\<forall>i < j. before c (fst (kvs ! i)) target" "j < length kvs \<longrightarrow> \<not> before c (fst (kvs ! j)) target"
      using Seek_at [OF block_fits it(3) assms(1,2,3)] by blast
    have "case List.find (\<lambda>kv. \<not> before c (fst kv) target) kvs of
           None \<Rightarrow> \<not> bi_Valid it' \<and> bi_status it' = OK
         | Some (k, v) \<Rightarrow> block_key it' = Some k \<and> block_value it' = Some v"
    proof (cases "j < length kvs")
      case True
      with j(4,5) have "List.find (\<lambda>kv. \<not> before c (fst kv) target) kvs = Some (kvs ! j)"
        unfolding find_Some_iff by blast
      with True j(2) at_entry_pair [OF block_fits, of c j it'] show ?thesis by (auto simp: at_next_def split: prod.split)
    next
      case False
      with j(3,4) have "List.find (\<lambda>kv. \<not> before c (fst kv) target) kvs = None"
        unfolding find_None_iff by (auto simp: in_set_conv_nth)
      with False j(2) at_end_not_Valid show ?thesis by (auto simp: at_next_def at_end_def iter_over_def)
    qed
    with it(1,2) j(1) show ?thesis by blast
  qed
  note seek = this
  show ?thesis
    by (rule exI [of _ b0], rule exI [of _ b], rule conjI [OF _ conjI [OF _ impI]])
       (use b0(1) b seek in \<open>simp_all add: o1_def bytes\<close>)
qed

theorem block_seek_witness:
  "\<exists>b0 b. BlockBuilder \<lparr>opt_comparator = BytewiseComparator, block_restart_interval = 16\<rparr> = Some b0 \<and>
    bb_Adds b0 [([97], [1]), ([99], [3])] = Some b"
  using block_seek [OF bytewise_order.weak_order_axioms, of "[([97], [1]), ([99], [3])]" "[98]" 16]
  by (fastforce simp: sorted_pairs_def BytewiseComparator_Compare slice_compare_def Let_def simp del: bb_Adds.simps)




text \<open>
  The fast path of \<open>DecodeEntry\<close>, which reads three single bytes when none of them is a
  continuation byte, gives the same result on every input as three variable-length integers
  in a row.
\<close>

theorem decode_entry_fast_path:
  "DecodeEntry p =
     do { (shared, p) \<leftarrow> GetVarint32 p;
          (non_shared, p) \<leftarrow> GetVarint32 p;
          (value_length, p) \<leftarrow> GetVarint32 p;
          if (of_nat (length p) :: u32) < non_shared + value_length then None
          else Some (shared, non_shared, value_length, p) }"
  by (simp add: DecodeEntry_slow decode_slow_def)


section \<open>Filters\<close>

text \<open>
  The Bloom filter has no false negatives: for any number of bits per key, the filter
  that \<open>CreateFilter\<close> appends for a list of keys matches every key of the list.
\<close>

theorem bloom_no_false_negative:
  assumes "key \<in> set keys"
  shows "\<exists>f. CreateFilter (BloomFilterPolicy b) keys dst = Some (dst @ f) \<and>
    KeyMayMatch (BloomFilterPolicy b) key f = Some True"
  using bloom.create [of keys b dst] bloom.match [of keys b dst] assms by blast

theorem bloom_no_false_negative_witness:
  "\<exists>f. CreateFilter (BloomFilterPolicy 10) [[104, 105], []] [1] = Some ([1] @ f) \<and>
    KeyMayMatch (BloomFilterPolicy 10) [] f = Some True"
  by (rule bloom_no_false_negative) simp

text \<open>
  C28. Nor has the filter block of a table, with the wrapped Bloom policy that a database uses:
  when the builder is given data blocks at increasing offsets with their internal keys, it
  aborts nowhere, and the reader of the finished filter block, if its size fits 32 bits, says
  of every key of a data block that it may match there.
\<close>

theorem filter_block_no_false_negative:
  assumes "sorted (map fst bs)" and "\<forall>(off, ks) \<in> set bs. \<forall>k \<in> set ks. 8 \<le> length k"
  shows "\<exists>builder contents builder'.
    fbb_blocks (FilterBlockBuilder (InternalFilterPolicy (BloomFilterPolicy b))) bs = Some builder \<and>
    fbb_Finish builder = Some (contents, builder') \<and>
    (length contents < 2 ^ 32 \<longrightarrow>
      (\<exists>r. FilterBlockReader (InternalFilterPolicy (BloomFilterPolicy b)) contents = Some r \<and>
        (\<forall>(off, ks) \<in> set bs. \<forall>key \<in> set ks. fbr_KeyMayMatch r off key = Some True)))"
  by (rule sound_filter.filter_block_matches [OF bloom.internal_sound assms(1)]) (use assms(2) in auto)

theorem filter_block_no_false_negative_witness:
  "\<exists>builder. fbb_blocks (FilterBlockBuilder (InternalFilterPolicy (BloomFilterPolicy 10)))
    [(0, [[1, 0, 0, 0, 0, 0, 0, 0, 0]]), (5000, [[2, 0, 0, 0, 0, 0, 0, 0, 0]])] = Some builder"
proof -
  let ?bs = "[(0, [[1, 0, 0, 0, 0, 0, 0, 0, 0]]), (5000, [[2, 0, 0, 0, 0, 0, 0, 0, 0]])] :: (u64 \<times> slice list) list"
  have "sorted (map fst ?bs)" "\<forall>(off, ks) \<in> set ?bs. \<forall>k \<in> set ks. 8 \<le> length k" by simp_all
  from filter_block_no_false_negative [OF this] show ?thesis by blast
qed


section \<open>The frame of a table file\<close>

text \<open>
  A footer is read back: when both handles have been set, \<open>EncodeTo\<close> gives exactly
  \<open>kEncodedLength\<close> bytes, and \<open>DecodeFrom\<close> returns the two handles and the input behind them.
\<close>

theorem footer_round_trip:
  assumes "ft_metaindex_handle ft = \<lparr>bh_offset = a, bh_size = b\<rparr>" and "a \<noteq> NOT 0" and "b \<noteq> NOT 0"
    and "ft_index_handle ft = \<lparr>bh_offset = c, bh_size = d\<rparr>" and "c \<noteq> NOT 0" and "d \<noteq> NOT 0"
  shows "\<exists>bytes. ft_EncodeTo ft [] = Some bytes \<and> length bytes = kEncodedLength \<and>
    ft_DecodeFrom ft0 (bytes @ rest) = Some (OK, ft, rest)"
  using assms ft_EncodeTo_bytes [of ft] by (simp add: handle_ok_def ft_Decode_bytes)

theorem footer_round_trip_witness:
  "\<exists>bytes. ft_EncodeTo \<lparr>ft_metaindex_handle = \<lparr>bh_offset = 700, bh_size = 8\<rparr>,
      ft_index_handle = \<lparr>bh_offset = 713, bh_size = 90\<rparr>\<rparr> [] = Some bytes \<and> length bytes = kEncodedLength"
  using footer_round_trip [of "\<lparr>ft_metaindex_handle = \<lparr>bh_offset = 700, bh_size = 8\<rparr>,
      ft_index_handle = \<lparr>bh_offset = 713, bh_size = 90\<rparr>\<rparr>" 700 8 713 90 _ "[]"]
  by fastforce

text \<open>
  A block handle whose size is within five bytes of \<open>2 ^ 64\<close>: \<open>n + kBlockTrailerSize\<close>
  wraps around, the check for a truncated read passes, and \<open>ReadBlock\<close> reads the type of the
  block far behind the bytes that it has read.
\<close>

theorem read_block_size_wraps:
  assumes "2 ^ 64 - 5 \<le> unat (bh_size h)" and "unat (bh_offset h) + 5 \<le> length file"
  shows "ReadBlock mem_rafile file verify h = None"
  using assms by (rule ReadBlock_wraps)

theorem read_block_size_wraps_witness:
  "ReadBlock mem_rafile (replicate 9 0) True \<lparr>bh_offset = 2, bh_size = 0xFFFFFFFFFFFFFFFE\<rparr> = None"
  by (rule read_block_size_wraps) simp_all


section \<open>Tables\<close>

text \<open>A table with one pair, in a file of a thousand bytes.\<close>

lemma sample_successor: "FindShortSuccessor BytewiseComparator [1] = Some [2]"
  by (simp add: BytewiseComparator_def bytewise_FindShortSuccessor_def successor_loop.simps)

lemma sample_handle: "bh_EncodeTo \<lparr>bh_offset = 0, bh_size = 13\<rparr> [] = Some [0, 13]"
  by (simp add: bh_EncodeTo_def PutVarint64_def EncodeVarint64.simps)

lemma sample_index: "bb_Add \<lparr>bb_options = \<lparr>opt_comparator = BytewiseComparator, block_restart_interval = Suc 0\<rparr>,
    bb_buffer = [], bb_restarts = [0], bb_counter = 0, bb_finished = False, bb_last_key = []\<rparr> [2] [0, 13] =
    Some \<lparr>bb_options = \<lparr>opt_comparator = BytewiseComparator, block_restart_interval = Suc 0\<rparr>,
    bb_buffer = [0, 1, 2, 2, 0, 13], bb_restarts = [0], bb_counter = 1, bb_finished = False, bb_last_key = [2]\<rparr>"
  by (simp add: bb_Add_def bb_may_add_def shared_loop.simps PutVarint32_def EncodeVarint32_def Let_def)

lemma small_table_written:
  "\<exists>b0 b b'. TableBuilder Options_init ([] :: byte list) = Some b0 \<and>
    tb_Adds (cap_wfile 1000) b0 [([1], [7])] = Some b \<and> tb_Finish (cap_wfile 1000) b = Some (OK, b')"
  by (simp add: TableBuilder_def Options_init_def BlockBuilder_def block_opts_def index_block_opts_def tb_Add_def
      tb_ok_def bb_Add_def bb_may_add_def Let_def shared_loop.simps PutVarint32_def EncodeVarint32_def CurrentSizeEstimate_def,
    simp add: tb_Finish_def tb_Flush_def bb_empty_def tb_ok_def WriteBlock_fits at_offset_def bb_Finish_def Let_def
      PutFixed32_def bb_Reset_def cap_wfile_def [of 1000, THEN arg_cong [of _ _ wf_Flush]],
    simp add: write_filter_def write_metaindex_def BlockBuilder_def block_opts_def tb_ok_def WriteBlock_fits at_offset_def
      bb_Finish_def Let_def PutFixed32_def bb_Reset_def,
    simp add: write_index_def emit_index_entry_def tb_ok_def sample_successor handle_at_def sample_handle sample_index WriteBlock_fits at_offset_def
      bb_Finish_def PutFixed32_def Let_def,
    simp add: write_footer_def tb_ok_def ft_EncodeTo_bytes handle_ok_def cap_wfile_def kEncodedLength_def kMaxEncodedLength_def)

text \<open>
  C29. A table file answers like the list of pairs it was built from.  For any comparator and
  filter policy that keep their contracts, any block size, any restart interval and any file
  capacity below four gigabytes: building a table from sorted pairs aborts nowhere, and when
  \<open>Finish\<close> returns OK (it returns an error when the file is full), the file opens, and a
  lookup of any valid key returns OK.  It finds the pair of the key if there is one; what it
  finds otherwise, if anything, is the first pair behind the key.
\<close>

theorem table_lookup:
  assumes "separating c valid" and "to_comparator opts = c" and "1 \<le> to_block_restart_interval opts"
    and "\<And>p. to_filter_policy opts = Some p \<Longrightarrow> sound_filter p valid" and "cap < 2 ^ 32"
    and "sorted_pairs c valid pairs"
  shows "\<exists>b0 b s b'. TableBuilder opts [] = Some b0 \<and> tb_Adds (cap_wfile cap) b0 pairs = Some b \<and>
    tb_Finish (cap_wfile cap) b = Some (s, b') \<and>
    (status_ok s \<longrightarrow> (\<exists>t. Table_Open mem_rafile opts (tb_file b') (length (tb_file b')) = Some (OK, Some t) \<and>
      (\<forall>k \<in> valid. \<exists>saved. t_InternalGet mem_rafile t verify k = Some (OK, saved) \<and>
        (\<forall>v. (k, v) \<in> set pairs \<longrightarrow> saved = Some (k, v)) \<and>
        (\<forall>kv. saved = Some kv \<longrightarrow> List.find (\<lambda>kv. \<not> before c (fst kv) k) pairs = Some kv))))"
proof -
  have contract: "table_contract c valid opts cap"
    by (rule table_contract.intro [OF assms(1) table_contract_axioms.intro]) (use assms in auto)
  have "key_order (Compare c) valid" using assms(1) by (rule separating.axioms)
  then have "weak_order (Compare c) valid" by (rule key_order.axioms)
  from weak_order.lt_def [OF this] table_contract.table_round_trip [OF contract assms(6), of verify]
  show ?thesis by simp
qed

theorem table_lookup_witness:
  "\<exists>b0 b b' t. TableBuilder Options_init [] = Some b0 \<and> tb_Adds (cap_wfile 1000) b0 [([1], [7])] = Some b \<and>
    tb_Finish (cap_wfile 1000) b = Some (OK, b') \<and>
    Table_Open mem_rafile Options_init (tb_file b') (length (tb_file b')) = Some (OK, Some t) \<and>
    t_InternalGet mem_rafile t True [1] = Some (OK, Some ([1], [7]))"
proof -
  have "sorted_pairs BytewiseComparator UNIV [([1], [7])]" by (simp add: Ldb_BlockIter.sorted_pairs_def)
  from table_lookup [OF bytewise.separating_axioms _ _ _ _ this, of Options_init 1000 True] small_table_written
  show ?thesis by (fastforce simp: Options_init_def status_ok_def OK_def simp del: tb_Adds.simps)
qed


section \<open>Version edits\<close>

text \<open>
  C30. A version edit is read back from its bytes: for an edit as the database writes them,
  \<open>EncodeTo\<close> does not fail and \<open>DecodeFrom\<close> gives the edit back into any edit.  Only the
  compaction pointers of the edit that is decoded into stay in front of those that were read,
  for \<open>Clear\<close> does not remove them.
\<close>

theorem version_edit_round_trip:
  assumes "edit_ok e"
  shows "\<exists>rep. ve_EncodeTo e [] = Some rep \<and> ve_DecodeFrom e0 rep =
    (OK, e\<lparr>ve_compact_pointers := ve_compact_pointers e0 @ ve_compact_pointers e\<rparr>)"
  using assms by (rule Decode_Encode_edit)

theorem version_edit_round_trip_witness:
  "\<exists>rep. ve_EncodeTo (AddFile (ve_DeleteFile (SetLogNumber VersionEdit 9) 1 4) 2 7 100 [1] [2]) [] = Some rep \<and>
    ve_DecodeFrom (SetCompactPointer VersionEdit 3 [5]) rep =
      (OK, (AddFile (ve_DeleteFile (SetLogNumber VersionEdit 9) 1 4) 2 7 100 [1] [2])
        \<lparr>ve_compact_pointers := [(3, [5])]\<rparr>)"
proof -
  let ?e = "AddFile (ve_DeleteFile (SetLogNumber VersionEdit 9) 1 4) 2 7 100 [1] [2]"
  have "edit_ok ?e"
    by (simp add: edit_ok_def AddFile_def ve_DeleteFile_def SetLogNumber_def VersionEdit_def file_ok_def
        pointer_ok_def kNumLevels_def FileMetaData_init_def)
  from version_edit_round_trip [OF this, of "SetCompactPointer VersionEdit 3 [5]"]
  show ?thesis
    by (simp add: AddFile_def ve_DeleteFile_def SetLogNumber_def VersionEdit_def SetCompactPointer_def)
qed

end
