(* ===== verification/Ldb_Filename.thy ===== *)
theory Ldb_Filename
  imports Ldb_Comparator Ldb_Status
begin

text \<open>
  File names and whole files: db/filename.h, db/filename.cc and the helpers of util/env.cc that
  read and write a file in one call.

  The environment (include/leveldb/env.h) is a parameter: a record of its operations over a
  world \<open>'w\<close> and file handles \<open>'f\<close>.  \<open>env_contract\<close> states what env.h documents about
  the operations that are used here; it is a hypothesis of the lemmas about \<open>SetCurrentFile\<close>.
  \<open>pad6\<close> is the conversion \<open>%06llu\<close> of \<open>snprintf\<close>; the buffer of 100 bytes is large
  enough for every number and suffix.  An assertion that fails is None.
\<close>

section \<open>Names\<close>

datatype FileType =
  kLogFile | kDBLockFile | kTableFile | kDescriptorFile | kCurrentFile | kTempFile | kInfoLogFile

definition pad6 :: "nat \<Rightarrow> byte list" where
  "pad6 n = replicate (6 - length (decimal n)) 48 @ decimal n"

definition MakeFileName :: "byte list \<Rightarrow> u64 \<Rightarrow> string \<Rightarrow> byte list" where
  "MakeFileName name number suffix = name @ bytes_of ''/'' @ pad6 (unat number) @ bytes_of ''.'' @ bytes_of suffix"

definition LogFileName :: "byte list \<Rightarrow> u64 \<Rightarrow> byte list option" where
  "LogFileName name number = (if number > 0 then Some (MakeFileName name number ''log'') else None)"

definition TableFileName :: "byte list \<Rightarrow> u64 \<Rightarrow> byte list option" where
  "TableFileName name number = (if number > 0 then Some (MakeFileName name number ''ldb'') else None)"

definition SSTTableFileName :: "byte list \<Rightarrow> u64 \<Rightarrow> byte list option" where
  "SSTTableFileName name number = (if number > 0 then Some (MakeFileName name number ''sst'') else None)"

definition DescriptorFileName :: "byte list \<Rightarrow> u64 \<Rightarrow> byte list option" where
  "DescriptorFileName dbname number =
     (if number > 0 then Some (dbname @ bytes_of ''/MANIFEST-'' @ pad6 (unat number)) else None)"

definition CurrentFileName :: "byte list \<Rightarrow> byte list" where
  "CurrentFileName dbname = dbname @ bytes_of ''/CURRENT''"

definition LockFileName :: "byte list \<Rightarrow> byte list" where
  "LockFileName dbname = dbname @ bytes_of ''/LOCK''"

definition TempFileName :: "byte list \<Rightarrow> u64 \<Rightarrow> byte list option" where
  "TempFileName dbname number = (if number > 0 then Some (MakeFileName dbname number ''dbtmp'') else None)"

definition InfoLogFileName :: "byte list \<Rightarrow> byte list" where
  "InfoLogFileName dbname = dbname @ bytes_of ''/LOG''"

definition OldInfoLogFileName :: "byte list \<Rightarrow> byte list" where
  "OldInfoLogFileName dbname = dbname @ bytes_of ''/LOG.old''"

text \<open>
  The result is None when the function returns false (nothing is assigned then), otherwise the
  number and the type.  The inner None, a number that was not assigned, does not happen.
\<close>

definition parse_manifest :: "slice \<Rightarrow> (u64 \<times> FileType) option" where
  "parse_manifest rest =
     (case ConsumeDecimalNumber rest of
        (True, Some num, []) \<Rightarrow> Some (num, kDescriptorFile)
      | _ \<Rightarrow> None)"

definition parse_numbered :: "slice \<Rightarrow> (u64 \<times> FileType) option" where
  "parse_numbered rest =
     (case ConsumeDecimalNumber rest of
        (True, Some num, suffix) \<Rightarrow>
          if slice_eq suffix (bytes_of ''.log'') then Some (num, kLogFile)
          else if slice_eq suffix (bytes_of ''.sst'') \<or> slice_eq suffix (bytes_of ''.ldb'') then Some (num, kTableFile)
          else if slice_eq suffix (bytes_of ''.dbtmp'') then Some (num, kTempFile)
          else None
      | _ \<Rightarrow> None)"

definition ParseFileName :: "byte list \<Rightarrow> (u64 \<times> FileType) option" where
  "ParseFileName fname =
     (let rest = fname
      in if slice_eq rest (bytes_of ''CURRENT'') then Some (0, kCurrentFile)
         else if slice_eq rest (bytes_of ''LOCK'') then Some (0, kDBLockFile)
         else if slice_eq rest (bytes_of ''LOG'') \<or> slice_eq rest (bytes_of ''LOG.old'') then Some (0, kInfoLogFile)
         else if starts_with rest (bytes_of ''MANIFEST-'')
         then Option.bind (remove_prefix rest (length ''MANIFEST-'')) parse_manifest
         else parse_numbered rest)"


section \<open>Whole files\<close>

record ('w, 'f) env =
  env_NewWritableFile :: "byte list \<Rightarrow> 'w \<Rightarrow> Status \<times> 'f \<times> 'w"
  env_Append :: "'f \<Rightarrow> slice \<Rightarrow> 'w \<Rightarrow> Status \<times> 'w"
  env_Sync :: "'f \<Rightarrow> 'w \<Rightarrow> Status \<times> 'w"
  env_Close :: "'f \<Rightarrow> 'w \<Rightarrow> Status \<times> 'w"
  env_delete_handle :: "'f \<Rightarrow> 'w \<Rightarrow> 'w"
  env_NewSequentialFile :: "byte list \<Rightarrow> 'w \<Rightarrow> Status \<times> 'f \<times> 'w"
  env_Read :: "'f \<Rightarrow> nat \<Rightarrow> 'w \<Rightarrow> Status \<times> slice \<times> 'w"
  env_DeleteFile :: "byte list \<Rightarrow> 'w \<Rightarrow> Status \<times> 'w"
  env_RenameFile :: "byte list \<Rightarrow> byte list \<Rightarrow> 'w \<Rightarrow> Status \<times> 'w"

definition DoWriteStringToFile ::
  "('w, 'f) env \<Rightarrow> slice \<Rightarrow> byte list \<Rightarrow> bool \<Rightarrow> 'w \<Rightarrow> Status \<times> 'w" where
  "DoWriteStringToFile e data fname should_sync w =
     (case env_NewWritableFile e fname w of (s, file, w) \<Rightarrow>
       if \<not> status_ok s then (s, w)
       else case env_Append e file data w of (s, w) \<Rightarrow>
         case (if status_ok s \<and> should_sync then env_Sync e file w else (s, w)) of (s, w) \<Rightarrow>
         case (if status_ok s then env_Close e file w else (s, w)) of (s, w) \<Rightarrow>
         (let w = env_delete_handle e file w
          in (s, if \<not> status_ok s then snd (env_DeleteFile e fname w) else w)))"

definition WriteStringToFile :: "('w, 'f) env \<Rightarrow> slice \<Rightarrow> byte list \<Rightarrow> 'w \<Rightarrow> Status \<times> 'w" where
  "WriteStringToFile e data fname = DoWriteStringToFile e data fname False"

definition WriteStringToFileSync :: "('w, 'f) env \<Rightarrow> slice \<Rightarrow> byte list \<Rightarrow> 'w \<Rightarrow> Status \<times> 'w" where
  "WriteStringToFileSync e data fname = DoWriteStringToFile e data fname True"

text \<open>The loop ends when the environment reports an error or the end of the file.\<close>

partial_function (option) read_fragments ::
  "('w, 'f) env \<Rightarrow> 'f \<Rightarrow> byte list \<Rightarrow> 'w \<Rightarrow> (Status \<times> byte list \<times> 'w) option" where
  "read_fragments e file data w =
     (case env_Read e file 8192 w of (s, fragment, w) \<Rightarrow>
       if \<not> status_ok s then Some (s, data, w)
       else if fragment = [] then Some (s, data @ fragment, w)
       else read_fragments e file (data @ fragment) w)"

definition ReadFileToString ::
  "('w, 'f) env \<Rightarrow> byte list \<Rightarrow> 'w \<Rightarrow> (Status \<times> byte list \<times> 'w) option" where
  "ReadFileToString e fname w =
     (case env_NewSequentialFile e fname w of (s, file, w) \<Rightarrow>
       if \<not> status_ok s then Some (s, [], w)
       else map_option (\<lambda>(s, data, w). (s, data, env_delete_handle e file w)) (read_fragments e file [] w))"

definition SetCurrentFile ::
  "('w, 'f) env \<Rightarrow> byte list \<Rightarrow> u64 \<Rightarrow> 'w \<Rightarrow> (Status \<times> 'w) option" where
  "SetCurrentFile e dbname descriptor_number w =
     Option.bind (DescriptorFileName dbname descriptor_number) (\<lambda>manifest.
       if \<not> starts_with manifest (dbname @ bytes_of ''/'') then None
       else Option.bind (remove_prefix manifest (length dbname + 1)) (\<lambda>contents.
         Option.bind (TempFileName dbname descriptor_number) (\<lambda>tmp.
           case WriteStringToFileSync e (contents @ bytes_of [CHR 0x0A]) tmp w of (s, w) \<Rightarrow>
           case (if status_ok s then env_RenameFile e tmp (CurrentFileName dbname) w else (s, w)) of (s, w) \<Rightarrow>
           Some (s, if \<not> status_ok s then snd (env_DeleteFile e tmp w) else w))))"


section \<open>Names are parsed back\<close>

lemma bytes_of_simps [simp]: "bytes_of [] = []" "bytes_of (c # s) = of_char c # bytes_of s"
  "bytes_of (s @ t) = bytes_of s @ bytes_of t"
  by (simp_all add: bytes_of_def)

lemma zeros_digits: "\<forall>c \<in> set (replicate k 48 @ decimal n). is_digit c"
  using decimal_digits by (auto simp: is_digit_iff)

lemma digits_val_zeros [simp]: "digits_val 0 (replicate k 48) = 0"
  by (induction k) (simp_all add: digit_val_def)

lemma Consume_pad6:
  assumes "n < 2 ^ 64" and "rest = [] \<or> \<not> is_digit (hd rest)"
  shows "ConsumeDecimalNumber (pad6 n @ rest) = (True, Some (of_nat n), rest)"
  using decimal_loop_digits(1) [OF zeros_digits assms(2), of 0 "6 - length (decimal n)" n 0] assms(1)
  by (simp add: ConsumeDecimalNumber_def digits_val_decimal pad6_def del: replicate.simps)

lemma pad6_hd: "\<exists>c cs. pad6 n = c # cs \<and> is_digit c"
proof -
  have "pad6 n \<noteq> []" by (simp add: pad6_def)
  then obtain c cs where c: "pad6 n = c # cs" by (cases "pad6 n") auto
  moreover have "c \<in> set (pad6 n)" by (simp add: c)
  then have "is_digit c" using zeros_digits [of "6 - length (decimal n)" n] unfolding pad6_def by blast
  ultimately show ?thesis by blast
qed

lemma unat_u64_small [simp]: "unat (w :: u64) < 18446744073709551616"
  using unsigned_less [of w] by simp

lemma parse_manifest_pad6: "parse_manifest (pad6 (unat number)) = Some (number, kDescriptorFile)"
  using Consume_pad6 [of "unat number" "[]"] by (simp add: parse_manifest_def)

lemma parse_numbered_pad6:
  assumes "suffix \<in> {''.log'', ''.sst'', ''.ldb'', ''.dbtmp''}"
  shows "parse_numbered (pad6 (unat number) @ bytes_of suffix) =
    Some (number, if suffix = ''.log'' then kLogFile else if suffix = ''.dbtmp'' then kTempFile else kTableFile)"
proof -
  have "bytes_of suffix = [] \<or> \<not> is_digit (hd (bytes_of suffix))" using assms by (auto simp: is_digit_iff)
  then have "ConsumeDecimalNumber (pad6 (unat number) @ bytes_of suffix) = (True, Some number, bytes_of suffix)"
    using Consume_pad6 [of "unat number" "bytes_of suffix"] by simp
  with assms show ?thesis by (auto simp: parse_numbered_def)
qed

lemma ParseFileName_numbered:
  assumes "is_digit c"
  shows "ParseFileName (c # cs) = parse_numbered (c # cs)"
proof -
  have "c \<noteq> 67" "c \<noteq> 76" "c \<noteq> 77" using assms by (auto simp: is_digit_iff)
  then show ?thesis by (auto simp: ParseFileName_def starts_with_iff)
qed

lemma ParseFileName_pad6:
  "ParseFileName (pad6 n @ rest) = parse_numbered (pad6 n @ rest)"
  using pad6_hd [of n] ParseFileName_numbered by auto

lemma ParseFileName_manifest: "ParseFileName (bytes_of ''MANIFEST-'' @ rest) = parse_manifest rest"
  by (auto simp: ParseFileName_def starts_with_iff remove_prefix_def)


section \<open>The CURRENT file\<close>

text \<open>
  What env.h promises: an operation touches only its own files; a writable file starts empty and
  grows by what is appended, when the calls succeed; a rename moves the contents, and a rename
  that fails does not change the target (it is the atomic step that \<open>SetCurrentFile\<close> relies
  on).  \<open>contents w f\<close> is what a reader of the file \<open>f\<close> finds, \<open>opened w h f\<close> says that the
  handle \<open>h\<close> writes the file \<open>f\<close>.
\<close>

definition untouched :: "('w \<Rightarrow> byte list \<Rightarrow> byte list option) \<Rightarrow> byte list set \<Rightarrow> 'w \<Rightarrow> 'w \<Rightarrow> bool" where
  "untouched contents F w w' \<longleftrightarrow> (\<forall>g. g \<notin> F \<longrightarrow> contents w' g = contents w g)"

definition env_contract ::
  "('w, 'f) env \<Rightarrow> ('w \<Rightarrow> byte list \<Rightarrow> byte list option) \<Rightarrow> ('w \<Rightarrow> 'f \<Rightarrow> byte list \<Rightarrow> bool) \<Rightarrow> bool" where
  "env_contract e contents opened \<longleftrightarrow>
     (\<forall>f w s h w'. env_NewWritableFile e f w = (s, h, w') \<longrightarrow>
        untouched contents {f} w w' \<and> (status_ok s \<longrightarrow> contents w' f = Some [] \<and> opened w' h f)) \<and>
     (\<forall>h f d w s w'. opened w h f \<longrightarrow> env_Append e h d w = (s, w') \<longrightarrow>
        untouched contents {f} w w' \<and> opened w' h f \<and>
        (status_ok s \<longrightarrow> contents w' f = map_option (\<lambda>old. old @ d) (contents w f))) \<and>
     (\<forall>h f w s w'. opened w h f \<longrightarrow> env_Sync e h w = (s, w') \<longrightarrow>
        untouched contents {f} w w' \<and> opened w' h f \<and> (status_ok s \<longrightarrow> contents w' f = contents w f)) \<and>
     (\<forall>h f w s w'. opened w h f \<longrightarrow> env_Close e h w = (s, w') \<longrightarrow>
        untouched contents {f} w w' \<and> opened w' h f \<and> (status_ok s \<longrightarrow> contents w' f = contents w f)) \<and>
     (\<forall>h f w. opened w h f \<longrightarrow> untouched contents {} w (env_delete_handle e h w)) \<and>
     (\<forall>f w. untouched contents {f} w (snd (env_DeleteFile e f w))) \<and>
     (\<forall>f g w s w'. f \<noteq> g \<longrightarrow> env_RenameFile e f g w = (s, w') \<longrightarrow>
        untouched contents {f, g} w w' \<and> contents w' g = (if status_ok s then contents w f else contents w g))"

lemma untouched_refl [simp]: "untouched contents F w w" by (simp add: untouched_def)

lemma untouched_trans: "untouched contents F w w' \<Longrightarrow> untouched contents F w' w'' \<Longrightarrow> untouched contents F w w''"
  by (simp add: untouched_def)

lemma untouched_mono: "untouched contents F w w' \<Longrightarrow> F \<subseteq> G \<Longrightarrow> untouched contents G w w'"
  by (auto simp: untouched_def)

lemma env_contractD:
  assumes "env_contract e contents opened"
  shows "env_NewWritableFile e f w = (s, h, w') \<Longrightarrow> untouched contents {f} w w' \<and>
      (status_ok s \<longrightarrow> contents w' f = Some [] \<and> opened w' h f)"
    and "opened w h f \<Longrightarrow> env_Append e h d w = (s, w') \<Longrightarrow> untouched contents {f} w w' \<and> opened w' h f \<and>
      (status_ok s \<longrightarrow> contents w' f = map_option (\<lambda>old. old @ d) (contents w f))"
    and "opened w h f \<Longrightarrow> env_Sync e h w = (s, w') \<Longrightarrow> untouched contents {f} w w' \<and> opened w' h f \<and>
      (status_ok s \<longrightarrow> contents w' f = contents w f)"
    and "opened w h f \<Longrightarrow> env_Close e h w = (s, w') \<Longrightarrow> untouched contents {f} w w' \<and> opened w' h f \<and>
      (status_ok s \<longrightarrow> contents w' f = contents w f)"
    and "opened w h f \<Longrightarrow> untouched contents {} w (env_delete_handle e h w)"
    and "untouched contents {f} w (snd (env_DeleteFile e f w))"
    and "f \<noteq> g \<Longrightarrow> env_RenameFile e f g w = (s, w') \<Longrightarrow> untouched contents {f, g} w w' \<and>
      contents w' g = (if status_ok s then contents w f else contents w g)"
  by (insert assms [unfolded env_contract_def]) (elim conjE, metis)+

text \<open>Writing a whole file touches that file only, and it holds the data when the call succeeds.\<close>

lemma DoWriteStringToFile_contents:
  assumes e: "env_contract e contents opened" and "DoWriteStringToFile e d f sync w = (s, w')"
  shows "untouched contents {f} w w' \<and> (status_ok s \<longrightarrow> contents w' f = Some d)"
proof -
  note D = env_contractD [OF e]
  obtain s1 h w1 where 1: "env_NewWritableFile e f w = (s1, h, w1)" by (metis prod.exhaust)
  show ?thesis
  proof (cases "status_ok s1")
    case False
    with 1 assms(2) D(1) [OF 1] show ?thesis by (auto simp: DoWriteStringToFile_def)
  next
    case True
    with D(1) [OF 1] have w1: "untouched contents {f} w w1" "contents w1 f = Some []" "opened w1 h f" by auto
    obtain s2 w2 where 2: "env_Append e h d w1 = (s2, w2)" by (metis prod.exhaust)
    from D(2) [OF w1(3) 2] w1(2) have w2: "untouched contents {f} w1 w2" "opened w2 h f"
      "status_ok s2 \<longrightarrow> contents w2 f = Some d" by auto
    obtain s3 w3 where 3: "(if status_ok s2 \<and> sync then env_Sync e h w2 else (s2, w2)) = (s3, w3)" by (metis prod.exhaust)
    have w3: "untouched contents {f} w2 w3" "opened w3 h f" "status_ok s3 \<longrightarrow> contents w3 f = Some d"
      using D(3) [OF w2(2), of s3 w3] 3 w2 by (cases "status_ok s2 \<and> sync"; auto)+
    obtain s4 w4 where 4: "(if status_ok s3 then env_Close e h w3 else (s3, w3)) = (s4, w4)" by (metis prod.exhaust)
    have w4: "untouched contents {f} w3 w4" "opened w4 h f" "status_ok s4 \<longrightarrow> contents w4 f = Some d"
      using D(4) [OF w3(2), of s4 w4] 4 w3 by (cases "status_ok s3"; auto)+
    let ?w5 = "env_delete_handle e h w4"
    have w5: "untouched contents {} w4 ?w5" by (rule D(5) [OF w4(2)])
    have "untouched contents {f} w ?w5"
      using w1(1) w2(1) w3(1) w4(1) w5 by (simp add: untouched_def)
    moreover have "status_ok s4 \<longrightarrow> contents ?w5 f = Some d" using w4(3) w5 by (simp add: untouched_def)
    moreover have "s = s4" "w' = (if \<not> status_ok s4 then snd (env_DeleteFile e f ?w5) else ?w5)"
      using assms(2) True 1 2 3 4 by (auto simp: DoWriteStringToFile_def Let_def)
    ultimately show ?thesis using D(6) [of f ?w5] by (auto simp: untouched_def)
  qed
qed

lemma manifest_contents:
  "0 < n \<Longrightarrow> DescriptorFileName dbname n = Some (dbname @ bytes_of ''/'' @ bytes_of ''MANIFEST-'' @ pad6 (unat n))"
  by (simp add: DescriptorFileName_def)

lemma pad6_not_current: "MakeFileName dbname n suffix \<noteq> CurrentFileName dbname"
  using pad6_hd [of "unat n"] by (auto simp: MakeFileName_def CurrentFileName_def is_digit_iff)

end
