(* ===== verification/Ldb_Iterator.thy ===== *)
theory Ldb_Iterator
  imports Ldb_Table Ldb_BlockIter Ldb_Random
begin

text \<open>
  The interface of iterators (include/leveldb/iterator.h), the wrapper that caches the answers
  of an iterator (table/iterator_wrapper.h), and the contract of an iterator over a sorted list
  of pairs, which block iterators fulfil and which the merging iterator and the iterator of the
  database rely on and fulfil themselves.

  An iterator is a state \<open>'i\<close> and a record of the virtual functions.  A function that asserts
  \<open>Valid()\<close> has the result None when the assertion fails.
\<close>

record 'i iterator_ops =
  op_Valid :: "'i \<Rightarrow> bool"
  op_SeekToFirst :: "'i \<Rightarrow> 'i option"
  op_SeekToLast :: "'i \<Rightarrow> 'i option"
  op_Seek :: "'i \<Rightarrow> slice \<Rightarrow> 'i option"
  op_Next :: "'i \<Rightarrow> 'i option"
  op_Prev :: "'i \<Rightarrow> 'i option"
  op_key :: "'i \<Rightarrow> slice option"
  op_value :: "'i \<Rightarrow> slice option"
  op_status :: "'i \<Rightarrow> Status"

datatype Direction = kForward | kReverse


section \<open>The wrapper\<close>

record 'i wrapper =
  iw_iter :: "'i option"
  iw_valid :: bool
  iw_key :: slice

definition IteratorWrapper :: "'i wrapper" where
  "IteratorWrapper = \<lparr>iw_iter = None, iw_valid = False, iw_key = []\<rparr>"

definition iw_Update :: "'i iterator_ops \<Rightarrow> 'i wrapper \<Rightarrow> 'i wrapper option" where
  "iw_Update ops w =
     do { it \<leftarrow> iw_iter w;
          let w = w\<lparr>iw_valid := op_Valid ops it\<rparr>;
          if iw_valid w then do { k \<leftarrow> op_key ops it; Some (w\<lparr>iw_key := k\<rparr>) } else Some w }"

definition iw_Set :: "'i iterator_ops \<Rightarrow> 'i wrapper \<Rightarrow> 'i option \<Rightarrow> 'i wrapper option" where
  "iw_Set ops w it =
     (let w = w\<lparr>iw_iter := it\<rparr>
      in case it of None \<Rightarrow> Some (w\<lparr>iw_valid := False\<rparr>) | Some _ \<Rightarrow> iw_Update ops w)"

definition iw_get_key :: "'i wrapper \<Rightarrow> slice option" where
  "iw_get_key w = (if iw_valid w then Some (iw_key w) else None)"

definition iw_value :: "'i iterator_ops \<Rightarrow> 'i wrapper \<Rightarrow> slice option" where
  "iw_value ops w = (if iw_valid w then Option.bind (iw_iter w) (op_value ops) else None)"

definition iw_status :: "'i iterator_ops \<Rightarrow> 'i wrapper \<Rightarrow> Status option" where
  "iw_status ops w = map_option (op_status ops) (iw_iter w)"

text \<open>The calls that move the wrapped iterator and then remember its answers.\<close>

definition iw_move :: "'i iterator_ops \<Rightarrow> ('i \<Rightarrow> 'i option) \<Rightarrow> 'i wrapper \<Rightarrow> 'i wrapper option" where
  "iw_move ops f w =
     do { it \<leftarrow> iw_iter w; it \<leftarrow> f it; iw_Update ops (w\<lparr>iw_iter := Some it\<rparr>) }"

definition iw_Next :: "'i iterator_ops \<Rightarrow> 'i wrapper \<Rightarrow> 'i wrapper option" where
  "iw_Next ops = iw_move ops (op_Next ops)"

definition iw_Prev :: "'i iterator_ops \<Rightarrow> 'i wrapper \<Rightarrow> 'i wrapper option" where
  "iw_Prev ops = iw_move ops (op_Prev ops)"

definition iw_Seek :: "'i iterator_ops \<Rightarrow> 'i wrapper \<Rightarrow> slice \<Rightarrow> 'i wrapper option" where
  "iw_Seek ops w k = iw_move ops (\<lambda>it. op_Seek ops it k) w"

definition iw_SeekToFirst :: "'i iterator_ops \<Rightarrow> 'i wrapper \<Rightarrow> 'i wrapper option" where
  "iw_SeekToFirst ops = iw_move ops (op_SeekToFirst ops)"

definition iw_SeekToLast :: "'i iterator_ops \<Rightarrow> 'i wrapper \<Rightarrow> 'i wrapper option" where
  "iw_SeekToLast ops = iw_move ops (op_SeekToLast ops)"


section \<open>The contract\<close>

text \<open>
  The pairs are sorted; \<open>at j it\<close> says that the iterator stands at the pair number \<open>j\<close>, or at
  no pair when \<open>j\<close> is their number: stepping back from the first pair leads there too.
\<close>

locale cursor =
  fixes ops :: "'i iterator_ops" and c :: comparator and valid :: "slice set"
    and kvs :: "(slice \<times> slice) list" and at :: "nat \<Rightarrow> 'i \<Rightarrow> bool"
  assumes at_sorted: "at j it \<Longrightarrow> sorted_pairs c valid kvs"
    and at_le: "at j it \<Longrightarrow> j \<le> length kvs"
    and at_Valid: "at j it \<Longrightarrow> op_Valid ops it \<longleftrightarrow> j < length kvs"
    and at_pair: "at j it \<Longrightarrow> j < length kvs \<Longrightarrow>
      op_key ops it = Some (fst (kvs ! j)) \<and> op_value ops it = Some (snd (kvs ! j))"
    and at_status: "at j it \<Longrightarrow> status_ok (op_status ops it)"
    and at_Next: "at j it \<Longrightarrow> j < length kvs \<Longrightarrow> \<exists>it'. op_Next ops it = Some it' \<and> at (Suc j) it'"
    and at_Prev: "at j it \<Longrightarrow> j < length kvs \<Longrightarrow>
      \<exists>it'. op_Prev ops it = Some it' \<and> at (if j = 0 then length kvs else j - 1) it'"
    and at_SeekToFirst: "at j it \<Longrightarrow> \<exists>it'. op_SeekToFirst ops it = Some it' \<and> at 0 it'"
    and at_SeekToLast: "at j it \<Longrightarrow> \<exists>it'. op_SeekToLast ops it = Some it' \<and> at (length kvs - 1) it'"
    and at_Seek: "at j it \<Longrightarrow> t \<in> valid \<Longrightarrow> \<exists>it' i. op_Seek ops it t = Some it' \<and> at i it' \<and>
      (\<forall>h < i. before c (fst (kvs ! h)) t) \<and> (i < length kvs \<longrightarrow> \<not> before c (fst (kvs ! i)) t)"
begin

lemma at_key_valid: "at j it \<Longrightarrow> k < length kvs \<Longrightarrow> fst (kvs ! k) \<in> valid"
  by (rule sorted_pairsD(1) [OF at_sorted])

lemma at_before: "at j it \<Longrightarrow> h < k \<Longrightarrow> k < length kvs \<Longrightarrow> before c (fst (kvs ! h)) (fst (kvs ! k))"
  by (rule sorted_pairsD(2) [OF at_sorted])

end


section \<open>Block iterators\<close>

definition block_iterator_ops :: "block_iterator iterator_ops" where
  "block_iterator_ops =
     \<lparr>op_Valid = it_Valid, op_SeekToFirst = it_SeekToFirst, op_SeekToLast = it_SeekToLast,
      op_Seek = it_Seek, op_Next = it_Next, op_Prev = it_Prev,
      op_key = it_key, op_value = it_value, op_status = it_status\<rparr>"

definition block_at ::
  "nat \<Rightarrow> comparator \<Rightarrow> slice set \<Rightarrow> (slice \<times> slice) list \<Rightarrow> nat \<Rightarrow> block_iterator \<Rightarrow> bool" where
  "block_at r c valid kvs j i \<longleftrightarrow>
     block_fits r kvs \<and> weak_order (Compare c) valid \<and> sorted_pairs c valid kvs \<and> j \<le> length kvs \<and>
     (\<exists>it. i = EntryIterator it \<and> at_next c r kvs j it)"

lemma at_next_over: "at_next c r kvs j it \<Longrightarrow> iter_over c r kvs it"
  by (auto simp: at_next_def at_entry_def at_end_def split: if_splits)

interpretation block_cursor: cursor block_iterator_ops c valid kvs "block_at r c valid kvs" for r c valid kvs
proof
  fix j i
  assume a: "block_at r c valid kvs j i"
  then obtain it where it: "i = EntryIterator it" "at_next c r kvs j it" and fits: "block_fits r kvs"
    and order: "weak_order (Compare c) valid" "sorted_pairs c valid kvs" and le: "j \<le> length kvs"
    by (auto simp: block_at_def)
  note over = at_next_over [OF it(2)]
  have here: "block_at r c valid kvs k (EntryIterator x)" if "at_next c r kvs k x" "k \<le> length kvs" for k x
    using that fits order by (auto simp: block_at_def)
  show "sorted_pairs c valid kvs" by (rule order(2))
  show "j \<le> length kvs" by (rule le)
  show "op_Valid block_iterator_ops i \<longleftrightarrow> j < length kvs"
    using it at_entry_Valid [OF fits, of c j it] at_end_not_Valid [of c r kvs it]
    by (cases "j < length kvs") (auto simp: block_iterator_ops_def it_Valid_def at_next_def)
  show "status_ok (op_status block_iterator_ops i)"
    using over it(1) by (simp add: block_iterator_ops_def it_status_def iter_over_def)
  show "\<exists>i'. op_SeekToFirst block_iterator_ops i = Some i' \<and> block_at r c valid kvs 0 i'"
    using SeekToFirst_at [OF fits over] here it(1) by (force simp: block_iterator_ops_def it_SeekToFirst_def)
  obtain l where l: "bi_SeekToLast it = Some l" "at_next c r kvs (length kvs - 1) l"
    using SeekToLast_at [OF fits over] by (cases "kvs = []") (auto simp: at_next_def)
  then show "\<exists>i'. op_SeekToLast block_iterator_ops i = Some i' \<and> block_at r c valid kvs (length kvs - 1) i'"
    using here [OF l(2)] it(1) by (simp add: block_iterator_ops_def it_SeekToLast_def)
  show "\<exists>i' k. op_Seek block_iterator_ops i t = Some i' \<and> block_at r c valid kvs k i' \<and>
      (\<forall>h < k. before c (fst (kvs ! h)) t) \<and> (k < length kvs \<longrightarrow> \<not> before c (fst (kvs ! k)) t)"
    if t: "t \<in> valid" for t
  proof -
    obtain it' k where k: "bi_Seek it t = Some it'" "at_next c r kvs k it'" "k \<le> length kvs"
      "\<forall>h < k. before c (fst (kvs ! h)) t" "k < length kvs \<longrightarrow> \<not> before c (fst (kvs ! k)) t"
      using Seek_at [OF fits over order t] by blast
    have "op_Seek block_iterator_ops i t = Some (EntryIterator it')"
      using k(1) it(1) by (simp add: block_iterator_ops_def it_Seek_def)
    with here [OF k(2,3)] k(4,5) show ?thesis by blast
  qed
  assume j: "j < length kvs"
  then have entry: "at_entry c r kvs j it" using it(2) by (simp add: at_next_def)
  show "op_key block_iterator_ops i = Some (fst (kvs ! j)) \<and> op_value block_iterator_ops i = Some (snd (kvs ! j))"
    using at_entry_pair [OF fits entry] it(1) by (simp add: block_iterator_ops_def it_key_def it_value_def)
  show "\<exists>i'. op_Next block_iterator_ops i = Some i' \<and> block_at r c valid kvs (Suc j) i'"
    using Next_at [OF fits entry] here [of "Suc j"] it(1) j by (force simp: block_iterator_ops_def it_Next_def)
  obtain p where p: "bi_Prev it = Some p" "at_next c r kvs (if j = 0 then length kvs else j - 1) p"
    using Prev_at [OF fits entry] j less_imp_diff_less [OF j, of 1] by (cases "j = 0") (auto simp: at_next_def)
  then show "\<exists>i'. op_Prev block_iterator_ops i = Some i' \<and>
      block_at r c valid kvs (if j = 0 then length kvs else j - 1) i'"
    using here [OF p(2)] it(1) j by (simp add: block_iterator_ops_def it_Prev_def split: if_splits)
qed

lemma NewIterator_block_at:
  assumes "block_fits r kvs" and "weak_order (Compare c) valid" and "sorted_pairs c valid kvs"
  shows "\<exists>b i. Block (block_bytes r kvs) = Some b \<and> blk_NewIterator b c = Some i \<and>
    block_at r c valid kvs (length kvs) i"
proof -
  obtain b it where b: "Block (block_bytes r kvs) = Some b" "blk_NewIterator b c = Some (EntryIterator it)"
    "iter_over c r kvs it" using NewIterator_over [OF assms(1)] by blast
  have "bi_current it = bi_restarts it"
    using b(2) by (auto simp: blk_NewIterator_def block_Iter_def bind_Some_iff split: if_splits)
  with b(3) have "at_next c r kvs (length kvs) it" by (simp add: at_next_def at_end_def)
  with b(1,2) assms show ?thesis by (auto simp: block_at_def)
qed


section \<open>Sequences of calls\<close>

text \<open>
  A client calls \<open>Next\<close> and \<open>Prev\<close> only on a valid iterator.  \<open>list_step\<close> is the same call on a
  position in a list.
\<close>

datatype iterator_call = CallSeek slice | CallSeekToFirst | CallSeekToLast | CallNext | CallPrev

fun iterator_step :: "'i iterator_ops \<Rightarrow> iterator_call \<Rightarrow> 'i \<Rightarrow> 'i option" where
  "iterator_step ops (CallSeek t) it = op_Seek ops it t"
| "iterator_step ops CallSeekToFirst it = op_SeekToFirst ops it"
| "iterator_step ops CallSeekToLast it = op_SeekToLast ops it"
| "iterator_step ops CallNext it = (if op_Valid ops it then op_Next ops it else Some it)"
| "iterator_step ops CallPrev it = (if op_Valid ops it then op_Prev ops it else Some it)"

fun iterator_steps :: "'i iterator_ops \<Rightarrow> iterator_call list \<Rightarrow> 'i \<Rightarrow> 'i option" where
  "iterator_steps ops [] it = Some it"
| "iterator_steps ops (call # calls) it =
     do { it \<leftarrow> iterator_step ops call it; iterator_steps ops calls it }"

definition is_before :: "comparator \<Rightarrow> slice \<Rightarrow> slice \<Rightarrow> bool" where
  "is_before c a b = (case Compare c a b of None \<Rightarrow> False | Some r \<Rightarrow> r < 0)"

fun list_step :: "comparator \<Rightarrow> (slice \<times> slice) list \<Rightarrow> iterator_call \<Rightarrow> nat \<Rightarrow> nat" where
  "list_step c kvs (CallSeek t) j = length (takeWhile (\<lambda>kv. is_before c (fst kv) t) kvs)"
| "list_step c kvs CallSeekToFirst j = 0"
| "list_step c kvs CallSeekToLast j = length kvs - 1"
| "list_step c kvs CallNext j = (if j < length kvs then Suc j else j)"
| "list_step c kvs CallPrev j = (if j < length kvs then if j = 0 then length kvs else j - 1 else j)"

fun list_steps :: "comparator \<Rightarrow> (slice \<times> slice) list \<Rightarrow> iterator_call list \<Rightarrow> nat \<Rightarrow> nat" where
  "list_steps c kvs [] j = j"
| "list_steps c kvs (call # calls) j = list_steps c kvs calls (list_step c kvs call j)"

text \<open>The iterator shows the pair number \<open>j\<close> of the list.\<close>

definition shows_pair :: "'i iterator_ops \<Rightarrow> (slice \<times> slice) list \<Rightarrow> nat \<Rightarrow> 'i \<Rightarrow> bool" where
  "shows_pair ops kvs j it \<longleftrightarrow> status_ok (op_status ops it) \<and>
     (if j < length kvs
      then op_Valid ops it \<and> op_key ops it = Some (fst (kvs ! j)) \<and> op_value ops it = Some (snd (kvs ! j))
      else \<not> op_Valid ops it)"

lemma is_before_iff [simp]: "is_before c a b \<longleftrightarrow> before c a b"
  by (auto simp: is_before_def split: option.splits)

lemma length_takeWhile_index:
  assumes "j \<le> length xs" and "\<forall>h < j. P (xs ! h)" and "j < length xs \<longrightarrow> \<not> P (xs ! j)"
  shows "length (takeWhile P xs) = j"
proof -
  have "takeWhile P xs = takeWhile P (take j xs @ drop j xs)" by simp
  also have "\<dots> = take j xs @ takeWhile P (drop j xs)"
    by (rule takeWhile_append2) (use assms(1,2) in \<open>auto simp: in_set_conv_nth\<close>)
  also have "takeWhile P (drop j xs) = []"
    using assms(1,3) by (cases "j < length xs") (simp_all add: Cons_nth_drop_Suc [symmetric])
  finally show ?thesis using assms(1) by simp
qed

context cursor
begin

lemma at_step:
  assumes it: "at j it" and "\<forall>t. call = CallSeek t \<longrightarrow> t \<in> valid"
  shows "\<exists>it'. iterator_step ops call it = Some it' \<and> at (list_step c kvs call j) it'"
proof (cases call)
  case (CallSeek t)
  then have t: "t \<in> valid" using assms(2) by simp
  obtain it' i where i: "op_Seek ops it t = Some it'" "at i it'"
    "\<forall>h < i. before c (fst (kvs ! h)) t" "i < length kvs \<longrightarrow> \<not> before c (fst (kvs ! i)) t" using at_Seek [OF it t] by blast
  have "length (takeWhile (\<lambda>kv. is_before c (fst kv) t) kvs) = i"
    by (rule length_takeWhile_index) (use at_le [OF i(2)] i(3,4) in simp_all)
  with i(1,2) CallSeek show ?thesis by simp
next
  case CallSeekToFirst
  with at_SeekToFirst [OF it] show ?thesis by simp
next
  case CallSeekToLast
  with at_SeekToLast [OF it] show ?thesis by simp
next
  case CallNext
  with at_Next [OF it] at_Valid [OF it] it show ?thesis by simp
next
  case CallPrev
  with at_Prev [OF it] at_Valid [OF it] it show ?thesis by simp
qed

lemma at_steps:
  assumes "at j it" and "\<forall>t. CallSeek t \<in> set calls \<longrightarrow> t \<in> valid"
  shows "\<exists>it'. iterator_steps ops calls it = Some it' \<and> at (list_steps c kvs calls j) it'"
  using assms
proof (induction calls arbitrary: j it)
  case (Cons call calls)
  obtain it' where it': "iterator_step ops call it = Some it'" "at (list_step c kvs call j) it'"
    using at_step [OF Cons.prems(1), of call] Cons.prems(2) by auto
  with Cons.IH [OF it'(2)] Cons.prems(2) show ?case by simp
qed simp

lemma at_shows: "at j it \<Longrightarrow> shows_pair ops kvs j it"
  using at_Valid at_pair at_status by (simp add: shows_pair_def)

text \<open>Any calls, in any order, show what the list has at the position that the calls lead to.\<close>

lemma calls_show:
  assumes "at j it" and "\<forall>t. CallSeek t \<in> set calls \<longrightarrow> t \<in> valid"
  shows "\<exists>it'. iterator_steps ops calls it = Some it' \<and> shows_pair ops kvs (list_steps c kvs calls j) it'"
  using at_steps [OF assms] at_shows by blast

end

end
