(* ===== verification/Ldb_DbIter.thy ===== *)
theory Ldb_DbIter
  imports Ldb_Iterator Ldb_DbFormat
begin

text \<open>
  The iterator of the database, db/db_iter.cc: from an iterator over internal keys it makes
  one over the user keys that a snapshot shows.

  \<open>skip\<close> is always a pointer to \<open>saved_key_\<close>, and is written as that field.  The calls of
  \<open>db_->RecordReadSample\<close> are recorded in order in \<open>di_samples\<close>.  The capacity of a string is
  not modelled: \<open>ClearSavedValue\<close> leaves the empty string in both of its branches.
  \<open>bytes_counter_\<close> is an integer, for pairs of less than \<open>2 ^ 63\<close> bytes.  The loops are partial
  functions: whether they return depends on the internal iterator.  None is a failed assertion.
\<close>

record 'i db_iter =
  di_iter :: 'i
  di_sequence :: SequenceNumber
  di_status :: Status
  di_saved_key :: "byte list"
  di_saved_value :: "byte list"
  di_direction :: Direction
  di_valid :: bool
  di_rnd :: u32
  di_bytes_counter :: int
  di_samples :: "slice list"

definition kReadBytesPeriod :: u32 where "kReadBytesPeriod = 1048576"

definition RandomPeriod :: "u32 \<Rightarrow> u32 \<times> u32" where
  "RandomPeriod rnd = random_Uniform rnd (2 * kReadBytesPeriod)"

definition NewDBIterator :: "'i \<Rightarrow> SequenceNumber \<Rightarrow> u32 \<Rightarrow> 'i db_iter" where
  "NewDBIterator internal_iter s seed =
     (let (p, rnd) = RandomPeriod (Random seed)
      in \<lparr>di_iter = internal_iter, di_sequence = s, di_status = OK, di_saved_key = [],
          di_saved_value = [], di_direction = kForward, di_valid = False, di_rnd = rnd,
          di_bytes_counter = int (unat p), di_samples = []\<rparr>)"

definition di_key :: "'i iterator_ops \<Rightarrow> 'i db_iter \<Rightarrow> slice option" where
  "di_key ops d =
     (if \<not> di_valid d then None
      else if di_direction d = kForward then Option.bind (op_key ops (di_iter d)) ExtractUserKey
      else Some (di_saved_key d))"

definition di_value :: "'i iterator_ops \<Rightarrow> 'i db_iter \<Rightarrow> slice option" where
  "di_value ops d =
     (if \<not> di_valid d then None
      else if di_direction d = kForward then op_value ops (di_iter d) else Some (di_saved_value d))"

definition di_get_status :: "'i iterator_ops \<Rightarrow> 'i db_iter \<Rightarrow> Status" where
  "di_get_status ops d = (if status_ok (di_status d) then op_status ops (di_iter d) else di_status d)"

definition SaveKey :: "slice \<Rightarrow> 'i db_iter \<Rightarrow> 'i db_iter" where
  "SaveKey k d = d\<lparr>di_saved_key := k\<rparr>"

definition ClearSavedValue :: "'i db_iter \<Rightarrow> 'i db_iter" where
  "ClearSavedValue d = d\<lparr>di_saved_value := []\<rparr>"


section \<open>Parsing the current key\<close>

text \<open>The new state of the generator, the counter and the recorded samples.\<close>

partial_function (option) sample_loop ::
    "slice \<Rightarrow> u32 \<Rightarrow> int \<Rightarrow> slice list \<Rightarrow> (u32 \<times> int \<times> slice list) option" where
  "sample_loop k rnd bytes_counter samples =
     (if bytes_counter < 0
      then (case RandomPeriod rnd of (p, rnd) \<Rightarrow>
              sample_loop k rnd (bytes_counter + int (unat p)) (samples @ [k]))
      else Some (rnd, bytes_counter, samples))"

definition ParseKey :: "'i iterator_ops \<Rightarrow> 'i db_iter \<Rightarrow> (ParsedInternalKey option \<times> 'i db_iter) option" where
  "ParseKey ops d =
     do { k \<leftarrow> op_key ops (di_iter d);
          v \<leftarrow> op_value ops (di_iter d);
          let n = int (length k + length v);
          (rnd, counter, samples) \<leftarrow> sample_loop k (di_rnd d) (di_bytes_counter d - n) (di_samples d);
          let d = d\<lparr>di_rnd := rnd, di_bytes_counter := counter, di_samples := samples\<rparr>;
          Some (case ParseInternalKey k of
              (True, ikey) \<Rightarrow> (ikey, d)
            | (False, _) \<Rightarrow> (None, d\<lparr>di_status := corruption ''corrupted internal key in DBIter''\<rparr>)) }"


section \<open>Forward\<close>

text \<open>
  The body of the loop up to \<open>iter_->Next()\<close>: \<open>Inr\<close> when it returns, \<open>Inl\<close> with the value of
  \<open>skipping\<close> when it goes on.
\<close>

definition next_entry :: "'i iterator_ops \<Rightarrow> comparator \<Rightarrow> bool \<Rightarrow> 'i db_iter \<Rightarrow>
    (bool \<times> 'i db_iter + 'i db_iter) option" where
  "next_entry ops c skipping d =
     do { (ikey, d) \<leftarrow> ParseKey ops d;
          case ikey of
            None \<Rightarrow> Some (Inl (skipping, d))
          | Some ikey \<Rightarrow>
              if pk_sequence ikey \<le> di_sequence d
              then if pk_type ikey = kTypeDeletion then Some (Inl (True, SaveKey (pk_user_key ikey) d))
                   else if pk_type ikey = kTypeValue
                   then do { hidden \<leftarrow> (if skipping
                               then map_option (\<lambda>r. r \<le> 0) (Compare c (pk_user_key ikey) (di_saved_key d))
                               else Some False);
                             Some (if hidden then Inl (skipping, d)
                                   else Inr (d\<lparr>di_valid := True, di_saved_key := []\<rparr>)) }
                   else Some (Inl (skipping, d))
              else Some (Inl (skipping, d)) }"

partial_function (option) next_loop ::
    "'i iterator_ops \<Rightarrow> comparator \<Rightarrow> bool \<Rightarrow> 'i db_iter \<Rightarrow> 'i db_iter option" where
  "next_loop ops c skipping d =
     do { r \<leftarrow> next_entry ops c skipping d;
          case r of
            Inr d \<Rightarrow> Some d
          | Inl (skipping, d) \<Rightarrow>
              do { it \<leftarrow> op_Next ops (di_iter d);
                   let d = d\<lparr>di_iter := it\<rparr>;
                   if op_Valid ops it then next_loop ops c skipping d
                   else Some (d\<lparr>di_saved_key := [], di_valid := False\<rparr>) } }"

definition FindNextUserEntry :: "'i iterator_ops \<Rightarrow> comparator \<Rightarrow> bool \<Rightarrow> 'i db_iter \<Rightarrow> 'i db_iter option" where
  "FindNextUserEntry ops c skipping d =
     (if op_Valid ops (di_iter d) \<and> di_direction d = kForward then next_loop ops c skipping d else None)"

definition di_Next :: "'i iterator_ops \<Rightarrow> comparator \<Rightarrow> 'i db_iter \<Rightarrow> 'i db_iter option" where
  "di_Next ops c d =
     (if \<not> di_valid d then None
      else if di_direction d = kReverse
      then do { let d = d\<lparr>di_direction := kForward\<rparr>;
                it \<leftarrow> (if \<not> op_Valid ops (di_iter d) then op_SeekToFirst ops (di_iter d)
                      else op_Next ops (di_iter d));
                let d = d\<lparr>di_iter := it\<rparr>;
                if \<not> op_Valid ops it then Some (d\<lparr>di_valid := False, di_saved_key := []\<rparr>)
                else FindNextUserEntry ops c True d }
      else do { k \<leftarrow> op_key ops (di_iter d);
                u \<leftarrow> ExtractUserKey k;
                FindNextUserEntry ops c True (SaveKey u d) })"


section \<open>Backward\<close>

text \<open>The body of the loop up to \<open>iter_->Prev()\<close>: \<open>Inr\<close> at the break.\<close>

definition prev_entry :: "'i iterator_ops \<Rightarrow> comparator \<Rightarrow> ValueType \<Rightarrow> 'i db_iter \<Rightarrow>
    (ValueType \<times> 'i db_iter + 'i db_iter) option" where
  "prev_entry ops c value_type d =
     do { (ikey, d) \<leftarrow> ParseKey ops d;
          case ikey of
            None \<Rightarrow> Some (Inl (value_type, d))
          | Some ikey \<Rightarrow>
              if pk_sequence ikey \<le> di_sequence d
              then do { stop \<leftarrow> (if value_type \<noteq> kTypeDeletion
                          then map_option (\<lambda>r. r < 0) (Compare c (pk_user_key ikey) (di_saved_key d))
                          else Some False);
                        if stop then Some (Inr d)
                        else if pk_type ikey = kTypeDeletion
                        then Some (Inl (pk_type ikey, ClearSavedValue (d\<lparr>di_saved_key := []\<rparr>)))
                        else do { raw_value \<leftarrow> op_value ops (di_iter d);
                                  k \<leftarrow> op_key ops (di_iter d);
                                  u \<leftarrow> ExtractUserKey k;
                                  Some (Inl (pk_type ikey, (SaveKey u d)\<lparr>di_saved_value := raw_value\<rparr>)) } }
              else Some (Inl (value_type, d)) }"

partial_function (option) prev_loop ::
    "'i iterator_ops \<Rightarrow> comparator \<Rightarrow> ValueType \<Rightarrow> 'i db_iter \<Rightarrow> (ValueType \<times> 'i db_iter) option" where
  "prev_loop ops c value_type d =
     do { r \<leftarrow> prev_entry ops c value_type d;
          case r of
            Inr d \<Rightarrow> Some (value_type, d)
          | Inl (value_type, d) \<Rightarrow>
              do { it \<leftarrow> op_Prev ops (di_iter d);
                   let d = d\<lparr>di_iter := it\<rparr>;
                   if op_Valid ops it then prev_loop ops c value_type d else Some (value_type, d) } }"

definition FindPrevUserEntry :: "'i iterator_ops \<Rightarrow> comparator \<Rightarrow> 'i db_iter \<Rightarrow> 'i db_iter option" where
  "FindPrevUserEntry ops c d =
     (if di_direction d \<noteq> kReverse then None
      else do { (value_type, d) \<leftarrow>
                  (if op_Valid ops (di_iter d) then prev_loop ops c kTypeDeletion d
                   else Some (kTypeDeletion, d));
                Some (if value_type = kTypeDeletion
                      then (ClearSavedValue (d\<lparr>di_valid := False, di_saved_key := []\<rparr>))\<lparr>di_direction := kForward\<rparr>
                      else d\<lparr>di_valid := True\<rparr>) })"

text \<open>The scan of \<open>Prev\<close> for an earlier user key: False when there is none.\<close>

partial_function (option) prev_key_loop ::
    "'i iterator_ops \<Rightarrow> comparator \<Rightarrow> 'i db_iter \<Rightarrow> (bool \<times> 'i db_iter) option" where
  "prev_key_loop ops c d =
     do { it \<leftarrow> op_Prev ops (di_iter d);
          let d = d\<lparr>di_iter := it\<rparr>;
          if \<not> op_Valid ops it
          then Some (False, ClearSavedValue (d\<lparr>di_valid := False, di_saved_key := []\<rparr>))
          else do { k \<leftarrow> op_key ops it;
                    u \<leftarrow> ExtractUserKey k;
                    r \<leftarrow> Compare c u (di_saved_key d);
                    if r < 0 then Some (True, d) else prev_key_loop ops c d } }"

definition di_Prev :: "'i iterator_ops \<Rightarrow> comparator \<Rightarrow> 'i db_iter \<Rightarrow> 'i db_iter option" where
  "di_Prev ops c d =
     (if \<not> di_valid d then None
      else if di_direction d = kForward
      then if \<not> op_Valid ops (di_iter d) then None
           else do { k \<leftarrow> op_key ops (di_iter d);
                     u \<leftarrow> ExtractUserKey k;
                     (found, d) \<leftarrow> prev_key_loop ops c (SaveKey u d);
                     if found then FindPrevUserEntry ops c (d\<lparr>di_direction := kReverse\<rparr>) else Some d }
      else FindPrevUserEntry ops c d)"


section \<open>Seeking\<close>

definition di_Seek :: "'i iterator_ops \<Rightarrow> comparator \<Rightarrow> 'i db_iter \<Rightarrow> slice \<Rightarrow> 'i db_iter option" where
  "di_Seek ops c d target =
     do { let d = (ClearSavedValue (d\<lparr>di_direction := kForward\<rparr>))\<lparr>di_saved_key := []\<rparr>;
          let d = d\<lparr>di_saved_key := AppendInternalKey (di_saved_key d)
             \<lparr>pk_user_key = target, pk_sequence = di_sequence d, pk_type = kValueTypeForSeek\<rparr>\<rparr>;
          it \<leftarrow> op_Seek ops (di_iter d) (di_saved_key d);
          let d = d\<lparr>di_iter := it\<rparr>;
          if op_Valid ops it then FindNextUserEntry ops c False d else Some (d\<lparr>di_valid := False\<rparr>) }"

definition di_SeekToFirst :: "'i iterator_ops \<Rightarrow> comparator \<Rightarrow> 'i db_iter \<Rightarrow> 'i db_iter option" where
  "di_SeekToFirst ops c d =
     do { let d = ClearSavedValue (d\<lparr>di_direction := kForward\<rparr>);
          it \<leftarrow> op_SeekToFirst ops (di_iter d);
          let d = d\<lparr>di_iter := it\<rparr>;
          if op_Valid ops it then FindNextUserEntry ops c False d else Some (d\<lparr>di_valid := False\<rparr>) }"

definition di_SeekToLast :: "'i iterator_ops \<Rightarrow> comparator \<Rightarrow> 'i db_iter \<Rightarrow> 'i db_iter option" where
  "di_SeekToLast ops c d =
     do { let d = ClearSavedValue (d\<lparr>di_direction := kReverse\<rparr>);
          it \<leftarrow> op_SeekToLast ops (di_iter d);
          FindPrevUserEntry ops c (d\<lparr>di_iter := it\<rparr>) }"

definition db_iterator_ops :: "'i iterator_ops \<Rightarrow> comparator \<Rightarrow> 'i db_iter iterator_ops" where
  "db_iterator_ops ops c =
     \<lparr>op_Valid = di_valid, op_SeekToFirst = di_SeekToFirst ops c, op_SeekToLast = di_SeekToLast ops c,
      op_Seek = di_Seek ops c, op_Next = di_Next ops c, op_Prev = di_Prev ops c,
      op_key = di_key ops, op_value = di_value ops, op_status = di_get_status ops\<rparr>"

end
