(* ===== verification/Ldb_Select.thy ===== *)
theory Ldb_Select
  imports Main
begin

text \<open>
  Positions in a selection: the indexes below \<open>n\<close> that satisfy a predicate, in order.  The
  iterator of the database shows a selection of the entries of the internal iterator, and each
  child of a merging iterator holds a selection of the merged entries.
\<close>

definition first_index :: "nat \<Rightarrow> nat \<Rightarrow> (nat \<Rightarrow> bool) \<Rightarrow> nat \<Rightarrow> bool" where
  "first_index n q P j \<longleftrightarrow> q \<le> j \<and> j \<le> n \<and> (\<forall>k. q \<le> k \<longrightarrow> k < j \<longrightarrow> \<not> P k) \<and> (j < n \<longrightarrow> P j)"

definition last_index :: "nat \<Rightarrow> nat \<Rightarrow> (nat \<Rightarrow> bool) \<Rightarrow> nat \<Rightarrow> bool" where
  "last_index n b P j \<longleftrightarrow> (j = n \<and> (\<forall>k < b. \<not> P k)) \<or> (j < b \<and> j < n \<and> P j \<and> (\<forall>k. j < k \<longrightarrow> k < b \<longrightarrow> \<not> P k))"

lemma first_index_step: "\<not> P q \<Longrightarrow> q < n \<Longrightarrow> (\<And>k. q < k \<Longrightarrow> k < n \<Longrightarrow> P k = P' k) \<Longrightarrow>
    first_index n (Suc q) P' j \<Longrightarrow> first_index n q P j"
  unfolding first_index_def by (auto simp: Suc_le_eq) (metis less_trans not_less_iff_gr_or_eq less_le_trans)+

lemma first_index_skip: "\<not> P q \<Longrightarrow> first_index n q P j \<Longrightarrow> q < n \<Longrightarrow> first_index n (Suc q) P j"
  unfolding first_index_def by (metis Suc_leI Suc_le_lessD less_imp_le_nat le_neq_implies_less)

lemma first_index_here: "first_index n q P j \<Longrightarrow> q < n \<Longrightarrow> P q \<Longrightarrow> j = q"
  unfolding first_index_def by (metis le_neq_implies_less le_refl)

lemma last_index_mono:
  assumes "last_index n b' P j" and "b' \<le> b" and "\<And>k. b' \<le> k \<Longrightarrow> k < b \<Longrightarrow> \<not> P k"
  shows "last_index n b P j"
proof -
  have "\<not> P k" if "k < b" "k < b' \<longrightarrow> \<not> P k" for k
    using that assms(3) [of k] by (cases "k < b'") auto
  with assms(1,2) show ?thesis unfolding last_index_def by auto
qed

lemma last_index_cut:
  assumes "last_index n b P j" and "b' \<le> b" and "\<And>k. b' \<le> k \<Longrightarrow> k < b \<Longrightarrow> \<not> P k"
  shows "last_index n b' P j"
proof -
  have "j < b'" if "j < b" "P j" using that assms(3) [of j] by (meson not_le)
  with assms(1,2) show ?thesis unfolding last_index_def by auto
qed

definition selected :: "(nat \<Rightarrow> bool) \<Rightarrow> nat \<Rightarrow> nat list" where
  "selected P n = filter P [0..<n]"

definition sel :: "(nat \<Rightarrow> bool) \<Rightarrow> nat \<Rightarrow> nat \<Rightarrow> nat" where
  "sel P n v = (if v < length (selected P n) then selected P n ! v else n)"

lemma sel_less:
  assumes "v < length (selected P n)"
  shows "sel P n v < n" "P (sel P n v)"
  using nth_mem [OF assms] assms by (auto simp: sel_def selected_def)

lemma sel_end [simp]: "sel P n (length (selected P n)) = n"
  by (simp add: sel_def)

lemma sel_less_iff [simp]: "sel P n v < n \<longleftrightarrow> v < length (selected P n)"
  using sel_less(1) [of v P n] by (auto simp: sel_def)

lemma sel_le [simp]: "sel P n v \<le> n"
proof (cases "v < length (selected P n)")
  case True
  from sel_less(1) [OF this] show ?thesis by (rule less_imp_le)
qed (simp add: sel_def)

lemma sel_mono: "v < w \<Longrightarrow> w \<le> length (selected P n) \<Longrightarrow> sel P n v < sel P n w"
proof -
  assume vw: "v < w" "w \<le> length (selected P n)"
  show ?thesis
  proof (cases "w = length (selected P n)")
    case True
    with vw show ?thesis by simp
  next
    case False
    have "sorted_wrt (<) (selected P n)"
      unfolding selected_def by (rule sorted_wrt_filter) (rule sorted_wrt_upt)
    with vw False show ?thesis by (simp add: sel_def sorted_wrt_iff_nth_less)
  qed
qed

lemma sel_mono_iff:
  "v \<le> length (selected P n) \<Longrightarrow> w \<le> length (selected P n) \<Longrightarrow> sel P n v < sel P n w \<longleftrightarrow> v < w"
  using sel_mono [of v w P n] sel_mono [of w v P n] by (metis less_irrefl less_trans nat_neq_iff)

text \<open>Every index that is selected, and the end, has a position.\<close>

lemma sel_position:
  assumes "j < n \<Longrightarrow> P j" and "j \<le> n"
  obtains v where "v \<le> length (selected P n)" "j = sel P n v"
proof (cases "j < n")
  case True
  with assms have "j \<in> set (selected P n)" by (simp add: selected_def)
  then obtain v where "v < length (selected P n)" "selected P n ! v = j" by (auto simp: in_set_conv_nth)
  then show ?thesis using that [of v] by (simp add: sel_def)
next
  case False
  with assms(2) that [of "length (selected P n)"] show ?thesis by simp
qed

lemma first_index_sel:
  assumes first: "first_index n q (\<lambda>k. P k \<and> Q k) j" and "\<And>w. w < v \<Longrightarrow> sel P n w < q"
    and "v < length (selected P n) \<Longrightarrow> q \<le> sel P n v" and "v \<le> length (selected P n)"
  obtains w where "v \<le> w" "w \<le> length (selected P n)" "j = sel P n w"
    "\<And>u. v \<le> u \<Longrightarrow> u < w \<Longrightarrow> \<not> Q (sel P n u)" "w < length (selected P n) \<Longrightarrow> Q (sel P n w)"
proof -
  note j = first [unfolded first_index_def]
  obtain w where w: "w \<le> length (selected P n)" "j = sel P n w" using sel_position [of j n P] j by blast
  have "v \<le> w"
  proof (rule ccontr)
    assume "\<not> v \<le> w"
    with assms(2) [of w] w j show False by simp
  qed
  moreover have "\<not> Q (sel P n u)" if u: "v \<le> u" "u < w" for u
  proof -
    have len: "u < length (selected P n)" using u w(1) by simp
    moreover have "q \<le> sel P n u"
      using assms(3) u len sel_mono [of v u P n] by (cases "v = u") auto
    moreover have "sel P n u < j" using sel_mono [OF u(2) w(1)] w(2) by simp
    ultimately show ?thesis using j sel_less(2) [OF len] by auto
  qed
  moreover have "Q (sel P n w)" if "w < length (selected P n)" using j w that by simp
  ultimately show ?thesis using that w by blast
qed

lemma first_index_next:
  assumes "v < length (selected P n)" and "first_index n (Suc (sel P n v)) P j"
  shows "j = sel P n (Suc v)"
proof -
  obtain w where w: "Suc v \<le> w" "w \<le> length (selected P n)" "j = sel P n w" "\<And>u. Suc v \<le> u \<Longrightarrow> u < w \<Longrightarrow> \<not> True"
  proof (rule first_index_sel [of n "Suc (sel P n v)" P "\<lambda>_. True" j "Suc v"])
    show "first_index n (Suc (sel P n v)) (\<lambda>k. P k \<and> True) j" using assms(2) by simp
    show "sel P n w < Suc (sel P n v)" if "w < Suc v" for w
      using that assms(1) sel_mono [of w v P n] by (cases "w = v") auto
    show "Suc (sel P n v) \<le> sel P n (Suc v)" if "Suc v < length (selected P n)"
      using that sel_mono [of v "Suc v" P n] by simp
  qed (use assms(1) in auto)
  have "w = Suc v" using w(1) w(4) [of "Suc v"] by fastforce
  with w(3) show ?thesis by simp
qed

lemma first_index_start:
  assumes "first_index n 0 P j"
  shows "j = sel P n 0"
proof -
  obtain w where w: "w \<le> length (selected P n)" "j = sel P n w" "\<And>u. 0 \<le> u \<Longrightarrow> u < w \<Longrightarrow> \<not> True"
    by (rule first_index_sel [of n 0 P "\<lambda>_. True" j 0]) (use assms in auto)
  with w(3) [of 0] show ?thesis by auto
qed

lemma last_index_sel:
  assumes "v \<le> length (selected P n)" and "last_index n (sel P n v) P j"
  shows "j = sel P n (if v = 0 then length (selected P n) else v - 1)"
proof (cases "v = 0")
  case True
  have "\<not> (j < sel P n 0 \<and> j < n \<and> P j)"
  proof
    assume j: "j < sel P n 0 \<and> j < n \<and> P j"
    then obtain w where "w \<le> length (selected P n)" "j = sel P n w" using sel_position [of j n P] by auto
    with j sel_mono_iff [of w P n 0] show False by simp
  qed
  with True assms(2) show ?thesis by (auto simp: last_index_def)
next
  case False
  then have v: "v - 1 < length (selected P n)" "sel P n (v - 1) < sel P n v"
    using assms(1) sel_mono [of "v - 1" v P n] by auto
  note p = sel_less [OF v(1)]
  with v(2) assms(2) have j: "j < sel P n v" "j < n" "P j" "\<And>k. j < k \<Longrightarrow> k < sel P n v \<Longrightarrow> \<not> P k"
    by (auto simp: last_index_def)
  obtain w where w: "w \<le> length (selected P n)" "j = sel P n w" using sel_position [of j n P] j by auto
  have "w < v" using j(1) w sel_mono_iff [OF w(1) assms(1)] by simp
  moreover have "\<not> j < sel P n (v - 1)" using j(4) v(2) p(2) by blast
  then have "\<not> w < v - 1" using w(2) sel_mono [of w "v - 1" P n] v(1) by auto
  ultimately have "w = v - 1" by simp
  with w(2) False show ?thesis by simp
qed

lemma last_index_sel_end:
  "last_index n n P j \<Longrightarrow> j = sel P n (length (selected P n) - 1)"
  using last_index_sel [of "length (selected P n)" P n j] by (simp split: if_splits)

lemma first_index_exists: "q \<le> n \<Longrightarrow> \<exists>j. first_index n q P j"
proof (induction "n - q" arbitrary: q)
  case 0
  then have "first_index n q P n" by (simp add: first_index_def)
  then show ?case ..
next
  case (Suc d)
  show ?case
  proof (cases "P q")
    case True
    with Suc.hyps(2) have "first_index n q P q" by (simp add: first_index_def)
    then show ?thesis ..
  next
    case False
    have "d = n - Suc q" "Suc q \<le> n" using Suc.hyps(2) by simp_all
    from Suc.hyps(1) [OF this] obtain j where "first_index n (Suc q) P j" ..
    then have "first_index n q P j" using first_index_step [of P q n P j, OF False] Suc.hyps(2) by simp
    then show ?thesis ..
  qed
qed

text \<open>The other way around: the neighbours of a position are the next and the last index.\<close>

lemma sel_next: "v < length (selected P n) \<Longrightarrow> first_index n (Suc (sel P n v)) P (sel P n (Suc v))"
proof -
  assume v: "v < length (selected P n)"
  then have "Suc (sel P n v) \<le> n" by (simp add: Suc_le_eq)
  then show ?thesis using first_index_next [OF v] first_index_exists by blast
qed

lemma last_index_exists: "\<exists>j. last_index n b P j" if "b \<le> n"
  using that
proof (induction b)
  case 0
  have "last_index n 0 P n" by (simp add: last_index_def)
  then show ?case ..
next
  case (Suc b)
  show ?case
  proof (cases "P b")
    case True
    with Suc.prems show ?thesis unfolding last_index_def by (intro exI [of _ b]) auto
  next
    case False
    from Suc obtain j where "last_index n b P j" by auto
    from last_index_mono [OF this, of "Suc b"] False show ?thesis by (auto simp: less_Suc_eq)
  qed
qed

lemma sel_prev: "v \<le> length (selected P n) \<Longrightarrow>
    last_index n (sel P n v) P (sel P n (if v = 0 then length (selected P n) else v - 1))"
proof -
  assume v: "v \<le> length (selected P n)"
  obtain j where "last_index n (sel P n v) P j" using last_index_exists [OF sel_le] by blast
  with last_index_sel [OF v this] show ?thesis by simp
qed

lemma sel_first: "first_index n 0 P (sel P n 0)"
  using first_index_exists [of 0 n P] first_index_start [of n P] by auto

text \<open>A sorted list is determined by its elements.\<close>

lemma sorted_wrt_unique:
  assumes "\<And>x y. x \<in> set xs \<Longrightarrow> y \<in> set xs \<Longrightarrow> R x y \<Longrightarrow> \<not> R y x"
  shows "sorted_wrt R xs \<Longrightarrow> sorted_wrt R ys \<Longrightarrow> set xs = set ys \<Longrightarrow> xs = ys"
  using assms
proof (induction xs arbitrary: ys)
  case (Cons x xs)
  from Cons.prems(3) obtain y zs where ys: "ys = y # zs" by (cases ys) auto
  have xy: "x = y"
  proof (rule ccontr)
    assume "x \<noteq> y"
    with Cons.prems(3) ys have "y \<in> set xs" "x \<in> set zs" by auto
    with Cons.prems(1,2) ys have "R x y" "R y x" by auto
    with Cons.prems(4) [of x y] \<open>y \<in> set xs\<close> show False by simp
  qed
  have "\<not> R x x" using Cons.prems(4) [of x x] by auto
  then have "x \<notin> set xs" "x \<notin> set zs" using Cons.prems(1,2) ys xy by auto
  then have eq: "set xs = set zs" using Cons.prems(3) ys xy by auto
  have "xs = zs"
  proof (rule Cons.IH [OF _ _ eq])
    show "sorted_wrt R xs" "sorted_wrt R zs" using Cons.prems(1,2) ys by simp_all
    show "\<not> R b a" if "a \<in> set xs" "b \<in> set xs" "R a b" for a b
      by (rule Cons.prems(4) [OF _ _ that(3)]) (use that(1,2) in simp_all)
  qed
  with ys xy show ?case by simp
qed simp

end
