(* ===== verification/Ldb_DbIterSpec.thy ===== *)
theory Ldb_DbIterSpec
  imports Ldb_DbIter Ldb_Select
begin

text \<open>
  What the iterator of the database shows.  The internal iterator runs over sorted internal
  keys; an entry is visible in the snapshot \<open>s\<close> when its sequence number is at most \<open>s\<close>, and it
  is shown when it is the newest visible entry of its user key and not a deletion.  The iterator
  is a cursor over the entries that are shown, in both directions and across changes of
  direction.
\<close>

section \<open>The view of a snapshot\<close>

definition parsed_key :: "slice \<Rightarrow> ParsedInternalKey option" where
  "parsed_key k = (case ParseInternalKey k of (ok, p) \<Rightarrow> if ok then p else None)"

definition entry_user :: "(slice \<times> slice) list \<Rightarrow> nat \<Rightarrow> slice" where
  "entry_user kvs k = (let key = fst (kvs ! k) in take (length key - 8) key)"

definition entry_visible :: "SequenceNumber \<Rightarrow> (slice \<times> slice) list \<Rightarrow> nat \<Rightarrow> bool" where
  "entry_visible s kvs k =
     (case parsed_key (fst (kvs ! k)) of None \<Rightarrow> False | Some p \<Rightarrow> pk_sequence p \<le> s)"

definition entry_is_value :: "(slice \<times> slice) list \<Rightarrow> nat \<Rightarrow> bool" where
  "entry_is_value kvs k =
     (case parsed_key (fst (kvs ! k)) of None \<Rightarrow> False | Some p \<Rightarrow> pk_type p = kTypeValue)"

definition entry_shown :: "SequenceNumber \<Rightarrow> (slice \<times> slice) list \<Rightarrow> nat \<Rightarrow> bool" where
  "entry_shown s kvs k \<longleftrightarrow> entry_visible s kvs k \<and> entry_is_value kvs k \<and>
     (\<forall>i \<in> set [0..<k]. entry_visible s kvs i \<longrightarrow> entry_user kvs i \<noteq> entry_user kvs k)"

definition shown_indexes :: "SequenceNumber \<Rightarrow> (slice \<times> slice) list \<Rightarrow> nat list" where
  "shown_indexes s kvs = selected (entry_shown s kvs) (length kvs)"

definition snapshot_view :: "SequenceNumber \<Rightarrow> (slice \<times> slice) list \<Rightarrow> (slice \<times> slice) list" where
  "snapshot_view s kvs = map (\<lambda>k. (entry_user kvs k, snd (kvs ! k))) (shown_indexes s kvs)"

definition all_parsed :: "(slice \<times> slice) list \<Rightarrow> bool" where
  "all_parsed kvs \<longleftrightarrow> (\<forall>kv \<in> set kvs. parsed_key (fst kv) \<noteq> None)"

lemma parsed_key_form:
  assumes "parsed_key (u @ EncodeFixed64 n) = Some p"
  shows "p = \<lparr>pk_user_key = u, pk_sequence = drop_bit 8 n, pk_type = ucast (n AND 0xff)\<rparr>"
    "pk_type p = kTypeDeletion \<or> pk_type p = kTypeValue"
proof -
  show p: "p = \<lparr>pk_user_key = u, pk_sequence = drop_bit 8 n, pk_type = ucast (n AND 0xff)\<rparr>"
    using assms by (simp add: parsed_key_def ParseInternalKey_def Let_def split: if_splits)
  have "pk_type p \<le> kTypeValue"
    using assms by (auto simp: parsed_key_def ParseInternalKey_def Let_def split: if_splits)
  then have "unat (pk_type p) \<le> 1" by (simp add: word_le_nat_alt kTypeValue_def)
  then have "unat (pk_type p) = 0 \<or> unat (pk_type p) = 1" by linarith
  then show "pk_type p = kTypeDeletion \<or> pk_type p = kTypeValue"
    by (metis kTypeDeletion_def kTypeValue_def unsigned_0 unsigned_1 unsigned_word_eqI)
qed


section \<open>The samples\<close>

text \<open>
  The generator never draws a multiple of \<open>2 ^ 21\<close> twice in a row, so the counter reaches zero.
\<close>

lemma two_draws:
  assumes "good_seed r" and "unat (random_Next r) mod 2097152 = 0"
  shows "unat (random_Next (random_Next r)) mod 2097152 \<noteq> 0"
proof -
  let ?x = "unat (random_Next r)"
  obtain k where k: "?x = 2097152 * k" using assms(2) by (auto simp: mod_eq_0_iff_dvd)
  have good: "good_seed (random_Next r)" by (rule random_Next_good [OF assms(1)])
  then have k_less: "0 < k" "k < 1024" using k by (auto simp: good_seed_def)
  define q t where "q = k * 423 div 1024" and "t = k * 423 mod 1024"
  then have qt: "1024 * q + t = k * 423" and t: "t < 1024" by simp_all
  then have q: "q \<le> 423" using k_less by linarith
  have split: "?x * 16807 = 2147483647 * (16 * k + q) + (t * 2097152 + (16 * k + q))"
  proof -
    have "(2097152 * k) * 16807 = 2147483647 * (16 * k + q) + (t * 2097152 + (16 * k + q))"
      using arg_cong [OF qt, of "(*) 2097152"] by (simp add: distrib_left)
    with k show ?thesis by simp
  qed
  have "unat (random_Next (random_Next r)) = ?x * 16807 mod 2147483647" by (rule random_Next_mod [OF good])
  also have "\<dots> = t * 2097152 + (16 * k + q)" 
  proof -
    have "t * 2097152 + (16 * k + q) < 2147483647" using q t k_less by linarith
    then show ?thesis by (simp only: split mod_mult_self4 mod_less)
  qed
  finally have "unat (random_Next (random_Next r)) mod 2097152 = (16 * k + q) mod 2097152" by simp
  also have "\<dots> = 16 * k + q" using q k_less by simp
  finally show ?thesis using k_less by simp
qed

lemma draw_mod: "unat (r mod (2 * kReadBytesPeriod)) = unat r mod 2097152"
  by (simp add: kReadBytesPeriod_def unat_mod_distrib)

lemma sample_loop_total:
  "good_seed r \<Longrightarrow> \<exists>r' n' samples'. sample_loop k r n samples = Some (r', n', samples') \<and> good_seed r'"
proof (induction "nat (- n)" arbitrary: n r samples rule: less_induct)
  case less
  show ?case
  proof (cases "n < 0")
    case False
    with less.prems show ?thesis by (simp add: sample_loop.simps)
  next
    case True
    let ?r1 = "random_Next r"
    define p1 where "p1 = unat (?r1 mod (2 * kReadBytesPeriod))"
    have good1: "good_seed ?r1" by (rule random_Next_good [OF less.prems])
    have step: "sample_loop k r n samples = sample_loop k ?r1 (n + int p1) (samples @ [k])"
      by (subst sample_loop.simps) (simp add: True RandomPeriod_def random_Uniform_def Let_def p1_def)
    show ?thesis
    proof (cases "p1 = 0")
      case False
      with True have "nat (- (n + int p1)) < nat (- n)" by simp
      from less.hyps [OF this good1] step show ?thesis by simp
    next
      case zero: True
      let ?r2 = "random_Next ?r1"
      define p2 where "p2 = unat (?r2 mod (2 * kReadBytesPeriod))"
      have "0 < p2" using two_draws [OF less.prems] zero by (simp add: draw_mod p1_def p2_def)
      with True have "nat (- (n + int p2)) < nat (- n)" by simp
      note rest = less.hyps [OF this random_Next_good [OF good1]]
      have "sample_loop k ?r1 n (samples @ [k]) = sample_loop k ?r2 (n + int p2) ((samples @ [k]) @ [k])"
        by (subst sample_loop.simps) (simp add: True RandomPeriod_def random_Uniform_def Let_def p2_def)
      with step zero rest show ?thesis by simp
    qed
  qed
qed

lemma NewDBIterator_good: "good_seed (di_rnd (NewDBIterator it s seed))"
  by (simp add: NewDBIterator_def RandomPeriod_def random_Uniform_def Let_def random_Next_good Random_good)


section \<open>What does not change\<close>

definition carries :: "SequenceNumber \<Rightarrow> (slice \<times> slice) list \<Rightarrow> 'i db_iter \<Rightarrow> bool" where
  "carries s kvs d \<longleftrightarrow> di_sequence d = s \<and> good_seed (di_rnd d) \<and> (all_parsed kvs \<longrightarrow> status_ok (di_status d))"

lemma carries_simps [simp]:
  "carries s kvs (d\<lparr>di_iter := it\<rparr>) = carries s kvs d"
  "carries s kvs (d\<lparr>di_saved_key := k\<rparr>) = carries s kvs d"
  "carries s kvs (d\<lparr>di_saved_value := k\<rparr>) = carries s kvs d"
  "carries s kvs (d\<lparr>di_direction := dir\<rparr>) = carries s kvs d"
  "carries s kvs (d\<lparr>di_valid := b\<rparr>) = carries s kvs d"
  by (simp_all add: carries_def)

text \<open>Parsing a key changes only the generator, the samples and the status.\<close>

definition sampled :: "(slice \<times> slice) list \<Rightarrow> 'i db_iter \<Rightarrow> 'i db_iter \<Rightarrow> bool" where
  "sampled kvs d d' \<longleftrightarrow> di_iter d' = di_iter d \<and> di_saved_key d' = di_saved_key d \<and>
     di_saved_value d' = di_saved_value d \<and> di_direction d' = di_direction d \<and> di_valid d' = di_valid d \<and>
     (\<forall>s. carries s kvs d \<longrightarrow> carries s kvs d')"

locale snapshot = separating c valid + cursor ops "InternalKeyComparator c" "ikeys valid" kvs at
  for c :: comparator and valid :: "slice set" and ops :: "'i iterator_ops"
    and kvs :: "(slice \<times> slice) list" and at :: "nat \<Rightarrow> 'i \<Rightarrow> bool" +
  fixes s :: SequenceNumber
begin

abbreviation user :: "nat \<Rightarrow> slice" where "user \<equiv> entry_user kvs"
abbreviation vis :: "nat \<Rightarrow> bool" where "vis \<equiv> entry_visible s kvs"
abbreviation shown :: "nat \<Rightarrow> bool" where "shown \<equiv> entry_shown s kvs"
abbreviation first_from :: "nat \<Rightarrow> (nat \<Rightarrow> bool) \<Rightarrow> nat \<Rightarrow> bool" where "first_from \<equiv> first_index (length kvs)"
abbreviation last_below :: "nat \<Rightarrow> (nat \<Rightarrow> bool) \<Rightarrow> nat \<Rightarrow> bool" where "last_below \<equiv> last_index (length kvs)"
abbreviation sorted_keys :: bool where "sorted_keys \<equiv> sorted_pairs (InternalKeyComparator c) (ikeys valid) kvs"

lemma key_form:
  assumes sorted_keys and "k < length kvs"
  obtains n where "fst (kvs ! k) = user k @ EncodeFixed64 n" "user k \<in> valid"
proof -
  have "fst (kvs ! k) \<in> ikeys valid" by (rule sorted_pairsD(1) [OF assms])
  then obtain u n where "fst (kvs ! k) = u @ EncodeFixed64 n" "u \<in> valid" by (auto simp: ikeys_def)
  moreover from this have "user k = u" by (simp add: entry_user_def Let_def)
  ultimately show ?thesis using that by blast
qed

lemma user_valid: "sorted_keys \<Longrightarrow> k < length kvs \<Longrightarrow> user k \<in> valid"
  using key_form by blast

lemma ExtractUserKey_entry: "sorted_keys \<Longrightarrow> k < length kvs \<Longrightarrow> ExtractUserKey (fst (kvs ! k)) = Some (user k)"
  by (erule (1) key_form) simp

lemma before_internal:
  assumes "u \<in> valid" "v \<in> valid"
  shows "before (InternalKeyComparator c) (u @ EncodeFixed64 m) (v @ EncodeFixed64 n) \<longleftrightarrow> lt u v \<or> u = v \<and> n < m"
  using ikey_lt [OF assms, of m n] by (simp add: InternalKeyComparator_def)

lemma user_order:
  assumes so: sorted_keys and "h < k" "k < length kvs"
  shows "lt (user h) (user k) \<or> user h = user k"
proof -
  obtain m where h: "fst (kvs ! h) = user h @ EncodeFixed64 m" "user h \<in> valid"
    using key_form [OF so] assms(2,3) less_trans by metis
  obtain n where k: "fst (kvs ! k) = user k @ EncodeFixed64 n" "user k \<in> valid"
    using key_form [OF so assms(3)] by metis
  from sorted_pairsD(2) [OF so assms(2,3)] show ?thesis
    unfolding h(1) k(1) before_internal [OF h(2) k(2)] by blast
qed

lemma user_le: "sorted_keys \<Longrightarrow> h \<le> k \<Longrightarrow> k < length kvs \<Longrightarrow> le (user h) (user k)"
  using user_order [of h k] lt_imp_le le_refl user_valid by (metis le_neq_implies_less)

lemma user_between:
  assumes so: sorted_keys and "h \<le> i" "i \<le> k" "k < length kvs" "user h = user k"
  shows "user i = user k"
proof -
  have "le (user h) (user i)" by (rule user_le [OF so assms(2)]) (use assms(3,4) in simp)
  moreover have "le (user i) (user k)" by (rule user_le [OF so assms(3,4)])
  moreover have "user i \<in> valid" "user k \<in> valid" using assms user_valid by simp_all
  ultimately show ?thesis using assms(5) le_iff [of "user i" "user k"] le_iff [of "user k" "user i"] lt_asym by metis
qed

lemma shownD:
  "shown k \<Longrightarrow> vis k" "shown k \<Longrightarrow> entry_is_value kvs k"
  "shown k \<Longrightarrow> i < k \<Longrightarrow> vis i \<Longrightarrow> user i \<noteq> user k"
  by (auto simp: entry_shown_def)

lemma shownI: "vis k \<Longrightarrow> entry_is_value kvs k \<Longrightarrow> (\<And>i. i < k \<Longrightarrow> vis i \<Longrightarrow> user i \<noteq> user k) \<Longrightarrow> shown k"
  by (auto simp: entry_shown_def)

lemma shown_later: "sorted_keys \<Longrightarrow> vis h \<Longrightarrow> shown k \<Longrightarrow> h < k \<Longrightarrow> k < length kvs \<Longrightarrow> lt (user h) (user k)"
  using user_order [of h k] shownD(3) [of k h] by blast

text \<open>The type of a key that parses is one of the two that are known.\<close>

lemma parsed_entry:
  assumes sorted_keys and "k < length kvs" and "parsed_key (fst (kvs ! k)) = Some p"
  shows "pk_user_key p = user k" "pk_sequence p \<le> s \<longleftrightarrow> vis k"
    "pk_type p = kTypeValue \<longleftrightarrow> entry_is_value kvs k" "pk_type p = kTypeDeletion \<longleftrightarrow> \<not> entry_is_value kvs k"
proof -
  obtain n where n: "fst (kvs ! k) = user k @ EncodeFixed64 n" by (rule key_form [OF assms(1,2)])
  note p = parsed_key_form [OF assms(3) [unfolded n]]
  show "pk_user_key p = user k" by (simp add: p(1))
  show "pk_sequence p \<le> s \<longleftrightarrow> vis k" by (simp add: entry_visible_def assms(3))
  show v: "pk_type p = kTypeValue \<longleftrightarrow> entry_is_value kvs k" by (simp add: entry_is_value_def assms(3))
  then show "pk_type p = kTypeDeletion \<longleftrightarrow> \<not> entry_is_value kvs k"
    using p(2) by (auto simp: kTypeDeletion_def kTypeValue_def)
qed

lemma ParseKey_at:
  assumes it: "at j (di_iter d)" and j: "j < length kvs" and "carries s kvs d"
  obtains d' where "ParseKey ops d = Some (parsed_key (fst (kvs ! j)), d')" "sampled kvs d d'" "carries s kvs d'"
proof -
  note pair = at_pair [OF it j]
  have seed: "good_seed (di_rnd d)" using assms(3) by (simp add: carries_def)
  obtain r n l where loop: "sample_loop (fst (kvs ! j)) (di_rnd d)
      (di_bytes_counter d - int (length (fst (kvs ! j)) + length (snd (kvs ! j)))) (di_samples d) = Some (r, n, l)"
    and r: "good_seed r" using sample_loop_total [OF seed] by blast
  let ?d = "d\<lparr>di_rnd := r, di_bytes_counter := n, di_samples := l\<rparr>"
  let ?d' = "if fst (ParseInternalKey (fst (kvs ! j))) then ?d
    else ?d\<lparr>di_status := corruption ''corrupted internal key in DBIter''\<rparr>"
  have "ParseKey ops d = Some (parsed_key (fst (kvs ! j)), ?d')"
    using pair loop by (auto simp: ParseKey_def parsed_key_def Let_def split: prod.splits bool.splits)
  moreover have "\<not> all_parsed kvs" if "\<not> fst (ParseInternalKey (fst (kvs ! j)))"
  proof -
    have "parsed_key (fst (kvs ! j)) = None"
      using that by (cases "ParseInternalKey (fst (kvs ! j))") (simp add: parsed_key_def)
    with nth_mem [OF j] show ?thesis unfolding all_parsed_def by blast
  qed
  then have "carries t kvs ?d'" if "carries t kvs d" for t
    using that r by (auto simp: carries_def)
  then have "sampled kvs d ?d'" "carries s kvs ?d'" using assms(3) by (simp_all add: sampled_def)
  ultimately show ?thesis by (rule that)
qed


text \<open>
  The loop forward.  \<open>k\<close> is a candidate when it is shown and, while entries are skipped, its
  user key is behind the saved one.  The loop has started at an entry before which nothing
  visible has a user key that comes again, unless it is skipped.
\<close>

definition candidate :: "bool \<Rightarrow> slice \<Rightarrow> nat \<Rightarrow> bool" where
  "candidate skipping skip k \<longleftrightarrow> shown k \<and> (skipping \<longrightarrow> lt skip (user k))"

definition skips :: "nat \<Rightarrow> bool \<Rightarrow> slice \<Rightarrow> bool" where
  "skips q skipping skip \<longleftrightarrow>
     (\<forall>i k. i < q \<longrightarrow> q \<le> k \<longrightarrow> k < length kvs \<longrightarrow> vis i \<longrightarrow> user i = user k \<longrightarrow> skipping \<and> le (user k) skip) \<and>
     (skipping \<longrightarrow> skip \<in> valid \<and> (\<forall>k. q \<le> k \<longrightarrow> k < length kvs \<longrightarrow> vis k \<longrightarrow> le skip (user k)))"

lemma next_entry_at:
  assumes so: sorted_keys and it: "at q (di_iter d)" and q: "q < length kvs" and d: "carries s kvs d"
    and "skips q skipping (di_saved_key d)"
  obtains (go_on) d' skipping' where "next_entry ops c skipping d = Some (Inl (skipping', d'))"
      "di_iter d' = di_iter d" "di_direction d' = di_direction d" "carries s kvs d'"
      "skips (Suc q) skipping' (di_saved_key d')" "\<not> candidate skipping (di_saved_key d) q"
      "\<And>k. q < k \<Longrightarrow> k < length kvs \<Longrightarrow>
        candidate skipping (di_saved_key d) k = candidate skipping' (di_saved_key d') k"
    | (found) d' where "next_entry ops c skipping d = Some (Inr (d'\<lparr>di_valid := True, di_saved_key := []\<rparr>))"
      "di_iter d' = di_iter d" "di_direction d' = di_direction d" "carries s kvs d'"
      "candidate skipping (di_saved_key d) q"
proof -
  obtain d1 where parse: "ParseKey ops d = Some (parsed_key (fst (kvs ! q)), d1)" and sam: "sampled kvs d d1"
    and d1: "carries s kvs d1" by (rule ParseKey_at [OF it q d])
  note same = sam [unfolded sampled_def]
  note clean = conjunct1 [OF assms(5) [unfolded skips_def]] and low = conjunct2 [OF assms(5) [unfolded skips_def]]
  have uq: "user q \<in> valid" by (rule user_valid [OF so q])
  have later: "le (user q) (user k)" if "q < k" "k < length kvs" for k using user_le [OF so, of q k] that by simp
  show ?thesis
  proof (cases "vis q")
    case False
    then have "next_entry ops c skipping d = Some (Inl (skipping, d1))"
      using parse d1 parsed_entry(2) [OF so q] unfolding next_entry_def carries_def
      by (cases "parsed_key (fst (kvs ! q))") simp_all
    moreover have "skips (Suc q) skipping (di_saved_key d1)"
      using clean low False same unfolding skips_def by (metis Suc_leD less_Suc_eq)
    moreover have "\<not> candidate skipping (di_saved_key d) q" using False shownD(1) by (auto simp: candidate_def)
    ultimately show ?thesis using go_on same d1 by auto
  next
    case vis: True
    then obtain p where p: "parsed_key (fst (kvs ! q)) = Some p" by (auto simp: entry_visible_def split: option.splits)
    note p_simps = parsed_entry [OF so q p]
    have seq: "pk_sequence p \<le> di_sequence d1" using vis p_simps(2) d1 by (simp add: carries_def)
    show ?thesis
    proof (cases "entry_is_value kvs q")
      case False
      let ?d = "SaveKey (user q) d1"
      have "next_entry ops c skipping d = Some (Inl (True, ?d))"
        using parse p p_simps seq False by (simp add: next_entry_def)
      moreover have "skips (Suc q) True (di_saved_key ?d)"
        unfolding skips_def
      proof (intro conjI impI allI)
        fix i k assume i: "i < Suc q" "Suc q \<le> k" "k < length kvs" "vis i" "user i = user k"
        then have "user q = user k" using user_between [OF so, of i q k] by simp
        then show "True" "le (user k) (di_saved_key ?d)" using uq by (simp_all add: SaveKey_def)
      next
        show "di_saved_key ?d \<in> valid" using uq by (simp add: SaveKey_def)
        show "le (di_saved_key ?d) (user k)" if "Suc q \<le> k" "k < length kvs" for k
          using later that by (simp add: SaveKey_def)
      qed
      moreover have "\<not> candidate skipping (di_saved_key d) q" using False shownD(2) by (auto simp: candidate_def)
      moreover have "candidate skipping (di_saved_key d) k = candidate True (di_saved_key ?d) k"
        if k: "q < k" "k < length kvs" for k
      proof -
        have "lt (user q) (user k)" if "shown k" by (rule shown_later [OF so vis that k])
        moreover have "lt (di_saved_key d) (user k)" if "shown k" skipping
          using low that vis q calculation [OF that(1)] uq user_valid [OF so k(2)] le_lt_trans by (metis le_refl order_refl)
        ultimately show ?thesis by (auto simp: candidate_def SaveKey_def)
      qed
      ultimately show ?thesis using go_on [of True ?d] same d1 by (auto simp: SaveKey_def)
    next
      case val: True
      have hidden: "(if skipping then map_option (\<lambda>r. r \<le> 0) (Compare c (user q) (di_saved_key d1)) else Some False)
          = Some (skipping \<and> le (user q) (di_saved_key d))"
      proof (cases skipping)
        case True
        then have "di_saved_key d \<in> valid" using low by simp
        from cmp_cases [OF uq this] obtain r where "Compare c (user q) (di_saved_key d) = Some r" by blast
        with True same show ?thesis by (auto simp: le_def)
      qed simp
      show ?thesis
      proof (cases "skipping \<and> le (user q) (di_saved_key d)")
        case True
        then have "next_entry ops c skipping d = Some (Inl (skipping, d1))"
          using parse p p_simps seq val hidden by (auto simp: next_entry_def)
        moreover have "skips (Suc q) skipping (di_saved_key d1)"
          using clean low True same unfolding skips_def by (metis Suc_leD less_Suc_eq)
        moreover have "\<not> candidate skipping (di_saved_key d) q"
          using True low uq not_lt [of "di_saved_key d" "user q"] by (auto simp: candidate_def)
        ultimately show ?thesis using go_on same d1 by auto
      next
        case False
        then have "next_entry ops c skipping d = Some (Inr (d1\<lparr>di_valid := True, di_saved_key := []\<rparr>))"
          using parse p p_simps seq val hidden by (auto simp: next_entry_def)
        moreover have "shown q"
          by (rule shownI [OF vis val]) (use clean False q in blast)
        then have "candidate skipping (di_saved_key d) q"
          using False low uq not_le [of "user q" "di_saved_key d"] by (auto simp: candidate_def)
        ultimately show ?thesis using found same d1 by auto
      qed
    qed
  qed
qed

lemma next_loop_at:
  assumes so: sorted_keys and "at q (di_iter d)" and "q < length kvs" and "carries s kvs d"
    and "skips q skipping (di_saved_key d)" and "di_direction d = kForward"
  shows "\<exists>d' j. next_loop ops c skipping d = Some d' \<and> carries s kvs d' \<and> di_direction d' = kForward \<and>
    first_from q (candidate skipping (di_saved_key d)) j \<and> at j (di_iter d') \<and> di_valid d' = (j < length kvs)"
  using assms(2-)
proof (induction "length kvs - q" arbitrary: q d skipping)
  case (Suc n)
  show ?case
  proof (cases rule: next_entry_at [OF so Suc.prems(1-4)])
    case (1 d' skipping')
    obtain it' where it': "op_Next ops (di_iter d) = Some it'" "at (Suc q) it'"
      using at_Next [OF Suc.prems(1,2)] by blast
    let ?d = "d'\<lparr>di_iter := it'\<rparr>"
    note step = first_index_step [of "candidate skipping (di_saved_key d)" q, OF 1(6) Suc.prems(2) 1(7)]
    show ?thesis
    proof (cases "Suc q < length kvs")
      case True
      with at_Valid [OF it'(2)] 1 it'(1)
      have go: "next_loop ops c skipping d = next_loop ops c skipping' ?d"
        by (subst next_loop.simps) simp
      have "n = length kvs - Suc q" using Suc.hyps(2) by simp
      from Suc.hyps(1) [OF this, of ?d skipping'] True it' 1 Suc.prems(5) go step show ?thesis by simp blast
    next
      case False
      with at_Valid [OF it'(2)] 1 it'(1)
      have "next_loop ops c skipping d = Some (?d\<lparr>di_saved_key := [], di_valid := False\<rparr>)"
        by (subst next_loop.simps) simp
      moreover have "first_from (Suc q) (candidate skipping' (di_saved_key d')) (length kvs)"
        using Suc.prems(2) False by (auto simp: first_index_def)
      moreover have "Suc q = length kvs" using False Suc.prems(2) by simp
      ultimately show ?thesis using it' 1 Suc.prems(5) step [of "length kvs"] by auto
    qed
  next
    case (2 d')
    have "next_loop ops c skipping d = Some (d'\<lparr>di_valid := True, di_saved_key := []\<rparr>)"
      by (subst next_loop.simps) (simp add: 2)
    moreover have "first_from q (candidate skipping (di_saved_key d)) q"
      using 2(5) Suc.prems(2) by (simp add: first_index_def)
    ultimately show ?thesis using 2 Suc.prems by auto
  qed
qed simp


text \<open>
  The loop backward.  The entries below \<open>q\<close> are left; the result is the last shown entry below
  \<open>b\<close>.  With a value type that is not a deletion, the newest visible entry so far is \<open>b - 1\<close>.
\<close>

definition behind :: "nat \<Rightarrow> nat \<Rightarrow> bool" where
  "behind j p \<longleftrightarrow> (p = length kvs \<and> (\<forall>i < j. \<not> vis i)) \<or>
     (p < j \<and> vis p \<and> user p \<noteq> user j \<and> (\<forall>i. p < i \<longrightarrow> i < j \<longrightarrow> \<not> vis i))"

definition saved :: "nat \<Rightarrow> 'i db_iter \<Rightarrow> bool" where
  "saved j d \<longleftrightarrow> di_saved_key d = user j \<and> di_saved_value d = snd (kvs ! j)"

definition pending :: "ValueType \<Rightarrow> 'i db_iter \<Rightarrow> nat \<Rightarrow> nat \<Rightarrow> bool" where
  "pending t d q b \<longleftrightarrow> (if t = kTypeDeletion then b = q
     else \<exists>j. b = Suc j \<and> q \<le> j \<and> j < length kvs \<and> vis j \<and> entry_is_value kvs j \<and> saved j d \<and>
       (\<forall>i. q \<le> i \<longrightarrow> i < j \<longrightarrow> \<not> vis i))"

lemma pending_iter: "pending t (d\<lparr>di_iter := it\<rparr>) q b = pending t d q b"
  by (simp add: pending_def saved_def)

lemma prev_entry_at:
  assumes so: sorted_keys and it: "at p (di_iter d)" and p: "p < length kvs" and d: "carries s kvs d"
    and pend: "pending t d (Suc p) b"
  obtains (go_on) d' t' b' where "prev_entry ops c t d = Some (Inl (t', d'))"
      "di_iter d' = di_iter d" "di_direction d' = di_direction d" "carries s kvs d'"
      "pending t' d' p b'" "b' \<le> b" "\<And>k. b' \<le> k \<Longrightarrow> k < b \<Longrightarrow> \<not> shown k"
    | (stop) d' j where "prev_entry ops c t d = Some (Inr d')"
      "di_iter d' = di_iter d" "di_direction d' = di_direction d" "carries s kvs d'"
      "t \<noteq> kTypeDeletion" "b = Suc j" "j < length kvs" "saved j d'" "shown j" "behind j p"
proof -
  obtain d1 where parse: "ParseKey ops d = Some (parsed_key (fst (kvs ! p)), d1)" and sam: "sampled kvs d d1"
    and d1: "carries s kvs d1" by (rule ParseKey_at [OF it p d])
  note same = sam [unfolded sampled_def]
  have up: "user p \<in> valid" by (rule user_valid [OF so p])
  show ?thesis
  proof (cases "vis p")
    case False
    then have "prev_entry ops c t d = Some (Inl (t, d1))"
      using parse d1 parsed_entry(2) [OF so p] unfolding prev_entry_def carries_def
      by (cases "parsed_key (fst (kvs ! p))") simp_all
    moreover have "pending t d1 p (if t = kTypeDeletion then p else b)"
    proof (cases "t = kTypeDeletion")
      case False
      with pend obtain j where j: "b = Suc j" "Suc p \<le> j" "j < length kvs" "vis j" "entry_is_value kvs j" "saved j d"
        "\<forall>i. Suc p \<le> i \<longrightarrow> i < j \<longrightarrow> \<not> vis i" by (auto simp: pending_def)
      moreover have "\<not> vis i" if "p \<le> i" "i < j" for i
        using that \<open>\<not> vis p\<close> j(7) by (cases "i = p") auto
      ultimately show ?thesis using False same by (auto simp: pending_def saved_def)
    qed (simp add: pending_def)
    moreover have "\<not> shown k" if "(if t = kTypeDeletion then p else b) \<le> k" "k < b" for k
      using that False pend shownD(1) by (auto simp: pending_def le_less_Suc_eq split: if_splits)
    moreover have "(if t = kTypeDeletion then p else b) \<le> b" using pend by (simp add: pending_def)
    ultimately show ?thesis using go_on same d1 by blast
  next
    case visp: True
    then obtain x where x: "parsed_key (fst (kvs ! p)) = Some x" by (auto simp: entry_visible_def split: option.splits)
    note x_simps = parsed_entry [OF so p x]
    have seq: "pk_sequence x \<le> di_sequence d1" using visp x_simps(2) d1 by (simp add: carries_def)
    note pair = at_pair [OF it p] ExtractUserKey_entry [OF so p]
    show ?thesis
    proof (cases "t \<noteq> kTypeDeletion \<and> lt (user p) (di_saved_key d)")
      case True
      with pend obtain j where j: "b = Suc j" "Suc p \<le> j" "j < length kvs" "vis j" "entry_is_value kvs j" "saved j d"
        "\<forall>i. Suc p \<le> i \<longrightarrow> i < j \<longrightarrow> \<not> vis i" by (auto simp: pending_def)
      have uj: "user j \<in> valid" by (rule user_valid [OF so j(3)])
      have less: "lt (user p) (user j)" using True j(6) by (simp add: saved_def)
      obtain r where "Compare c (user p) (di_saved_key d1) = Some r" "r < 0"
        using less j(6) same by (auto simp: lt_def saved_def)
      then have "prev_entry ops c t d = Some (Inr d1)"
        using parse x x_simps seq True by (simp add: prev_entry_def)
      moreover have "user i \<noteq> user j" if "i < j" "vis i" for i
      proof -
        have i: "i \<le> p" using that j(7) by (meson not_less_eq_eq)
        then have "le (user i) (user p)" by (rule user_le [OF so _ p])
        moreover have "user i \<in> valid" using user_valid [OF so, of i] i p by simp
        ultimately have "lt (user i) (user j)" using le_lt_trans [OF _ less] up uj by blast
        then show ?thesis using uj by auto
      qed
      then have "shown j" and "user p \<noteq> user j" using shownI [OF j(4,5)] visp j(2) by auto
      moreover from this have "behind j p" using visp j(2,7) by (auto simp: behind_def Suc_le_eq)
      ultimately show ?thesis using stop [of d1 j] same d1 True j by (auto simp: saved_def)
    next
      case False
      have go: "\<exists>r \<ge> 0. Compare c (user p) (di_saved_key d) = Some r" if t: "t \<noteq> kTypeDeletion"
      proof -
        from pend t obtain j where "j < length kvs" "saved j d" by (auto simp: pending_def)
        then have "di_saved_key d \<in> valid" using user_valid [OF so] by (simp add: saved_def)
        then obtain r where "Compare c (user p) (di_saved_key d) = Some r" "r < 0 \<longleftrightarrow> lt (user p) (di_saved_key d)"
          using cmp_cases [OF up] by metis
        with t False show ?thesis by auto
      qed
      have between: "\<not> shown k" if k: "Suc p \<le> k" "k < b" for k
      proof (cases "t = kTypeDeletion")
        case True
        with pend k show ?thesis by (simp add: pending_def)
      next
        case t: False
        with pend obtain j where j: "b = Suc j" "Suc p \<le> j" "j < length kvs" "saved j d"
          "\<forall>i. Suc p \<le> i \<longrightarrow> i < j \<longrightarrow> \<not> vis i" by (auto simp: pending_def)
        show ?thesis
        proof (cases "k = j")
          case True
          have "user p = user j" using user_order [OF so, of p j] j(2-4) t False by (auto simp: saved_def)
          with True j(2) visp shownD(3) [of j p] show ?thesis by auto
        next
          case False
          with j k shownD(1) [of k] show ?thesis by auto
        qed
      qed
      show ?thesis
      proof (cases "entry_is_value kvs p")
        case True
        let ?d = "(SaveKey (user p) d1)\<lparr>di_saved_value := snd (kvs ! p)\<rparr>"
        have "prev_entry ops c t d = Some (Inl (kTypeValue, ?d))"
          using parse x x_simps seq True pair same go by (cases "t = kTypeDeletion") (auto simp: prev_entry_def)
        moreover have "pending kTypeValue ?d p (Suc p)"
          using visp p True by (auto simp: pending_def saved_def SaveKey_def kTypeValue_def kTypeDeletion_def)
        moreover have "Suc p \<le> b" using pend by (auto simp: pending_def split: if_splits)
        ultimately show ?thesis using go_on [of kTypeValue ?d "Suc p"] same d1 between by (auto simp: SaveKey_def)
      next
        case False
        let ?d = "ClearSavedValue (d1\<lparr>di_saved_key := []\<rparr>)"
        have "prev_entry ops c t d = Some (Inl (kTypeDeletion, ?d))"
          using parse x x_simps seq False same go by (cases "t = kTypeDeletion") (auto simp: prev_entry_def)
        moreover have "pending kTypeDeletion ?d p p" by (simp add: pending_def)
        moreover have "p \<le> b" using pend by (auto simp: pending_def split: if_splits)
        moreover have "\<not> shown k" if "p \<le> k" "k < b" for k
          using that between False shownD(2) by (cases "k = p") auto
        ultimately show ?thesis using go_on [of kTypeDeletion ?d p] same d1 by (auto simp: ClearSavedValue_def)
      qed
    qed
  qed
qed

text \<open>How the backward search ends: at no entry, or with the entry \<open>j\<close> saved.\<close>

definition settled :: "nat \<Rightarrow> ValueType \<Rightarrow> 'i db_iter \<Rightarrow> bool" where
  "settled j t d \<longleftrightarrow> carries s kvs d \<and> (\<exists>p. at p (di_iter d) \<and> (j < length kvs \<longrightarrow> behind j p)) \<and>
     (if j < length kvs then t \<noteq> kTypeDeletion \<and> saved j d else t = kTypeDeletion)"

lemma prev_loop_at:
  assumes so: sorted_keys and "at p (di_iter d)" and "p < length kvs" and "carries s kvs d"
    and "pending t d (Suc p) b"
  shows "\<exists>t' d' j. prev_loop ops c t d = Some (t', d') \<and> di_direction d' = di_direction d \<and>
    last_below b shown j \<and> settled j t' d'"
  using assms(2-)
proof (induction p arbitrary: d t b)
  case (0 d t b)
  show ?case
  proof (cases rule: prev_entry_at [OF so 0])
    case (1 d' t' b')
    obtain it' where it': "op_Prev ops (di_iter d) = Some it'" "at (length kvs) it'"
      using at_Prev [OF 0(1,2)] by auto
    have loop: "prev_loop ops c t d = Some (t', d'\<lparr>di_iter := it'\<rparr>)"
      using at_Valid [OF it'(2)] 1 it'(1) by (subst prev_loop.simps) simp
    define j where "j = (if t' = kTypeDeletion then length kvs else b' - 1)"
    have j: "last_below b' shown j \<and> settled j t' (d'\<lparr>di_iter := it'\<rparr>)"
    proof (cases "t' = kTypeDeletion")
      case True
      with 1(4,5) it'(2) show ?thesis by (auto simp: pending_def last_index_def settled_def j_def)
    next
      case False
      with 1(5) obtain i where i: "b' = Suc i" "i < length kvs" "vis i" "entry_is_value kvs i" "saved i d'"
        "\<forall>k < i. \<not> vis k" by (auto simp: pending_def)
      then have "shown i" using shownI by blast
      with i False 1(4) it'(2) show ?thesis
        by (auto simp: last_index_def settled_def j_def saved_def behind_def)
    qed
    with loop 1(3) last_index_mono [OF conjunct1 [OF j] 1(6,7)] show ?thesis by auto
  next
    case (2 d' j)
    have "prev_loop ops c t d = Some (t, d')" by (subst prev_loop.simps) (simp add: 2)
    moreover have "last_below b shown j" using 2 by (auto simp: last_index_def)
    moreover have "settled j t d'" using 2 0(1) by (auto simp: settled_def)
    ultimately show ?thesis using 2(3) by blast
  qed
next
  case (Suc p d t b)
  show ?case
  proof (cases rule: prev_entry_at [OF so Suc.prems])
    case (1 d' t' b')
    obtain it' where it': "op_Prev ops (di_iter d) = Some it'" "at p it'"
      using at_Prev [OF Suc.prems(1,2)] by auto
    have p: "p < length kvs" using Suc.prems(2) by simp
    have loop: "prev_loop ops c t d = prev_loop ops c t' (d'\<lparr>di_iter := it'\<rparr>)"
      using at_Valid [OF it'(2)] p 1 it'(1) by (subst prev_loop.simps) simp
    have "pending t' (d'\<lparr>di_iter := it'\<rparr>) (Suc p) b'" using 1(5) by (simp only: pending_iter)
    from Suc.IH [OF _ p _ this] it'(2) 1(4)
    obtain u e j where "prev_loop ops c t' (d'\<lparr>di_iter := it'\<rparr>) = Some (u, e)"
      "di_direction e = di_direction d'" and j: "last_below b' shown j" "settled j u e" by auto
    with loop 1(3) last_index_mono [OF j(1) 1(6,7)] show ?thesis by auto
  next
    case (2 d' j)
    have "prev_loop ops c t d = Some (t, d')" by (subst prev_loop.simps) (simp add: 2)
    moreover have "last_below b shown j" using 2 by (auto simp: last_index_def)
    moreover have "settled j t d'" using 2 Suc.prems(1) by (auto simp: settled_def)
    ultimately show ?thesis using 2(3) by blast
  qed
qed

end


section \<open>Positions\<close>

definition db_pos :: "SequenceNumber \<Rightarrow> (slice \<times> slice) list \<Rightarrow> (nat \<Rightarrow> 'i \<Rightarrow> bool) \<Rightarrow> nat \<Rightarrow> 'i db_iter \<Rightarrow> bool" where
  "db_pos s kvs at j d \<longleftrightarrow> carries s kvs d \<and>
     (if j < length kvs
      then entry_shown s kvs j \<and> di_valid d \<and>
        (if di_direction d = kForward then at j (di_iter d)
         else di_saved_key d = entry_user kvs j \<and> di_saved_value d = snd (kvs ! j) \<and>
           (\<exists>p. at p (di_iter d) \<and>
             (p = length kvs \<and> (\<forall>i < j. \<not> entry_visible s kvs i) \<or>
              p < j \<and> entry_visible s kvs p \<and> entry_user kvs p \<noteq> entry_user kvs j \<and>
              (\<forall>i. p < i \<longrightarrow> i < j \<longrightarrow> \<not> entry_visible s kvs i))))
      else \<not> di_valid d \<and> (\<exists>p. at p (di_iter d)))"

context snapshot
begin

lemma db_pos_iff: "db_pos s kvs at j d \<longleftrightarrow> carries s kvs d \<and>
    (if j < length kvs
     then shown j \<and> di_valid d \<and> (if di_direction d = kForward then at j (di_iter d)
       else saved j d \<and> (\<exists>p. at p (di_iter d) \<and> behind j p))
     else \<not> di_valid d \<and> (\<exists>p. at p (di_iter d)))"
  by (simp add: db_pos_def saved_def behind_def)

lemma FindPrev_at:
  assumes so: sorted_keys and it: "at p (di_iter d)" and "carries s kvs d" and dir: "di_direction d = kReverse"
    and b: "b = (if p < length kvs then Suc p else 0)"
  shows "\<exists>d' j. FindPrevUserEntry ops c d = Some d' \<and> last_below b shown j \<and> db_pos s kvs at j d'"
proof -
  have "\<exists>t d' j. (if op_Valid ops (di_iter d) then prev_loop ops c kTypeDeletion d else Some (kTypeDeletion, d)) = Some (t, d') \<and>
      di_direction d' = kReverse \<and> last_below b shown j \<and> settled j t d'"
  proof (cases "p < length kvs")
    case True
    with prev_loop_at [OF so it True assms(3), of kTypeDeletion b] at_Valid [OF it] dir b
    show ?thesis by (simp add: pending_def)
  next
    case False
    with at_Valid [OF it] dir b it assms(3) show ?thesis
      by (auto simp: last_index_def settled_def)
  qed
  then obtain t d' j where r: "(if op_Valid ops (di_iter d) then prev_loop ops c kTypeDeletion d
      else Some (kTypeDeletion, d)) = Some (t, d')" "di_direction d' = kReverse" "last_below b shown j" "settled j t d'"
    by blast
  show ?thesis
  proof (cases "j < length kvs")
    case True
    with r have "FindPrevUserEntry ops c d = Some (d'\<lparr>di_valid := True\<rparr>)"
      using dir by (simp add: FindPrevUserEntry_def settled_def del: if_split)
    moreover have "db_pos s kvs at j (d'\<lparr>di_valid := True\<rparr>)"
      using True r(2-4) by (auto simp: db_pos_iff settled_def saved_def last_index_def)
    ultimately show ?thesis using r(3) by blast
  next
    case False
    let ?d = "(ClearSavedValue (d'\<lparr>di_valid := False, di_saved_key := []\<rparr>))\<lparr>di_direction := kForward\<rparr>"
    from False r have "FindPrevUserEntry ops c d = Some ?d"
      using dir by (simp add: FindPrevUserEntry_def settled_def del: if_split)
    moreover have "db_pos s kvs at j ?d"
      using False r(4) by (auto simp: db_pos_iff settled_def ClearSavedValue_def)
    ultimately show ?thesis using r(3) by blast
  qed
qed

lemma FindNext_at:
  assumes so: sorted_keys and it: "at q (di_iter d)" and q: "q < length kvs" and "carries s kvs d"
    and "skips q skipping (di_saved_key d)" and dir: "di_direction d = kForward"
  shows "\<exists>d' j. FindNextUserEntry ops c skipping d = Some d' \<and>
    first_from q (candidate skipping (di_saved_key d)) j \<and> db_pos s kvs at j d'"
proof -
  obtain d' j where "next_loop ops c skipping d = Some d'" "carries s kvs d'" "di_direction d' = kForward"
    and j: "first_from q (candidate skipping (di_saved_key d)) j" and "at j (di_iter d')" "di_valid d' = (j < length kvs)"
    using next_loop_at [OF assms] by blast
  moreover have "shown j" if "j < length kvs" using j that by (simp add: first_index_def candidate_def)
  ultimately show ?thesis using at_Valid [OF it] q dir by (auto simp: FindNextUserEntry_def db_pos_iff)
qed

lemma skips_after:
  assumes so: sorted_keys and "q \<le> j" "j < length kvs" and none: "\<And>k. q \<le> k \<Longrightarrow> k < j \<Longrightarrow> \<not> vis k"
  shows "skips q True (user j)"
  unfolding skips_def
proof (intro conjI impI allI)
  fix i k assume i: "i < q" "q \<le> k" "k < length kvs" "vis i" "user i = user k"
  show True ..
  show "le (user k) (user j)"
  proof (cases "k \<le> j")
    case True
    then show ?thesis using user_le [OF so _ assms(3)] by simp
  next
    case False
    with i(1,2) assms(2) have jk: "i \<le> j" "j \<le> k" by linarith+
    have "user j = user k" by (rule user_between [OF so jk i(3,5)])
    with le_refl [OF user_valid [OF so assms(3)]] show ?thesis by metis
  qed
next
  show "user j \<in> valid" by (rule user_valid [OF so assms(3)])
  show "le (user j) (user k)" if k: "q \<le> k" "k < length kvs" "vis k" for k
  proof -
    have "j \<le> k" using none [OF k(1)] k(3) by (metis linorder_not_le)
    then show ?thesis by (rule user_le [OF so _ k(2)])
  qed
qed

lemma first_after:
  assumes so: sorted_keys and "q \<le> j" "j < length kvs" and none: "\<And>k. q \<le> k \<Longrightarrow> k < j \<Longrightarrow> \<not> vis k"
    and "shown j" and first: "first_from q (candidate True (user j)) i"
  shows "first_from (Suc j) shown i"
proof -
  have not_yet: "\<not> candidate True (user j) k" if "q \<le> k" "k \<le> j" for k
    using that none [of k] shownD(1) [of k] user_valid [OF so assms(3)] by (cases "k = j") (auto simp: candidate_def)
  have same: "candidate True (user j) k \<longleftrightarrow> shown k" if "j < k" "k < length kvs" for k
    using shown_later [OF so shownD(1) [OF assms(5)] _ that] by (auto simp: candidate_def)
  note i = first [unfolded first_index_def]
  have ji: "j < i"
  proof (rule ccontr)
    assume "\<not> j < i"
    with i not_yet [of i] assms(3) show False by auto
  qed
  have "\<not> shown k" if "Suc j \<le> k" "k < i" for k
    using that same [of k] i assms(2) by auto
  moreover have "shown i" if "i < length kvs" using that same [OF ji] i by simp
  ultimately show ?thesis using ji i by (simp add: first_index_def)
qed

lemma di_Next_at:
  assumes so: sorted_keys and pos: "db_pos s kvs at j d" and j: "j < length kvs"
  shows "\<exists>d' i. di_Next ops c d = Some d' \<and> first_from (Suc j) shown i \<and> db_pos s kvs at i d'"
proof -
  have d: "carries s kvs d" "shown j" "di_valid d" using pos j by (simp_all add: db_pos_iff)
  show ?thesis
  proof (cases "di_direction d")
    case kForward
    then have it: "at j (di_iter d)" using pos j by (simp add: db_pos_iff)
    let ?d = "SaveKey (user j) d"
    have "di_Next ops c d = FindNextUserEntry ops c True ?d"
      using kForward d(3) at_pair [OF it j] ExtractUserKey_entry [OF so j] by (simp add: di_Next_def)
    moreover have "skips j True (di_saved_key ?d)"
      using skips_after [OF so order_refl j] by (simp add: SaveKey_def)
    then obtain d' i where "FindNextUserEntry ops c True ?d = Some d'"
      "first_from j (candidate True (user j)) i" "db_pos s kvs at i d'"
      using FindNext_at [OF so _ j, of ?d True] it d kForward by (auto simp: SaveKey_def)
    ultimately show ?thesis using first_after [OF so order_refl j _ d(2)] by auto
  next
    case kReverse
    then obtain p where p: "at p (di_iter d)" "behind j p" and saved: "saved j d"
      using pos j by (auto simp: db_pos_iff)
    define q where "q = (if p < length kvs then Suc p else 0)"
    have q: "q \<le> j" and none: "\<And>k. q \<le> k \<Longrightarrow> k < j \<Longrightarrow> \<not> vis k"
      using p(2) at_le [OF p(1)] j by (auto simp: behind_def q_def Suc_le_eq)
    obtain it where it: "(if \<not> op_Valid ops (di_iter d) then op_SeekToFirst ops (di_iter d)
        else op_Next ops (di_iter d)) = Some it" "at q it"
      using at_SeekToFirst [OF p(1)] at_Next [OF p(1)] at_Valid [OF p(1)] by (auto simp: q_def)
    let ?d = "d\<lparr>di_direction := kForward, di_iter := it\<rparr>"
    have "di_Next ops c d = FindNextUserEntry ops c True ?d"
      using kReverse d(3) it at_Valid [OF it(2)] q j by (cases "op_Valid ops (di_iter d)") (simp_all add: di_Next_def Let_def)
    moreover have "skips q True (di_saved_key ?d)"
      using skips_after [OF so q j none] saved by (simp add: saved_def)
    then obtain d' i where "FindNextUserEntry ops c True ?d = Some d'"
      "first_from q (candidate True (user j)) i" "db_pos s kvs at i d'"
      using FindNext_at [OF so, of q ?d True] it(2) q j d saved by (auto simp: saved_def)
    ultimately show ?thesis using first_after [OF so q j none d(2)] by auto
  qed
qed

lemma prev_key_loop_at:
  assumes so: sorted_keys and j: "j < length kvs" and "at p (di_iter d)" "p \<le> j" "user p = user j" "di_saved_key d = user j"
  shows "(\<exists>it i. prev_key_loop ops c d = Some (True, d\<lparr>di_iter := it\<rparr>) \<and> at i it \<and> i < p \<and>
      (\<forall>k. i < k \<longrightarrow> k \<le> p \<longrightarrow> user k = user j)) \<or>
    (\<exists>it. prev_key_loop ops c d = Some (False, ClearSavedValue (d\<lparr>di_iter := it, di_valid := False, di_saved_key := []\<rparr>)) \<and>
      at (length kvs) it \<and> (\<forall>k \<le> p. user k = user j))"
  using assms(3-)
proof (induction p arbitrary: d)
  case 0
  obtain it where it: "op_Prev ops (di_iter d) = Some it" "at (length kvs) it"
    using at_Prev [OF 0(1)] j by (cases "kvs = []") auto
  have "prev_key_loop ops c d = Some (False, ClearSavedValue (d\<lparr>di_iter := it, di_valid := False, di_saved_key := []\<rparr>))"
    using it at_Valid [OF it(2)] by (subst prev_key_loop.simps) simp
  with it(2) 0(3) show ?case by auto
next
  case (Suc p)
  obtain it where it: "op_Prev ops (di_iter d) = Some it" "at p it"
    using at_Prev [OF Suc.prems(1)] j Suc.prems(2) by auto
  have p: "p < length kvs" "p < j" using Suc.prems(2) j by simp_all
  obtain r where r: "Compare c (user p) (user j) = Some r" "r < 0 \<longleftrightarrow> lt (user p) (user j)"
    using cmp_cases [OF user_valid [OF so p(1)] user_valid [OF so j]] by metis
  show ?case
  proof (cases "r < 0")
    case True
    then have "prev_key_loop ops c d = Some (True, d\<lparr>di_iter := it\<rparr>)"
      using it at_Valid [OF it(2)] p at_pair [OF it(2) p(1)] ExtractUserKey_entry [OF so p(1)] r(1) Suc.prems(4)
      by (subst prev_key_loop.simps) simp
    moreover have "user k = user j" if "p < k" "k \<le> Suc p" for k
      using that Suc.prems(3) by (metis le_antisym Suc_leI)
    ultimately show ?thesis using it(2) by blast
  next
    case False
    then have same: "user p = user j" using r(2) user_order [OF so p(2) j] by blast
    have loop: "prev_key_loop ops c d = prev_key_loop ops c (d\<lparr>di_iter := it\<rparr>)"
      using it at_Valid [OF it(2)] p at_pair [OF it(2) p(1)] ExtractUserKey_entry [OF so p(1)] r(1) Suc.prems(4) False
      by (subst prev_key_loop.simps) simp
    have "user (Suc p) = user j" by (rule Suc.prems(3))
    with loop Suc.IH [of "d\<lparr>di_iter := it\<rparr>"] it(2) p(2) same Suc.prems(4) show ?thesis
      by (simp add: le_Suc_eq) (metis less_SucI)
  qed
qed

lemma di_Prev_at:
  assumes so: sorted_keys and pos: "db_pos s kvs at j d" and j: "j < length kvs"
  shows "\<exists>d' i. di_Prev ops c d = Some d' \<and> last_below j shown i \<and> db_pos s kvs at i d'"
proof -
  have d: "carries s kvs d" "shown j" "di_valid d" using pos j by (simp_all add: db_pos_iff)
  show ?thesis
  proof (cases "di_direction d")
    case kForward
    then have it: "at j (di_iter d)" using pos j by (simp add: db_pos_iff)
    define e where "e = SaveKey (user j) d"
    have e: "at j (di_iter e)" "di_saved_key e = user j" "carries s kvs e"
      using it d(1) by (simp_all add: e_def SaveKey_def)
    have start: "di_Prev ops c d = do { (found, d) \<leftarrow> prev_key_loop ops c e;
        if found then FindPrevUserEntry ops c (d\<lparr>di_direction := kReverse\<rparr>) else Some d }"
      using kForward d(3) at_pair [OF it j] at_Valid [OF it] j ExtractUserKey_entry [OF so j] by (simp add: di_Prev_def e_def)
    have hidden: "\<not> shown k" if "k < j" "user k = user j" for k
      using that shownD(1) [of k] shownD(3) [OF d(2), of k] by blast
    note loop = prev_key_loop_at [OF so j e(1) order_refl refl e(2)]
    from loop consider
      (found) it' i where "prev_key_loop ops c e = Some (True, e\<lparr>di_iter := it'\<rparr>)" "at i it'" "i < j"
        "\<forall>k. i < k \<longrightarrow> k \<le> j \<longrightarrow> user k = user j"
      | (none) it' where "prev_key_loop ops c e =
          Some (False, ClearSavedValue (e\<lparr>di_iter := it', di_valid := False, di_saved_key := []\<rparr>))"
        "at (length kvs) it'" "\<forall>k \<le> j. user k = user j"
      by (elim disjE exE conjE) blast+
    then show ?thesis
    proof cases
      case found
      let ?e = "e\<lparr>di_iter := it', di_direction := kReverse\<rparr>"
      obtain d' h where h: "FindPrevUserEntry ops c ?e = Some d'" "last_below (Suc i) shown h" "db_pos s kvs at h d'"
        using FindPrev_at [OF so, of i ?e "Suc i"] found(2,3) j e(3) by auto
      have "Suc i \<le> j" using found(3) by simp
      moreover have "\<not> shown k" if "Suc i \<le> k" "k < j" for k
        using hidden [OF that(2)] found(4) that by (meson Suc_le_lessD less_imp_le_nat)
      ultimately have "last_below j shown h" by (rule last_index_mono [OF h(2)])
      moreover have "di_Prev ops c d = Some d'" unfolding start found(1) using h(1) by simp
      ultimately show ?thesis using h(3) by blast
    next
      case none
      have "\<not> shown k" if "k < j" for k
        using hidden [OF that none(3) [rule_format]] that by simp
      then have "last_below j shown (length kvs)" by (simp add: last_index_def)
      moreover have "db_pos s kvs at (length kvs)
          (ClearSavedValue (e\<lparr>di_iter := it', di_valid := False, di_saved_key := []\<rparr>))"
        using none(2) e(3) by (auto simp: db_pos_iff ClearSavedValue_def)
      moreover have "di_Prev ops c d = Some (ClearSavedValue (e\<lparr>di_iter := it', di_valid := False, di_saved_key := []\<rparr>))"
        unfolding start none(1) by simp
      ultimately show ?thesis by blast
    qed
  next
    case kReverse
    then obtain p where p: "at p (di_iter d)" "behind j p" using pos j by (auto simp: db_pos_iff)
    define b where "b = (if p < length kvs then Suc p else 0)"
    from FindPrev_at [OF so p(1) d(1) kReverse b_def]
    obtain d' i where i: "FindPrevUserEntry ops c d = Some d'" "last_below b shown i" "db_pos s kvs at i d'" by blast
    have "last_below j shown i"
      by (rule last_index_mono [OF i(2)])
        (use p(2) at_le [OF p(1)] j shownD(1) in \<open>auto simp: behind_def b_def Suc_le_eq split: if_splits\<close>)
    with i(1,3) kReverse d(3) show ?thesis by (auto simp: di_Prev_def)
  qed
qed

lemma visible_number:
  assumes "s \<le> kMaxSequenceNumber" and "parsed_key (u @ EncodeFixed64 n) = Some p" and "pk_sequence p \<le> s"
  shows "n \<le> PackSequenceAndType s kValueTypeForSeek"
proof -
  note p = parsed_key_form [OF assms(2)]
  have "unat (drop_bit 8 n) \<le> unat s" using assms(3) by (simp add: p(1) word_le_nat_alt)
  moreover have "unat (drop_bit 8 n) = unat n div 256" by (simp only: unat_drop_bit_eq) (simp add: drop_bit_eq_div)
  ultimately have hi: "unat n div 256 \<le> unat s" by simp
  have "n AND 0xff = take_bit 8 n" by (simp add: take_bit_eq_mask mask_eq_exp_minus_1)
  then have low: "(ucast (n AND 0xff) :: byte) = ucast n" by (auto intro!: bit_word_eqI simp: bit_simps)
  have "unat (ucast n :: byte) \<le> 1"
    using p(2) by (auto simp: p(1) low kTypeDeletion_def kTypeValue_def)
  then have lo: "unat n mod 256 \<le> 1" by (simp add: unsigned_ucast_eq unsigned_take_bit_eq take_bit_eq_mod)
  have s: "unat s < 2 ^ 56"
    using assms(1) by (simp add: kMaxSequenceNumber_def word_le_nat_alt)
  have disj: "push_bit 8 s OR ucast (1 :: byte) = push_bit 8 s + (1 :: u64)"
    by (subst disjunctive_add) (auto simp: bit_simps)
  have "unat (push_bit 8 s) = unat s * 256"
    using s by (simp add: push_bit_eq_mult unat_word_ariths)
  then have "unat (PackSequenceAndType s kValueTypeForSeek) = unat s * 256 + 1"
    using s disj by (simp add: PackSequenceAndType_def kValueTypeForSeek_def kTypeValue_def unat_word_ariths)
  moreover have "unat n = unat n div 256 * 256 + unat n mod 256" by simp
  ultimately show ?thesis unfolding word_le_nat_alt using hi lo by linarith
qed

lemma di_Seek_at:
  assumes so: sorted_keys and smax: "s \<le> kMaxSequenceNumber" and "carries s kvs d" and it: "at p (di_iter d)"
    and t: "t \<in> valid"
  shows "\<exists>d' i. di_Seek ops c d t = Some d' \<and> first_from 0 (\<lambda>k. shown k \<and> \<not> lt (user k) t) i \<and> db_pos s kvs at i d'"
proof -
  let ?n = "PackSequenceAndType s kValueTypeForSeek"
  have key: "AppendInternalKey [] \<lparr>pk_user_key = t, pk_sequence = di_sequence d, pk_type = kValueTypeForSeek\<rparr> = t @ EncodeFixed64 ?n"
    using assms(3) by (simp add: AppendInternalKey_eq carries_def)
  obtain it' q where q: "op_Seek ops (di_iter d) (t @ EncodeFixed64 ?n) = Some it'" "at q it'"
    "\<forall>h < q. before (InternalKeyComparator c) (fst (kvs ! h)) (t @ EncodeFixed64 ?n)"
    "q < length kvs \<longrightarrow> \<not> before (InternalKeyComparator c) (fst (kvs ! q)) (t @ EncodeFixed64 ?n)"
    using at_Seek [OF it, of "t @ EncodeFixed64 ?n"] t by auto
  have less: "lt (user h) t" if h: "h < q" "vis h" for h
  proof -
    have "h < length kvs" using h(1) at_le [OF q(2)] by simp
    then obtain n where n: "fst (kvs ! h) = user h @ EncodeFixed64 n" "user h \<in> valid" using key_form [OF so] by metis
    have "n \<le> ?n" using h(2) visible_number [OF smax, of "user h" n]
      by (auto simp: entry_visible_def n(1) split: option.splits)
    moreover have "lt (user h) t \<or> user h = t \<and> ?n < n"
      using q(3) [rule_format, OF h(1)] unfolding n(1) before_internal [OF n(2) t] .
    ultimately show ?thesis by auto
  qed
  have more: "\<not> lt (user k) t" if "q \<le> k" "k < length kvs" for k
  proof -
    have ql: "q < length kvs" using that by simp
    obtain n where n: "fst (kvs ! q) = user q @ EncodeFixed64 n" "user q \<in> valid" by (rule key_form [OF so ql])
    then have "\<not> lt (user q) t" using q(4) ql by (auto simp: before_internal [OF n(2) t])
    with user_le [OF so that] le_lt_trans [of "user q" "user k" t] n(2) user_valid [OF so that(2)] t show ?thesis by blast
  qed
  let ?d = "d\<lparr>di_direction := kForward, di_saved_value := [], di_saved_key := t @ EncodeFixed64 ?n, di_iter := it'\<rparr>"
  have start: "di_Seek ops c d t = (if op_Valid ops it' then FindNextUserEntry ops c False ?d else Some (?d\<lparr>di_valid := False\<rparr>))"
    using q(1) key by (simp add: di_Seek_def ClearSavedValue_def)
  have conv: "first_from 0 (\<lambda>k. shown k \<and> \<not> lt (user k) t) i" if i: "first_from q shown i" for i
  proof -
    have "\<not> (shown k \<and> \<not> lt (user k) t)" if "k < i" for k
      using that i less [of k] shownD(1) [of k] by (cases "k < q") (auto simp: first_index_def)
    with i more show ?thesis by (auto simp: first_index_def)
  qed
  show ?thesis
  proof (cases "q < length kvs")
    case True
    have "skips q False (di_saved_key ?d)"
      using less more unfolding skips_def by metis
    then obtain d' i where "FindNextUserEntry ops c False ?d = Some d'" "first_from q (candidate False (di_saved_key ?d)) i"
      "db_pos s kvs at i d'"
      using FindNext_at [OF so _ True, of ?d False] q(2) assms(3) by auto
    moreover have "candidate False (di_saved_key ?d) = shown" by (auto simp: candidate_def)
    ultimately show ?thesis using start at_Valid [OF q(2)] True conv by auto
  next
    case False
    then have "q = length kvs" using at_le [OF q(2)] by simp
    then have "first_from q shown q" by (simp add: first_index_def)
    moreover have "db_pos s kvs at q (?d\<lparr>di_valid := False\<rparr>)" using False q(2) assms(3) by (auto simp: db_pos_iff)
    ultimately show ?thesis using start at_Valid [OF q(2)] False conv by auto
  qed
qed

lemma di_SeekToFirst_at:
  assumes so: sorted_keys and "carries s kvs d" and it: "at p (di_iter d)"
  shows "\<exists>d' i. di_SeekToFirst ops c d = Some d' \<and> first_from 0 shown i \<and> db_pos s kvs at i d'"
proof -
  obtain it' where q: "op_SeekToFirst ops (di_iter d) = Some it'" "at 0 it'" using at_SeekToFirst [OF it] by blast
  let ?d = "d\<lparr>di_direction := kForward, di_saved_value := [], di_iter := it'\<rparr>"
  have start: "di_SeekToFirst ops c d = (if op_Valid ops it' then FindNextUserEntry ops c False ?d else Some (?d\<lparr>di_valid := False\<rparr>))"
    using q(1) by (simp add: di_SeekToFirst_def ClearSavedValue_def)
  show ?thesis
  proof (cases "0 < length kvs")
    case True
    have "skips 0 False (di_saved_key ?d)" by (simp add: skips_def)
    then obtain d' i where "FindNextUserEntry ops c False ?d = Some d'" "first_from 0 (candidate False (di_saved_key ?d)) i"
      "db_pos s kvs at i d'"
      using FindNext_at [OF so _ True, of ?d False] q(2) assms(2) by auto
    moreover have "candidate False (di_saved_key ?d) = shown" by (auto simp: candidate_def)
    ultimately show ?thesis using start at_Valid [OF q(2)] True by auto
  next
    case False
    then have "first_from 0 shown 0" unfolding first_index_def by simp
    moreover have "db_pos s kvs at 0 (?d\<lparr>di_valid := False\<rparr>)"
      unfolding db_pos_iff using False q(2) assms(2) by auto
    ultimately show ?thesis using start at_Valid [OF q(2)] False by auto
  qed
qed

lemma di_SeekToLast_at:
  assumes so: sorted_keys and "carries s kvs d" and it: "at p (di_iter d)"
  shows "\<exists>d' i. di_SeekToLast ops c d = Some d' \<and> last_below (length kvs) shown i \<and> db_pos s kvs at i d'"
proof -
  obtain it' where q: "op_SeekToLast ops (di_iter d) = Some it'" "at (length kvs - 1) it'" using at_SeekToLast [OF it] by blast
  let ?d = "d\<lparr>di_direction := kReverse, di_saved_value := [], di_iter := it'\<rparr>"
  have "di_SeekToLast ops c d = FindPrevUserEntry ops c ?d"
    using q(1) by (simp add: di_SeekToLast_def ClearSavedValue_def)
  with FindPrev_at [OF so, of "length kvs - 1" ?d "length kvs"] q(2) assms(2) show ?thesis
    by (cases "kvs = []") simp_all
qed

end


section \<open>The cursor over the view\<close>

text \<open>The entry that is shown at the position \<open>v\<close> of the view.\<close>

definition view_index :: "SequenceNumber \<Rightarrow> (slice \<times> slice) list \<Rightarrow> nat \<Rightarrow> nat" where
  "view_index s kvs v = sel (entry_shown s kvs) (length kvs) v"

definition db_at :: "SequenceNumber \<Rightarrow> (slice \<times> slice) list \<Rightarrow> (nat \<Rightarrow> 'i \<Rightarrow> bool) \<Rightarrow> nat \<Rightarrow> 'i db_iter \<Rightarrow> bool" where
  "db_at s kvs at v d \<longleftrightarrow> s \<le> kMaxSequenceNumber \<and> all_parsed kvs \<and> v \<le> length (shown_indexes s kvs) \<and>
     db_pos s kvs at (view_index s kvs v) d"

lemma length_snapshot_view [simp]: "length (snapshot_view s kvs) = length (shown_indexes s kvs)"
  by (simp add: snapshot_view_def)

lemma snapshot_view_nth: "v < length (shown_indexes s kvs) \<Longrightarrow>
    snapshot_view s kvs ! v = (entry_user kvs (view_index s kvs v), snd (kvs ! view_index s kvs v))"
  by (simp add: snapshot_view_def view_index_def shown_indexes_def sel_def)

lemma shown_indexes_nth:
  assumes "v < length (shown_indexes s kvs)"
  shows "view_index s kvs v < length kvs" "entry_shown s kvs (view_index s kvs v)"
  using sel_less [of v "entry_shown s kvs" "length kvs"] assms
  by (simp_all add: view_index_def shown_indexes_def)

context snapshot
begin

abbreviation idx :: "nat \<Rightarrow> nat" where "idx \<equiv> view_index s kvs"
abbreviation count :: nat where "count \<equiv> length (shown_indexes s kvs)"

lemmas view_defs = view_index_def shown_indexes_def

lemma idx_count: "idx v < length kvs \<longleftrightarrow> v < count"
  by (simp add: view_defs)

lemma view_sorted:
  assumes so: sorted_keys
  shows "sorted_pairs c valid (snapshot_view s kvs)"
  unfolding sorted_pairs_def sorted_wrt_iff_nth_less
proof (intro conjI allI impI)
  show "fst ` set (snapshot_view s kvs) \<subseteq> valid"
    using user_valid [OF so] by (auto simp: snapshot_view_def shown_indexes_def selected_def)
  fix v w assume vw: "v < w" "w < length (map fst (snapshot_view s kvs))"
  then have len: "v < count" "w < count" by simp_all
  have "lt (user (idx v)) (user (idx w))"
    by (rule shown_later [OF so shownD(1) [OF shown_indexes_nth(2)] shown_indexes_nth(2)])
       (use vw len sel_mono [of v w] shown_indexes_nth(1) [OF len(2)] in \<open>auto simp: view_defs\<close>)
  then show "before c (map fst (snapshot_view s kvs) ! v) (map fst (snapshot_view s kvs) ! w)"
    using len by (simp add: snapshot_view_nth lt_def)
qed

end

sublocale snapshot \<subseteq> view: cursor "db_iterator_ops ops c" c valid "snapshot_view s kvs" "db_at s kvs at"
proof
  fix v d
  assume a: "db_at s kvs at v d"
  then have smax: "s \<le> kMaxSequenceNumber" and parsed: "all_parsed kvs" and v: "v \<le> count"
    and pos: "db_pos s kvs at (idx v) d" and d: "carries s kvs d"
    by (simp_all add: db_at_def db_pos_iff)
  obtain p where p: "at p (di_iter d)" using pos by (auto simp: db_pos_iff split: if_splits)
  note so = at_sorted [OF p]
  have here: "db_at s kvs at w e" if "db_pos s kvs at j e" "j = idx w" "w \<le> count" for w j e
    using that smax parsed by (simp add: db_at_def)
  show "sorted_pairs c valid (snapshot_view s kvs)" by (rule view_sorted [OF so])
  show "v \<le> length (snapshot_view s kvs)" using v by simp
  show "op_Valid (db_iterator_ops ops c) d \<longleftrightarrow> v < length (snapshot_view s kvs)"
    using pos idx_count [of v] by (auto simp: db_iterator_ops_def db_pos_iff split: if_splits)
  show "status_ok (op_status (db_iterator_ops ops c) d)"
    using d parsed at_status [OF p] by (auto simp: db_iterator_ops_def di_get_status_def carries_def)
  show "\<exists>d'. op_SeekToFirst (db_iterator_ops ops c) d = Some d' \<and> db_at s kvs at 0 d'"
    using di_SeekToFirst_at [OF so d p] first_index_start here [of _ _ 0] by (simp add: db_iterator_ops_def view_defs) blast
  obtain e j where e: "di_SeekToLast ops c d = Some e" "last_below (length kvs) shown j" "db_pos s kvs at j e"
    using di_SeekToLast_at [OF so d p] by blast
  have "j = idx (count - 1)" using last_index_sel_end [OF e(2)] by (simp add: view_defs)
  with e here show "\<exists>d'. op_SeekToLast (db_iterator_ops ops c) d = Some d' \<and>
      db_at s kvs at (length (snapshot_view s kvs) - 1) d'"
    by (auto simp: db_iterator_ops_def split: if_splits)
  show "\<exists>d' i. op_Seek (db_iterator_ops ops c) d t = Some d' \<and> db_at s kvs at i d' \<and>
      (\<forall>h < i. before c (fst (snapshot_view s kvs ! h)) t) \<and>
      (i < length (snapshot_view s kvs) \<longrightarrow> \<not> before c (fst (snapshot_view s kvs ! i)) t)" if t: "t \<in> valid" for t
  proof -
    obtain d' j where j: "di_Seek ops c d t = Some d'" "first_from 0 (\<lambda>k. shown k \<and> \<not> lt (user k) t) j"
      "db_pos s kvs at j d'" using di_Seek_at [OF so smax d p t] by blast
    obtain w where w: "w \<le> count" "j = idx w" "\<And>u. u < w \<Longrightarrow> lt (user (idx u)) t" "w < count \<Longrightarrow> \<not> lt (user (idx w)) t"
      by (rule first_index_sel [OF j(2), of 0]) (auto simp: view_defs)
    from here [OF j(3) w(2,1)] j(1) w show ?thesis
      by (intro exI [of _ d'] exI [of _ w]) (auto simp: db_iterator_ops_def snapshot_view_nth lt_def [symmetric])
  qed
  assume "v < length (snapshot_view s kvs)"
  then have vc: "v < count" and j: "idx v < length kvs" by (simp_all add: idx_count)
  show "op_key (db_iterator_ops ops c) d = Some (fst (snapshot_view s kvs ! v)) \<and>
      op_value (db_iterator_ops ops c) d = Some (snd (snapshot_view s kvs ! v))"
  proof (cases "di_direction d")
    case kForward
    then have "at (idx v) (di_iter d)" "di_valid d" using pos j by (simp_all add: db_pos_iff)
    with kForward at_pair [OF this(1) j] ExtractUserKey_entry [OF so j] vc show ?thesis
      by (simp add: db_iterator_ops_def di_key_def di_value_def snapshot_view_nth)
  next
    case kReverse
    with pos j vc show ?thesis
      by (auto simp: db_iterator_ops_def di_key_def di_value_def snapshot_view_nth db_pos_iff saved_def)
  qed
  show "\<exists>d'. op_Next (db_iterator_ops ops c) d = Some d' \<and> db_at s kvs at (Suc v) d'"
  proof -
    obtain d' i where i: "di_Next ops c d = Some d'" "first_from (Suc (idx v)) shown i" "db_pos s kvs at i d'"
      using di_Next_at [OF so pos j] by blast
    have "i = idx (Suc v)" using first_index_next [of v] vc i(2) by (simp add: view_defs)
    from here [OF i(3) this] vc i(1) show ?thesis by (simp add: db_iterator_ops_def)
  qed
  show "\<exists>d'. op_Prev (db_iterator_ops ops c) d = Some d' \<and>
      db_at s kvs at (if v = 0 then length (snapshot_view s kvs) else v - 1) d'"
  proof -
    obtain d' i where i: "di_Prev ops c d = Some d'" "last_below (idx v) shown i" "db_pos s kvs at i d'"
      using di_Prev_at [OF so pos j] by blast
    have "i = idx (if v = 0 then count else v - 1)"
      using last_index_sel [of v shown "length kvs" i] v i(2) unfolding view_defs by blast
    with here [OF i(3) this] vc i(1) show ?thesis by (cases "v = 0") (simp_all add: db_iterator_ops_def)
  qed
qed

lemma NewDBIterator_at:
  assumes "s \<le> kMaxSequenceNumber" and "all_parsed kvs" and "at p it"
  shows "db_at s kvs at (length (snapshot_view s kvs)) (NewDBIterator it s seed)"
  using assms NewDBIterator_good [of it s seed]
  by (auto simp: db_at_def db_pos_def carries_def view_index_def shown_indexes_def NewDBIterator_def Let_def split: prod.splits)

text \<open>The iterator of a database whose entries are in one block, with the default comparator.\<close>

interpretation db_block: snapshot BytewiseComparator UNIV block_iterator_ops kvs
    "block_at r (InternalKeyComparator BytewiseComparator) (ikeys UNIV) kvs" s for r kvs s
  by (rule snapshot.intro) unfold_locales

end
