(* ===== verification/Ldb_Merger.thy ===== *)
theory Ldb_Merger
  imports Ldb_Iterator
begin

text \<open>
  The merging iterator, table/merger.cc: an iterator over the union of its children, each of
  them an \<open>IteratorWrapper\<close>.  \<open>current_\<close> points into the array of children and is modelled by the
  index; the loops over the array run through the list from its first (or last) element.  None
  is a failed assertion, in the wrapper or here.
\<close>

record 'i merging_iterator =
  mi_comparator :: comparator
  mi_children :: "'i wrapper list"
  mi_current :: "nat option"
  mi_direction :: Direction

text \<open>\<open>f i child\<close> for every child in the order of the array.\<close>

fun map_children ::
    "(nat \<Rightarrow> 'i wrapper \<Rightarrow> 'i wrapper option) \<Rightarrow> nat \<Rightarrow> 'i wrapper list \<Rightarrow> 'i wrapper list option" where
  "map_children f i [] = Some []"
| "map_children f i (w # ws) = do { w \<leftarrow> f i w; ws \<leftarrow> map_children f (Suc i) ws; Some (w # ws) }"

definition MergingIterator :: "'i iterator_ops \<Rightarrow> comparator \<Rightarrow> 'i list \<Rightarrow> 'i merging_iterator option" where
  "MergingIterator ops comparator children =
     do { ws \<leftarrow> map_children (\<lambda>i w. iw_Set ops w (Some (children ! i))) 0
            (replicate (length children) IteratorWrapper);
          Some \<lparr>mi_comparator = comparator, mi_children = ws, mi_current = None, mi_direction = kForward\<rparr> }"

definition mi_Valid :: "'i merging_iterator \<Rightarrow> bool" where
  "mi_Valid m \<longleftrightarrow> mi_current m \<noteq> None"

definition mi_key :: "'i merging_iterator \<Rightarrow> slice option" where
  "mi_key m = do { cur \<leftarrow> mi_current m; iw_get_key (mi_children m ! cur) }"

definition mi_value :: "'i iterator_ops \<Rightarrow> 'i merging_iterator \<Rightarrow> slice option" where
  "mi_value ops m = do { cur \<leftarrow> mi_current m; iw_value ops (mi_children m ! cur) }"

text \<open>The status of the first child that has an error.\<close>

fun mi_status_loop :: "'i iterator_ops \<Rightarrow> Status \<Rightarrow> 'i wrapper list \<Rightarrow> Status option" where
  "mi_status_loop ops status [] = Some status"
| "mi_status_loop ops status (w # ws) =
     do { status \<leftarrow> iw_status ops w;
          if \<not> status_ok status then Some status else mi_status_loop ops status ws }"

definition mi_status :: "'i iterator_ops \<Rightarrow> 'i merging_iterator \<Rightarrow> Status option" where
  "mi_status ops m = mi_status_loop ops OK (mi_children m)"


section \<open>Finding the current child\<close>

fun smallest_loop :: "comparator \<Rightarrow> 'i wrapper list \<Rightarrow> nat list \<Rightarrow> nat option \<Rightarrow> nat option option" where
  "smallest_loop c ws [] smallest = Some smallest"
| "smallest_loop c ws (i # is) smallest =
     (if iw_valid (ws ! i)
      then case smallest of
          None \<Rightarrow> smallest_loop c ws is (Some i)
        | Some j \<Rightarrow>
            do { k \<leftarrow> iw_get_key (ws ! i); l \<leftarrow> iw_get_key (ws ! j); r \<leftarrow> Compare c k l;
                 smallest_loop c ws is (Some (if r < 0 then i else j)) }
      else smallest_loop c ws is smallest)"

definition FindSmallest :: "'i merging_iterator \<Rightarrow> 'i merging_iterator option" where
  "FindSmallest m =
     do { smallest \<leftarrow> smallest_loop (mi_comparator m) (mi_children m) [0..<length (mi_children m)] None;
          Some (m\<lparr>mi_current := smallest\<rparr>) }"

fun largest_loop :: "comparator \<Rightarrow> 'i wrapper list \<Rightarrow> nat list \<Rightarrow> nat option \<Rightarrow> nat option option" where
  "largest_loop c ws [] largest = Some largest"
| "largest_loop c ws (i # is) largest =
     (if iw_valid (ws ! i)
      then case largest of
          None \<Rightarrow> largest_loop c ws is (Some i)
        | Some j \<Rightarrow>
            do { k \<leftarrow> iw_get_key (ws ! i); l \<leftarrow> iw_get_key (ws ! j); r \<leftarrow> Compare c k l;
                 largest_loop c ws is (Some (if r > 0 then i else j)) }
      else largest_loop c ws is largest)"

definition FindLargest :: "'i merging_iterator \<Rightarrow> 'i merging_iterator option" where
  "FindLargest m =
     do { largest \<leftarrow> largest_loop (mi_comparator m) (mi_children m) (rev [0..<length (mi_children m)]) None;
          Some (m\<lparr>mi_current := largest\<rparr>) }"


section \<open>Moving\<close>

definition mi_SeekToFirst :: "'i iterator_ops \<Rightarrow> 'i merging_iterator \<Rightarrow> 'i merging_iterator option" where
  "mi_SeekToFirst ops m =
     do { ws \<leftarrow> map_children (\<lambda>i w. iw_SeekToFirst ops w) 0 (mi_children m);
          m \<leftarrow> FindSmallest (m\<lparr>mi_children := ws\<rparr>);
          Some (m\<lparr>mi_direction := kForward\<rparr>) }"

definition mi_SeekToLast :: "'i iterator_ops \<Rightarrow> 'i merging_iterator \<Rightarrow> 'i merging_iterator option" where
  "mi_SeekToLast ops m =
     do { ws \<leftarrow> map_children (\<lambda>i w. iw_SeekToLast ops w) 0 (mi_children m);
          m \<leftarrow> FindLargest (m\<lparr>mi_children := ws\<rparr>);
          Some (m\<lparr>mi_direction := kReverse\<rparr>) }"

definition mi_Seek :: "'i iterator_ops \<Rightarrow> 'i merging_iterator \<Rightarrow> slice \<Rightarrow> 'i merging_iterator option" where
  "mi_Seek ops m target =
     do { ws \<leftarrow> map_children (\<lambda>i w. iw_Seek ops w target) 0 (mi_children m);
          m \<leftarrow> FindSmallest (m\<lparr>mi_children := ws\<rparr>);
          Some (m\<lparr>mi_direction := kForward\<rparr>) }"

text \<open>
  What \<open>Next\<close> and \<open>Prev\<close> do with a child when the direction changes.  \<open>key()\<close> is the key of the
  current child, which the loop leaves alone.
\<close>

definition after_key :: "'i iterator_ops \<Rightarrow> comparator \<Rightarrow> slice \<Rightarrow> nat \<Rightarrow> nat \<Rightarrow> 'i wrapper \<Rightarrow> 'i wrapper option" where
  "after_key ops c key cur i child =
     (if i = cur then Some child
      else do { child \<leftarrow> iw_Seek ops child key;
                if iw_valid child
                then do { k \<leftarrow> iw_get_key child; r \<leftarrow> Compare c key k;
                          if r = 0 then iw_Next ops child else Some child }
                else Some child })"

definition before_key :: "'i iterator_ops \<Rightarrow> slice \<Rightarrow> nat \<Rightarrow> nat \<Rightarrow> 'i wrapper \<Rightarrow> 'i wrapper option" where
  "before_key ops key cur i child =
     (if i = cur then Some child
      else do { child \<leftarrow> iw_Seek ops child key;
                if iw_valid child then iw_Prev ops child else iw_SeekToLast ops child })"

definition mi_Next :: "'i iterator_ops \<Rightarrow> 'i merging_iterator \<Rightarrow> 'i merging_iterator option" where
  "mi_Next ops m =
     do { cur \<leftarrow> mi_current m;
          m \<leftarrow> (if mi_direction m \<noteq> kForward
            then do { key \<leftarrow> mi_key m;
                      ws \<leftarrow> map_children (after_key ops (mi_comparator m) key cur) 0 (mi_children m);
                      Some (m\<lparr>mi_children := ws, mi_direction := kForward\<rparr>) }
            else Some m);
          w \<leftarrow> iw_Next ops (mi_children m ! cur);
          FindSmallest (m\<lparr>mi_children := (mi_children m)[cur := w]\<rparr>) }"

definition mi_Prev :: "'i iterator_ops \<Rightarrow> 'i merging_iterator \<Rightarrow> 'i merging_iterator option" where
  "mi_Prev ops m =
     do { cur \<leftarrow> mi_current m;
          m \<leftarrow> (if mi_direction m \<noteq> kReverse
            then do { key \<leftarrow> mi_key m;
                      ws \<leftarrow> map_children (before_key ops key cur) 0 (mi_children m);
                      Some (m\<lparr>mi_children := ws, mi_direction := kReverse\<rparr>) }
            else Some m);
          w \<leftarrow> iw_Prev ops (mi_children m ! cur);
          FindLargest (m\<lparr>mi_children := (mi_children m)[cur := w]\<rparr>) }"

text \<open>
  \<open>status()\<close> is total in the record of the functions; its assertion, that every wrapper has an
  iterator, holds from the constructor on.
\<close>

definition merging_iterator_ops :: "'i iterator_ops \<Rightarrow> 'i merging_iterator iterator_ops" where
  "merging_iterator_ops ops =
     \<lparr>op_Valid = mi_Valid, op_SeekToFirst = mi_SeekToFirst ops, op_SeekToLast = mi_SeekToLast ops,
      op_Seek = mi_Seek ops, op_Next = mi_Next ops, op_Prev = mi_Prev ops,
      op_key = mi_key, op_value = mi_value ops,
      op_status = (\<lambda>m. case mi_status ops m of Some s \<Rightarrow> s | None \<Rightarrow> OK)\<rparr>"

text \<open>\<open>NewMergingIterator\<close>: no child, one child, or more.\<close>

datatype 'i merged = NoChildren block_iterator | OneChild 'i | ManyChildren "'i merging_iterator"

definition NewMergingIterator :: "'i iterator_ops \<Rightarrow> comparator \<Rightarrow> 'i list \<Rightarrow> 'i merged option" where
  "NewMergingIterator ops cmp children =
     (if length children = 0 then Some (NoChildren (StatusIterator OK))
      else if length children = 1 then Some (OneChild (children ! 0))
      else map_option ManyChildren (MergingIterator ops cmp children))"

end
