(* ===== verification/Ldb_MergerSpec.thy ===== *)
theory Ldb_MergerSpec
  imports Ldb_Merger Ldb_Select "HOL-Library.Multiset"
begin

text \<open>
  The merging iterator is a cursor over the merged list of its children's lists.  Each child
  holds a selection of the merged list; the positions of the children are expressed by the
  indexes of their entries in the merged list.  Moving forward at the entry \<open>J\<close>, every child
  stands at its first entry from \<open>J\<close> on; moving backward, the current child stands at \<open>J\<close> and
  the others at their last entry below \<open>J\<close>.
\<close>

section \<open>The merged list\<close>

definition merge_of :: "comparator \<Rightarrow> slice set \<Rightarrow> (slice \<times> slice) list list \<Rightarrow> (slice \<times> slice) list \<Rightarrow> bool" where
  "merge_of c valid kvss kvs \<longleftrightarrow> sorted_pairs c valid kvs \<and> mset kvs = mset (concat kvss) \<and>
     (\<forall>kvs' \<in> set kvss. sorted_pairs c valid kvs')"

definition owner :: "(slice \<times> slice) list list \<Rightarrow> slice \<times> slice \<Rightarrow> nat option" where
  "owner kvss x = List.find (\<lambda>i. x \<in> set (kvss ! i)) [0..<length kvss]"

abbreviation owned :: "(slice \<times> slice) list list \<Rightarrow> (slice \<times> slice) list \<Rightarrow> nat \<Rightarrow> nat \<Rightarrow> bool" where
  "owned kvss kvs i J \<equiv> owner kvss (kvs ! J) = Some i"

text \<open>A child at the index \<open>j\<close> of the merged list.\<close>

definition child_at ::
  "'i iterator_ops \<Rightarrow> (nat \<Rightarrow> nat \<Rightarrow> 'i \<Rightarrow> bool) \<Rightarrow> (slice \<times> slice) list list \<Rightarrow> (slice \<times> slice) list \<Rightarrow>
    nat \<Rightarrow> nat \<Rightarrow> 'i wrapper \<Rightarrow> bool" where
  "child_at ops at kvss kvs i j w \<longleftrightarrow>
     (\<exists>it v. iw_iter w = Some it \<and> iw_valid w = op_Valid ops it \<and>
        (iw_valid w \<longrightarrow> op_key ops it = Some (iw_key w)) \<and> at i v it \<and> j = sel (owned kvss kvs i) (length kvs) v)"

definition mi_at ::
  "'i iterator_ops \<Rightarrow> comparator \<Rightarrow> slice set \<Rightarrow> (nat \<Rightarrow> nat \<Rightarrow> 'i \<Rightarrow> bool) \<Rightarrow> (slice \<times> slice) list list \<Rightarrow>
    (slice \<times> slice) list \<Rightarrow> nat \<Rightarrow> 'i merging_iterator \<Rightarrow> bool" where
  "mi_at ops c valid at kvss kvs J m \<longleftrightarrow>
     merge_of c valid kvss kvs \<and> J \<le> length kvs \<and> mi_comparator m = c \<and>
     length (mi_children m) = length kvss \<and>
     mi_current m = (if J < length kvs then owner kvss (kvs ! J) else None) \<and>
     (\<forall>i < length kvss. \<exists>j. child_at ops at kvss kvs i j (mi_children m ! i) \<and>
        (J < length kvs \<longrightarrow>
          (if mi_direction m = kForward then first_index (length kvs) J (owned kvss kvs i) j
           else if mi_current m = Some i then j = J
           else last_index (length kvs) J (owned kvss kvs i) j)))"

locale merge = weak_order "Compare c" valid for c :: comparator and valid :: "slice set" +
  fixes ops :: "'i iterator_ops" and kvss :: "(slice \<times> slice) list list" and at :: "nat \<Rightarrow> nat \<Rightarrow> 'i \<Rightarrow> bool"
    and kvs :: "(slice \<times> slice) list"
  assumes child: "i < length kvss \<Longrightarrow> cursor ops c valid (kvss ! i) (at i)"
begin

abbreviation own :: "nat \<Rightarrow> nat \<Rightarrow> bool" where "own \<equiv> owned kvss kvs"
abbreviation N :: nat where "N \<equiv> length kvs"
abbreviation stands :: "nat \<Rightarrow> nat \<Rightarrow> 'i wrapper \<Rightarrow> bool" where "stands \<equiv> child_at ops at kvss kvs"
abbreviation merged_lists :: bool where "merged_lists \<equiv> merge_of c valid kvss kvs"

lemmas each_le = cursor.at_le [OF child]
lemmas each_Valid = cursor.at_Valid [OF child]
lemmas each_pair = cursor.at_pair [OF child]
lemmas each_status = cursor.at_status [OF child]
lemmas each_Next = cursor.at_Next [OF child]
lemmas each_Prev = cursor.at_Prev [OF child]
lemmas each_SeekToFirst = cursor.at_SeekToFirst [OF child]
lemmas each_SeekToLast = cursor.at_SeekToLast [OF child]
lemmas each_Seek = cursor.at_Seek [OF child]

lemma merged_sorted: "merged_lists \<Longrightarrow> sorted_pairs c valid kvs"
  by (simp add: merge_of_def)

lemma merged_compare:
  assumes m: merged_lists and "a < N" "b < N"
  obtains r where "Compare c (fst (kvs ! a)) (fst (kvs ! b)) = Some r"
    "r < 0 \<longleftrightarrow> a < b" "0 < r \<longleftrightarrow> b < a" "r = 0 \<longleftrightarrow> a = b"
proof -
  note so = merged_sorted [OF m]
  have v: "fst (kvs ! a) \<in> valid" "fst (kvs ! b) \<in> valid" using sorted_pairsD(1) [OF so] assms by auto
  obtain r where r: "Compare c (fst (kvs ! a)) (fst (kvs ! b)) = Some r" "r < 0 \<longleftrightarrow> lt (fst (kvs ! a)) (fst (kvs ! b))"
    "0 < r \<longleftrightarrow> lt (fst (kvs ! b)) (fst (kvs ! a))" by (rule cmp_cases [OF v])
  have "lt (fst (kvs ! x)) (fst (kvs ! y))" if "x < y" "y < N" for x y
    using sorted_pairsD(2) [OF so that] by (simp add: lt_def)
  then have "a < b \<Longrightarrow> r < 0" "b < a \<Longrightarrow> 0 < r" using r assms by simp_all
  moreover have "a = b \<Longrightarrow> r = 0" using r v lt_irrefl by (metis not_less_iff_gr_or_eq)
  ultimately show ?thesis using that [OF r(1)] by (metis less_asym nat_neq_iff less_irrefl)
qed

lemma merged_distinct: "merged_lists \<Longrightarrow> distinct kvs"
proof -
  assume m: merged_lists
  have "kvs ! a \<noteq> kvs ! b" if ab: "a < N" "b < N" "a \<noteq> b" for a b
  proof
    assume eq: "kvs ! a = kvs ! b"
    obtain r where "Compare c (fst (kvs ! a)) (fst (kvs ! b)) = Some r" "r = 0 \<longleftrightarrow> a = b"
      by (rule merged_compare [OF m ab(1,2)])
    moreover have "Compare c (fst (kvs ! a)) (fst (kvs ! a)) = Some 0"
      using same sorted_pairsD(1) [OF merged_sorted [OF m] ab(1)] by simp
    ultimately show False using eq ab(3) by simp
  qed
  then show ?thesis by (simp add: distinct_conv_nth)
qed

lemma child_disjoint:
  assumes m: merged_lists and "h < i" "i < length kvss"
  shows "set (kvss ! h) \<inter> set (kvss ! i) = {}"
proof -
  have "distinct (concat kvss)"
    using merged_distinct [OF m] m mset_eq_imp_distinct_iff [of kvs "concat kvss"] by (simp add: merge_of_def)
  then have "distinct (concat (take i kvss @ kvss ! i # drop (Suc i) kvss))"
    by (simp only: id_take_nth_drop [OF assms(3), symmetric])
  then have "set (concat (take i kvss)) \<inter> set (kvss ! i) = {}" by auto
  moreover have "kvss ! h \<in> set (take i kvss)" using assms(2,3) by (auto simp: in_set_conv_nth)
  ultimately show ?thesis by auto
qed

lemma owner_iff:
  assumes m: merged_lists and "i < length kvss"
  shows "owner kvss x = Some i \<longleftrightarrow> x \<in> set (kvss ! i)"
proof
  show "x \<in> set (kvss ! i)" if "owner kvss x = Some i"
    using that assms(2) by (auto simp: owner_def find_Some_iff)
  assume x: "x \<in> set (kvss ! i)"
  have "x \<notin> set (kvss ! h)" if "h < i" for h
    using child_disjoint [OF m that assms(2)] x by auto
  then show "owner kvss x = Some i" using x assms(2) by (auto simp: owner_def find_Some_iff)
qed

lemma owner_exists:
  assumes m: merged_lists and "J < N"
  obtains i where "i < length kvss" "own i J"
proof -
  have "set kvs = set (concat kvss)" using m mset_eq_setD unfolding merge_of_def by blast
  with nth_mem [OF assms(2)] obtain ys where "ys \<in> set kvss" "kvs ! J \<in> set ys" by auto
  then obtain i where "i < length kvss" "kvs ! J \<in> set (kvss ! i)"
    unfolding in_set_conv_nth [of ys kvss] by auto
  with owner_iff [OF m] that show ?thesis by blast
qed

lemma child_list:
  assumes m: merged_lists and i: "i < length kvss"
  shows "kvss ! i = map ((!) kvs) (selected (own i) N)"
proof (rule sorted_wrt_unique)
  let ?R = "\<lambda>x y. before c (fst x) (fst y)"
  have so: "sorted_pairs c valid (kvss ! i)" using m i by (simp add: merge_of_def)
  then show "sorted_wrt ?R (kvss ! i)" by (simp add: sorted_pairs_def sorted_wrt_map)
  have "sorted_wrt (<) (selected (own i) N)"
    unfolding selected_def by (rule sorted_wrt_filter) (rule sorted_wrt_upt)
  moreover have "?R (kvs ! a) (kvs ! b)" if "a < b" "b \<in> set (selected (own i) N)" for a b
    using that sorted_pairsD(2) [OF merged_sorted [OF m]] by (simp add: selected_def)
  ultimately show "sorted_wrt ?R (map ((!) kvs) (selected (own i) N))"
    by (auto simp: sorted_wrt_map intro: sorted_wrt_mono_rel [of _ "(<)"])
  show "\<not> ?R y x" if "x \<in> set (kvss ! i)" "y \<in> set (kvss ! i)" "?R x y" for x y
    using that so lt_asym unfolding lt_def sorted_pairs_def by blast
  have "set (kvss ! i) \<subseteq> set kvs"
    using m i mset_eq_setD [of kvs "concat kvss"] by (auto simp: merge_of_def)
  moreover have "filter (\<lambda>x. owner kvss x = Some i) (map ((!) kvs) [0..<N]) = map ((!) kvs) (selected (own i) N)"
    by (simp add: filter_map selected_def comp_def)
  then have "set (map ((!) kvs) (selected (own i) N)) = {x \<in> set kvs. owner kvss x = Some i}"
    unfolding map_nth by (metis set_filter)
  ultimately show "set (kvss ! i) = set (map ((!) kvs) (selected (own i) N))"
    using owner_iff [OF m i] by blast
qed

lemma child_nth:
  assumes "merged_lists" "i < length kvss"
  shows "length (kvss ! i) = length (selected (own i) N)"
    "v < length (kvss ! i) \<Longrightarrow> kvss ! i ! v = kvs ! sel (own i) N v"
  using child_list [OF assms] by (simp_all add: sel_def)


text \<open>A child that stands at an index, and how it moves.\<close>

lemma standsE:
  assumes "merged_lists" "i < length kvss" "stands i j w"
  obtains it v where "iw_iter w = Some it" "at i v it" "j = sel (own i) N v" "v \<le> length (selected (own i) N)"
    "iw_valid w \<longleftrightarrow> j < N" "j < N \<longleftrightarrow> v < length (selected (own i) N)"
proof -
  from assms(3) obtain it v where w: "iw_iter w = Some it" "iw_valid w = op_Valid ops it" "at i v it"
    "j = sel (own i) N v" by (auto simp: child_at_def)
  note len = child_nth(1) [OF assms(1,2)]
  show ?thesis by (rule that [OF w(1,3,4)]) (use each_le [OF assms(2) w(3)] each_Valid [OF assms(2) w(3)] w(2,4) len in simp_all)
qed

lemma stands_le: "merged_lists \<Longrightarrow> i < length kvss \<Longrightarrow> stands i j w \<Longrightarrow> j \<le> N"
  by (auto elim!: standsE)

lemma stands_valid: "merged_lists \<Longrightarrow> i < length kvss \<Longrightarrow> stands i j w \<Longrightarrow> iw_valid w \<longleftrightarrow> j < N"
  by (auto elim!: standsE)

lemma stands_pair:
  assumes m: "merged_lists" and i: "i < length kvss" and w: "stands i j w" and j: "j < N"
  shows "own i j" "iw_get_key w = Some (fst (kvs ! j))" "iw_value ops w = Some (snd (kvs ! j))"
proof -
  from w obtain it v where x: "iw_iter w = Some it" "iw_valid w = op_Valid ops it" "at i v it"
    "j = sel (own i) N v" "iw_valid w \<longrightarrow> op_key ops it = Some (iw_key w)" by (auto simp: child_at_def)
  have v: "v < length (selected (own i) N)" using x(4) j by simp
  then have vl: "v < length (kvss ! i)" using child_nth(1) [OF m i] by simp
  show "own i j" using sel_less(2) [OF v] x(4) by simp
  have "iw_valid w" using stands_valid [OF m i w] j by simp
  moreover have "kvss ! i ! v = kvs ! j" using child_nth(2) [OF m i vl] x(4) by simp
  ultimately show "iw_get_key w = Some (fst (kvs ! j))" "iw_value ops w = Some (snd (kvs ! j))"
    using each_pair [OF i x(3) vl] x(1,5) by (simp_all add: iw_get_key_def iw_value_def)
qed

lemma iw_Update_at:
  assumes m: "merged_lists" and i: "i < length kvss" and "at i v it"
  shows "\<exists>w'. iw_Update ops (w\<lparr>iw_iter := Some it\<rparr>) = Some w' \<and> stands i (sel (own i) N v) w'"
proof -
  show ?thesis
  proof (cases "op_Valid ops it")
    case True
    then have "op_key ops it = Some (fst (kvss ! i ! v))"
      using each_pair [OF i assms(3)] each_Valid [OF i assms(3)] by simp
    with True assms(3) show ?thesis by (auto simp: iw_Update_def child_at_def Let_def)
  next
    case False
    with assms(3) show ?thesis by (auto simp: iw_Update_def child_at_def Let_def)
  qed
qed

lemma iw_move_at:
  assumes "merged_lists" "i < length kvss" "iw_iter w = Some it" "f it = Some it'" "at i v it'"
  shows "\<exists>w'. iw_move ops f w = Some w' \<and> stands i (sel (own i) N v) w'"
  using iw_Update_at [OF assms(1,2,5), of w] assms(3,4) by (auto simp: iw_move_def)

lemma child_Next:
  assumes m: "merged_lists" and i: "i < length kvss" and w: "stands i j w" and j: "j < N"
  shows "\<exists>w' k. iw_Next ops w = Some w' \<and> stands i k w' \<and> first_index N (Suc j) (own i) k"
proof -
  from standsE [OF m i w] obtain it v where x: "iw_iter w = Some it" "at i v it" "j = sel (own i) N v"
    "v < length (selected (own i) N)" using j by metis
  obtain it' where it': "op_Next ops it = Some it'" "at i (Suc v) it'"
    using each_Next [OF i x(2)] x(4) child_nth(1) [OF m i] by auto
  from iw_move_at [where f = "op_Next ops", OF m i x(1) it'] sel_next [OF x(4)] x(3)
  show ?thesis unfolding iw_Next_def by blast
qed

lemma child_Prev:
  assumes m: "merged_lists" and i: "i < length kvss" and w: "stands i j w" and j: "j < N"
  shows "\<exists>w' k. iw_Prev ops w = Some w' \<and> stands i k w' \<and> last_index N j (own i) k"
proof -
  from standsE [OF m i w] obtain it v where x: "iw_iter w = Some it" "at i v it" "j = sel (own i) N v"
    "v < length (selected (own i) N)" using j by metis
  obtain it' where it': "op_Prev ops it = Some it'"
    "at i (if v = 0 then length (selected (own i) N) else v - 1) it'"
    using each_Prev [OF i x(2)] x(4) unfolding child_nth(1) [OF m i] by blast
  from iw_move_at [where f = "op_Prev ops", OF m i x(1) it'] sel_prev [of v "own i" N] x(3,4)
  show ?thesis unfolding iw_Prev_def by (metis less_imp_le_nat)
qed

lemma child_SeekToFirst:
  assumes m: "merged_lists" and i: "i < length kvss" and w: "stands i j w"
  shows "\<exists>w' k. iw_SeekToFirst ops w = Some w' \<and> stands i k w' \<and> first_index N 0 (own i) k"
proof -
  from standsE [OF m i w] obtain it v where x: "iw_iter w = Some it" "at i v it" by metis
  obtain it' where it': "op_SeekToFirst ops it = Some it'" "at i 0 it'" using each_SeekToFirst [OF i x(2)] by blast
  from iw_move_at [where f = "op_SeekToFirst ops", OF m i x(1) it'] sel_first [of N "own i"]
  show ?thesis unfolding iw_SeekToFirst_def by blast
qed

lemma child_SeekToLast:
  assumes m: "merged_lists" and i: "i < length kvss" and w: "stands i j w"
  shows "\<exists>w' k. iw_SeekToLast ops w = Some w' \<and> stands i k w' \<and> last_index N N (own i) k"
proof -
  from standsE [OF m i w] obtain it v where x: "iw_iter w = Some it" "at i v it" by metis
  obtain it' where it': "op_SeekToLast ops it = Some it'" "at i (length (selected (own i) N) - 1) it'"
    using each_SeekToLast [OF i x(2)] child_nth(1) [OF m i] by auto
  obtain k where k: "last_index N N (own i) k" using last_index_exists [of N N] by blast
  from iw_move_at [where f = "op_SeekToLast ops", OF m i x(1) it'] last_index_sel_end [OF k] k
  show ?thesis unfolding iw_SeekToLast_def by blast
qed

lemma child_Seek:
  assumes m: "merged_lists" and i: "i < length kvss" and w: "stands i j w" and t: "t \<in> valid"
  shows "\<exists>w' k. iw_Seek ops w t = Some w' \<and> stands i k w' \<and>
    first_index N 0 (\<lambda>k. own i k \<and> \<not> lt (fst (kvs ! k)) t) k"
proof -
  from standsE [OF m i w] obtain it v where x: "iw_iter w = Some it" "at i v it" by metis
  obtain it' u where u: "op_Seek ops it t = Some it'" "at i u it'" "\<forall>h < u. before c (fst (kvss ! i ! h)) t"
    "u < length (kvss ! i) \<longrightarrow> \<not> before c (fst (kvss ! i ! u)) t" using each_Seek [OF i x(2) t] by blast
  have len: "u \<le> length (selected (own i) N)" using each_le [OF i u(2)] child_nth(1) [OF m i] by simp
  have hidden: "\<not> (own i k \<and> \<not> lt (fst (kvs ! k)) t)" if k: "k < sel (own i) N u" for k
  proof
    assume a: "own i k \<and> \<not> lt (fst (kvs ! k)) t"
    have "k < N" using k sel_le [of "own i" N u] by linarith
    then obtain h where h: "h \<le> length (selected (own i) N)" "k = sel (own i) N h"
      using sel_position [of k N "own i"] a by auto
    then have "h < u" using k sel_mono_iff [OF h(1) len] by simp
    moreover from this have "h < length (kvss ! i)" using len child_nth(1) [OF m i] by simp
    then have "kvss ! i ! h = kvs ! k" using child_nth(2) [OF m i] h(2) by simp
    ultimately show False using u(3) a unfolding lt_def by metis
  qed
  moreover have "own i (sel (own i) N u) \<and> \<not> lt (fst (kvs ! sel (own i) N u)) t" if less: "sel (own i) N u < N"
  proof -
    have ul: "u < length (selected (own i) N)" using less by simp
    then have "u < length (kvss ! i)" using child_nth(1) [OF m i] by simp
    with u(4) child_nth(2) [OF m i] sel_less(2) [OF ul] show ?thesis by (simp add: lt_def)
  qed
  ultimately have "first_index N 0 (\<lambda>k. own i k \<and> \<not> lt (fst (kvs ! k)) t) (sel (own i) N u)"
    by (simp add: first_index_def del: sel_less_iff)
  with iw_move_at [where f = "\<lambda>it. op_Seek ops it t", OF m i x(1) u(1,2)]
  show ?thesis unfolding iw_Seek_def by blast
qed

text \<open>Seeking the key of a merged entry.\<close>

lemma child_Seek_key:
  assumes m: "merged_lists" and i: "i < length kvss" and w: "stands i j w" and J: "J < N"
  shows "\<exists>w' k. iw_Seek ops w (fst (kvs ! J)) = Some w' \<and> stands i k w' \<and> first_index N J (own i) k"
proof -
  have t: "fst (kvs ! J) \<in> valid" by (rule sorted_pairsD(1) [OF merged_sorted [OF m] J])
  obtain w' k where k: "iw_Seek ops w (fst (kvs ! J)) = Some w'" "stands i k w'"
    "first_index N 0 (\<lambda>k. own i k \<and> \<not> lt (fst (kvs ! k)) (fst (kvs ! J))) k" using child_Seek [OF m i w t] by blast
  have less: "lt (fst (kvs ! a)) (fst (kvs ! J)) \<longleftrightarrow> a < J" if a: "a < N" for a
  proof -
    obtain r where "Compare c (fst (kvs ! a)) (fst (kvs ! J)) = Some r" "r < 0 \<longleftrightarrow> a < J"
      by (rule merged_compare [OF m a J])
    then show ?thesis by (auto simp: lt_def)
  qed
  note f = k(3) [unfolded first_index_def]
  have "J \<le> k"
  proof (rule ccontr)
    assume "\<not> J \<le> k"
    with J f less [of k] show False by simp
  qed
  moreover have "\<not> own i h" if "J \<le> h" "h < k" for h using f that less [of h] by auto
  ultimately have "first_index N J (own i) k" using f by (simp add: first_index_def)
  with k(1,2) show ?thesis by blast
qed

end


section \<open>All children\<close>

fun pick :: "(nat \<Rightarrow> bool) \<Rightarrow> (nat \<Rightarrow> nat) \<Rightarrow> nat list \<Rightarrow> nat option \<Rightarrow> nat option" where
  "pick v rank [] acc = acc"
| "pick v rank (i # is) acc =
     (if v i then pick v rank is (Some (case acc of None \<Rightarrow> i | Some j \<Rightarrow> if rank i < rank j then i else j))
      else pick v rank is acc)"

lemma pick_none: "pick v rank is acc = None \<longleftrightarrow> acc = None \<and> (\<forall>i \<in> set is. \<not> v i)"
  by (induction "is" arbitrary: acc) auto

lemma pick_some:
  assumes "pick v rank is acc = Some i" and "\<And>a. acc = Some a \<Longrightarrow> v a"
  shows "(i \<in> set is \<or> acc = Some i) \<and> v i \<and> (\<forall>h. v h \<longrightarrow> h \<in> set is \<or> acc = Some h \<longrightarrow> rank i \<le> rank h)"
  using assms
proof (induction "is" arbitrary: acc)
  case (Cons j "is")
  show ?case
  proof (cases "v j")
    case False
    with Cons.IH [of acc] Cons.prems show ?thesis by auto
  next
    case True
    let ?acc = "Some (case acc of None \<Rightarrow> j | Some k \<Rightarrow> if rank j < rank k then j else k)"
    have "pick v rank is ?acc = Some i" using Cons.prems(1) True by simp
    from Cons.IH [OF this] True Cons.prems(2)
    have *: "(i \<in> set is \<or> ?acc = Some i) \<and> v i \<and> (\<forall>h. v h \<longrightarrow> h \<in> set is \<or> ?acc = Some h \<longrightarrow> rank i \<le> rank h)"
      by (auto split: option.splits if_splits)
    show ?thesis
    proof (cases acc)
      case None
      with * show ?thesis by auto
    next
      case (Some k)
      with Cons.prems(2) have "v k" by simp
      with * Some True show ?thesis by (cases "rank j < rank k") (auto intro: order.trans less_imp_le)
    qed
  qed
qed simp

lemma map_children_all:
  "(\<And>i. i < length ws \<Longrightarrow> \<exists>w'. f (b + i) (ws ! i) = Some w' \<and> Q (b + i) w') \<Longrightarrow>
    \<exists>ws'. map_children f b ws = Some ws' \<and> length ws' = length ws \<and> (\<forall>i < length ws. Q (b + i) (ws' ! i))"
proof (induction ws arbitrary: b)
  case (Cons w ws)
  obtain w' where w': "f b w = Some w'" "Q b w'" using Cons.prems [of 0] by auto
  have "\<exists>w'. f (Suc b + i) (ws ! i) = Some w' \<and> Q (Suc b + i) w'" if "i < length ws" for i
    using Cons.prems [of "Suc i"] that by simp
  from Cons.IH [OF this] obtain ws' where ws': "map_children f (Suc b) ws = Some ws'" "length ws' = length ws"
    "\<forall>i < length ws. Q (Suc b + i) (ws' ! i)" by blast
  have "Q (b + i) ((w' # ws') ! i)" if "i < Suc (length ws)" for i
    using that w' ws' by (cases i) auto
  with w' ws' show ?case by simp
qed simp

context merge
begin

lemma each_child:
  assumes "length ws = length kvss"
    and "\<And>i. i < length kvss \<Longrightarrow> \<exists>w' k. f i (ws ! i) = Some w' \<and> stands i k w' \<and> R i k"
  obtains ws' where "map_children f 0 ws = Some ws'" "length ws' = length kvss"
    "\<And>i. i < length kvss \<Longrightarrow> \<exists>k. stands i k (ws' ! i) \<and> R i k"
  using map_children_all [of ws f 0 "\<lambda>i w'. \<exists>k. stands i k w' \<and> R i k"] assms by auto

text \<open>Both loops pick the valid child with the least rank.\<close>

lemma smallest_loop_pick:
  assumes m: merged_lists and ws: "\<And>i. i < length kvss \<Longrightarrow> stands i (pos i) (ws ! i)"
  shows "set is \<subseteq> {..<length kvss} \<Longrightarrow> (\<forall>a. acc = Some a \<longrightarrow> a < length kvss \<and> pos a < N) \<Longrightarrow>
    smallest_loop c ws is acc = Some (pick (\<lambda>i. pos i < N) pos is acc)"
proof (induction "is" arbitrary: acc)
  case (Cons i "is")
  then have i: "i < length kvss" and rest: "set is \<subseteq> {..<length kvss}" by auto
  note v = stands_valid [OF m i ws [OF i]]
  show ?case
  proof (cases "pos i < N")
    case False
    with Cons.IH [OF rest Cons.prems(2)] v show ?thesis by simp
  next
    case True
    show ?thesis
    proof (cases acc)
      case None
      with Cons.IH [OF rest, of "Some i"] i True v show ?thesis by simp
    next
      case (Some a)
      with Cons.prems(2) have a: "a < length kvss" "pos a < N" by auto
      obtain r where r: "Compare c (fst (kvs ! pos i)) (fst (kvs ! pos a)) = Some r" "r < 0 \<longleftrightarrow> pos i < pos a"
        by (rule merged_compare [OF m True a(2)])
      have "smallest_loop c ws (i # is) acc = smallest_loop c ws is (Some (if pos i < pos a then i else a))"
        using v True stands_pair(2) [OF m i ws [OF i] True] stands_pair(2) [OF m a(1) ws [OF a(1)] a(2)] r Some by simp
      with Cons.IH [OF rest, of "Some (if pos i < pos a then i else a)"] a i True Some show ?thesis by simp
    qed
  qed
qed simp

lemma largest_loop_pick:
  assumes m: merged_lists and ws: "\<And>i. i < length kvss \<Longrightarrow> stands i (pos i) (ws ! i)"
  shows "set is \<subseteq> {..<length kvss} \<Longrightarrow> (\<forall>a. acc = Some a \<longrightarrow> a < length kvss \<and> pos a < N) \<Longrightarrow>
    largest_loop c ws is acc = Some (pick (\<lambda>i. pos i < N) (\<lambda>i. N - pos i) is acc)"
proof (induction "is" arbitrary: acc)
  case (Cons i "is")
  then have i: "i < length kvss" and rest: "set is \<subseteq> {..<length kvss}" by auto
  note v = stands_valid [OF m i ws [OF i]]
  show ?case
  proof (cases "pos i < N")
    case False
    with Cons.IH [OF rest Cons.prems(2)] v show ?thesis by simp
  next
    case True
    show ?thesis
    proof (cases acc)
      case None
      with Cons.IH [OF rest, of "Some i"] i True v show ?thesis by simp
    next
      case (Some a)
      with Cons.prems(2) have a: "a < length kvss" "pos a < N" by auto
      obtain r where r: "Compare c (fst (kvs ! pos i)) (fst (kvs ! pos a)) = Some r" "0 < r \<longleftrightarrow> pos a < pos i"
        by (rule merged_compare [OF m True a(2)])
      have rank: "N - pos i < N - pos a \<longleftrightarrow> pos a < pos i" using True a(2) by linarith
      have "largest_loop c ws (i # is) acc = largest_loop c ws is (Some (if pos a < pos i then i else a))"
        using v True stands_pair(2) [OF m i ws [OF i] True] stands_pair(2) [OF m a(1) ws [OF a(1)] a(2)] r Some by simp
      with Cons.IH [OF rest, of "Some (if pos a < pos i then i else a)"] a i True Some rank show ?thesis by simp
    qed
  qed
qed simp

lemma FindSmallest_at:
  assumes m: merged_lists and "mi_comparator mi = c" and len: "length (mi_children mi) = length kvss" and J: "J \<le> N"
    and ch: "\<And>i. i < length kvss \<Longrightarrow> \<exists>j. stands i j (mi_children mi ! i) \<and> first_index N J (own i) j"
  shows "FindSmallest mi = Some (mi\<lparr>mi_current := if J < N then owner kvss (kvs ! J) else None\<rparr>)"
proof -
  from ch obtain pos where pos: "\<And>i. i < length kvss \<Longrightarrow> stands i (pos i) (mi_children mi ! i) \<and> first_index N J (own i) (pos i)"
    by metis
  define res where "res = pick (\<lambda>i. pos i < N) pos [0..<length kvss] None"
  have loop: "smallest_loop c (mi_children mi) [0..<length kvss] None = Some res"
    unfolding res_def by (rule smallest_loop_pick [OF m]) (use pos in auto)
  have res: "res = None \<Longrightarrow> i < length kvss \<Longrightarrow> \<not> pos i < N"
    "res = Some i \<Longrightarrow> i < length kvss \<and> pos i < N \<and> (\<forall>h < length kvss. pos h < N \<longrightarrow> pos i \<le> pos h)" for i
    using pick_none [of "\<lambda>i. pos i < N" pos "[0..<length kvss]" None]
      pick_some [of "\<lambda>i. pos i < N" pos "[0..<length kvss]" None i] unfolding res_def by auto
  have "res = (if J < N then owner kvss (kvs ! J) else None)"
  proof (cases "J < N")
    case False
    then have "\<not> pos i < N" if "i < length kvss" for i using pos [OF that] J by (auto simp: first_index_def)
    with res(2) False show ?thesis by (cases res) auto
  next
    case True
    obtain o' where o': "o' < length kvss" "own o' J" by (rule owner_exists [OF m True])
    have "pos o' = J" using first_index_here [OF _ True] pos [OF o'(1)] o'(2) by blast
    with res [of o'] res(2) o'(1) True obtain i where i: "res = Some i" "i < length kvss" "pos i < N" "pos i \<le> J"
      by (cases res) auto
    have "J \<le> pos i" "own i (pos i)" using pos [OF i(2)] i(3) by (auto simp: first_index_def)
    with i True show ?thesis by simp
  qed
  with loop assms(2) len show ?thesis by (simp add: FindSmallest_def)
qed

lemma FindLargest_at:
  assumes m: merged_lists and "mi_comparator mi = c" and len: "length (mi_children mi) = length kvss" and "last_index N b (\<lambda>_. True) J"
    and ch: "\<And>i. i < length kvss \<Longrightarrow> \<exists>j. stands i j (mi_children mi ! i) \<and> last_index N b (own i) j"
  shows "FindLargest mi = Some (mi\<lparr>mi_current := if J < N then owner kvss (kvs ! J) else None\<rparr>)"
proof -
  from ch obtain pos where pos: "\<And>i. i < length kvss \<Longrightarrow> stands i (pos i) (mi_children mi ! i) \<and> last_index N b (own i) (pos i)"
    by metis
  define res where "res = pick (\<lambda>i. pos i < N) (\<lambda>i. N - pos i) (rev [0..<length kvss]) None"
  have loop: "largest_loop c (mi_children mi) (rev [0..<length kvss]) None = Some res"
    unfolding res_def by (rule largest_loop_pick [OF m]) (use pos in auto)
  have res: "res = None \<Longrightarrow> i < length kvss \<Longrightarrow> \<not> pos i < N"
    "res = Some i \<Longrightarrow> i < length kvss \<and> pos i < N \<and> (\<forall>h < length kvss. pos h < N \<longrightarrow> pos h \<le> pos i)" for i
    using pick_none [of "\<lambda>i. pos i < N" "\<lambda>i. N - pos i" "rev [0..<length kvss]" None]
      pick_some [of "\<lambda>i. pos i < N" "\<lambda>i. N - pos i" "rev [0..<length kvss]" None i] unfolding res_def by fastforce+
  have "res = (if J < N then owner kvss (kvs ! J) else None)"
  proof (cases "J < N")
    case False
    then have "\<not> pos i < N" if "i < length kvss" for i using pos [OF that] assms(4) by (auto simp: last_index_def)
    with res(2) False show ?thesis by (cases res) auto
  next
    case True
    then have b: "b = Suc J" using assms(4) by (auto simp: last_index_def)
    obtain o' where o': "o' < length kvss" "own o' J" by (rule owner_exists [OF m True])
    have "pos o' = J" using pos [OF o'(1)] o'(2) by (auto simp: last_index_def b less_Suc_eq)
    with res [of o'] res(2) o'(1) True obtain i where i: "res = Some i" "i < length kvss" "pos i < N" "J \<le> pos i"
      by (cases res) auto
    have "pos i \<le> J" "own i (pos i)" using pos [OF i(2)] i(3) by (auto simp: last_index_def b)
    with i True show ?thesis by simp
  qed
  with loop assms(2) len show ?thesis by (simp add: FindLargest_def)
qed

abbreviation merge_at :: "nat \<Rightarrow> 'i merging_iterator \<Rightarrow> bool" where
  "merge_at \<equiv> mi_at ops c valid at kvss kvs"

lemma merge_atD:
  assumes "merge_at J mi"
  shows "merged_lists" "J \<le> N" "mi_comparator mi = c" "length (mi_children mi) = length kvss"
    "i < length kvss \<Longrightarrow> \<exists>j. stands i j (mi_children mi ! i)"
    "J < N \<Longrightarrow> mi_current mi = owner kvss (kvs ! J)" "\<not> J < N \<Longrightarrow> mi_current mi = None"
    "J < N \<Longrightarrow> i < length kvss \<Longrightarrow> mi_direction mi = kForward \<Longrightarrow>
      \<exists>j. stands i j (mi_children mi ! i) \<and> first_index N J (own i) j"
    "J < N \<Longrightarrow> i < length kvss \<Longrightarrow> mi_direction mi = kReverse \<Longrightarrow> own i J \<Longrightarrow> stands i J (mi_children mi ! i)"
    "J < N \<Longrightarrow> i < length kvss \<Longrightarrow> mi_direction mi = kReverse \<Longrightarrow> \<not> own i J \<Longrightarrow>
      \<exists>j. stands i j (mi_children mi ! i) \<and> last_index N J (own i) j"
  using assms unfolding mi_at_def by (auto split: if_splits)

text \<open>The states that the two directions end in.\<close>

lemma forward_at:
  assumes m: merged_lists and "mi_comparator mi = c" and "length (mi_children mi) = length kvss" and "J \<le> N"
    and "\<And>i. i < length kvss \<Longrightarrow> \<exists>j. stands i j (mi_children mi ! i) \<and> first_index N J (own i) j"
  shows "\<exists>mi'. FindSmallest mi = Some mi' \<and> mi_direction mi' = mi_direction mi \<and>
    merge_at J (mi'\<lparr>mi_direction := kForward\<rparr>)"
  using FindSmallest_at [OF assms] assms by (auto simp: mi_at_def)

lemma backward_at:
  assumes m: merged_lists and "mi_comparator mi = c" and "length (mi_children mi) = length kvss"
    and b: "b \<le> N" "J = (if b = 0 then N else b - 1)"
    and ch: "\<And>i. i < length kvss \<Longrightarrow> \<exists>j. stands i j (mi_children mi ! i) \<and> last_index N b (own i) j"
  shows "\<exists>mi'. FindLargest mi = Some mi' \<and> mi_direction mi' = mi_direction mi \<and>
    merge_at J (mi'\<lparr>mi_direction := kReverse\<rparr>)"
proof -
  have J: "last_index N b (\<lambda>_. True) J" using b by (auto simp: last_index_def)
  let ?mi = "mi\<lparr>mi_current := if J < N then owner kvss (kvs ! J) else None\<rparr>"
  have "FindLargest mi = Some ?mi" by (rule FindLargest_at [OF m assms(2,3) J ch])
  moreover have "\<exists>j. stands i j (mi_children mi ! i) \<and> (J < N \<longrightarrow> (if own i J then j = J else last_index N J (own i) j))"
    if i: "i < length kvss" for i
  proof -
    obtain j where j: "stands i j (mi_children mi ! i)" "last_index N b (own i) j" using ch [OF i] by blast
    have bJ: "b = Suc J" if "J < N" using b that by (cases "b = 0") auto
    have "J < N \<Longrightarrow> own i J \<Longrightarrow> j = J" using j(2) bJ by (auto simp: last_index_def less_Suc_eq)
    moreover have "last_index N J (own i) j" if "J < N" "\<not> own i J"
      by (rule last_index_cut [OF j(2)]) (use that bJ in \<open>auto simp: less_Suc_eq\<close>)
    ultimately show ?thesis using j(1) by auto
  qed
  moreover have "J \<le> N" using b by (cases "b = 0") auto
  ultimately show ?thesis using m assms(2,3) unfolding mi_at_def by auto
qed

lemma mi_Next_at:
  assumes a: "merge_at J mi" and J: "J < N"
  shows "\<exists>mi'. mi_Next ops mi = Some mi' \<and> merge_at (Suc J) mi'"
proof -
  note m = merge_atD(1) [OF a] and len = merge_atD(4) [OF a]
  obtain o' where o': "o' < length kvss" "own o' J" by (rule owner_exists [OF m J])
  have cur: "mi_current mi = Some o'" using merge_atD(6) [OF a J] o'(2) by simp
  have "\<exists>ws. (if mi_direction mi \<noteq> kForward
      then do { key \<leftarrow> mi_key mi;
                ws \<leftarrow> map_children (after_key ops (mi_comparator mi) key o') 0 (mi_children mi);
                Some (mi\<lparr>mi_children := ws, mi_direction := kForward\<rparr>) }
      else Some mi) = Some (mi\<lparr>mi_children := ws, mi_direction := kForward\<rparr>) \<and> length ws = length kvss \<and>
      (\<forall>i < length kvss. \<exists>j. stands i j (ws ! i) \<and> first_index N J (own i) j)"
  proof (cases "mi_direction mi")
    case kForward
    with merge_atD(8) [OF a J] len show ?thesis by (intro exI [of _ "mi_children mi"]) auto
  next
    case kReverse
    note here = merge_atD(9) [OF a J o'(1) kReverse o'(2)]
    have key: "mi_key mi = Some (fst (kvs ! J))"
      using stands_pair(2) [OF m o'(1) here J] cur by (simp add: mi_key_def)
    have "\<exists>w' k. after_key ops c (fst (kvs ! J)) o' i (mi_children mi ! i) = Some w' \<and> stands i k w' \<and>
        first_index N J (own i) k" if i: "i < length kvss" for i
    proof (cases "i = o'")
      case True
      then show ?thesis using here o'(2) J by (auto simp: after_key_def first_index_def)
    next
      case False
      obtain j where "stands i j (mi_children mi ! i)" using merge_atD(5) [OF a i] by blast
      from child_Seek_key [OF m i this J] obtain w' k where k: "iw_Seek ops (mi_children mi ! i) (fst (kvs ! J)) = Some w'"
        "stands i k w'" "first_index N J (own i) k" by blast
      show ?thesis
      proof (cases "k < N")
        case True
        have "k \<noteq> J" using False stands_pair(1) [OF m i k(2) True] o'(2) by auto
        obtain r where "Compare c (fst (kvs ! J)) (fst (kvs ! k)) = Some r" "r = 0 \<longleftrightarrow> J = k"
          by (rule merged_compare [OF m J True])
        with \<open>k \<noteq> J\<close> False k stands_valid [OF m i k(2)] stands_pair(2) [OF m i k(2) True] True
        show ?thesis by (auto simp: after_key_def)
      next
        case out: False
        with False k stands_valid [OF m i k(2)] show ?thesis by (auto simp: after_key_def)
      qed
    qed
    from each_child [where f = "after_key ops c (fst (kvs ! J)) o'" and R = "\<lambda>i. first_index N J (own i)", OF len this]
    obtain ws' where "map_children (after_key ops c (fst (kvs ! J)) o') 0 (mi_children mi) = Some ws'"
      "length ws' = length kvss" "\<And>i. i < length kvss \<Longrightarrow> \<exists>k. stands i k (ws' ! i) \<and> first_index N J (own i) k" by blast
    with kReverse key merge_atD(3) [OF a] show ?thesis by auto
  qed
  then obtain ws where ws: "(if mi_direction mi \<noteq> kForward
      then do { key \<leftarrow> mi_key mi;
                ws \<leftarrow> map_children (after_key ops (mi_comparator mi) key o') 0 (mi_children mi);
                Some (mi\<lparr>mi_children := ws, mi_direction := kForward\<rparr>) }
      else Some mi) = Some (mi\<lparr>mi_children := ws, mi_direction := kForward\<rparr>)" "length ws = length kvss"
    "\<And>i. i < length kvss \<Longrightarrow> \<exists>j. stands i j (ws ! i) \<and> first_index N J (own i) j" by blast
  obtain j where "stands o' j (ws ! o')" "first_index N J (own o') j" using ws(3) [OF o'(1)] by blast
  then have "stands o' J (ws ! o')" using first_index_here [of N J "own o'" j] J o'(2) by blast
  from child_Next [OF m o'(1) this J] obtain w k where k: "iw_Next ops (ws ! o') = Some w" "stands o' k w"
    "first_index N (Suc J) (own o') k" by blast
  let ?mi = "mi\<lparr>mi_direction := kForward, mi_children := ws[o' := w]\<rparr>"
  have step: "mi_Next ops mi = FindSmallest ?mi" unfolding mi_Next_def cur by (simp add: ws(1) k(1))
  have "\<exists>j. stands i j (ws[o' := w] ! i) \<and> first_index N (Suc J) (own i) j" if i: "i < length kvss" for i
  proof (cases "i = o'")
    case True
    with k ws(2) o'(1) show ?thesis by auto
  next
    case False
    then have "\<not> own i J" using o'(2) by simp
    moreover obtain j where "stands i j (ws ! i)" "first_index N J (own i) j" using ws(3) [OF i] by blast
    ultimately show ?thesis using False first_index_skip [of "own i", OF _ _ J] by auto
  qed
  with forward_at [OF m, of ?mi "Suc J"] merge_atD(3) [OF a] ws(2) J
  obtain mi' where "FindSmallest ?mi = Some mi'" "mi_direction mi' = kForward" "merge_at (Suc J) (mi'\<lparr>mi_direction := kForward\<rparr>)"
    by auto
  moreover from this have "mi'\<lparr>mi_direction := kForward\<rparr> = mi'" by simp
  ultimately show ?thesis using step by simp
qed

lemma mi_Prev_at:
  assumes a: "merge_at J mi" and J: "J < N"
  shows "\<exists>mi'. mi_Prev ops mi = Some mi' \<and> merge_at (if J = 0 then N else J - 1) mi'"
proof -
  note m = merge_atD(1) [OF a] and len = merge_atD(4) [OF a]
  obtain o' where o': "o' < length kvss" "own o' J" by (rule owner_exists [OF m J])
  have cur: "mi_current mi = Some o'" using merge_atD(6) [OF a J] o'(2) by simp
  have "\<exists>ws. (if mi_direction mi \<noteq> kReverse
      then do { key \<leftarrow> mi_key mi;
                ws \<leftarrow> map_children (before_key ops key o') 0 (mi_children mi);
                Some (mi\<lparr>mi_children := ws, mi_direction := kReverse\<rparr>) }
      else Some mi) = Some (mi\<lparr>mi_children := ws, mi_direction := kReverse\<rparr>) \<and> length ws = length kvss \<and>
      (\<forall>i < length kvss. \<exists>j. stands i j (ws ! i) \<and> (if i = o' then j = J else last_index N J (own i) j))"
  proof (cases "mi_direction mi")
    case kReverse
    with merge_atD(9,10) [OF a J] o'(2) len show ?thesis by (intro exI [of _ "mi_children mi"]) auto
  next
    case kForward
    obtain j where "stands o' j (mi_children mi ! o')" "first_index N J (own o') j"
      using merge_atD(8) [OF a J o'(1) kForward] by blast
    then have here: "stands o' J (mi_children mi ! o')" using first_index_here [of N J "own o'" j] J o'(2) by blast
    have key: "mi_key mi = Some (fst (kvs ! J))"
      using stands_pair(2) [OF m o'(1) here J] cur by (simp add: mi_key_def)
    have "\<exists>w' k. before_key ops (fst (kvs ! J)) o' i (mi_children mi ! i) = Some w' \<and> stands i k w' \<and>
        (if i = o' then k = J else last_index N J (own i) k)" if i: "i < length kvss" for i
    proof (cases "i = o'")
      case True
      then show ?thesis using here by (auto simp: before_key_def)
    next
      case False
      obtain j where "stands i j (mi_children mi ! i)" using merge_atD(5) [OF a i] by blast
      from child_Seek_key [OF m i this J] obtain w' k where k: "iw_Seek ops (mi_children mi ! i) (fst (kvs ! J)) = Some w'"
        "stands i k w'" "first_index N J (own i) k" by blast
      show ?thesis
      proof (cases "k < N")
        case True
        obtain w'' h where h: "iw_Prev ops w' = Some w''" "stands i h w''" "last_index N k (own i) h"
          using child_Prev [OF m i k(2) True] by blast
        have "last_index N J (own i) h"
          by (rule last_index_cut [OF h(3)]) (use k(3) in \<open>auto simp: first_index_def\<close>)
        with False k(1) stands_valid [OF m i k(2)] True h(1,2) show ?thesis by (auto simp: before_key_def)
      next
        case out: False
        obtain w'' h where h: "iw_SeekToLast ops w' = Some w''" "stands i h w''" "last_index N N (own i) h"
          using child_SeekToLast [OF m i k(2)] by blast
        have "k = N" using out stands_le [OF m i k(2)] by simp
        have "last_index N J (own i) h"
          by (rule last_index_cut [OF h(3)]) (use k(3) \<open>k = N\<close> in \<open>auto simp: first_index_def\<close>)
        with False k(1) stands_valid [OF m i k(2)] out h(1,2) show ?thesis by (auto simp: before_key_def)
      qed
    qed
    from each_child [where f = "before_key ops (fst (kvs ! J)) o'"
        and R = "\<lambda>i k. if i = o' then k = J else last_index N J (own i) k", OF len this]
    obtain ws' where "map_children (before_key ops (fst (kvs ! J)) o') 0 (mi_children mi) = Some ws'"
      "length ws' = length kvss" "\<And>i. i < length kvss \<Longrightarrow> \<exists>k. stands i k (ws' ! i) \<and>
        (if i = o' then k = J else last_index N J (own i) k)" by blast
    with kForward key show ?thesis by (intro exI [of _ ws'] conjI) (simp_all del: if_split)
  qed
  then obtain ws where ws: "(if mi_direction mi \<noteq> kReverse
      then do { key \<leftarrow> mi_key mi;
                ws \<leftarrow> map_children (before_key ops key o') 0 (mi_children mi);
                Some (mi\<lparr>mi_children := ws, mi_direction := kReverse\<rparr>) }
      else Some mi) = Some (mi\<lparr>mi_children := ws, mi_direction := kReverse\<rparr>)" "length ws = length kvss"
    "\<And>i. i < length kvss \<Longrightarrow> \<exists>j. stands i j (ws ! i) \<and> (if i = o' then j = J else last_index N J (own i) j)" by blast
  have "stands o' J (ws ! o')" using ws(3) [OF o'(1)] by auto
  from child_Prev [OF m o'(1) this J] obtain w k where k: "iw_Prev ops (ws ! o') = Some w" "stands o' k w"
    "last_index N J (own o') k" by blast
  let ?mi = "mi\<lparr>mi_direction := kReverse, mi_children := ws[o' := w]\<rparr>"
  have step: "mi_Prev ops mi = FindLargest ?mi" unfolding mi_Prev_def cur by (simp add: ws(1) k(1))
  have "\<exists>j. stands i j (ws[o' := w] ! i) \<and> last_index N J (own i) j" if i: "i < length kvss" for i
  proof (cases "i = o'")
    case True
    with k ws(2) o'(1) show ?thesis by auto
  next
    case False
    with ws(3) [OF i] show ?thesis by auto
  qed
  with backward_at [OF m, of ?mi J "if J = 0 then N else J - 1"] merge_atD(3) [OF a] ws(2) J
  obtain mi' where "FindLargest ?mi = Some mi'" "mi_direction mi' = kReverse"
    "merge_at (if J = 0 then N else J - 1) (mi'\<lparr>mi_direction := kReverse\<rparr>)" by auto
  moreover from this have "mi'\<lparr>mi_direction := kReverse\<rparr> = mi'" by simp
  ultimately show ?thesis using step by simp
qed

lemma all_forward:
  assumes m: merged_lists and "mi_comparator mi = c" and len: "length (mi_children mi) = length kvss" and J: "J \<le> N"
    and "\<And>i. i < length kvss \<Longrightarrow> \<exists>w' k. f i (mi_children mi ! i) = Some w' \<and> stands i k w' \<and> first_index N J (own i) k"
  shows "\<exists>mi'. do { ws \<leftarrow> map_children f 0 (mi_children mi); mi \<leftarrow> FindSmallest (mi\<lparr>mi_children := ws\<rparr>);
      Some (mi\<lparr>mi_direction := kForward\<rparr>) } = Some mi' \<and> merge_at J mi'"
proof -
  obtain ws where ws: "map_children f 0 (mi_children mi) = Some ws" "length ws = length kvss"
    "\<And>i. i < length kvss \<Longrightarrow> \<exists>k. stands i k (ws ! i) \<and> first_index N J (own i) k"
    using each_child [where f = f and R = "\<lambda>i. first_index N J (own i)", OF len assms(5)] by blast
  with forward_at [OF m, of "mi\<lparr>mi_children := ws\<rparr>" J] assms(2) J show ?thesis by auto
qed

lemma mi_SeekToFirst_at:
  assumes a: "merge_at J mi"
  shows "\<exists>mi'. mi_SeekToFirst ops mi = Some mi' \<and> merge_at 0 mi'"
  unfolding mi_SeekToFirst_def
proof (rule all_forward [OF merge_atD(1,3,4) [OF a]])
  fix i assume i: "i < length kvss"
  obtain j where "stands i j (mi_children mi ! i)" using merge_atD(5) [OF a i] by blast
  from child_SeekToFirst [OF merge_atD(1) [OF a] i this]
  show "\<exists>w' k. iw_SeekToFirst ops (mi_children mi ! i) = Some w' \<and> stands i k w' \<and> first_index N 0 (own i) k" .
qed simp

lemma mi_SeekToLast_at:
  assumes a: "merge_at J mi"
  shows "\<exists>mi'. mi_SeekToLast ops mi = Some mi' \<and> merge_at (N - 1) mi'"
proof -
  note m = merge_atD(1) [OF a] and len = merge_atD(4) [OF a]
  have "\<exists>w' k. iw_SeekToLast ops (mi_children mi ! i) = Some w' \<and> stands i k w' \<and> last_index N N (own i) k"
    if i: "i < length kvss" for i
  proof -
    obtain j where "stands i j (mi_children mi ! i)" using merge_atD(5) [OF a i] by blast
    from child_SeekToLast [OF m i this] show ?thesis .
  qed
  then obtain ws where ws: "map_children (\<lambda>i w. iw_SeekToLast ops w) 0 (mi_children mi) = Some ws" "length ws = length kvss"
    "\<And>i. i < length kvss \<Longrightarrow> \<exists>k. stands i k (ws ! i) \<and> last_index N N (own i) k"
    using each_child [where f = "\<lambda>i w. iw_SeekToLast ops w" and R = "\<lambda>i. last_index N N (own i)", OF len] by blast
  have "N - 1 = (if N = 0 then N else N - 1)" by simp
  from backward_at [OF m _ _ order_refl this, of "mi\<lparr>mi_children := ws\<rparr>"] ws(2,3) merge_atD(3) [OF a]
  obtain mi' where "FindLargest (mi\<lparr>mi_children := ws\<rparr>) = Some mi'" "merge_at (N - 1) (mi'\<lparr>mi_direction := kReverse\<rparr>)"
    by auto
  with ws(1) show ?thesis by (simp add: mi_SeekToLast_def)
qed

lemma mi_Seek_at:
  assumes a: "merge_at J mi" and t: "t \<in> valid"
  shows "\<exists>mi' K. mi_Seek ops mi t = Some mi' \<and> merge_at K mi' \<and>
    (\<forall>h < K. before c (fst (kvs ! h)) t) \<and> (K < N \<longrightarrow> \<not> before c (fst (kvs ! K)) t)"
proof -
  note m = merge_atD(1) [OF a]
  obtain K where K: "first_index N 0 (\<lambda>k. \<not> lt (fst (kvs ! k)) t) K" using first_index_exists [of 0 N] by blast
  note k = K [unfolded first_index_def]
  have less: "lt (fst (kvs ! h)) t \<longleftrightarrow> h < K" if h: "h < N" for h
  proof (cases "h < K")
    case True
    with k show ?thesis by blast
  next
    case False
    then have K: "K < N" "\<not> lt (fst (kvs ! K)) t" using h k by auto
    have v: "fst (kvs ! h) \<in> valid" "fst (kvs ! K) \<in> valid" using sorted_pairsD(1) [OF merged_sorted [OF m]] h K by auto
    have "le (fst (kvs ! K)) (fst (kvs ! h))"
    proof (cases "K = h")
      case False
      with \<open>\<not> h < K\<close> have "K < h" by simp
      with sorted_pairsD(2) [OF merged_sorted [OF m], of K h] h have "lt (fst (kvs ! K)) (fst (kvs ! h))" by (simp add: lt_def)
      then show ?thesis by (rule lt_imp_le)
    qed (use v in simp)
    with le_lt_trans [of "fst (kvs ! K)" "fst (kvs ! h)" t] v t K(2) False show ?thesis by blast
  qed
  have "\<exists>mi'. mi_Seek ops mi t = Some mi' \<and> merge_at K mi'"
    unfolding mi_Seek_def
  proof (rule all_forward [OF merge_atD(1,3,4) [OF a]])
    show "K \<le> N" using k by simp
    fix i assume i: "i < length kvss"
    obtain j where "stands i j (mi_children mi ! i)" using merge_atD(5) [OF a i] by blast
    from child_Seek [OF m i this t] obtain w' u where u: "iw_Seek ops (mi_children mi ! i) t = Some w'" "stands i u w'"
      "first_index N 0 (\<lambda>k. own i k \<and> \<not> lt (fst (kvs ! k)) t) u" by blast
    note f = u(3) [unfolded first_index_def]
    have "K \<le> u"
    proof (rule ccontr)
      assume "\<not> K \<le> u"
      with f less [of u] k show False by auto
    qed
    moreover have "\<not> own i h" if "K \<le> h" "h < u" for h using f that less [of h] by auto
    ultimately have "first_index N K (own i) u" using f by (simp add: first_index_def)
    with u(1,2) show "\<exists>w' k. iw_Seek ops (mi_children mi ! i) t = Some w' \<and> stands i k w' \<and> first_index N K (own i) k"
      by blast
  qed
  with k show ?thesis unfolding lt_def by blast
qed

lemma mi_status_at:
  assumes a: "merge_at J mi"
  shows "mi_status ops mi = Some OK"
proof -
  have ok: "iw_status ops (mi_children mi ! i) = Some OK" if i: "i < length kvss" for i
  proof -
    obtain j where "stands i j (mi_children mi ! i)" using merge_atD(5) [OF a i] by blast
    then obtain it v where "iw_iter (mi_children mi ! i) = Some it" "at i v it" by (auto simp: child_at_def)
    with each_status [OF i, of v it] show ?thesis by (simp add: iw_status_def status_ok_def OK_def)
  qed
  have "mi_status_loop ops OK ws = Some OK" if "\<forall>w \<in> set ws. iw_status ops w = Some OK" for ws
    using that by (induction ws) simp_all
  moreover have "\<forall>w \<in> set (mi_children mi). iw_status ops w = Some OK"
    using ok merge_atD(4) [OF a] by (auto simp: in_set_conv_nth)
  ultimately show ?thesis by (simp add: mi_status_def)
qed

text \<open>The constructor gives an iterator at no entry.\<close>

lemma MergingIterator_at:
  assumes m: merged_lists and len: "length its = length kvss"
    and its: "\<And>i. i < length kvss \<Longrightarrow> \<exists>v. at i v (its ! i)"
  shows "\<exists>mi. MergingIterator ops c its = Some mi \<and> merge_at N mi"
proof -
  have "\<exists>w' k. iw_Set ops (replicate (length its) IteratorWrapper ! i) (Some (its ! i)) = Some w' \<and> stands i k w' \<and> True"
    if i: "i < length kvss" for i
  proof -
    obtain v where "at i v (its ! i)" using its [OF i] ..
    from iw_Update_at [OF m i this, of IteratorWrapper] i len show ?thesis by (auto simp: iw_Set_def Let_def)
  qed
  then obtain ws where "map_children (\<lambda>i w. iw_Set ops w (Some (its ! i))) 0 (replicate (length its) IteratorWrapper) = Some ws"
    "length ws = length kvss" "\<And>i. i < length kvss \<Longrightarrow> \<exists>k. stands i k (ws ! i)"
    using each_child [where f = "\<lambda>i w. iw_Set ops w (Some (its ! i))" and R = "\<lambda>_ _. True"
        and ws = "replicate (length its) IteratorWrapper"] len by auto
  with m show ?thesis by (auto simp: MergingIterator_def mi_at_def)
qed

lemma mi_pair_at:
  assumes a: "merge_at J mi" and J: "J < N"
  shows "mi_key mi = Some (fst (kvs ! J)) \<and> mi_value ops mi = Some (snd (kvs ! J))"
proof -
  note m = merge_atD(1) [OF a]
  obtain o' where o': "o' < length kvss" "own o' J" by (rule owner_exists [OF m J])
  have "stands o' J (mi_children mi ! o')"
  proof (cases "mi_direction mi")
    case kForward
    obtain j where "stands o' j (mi_children mi ! o')" "first_index N J (own o') j"
      using merge_atD(8) [OF a J o'(1) kForward] by blast
    then show ?thesis using first_index_here [of N J "own o'" j] J o'(2) by blast
  next
    case kReverse
    then show ?thesis using merge_atD(9) [OF a J o'(1) _ o'(2)] by blast
  qed
  from stands_pair(2,3) [OF m o'(1) this J] merge_atD(6) [OF a J] o'(2) show ?thesis
    by (simp add: mi_key_def mi_value_def)
qed

end

sublocale merge \<subseteq> merged: cursor "merging_iterator_ops ops" c valid kvs "mi_at ops c valid at kvss kvs"
proof
  fix J mi
  assume a: "merge_at J mi"
  show "sorted_pairs c valid kvs" by (rule merged_sorted [OF merge_atD(1) [OF a]])
  show "J \<le> length kvs" by (rule merge_atD(2) [OF a])
  show "op_Valid (merging_iterator_ops ops) mi \<longleftrightarrow> J < length kvs"
  proof (cases "J < length kvs")
    case True
    obtain i where "owned kvss kvs i J" by (rule owner_exists [OF merge_atD(1) [OF a] True])
    with merge_atD(6) [OF a True] True show ?thesis by (simp add: merging_iterator_ops_def mi_Valid_def)
  next
    case False
    with merge_atD(7) [OF a False] show ?thesis by (simp add: merging_iterator_ops_def mi_Valid_def)
  qed
  show "status_ok (op_status (merging_iterator_ops ops) mi)"
    by (simp add: merging_iterator_ops_def mi_status_at [OF a])
  show "\<exists>mi'. op_SeekToFirst (merging_iterator_ops ops) mi = Some mi' \<and> merge_at 0 mi'"
    using mi_SeekToFirst_at [OF a] by (simp add: merging_iterator_ops_def)
  show "\<exists>mi'. op_SeekToLast (merging_iterator_ops ops) mi = Some mi' \<and> merge_at (length kvs - 1) mi'"
    using mi_SeekToLast_at [OF a] by (simp add: merging_iterator_ops_def)
  show "\<exists>mi' i. op_Seek (merging_iterator_ops ops) mi t = Some mi' \<and> merge_at i mi' \<and>
      (\<forall>h < i. before c (fst (kvs ! h)) t) \<and> (i < length kvs \<longrightarrow> \<not> before c (fst (kvs ! i)) t)"
    if "t \<in> valid" for t
    using mi_Seek_at [OF a that] by (simp add: merging_iterator_ops_def)
  assume J: "J < length kvs"
  show "op_key (merging_iterator_ops ops) mi = Some (fst (kvs ! J)) \<and>
      op_value (merging_iterator_ops ops) mi = Some (snd (kvs ! J))"
    using mi_pair_at [OF a J] by (simp add: merging_iterator_ops_def)
  show "\<exists>mi'. op_Next (merging_iterator_ops ops) mi = Some mi' \<and> merge_at (Suc J) mi'"
    using mi_Next_at [OF a J] by (simp add: merging_iterator_ops_def)
  show "\<exists>mi'. op_Prev (merging_iterator_ops ops) mi = Some mi' \<and> merge_at (if J = 0 then length kvs else J - 1) mi'"
    using mi_Prev_at [OF a J] by (simp add: merging_iterator_ops_def)
qed

text \<open>Merged blocks, under the comparator of the database.\<close>

interpretation merged_blocks: merge "InternalKeyComparator BytewiseComparator" "ikeys UNIV" block_iterator_ops kvss
    "\<lambda>i. block_at r (InternalKeyComparator BytewiseComparator) (ikeys UNIV) (kvss ! i)" kvs
  for r kvss kvs
proof (intro merge.intro merge_axioms.intro)
  show "weak_order (Compare (InternalKeyComparator BytewiseComparator)) (ikeys UNIV)"
    unfolding ikeys_UNIV by (rule internal.weak_order_axioms)
  show "cursor block_iterator_ops (InternalKeyComparator BytewiseComparator) (ikeys UNIV) (kvss ! i)
      (block_at r (InternalKeyComparator BytewiseComparator) (ikeys UNIV) (kvss ! i))" for i
    by (rule block_cursor.cursor_axioms)
qed

end
