(* ===== verification/Ldb_DbProperties.thy ===== *)
theory Ldb_DbProperties
  imports Ldb_Filename Ldb_DbIterSpec Ldb_MergerSpec
begin

text \<open>
  The properties of file names, of the file CURRENT, and of the iterators from the blocks up to
  the database.
\<close>

section \<open>Files\<close>

definition parsed_back :: "byte list \<Rightarrow> byte list option \<Rightarrow> u64 \<Rightarrow> FileType \<Rightarrow> bool" where
  "parsed_back dbname name number type \<longleftrightarrow>
     (\<exists>b. name = Some (dbname @ bytes_of ''/'' @ b) \<and> ParseFileName b = Some (number, type))"

lemma parsed_back_suffix:
  assumes "suffix \<in> {''log'', ''sst'', ''ldb'', ''dbtmp''}"
  shows "parsed_back dbname (Some (MakeFileName dbname number suffix)) number
    (if suffix = ''log'' then kLogFile else if suffix = ''dbtmp'' then kTempFile else kTableFile)"
proof -
  have "ParseFileName (pad6 (unat number) @ bytes_of (CHR ''.'' # suffix)) =
      Some (number, if suffix = ''log'' then kLogFile else if suffix = ''dbtmp'' then kTempFile else kTableFile)"
    using parse_numbered_pad6 [of "CHR ''.'' # suffix" number] assms by (simp only: ParseFileName_pad6) auto
  then show ?thesis by (auto simp: parsed_back_def MakeFileName_def)
qed

lemma parsed_back_manifest: "0 < number \<Longrightarrow> parsed_back dbname (DescriptorFileName dbname number) number kDescriptorFile"
  using manifest_contents ParseFileName_manifest parse_manifest_pad6 unfolding parsed_back_def by metis

text \<open>
  C31. File names are parsed back: the name of a log, table, manifest or temporary file with any
  number but 0 is the directory, a slash and a base name that \<open>ParseFileName\<close> recognises with
  that number and type (both suffixes of tables), whatever the number of digits; and the fixed
  names of a database are recognised too.
\<close>

theorem file_names_parsed:
  assumes "number \<noteq> 0"
  shows "parsed_back dbname (LogFileName dbname number) number kLogFile \<and>
    parsed_back dbname (TableFileName dbname number) number kTableFile \<and>
    parsed_back dbname (SSTTableFileName dbname number) number kTableFile \<and>
    parsed_back dbname (TempFileName dbname number) number kTempFile \<and>
    parsed_back dbname (DescriptorFileName dbname number) number kDescriptorFile \<and>
    parsed_back dbname (Some (CurrentFileName dbname)) 0 kCurrentFile \<and>
    parsed_back dbname (Some (LockFileName dbname)) 0 kDBLockFile \<and>
    parsed_back dbname (Some (InfoLogFileName dbname)) 0 kInfoLogFile \<and>
    parsed_back dbname (Some (OldInfoLogFileName dbname)) 0 kInfoLogFile"
proof (intro conjI)
  have pos: "0 < number" using assms by (simp add: word_gt_0)
  note named = LogFileName_def TableFileName_def SSTTableFileName_def TempFileName_def
  show "parsed_back dbname (LogFileName dbname number) number kLogFile"
    "parsed_back dbname (TableFileName dbname number) number kTableFile"
    "parsed_back dbname (SSTTableFileName dbname number) number kTableFile"
    "parsed_back dbname (TempFileName dbname number) number kTempFile"
    using pos parsed_back_suffix [of "''log''"] parsed_back_suffix [of "''ldb''"]
      parsed_back_suffix [of "''sst''"] parsed_back_suffix [of "''dbtmp''"] by (simp_all add: named)
  show "parsed_back dbname (DescriptorFileName dbname number) number kDescriptorFile"
    by (rule parsed_back_manifest [OF pos])
qed (simp_all add: CurrentFileName_def LockFileName_def InfoLogFileName_def OldInfoLogFileName_def
    ParseFileName_def parsed_back_def)

theorem file_names_parsed_witness:
  "LogFileName [100] 1234567 = Some (bytes_of ''d/1234567.log'') \<and> ParseFileName (bytes_of ''1234567.log'') = Some (1234567, kLogFile)"
  using file_names_parsed [of 1234567 "[100]"]
  by (auto simp: parsed_back_def LogFileName_def MakeFileName_def pad6_def decimal.simps)






section \<open>Iterators over several blocks\<close>

text \<open>The iterators over the blocks that hold the lists \<open>kvss\<close>, each after its constructor.\<close>

definition block_iterators :: "nat \<Rightarrow> comparator \<Rightarrow> (slice \<times> slice) list list \<Rightarrow> block_iterator list option" where
  "block_iterators r c kvss =
     those (map (\<lambda>kvs. do { b \<leftarrow> Block (block_bytes r kvs); blk_NewIterator b c }) kvss)"

lemma those_map_nth:
  assumes "\<And>i. i < length xs \<Longrightarrow> \<exists>y. f (xs ! i) = Some y \<and> R i y"
  shows "\<exists>ys. those (map f xs) = Some ys \<and> length ys = length xs \<and> (\<forall>i < length xs. R i (ys ! i))"
  using assms
proof (induction xs arbitrary: R)
  case (Cons x xs)
  obtain y where y: "f x = Some y" "R 0 y" using Cons.prems [of 0] by auto
  have "\<exists>y. f (xs ! i) = Some y \<and> R (Suc i) y" if "i < length xs" for i using Cons.prems [of "Suc i"] that by simp
  from Cons.IH [of "\<lambda>i. R (Suc i)", OF this]
  obtain ys where ys: "those (map f xs) = Some ys" "length ys = length xs" "\<forall>i < length xs. R (Suc i) (ys ! i)" by blast
  have "R i ((y # ys) ! i)" if "i < Suc (length xs)" for i using that y(2) ys(3) by (cases i) simp_all
  with y(1) ys(1,2) show ?case by (intro exI [of _ "y # ys"]) simp
qed simp

lemma block_iterators_at:
  assumes "merge_of c valid kvss kvs" and "weak_order (Compare c) valid" and "\<forall>l \<in> set kvss. block_fits r l"
  shows "\<exists>its. block_iterators r c kvss = Some its \<and> length its = length kvss \<and>
    (\<forall>i < length kvss. \<exists>v. block_at r c valid (kvss ! i) v (its ! i))"
  unfolding block_iterators_def
proof (rule those_map_nth)
  fix i assume "i < length kvss"
  then have "block_fits r (kvss ! i)" "sorted_pairs c valid (kvss ! i)"
    using assms by (auto simp: merge_of_def)
  from NewIterator_block_at [OF this(1) assms(2) this(2)]
  show "\<exists>it. do { b \<leftarrow> Block (block_bytes r (kvss ! i)); blk_NewIterator b c } = Some it \<and>
      (\<exists>v. block_at r c valid (kvss ! i) v it)" by auto
qed

abbreviation db_comparator :: comparator where "db_comparator \<equiv> InternalKeyComparator BytewiseComparator"

abbreviation merged_at ::
  "nat \<Rightarrow> (slice \<times> slice) list list \<Rightarrow> (slice \<times> slice) list \<Rightarrow> nat \<Rightarrow> block_iterator merging_iterator \<Rightarrow> bool" where
  "merged_at r kvss kvs \<equiv> mi_at block_iterator_ops db_comparator (ikeys UNIV)
     (\<lambda>i. block_at r db_comparator (ikeys UNIV) (kvss ! i)) kvss kvs"

lemma NewMergingIterator_blocks:
  assumes m: "merge_of db_comparator (ikeys UNIV) kvss kvs" and "2 \<le> length kvss" and "\<forall>l \<in> set kvss. block_fits r l"
  shows "\<exists>its mi. block_iterators r db_comparator kvss = Some its \<and>
    NewMergingIterator block_iterator_ops db_comparator its = Some (ManyChildren mi) \<and>
    merged_at r kvss kvs (length kvs) mi"
proof -
  have "weak_order (Compare db_comparator) (ikeys UNIV)" unfolding ikeys_UNIV by (rule internal.weak_order_axioms)
  with block_iterators_at [OF m _ assms(3)] obtain its where its: "block_iterators r db_comparator kvss = Some its"
    "length its = length kvss" "\<forall>i < length kvss. \<exists>v. block_at r db_comparator (ikeys UNIV) (kvss ! i) v (its ! i)" by blast
  obtain mi where "MergingIterator block_iterator_ops db_comparator its = Some mi" "merged_at r kvss kvs (length kvs) mi"
    using merged_blocks.MergingIterator_at [where r = r and kvss = kvss and its = its, OF m its(2)] its(3) by blast
  with its assms(2) show ?thesis by (auto simp: NewMergingIterator_def)
qed

interpretation db_merged: snapshot BytewiseComparator UNIV "merging_iterator_ops block_iterator_ops" kvs
    "merged_at r kvss kvs" s for r kvss kvs s
  by (rule snapshot.intro) unfold_locales

text \<open>
  Two blocks: user key \<open>a\<close> was written with sequence number 1 and deleted with 3, \<open>b\<close> was
  written with 2.
\<close>

definition tagged_key :: "slice \<Rightarrow> u64 \<Rightarrow> slice" where
  "tagged_key u n = u @ EncodeFixed64 n"

definition sample_blocks :: "(slice \<times> slice) list list" where
  "sample_blocks = [[(tagged_key [97] 768, []), (tagged_key [97] 257, [1])], [(tagged_key [98] 513, [2])]]"

lemma parsed_internal: "parsed_key (tagged_key u n) =
    (if (ucast (n AND 0xff) :: byte) \<le> kTypeValue
     then Some \<lparr>pk_user_key = u, pk_sequence = drop_bit 8 n, pk_type = ucast (n AND 0xff)\<rparr> else None)"
  by (simp add: parsed_key_def tagged_key_def ParseInternalKey_def Let_def)

lemma internal_before: "before db_comparator (tagged_key u m) (tagged_key v n) \<longleftrightarrow>
    slice_compare u v < 0 \<or> slice_compare u v = 0 \<and> m > n"
  by (auto simp: tagged_key_def InternalKeyComparator_def BytewiseComparator_Compare)

lemma internal_user: "fst (kvs ! k) = tagged_key u n \<Longrightarrow> entry_user kvs k = u"
  by (simp add: entry_user_def tagged_key_def Let_def)

lemma internal_valid: "tagged_key u n \<in> ikeys UNIV"
  by (simp add: tagged_key_def)

lemma internal_type_values:
  "(ucast (768 AND 255 :: u64) :: byte) = 0" "(ucast (257 AND 255 :: u64) :: byte) = 1" "(ucast (513 AND 255 :: u64) :: byte) = 1"
  "drop_bit 8 (768 :: u64) = 3" "drop_bit 8 (257 :: u64) = 1" "drop_bit 8 (513 :: u64) = 2"
  by (simp_all add: drop_bit_eq_div)

lemma sample_merge: "merge_of db_comparator (ikeys UNIV) sample_blocks (concat sample_blocks)"
  by (simp add: merge_of_def sample_blocks_def sorted_pairs_def internal_valid internal_before slice_compare_def Let_def)

lemma sample_fits: "\<forall>l \<in> set sample_blocks. block_fits 1 l"
  by (simp add: sample_blocks_def tagged_key_def block_fits_def block_bytes_def entries_def entry_def entry_header_def
      entry_shared_def restarts_of_def groups_def upt_rec EncodeVarint32_def Let_def)

lemma sample_parsed: "all_parsed (concat sample_blocks)"
  by (simp add: sample_blocks_def all_parsed_def parsed_internal kTypeValue_def internal_type_values)

lemma sample_view: "snapshot_view 2 (concat sample_blocks) = [([97], [1]), ([98], [2])]"
proof -
  let ?kvs = "[(tagged_key [97] 768, []), (tagged_key [97] 257, [1]), (tagged_key [98] 513, [2])]"
  have u: "entry_user ?kvs 0 = [97]" "entry_user ?kvs (Suc 0) = [97]" "entry_user ?kvs (Suc (Suc 0)) = [98]"
    by (simp_all add: internal_user)
  have v: "\<not> entry_visible 2 ?kvs 0" "entry_visible 2 ?kvs (Suc 0)" "entry_visible 2 ?kvs (Suc (Suc 0))"
    "entry_is_value ?kvs (Suc 0)" "entry_is_value ?kvs (Suc (Suc 0))"
    by (simp_all add: entry_visible_def entry_is_value_def parsed_internal kTypeValue_def internal_type_values)
  show ?thesis by (simp add: sample_blocks_def snapshot_view_def shown_indexes_def selected_def entry_shown_def u v)
qed



text \<open>
  C34. The iterator of a database shows a snapshot: over the merge of two or more sorted blocks
  of internal keys, every sequence of calls on the iterator of sequence number \<open>s\<close> stands where
  an index into \<open>snapshot_view s\<close> would: the entries of the newest version at most \<open>s\<close> of each
  user key, without the deleted ones.  Hidden versions, deletions and newer writes are never
  seen, no live key is skipped, in both directions.
\<close>

theorem db_iterator_shows_snapshot:
  assumes "merge_of db_comparator (ikeys UNIV) kvss kvs" and "2 \<le> length kvss" and "\<forall>l \<in> set kvss. block_fits r l"
    and "all_parsed kvs" and "s \<le> kMaxSequenceNumber"
  shows "\<exists>its mi d. block_iterators r db_comparator kvss = Some its \<and>
    NewMergingIterator block_iterator_ops db_comparator its = Some (ManyChildren mi) \<and>
    iterator_steps (db_iterator_ops (merging_iterator_ops block_iterator_ops) BytewiseComparator) calls
      (NewDBIterator mi s seed) = Some d \<and>
    shows_pair (db_iterator_ops (merging_iterator_ops block_iterator_ops) BytewiseComparator) (snapshot_view s kvs)
      (list_steps BytewiseComparator (snapshot_view s kvs) calls (length (snapshot_view s kvs))) d"
proof -
  obtain its mi where m: "block_iterators r db_comparator kvss = Some its"
    "NewMergingIterator block_iterator_ops db_comparator its = Some (ManyChildren mi)" "merged_at r kvss kvs (length kvs) mi"
    using NewMergingIterator_blocks [OF assms(1-3)] by blast
  from db_merged.view.calls_show [OF NewDBIterator_at [where at = "merged_at r kvss kvs", OF assms(5,4) m(3)], of calls]
  show ?thesis using m(1,2) by blast
qed

theorem db_iterator_shows_snapshot_witness:
  "\<exists>d. op_Valid (db_iterator_ops (merging_iterator_ops block_iterator_ops) BytewiseComparator) d \<and>
    op_key (db_iterator_ops (merging_iterator_ops block_iterator_ops) BytewiseComparator) d = Some [98] \<and>
    op_value (db_iterator_ops (merging_iterator_ops block_iterator_ops) BytewiseComparator) d = Some [2]"
proof -
  have "(2 :: u64) \<le> kMaxSequenceNumber" by (simp add: kMaxSequenceNumber_def)
  from db_iterator_shows_snapshot [OF sample_merge _ sample_fits sample_parsed this, of "[CallSeekToFirst, CallNext]" 0]
  show ?thesis unfolding sample_view by (fastforce simp: sample_blocks_def shows_pair_def)
qed

end
