(* ===== verification/Ldb_Version.thy ===== *)
theory Ldb_Version
  imports Ldb_Iterator Ldb_VersionEdit
begin

text \<open>
  Versions, the first part of db/version_set.cc: the files of the seven levels, the searches in
  a level, the lookup of a key and the choice of the files that overlap a range.

  A \<open>FileMetaData*\<close> is the record; \<open>allowed_seeks\<close> is the only member that changes while the file
  is in use, and \<open>UpdateStats\<close> changes it in the version.  A pointer to a key that may be null is
  an option, null being None.  An \<open>int64_t\<close> sum of sizes is a 64-bit word read as a signed
  number.  Reference counts, the list of versions and the compaction score, which is a floating
  point number, are not modelled.  None is a failed assertion, a key that cannot be compared, an
  index outside a vector, or a product that overflows an \<open>int\<close>.
\<close>

definition kMaxMemCompactLevel :: nat where "kMaxMemCompactLevel = 2"

definition nth_opt :: "'a list \<Rightarrow> nat \<Rightarrow> 'a option" where
  "nth_opt xs i = (if i < length xs then Some (xs ! i) else None)"

lemma nth_opt_Some [simp]: "i < length xs \<Longrightarrow> nth_opt xs i = Some (xs ! i)"
  by (simp add: nth_opt_def)

record version =
  v_files :: "FileMetaData list list"
  v_file_to_compact :: "FileMetaData option"
  v_file_to_compact_level :: int

definition Version :: version where
  "Version = \<lparr>v_files = replicate kNumLevels [], v_file_to_compact = None, v_file_to_compact_level = - 1\<rparr>"


section \<open>Sizes\<close>

text \<open>\<open>TargetFileSize\<close> converts a \<open>size_t\<close> to an \<open>int\<close>; the products are computed as \<open>int\<close>.\<close>

definition TargetFileSize :: "u64 \<Rightarrow> int" where
  "TargetFileSize max_file_size = sint (ucast max_file_size :: u32)"

definition int_product :: "int \<Rightarrow> int \<Rightarrow> int option" where
  "int_product a b = (if - (2 ^ 31) \<le> a * b \<and> a * b < 2 ^ 31 then Some (a * b) else None)"

definition MaxGrandParentOverlapBytes :: "u64 \<Rightarrow> int option" where
  "MaxGrandParentOverlapBytes max_file_size = int_product 10 (TargetFileSize max_file_size)"

definition ExpandedCompactionByteSizeLimit :: "u64 \<Rightarrow> int option" where
  "ExpandedCompactionByteSizeLimit max_file_size = int_product 25 (TargetFileSize max_file_size)"

definition MaxFileSizeForLevel :: "u64 \<Rightarrow> u64" where
  "MaxFileSizeForLevel max_file_size = of_int (TargetFileSize max_file_size)"

definition TotalFileSize :: "FileMetaData list \<Rightarrow> u64" where
  "TotalFileSize files = foldl (\<lambda>sum f. sum + fm_file_size f) 0 files"


section \<open>Searching a level\<close>

partial_function (option) find_file_loop ::
    "comparator \<Rightarrow> FileMetaData list \<Rightarrow> slice \<Rightarrow> u32 \<Rightarrow> u32 \<Rightarrow> u32 option" where
  "find_file_loop icmp files key left right =
     (if left < right
      then do { let mid = (left + right) div 2;
                f \<leftarrow> nth_opt files (unat mid);
                l \<leftarrow> InternalKey_Encode (fm_largest f);
                r \<leftarrow> Compare icmp l key;
                if r < 0 then find_file_loop icmp files key (mid + 1) right
                else find_file_loop icmp files key left mid }
      else Some right)"

definition FindFile :: "comparator \<Rightarrow> FileMetaData list \<Rightarrow> slice \<Rightarrow> u32 option" where
  "FindFile icmp files key = find_file_loop icmp files key 0 (of_nat (length files))"

definition AfterFile :: "comparator \<Rightarrow> slice option \<Rightarrow> FileMetaData \<Rightarrow> bool option" where
  "AfterFile ucmp user_key f =
     (case user_key of
        None \<Rightarrow> Some False
      | Some k \<Rightarrow> do { l \<leftarrow> ExtractUserKey (fm_largest f); r \<leftarrow> Compare ucmp k l; Some (r > 0) })"

definition BeforeFile :: "comparator \<Rightarrow> slice option \<Rightarrow> FileMetaData \<Rightarrow> bool option" where
  "BeforeFile ucmp user_key f =
     (case user_key of
        None \<Rightarrow> Some False
      | Some k \<Rightarrow> do { s \<leftarrow> ExtractUserKey (fm_smallest f); r \<leftarrow> Compare ucmp k s; Some (r < 0) })"

fun some_file_loop :: "comparator \<Rightarrow> slice option \<Rightarrow> slice option \<Rightarrow> FileMetaData list \<Rightarrow> bool option" where
  "some_file_loop ucmp smallest_user_key largest_user_key [] = Some False"
| "some_file_loop ucmp smallest_user_key largest_user_key (f # files) =
     do { after \<leftarrow> AfterFile ucmp smallest_user_key f;
          no_overlap \<leftarrow> (if after then Some True else BeforeFile ucmp largest_user_key f);
          if no_overlap then some_file_loop ucmp smallest_user_key largest_user_key files
          else Some True }"

definition SomeFileOverlapsRange ::
    "comparator \<Rightarrow> bool \<Rightarrow> FileMetaData list \<Rightarrow> slice option \<Rightarrow> slice option \<Rightarrow> bool option" where
  "SomeFileOverlapsRange ucmp disjoint_sorted_files files smallest_user_key largest_user_key =
     (if \<not> disjoint_sorted_files then some_file_loop ucmp smallest_user_key largest_user_key files
      else do { index \<leftarrow> (case smallest_user_key of
                    None \<Rightarrow> Some 0
                  | Some k \<Rightarrow> do { small \<leftarrow> InternalKey_Encode (InternalKey k kMaxSequenceNumber kValueTypeForSeek);
                                    FindFile (InternalKeyComparator ucmp) files small });
                if unat index \<ge> length files then Some False
                else map_option Not (BeforeFile ucmp largest_user_key (files ! unat index)) })"


section \<open>The iterator over the files of a level\<close>

record file_num_iterator =
  fi_icmp :: comparator
  fi_flist :: "FileMetaData list"
  fi_index :: u32

definition LevelFileNumIterator :: "comparator \<Rightarrow> FileMetaData list \<Rightarrow> file_num_iterator" where
  "LevelFileNumIterator icmp flist = \<lparr>fi_icmp = icmp, fi_flist = flist, fi_index = of_nat (length flist)\<rparr>"

definition fi_Valid :: "file_num_iterator \<Rightarrow> bool" where
  "fi_Valid it \<longleftrightarrow> unat (fi_index it) < length (fi_flist it)"

definition fi_Seek :: "file_num_iterator \<Rightarrow> slice \<Rightarrow> file_num_iterator option" where
  "fi_Seek it target =
     map_option (\<lambda>i. it\<lparr>fi_index := i\<rparr>) (FindFile (fi_icmp it) (fi_flist it) target)"

definition fi_SeekToFirst :: "file_num_iterator \<Rightarrow> file_num_iterator option" where
  "fi_SeekToFirst it = Some (it\<lparr>fi_index := 0\<rparr>)"

definition fi_SeekToLast :: "file_num_iterator \<Rightarrow> file_num_iterator option" where
  "fi_SeekToLast it =
     Some (it\<lparr>fi_index := if fi_flist it = [] then 0 else of_nat (length (fi_flist it) - 1)\<rparr>)"

definition fi_Next :: "file_num_iterator \<Rightarrow> file_num_iterator option" where
  "fi_Next it = (if fi_Valid it then Some (it\<lparr>fi_index := fi_index it + 1\<rparr>) else None)"

definition fi_Prev :: "file_num_iterator \<Rightarrow> file_num_iterator option" where
  "fi_Prev it =
     (if \<not> fi_Valid it then None
      else if fi_index it = 0 then Some (it\<lparr>fi_index := of_nat (length (fi_flist it))\<rparr>)
      else Some (it\<lparr>fi_index := fi_index it - 1\<rparr>))"

definition fi_key :: "file_num_iterator \<Rightarrow> slice option" where
  "fi_key it = (if fi_Valid it then InternalKey_Encode (fm_largest (fi_flist it ! unat (fi_index it))) else None)"

definition fi_value :: "file_num_iterator \<Rightarrow> slice option" where
  "fi_value it =
     (if fi_Valid it
      then let f = fi_flist it ! unat (fi_index it)
           in Some (EncodeFixed64 (fm_number f) @ EncodeFixed64 (fm_file_size f))
      else None)"

definition file_num_iterator_ops :: "file_num_iterator iterator_ops" where
  "file_num_iterator_ops =
     \<lparr>op_Valid = fi_Valid, op_SeekToFirst = fi_SeekToFirst, op_SeekToLast = fi_SeekToLast,
      op_Seek = fi_Seek, op_Next = fi_Next, op_Prev = fi_Prev, op_key = fi_key, op_value = fi_value,
      op_status = (\<lambda>it. OK)\<rparr>"


section \<open>The files that may hold a key\<close>

definition NewestFirst :: "FileMetaData \<Rightarrow> FileMetaData \<Rightarrow> bool" where
  "NewestFirst a b \<longleftrightarrow> fm_number a > fm_number b"

text \<open>
  \<open>std::sort\<close> with \<open>NewestFirst\<close>; the numbers of the files of a level differ, so there is only one
  result.
\<close>

fun insert_newest :: "FileMetaData \<Rightarrow> FileMetaData list \<Rightarrow> FileMetaData list" where
  "insert_newest f [] = [f]"
| "insert_newest f (g # gs) = (if NewestFirst g f then g # insert_newest f gs else f # g # gs)"

definition sort_newest :: "FileMetaData list \<Rightarrow> FileMetaData list" where
  "sort_newest files = foldr insert_newest files []"

definition key_in_file :: "comparator \<Rightarrow> slice \<Rightarrow> FileMetaData \<Rightarrow> bool option" where
  "key_in_file ucmp user_key f =
     do { s \<leftarrow> ExtractUserKey (fm_smallest f);
          r \<leftarrow> Compare ucmp user_key s;
          if r \<ge> 0
          then do { l \<leftarrow> ExtractUserKey (fm_largest f); r \<leftarrow> Compare ucmp user_key l; Some (r \<le> 0) }
          else Some False }"

fun level0_files :: "comparator \<Rightarrow> slice \<Rightarrow> FileMetaData list \<Rightarrow> FileMetaData list option" where
  "level0_files ucmp user_key [] = Some []"
| "level0_files ucmp user_key (f # files) =
     do { here \<leftarrow> key_in_file ucmp user_key f;
          tmp \<leftarrow> level0_files ucmp user_key files;
          Some (if here then f # tmp else tmp) }"

text \<open>The files of one level that \<open>Get\<close> and \<open>ForEachOverlapping\<close> look at, in their order.\<close>

definition level_files :: "comparator \<Rightarrow> slice \<Rightarrow> slice \<Rightarrow> nat \<Rightarrow> FileMetaData list \<Rightarrow> FileMetaData list option" where
  "level_files ucmp user_key ikey level files =
     (if files = [] then Some []
      else if level = 0 then map_option sort_newest (level0_files ucmp user_key files)
      else do { index \<leftarrow> FindFile (InternalKeyComparator ucmp) files ikey;
                if unat index \<ge> length files then Some []
                else do { let f = files ! unat index;
                          s \<leftarrow> ExtractUserKey (fm_smallest f);
                          r \<leftarrow> Compare ucmp user_key s;
                          Some (if r < 0 then [] else [f]) } })"


section \<open>Looking a key up\<close>

datatype SaverState = kNotFoundYet | kFound | kDeleted | kCorrupt

text \<open>\<open>SaveValue\<close> on a saver whose state is \<open>state\<close> and whose value is \<open>value\<close>.\<close>

definition SaveValue :: "comparator \<Rightarrow> slice \<Rightarrow> slice \<Rightarrow> slice \<Rightarrow> SaverState \<times> byte list \<Rightarrow> (SaverState \<times> byte list) option" where
  "SaveValue ucmp user_key ikey v st =
     (case ParseInternalKey ikey of
        (True, Some parsed_key) \<Rightarrow>
          do { r \<leftarrow> Compare ucmp (pk_user_key parsed_key) user_key;
               Some (if r = 0
                     then if pk_type parsed_key = kTypeValue then (kFound, v) else (kDeleted, snd st)
                     else st) }
      | _ \<Rightarrow> Some (kCorrupt, snd st))"

record get_stats =
  gs_seek_file :: "FileMetaData option"
  gs_seek_file_level :: int

text \<open>
  The table cache is a parameter: \<open>tget number size ikey\<close> is the status of \<open>TableCache::Get\<close> and the
  entry for which it calls the saver, if it does.  \<open>get_files\<close> is the loop over the files of a
  level; it returns what has been decided, if anything has, and the last file that was read.
\<close>

type_synonym table_get = "u64 \<Rightarrow> u64 \<Rightarrow> slice \<Rightarrow> (Status \<times> (slice \<times> slice) option) option"

record get_state =
  g_value :: "byte list"
  g_stats :: get_stats
  g_last :: "(FileMetaData \<times> nat) option"

definition charge_seek :: "get_state \<Rightarrow> get_state" where
  "charge_seek g =
     (case g_last g of
        Some (f, level) \<Rightarrow>
          if gs_seek_file (g_stats g) = None
          then g\<lparr>g_stats := \<lparr>gs_seek_file = Some f, gs_seek_file_level = int level\<rparr>\<rparr> else g
      | None \<Rightarrow> g)"

fun get_files :: "comparator \<Rightarrow> table_get \<Rightarrow> slice \<Rightarrow> slice \<Rightarrow> nat \<Rightarrow> FileMetaData list \<Rightarrow> get_state \<Rightarrow>
    (Status option \<times> get_state) option" where
  "get_files ucmp tget user_key ikey level [] g = Some (None, g)"
| "get_files ucmp tget user_key ikey level (f # files) g =
     do { let g = (charge_seek g)\<lparr>g_last := Some (f, level)\<rparr>;
          (s, entry) \<leftarrow> tget (fm_number f) (fm_file_size f) ikey;
          (state, value) \<leftarrow> (case entry of
               None \<Rightarrow> Some (kNotFoundYet, g_value g)
             | Some (k, v) \<Rightarrow> SaveValue ucmp user_key k v (kNotFoundYet, g_value g));
          let g = g\<lparr>g_value := value\<rparr>;
          if \<not> status_ok s then Some (Some s, g)
          else case state of
              kNotFoundYet \<Rightarrow> get_files ucmp tget user_key ikey level files g
            | kFound \<Rightarrow> Some (Some s, g)
            | kDeleted \<Rightarrow> Some (Some (NotFound [] []), g)
            | kCorrupt \<Rightarrow> Some (Some (Corruption (bytes_of ''corrupted key for '') user_key), g) }"

fun get_levels :: "comparator \<Rightarrow> table_get \<Rightarrow> slice \<Rightarrow> slice \<Rightarrow> nat \<Rightarrow> FileMetaData list list \<Rightarrow> get_state \<Rightarrow>
    (Status \<times> get_state) option" where
  "get_levels ucmp tget user_key ikey level [] g = Some (NotFound [] [], g)"
| "get_levels ucmp tget user_key ikey level (files # levels) g =
     do { fs \<leftarrow> level_files ucmp user_key ikey level files;
          (s, g) \<leftarrow> get_files ucmp tget user_key ikey level fs g;
          case s of
            Some s \<Rightarrow> Some (s, g)
          | None \<Rightarrow> get_levels ucmp tget user_key ikey (level + 1) levels g }"

definition v_Get :: "comparator \<Rightarrow> table_get \<Rightarrow> version \<Rightarrow> LookupKey \<Rightarrow> byte list \<Rightarrow>
    (Status \<times> byte list \<times> get_stats) option" where
  "v_Get ucmp tget v k value =
     map_option (\<lambda>(s, g). (s, g_value g, g_stats g))
       (get_levels ucmp tget (lookup_user_key k) (lookup_internal_key k) 0 (v_files v)
         \<lparr>g_value = value, g_stats = \<lparr>gs_seek_file = None, gs_seek_file_level = - 1\<rparr>, g_last = None\<rparr>)"


section \<open>Reads that are charged to a file\<close>

text \<open>
  \<open>UpdateStats\<close> decrements the counter of the file, wherever the version lists it, and looks at
  the counter it then has.
\<close>

definition decrement_seeks :: "u64 \<Rightarrow> FileMetaData \<Rightarrow> FileMetaData" where
  "decrement_seeks number f = (if fm_number f = number then f\<lparr>fm_allowed_seeks := fm_allowed_seeks f - 1\<rparr> else f)"

definition v_UpdateStats :: "version \<Rightarrow> get_stats \<Rightarrow> bool \<times> version" where
  "v_UpdateStats v stats =
     (case gs_seek_file stats of
        None \<Rightarrow> (False, v)
      | Some f \<Rightarrow>
          let v = v\<lparr>v_files := map (map (decrement_seeks (fm_number f))) (v_files v)\<rparr>;
              now = (case List.find (\<lambda>g. fm_number g = fm_number f) (concat (v_files v)) of
                       Some g \<Rightarrow> g | None \<Rightarrow> decrement_seeks (fm_number f) f)
          in if fm_allowed_seeks now \<le> 0 \<and> v_file_to_compact v = None
             then (True, v\<lparr>v_file_to_compact := Some now, v_file_to_compact_level := gs_seek_file_level stats\<rparr>)
             else (False, v))"

text \<open>
  \<open>ForEachOverlapping\<close>: the callback has a state and returns whether to go on.
\<close>

fun for_files :: "('a \<Rightarrow> nat \<Rightarrow> FileMetaData \<Rightarrow> bool \<times> 'a) \<Rightarrow> 'a \<Rightarrow> nat \<Rightarrow> FileMetaData list \<Rightarrow> bool \<times> 'a" where
  "for_files func a level [] = (True, a)"
| "for_files func a level (f # fs) =
     (case func a level f of (go_on, a) \<Rightarrow> if go_on then for_files func a level fs else (False, a))"

fun for_levels :: "comparator \<Rightarrow> slice \<Rightarrow> slice \<Rightarrow> ('a \<Rightarrow> nat \<Rightarrow> FileMetaData \<Rightarrow> bool \<times> 'a) \<Rightarrow>
    'a \<Rightarrow> nat \<Rightarrow> FileMetaData list list \<Rightarrow> 'a option" where
  "for_levels ucmp user_key ikey func a level [] = Some a"
| "for_levels ucmp user_key ikey func a level (files # levels) =
     do { fs \<leftarrow> level_files ucmp user_key ikey level files;
          case for_files func a level fs of
            (go_on, a) \<Rightarrow> if go_on then for_levels ucmp user_key ikey func a (level + 1) levels else Some a }"

definition ForEachOverlapping :: "comparator \<Rightarrow> version \<Rightarrow> slice \<Rightarrow> slice \<Rightarrow>
    ('a \<Rightarrow> nat \<Rightarrow> FileMetaData \<Rightarrow> bool \<times> 'a) \<Rightarrow> 'a \<Rightarrow> 'a option" where
  "ForEachOverlapping ucmp v user_key internal_key func a =
     for_levels ucmp user_key internal_key func a 0 (v_files v)"

text \<open>The local \<open>State\<close> of \<open>RecordReadSample\<close> is the first match and the number of matches.\<close>

definition sample_Match :: "get_stats \<times> nat \<Rightarrow> nat \<Rightarrow> FileMetaData \<Rightarrow> bool \<times> (get_stats \<times> nat)" where
  "sample_Match state level f =
     (case state of (stats, matches) \<Rightarrow>
       let matches = matches + 1;
           stats = (if matches = 1 then \<lparr>gs_seek_file = Some f, gs_seek_file_level = int level\<rparr> else stats)
       in (matches < 2, (stats, matches)))"

definition v_RecordReadSample :: "comparator \<Rightarrow> version \<Rightarrow> slice \<Rightarrow> (bool \<times> version) option" where
  "v_RecordReadSample ucmp v internal_key =
     (case ParseInternalKey internal_key of
        (True, Some ikey) \<Rightarrow>
          do { (stats, matches) \<leftarrow> ForEachOverlapping ucmp v (pk_user_key ikey) internal_key sample_Match
                  (\<lparr>gs_seek_file = None, gs_seek_file_level = - 1\<rparr>, 0);
               Some (if matches \<ge> 2 then v_UpdateStats v stats else (False, v)) }
      | _ \<Rightarrow> Some (False, v))"


section \<open>The files that overlap a range\<close>

definition OverlapInLevel :: "comparator \<Rightarrow> version \<Rightarrow> nat \<Rightarrow> slice option \<Rightarrow> slice option \<Rightarrow> bool option" where
  "OverlapInLevel ucmp v level smallest_user_key largest_user_key =
     do { files \<leftarrow> nth_opt (v_files v) level;
          SomeFileOverlapsRange ucmp (level > 0) files smallest_user_key largest_user_key }"

text \<open>
  The loop of \<open>GetOverlappingInputs\<close>: the index of the next file, the bounds of the range, and
  the files found.  In level 0 a file that extends the range restarts the search.
\<close>

definition before_range :: "comparator \<Rightarrow> slice option \<Rightarrow> slice \<Rightarrow> bool option" where
  "before_range ucmp b limit =
     (case b of None \<Rightarrow> Some False | Some k \<Rightarrow> map_option (\<lambda>r. r < 0) (Compare ucmp limit k))"

definition after_range :: "comparator \<Rightarrow> slice option \<Rightarrow> slice \<Rightarrow> bool option" where
  "after_range ucmp e start =
     (case e of None \<Rightarrow> Some False | Some k \<Rightarrow> map_option (\<lambda>r. r > 0) (Compare ucmp start k))"

partial_function (option) overlap_loop ::
    "comparator \<Rightarrow> bool \<Rightarrow> FileMetaData list \<Rightarrow> nat \<Rightarrow> slice option \<Rightarrow> slice option \<Rightarrow> FileMetaData list \<Rightarrow>
      FileMetaData list option" where
  "overlap_loop ucmp level0 files i user_begin user_end inputs =
     (if i < length files
      then do {
        let f = files ! i;
        file_start \<leftarrow> ExtractUserKey (fm_smallest f);
        file_limit \<leftarrow> ExtractUserKey (fm_largest f);
        before \<leftarrow> before_range ucmp user_begin file_limit;
        outside \<leftarrow> (if before then Some True else after_range ucmp user_end file_start);
        if outside then overlap_loop ucmp level0 files (i + 1) user_begin user_end inputs
        else if \<not> level0 then overlap_loop ucmp level0 files (i + 1) user_begin user_end (inputs @ [f])
        else do {
          starts_before \<leftarrow> before_range ucmp user_begin file_start;
          if starts_before then overlap_loop ucmp level0 files 0 (Some file_start) user_end []
          else do {
            ends_after \<leftarrow> after_range ucmp user_end file_limit;
            if ends_after then overlap_loop ucmp level0 files 0 user_begin (Some file_limit) []
            else overlap_loop ucmp level0 files (i + 1) user_begin user_end (inputs @ [f]) } } }
      else Some inputs)"

definition user_key_of :: "byte list option \<Rightarrow> slice option option" where
  "user_key_of key = (case key of None \<Rightarrow> Some None | Some k \<Rightarrow> map_option Some (ExtractUserKey k))"

definition GetOverlappingInputs ::
    "comparator \<Rightarrow> version \<Rightarrow> nat \<Rightarrow> byte list option \<Rightarrow> byte list option \<Rightarrow> FileMetaData list option" where
  "GetOverlappingInputs ucmp v level b e =
     (if level \<ge> kNumLevels then None
      else do { user_begin \<leftarrow> user_key_of b;
                user_end \<leftarrow> user_key_of e;
                files \<leftarrow> nth_opt (v_files v) level;
                overlap_loop ucmp (level = 0) files 0 user_begin user_end [] })"

text \<open>The loop of \<open>PickLevelForMemTableOutput\<close>, at most two rounds.\<close>

fun pick_level :: "nat \<Rightarrow> comparator \<Rightarrow> u64 \<Rightarrow> version \<Rightarrow> slice \<Rightarrow> slice \<Rightarrow> byte list \<Rightarrow> byte list \<Rightarrow> nat \<Rightarrow> nat option" where
  "pick_level 0 ucmp max_file_size v smallest largest start limit level = Some level"
| "pick_level (Suc rounds) ucmp max_file_size v smallest largest start limit level =
     (if level < kMaxMemCompactLevel
      then do { overlap \<leftarrow> OverlapInLevel ucmp v (level + 1) (Some smallest) (Some largest);
                if overlap then Some level
                else do { too_much \<leftarrow>
                            (if level + 2 < kNumLevels
                             then do { overlaps \<leftarrow> GetOverlappingInputs ucmp v (level + 2) (Some start) (Some limit);
                                       m \<leftarrow> MaxGrandParentOverlapBytes max_file_size;
                                       Some (sint (TotalFileSize overlaps) > m) }
                             else Some False);
                          if too_much then Some level
                          else pick_level rounds ucmp max_file_size v smallest largest start limit (level + 1) } }
      else Some level)"

definition PickLevelForMemTableOutput :: "comparator \<Rightarrow> u64 \<Rightarrow> version \<Rightarrow> slice \<Rightarrow> slice \<Rightarrow> nat option" where
  "PickLevelForMemTableOutput ucmp max_file_size v smallest_user_key largest_user_key =
     do { overlap \<leftarrow> OverlapInLevel ucmp v 0 (Some smallest_user_key) (Some largest_user_key);
          if overlap then Some 0
          else pick_level kMaxMemCompactLevel ucmp max_file_size v smallest_user_key largest_user_key
                 (InternalKey smallest_user_key kMaxSequenceNumber kValueTypeForSeek)
                 (InternalKey largest_user_key 0 0) 0 }"

end
