(* ===== verification/Ldb_VersionSpec.thy ===== *)
theory Ldb_VersionSpec
  imports Ldb_Version
begin

text \<open>
  The searches in the files of a level.  In the levels above 0 the files are disjoint and sorted;
  then the binary search finds the first file that ends at or after a key, the question whether
  a file overlaps a range has the same answer as the search through all files, and the iterator
  over the files is a cursor.  In any order of the files, the choice of overlapping files ends,
  and in level 0 its result is closed under overlap.
\<close>

section \<open>Binary search\<close>

lemma unat_u32: "n < 2 ^ 32 \<Longrightarrow> unat (of_nat n :: u32) = n"
  by (simp add: unat_of_nat)

lemma unat_mid:
  assumes "l < 2 ^ 31" and "h < 2 ^ 31"
  shows "unat ((of_nat l + of_nat h) div 2 :: u32) = (l + h) div 2"
proof -
  have "unat (of_nat (l + h) :: u32) = l + h" using assms by (intro unat_u32) simp
  then show ?thesis by (simp add: unat_div)
qed

lemma find_file_loop_at:
  assumes n: "length files < 2 ^ 31" and i: "i \<le> length files"
    and cmp: "\<And>h. h < length files \<Longrightarrow> fm_largest (files ! h) \<noteq> [] \<and>
      (\<exists>r. Compare icmp (fm_largest (files ! h)) key = Some r \<and> (r < 0 \<longleftrightarrow> h < i))"
    and "l \<le> i" "i \<le> h" "h \<le> length files"
  shows "find_file_loop icmp files key (of_nat l) (of_nat h) = Some (of_nat i)"
  using assms(4-6)
proof (induction "h - l" arbitrary: l h rule: less_induct)
  case less
  have small: "l < 2 ^ 31" "h < 2 ^ 31" using less.prems n by linarith+
  have u: "unat (of_nat l :: u32) = l" "unat (of_nat h :: u32) = h" using small by (simp_all add: unat_u32)
  have lt: "(of_nat l :: u32) < of_nat h \<longleftrightarrow> l < h" by (simp add: word_less_nat_alt u)
  show ?case
  proof (cases "l < h")
    case False
    then have "h = i" "l = i" using less.prems by simp_all
    with lt show ?thesis by (subst find_file_loop.simps) simp
  next
    case True
    let ?m = "(l + h) div 2"
    have m: "l \<le> ?m" "?m < h" "?m < length files" using True less.prems by linarith+
    have um: "unat ((of_nat l + of_nat h) div 2 :: u32) = ?m" by (rule unat_mid [OF small])
    have mid: "(of_nat l + of_nat h) div 2 = (of_nat ?m :: u32)" using um unat_u32 [of ?m] m(2) small(2) by (simp only: word_unat_eq_iff) simp
    have mid1: "(of_nat ?m :: u32) + 1 = of_nat (Suc ?m)" by simp
    obtain r where r: "fm_largest (files ! ?m) \<noteq> []" "Compare icmp (fm_largest (files ! ?m)) key = Some r"
      "r < 0 \<longleftrightarrow> ?m < i" using cmp [OF m(3)] by blast
    have step: "find_file_loop icmp files key (of_nat l) (of_nat h) =
        (if r < 0 then find_file_loop icmp files key (of_nat (Suc ?m)) (of_nat h)
         else find_file_loop icmp files key (of_nat l) (of_nat ?m))"
      using True lt m(3) r(1,2) um
      by (subst find_file_loop.simps) (simp add: Let_def InternalKey_Encode_def mid mid1 del: of_nat_Suc of_nat_add)
    show ?thesis
    proof (cases "?m < i")
      case True
      with step r(3) less.hyps [of h "Suc ?m"] m less.prems show ?thesis by simp
    next
      case False
      with step r(3) less.hyps [of ?m l] m less.prems show ?thesis by simp
    qed
  qed
qed

lemma FindFile_at:
  assumes "length files < 2 ^ 31" and "i \<le> length files"
    and "\<And>h. h < length files \<Longrightarrow> fm_largest (files ! h) \<noteq> [] \<and>
      (\<exists>r. Compare icmp (fm_largest (files ! h)) key = Some r \<and> (r < 0 \<longleftrightarrow> h < i))"
  shows "FindFile icmp files key = Some (of_nat i)"
  using find_file_loop_at [OF assms, of 0 "length files"] assms(2) by (simp add: FindFile_def)


section \<open>Sorted levels\<close>

definition meta_ok :: "comparator \<Rightarrow> slice set \<Rightarrow> FileMetaData \<Rightarrow> bool" where
  "meta_ok c valid f \<longleftrightarrow> fm_smallest f \<in> ikeys valid \<and> fm_largest f \<in> ikeys valid \<and>
     fst (ParseInternalKey (fm_smallest f)) \<and> fst (ParseInternalKey (fm_largest f)) \<and>
     \<not> before (InternalKeyComparator c) (fm_largest f) (fm_smallest f)"

definition level_ok :: "comparator \<Rightarrow> slice set \<Rightarrow> FileMetaData list \<Rightarrow> bool" where
  "level_ok c valid files \<longleftrightarrow> (\<forall>f \<in> set files. meta_ok c valid f) \<and> length files < 2 ^ 31 \<and>
     sorted_wrt (\<lambda>f g. before (InternalKeyComparator c) (fm_largest f) (fm_smallest g)) files"

text \<open>What the iterator over a level shows.\<close>

definition file_pair :: "FileMetaData \<Rightarrow> slice \<times> slice" where
  "file_pair f = (fm_largest f, EncodeFixed64 (fm_number f) @ EncodeFixed64 (fm_file_size f))"

definition user_of :: "slice \<Rightarrow> slice" where
  "user_of k = take (length k - 8) k"

lemma user_of_append [simp]: "user_of (u @ EncodeFixed64 n) = u"
  by (simp add: user_of_def)

lemma ExtractUserKey_ikeys: "k \<in> ikeys valid \<Longrightarrow> ExtractUserKey k = Some (user_of k) \<and> user_of k \<in> valid"
  by (auto simp: ikeys_def)

lemma ikeys_nonempty: "k \<in> ikeys valid \<Longrightarrow> k \<noteq> []"
  by (auto simp: ikeys_def dest!: arg_cong [of _ _ length])


text \<open>A file overlaps a range of user keys; a missing bound is no bound.\<close>

definition overlaps :: "comparator \<Rightarrow> slice option \<Rightarrow> slice option \<Rightarrow> FileMetaData \<Rightarrow> bool" where
  "overlaps c lo hi f \<longleftrightarrow>
     (case lo of None \<Rightarrow> True | Some k \<Rightarrow> \<not> is_before c (user_of (fm_largest f)) k) \<and>
     (case hi of None \<Rightarrow> True | Some k \<Rightarrow> \<not> is_before c k (user_of (fm_smallest f)))"

text \<open>Ranges that contain another one, files inside a range, and ranges that cut no file.\<close>

definition lo_wider :: "comparator \<Rightarrow> slice option \<Rightarrow> slice option \<Rightarrow> bool" where
  "lo_wider c b' b \<longleftrightarrow>
     (case (b', b) of (None, None) \<Rightarrow> True | (Some k', Some k) \<Rightarrow> \<not> is_before c k k' | _ \<Rightarrow> False)"

definition hi_wider :: "comparator \<Rightarrow> slice option \<Rightarrow> slice option \<Rightarrow> bool" where
  "hi_wider c e' e \<longleftrightarrow>
     (case (e', e) of (None, None) \<Rightarrow> True | (Some k', Some k) \<Rightarrow> \<not> is_before c k' k | _ \<Rightarrow> False)"

definition inside_range :: "comparator \<Rightarrow> slice option \<Rightarrow> slice option \<Rightarrow> FileMetaData \<Rightarrow> bool" where
  "inside_range c lo hi f \<longleftrightarrow>
     (case lo of None \<Rightarrow> True | Some k \<Rightarrow> \<not> is_before c (user_of (fm_smallest f)) k) \<and>
     (case hi of None \<Rightarrow> True | Some k \<Rightarrow> \<not> is_before c k (user_of (fm_largest f)))"

definition closed_range :: "comparator \<Rightarrow> FileMetaData list \<Rightarrow> slice option \<Rightarrow> slice option \<Rightarrow> bool" where
  "closed_range c files lo hi \<longleftrightarrow> (\<forall>f \<in> set files. overlaps c lo hi f \<longrightarrow> inside_range c lo hi f)"

definition bound_ok :: "slice set \<Rightarrow> slice option \<Rightarrow> bool" where
  "bound_ok valid b \<longleftrightarrow> (case b of None \<Rightarrow> True | Some k \<Rightarrow> k \<in> valid)"

text \<open>The result of the search from a range: the least range around it that cuts no file.\<close>

definition least_closed :: "comparator \<Rightarrow> slice set \<Rightarrow> FileMetaData list \<Rightarrow> slice option \<Rightarrow> slice option \<Rightarrow>
    slice option \<Rightarrow> slice option \<Rightarrow> bool" where
  "least_closed c valid files b e b' e' \<longleftrightarrow>
     bound_ok valid b' \<and> bound_ok valid e' \<and> lo_wider c b' b \<and> hi_wider c e' e \<and> closed_range c files b' e' \<and>
     (\<forall>B E. bound_ok valid B \<and> bound_ok valid E \<and> lo_wider c B b \<and> hi_wider c E e \<and> closed_range c files B E \<longrightarrow>
        lo_wider c B b' \<and> hi_wider c E e')"

lemma parsed_num_le:
  assumes "fst (ParseInternalKey (v @ EncodeFixed64 n))"
  shows "n \<le> PackSequenceAndType kMaxSequenceNumber kValueTypeForSeek"
proof -
  have t: "(ucast (n AND 0xff) :: byte) \<le> 1"
    using assms by (auto simp: ParseInternalKey_def Let_def kTypeValue_def split: if_splits)
  have "n AND 0xff = take_bit 8 n" by (simp add: take_bit_eq_mask mask_eq_exp_minus_1)
  then have "(ucast (n AND 0xff) :: byte) = ucast n" by (intro bit_word_eqI) (simp add: bit_simps)
  then have "unat (ucast n :: byte) \<le> 1" using t by (simp add: word_le_nat_alt)
  moreover have "unat (ucast n :: byte) = unat n mod 256" by (simp add: unsigned_ucast_eq take_bit_eq_mod)
  ultimately have "unat n mod 256 \<le> 1" by simp
  moreover have "unat n div 256 < 72057594037927936"
    by (rule less_mult_imp_div_less) (use unsigned_less [of n] in simp)
  moreover have "unat n = 256 * (unat n div 256) + unat n mod 256" by simp
  ultimately have "unat n \<le> 18446744073709551361" by linarith
  then have "n \<le> 0xFFFFFFFFFFFFFF01" unfolding word_le_nat_alt by simp
  then show ?thesis by (simp only: pack_max_ge)
qed

context separating
begin

abbreviation ibefore :: "slice \<Rightarrow> slice \<Rightarrow> bool" where "ibefore \<equiv> before (InternalKeyComparator c)"

lemma internal_weak: "weak_order (Compare (InternalKeyComparator c)) (ikeys valid)"
  using internal_key_order by (simp add: InternalKeyComparator_def key_order_def)

lemma ibefore_lt: "weak_order.lt (Compare (InternalKeyComparator c)) = ibefore"
  by (intro ext) (simp add: weak_order.lt_def [OF internal_weak])

lemmas i_trans = weak_order.lt_trans [OF internal_weak, unfolded ibefore_lt]
lemmas i_irrefl = weak_order.lt_irrefl [OF internal_weak, unfolded ibefore_lt]
lemmas i_asym = weak_order.lt_asym [OF internal_weak, unfolded ibefore_lt]

lemma i_not_trans:
  assumes "\<not> ibefore a b" "ibefore a d" "a \<in> ikeys valid" "b \<in> ikeys valid" "d \<in> ikeys valid"
  shows "ibefore b d"
  using weak_order.le_lt_trans [OF internal_weak, of b a d] weak_order.not_lt [OF internal_weak, of a b] assms
  by (simp add: ibefore_lt)

lemma i_cases: "a \<in> ikeys valid \<Longrightarrow> b \<in> ikeys valid \<Longrightarrow>
    \<exists>r. Compare (InternalKeyComparator c) a b = Some r \<and> (r < 0 \<longleftrightarrow> ibefore a b)"
  using weak_order.defined [OF internal_weak, of a b] by auto

text \<open>The order of internal keys in terms of their user keys.\<close>

lemma ibefore_user:
  assumes "a \<in> ikeys valid" "b \<in> ikeys valid"
  shows "lt (user_of a) (user_of b) \<Longrightarrow> ibefore a b" "ibefore a b \<Longrightarrow> \<not> lt (user_of b) (user_of a)"
proof -
  obtain u m where a: "a = u @ EncodeFixed64 m" "u \<in> valid" using assms(1) by (auto simp: ikeys_def)
  obtain v n where b: "b = v @ EncodeFixed64 n" "v \<in> valid" using assms(2) by (auto simp: ikeys_def)
  have "ibefore a b \<longleftrightarrow> lt u v \<or> u = v \<and> m > n"
    unfolding a(1) b(1) InternalKeyComparator_def using ikey_lt [OF a(2) b(2)] by simp
  then show "lt (user_of a) (user_of b) \<Longrightarrow> ibefore a b" "ibefore a b \<Longrightarrow> \<not> lt (user_of b) (user_of a)"
    using lt_asym [of u v] lt_irrefl a b by auto
qed

lemma level_okD:
  assumes "level_ok c valid files"
  shows "length files < 2 ^ 31"
    and "i < length files \<Longrightarrow> meta_ok c valid (files ! i)"
    and "i < j \<Longrightarrow> j < length files \<Longrightarrow> ibefore (fm_largest (files ! i)) (fm_smallest (files ! j))"
  using assms by (auto simp: level_ok_def sorted_wrt_iff_nth_less)

lemma level_largest:
  assumes "level_ok c valid files" "i < j" "j < length files"
  shows "ibefore (fm_largest (files ! i)) (fm_largest (files ! j))"
proof -
  have i: "meta_ok c valid (files ! i)" and j: "meta_ok c valid (files ! j)" using assms level_okD(2) by auto
  have 1: "ibefore (fm_largest (files ! i)) (fm_smallest (files ! j))" using level_okD(3) [OF assms] .
  show ?thesis
  proof (rule ccontr)
    assume "\<not> ?thesis"
    from i_not_trans [OF this 1] i j show False by (auto simp: meta_ok_def)
  qed
qed

lemma level_sorted: "level_ok c valid files \<Longrightarrow> sorted_pairs (InternalKeyComparator c) (ikeys valid) (map file_pair files)"
  using level_largest by (auto simp: sorted_pairs_def sorted_wrt_iff_nth_less file_pair_def level_ok_def meta_ok_def)

lemma FindFile_first:
  assumes ok: "level_ok c valid files" and k: "key \<in> ikeys valid"
  obtains i where "i \<le> length files" "FindFile (InternalKeyComparator c) files key = Some (of_nat i)"
    "\<And>h. h < i \<Longrightarrow> ibefore (fm_largest (files ! h)) key"
    "\<And>h. i \<le> h \<Longrightarrow> h < length files \<Longrightarrow> \<not> ibefore (fm_largest (files ! h)) key"
proof -
  define i where "i = length (takeWhile (\<lambda>f. ibefore (fm_largest f) key) files)"
  have i: "i \<le> length files" by (simp add: i_def length_takeWhile_le)
  have below: "ibefore (fm_largest (files ! h)) key" if "h < i" for h
  proof -
    have h: "h < length (takeWhile (\<lambda>f. ibefore (fm_largest f) key) files)" using that by (simp add: i_def)
    from set_takeWhileD [OF nth_mem [OF h]] show ?thesis unfolding takeWhile_nth [OF h] by simp
  qed
  have "\<not> ibefore (fm_largest (files ! i)) key" if "i < length files"
    using nth_length_takeWhile [of "\<lambda>f. ibefore (fm_largest f) key" files] that by (simp add: i_def)
  then have above: "\<not> ibefore (fm_largest (files ! h)) key" if "i \<le> h" "h < length files" for h
  proof (cases "h = i")
    case False
    then have ih: "i < h" using that by simp
    show ?thesis
      using i_trans [OF level_largest [OF ok ih that(2)], of key] \<open>i < length files \<Longrightarrow> _\<close> level_okD(2) [OF ok, of i]
        level_okD(2) [OF ok, of h] ih that(2) k by (auto simp: meta_ok_def)
  qed (use that in auto)
  have "FindFile (InternalKeyComparator c) files key = Some (of_nat i)"
  proof (rule FindFile_at [OF level_okD(1) [OF ok] i])
    fix h assume h: "h < length files"
    have f: "fm_largest (files ! h) \<in> ikeys valid" using level_okD(2) [OF ok h] by (simp add: meta_ok_def)
    obtain r where "Compare (InternalKeyComparator c) (fm_largest (files ! h)) key = Some r"
      "r < 0 \<longleftrightarrow> ibefore (fm_largest (files ! h)) key" using i_cases [OF f k] by blast
    moreover have "ibefore (fm_largest (files ! h)) key \<longleftrightarrow> h < i" using below [of h] above [of h] h by (cases "h < i") simp_all
    ultimately show "fm_largest (files ! h) \<noteq> [] \<and>
      (\<exists>r. Compare (InternalKeyComparator c) (fm_largest (files ! h)) key = Some r \<and> (r < 0 \<longleftrightarrow> h < i))"
      using ikeys_nonempty [OF f] by blast
  qed
  with i below above show ?thesis by (intro that) auto
qed


text \<open>A parsed key is not before the first internal key of its user key.\<close>

lemma before_seek_key:
  assumes k: "k \<in> ikeys valid" "fst (ParseInternalKey k)" and u: "u \<in> valid"
  shows "ibefore k (InternalKey u kMaxSequenceNumber kValueTypeForSeek) \<longleftrightarrow> lt (user_of k) u"
proof -
  obtain v n where v: "k = v @ EncodeFixed64 n" "v \<in> valid" using k(1) by (auto simp: ikeys_def)
  have "n \<le> PackSequenceAndType kMaxSequenceNumber kValueTypeForSeek"
    using k(2) parsed_num_le by (simp add: v(1))
  moreover have "ibefore k (InternalKey u kMaxSequenceNumber kValueTypeForSeek) \<longleftrightarrow>
      lt v u \<or> v = u \<and> n > PackSequenceAndType kMaxSequenceNumber kValueTypeForSeek"
    unfolding v(1) InternalKeyComparator_def InternalKey_def AppendInternalKey_eq
    using ikey_lt [OF v(2) u] by simp
  ultimately show ?thesis by (auto simp: v(1))
qed


subsection \<open>Overlap\<close>

lemma meta_okD:
  assumes "meta_ok c valid f"
  shows "fm_smallest f \<in> ikeys valid" "fm_largest f \<in> ikeys valid"
    "ExtractUserKey (fm_smallest f) = Some (user_of (fm_smallest f))"
    "ExtractUserKey (fm_largest f) = Some (user_of (fm_largest f))"
    "user_of (fm_smallest f) \<in> valid" "user_of (fm_largest f) \<in> valid"
    "\<not> lt (user_of (fm_largest f)) (user_of (fm_smallest f))"
  using assms ExtractUserKey_ikeys ibefore_user(1) [of "fm_largest f" "fm_smallest f"] by (auto simp: meta_ok_def)

lemma user_cmp:
  assumes "a \<in> valid" "b \<in> valid"
  shows "\<exists>r. Compare c a b = Some r \<and> (r < 0 \<longleftrightarrow> lt a b) \<and> (r > 0 \<longleftrightarrow> lt b a) \<and> (r = 0 \<longleftrightarrow> a = b)"
  using eq_cases [OF assms] by metis

lemma is_before_lt: "is_before c a b \<longleftrightarrow> lt a b"
  by (simp add: lt_def)

lemma AfterFile_iff:
  assumes "meta_ok c valid f" "bound_ok valid lo"
  shows "AfterFile c lo f = Some (case lo of None \<Rightarrow> False | Some k \<Rightarrow> lt (user_of (fm_largest f)) k)"
  using user_cmp [of _ "user_of (fm_largest f)"] meta_okD [OF assms(1)] assms(2)
  by (fastforce simp: AfterFile_def bound_ok_def split: option.splits)

lemma BeforeFile_iff:
  assumes "meta_ok c valid f" "bound_ok valid hi"
  shows "BeforeFile c hi f = Some (case hi of None \<Rightarrow> False | Some k \<Rightarrow> lt k (user_of (fm_smallest f)))"
  using user_cmp [of _ "user_of (fm_smallest f)"] meta_okD [OF assms(1)] assms(2)
  by (fastforce simp: BeforeFile_def bound_ok_def split: option.splits)

lemma overlaps_lt: "overlaps c lo hi f \<longleftrightarrow>
    \<not> (case lo of None \<Rightarrow> False | Some k \<Rightarrow> lt (user_of (fm_largest f)) k) \<and>
    \<not> (case hi of None \<Rightarrow> False | Some k \<Rightarrow> lt k (user_of (fm_smallest f)))"
  unfolding overlaps_def is_before_lt by (simp split: option.splits)

lemma some_file_loop_iff:
  assumes "\<forall>f \<in> set files. meta_ok c valid f" "bound_ok valid lo" "bound_ok valid hi"
  shows "some_file_loop c lo hi files = Some (\<exists>f \<in> set files. overlaps c lo hi f)"
  using assms(1)
proof (induction files)
  case (Cons f files)
  then have "meta_ok c valid f" by simp
  with AfterFile_iff [OF this assms(2)] BeforeFile_iff [OF this assms(3)] Cons show ?case
    by (auto simp: overlaps_lt)
qed simp

text \<open>In a sorted level the binary search finds the first file that does not end before the range.\<close>

lemma range_index:
  assumes l: "level_ok c valid files" and lo: "bound_ok valid lo"
  shows "\<exists>i \<le> length files. (case lo of None \<Rightarrow> Some 0
      | Some k \<Rightarrow> do { small \<leftarrow> InternalKey_Encode (InternalKey k kMaxSequenceNumber kValueTypeForSeek);
          FindFile (InternalKeyComparator c) files small }) = Some (of_nat i) \<and>
      (\<forall>h < length files. (case lo of None \<Rightarrow> False | Some k \<Rightarrow> lt (user_of (fm_largest (files ! h))) k) \<longleftrightarrow> h < i)"
proof (cases lo)
  case (Some k)
  then have k: "k \<in> valid" using lo by (simp add: bound_ok_def)
  let ?small = "InternalKey k kMaxSequenceNumber kValueTypeForSeek"
  have small: "?small \<in> ikeys valid" using k by (simp add: InternalKey_def AppendInternalKey_eq)
  obtain i where i: "i \<le> length files" "FindFile (InternalKeyComparator c) files ?small = Some (of_nat i)"
    "\<And>h. h < i \<Longrightarrow> ibefore (fm_largest (files ! h)) ?small"
    "\<And>h. i \<le> h \<Longrightarrow> h < length files \<Longrightarrow> \<not> ibefore (fm_largest (files ! h)) ?small"
    by (rule FindFile_first [OF l small]) (rule that)
  have "lt (user_of (fm_largest (files ! h))) k \<longleftrightarrow> h < i" if "h < length files" for h
    using before_seek_key [OF _ _ k, of "fm_largest (files ! h)"] level_okD(2) [OF l that] i(3) [of h] i(4) [of h] that
    by (cases "h < i") (auto simp: meta_ok_def)
  then show ?thesis using Some i(1,2) ikeys_nonempty [OF small] by (auto simp: InternalKey_Encode_def)
qed auto

text \<open>In a sorted level the binary search gives the same answer.\<close>

lemma SomeFileOverlapsRange_iff:
  assumes ok: "\<forall>f \<in> set files. meta_ok c valid f" and d: "disjoint \<longrightarrow> level_ok c valid files"
    and lo: "bound_ok valid lo" and hi: "bound_ok valid hi"
  shows "SomeFileOverlapsRange c disjoint files lo hi = Some (\<exists>f \<in> set files. overlaps c lo hi f)"
proof (cases disjoint)
  case False
  then show ?thesis using some_file_loop_iff [OF ok lo hi] by (simp add: SomeFileOverlapsRange_def)
next
  case True
  then have l: "level_ok c valid files" using d by blast
  obtain i where i: "i \<le> length files" "(case lo of None \<Rightarrow> Some 0
      | Some k \<Rightarrow> do { small \<leftarrow> InternalKey_Encode (InternalKey k kMaxSequenceNumber kValueTypeForSeek);
          FindFile (InternalKeyComparator c) files small }) = Some (of_nat i :: u32)"
    "\<And>h. h < length files \<Longrightarrow> (case lo of None \<Rightarrow> False | Some k \<Rightarrow> lt (user_of (fm_largest (files ! h))) k) \<longleftrightarrow> h < i"
    using range_index [OF l lo] by blast
  have ui: "unat (of_nat i :: u32) = i" using i(1) level_okD(1) [OF l] by (intro unat_u32) simp
  show ?thesis
  proof (cases "i < length files")
    case False
    then have "\<not> overlaps c lo hi f" if "f \<in> set files" for f
    proof -
      obtain h where h: "h < length files" "f = files ! h" using \<open>f \<in> set files\<close> by (metis in_set_conv_nth)
      with i(3) [OF h(1)] False show ?thesis by (simp add: overlaps_lt)
    qed
    then show ?thesis using True i(2) ui False by (auto simp: SomeFileOverlapsRange_def)
  next
    case n: True
    have "(\<exists>f \<in> set files. overlaps c lo hi f) \<longleftrightarrow> overlaps c lo hi (files ! i)"
    proof
      assume "\<exists>f \<in> set files. overlaps c lo hi f"
      then obtain j where j: "j < length files" "overlaps c lo hi (files ! j)" by (metis in_set_conv_nth)
      then have "i \<le> j" using i(3) [of j] by (simp add: overlaps_lt)
      have "\<not> lt (user_of (fm_smallest (files ! j))) (user_of (fm_smallest (files ! i)))"
      proof (cases "i = j")
        case False
        then have ij: "i < j" using \<open>i \<le> j\<close> by simp
        note fi = meta_okD [OF level_okD(2) [OF l n]] and fj = meta_okD [OF level_okD(2) [OF l j(1)]]
        have "\<not> lt (user_of (fm_smallest (files ! j))) (user_of (fm_largest (files ! i)))"
          using ibefore_user(2) [OF fi(2) fj(1)] level_okD(3) [OF l ij j(1)] by blast
        then show ?thesis using fi fj le_lt_trans not_lt by blast
      qed (use meta_okD [OF level_okD(2) [OF l n]] in simp)
      then show "overlaps c lo hi (files ! i)"
        using j(2) i(3) [OF n] hi meta_okD(5) [OF level_okD(2) [OF l n]] meta_okD(5) [OF level_okD(2) [OF l j(1)]]
        by (auto simp: overlaps_lt bound_ok_def not_lt split: option.splits elim: le_trans)
    qed (use n in auto)
    moreover have "BeforeFile c hi (files ! i) = Some (\<not> overlaps c lo hi (files ! i))"
      using BeforeFile_iff [OF level_okD(2) [OF l n] hi] i(3) [OF n] by (simp add: overlaps_lt)
    ultimately show ?thesis using True i(2) ui n by (simp add: SomeFileOverlapsRange_def)
  qed
qed


subsection \<open>The iterator over a level\<close>

definition fi_at :: "FileMetaData list \<Rightarrow> nat \<Rightarrow> file_num_iterator \<Rightarrow> bool" where
  "fi_at files j it \<longleftrightarrow> level_ok c valid files \<and> j \<le> length files \<and>
     it = \<lparr>fi_icmp = InternalKeyComparator c, fi_flist = files, fi_index = of_nat j\<rparr>"

lemma fi_atE:
  assumes "fi_at files j it"
  shows "level_ok c valid files" "j \<le> length files" "fi_icmp it = InternalKeyComparator c" "fi_flist it = files"
    "fi_index it = of_nat j" "unat (fi_index it) = j" "fi_Valid it \<longleftrightarrow> j < length files"
  using assms level_okD(1) [of files] unat_u32 [of j] by (auto simp: fi_at_def fi_Valid_def)

lemma fi_at_set: "fi_at files j it \<Longrightarrow> i \<le> length files \<Longrightarrow> fi_at files i (it\<lparr>fi_index := of_nat i\<rparr>)"
  by (simp add: fi_at_def)

lemma level_cursor: "cursor file_num_iterator_ops (InternalKeyComparator c) (ikeys valid) (map file_pair files) (fi_at files)"
proof
  fix j it t
  assume a: "fi_at files j it"
  note at = fi_atE [OF a] and ops = file_num_iterator_ops_def
  show "sorted_pairs (InternalKeyComparator c) (ikeys valid) (map file_pair files)" by (rule level_sorted [OF at(1)])
  show "j \<le> length (map file_pair files)" using at(2) by simp
  show "op_Valid file_num_iterator_ops it \<longleftrightarrow> j < length (map file_pair files)" using at(7) by (simp add: ops)
  show "status_ok (op_status file_num_iterator_ops it)" by (simp add: ops status_ok_def OK_def)
  show "\<exists>it'. op_SeekToFirst file_num_iterator_ops it = Some it' \<and> fi_at files 0 it'"
    using fi_at_set [OF a, of 0] by (simp add: ops fi_SeekToFirst_def)
  show "\<exists>it'. op_SeekToLast file_num_iterator_ops it = Some it' \<and> fi_at files (length (map file_pair files) - 1) it'"
    using fi_at_set [OF a, of "length files - 1"] at(4) by (auto simp: ops fi_SeekToLast_def)
  show "\<exists>it' i. op_Seek file_num_iterator_ops it t = Some it' \<and> fi_at files i it' \<and>
      (\<forall>h < i. ibefore (fst (map file_pair files ! h)) t) \<and>
      (i < length (map file_pair files) \<longrightarrow> \<not> ibefore (fst (map file_pair files ! i)) t)" if t: "t \<in> ikeys valid"
  proof -
    obtain i where i: "i \<le> length files" "FindFile (InternalKeyComparator c) files t = Some (of_nat i)"
      "\<And>h. h < i \<Longrightarrow> ibefore (fm_largest (files ! h)) t"
      "\<And>h. i \<le> h \<Longrightarrow> h < length files \<Longrightarrow> \<not> ibefore (fm_largest (files ! h)) t"
      by (rule FindFile_first [OF at(1) t]) (rule that)
    then show ?thesis using fi_at_set [OF a i(1)] at(3,4)
      by (intro exI [of _ "it\<lparr>fi_index := of_nat i\<rparr>"] exI [of _ i]) (simp add: ops fi_Seek_def file_pair_def)
  qed
  assume j: "j < length (map file_pair files)"
  have f: "fm_largest (files ! j) \<noteq> []" using level_okD(2) [OF at(1), of j] j ikeys_nonempty by (auto simp: meta_ok_def)
  show "op_key file_num_iterator_ops it = Some (fst (map file_pair files ! j)) \<and>
      op_value file_num_iterator_ops it = Some (snd (map file_pair files ! j))"
    using j at(4,6,7) f by (simp add: ops fi_key_def fi_value_def file_pair_def InternalKey_Encode_def Let_def)
  show "\<exists>it'. op_Next file_num_iterator_ops it = Some it' \<and> fi_at files (Suc j) it'"
    using fi_at_set [OF a, of "Suc j"] j at(5,7) by (simp add: ops fi_Next_def add.commute)
  have "fi_index it = 0 \<longleftrightarrow> j = 0" using at(6) by (metis unsigned_0 unsigned_word_eqI)
  moreover have "(of_nat j :: u32) - 1 = of_nat (j - 1)" if "j \<noteq> 0" using that by (simp add: of_nat_diff)
  ultimately show "\<exists>it'. op_Prev file_num_iterator_ops it = Some it' \<and>
      fi_at files (if j = 0 then length (map file_pair files) else j - 1) it'"
    using fi_at_set [OF a, of "length files"] fi_at_set [OF a, of "j - 1"] j at(4,5,7) by (auto simp: ops fi_Prev_def)
qed


subsection \<open>The files that overlap a range\<close>

lemma before_range_iff: "k \<in> valid \<Longrightarrow> bound_ok valid b \<Longrightarrow>
    before_range c b k = Some (case b of None \<Rightarrow> False | Some x \<Rightarrow> lt k x)"
  using user_cmp [of k] by (fastforce simp: before_range_def bound_ok_def split: option.splits)

lemma after_range_iff: "k \<in> valid \<Longrightarrow> bound_ok valid e \<Longrightarrow>
    after_range c e k = Some (case e of None \<Rightarrow> False | Some x \<Rightarrow> lt x k)"
  using user_cmp [of k] by (fastforce simp: after_range_def bound_ok_def split: option.splits)

lemma inside_lt: "inside_range c lo hi f \<longleftrightarrow>
    \<not> (case lo of None \<Rightarrow> False | Some k \<Rightarrow> lt (user_of (fm_smallest f)) k) \<and>
    \<not> (case hi of None \<Rightarrow> False | Some k \<Rightarrow> lt k (user_of (fm_largest f)))"
  unfolding inside_range_def is_before_lt by (simp split: option.splits)

text \<open>One round of the loop.\<close>

lemma overlap_loop_step:
  assumes f: "meta_ok c valid (files ! i)" and i: "i < length files" and b: "bound_ok valid b" and e: "bound_ok valid e"
  shows "overlap_loop c level0 files i b e inputs =
    (if \<not> overlaps c b e (files ! i) then overlap_loop c level0 files (i + 1) b e inputs
     else if \<not> level0 \<or> inside_range c b e (files ! i) then overlap_loop c level0 files (i + 1) b e (inputs @ [files ! i])
     else if (case b of None \<Rightarrow> False | Some k \<Rightarrow> lt (user_of (fm_smallest (files ! i))) k)
     then overlap_loop c level0 files 0 (Some (user_of (fm_smallest (files ! i)))) e []
     else overlap_loop c level0 files 0 b (Some (user_of (fm_largest (files ! i)))) [])"
  using i meta_okD [OF f] before_range_iff [OF meta_okD(5) [OF f] b] before_range_iff [OF meta_okD(6) [OF f] b]
    after_range_iff [OF meta_okD(5) [OF f] e] after_range_iff [OF meta_okD(6) [OF f] e]
  by (subst overlap_loop.simps) (auto simp: Let_def overlaps_lt inside_lt)

lemma overlap_loop_plain:
  assumes "\<forall>f \<in> set files. meta_ok c valid f" "bound_ok valid b" "bound_ok valid e"
  shows "overlap_loop c False files i b e inputs = Some (inputs @ filter (overlaps c b e) (drop i files))"
proof (induction "length files - i" arbitrary: i inputs)
  case 0
  then show ?case by (subst overlap_loop.simps) simp
next
  case (Suc n)
  then have i: "i < length files" by simp
  have "drop i files = files ! i # drop (Suc i) files" using i by (simp add: Cons_nth_drop_Suc)
  with overlap_loop_step [OF _ i assms(2,3), of False inputs] assms(1) i Suc show ?case by auto
qed

text \<open>The number of files that end the range on either side, which falls with every restart.\<close>

definition outlying :: "FileMetaData list \<Rightarrow> slice option \<Rightarrow> slice option \<Rightarrow> nat" where
  "outlying files b e =
     card {f \<in> set files. case b of None \<Rightarrow> False | Some k \<Rightarrow> lt (user_of (fm_smallest f)) k} +
     card {f \<in> set files. case e of None \<Rightarrow> False | Some k \<Rightarrow> lt k (user_of (fm_largest f))}"

lemma outlying_less:
  assumes ok: "\<forall>f \<in> set files. meta_ok c valid f" and f: "f \<in> set files"
  shows "b = Some k \<Longrightarrow> k \<in> valid \<Longrightarrow> lt (user_of (fm_smallest f)) k \<Longrightarrow>
      outlying files (Some (user_of (fm_smallest f))) e < outlying files b e"
    and "e = Some k \<Longrightarrow> k \<in> valid \<Longrightarrow> lt k (user_of (fm_largest f)) \<Longrightarrow>
      outlying files b (Some (user_of (fm_largest f))) < outlying files b e"
proof -
  have fv: "user_of (fm_smallest f) \<in> valid" "user_of (fm_largest f) \<in> valid" using ok f meta_okD(5,6) by blast+
  have gv: "user_of (fm_smallest g) \<in> valid" "user_of (fm_largest g) \<in> valid" if "g \<in> set files" for g
    using ok that meta_okD(5,6) by blast+
  show "outlying files (Some (user_of (fm_smallest f))) e < outlying files b e"
    if b: "b = Some k" and k: "k \<in> valid" "lt (user_of (fm_smallest f)) k"
  proof -
    have "{g \<in> set files. lt (user_of (fm_smallest g)) (user_of (fm_smallest f))} \<subset> {g \<in> set files. lt (user_of (fm_smallest g)) k}"
      using f k fv gv lt_trans lt_irrefl by blast
    from psubset_card_mono [OF _ this] show ?thesis by (simp add: outlying_def b)
  qed
  show "outlying files b (Some (user_of (fm_largest f))) < outlying files b e"
    if e: "e = Some k" and k: "k \<in> valid" "lt k (user_of (fm_largest f))"
  proof -
    have "{g \<in> set files. lt (user_of (fm_largest f)) (user_of (fm_largest g))} \<subset> {g \<in> set files. lt k (user_of (fm_largest g))}"
      using f k fv gv lt_trans lt_irrefl by blast
    from psubset_card_mono [OF _ this] show ?thesis by (simp add: outlying_def e)
  qed
qed

lemma lo_wider_lt: "lo_wider c b' b \<longleftrightarrow> (case (b', b) of (None, None) \<Rightarrow> True | (Some k', Some k) \<Rightarrow> \<not> lt k k' | _ \<Rightarrow> False)"
  unfolding lo_wider_def is_before_lt ..

lemma hi_wider_lt: "hi_wider c e' e \<longleftrightarrow> (case (e', e) of (None, None) \<Rightarrow> True | (Some k', Some k) \<Rightarrow> \<not> lt k' k | _ \<Rightarrow> False)"
  unfolding hi_wider_def is_before_lt ..

lemma wider_refl: "bound_ok valid b \<Longrightarrow> lo_wider c b b" "bound_ok valid b \<Longrightarrow> hi_wider c b b"
  by (auto simp: lo_wider_lt hi_wider_lt bound_ok_def split: option.splits)

lemma wider_trans:
  assumes "bound_ok valid x" "bound_ok valid y" "bound_ok valid z"
  shows "lo_wider c x y \<Longrightarrow> lo_wider c y z \<Longrightarrow> lo_wider c x z"
    and "hi_wider c x y \<Longrightarrow> hi_wider c y z \<Longrightarrow> hi_wider c x z"
  using assms by (auto simp: lo_wider_lt hi_wider_lt bound_ok_def not_lt split: option.splits elim: le_trans)

lemma overlaps_wider:
  assumes "overlaps c b e f" "lo_wider c B b" "hi_wider c E e" "meta_ok c valid f"
    "bound_ok valid b" "bound_ok valid e" "bound_ok valid B" "bound_ok valid E"
  shows "overlaps c B E f"
  using assms meta_okD [OF assms(4)]
  by (auto simp: overlaps_lt lo_wider_lt hi_wider_lt bound_ok_def not_lt split: option.splits elim: le_trans)


lemma least_closed_step:
  assumes "least_closed c valid files b1 e1 b' e'" and ok: "bound_ok valid b" "bound_ok valid e" "bound_ok valid b1" "bound_ok valid e1"
    and "lo_wider c b1 b" "hi_wider c e1 e"
    and least: "\<And>B E. bound_ok valid B \<Longrightarrow> bound_ok valid E \<Longrightarrow> lo_wider c B b \<Longrightarrow> hi_wider c E e \<Longrightarrow>
      closed_range c files B E \<Longrightarrow> lo_wider c B b1 \<and> hi_wider c E e1"
  shows "least_closed c valid files b e b' e'"
  using assms unfolding least_closed_def
  by (metis (no_types, lifting) wider_trans)

lemma extend_range:
  assumes f: "meta_ok c valid f" "f \<in> set files" and ov: "overlaps c b e f" and b: "bound_ok valid b" and e: "bound_ok valid e"
    and B: "bound_ok valid B" "bound_ok valid E" "lo_wider c B b" "hi_wider c E e" "closed_range c files B E"
  shows "b = Some k \<Longrightarrow> lo_wider c B (Some (user_of (fm_smallest f)))"
    and "e = Some k \<Longrightarrow> hi_wider c E (Some (user_of (fm_largest f)))"
proof -
  have "inside_range c B E f"
    using B(5) f(2) overlaps_wider [OF ov B(3,4) f(1) b e B(1,2)] by (simp add: closed_range_def)
  then show "b = Some k \<Longrightarrow> lo_wider c B (Some (user_of (fm_smallest f)))"
    "e = Some k \<Longrightarrow> hi_wider c E (Some (user_of (fm_largest f)))"
    using B(3,4) by (auto simp: inside_lt lo_wider_lt hi_wider_lt split: option.splits)
qed

lemma restart_less: "m < n \<Longrightarrow> m * Suc L + L < n * Suc L + r" for m n L r :: nat
  using mult_le_mono1 [of "Suc m" n "Suc L"] by simp

definition closes :: "FileMetaData list \<Rightarrow> nat \<Rightarrow> slice option \<Rightarrow> slice option \<Rightarrow> FileMetaData list \<Rightarrow> bool" where
  "closes files i b e inputs \<longleftrightarrow>
     (\<exists>b' e'. overlap_loop c True files i b e inputs = Some (filter (overlaps c b' e') files) \<and> least_closed c valid files b e b' e')"

text \<open>A restart from the extended range gives the result for the range.\<close>

lemma restart_closes:
  assumes ok: "\<forall>f \<in> set files. meta_ok c valid f" and i: "i < length files" and b: "bound_ok valid b" and e: "bound_ok valid e"
    and ov: "overlaps c b e (files ! i)" and out: "\<not> inside_range c b e (files ! i)"
    and restart: "\<And>b1 e1. bound_ok valid b1 \<Longrightarrow> bound_ok valid e1 \<Longrightarrow> outlying files b1 e1 < outlying files b e \<Longrightarrow> closes files 0 b1 e1 []"
  shows "closes files i b e inputs"
proof -
  let ?f = "files ! i"
  have f: "meta_ok c valid ?f" "?f \<in> set files" using ok i by auto
  note step = overlap_loop_step [OF f(1) i b e, of True inputs] and ext = extend_range [OF f ov b e]
  have uv: "user_of (fm_smallest ?f) \<in> valid" "user_of (fm_largest ?f) \<in> valid" using meta_okD [OF f(1)] by auto
  show ?thesis
  proof (cases "case b of None \<Rightarrow> False | Some k \<Rightarrow> lt (user_of (fm_smallest ?f)) k")
    case True
    then obtain k where k: "b = Some k" "lt (user_of (fm_smallest ?f)) k" "k \<in> valid"
      using b by (auto simp: bound_ok_def split: option.splits)
    let ?b = "Some (user_of (fm_smallest ?f))"
    have b1: "bound_ok valid ?b" using uv by (simp add: bound_ok_def)
    obtain b' e' where r: "overlap_loop c True files 0 ?b e [] = Some (filter (overlaps c b' e') files)"
      "least_closed c valid files ?b e b' e'"
      using restart [OF b1 e outlying_less(1) [OF ok f(2) k(1,3,2)]] unfolding closes_def by blast
    have "least_closed c valid files b e b' e'"
      by (rule least_closed_step [OF r(2) b e b1 e]) (use k lt_asym uv wider_refl e ext(1) in \<open>auto simp: lo_wider_lt\<close>)
    with step ov out True r(1) show ?thesis by (auto simp: closes_def)
  next
    case False
    then obtain k where k: "e = Some k" "lt k (user_of (fm_largest ?f))" "k \<in> valid"
      using out e by (auto simp: inside_lt bound_ok_def split: option.splits)
    let ?e = "Some (user_of (fm_largest ?f))"
    have e1: "bound_ok valid ?e" using uv by (simp add: bound_ok_def)
    obtain b' e' where r: "overlap_loop c True files 0 b ?e [] = Some (filter (overlaps c b' e') files)"
      "least_closed c valid files b ?e b' e'"
      using restart [OF b e1 outlying_less(2) [OF ok f(2) k(1,3,2)]] unfolding closes_def by blast
    have "least_closed c valid files b e b' e'"
      by (rule least_closed_step [OF r(2) b e b e1]) (use k lt_asym uv wider_refl b ext(2) in \<open>auto simp: hi_wider_lt\<close>)
    with step ov out False r(1) show ?thesis by (auto simp: closes_def)
  qed
qed

lemma overlap_loop_level0:
  assumes ok: "\<forall>f \<in> set files. meta_ok c valid f"
    and "bound_ok valid b" "bound_ok valid e" "i \<le> length files" "inputs = filter (overlaps c b e) (take i files)"
    and "\<forall>f \<in> set inputs. inside_range c b e f"
  shows "closes files i b e inputs"
  using assms(2-)
proof (induction "outlying files b e * Suc (length files) + (length files - i)" arbitrary: b e i inputs rule: less_induct)
  case less
  note b = less.prems(1) and e = less.prems(2)
  consider "\<not> i < length files" | "i < length files" "overlaps c b e (files ! i) \<longrightarrow> inside_range c b e (files ! i)"
    | "i < length files" "overlaps c b e (files ! i)" "\<not> inside_range c b e (files ! i)" by blast
  then show ?case
  proof cases
    case 1
    then have all: "inputs = filter (overlaps c b e) files" using less.prems by simp
    have "overlap_loop c True files i b e inputs = Some inputs" using 1 by (subst overlap_loop.simps) simp
    moreover have "least_closed c valid files b e b e"
      using b e wider_refl less.prems(5) by (auto simp: least_closed_def closed_range_def all)
    ultimately show ?thesis using all unfolding closes_def by blast
  next
    case 2
    let ?in = "if overlaps c b e (files ! i) then inputs @ [files ! i] else inputs"
    have "overlap_loop c True files i b e inputs = overlap_loop c True files (Suc i) b e ?in"
      using overlap_loop_step [OF _ 2(1) b e, of True inputs] ok 2 by simp
    moreover have "closes files (Suc i) b e ?in"
      by (rule less.hyps) (use 2 b e less.prems(4,5) in \<open>auto simp: take_Suc_conv_app_nth\<close>)
    ultimately show ?thesis by (simp add: closes_def)
  next
    case 3
    show ?thesis
    proof (rule restart_closes [OF ok 3(1) b e 3(2,3)])
      show "closes files 0 b1 e1 []" if o: "bound_ok valid b1" "bound_ok valid e1" "outlying files b1 e1 < outlying files b e" for b1 e1
        using less.hyps [of b1 e1 0 "[]"] restart_less [OF o(3)] o(1,2) by simp
    qed
  qed
qed

end

end
