(* ===== verification/Ldb_VersionGet.thy ===== *)
theory Ldb_VersionGet
  imports Ldb_VersionSpec Ldb_MemTable
begin

text \<open>
  Looking a key up in a version.  Every file has contents, sorted pairs of internal keys from the
  smallest to the largest key of the file, and the table cache answers from them.  When the
  levels are in order (the entries of a user key in a level are newer than those in the levels
  below it, and in level 0 those of a file with a larger number are newer), \<open>Get\<close> answers with the
  newest entry that the snapshot sees, as the memtable does.
\<close>

section \<open>The contents of files\<close>

definition num_of :: "slice \<Rightarrow> u64" where
  "num_of k = (case ikey_number k of Some n \<Rightarrow> n | None \<Rightarrow> 0)"

lemma num_of_append [simp]: "num_of (u @ EncodeFixed64 n) = n"
  by (simp add: num_of_def ikey_number_def)

definition file_entries :: "(slice \<times> slice) list \<Rightarrow> (slice \<times> u64 \<times> slice) set" where
  "file_entries kvs = (\<lambda>(k, v). (user_of k, num_of k, v)) ` set kvs"

definition newer_than :: "(slice \<times> u64 \<times> slice) set \<Rightarrow> (slice \<times> u64 \<times> slice) set \<Rightarrow> bool" where
  "newer_than A B \<longleftrightarrow> (\<forall>(u, n, v) \<in> A. \<forall>(u', n', v') \<in> B. u = u' \<longrightarrow> n' < n)"

definition file_holds :: "comparator \<Rightarrow> slice set \<Rightarrow> FileMetaData \<Rightarrow> (slice \<times> slice) list \<Rightarrow> bool" where
  "file_holds c valid f kvs \<longleftrightarrow> kvs \<noteq> [] \<and> fst (hd kvs) = fm_smallest f \<and> fst (last kvs) = fm_largest f \<and>
     sorted_pairs (InternalKeyComparator c) (ikeys valid) kvs \<and> (\<forall>kv \<in> set kvs. fst (ParseInternalKey (fst kv)))"

definition first_at :: "comparator \<Rightarrow> (slice \<times> slice) list \<Rightarrow> slice \<Rightarrow> (slice \<times> slice) option" where
  "first_at c kvs k = List.find (\<lambda>kv. \<not> is_before (InternalKeyComparator c) (fst kv) k) kvs"

text \<open>
  What the table cache has to answer: the first entry at or after the key, which a filter may hide
  when it has another user key.
\<close>

definition answers_from :: "comparator \<Rightarrow> table_get \<Rightarrow> FileMetaData \<Rightarrow> (slice \<times> slice) list \<Rightarrow> slice \<Rightarrow> bool" where
  "answers_from c tget f kvs k \<longleftrightarrow>
     (case first_at c kvs k of
        None \<Rightarrow> tget (fm_number f) (fm_file_size f) k = Some (OK, None)
      | Some kv \<Rightarrow> tget (fm_number f) (fm_file_size f) k = Some (OK, Some kv) \<or>
          user_of (fst kv) \<noteq> user_of k \<and> tget (fm_number f) (fm_file_size f) k = Some (OK, None))"

text \<open>What \<open>Get\<close> makes of the newest entry: a status and the value.\<close>

definition decided :: "(u64 \<times> slice) option \<Rightarrow> byte list \<Rightarrow> (Status \<times> byte list) option" where
  "decided r value =
     (case r of None \<Rightarrow> None
      | Some (n, v) \<Rightarrow> Some (if ucast (n AND 0xff) = kTypeValue then (OK, v) else (NotFound [] [], value)))"

lemma newer_thanD: "newer_than A B \<Longrightarrow> (u, n, v) \<in> A \<Longrightarrow> (u, n', v') \<in> B \<Longrightarrow> n' < n"
  by (force simp: newer_than_def)

lemma newer_than_UN: "newer_than A (\<Union>x \<in> S. B x) \<longleftrightarrow> (\<forall>x \<in> S. newer_than A (B x))"
  by (simp add: newer_than_def split_def) blast

lemma newest_union_Some:
  assumes "newest A u N (Some x)" "newer_than A B"
  shows "newest (A \<union> B) u N (Some x)"
proof (cases x)
  case (Pair n v)
  then have "n' \<le> n" if "(u, n', v') \<in> B" for n' v'
    using newer_thanD [OF assms(2) _ that, of n v] assms(1) by (simp add: newest_def)
  with assms(1) Pair show ?thesis by (auto simp: newest_def)
qed

lemma newest_union_None: "newest A u N None \<Longrightarrow> newest B u N r \<Longrightarrow> newest (A \<union> B) u N r"
  by (cases r) (auto simp: newest_def)

lemma newest_none: "newest S u N r \<Longrightarrow> \<forall>n v. (u, n, v) \<in> S \<longrightarrow> \<not> n \<le> N \<Longrightarrow> r = None"
  by (auto simp: newest_def split: option.splits)

abbreviation entries_of :: "(FileMetaData \<Rightarrow> (slice \<times> slice) list) \<Rightarrow> FileMetaData list \<Rightarrow> (slice \<times> u64 \<times> slice) set" where
  "entries_of cont fs \<equiv> \<Union>f \<in> set fs. file_entries (cont f)"

text \<open>The order of the levels that the lookup relies on.\<close>

definition levels_newer :: "(FileMetaData \<Rightarrow> (slice \<times> slice) list) \<Rightarrow> FileMetaData list list \<Rightarrow> bool" where
  "levels_newer cont levels \<longleftrightarrow> sorted_wrt (\<lambda>fs gs. newer_than (entries_of cont fs) (entries_of cont gs)) levels"

definition level0_newer :: "(FileMetaData \<Rightarrow> (slice \<times> slice) list) \<Rightarrow> FileMetaData list \<Rightarrow> bool" where
  "level0_newer cont files \<longleftrightarrow> distinct (map fm_number files) \<and>
     (\<forall>f \<in> set files. \<forall>g \<in> set files.
        fm_number f > fm_number g \<longrightarrow> newer_than (file_entries (cont f)) (file_entries (cont g)))"

context separating
begin

lemma ibefore_entry:
  assumes "u \<in> valid" "v \<in> valid"
  shows "ibefore (u @ EncodeFixed64 m) (v @ EncodeFixed64 n) \<longleftrightarrow> lt u v \<or> u = v \<and> m > n"
  unfolding InternalKeyComparator_def using ikey_lt [OF assms] by simp

lemma entry_form:
  assumes "file_holds c valid f kvs" "kv \<in> set kvs"
  obtains w n where "fst kv = w @ EncodeFixed64 n" "w \<in> valid" "(w, n, snd kv) \<in> file_entries kvs"
proof -
  have "fst kv \<in> ikeys valid" using assms by (auto simp: file_holds_def sorted_pairs_def)
  then obtain w n where w: "fst kv = w @ EncodeFixed64 n" "w \<in> valid" by (auto simp: ikeys_def)
  have "(w, n, snd kv) \<in> file_entries kvs"
    using assms(2) w(1) unfolding file_entries_def by (intro image_eqI [of _ _ kv]) (auto split: prod.splits)
  with w show ?thesis by (rule that)
qed

lemma entries_form:
  assumes "file_holds c valid f kvs" "(w, n, v) \<in> file_entries kvs"
  shows "(w @ EncodeFixed64 n, v) \<in> set kvs" "w \<in> valid"
proof -
  obtain k where k: "(k, v) \<in> set kvs" "w = user_of k" "n = num_of k" using assms(2) by (auto simp: file_entries_def)
  obtain w' n' where "fst (k, v) = w' @ EncodeFixed64 n'" "w' \<in> valid" by (rule entry_form [OF assms(1) k(1)])
  with k show "(w @ EncodeFixed64 n, v) \<in> set kvs" "w \<in> valid" by auto
qed

text \<open>The first entry at or after a lookup key is the newest one, if the user key is right.\<close>

lemma first_at_newest:
  assumes h: "file_holds c valid f kvs" and u: "u \<in> valid"
  shows "\<exists>r. newest (file_entries kvs) u N r \<and>
    (case r of None \<Rightarrow> \<forall>kv. first_at c kvs (u @ EncodeFixed64 N) = Some kv \<longrightarrow> user_of (fst kv) \<noteq> u
     | Some (n, v) \<Rightarrow> first_at c kvs (u @ EncodeFixed64 N) = Some (u @ EncodeFixed64 n, v))"
proof -
  let ?k = "u @ EncodeFixed64 N"
  have sorted: "sorted_pairs (InternalKeyComparator c) (ikeys valid) kvs" using h by (simp add: file_holds_def)
  have vis: "\<not> ibefore (u @ EncodeFixed64 n) ?k" if "n \<le> N" for n using that ibefore_entry [OF u u] lt_irrefl [OF u] by auto
  show ?thesis
  proof (cases "\<exists>kv. first_at c kvs ?k = Some kv \<and> user_of (fst kv) = u")
    case False
    have "\<not> n \<le> N" if "(u, n, v) \<in> file_entries kvs" for n v
    proof
      assume n: "n \<le> N"
      have e: "(u @ EncodeFixed64 n, v) \<in> set kvs" by (rule entries_form(1) [OF h that])
      then have "first_at c kvs ?k \<noteq> None" using vis [OF n] by (auto simp: first_at_def find_None_iff)
      then obtain i where i: "i < length kvs" "first_at c kvs ?k = Some (kvs ! i)" "\<not> ibefore (fst (kvs ! i)) ?k"
        "\<forall>j < i. ibefore (fst (kvs ! j)) ?k" by (auto simp: first_at_def find_Some_iff)
      obtain j where j: "j < length kvs" "kvs ! j = (u @ EncodeFixed64 n, v)" using e by (metis in_set_conv_nth)
      have "\<not> j < i" using i(4) vis [OF n] j(2) by (metis fst_conv)
      then have "i \<le> j" by simp
      obtain w m where w: "fst (kvs ! i) = w @ EncodeFixed64 m" "w \<in> valid" by (rule entry_form [OF h nth_mem [OF i(1)]])
      then have wu: "w \<noteq> u" using False i(2) by auto
      have "\<not> lt w u" using i(3) ibefore_entry [OF w(2) u] w(1) by auto
      moreover have "\<not> lt u w"
      proof (cases "i = j")
        case False
        then have "ibefore (fst (kvs ! i)) (fst (kvs ! j))" using \<open>i \<le> j\<close> sorted_pairsD(2) [OF sorted] j(1) by simp
        then show ?thesis using ibefore_entry [OF w(2) u] j(2) w(1) wu lt_asym [OF _ u w(2)] by auto
      qed (use j(2) w(1) wu in simp)
      ultimately show False using wu le_iff [OF w(2) u] not_lt [OF u w(2)] by blast
    qed
    with False show ?thesis by (intro exI [of _ None]) (auto simp: newest_def)
  next
    case True
    then obtain kv where kv: "first_at c kvs ?k = Some kv" "user_of (fst kv) = u" by blast
    then obtain i where i: "i < length kvs" "kv = kvs ! i" "\<not> ibefore (fst (kvs ! i)) ?k"
      "\<forall>j < i. ibefore (fst (kvs ! j)) ?k" by (auto simp: first_at_def find_Some_iff)
    obtain w n where w: "fst kv = w @ EncodeFixed64 n" "w \<in> valid" "(w, n, snd kv) \<in> file_entries kvs"
      by (rule entry_form [OF h nth_mem [OF i(1)], folded i(2)])
    have wu: "w = u" using w(1) kv(2) by simp
    have "n' \<le> n" if e: "(u, n', v') \<in> file_entries kvs" "n' \<le> N" for n' v'
    proof -
      obtain j where j: "j < length kvs" "kvs ! j = (u @ EncodeFixed64 n', v')"
        using entries_form(1) [OF h e(1)] by (metis in_set_conv_nth)
      have "\<not> j < i" using i(4) vis [OF e(2)] j(2) by (metis fst_conv)
      then have "i \<le> j" by simp
      then consider "i = j" | "ibefore (fst (kvs ! i)) (fst (kvs ! j))"
        using sorted_pairsD(2) [OF sorted _ j(1), of i] by fastforce
      then show ?thesis
      proof cases
        case 1
        with i(2) j(2) w(1) wu show ?thesis by auto
      next
        case 2
        with i(2) j(2) w(1) wu ibefore_entry [OF u u] lt_irrefl [OF u] show ?thesis by auto
      qed
    qed
    moreover have "n \<le> N" using i(3) unfolding i(2) [symmetric] w(1) wu ibefore_entry [OF u u] by auto
    ultimately show ?thesis
      using w wu kv(1) by (intro exI [of _ "Some (n, snd kv)"]) (auto simp: newest_def, metis prod.collapse)
  qed
qed


section \<open>The files of a level\<close>

lemma SaveValue_entry:
  assumes "u \<in> valid" "w \<in> valid" "fst (ParseInternalKey (w @ EncodeFixed64 n))"
  shows "SaveValue c u (w @ EncodeFixed64 n) v (kNotFoundYet, value) =
    Some (if w = u then if ucast (n AND 0xff) = kTypeValue then (kFound, v) else (kDeleted, value) else (kNotFoundYet, value))"
  using assms user_cmp [OF assms(2,1)] by (auto simp: SaveValue_def ParseInternalKey_def Let_def split: if_splits)

text \<open>Reading one file.\<close>

lemma get_file_step:
  assumes h: "file_holds c valid f kvs" and u: "u \<in> valid"
    and a: "answers_from c tget f kvs (u @ EncodeFixed64 N)"
  shows "\<exists>r g'. newest (file_entries kvs) u N r \<and>
    g_value g' = (case decided r (g_value g) of None \<Rightarrow> g_value g | Some (_, v) \<Rightarrow> v) \<and>
    get_files c tget u (u @ EncodeFixed64 N) level (f # fs) g =
      (case decided r (g_value g) of None \<Rightarrow> get_files c tget u (u @ EncodeFixed64 N) level fs g'
       | Some (s, _) \<Rightarrow> Some (Some s, g'))"
proof -
  let ?k = "u @ EncodeFixed64 N"
  obtain r where r: "newest (file_entries kvs) u N r" and first:
    "case r of None \<Rightarrow> \<forall>kv. first_at c kvs ?k = Some kv \<longrightarrow> user_of (fst kv) \<noteq> u
     | Some (n, v) \<Rightarrow> first_at c kvs ?k = Some (u @ EncodeFixed64 n, v)"
    using first_at_newest [OF h u] by blast
  have kept: "g_value (charge_seek g) = g_value g" by (simp add: charge_seek_def split: option.splits)
  show ?thesis
  proof (cases r)
    case None
    then have no: "\<forall>kv. first_at c kvs ?k = Some kv \<longrightarrow> user_of (fst kv) \<noteq> u" using first by simp
    have "\<exists>kv. tget (fm_number f) (fm_file_size f) ?k = Some (OK, kv) \<and>
        (case kv of None \<Rightarrow> Some (kNotFoundYet, g_value g) | Some (k, v) \<Rightarrow> SaveValue c u k v (kNotFoundYet, g_value g)) =
          Some (kNotFoundYet, g_value g)"
    proof (cases "first_at c kvs ?k")
      case (Some kv)
      then have kv: "kv \<in> set kvs" by (auto simp: first_at_def find_Some_iff)
      obtain w n where w: "fst kv = w @ EncodeFixed64 n" "w \<in> valid" by (rule entry_form [OF h kv])
      have "fst (ParseInternalKey (w @ EncodeFixed64 n))" using h kv w(1) by (auto simp: file_holds_def)
      from SaveValue_entry [OF u w(2) this, of "snd kv" "g_value g"] have
        "SaveValue c u (fst kv) (snd kv) (kNotFoundYet, g_value g) = Some (kNotFoundYet, g_value g)"
        using no Some w(1) by auto
      with a Some show ?thesis by (auto simp: answers_from_def split: prod.splits)
    qed (use a in \<open>simp add: answers_from_def\<close>)
    then obtain kv where kv: "tget (fm_number f) (fm_file_size f) ?k = Some (OK, kv)"
      "(case kv of None \<Rightarrow> Some (kNotFoundYet, g_value g) | Some (k, v) \<Rightarrow> SaveValue c u k v (kNotFoundYet, g_value g)) =
          Some (kNotFoundYet, g_value g)" by blast
    show ?thesis using None r kept kv
      by (intro exI [of _ r] exI [of _ "(charge_seek g)\<lparr>g_last := Some (f, level)\<rparr>"], cases kv; cases "charge_seek g")
        (auto simp: decided_def Let_def status_ok_def OK_def)
  next
    case (Some x)
    obtain n v where x: "x = (n, v)" by (cases x)
    have e: "(u, n, v) \<in> file_entries kvs" using r Some x by (simp add: newest_def)
    have kv: "first_at c kvs ?k = Some (u @ EncodeFixed64 n, v)" using first Some x by simp
    have "fst (ParseInternalKey (u @ EncodeFixed64 n))" using h entries_form(1) [OF h e] by (force simp: file_holds_def)
    from SaveValue_entry [OF u u this] a kv kept Some x r show ?thesis
      by (intro exI [of _ r]) (auto simp: answers_from_def decided_def Let_def status_ok_def OK_def)
  qed
qed

text \<open>Reading several files, the newer ones first.\<close>

lemma get_files_newest:
  assumes "\<forall>f \<in> set fs. file_holds c valid f (cont f) \<and> answers_from c tget f (cont f) (u @ EncodeFixed64 N)" and "u \<in> valid"
    and "sorted_wrt (\<lambda>f g. newer_than (file_entries (cont f)) (file_entries (cont g))) fs"
  shows "\<exists>r g'. newest (entries_of cont fs) u N r \<and>
    g_value g' = (case decided r (g_value g) of None \<Rightarrow> g_value g | Some (_, v) \<Rightarrow> v) \<and>
    get_files c tget u (u @ EncodeFixed64 N) level fs g = Some (map_option fst (decided r (g_value g)), g')"
  using assms(1,3)
proof (induction fs arbitrary: g)
  case Nil
  then show ?case by (intro exI [of _ None] exI [of _ g]) (simp add: newest_def decided_def)
next
  case (Cons f fs)
  then have "file_holds c valid f (cont f)" "answers_from c tget f (cont f) (u @ EncodeFixed64 N)" by simp_all
  from get_file_step [OF this(1) assms(2) this(2), of g level fs]
  obtain r g' where r: "newest (file_entries (cont f)) u N r"
    "g_value g' = (case decided r (g_value g) of None \<Rightarrow> g_value g | Some (_, v) \<Rightarrow> v)"
    "get_files c tget u (u @ EncodeFixed64 N) level (f # fs) g =
      (case decided r (g_value g) of None \<Rightarrow> get_files c tget u (u @ EncodeFixed64 N) level fs g'
       | Some (s, _) \<Rightarrow> Some (Some s, g'))" by blast
  show ?case
  proof (cases r)
    case None
    obtain r1 g1 where 1: "newest (entries_of cont fs) u N r1"
      "g_value g1 = (case decided r1 (g_value g') of None \<Rightarrow> g_value g' | Some (_, v) \<Rightarrow> v)"
      "get_files c tget u (u @ EncodeFixed64 N) level fs g' = Some (map_option fst (decided r1 (g_value g')), g1)"
      using Cons.IH [of g'] Cons.prems by auto
    have same: "g_value g' = g_value g" using r(2) None by (simp add: decided_def)
    have "newest (entries_of cont (f # fs)) u N r1" using newest_union_None [OF _ 1(1)] r(1) None by simp
    moreover have "get_files c tget u (u @ EncodeFixed64 N) level (f # fs) g = get_files c tget u (u @ EncodeFixed64 N) level fs g'"
      using r(3) None by (simp add: decided_def del: get_files.simps)
    ultimately show ?thesis using 1(2,3) unfolding same by metis
  next
    case (Some x)
    have "newer_than (file_entries (cont f)) (entries_of cont fs)"
      using Cons.prems(2) by (simp add: newer_than_UN)
    then have "newest (entries_of cont (f # fs)) u N r" using newest_union_Some r(1) Some by simp
    with r(2,3) Some show ?thesis
      by (intro exI [of _ r] exI [of _ g']) (auto simp: decided_def split: prod.splits)
  qed
qed


text \<open>The keys of a file lie between its smallest and its largest key.\<close>

lemma file_bounds:
  assumes h: "file_holds c valid f kvs" and kv: "kv \<in> set kvs"
  shows "\<not> ibefore (fst kv) (fm_smallest f)" "\<not> ibefore (fm_largest f) (fst kv)"
proof -
  have sorted: "sorted_pairs (InternalKeyComparator c) (ikeys valid) kvs" and ne: "kvs \<noteq> []"
    and ends: "fm_smallest f = fst (kvs ! 0)" "fm_largest f = fst (kvs ! (length kvs - 1))"
    using h by (auto simp: file_holds_def hd_conv_nth last_conv_nth)
  obtain i where i: "i < length kvs" "kv = kvs ! i" using kv by (metis in_set_conv_nth)
  have v: "fst (kvs ! j) \<in> ikeys valid" if "j < length kvs" for j using sorted_pairsD(1) [OF sorted that] .
  show "\<not> ibefore (fst kv) (fm_smallest f)"
  proof (cases "i = 0")
    case False
    then have "ibefore (fst (kvs ! 0)) (fst (kvs ! i))" using sorted_pairsD(2) [OF sorted] i(1) by simp
    from i_asym [OF this v v] show ?thesis using i ends ne by simp
  qed (use i ends i_irrefl [OF v] in simp)
  show "\<not> ibefore (fm_largest f) (fst kv)"
  proof (cases "i = length kvs - 1")
    case False
    then have "ibefore (fst (kvs ! i)) (fst (kvs ! (length kvs - 1)))" using sorted_pairsD(2) [OF sorted, of i "length kvs - 1"] i(1) by simp
    from i_asym [OF this v v] show ?thesis using i ends ne by simp
  qed (use i ends i_irrefl [OF v] in simp)
qed

lemma file_ends:
  assumes h: "file_holds c valid f kvs"
  shows "meta_ok c valid f" "\<exists>v. (fm_largest f, v) \<in> set kvs"
proof -
  have ne: "kvs \<noteq> []" "fst (hd kvs) = fm_smallest f" "fst (last kvs) = fm_largest f" using h by (auto simp: file_holds_def)
  have ends: "hd kvs \<in> set kvs" "last kvs \<in> set kvs" using ne by auto
  have "fst kv \<in> ikeys valid \<and> fst (ParseInternalKey (fst kv))" if "kv \<in> set kvs" for kv
    using h that by (auto simp: file_holds_def sorted_pairs_def)
  from this [OF ends(1)] this [OF ends(2)]
  have "fm_smallest f \<in> ikeys valid" "fm_largest f \<in> ikeys valid"
    "fst (ParseInternalKey (fm_smallest f))" "fst (ParseInternalKey (fm_largest f))" using ne by simp_all
  then show "meta_ok c valid f"
    using file_bounds(2) [OF h ends(1)] ne by (simp add: meta_ok_def)
  show "\<exists>v. (fm_largest f, v) \<in> set kvs" using ends(2) ne(3) by (metis prod.collapse)
qed

lemma entry_in_range:
  assumes h: "file_holds c valid f kvs" and e: "(u, n, v) \<in> file_entries kvs"
  shows "\<not> lt u (user_of (fm_smallest f))" "\<not> lt (user_of (fm_largest f)) u"
proof -
  have kv: "(u @ EncodeFixed64 n, v) \<in> set kvs" "u \<in> valid" using entries_form [OF h e] by auto
  have k: "u @ EncodeFixed64 n \<in> ikeys valid" using kv(2) by simp
  note ok = meta_okD [OF file_ends(1) [OF h]]
  show "\<not> lt u (user_of (fm_smallest f))"
    using file_bounds(1) [OF h kv(1)] ibefore_user(1) [OF k ok(1)] by auto
  show "\<not> lt (user_of (fm_largest f)) u"
    using file_bounds(2) [OF h kv(1)] ibefore_user(1) [OF ok(2) k] by auto
qed

lemma level0_files_filter:
  assumes "\<forall>f \<in> set files. meta_ok c valid f" and u: "u \<in> valid"
  shows "level0_files c u files =
    Some (filter (\<lambda>f. \<not> lt u (user_of (fm_smallest f)) \<and> \<not> lt (user_of (fm_largest f)) u) files)"
  using assms(1)
proof (induction files)
  case (Cons f files)
  then have "meta_ok c valid f" by simp
  note ok = meta_okD [OF this]
  have "key_in_file c u f = Some (\<not> lt u (user_of (fm_smallest f)) \<and> \<not> lt (user_of (fm_largest f)) u)"
    using ok user_cmp [OF u ok(5)] user_cmp [OF u ok(6)] by (auto simp: key_in_file_def)
  with Cons show ?case by simp
qed simp

lemma set_insert_newest [simp]: "set (insert_newest f gs) = insert f (set gs)"
  by (induction gs) auto

lemma insert_newest_sorted:
  "sorted_wrt (\<lambda>f g. fm_number f \<ge> fm_number g) gs \<Longrightarrow> sorted_wrt (\<lambda>f g. fm_number f \<ge> fm_number g) (insert_newest f gs)"
  by (induction gs) (auto simp: NewestFirst_def intro: order_trans)

lemma length_insert_newest [simp]: "length (insert_newest f gs) = Suc (length gs)"
  by (induction gs) auto

lemma sort_newest_set [simp]: "set (sort_newest fs) = set fs"
  by (induction fs) (simp_all add: sort_newest_def)

lemma sort_newest_sorted: "sorted_wrt (\<lambda>f g. fm_number f \<ge> fm_number g) (sort_newest fs)"
  by (induction fs) (simp_all add: sort_newest_def insert_newest_sorted)

lemma sort_newest_length: "length (sort_newest fs) = length fs"
  by (induction fs) (simp_all add: sort_newest_def)

lemma sort_newest_strict:
  assumes "distinct (map fm_number fs)"
  shows "sorted_wrt (\<lambda>f g. fm_number f > fm_number g) (sort_newest fs)"
proof -
  have "distinct (map fm_number (sort_newest fs))"
    using assms by (metis card_distinct distinct_card length_map list.set_map sort_newest_length sort_newest_set)
  with sort_newest_sorted [of fs] show ?thesis
    by (auto simp: sorted_wrt_iff_nth_less distinct_conv_nth order.order_iff_strict)
qed


text \<open>
  The files that are read decide for the whole level: \<open>sel\<close> are files of the level, newer ones
  first, and the newest entry in them is the newest of the level.
\<close>

definition selects :: "(FileMetaData \<Rightarrow> (slice \<times> slice) list) \<Rightarrow> slice \<Rightarrow> u64 \<Rightarrow> FileMetaData list \<Rightarrow> FileMetaData list \<Rightarrow> bool" where
  "selects cont u N files sel \<longleftrightarrow> set sel \<subseteq> set files \<and>
     sorted_wrt (\<lambda>f g. newer_than (file_entries (cont f)) (file_entries (cont g))) sel \<and>
     (\<forall>r. newest (entries_of cont sel) u N r \<longrightarrow> newest (entries_of cont files) u N r)"

lemma newest_same: "newest A u N r \<Longrightarrow> (\<And>n v. (u, n, v) \<in> A \<longleftrightarrow> (u, n, v) \<in> B) \<Longrightarrow> newest B u N r"
  by (auto simp: newest_def split: option.splits)

lemma selects_none:
  "\<forall>n v. (u, n, v) \<in> entries_of cont files \<longrightarrow> \<not> n \<le> N \<Longrightarrow> selects cont u N files []"
  by (auto simp: selects_def newest_def split: option.splits)

lemma selects_one:
  assumes "f \<in> set files" and "\<And>n v. (u, n, v) \<in> entries_of cont files \<Longrightarrow> n \<le> N \<Longrightarrow>
      \<exists>m v'. (u, m, v') \<in> file_entries (cont f) \<and> n \<le> m \<and> m \<le> N"
  shows "selects cont u N files [f]"
proof -
  have "newest (entries_of cont files) u N r" if r: "newest (file_entries (cont f)) u N r" for r
  proof (cases r)
    case None
    have "\<not> n \<le> N" if e: "(u, n, v) \<in> entries_of cont files" for n v
    proof
      assume "n \<le> N"
      from assms(2) [OF e this] r None show False by (auto simp: newest_def)
    qed
    with None show ?thesis by (auto simp: newest_def)
  next
    case (Some x)
    then obtain n v where x: "r = Some (n, v)" by (cases x) simp
    then have "n' \<le> n" if "(u, n', v') \<in> entries_of cont files" "n' \<le> N" for n' v'
      using r assms(2) [OF that] by (auto simp: newest_def intro: order_trans)
    with r assms(1) x show ?thesis by (auto simp: newest_def)
  qed
  with assms(1) show ?thesis by (simp add: selects_def)
qed

lemma level0_selects:
  assumes h: "\<forall>f \<in> set files. file_holds c valid f (cont f)" and u: "u \<in> valid"
    and d: "distinct (map fm_number files)"
    and newer: "\<forall>f \<in> set files. \<forall>g \<in> set files. fm_number f > fm_number g \<longrightarrow> newer_than (file_entries (cont f)) (file_entries (cont g))"
  shows "\<exists>sel. level_files c u k 0 files = Some sel \<and> selects cont u N files sel"
proof -
  let ?in = "\<lambda>f. \<not> lt u (user_of (fm_smallest f)) \<and> \<not> lt (user_of (fm_largest f)) u"
  let ?sel = "sort_newest (filter ?in files)"
  have "level0_files c u files = Some (filter ?in files)"
    by (rule level0_files_filter [OF _ u]) (use h file_ends(1) in blast)
  then have "level_files c u k 0 files = Some ?sel" by (simp add: level_files_def sort_newest_def)
  moreover have "selects cont u N files ?sel"
    unfolding selects_def
  proof (intro conjI allI impI)
    have "distinct (map fm_number (filter ?in files))" using d by (simp add: distinct_map_filter)
    from sort_newest_strict [OF this]
    show "sorted_wrt (\<lambda>f g. newer_than (file_entries (cont f)) (file_entries (cont g))) ?sel"
      by (rule sorted_wrt_mono_rel [rotated]) (use newer in auto)
    have "?in f" if "f \<in> set files" "(u, n, v) \<in> file_entries (cont f)" for f n v
      using entry_in_range [of f "cont f" u n v] h that by blast
    then have same: "(u, n, v) \<in> entries_of cont ?sel \<longleftrightarrow> (u, n, v) \<in> entries_of cont files" for n v by auto
    show "newest (entries_of cont files) u N r" if "newest (entries_of cont ?sel) u N r" for r
      by (rule newest_same [OF that]) (rule same)
  qed auto
  ultimately show ?thesis by blast
qed

text \<open>A file that ends before the lookup key has no entry that the snapshot sees.\<close>

lemma ended_file:
  assumes h: "file_holds c valid f kvs" and u: "u \<in> valid" and "ibefore (fm_largest f) (u @ EncodeFixed64 N)"
    and e: "(u, n, v) \<in> file_entries kvs"
  shows "\<not> n \<le> N"
proof
  assume n: "n \<le> N"
  have kv: "(u @ EncodeFixed64 n, v) \<in> set kvs" by (rule entries_form(1) [OF h e])
  have "u @ EncodeFixed64 n \<in> ikeys valid" "u @ EncodeFixed64 N \<in> ikeys valid" using u by simp_all
  from i_not_trans [OF file_bounds(2) [OF h kv, simplified fst_conv] assms(3) _ this]
  have "ibefore (u @ EncodeFixed64 n) (u @ EncodeFixed64 N)" using meta_okD(2) [OF file_ends(1) [OF h]] by simp
  then show False using n lt_irrefl [OF u] unfolding ibefore_entry [OF u u] by auto
qed

text \<open>
  When a file does not end before the lookup key and the entry is in a file behind it, the file
  ends with a newer entry of the same user key.
\<close>

lemma later_file:
  assumes f: "file_holds c valid f kvs" and g: "file_holds c valid g kvs'" and u: "u \<in> valid"
    and fg: "ibefore (fm_largest f) (fm_smallest g)" and nb: "\<not> ibefore (fm_largest f) (u @ EncodeFixed64 N)"
    and e: "(u, n, v) \<in> file_entries kvs'"
  shows "\<exists>m v'. (u, m, v') \<in> file_entries kvs \<and> n \<le> m \<and> m \<le> N"
proof -
  obtain v' where v': "(fm_largest f, v') \<in> set kvs" using file_ends(2) [OF f] by blast
  obtain w m where w: "fm_largest f = w @ EncodeFixed64 m" "w \<in> valid" "(w, m, v') \<in> file_entries kvs"
    using entry_form [OF f v'] by auto
  have kv: "(u @ EncodeFixed64 n, v) \<in> set kvs'" by (rule entries_form(1) [OF g e])
  have k: "u @ EncodeFixed64 n \<in> ikeys valid" using u by simp
  have "\<not> ibefore (u @ EncodeFixed64 n) (fm_smallest g)" using file_bounds(1) [OF g kv] by simp
  then have "ibefore (fm_largest f) (u @ EncodeFixed64 n)"
    using fg meta_okD(1) [OF file_ends(1) [OF g]] meta_okD(2) [OF file_ends(1) [OF f]] k
      weak_order.lt_le_trans [OF internal_weak] weak_order.not_lt [OF internal_weak] unfolding ibefore_lt by meson
  then have "lt w u \<or> w = u \<and> m > n" unfolding w(1) ibefore_entry [OF w(2) u] .
  moreover have "\<not> (lt w u \<or> w = u \<and> m > N)" using nb unfolding w(1) ibefore_entry [OF w(2) u] .
  ultimately show ?thesis using w(3) by (intro exI [of _ m] exI [of _ v']) (auto simp: not_less)
qed

lemma sorted_level_selects:
  assumes h: "\<forall>f \<in> set files. file_holds c valid f (cont f)" and u: "u \<in> valid" and l: "level_ok c valid files" and "level > 0"
  shows "\<exists>sel. level_files c u (u @ EncodeFixed64 N) level files = Some sel \<and> selects cont u N files sel"
proof -
  let ?k = "u @ EncodeFixed64 N"
  have k: "?k \<in> ikeys valid" using u by simp
  obtain i where i: "i \<le> length files" "FindFile (InternalKeyComparator c) files ?k = Some (of_nat i)"
    "\<And>h. h < i \<Longrightarrow> ibefore (fm_largest (files ! h)) ?k"
    "\<And>h. i \<le> h \<Longrightarrow> h < length files \<Longrightarrow> \<not> ibefore (fm_largest (files ! h)) ?k"
    by (rule FindFile_first [OF l k]) (rule that)
  have ui: "unat (of_nat i :: u32) = i" using i(1) level_okD(1) [OF l] by (intro unat_u32) simp
  have hold: "file_holds c valid (files ! j) (cont (files ! j))" if "j < length files" for j using h that by simp
  text \<open>An entry that the snapshot sees is not before the file \<open>i\<close>, and this file has one that is as new.\<close>
  have here: "i < length files \<and> (\<exists>m v'. (u, m, v') \<in> file_entries (cont (files ! i)) \<and> n \<le> m \<and> m \<le> N)"
    if e: "(u, n, v) \<in> entries_of cont files" and n: "n \<le> N" for n v
  proof -
    obtain j where j: "j < length files" "(u, n, v) \<in> file_entries (cont (files ! j))" using e by (auto simp: in_set_conv_nth)
    then have "\<not> j < i" using ended_file [OF hold [OF j(1)] u i(3) j(2)] n by blast
    moreover have ?thesis if ij: "i < j"
      using later_file [OF hold hold [OF j(1)] u level_okD(3) [OF l ij j(1)] i(4) j(2)] ij j(1) by simp
    ultimately show ?thesis using j n by (cases "j = i") auto
  qed
  show ?thesis
  proof (cases "i < length files")
    case False
    then have "selects cont u N files []" using here by (intro selects_none) blast
    with i(2) ui False \<open>level > 0\<close> show ?thesis by (auto simp: level_files_def)
  next
    case il: True
    let ?f = "files ! i"
    note ok = meta_okD [OF file_ends(1) [OF hold [OF il]]]
    obtain r where r: "Compare c u (user_of (fm_smallest ?f)) = Some r" "r < 0 \<longleftrightarrow> lt u (user_of (fm_smallest ?f))"
      using user_cmp [OF u ok(5)] by blast
    have out: "level_files c u ?k level files = Some (if r < 0 then [] else [?f])"
      using i(2) ui il r(1) ok(3) \<open>level > 0\<close> by (auto simp: level_files_def Let_def)
    have "selects cont u N files (if r < 0 then [] else [?f])"
    proof (cases "r < 0")
      case True
      have "\<not> n \<le> N" if e: "(u, n, v) \<in> entries_of cont files" for n v
      proof
        assume "n \<le> N"
        then obtain m v' where "(u, m, v') \<in> file_entries (cont ?f)" using here [OF e] by blast
        from entry_in_range(1) [OF hold [OF il] this] True r(2) show False by blast
      qed
      then have "selects cont u N files []" by (intro selects_none) blast
      with True show ?thesis by simp
    next
      case False
      have "selects cont u N files [?f]"
        by (rule selects_one) (use il here in \<open>simp, blast\<close>)
      with False show ?thesis by simp
    qed
    with out show ?thesis by blast
  qed
qed


section \<open>The levels in order\<close>

definition level_reads :: "(FileMetaData \<Rightarrow> (slice \<times> slice) list) \<Rightarrow> table_get \<Rightarrow> slice \<Rightarrow> FileMetaData list \<Rightarrow> bool" where
  "level_reads cont tget k files \<longleftrightarrow>
     (\<forall>f \<in> set files. file_holds c valid f (cont f) \<and> answers_from c tget f (cont f) k)"

lemma get_level_newest:
  assumes "level_reads cont tget (u @ EncodeFixed64 N) files" and "u \<in> valid"
    and "if level = 0 then level0_newer cont files else level_ok c valid files"
  shows "\<exists>sel r g'. level_files c u (u @ EncodeFixed64 N) level files = Some sel \<and>
    newest (entries_of cont files) u N r \<and>
    g_value g' = (case decided r (g_value g) of None \<Rightarrow> g_value g | Some (_, v) \<Rightarrow> v) \<and>
    get_files c tget u (u @ EncodeFixed64 N) level sel g = Some (map_option fst (decided r (g_value g)), g')"
proof -
  have h: "\<forall>f \<in> set files. file_holds c valid f (cont f)" using assms(1) by (simp add: level_reads_def)
  obtain sel where sel: "level_files c u (u @ EncodeFixed64 N) level files = Some sel" "selects cont u N files sel"
  proof (cases "level = 0")
    case True
    then have "distinct (map fm_number files)" "\<forall>f \<in> set files. \<forall>g \<in> set files.
        fm_number f > fm_number g \<longrightarrow> newer_than (file_entries (cont f)) (file_entries (cont g))"
      using assms(3) by (simp_all add: level0_newer_def)
    from level0_selects [OF h assms(2) this, of "u @ EncodeFixed64 N" N] True that show ?thesis by blast
  next
    case False
    with sorted_level_selects [OF h assms(2), of level N] assms(3) that show ?thesis by auto
  qed
  have "\<forall>f \<in> set sel. file_holds c valid f (cont f) \<and> answers_from c tget f (cont f) (u @ EncodeFixed64 N)"
    using assms(1) sel(2) by (auto simp: level_reads_def selects_def)
  from get_files_newest [OF this assms(2), of g level] sel show ?thesis unfolding selects_def by blast
qed

lemma get_levels_newest:
  assumes "\<forall>files \<in> set levels. level_reads cont tget (u @ EncodeFixed64 N) files" and "u \<in> valid"
    and "levels_newer cont levels"
    and "\<forall>i < length levels. if level + i = 0 then level0_newer cont (levels ! i) else level_ok c valid (levels ! i)"
  shows "\<exists>r g'. newest (\<Union>files \<in> set levels. entries_of cont files) u N r \<and>
    get_levels c tget u (u @ EncodeFixed64 N) level levels g =
      Some (case decided r (g_value g) of None \<Rightarrow> (NotFound [] [], g') | Some (s, v) \<Rightarrow> (s, g')) \<and>
    g_value g' = (case decided r (g_value g) of None \<Rightarrow> g_value g | Some (_, v) \<Rightarrow> v)"
  using assms(1,3,4)
proof (induction levels arbitrary: level g)
  case Nil
  then show ?case by (intro exI [of _ None] exI [of _ g]) (simp add: newest_def decided_def)
next
  case (Cons files levels)
  have "if level = 0 then level0_newer cont files else level_ok c valid files" using Cons.prems(3) by fastforce
  with get_level_newest [where tget = tget and g = g and N = N, OF _ assms(2) this] Cons.prems(1)
  obtain sel r g' where 1: "level_files c u (u @ EncodeFixed64 N) level files = Some sel"
    "newest (entries_of cont files) u N r"
    "g_value g' = (case decided r (g_value g) of None \<Rightarrow> g_value g | Some (_, v) \<Rightarrow> v)"
    "get_files c tget u (u @ EncodeFixed64 N) level sel g = Some (map_option fst (decided r (g_value g)), g')" by auto
  show ?case
  proof (cases r)
    case None
    have same: "g_value g' = g_value g" using 1(3) None by (simp add: decided_def)
    have "levels_newer cont levels" using Cons.prems(2) by (simp add: levels_newer_def)
    moreover have "\<forall>i < length levels. if (level + 1) + i = 0 then level0_newer cont (levels ! i) else level_ok c valid (levels ! i)"
      using Cons.prems(3) by fastforce
    ultimately obtain r1 g1 where 2: "newest (\<Union>files \<in> set levels. entries_of cont files) u N r1"
      "get_levels c tget u (u @ EncodeFixed64 N) (level + 1) levels g' =
        Some (case decided r1 (g_value g') of None \<Rightarrow> (NotFound [] [], g1) | Some (s, v) \<Rightarrow> (s, g1))"
      "g_value g1 = (case decided r1 (g_value g') of None \<Rightarrow> g_value g' | Some (_, v) \<Rightarrow> v)"
      using Cons.IH [of "level + 1" g'] Cons.prems(1) by auto
    have "newest (\<Union>files \<in> set (files # levels). entries_of cont files) u N r1"
      using newest_union_None [OF _ 2(1)] 1(2) None by simp
    moreover have "get_levels c tget u (u @ EncodeFixed64 N) level (files # levels) g =
        get_levels c tget u (u @ EncodeFixed64 N) (level + 1) levels g'"
      using 1(1,4) None by (simp add: decided_def)
    ultimately show ?thesis using 2(2,3) unfolding same by metis
  next
    case (Some x)
    have "newer_than (entries_of cont files) (\<Union>files \<in> set levels. entries_of cont files)"
      using Cons.prems(2) unfolding levels_newer_def by (simp add: newer_than_UN)
    then have "newest (\<Union>files \<in> set (files # levels). entries_of cont files) u N r" using newest_union_Some 1(2) Some by simp
    with 1(1,3,4) Some show ?thesis
      by (intro exI [of _ r] exI [of _ g']) (auto simp: decided_def split: prod.splits)
  qed
qed

end

end
