(* ===== verification/Ldb_DbGet.thy ===== *)
theory Ldb_DbGet
  imports Ldb_VersionGet
begin

text \<open>
  Reading a key from the database: \<open>DBImpl::Get\<close> (db/db_impl.cc) looks in the memtable, in the
  memtable that is being written to a table, if there is one, and in the files of the current
  version.  The mutex and the reference counts are not modelled; the snapshot is the sequence
  number of the caller or the last one.  The result is the status, the value, whether a
  compaction is to be scheduled, and the version with its counters.
\<close>

definition db_Get :: "comparator \<Rightarrow> table_get \<Rightarrow> memtable \<Rightarrow> memtable option \<Rightarrow> version \<Rightarrow> slice \<Rightarrow>
    SequenceNumber \<Rightarrow> byte list \<Rightarrow> (Status \<times> byte list \<times> bool \<times> version) option" where
  "db_Get ucmp tget mem imm current key snapshot val =
     do { let lkey = LookupKey_make key snapshot;
          let found_in = (\<lambda>m. case m of None \<Rightarrow> Some None
                 | Some m \<Rightarrow> do { (found, v, s) \<leftarrow> mt_Get m lkey;
                                  Some (if found then Some (case s of None \<Rightarrow> OK | Some s \<Rightarrow> s, case v of None \<Rightarrow> val | Some v \<Rightarrow> v)
                                        else None) });
          r \<leftarrow> found_in (Some mem);
          r \<leftarrow> (if r \<noteq> None then Some r else found_in imm);
          case r of
            Some (s, v) \<Rightarrow> Some (s, v, False, current)
          | None \<Rightarrow> do { (s, v, stats) \<leftarrow> v_Get ucmp tget current lkey val;
                        let (schedule, current) = v_UpdateStats current stats;
                        Some (s, v, schedule, current) } }"


section \<open>The newest entry anywhere\<close>

definition version_entries :: "(FileMetaData \<Rightarrow> (slice \<times> slice) list) \<Rightarrow> version \<Rightarrow> (slice \<times> u64 \<times> slice) set" where
  "version_entries cont v = (\<Union>files \<in> set (v_files v). \<Union>f \<in> set files. file_entries (cont f))"

definition version_ok :: "comparator \<Rightarrow> slice set \<Rightarrow> (FileMetaData \<Rightarrow> (slice \<times> slice) list) \<Rightarrow> version \<Rightarrow> bool" where
  "version_ok c valid cont v \<longleftrightarrow>
     (\<forall>files \<in> set (v_files v). \<forall>f \<in> set files. file_holds c valid f (cont f)) \<and>
     (\<forall>i < length (v_files v). if i = 0 then level0_newer cont (v_files v ! i) else level_ok c valid (v_files v ! i)) \<and>
     levels_newer cont (v_files v)"

text \<open>The table cache answers from the contents of every file of the version.\<close>

definition tables_answer :: "comparator \<Rightarrow> table_get \<Rightarrow> (FileMetaData \<Rightarrow> (slice \<times> slice) list) \<Rightarrow> version \<Rightarrow> slice \<Rightarrow> bool" where
  "tables_answer c tget cont v k \<longleftrightarrow>
     (\<forall>files \<in> set (v_files v). \<forall>f \<in> set files. answers_from c tget f (cont f) k)"

text \<open>The types of the entries of a memtable are the two that are written.\<close>

definition typed_entries :: "(slice \<times> u64 \<times> slice) set \<Rightarrow> bool" where
  "typed_entries S \<longleftrightarrow> (\<forall>(u, n, v) \<in> S. ucast (n AND 0xff) \<in> {kTypeValue, kTypeDeletion})"

definition read_result :: "(u64 \<times> slice) option \<Rightarrow> byte list \<Rightarrow> Status \<times> byte list" where
  "read_result r val = (case decided r val of None \<Rightarrow> (NotFound [] [], val) | Some x \<Rightarrow> x)"

lemma typed_newest: "newest S u N (Some (n, v)) \<Longrightarrow> typed_entries S \<Longrightarrow> ucast (n AND 0xff) = kTypeValue \<or> ucast (n AND 0xff) = kTypeDeletion"
  by (force simp: newest_def typed_entries_def)

context separating
begin

lemma v_Get_newest:
  assumes "version_ok c valid cont v" and "tables_answer c tget cont v (InternalKey u s kValueTypeForSeek)" and "u \<in> valid"
  shows "\<exists>r stats. newest (version_entries cont v) u (PackSequenceAndType s kValueTypeForSeek) r \<and>
    v_Get c tget v (LookupKey_make u s) val = Some (fst (read_result r val), snd (read_result r val), stats)"
proof -
  let ?N = "PackSequenceAndType s kValueTypeForSeek"
  have k: "InternalKey u s kValueTypeForSeek = u @ EncodeFixed64 ?N" by (simp add: InternalKey_def AppendInternalKey_eq)
  define g where "g = \<lparr>g_value = val, g_stats = \<lparr>gs_seek_file = None, gs_seek_file_level = - 1\<rparr>, g_last = None\<rparr>"
  obtain r g' where r: "newest (\<Union>files \<in> set (v_files v). entries_of cont files) u ?N r"
    "get_levels c tget u (u @ EncodeFixed64 ?N) 0 (v_files v) g =
      Some (case decided r (g_value g) of None \<Rightarrow> (NotFound [] [], g') | Some (s, v) \<Rightarrow> (s, g'))"
    "g_value g' = (case decided r (g_value g) of None \<Rightarrow> g_value g | Some (_, v) \<Rightarrow> v)"
    using get_levels_newest [of "v_files v" cont tget u ?N 0 g] assms
    by (auto simp: version_ok_def tables_answer_def level_reads_def k)
  have "v_Get c tget v (LookupKey_make u s) val = Some (fst (read_result r val), snd (read_result r val), g_stats g')"
    using r(2,3) unfolding v_Get_def LookupKey_make_sel k g_def [symmetric]
    by (auto simp: read_result_def g_def split: option.splits)
  with r(1) show ?thesis unfolding version_entries_def by blast
qed


text \<open>What the database makes of the answer of a memtable.\<close>

lemma answer_typed:
  assumes "newest S u N r" "typed_entries S"
  shows "answer r = (case r of None \<Rightarrow> (False, None, None)
    | Some (n, v) \<Rightarrow> if ucast (n AND 0xff) = kTypeValue then (True, Some v, None) else (True, None, Some (NotFound [] [])))"
  using typed_newest [of S u N] assms by (auto simp: answer_def split: option.splits)

lemma db_Get_newest:
  assumes u: "user_ok valid u" and m0: "mem_inv c valid mem E0" "typed_entries (set E0)"
    and m1: "case imm of None \<Rightarrow> E1 = [] | Some m \<Rightarrow> mem_inv c valid m E1" "typed_entries (set E1)"
    and v: "version_ok c valid cont v" "tables_answer c tget cont v (InternalKey u s kValueTypeForSeek)"
    and newer: "newer_than (set E0) (set E1 \<union> version_entries cont v)" "newer_than (set E1) (version_entries cont v)"
  shows "\<exists>r b v'. newest (set E0 \<union> set E1 \<union> version_entries cont v) u (PackSequenceAndType s kValueTypeForSeek) r \<and>
    db_Get c tget mem imm v u s val = Some (fst (read_result r val), snd (read_result r val), b, v')"
proof -
  let ?N = "PackSequenceAndType s kValueTypeForSeek" and ?V = "version_entries cont v"
  obtain r0 where r0: "newest (set E0) u ?N r0" "mt_Get mem (LookupKey_make u s) = Some (answer r0)"
    using Get [OF m0(1) u] by blast
  have "\<exists>r1. newest (set E1) u ?N r1 \<and> (case imm of None \<Rightarrow> r1 = None | Some m \<Rightarrow> mt_Get m (LookupKey_make u s) = Some (answer r1))"
    using Get [OF _ u, of _ E1 s] m1(1) by (cases imm) (auto simp: newest_def)
  then obtain r1 where r1: "newest (set E1) u ?N r1"
    "case imm of None \<Rightarrow> r1 = None | Some m \<Rightarrow> mt_Get m (LookupKey_make u s) = Some (answer r1)" by blast
  have uv: "u \<in> valid" using u by (simp add: user_ok_def)
  obtain r2 stats where r2: "newest ?V u ?N r2"
    "v_Get c tget v (LookupKey_make u s) val = Some (fst (read_result r2 val), snd (read_result r2 val), stats)"
    using v_Get_newest [OF v uv] by blast
  note a0 = answer_typed [OF r0(1) m0(2)] and a1 = answer_typed [OF r1(1) m1(2)]
  note result = read_result_def decided_def
  consider (memtable) x where "r0 = Some x" | (immutable) x where "r0 = None" "r1 = Some x" | (files) "r0 = None" "r1 = None"
    by (cases r0; cases r1) auto
  then show ?thesis
  proof cases
    case memtable
    then have "newest (set E0 \<union> set E1 \<union> ?V) u ?N r0"
      using newest_union_Some [OF _ newer(1), of u ?N x] r0(1) by (simp add: Un_assoc)
    moreover have "db_Get c tget mem imm v u s val = Some (fst (read_result r0 val), snd (read_result r0 val), False, v)"
      using memtable r0(2) a0 by (auto simp: db_Get_def Let_def result split: prod.splits)
    ultimately show ?thesis by blast
  next
    case immutable
    then have "newest (set E0 \<union> set E1 \<union> ?V) u ?N r1"
      using newest_union_Some [OF _ newer(2), of u ?N x] newest_union_None [of "set E0" u ?N] r0(1) r1(1) by (simp add: Un_assoc)
    moreover have "db_Get c tget mem imm v u s val = Some (fst (read_result r1 val), snd (read_result r1 val), False, v)"
      using immutable r0(2) r1(2) a0 a1 by (auto simp: db_Get_def Let_def result split: prod.splits option.splits)
    ultimately show ?thesis by blast
  next
    case files
    then have "newest (set E0 \<union> set E1 \<union> ?V) u ?N r2"
      using newest_union_None [of "set E0" u ?N] newest_union_None [of "set E1" u ?N] r0(1) r1(1) r2(1) by (simp add: Un_assoc)
    moreover have "db_Get c tget mem imm v u s val =
        Some (fst (read_result r2 val), snd (read_result r2 val), fst (v_UpdateStats v stats), snd (v_UpdateStats v stats))"
      using files r0(2) r1(2) r2(2) a0 a1 by (auto simp: db_Get_def Let_def split: prod.splits option.splits)
    ultimately show ?thesis by blast
  qed
qed

end

end
