(* ===== verification/Ldb_Builder.thy ===== *)
theory Ldb_Builder
  imports Ldb_Version
begin

text \<open>
  Applying version edits: \<open>VersionSet::Builder\<close> of db/version_set.cc, and the snapshot of a version
  as an edit (\<open>WriteSnapshot\<close>).

  The sets of the builder are lists: \<open>deleted_files\<close> without an order, \<open>added_files\<close> in the order of
  \<open>BySmallestKey\<close>.  The functions of the standard library are modelled by what they do on sorted
  sequences: \<open>std::set::insert\<close> keeps an equivalent element, \<open>std::upper_bound\<close> is the first
  position behind the elements that are not greater.  Reference counts are not modelled, except
  that a file that is added starts with one.  None is a failed assertion (or the call of \<open>abort\<close>), or
  a level outside the array.
\<close>

section \<open>The builder\<close>

definition BySmallestKey :: "comparator \<Rightarrow> FileMetaData \<Rightarrow> FileMetaData \<Rightarrow> bool option" where
  "BySmallestKey ucmp f1 f2 =
     do { r \<leftarrow> InternalKey_Compare ucmp (fm_smallest f1) (fm_smallest f2);
          Some (if r \<noteq> 0 then r < 0 else fm_number f1 < fm_number f2) }"

fun fileset_insert :: "comparator \<Rightarrow> FileMetaData \<Rightarrow> FileMetaData list \<Rightarrow> FileMetaData list option" where
  "fileset_insert ucmp f [] = Some [f]"
| "fileset_insert ucmp f (g # gs) =
     do { less \<leftarrow> BySmallestKey ucmp f g;
          if less then Some (f # g # gs)
          else do { greater \<leftarrow> BySmallestKey ucmp g f;
                    if greater then map_option (\<lambda>gs. g # gs) (fileset_insert ucmp f gs) else Some (g # gs) } }"

record level_state =
  ls_deleted_files :: "u64 list"
  ls_added_files :: "FileMetaData list"

text \<open>\<open>vb_compact_pointer\<close> is the array of the version set, which \<open>Apply\<close> updates.\<close>

record version_builder =
  vb_base :: version
  vb_levels :: "level_state list"
  vb_compact_pointer :: "byte list list"

definition Builder :: "byte list list \<Rightarrow> version \<Rightarrow> version_builder" where
  "Builder compact_pointer base =
     \<lparr>vb_base = base, vb_levels = replicate kNumLevels \<lparr>ls_deleted_files = [], ls_added_files = []\<rparr>,
      vb_compact_pointer = compact_pointer\<rparr>"

definition level_index :: "int \<Rightarrow> nat option" where
  "level_index level = (if 0 \<le> level \<and> level < int kNumLevels then Some (nat level) else None)"

fun apply_pointers :: "(int \<times> byte list) list \<Rightarrow> byte list list \<Rightarrow> byte list list option" where
  "apply_pointers [] ps = Some ps"
| "apply_pointers ((level, key) # rest) ps =
     do { l \<leftarrow> level_index level; k \<leftarrow> InternalKey_Encode key; apply_pointers rest (ps[l := k]) }"

fun apply_deleted :: "(int \<times> u64) list \<Rightarrow> level_state list \<Rightarrow> level_state list option" where
  "apply_deleted [] ls = Some ls"
| "apply_deleted ((level, number) # rest) ls =
     do { l \<leftarrow> level_index level;
          let s = ls ! l;
          apply_deleted rest
            (ls[l := s\<lparr>ls_deleted_files := List.insert number (ls_deleted_files s)\<rparr>]) }"

definition prepared :: "FileMetaData \<Rightarrow> FileMetaData" where
  "prepared f =
     (let seeks = sint (ucast (fm_file_size f div 16384) :: u32)
      in f\<lparr>fm_refs := 1, fm_allowed_seeks := if seeks < 100 then 100 else seeks\<rparr>)"

fun apply_new :: "comparator \<Rightarrow> (int \<times> FileMetaData) list \<Rightarrow> level_state list \<Rightarrow> level_state list option" where
  "apply_new ucmp [] ls = Some ls"
| "apply_new ucmp ((level, file) # rest) ls =
     do { l \<leftarrow> level_index level;
          let f = prepared file;
          let s = ls ! l;
          added \<leftarrow> fileset_insert ucmp f (ls_added_files s);
          apply_new ucmp rest
            (ls[l := \<lparr>ls_deleted_files = removeAll (fm_number f) (ls_deleted_files s), ls_added_files = added\<rparr>]) }"

definition vb_Apply :: "comparator \<Rightarrow> version_builder \<Rightarrow> version_edit \<Rightarrow> version_builder option" where
  "vb_Apply ucmp b edit =
     do { ps \<leftarrow> apply_pointers (ve_compact_pointers edit) (vb_compact_pointer b);
          ls \<leftarrow> apply_deleted (ve_deleted_files edit) (vb_levels b);
          ls \<leftarrow> apply_new ucmp (ve_new_files edit) ls;
          Some (b\<lparr>vb_compact_pointer := ps, vb_levels := ls\<rparr>) }"

text \<open>\<open>MaybeAddFile\<close> on the files that \<open>*v\<close> has in the level so far.\<close>

definition MaybeAddFile ::
    "comparator \<Rightarrow> nat \<Rightarrow> u64 list \<Rightarrow> FileMetaData \<Rightarrow> FileMetaData list \<Rightarrow> FileMetaData list option" where
  "MaybeAddFile ucmp level deleted f files =
     (if fm_number f \<in> set deleted then Some files
      else if level > 0 \<and> files \<noteq> []
      then do { r \<leftarrow> InternalKey_Compare ucmp (fm_largest (last files)) (fm_smallest f);
                if r < 0 then Some (files @ [f]) else None }
      else Some (files @ [f]))"

fun add_files :: "comparator \<Rightarrow> nat \<Rightarrow> u64 list \<Rightarrow> FileMetaData list \<Rightarrow> FileMetaData list \<Rightarrow> FileMetaData list option" where
  "add_files ucmp level deleted [] files = Some files"
| "add_files ucmp level deleted (f # fs) files =
     do { files \<leftarrow> MaybeAddFile ucmp level deleted f files; add_files ucmp level deleted fs files }"

text \<open>The base files up to \<open>std::upper_bound\<close>, and the rest.\<close>

fun upper_bound :: "comparator \<Rightarrow> FileMetaData \<Rightarrow> FileMetaData list \<Rightarrow> (FileMetaData list \<times> FileMetaData list) option" where
  "upper_bound ucmp f [] = Some ([], [])"
| "upper_bound ucmp f (g # gs) =
     do { less \<leftarrow> BySmallestKey ucmp f g;
          if less then Some ([], g # gs)
          else map_option (\<lambda>(before, rest). (g # before, rest)) (upper_bound ucmp f gs) }"

fun save_level :: "comparator \<Rightarrow> nat \<Rightarrow> u64 list \<Rightarrow> FileMetaData list \<Rightarrow> FileMetaData list \<Rightarrow> FileMetaData list \<Rightarrow>
    FileMetaData list option" where
  "save_level ucmp level deleted base [] files = add_files ucmp level deleted base files"
| "save_level ucmp level deleted base (f # added) files =
     do { (smaller, rest) \<leftarrow> upper_bound ucmp f base;
          files \<leftarrow> add_files ucmp level deleted smaller files;
          files \<leftarrow> MaybeAddFile ucmp level deleted f files;
          save_level ucmp level deleted rest added files }"

text \<open>The check that follows when assertions are compiled in.\<close>

fun no_overlap :: "comparator \<Rightarrow> FileMetaData list \<Rightarrow> bool option" where
  "no_overlap ucmp (f # g # fs) =
     do { r \<leftarrow> InternalKey_Compare ucmp (fm_largest f) (fm_smallest g);
          if r \<ge> 0 then Some False else no_overlap ucmp (g # fs) }"
| "no_overlap ucmp fs = Some True"

definition save_checked :: "comparator \<Rightarrow> nat \<Rightarrow> level_state \<Rightarrow> FileMetaData list \<Rightarrow> FileMetaData list option" where
  "save_checked ucmp level s base =
     do { files \<leftarrow> save_level ucmp level (ls_deleted_files s) base (ls_added_files s) [];
          ok \<leftarrow> (if level > 0 then no_overlap ucmp files else Some True);
          if ok then Some files else None }"

fun save_levels :: "comparator \<Rightarrow> nat \<Rightarrow> level_state list \<Rightarrow> FileMetaData list list \<Rightarrow> FileMetaData list list option" where
  "save_levels ucmp level (s # ls) (base # bases) =
     do { files \<leftarrow> save_checked ucmp level s base;
          rest \<leftarrow> save_levels ucmp (level + 1) ls bases;
          Some (files # rest) }"
| "save_levels ucmp level _ _ = Some []"

text \<open>\<open>SaveTo\<close> into a version that is new.\<close>

definition vb_SaveTo :: "comparator \<Rightarrow> version_builder \<Rightarrow> version option" where
  "vb_SaveTo ucmp b =
     do { levels \<leftarrow> save_levels ucmp 0 (vb_levels b) (v_files (vb_base b));
          Some (Version\<lparr>v_files := levels\<rparr>) }"


section \<open>The snapshot of a version\<close>

fun snapshot_pointers :: "nat \<Rightarrow> byte list list \<Rightarrow> version_edit \<Rightarrow> version_edit" where
  "snapshot_pointers level [] edit = edit"
| "snapshot_pointers level (p # ps) edit =
     snapshot_pointers (level + 1) ps (if p \<noteq> [] then SetCompactPointer edit (int level) p else edit)"

fun snapshot_files :: "nat \<Rightarrow> FileMetaData list \<Rightarrow> version_edit \<Rightarrow> version_edit" where
  "snapshot_files level [] edit = edit"
| "snapshot_files level (f # fs) edit =
     snapshot_files level fs
       (AddFile edit (int level) (fm_number f) (fm_file_size f) (fm_smallest f) (fm_largest f))"

fun snapshot_levels :: "nat \<Rightarrow> FileMetaData list list \<Rightarrow> version_edit \<Rightarrow> version_edit" where
  "snapshot_levels level [] edit = edit"
| "snapshot_levels level (fs # levels) edit = snapshot_levels (level + 1) levels (snapshot_files level fs edit)"

text \<open>The edit that \<open>WriteSnapshot\<close> encodes and appends to the log as one record.\<close>

definition snapshot_edit :: "comparator \<Rightarrow> byte list list \<Rightarrow> version \<Rightarrow> version_edit" where
  "snapshot_edit ucmp compact_pointer current =
     snapshot_levels 0 (v_files current)
       (snapshot_pointers 0 compact_pointer (SetComparatorName VersionEdit (bytes_of (cmp_Name ucmp))))"

end
