(* ===== verification/Ldb_BuilderSpec.thy ===== *)
theory Ldb_BuilderSpec
  imports Ldb_Builder Ldb_VersionSpec Ldb_Select "HOL-Library.Multiset"
begin

text \<open>
  What a builder stands for.  Each level is the set of its base files and added files without
  the deleted ones; an edit takes its deleted files out of this set and adds its new ones.
  \<open>SaveTo\<close> lists the set in the order of the smallest keys.  So a builder that is given a
  sequence of edits gives the version that the edits give one after the other.
\<close>

section \<open>The order of files\<close>

definition ends_ok :: "slice set \<Rightarrow> FileMetaData \<Rightarrow> bool" where
  "ends_ok valid f \<longleftrightarrow> fm_smallest f \<in> ikeys valid \<and> fm_largest f \<in> ikeys valid"

definition files_before :: "comparator \<Rightarrow> FileMetaData \<Rightarrow> FileMetaData \<Rightarrow> bool" where
  "files_before c f g \<longleftrightarrow> is_before (InternalKeyComparator c) (fm_smallest f) (fm_smallest g) \<or>
     fm_smallest f = fm_smallest g \<and> fm_number f < fm_number g"

text \<open>The order in which a level is saved, merging the base files and the added files.\<close>

definition insert_file :: "comparator \<Rightarrow> FileMetaData \<Rightarrow> FileMetaData list \<Rightarrow> FileMetaData list" where
  "insert_file c f gs = takeWhile (\<lambda>g. \<not> files_before c f g) gs @ f # dropWhile (\<lambda>g. \<not> files_before c f g) gs"

fun merge_files :: "comparator \<Rightarrow> FileMetaData list \<Rightarrow> FileMetaData list \<Rightarrow> FileMetaData list" where
  "merge_files c base [] = base"
| "merge_files c base (f # added) =
     takeWhile (\<lambda>g. \<not> files_before c f g) base @ f # merge_files c (dropWhile (\<lambda>g. \<not> files_before c f g) base) added"

text \<open>Neighbours in a level above 0 do not overlap.\<close>

definition chained :: "comparator \<Rightarrow> nat \<Rightarrow> FileMetaData list \<Rightarrow> bool" where
  "chained c level files \<longleftrightarrow>
     level = 0 \<or> successively (\<lambda>f g. is_before (InternalKeyComparator c) (fm_largest f) (fm_smallest g)) files"

definition kept :: "u64 list \<Rightarrow> FileMetaData list \<Rightarrow> FileMetaData list" where
  "kept deleted files = filter (\<lambda>f. fm_number f \<notin> set deleted) files"

text \<open>
  The reference: an edit changes the files of the levels at once, first the deleted files go, then
  each new file takes its place in the order.
\<close>

fun drop_deleted :: "(int \<times> u64) list \<Rightarrow> FileMetaData list list \<Rightarrow> FileMetaData list list" where
  "drop_deleted [] levels = levels"
| "drop_deleted ((level, number) # rest) levels =
     drop_deleted rest (levels[nat level := filter (\<lambda>f. fm_number f \<noteq> number) (levels ! nat level)])"

fun put_new :: "comparator \<Rightarrow> (int \<times> FileMetaData) list \<Rightarrow> FileMetaData list list \<Rightarrow> FileMetaData list list" where
  "put_new c [] levels = levels"
| "put_new c ((level, file) # rest) levels =
     put_new c rest (levels[nat level := insert_file c (prepared file) (levels ! nat level)])"

definition edit_levels :: "comparator \<Rightarrow> version_edit \<Rightarrow> FileMetaData list list \<Rightarrow> FileMetaData list list" where
  "edit_levels c e levels = put_new c (ve_new_files e) (drop_deleted (ve_deleted_files e) levels)"

text \<open>The builder on a sequence of edits.\<close>

fun apply_edits :: "comparator \<Rightarrow> version_edit list \<Rightarrow> version_builder \<Rightarrow> version_builder option" where
  "apply_edits c [] b = Some b"
| "apply_edits c (e # es) b = do { b \<leftarrow> vb_Apply c b e; apply_edits c es b }"

text \<open>
  The edits name levels that exist, keys that are not empty, and no number of a new file in a
  level is the number of another file of this level.
\<close>

definition edit_applies :: "slice set \<Rightarrow> version_edit \<Rightarrow> bool" where
  "edit_applies valid e \<longleftrightarrow>
     (\<forall>(l, k) \<in> set (ve_compact_pointers e). 0 \<le> l \<and> l < int kNumLevels \<and> k \<noteq> []) \<and>
     (\<forall>(l, n) \<in> set (ve_deleted_files e). 0 \<le> l \<and> l < int kNumLevels) \<and>
     (\<forall>(l, f) \<in> set (ve_new_files e). 0 \<le> l \<and> l < int kNumLevels \<and> ends_ok valid f)"

definition new_numbers :: "nat \<Rightarrow> (int \<times> FileMetaData) list \<Rightarrow> u64 list" where
  "new_numbers l fs = map (fm_number \<circ> snd) (filter (\<lambda>(k, f). k = int l) fs)"

definition fresh_files :: "(int \<times> FileMetaData) list \<Rightarrow> FileMetaData list list \<Rightarrow> bool" where
  "fresh_files fs levels \<longleftrightarrow> (\<forall>l < kNumLevels. distinct (map fm_number (levels ! l) @ new_numbers l fs))"

text \<open>The files of a version, listed as a builder lists them.\<close>

definition levels_ok :: "comparator \<Rightarrow> slice set \<Rightarrow> FileMetaData list list \<Rightarrow> bool" where
  "levels_ok c valid levels \<longleftrightarrow> length levels = kNumLevels \<and>
     (\<forall>fs \<in> set levels. sorted_wrt (files_before c) fs \<and> (\<forall>f \<in> set fs. ends_ok valid f))"

context separating
begin

abbreviation bs_lt :: "FileMetaData \<Rightarrow> FileMetaData \<Rightarrow> bool" where "bs_lt \<equiv> files_before c"

lemma i_key_order: "key_order (Compare (InternalKeyComparator c)) (ikeys valid)"
  using internal_key_order by (simp add: InternalKeyComparator_def)

lemmas i_eq_cases = key_order.eq_cases [OF i_key_order, unfolded ibefore_lt]

lemma InternalKey_Compare_some: "a \<in> ikeys valid \<Longrightarrow> b \<in> ikeys valid \<Longrightarrow>
    InternalKey_Compare c a b = Compare (InternalKeyComparator c) a b"
  using ikeys_nonempty [of a valid] ikeys_nonempty [of b valid]
  by (simp add: InternalKey_Compare_def InternalKey_Encode_def InternalKeyComparator_def)

lemma bs_ibefore: "bs_lt f g \<longleftrightarrow> ibefore (fm_smallest f) (fm_smallest g) \<or>
    fm_smallest f = fm_smallest g \<and> fm_number f < fm_number g"
  by (simp add: files_before_def)

lemma BySmallestKey_iff:
  assumes "ends_ok valid f" "ends_ok valid g"
  shows "BySmallestKey c f g = Some (bs_lt f g)"
proof -
  have k: "fm_smallest f \<in> ikeys valid" "fm_smallest g \<in> ikeys valid" using assms by (simp_all add: ends_ok_def)
  show ?thesis
  proof (rule i_eq_cases [OF k])
    fix r
    assume r: "Compare (InternalKeyComparator c) (fm_smallest f) (fm_smallest g) = Some r"
      "(r < 0) = ibefore (fm_smallest f) (fm_smallest g)" "(r = 0) = (fm_smallest f = fm_smallest g)"
    show ?thesis
      using i_irrefl [OF k(1)] r(2,3) unfolding BySmallestKey_def bs_ibefore InternalKey_Compare_some [OF k] r(1)
      by (cases "r = 0") simp_all
  qed
qed

lemma bs_irrefl: "ends_ok valid f \<Longrightarrow> \<not> bs_lt f f"
  using i_irrefl [of "fm_smallest f"] by (simp add: bs_ibefore ends_ok_def)

lemma bs_trans:
  assumes "bs_lt f g" "bs_lt g h" "ends_ok valid f" "ends_ok valid g" "ends_ok valid h"
  shows "bs_lt f h"
  using assms i_trans [of "fm_smallest f" "fm_smallest g" "fm_smallest h"] unfolding bs_ibefore ends_ok_def by auto

lemma bs_total:
  assumes "ends_ok valid f" "ends_ok valid g" "fm_number f \<noteq> fm_number g"
  shows "bs_lt f g \<or> bs_lt g f"
proof -
  have k: "fm_smallest f \<in> ikeys valid" "fm_smallest g \<in> ikeys valid" using assms by (simp_all add: ends_ok_def)
  have "ibefore (fm_smallest f) (fm_smallest g) \<or> fm_smallest f = fm_smallest g \<or> ibefore (fm_smallest g) (fm_smallest f)"
  proof (rule i_eq_cases [OF k])
    fix r :: int
    assume "(r < 0) = ibefore (fm_smallest f) (fm_smallest g)" "(r = 0) = (fm_smallest f = fm_smallest g)"
      "(0 < r) = ibefore (fm_smallest g) (fm_smallest f)"
    then show ?thesis by (meson linorder_less_linear)
  qed
  with assms(3) show ?thesis unfolding bs_ibefore by auto
qed


section \<open>Saving a level\<close>

lemma fileset_insert_new:
  assumes "ends_ok valid f" "\<And>g. g \<in> set gs \<Longrightarrow> ends_ok valid g" "fm_number f \<notin> fm_number ` set gs"
  shows "fileset_insert c f gs = Some (insert_file c f gs)"
  using assms(2,3)
proof (induction gs)
  case (Cons g gs)
  have "ends_ok valid g" "fm_number f \<noteq> fm_number g" using Cons.prems by auto
  then have "BySmallestKey c f g = Some (bs_lt f g)" "BySmallestKey c g f = Some (bs_lt g f)"
    "bs_lt f g \<or> bs_lt g f" using assms(1) BySmallestKey_iff bs_total by blast+
  then show ?case using Cons by (cases "bs_lt f g") (simp_all add: insert_file_def)
qed (simp add: insert_file_def)

lemma upper_bound_split:
  assumes "ends_ok valid f" "\<And>g. g \<in> set gs \<Longrightarrow> ends_ok valid g"
  shows "upper_bound c f gs = Some (takeWhile (\<lambda>g. \<not> bs_lt f g) gs, dropWhile (\<lambda>g. \<not> bs_lt f g) gs)"
  using assms(2) by (induction gs) (simp_all add: BySmallestKey_iff [OF assms(1)])

lemma MaybeAddFile_some:
  assumes "ends_ok valid f" "\<And>g. g \<in> set files \<Longrightarrow> ends_ok valid g" "chained c level files"
  shows "MaybeAddFile c level deleted f files =
    (if chained c level (files @ kept deleted [f]) then Some (files @ kept deleted [f]) else None)"
proof (cases "fm_number f \<in> set deleted \<or> level = 0 \<or> files = []")
  case True
  then show ?thesis using assms(3) by (auto simp: MaybeAddFile_def kept_def chained_def)
next
  case False
  then have e: "fm_largest (last files) \<in> ikeys valid" "fm_smallest f \<in> ikeys valid"
    using assms(1) assms(2) [OF last_in_set] by (simp_all add: ends_ok_def)
  obtain r where r: "Compare (InternalKeyComparator c) (fm_largest (last files)) (fm_smallest f) = Some r"
    using i_cases [OF e] by blast
  then show ?thesis using False assms(3)
    by (simp add: MaybeAddFile_def kept_def chained_def InternalKey_Compare_some [OF e] successively_append_iff
        is_before_def)
qed

lemma add_files_some:
  assumes "\<And>g. g \<in> set fs \<Longrightarrow> ends_ok valid g" "\<And>g. g \<in> set files \<Longrightarrow> ends_ok valid g" "chained c level files"
  shows "add_files c level deleted fs files =
    (if chained c level (files @ kept deleted fs) then Some (files @ kept deleted fs) else None)"
  using assms
proof (induction fs arbitrary: files)
  case (Cons f fs)
  have split: "kept deleted (f # fs) = kept deleted [f] @ kept deleted fs" by (simp add: kept_def)
  note step = MaybeAddFile_some [OF Cons.prems(1) Cons.prems(2,3), of f deleted]
  show ?case
  proof (cases "chained c level (files @ kept deleted [f])")
    case True
    have "g \<in> set (files @ kept deleted [f]) \<Longrightarrow> ends_ok valid g" for g
      using Cons.prems(1,2) by (auto simp: kept_def split: if_splits)
    from Cons.IH [OF Cons.prems(1) this True] step True show ?thesis by (simp add: split)
  next
    case False
    then have "\<not> chained c level (files @ kept deleted (f # fs))"
      unfolding split append_assoc [symmetric] chained_def by (auto simp: successively_append_iff)
    with step False show ?thesis by simp
  qed
qed (simp add: kept_def)

lemma add_files_append: "add_files c level deleted (fs @ gs) files =
    do { files \<leftarrow> add_files c level deleted fs files; add_files c level deleted gs files }"
proof (induction fs arbitrary: files)
  case (Cons f fs)
  then show ?case by (cases "MaybeAddFile c level deleted f files") simp_all
qed simp

lemma save_level_merge:
  assumes "\<And>g. g \<in> set base \<Longrightarrow> ends_ok valid g" "\<And>g. g \<in> set added \<Longrightarrow> ends_ok valid g"
  shows "save_level c level deleted base added files = add_files c level deleted (merge_files c base added) files"
  using assms
proof (induction added arbitrary: base files)
  case (Cons f added)
  have f: "ends_ok valid f" using Cons.prems by simp
  let ?rest = "dropWhile (\<lambda>g. \<not> bs_lt f g) base"
  have "g \<in> set ?rest \<Longrightarrow> ends_ok valid g" for g using Cons.prems(1) set_dropWhileD by fast
  then have "save_level c level deleted ?rest added files =
      add_files c level deleted (merge_files c ?rest added) files" for files
    using Cons.prems by (intro Cons.IH) auto
  then have "save_level c level deleted ?rest added = add_files c level deleted (merge_files c ?rest added)" by blast
  then show ?case using upper_bound_split [OF f Cons.prems(1)] by (simp add: add_files_append)
qed simp

lemma set_merge_files [simp]: "set (merge_files c base added) = set base \<union> set added"
proof (induction added arbitrary: base)
  case (Cons f added)
  have "set base = set (takeWhile P base) \<union> set (dropWhile P base)" for P
    by (metis set_append takeWhile_dropWhile_id)
  with Cons show ?case by auto
qed simp

lemma no_overlap_chained:
  assumes "\<And>g. g \<in> set files \<Longrightarrow> ends_ok valid g" "0 < level" "chained c level files"
  shows "no_overlap c files = Some True"
  using assms(1,3)
proof (induction files rule: induct_list012)
  case (3 f g fs)
  have e: "fm_largest f \<in> ikeys valid" "fm_smallest g \<in> ikeys valid" using 3(3) by (simp_all add: ends_ok_def)
  obtain r where r: "Compare (InternalKeyComparator c) (fm_largest f) (fm_smallest g) = Some r"
    using i_cases [OF e] by blast
  then show ?case using 3 assms(2) by (auto simp: InternalKey_Compare_some [OF e] chained_def is_before_def)
qed simp_all


lemma save_checked_some:
  assumes "\<And>g. g \<in> set base \<Longrightarrow> ends_ok valid g" "\<And>g. g \<in> set (ls_added_files s) \<Longrightarrow> ends_ok valid g"
  shows "save_checked c level s base =
    (let files = kept (ls_deleted_files s) (merge_files c base (ls_added_files s))
     in if chained c level files then Some files else None)"
proof -
  let ?m = "merge_files c base (ls_added_files s)"
  let ?k = "kept (ls_deleted_files s) ?m"
  have m: "g \<in> set ?m \<Longrightarrow> ends_ok valid g" for g using assms by auto
  then have k: "g \<in> set ?k \<Longrightarrow> ends_ok valid g" for g by (simp add: kept_def)
  have "chained c level []" by (simp add: chained_def)
  then have "save_level c level (ls_deleted_files s) base (ls_added_files s) [] =
      (if chained c level ?k then Some ?k else None)"
    using save_level_merge [OF assms] add_files_some [where fs = ?m and files = "[]"] m by simp
  then show ?thesis using no_overlap_chained [OF k, where level = level] by (auto simp: save_checked_def Let_def)
qed


section \<open>The order of a level\<close>

lemma bs_not_trans:
  assumes "\<not> bs_lt f g" "bs_lt f h" "ends_ok valid f" "ends_ok valid g" "ends_ok valid h" "fm_number f \<noteq> fm_number g"
  shows "bs_lt g h"
  using assms bs_total [of f g] bs_trans [of g f h] by blast

lemma sorted_insert_file:
  assumes "ends_ok valid f" "\<And>g. g \<in> set gs \<Longrightarrow> ends_ok valid g" "fm_number f \<notin> fm_number ` set gs"
    and "sorted_wrt bs_lt gs"
  shows "sorted_wrt bs_lt (insert_file c f gs)"
  using assms(2-4)
proof (induction gs)
  case (Cons g gs)
  have g: "ends_ok valid g" "fm_number f \<noteq> fm_number g" using Cons.prems by auto
  have IH: "sorted_wrt bs_lt (insert_file c f gs)" using Cons by simp
  show ?case
  proof (cases "bs_lt f g")
    case True
    then show ?thesis using Cons.prems bs_trans [OF True _ assms(1) g(1)] by (simp add: insert_file_def)
  next
    case False
    then have "bs_lt g f" using bs_total [OF assms(1) g] by blast
    moreover have "set (insert_file c f gs) = insert f (set gs)"
      unfolding insert_file_def by (metis Un_insert_right list.simps(15) set_append takeWhile_dropWhile_id)
    ultimately have "\<forall>h \<in> set (insert_file c f gs). bs_lt g h" using Cons.prems(3) by simp
    with IH False show ?thesis by (simp add: insert_file_def)
  qed
qed (simp add: insert_file_def)

lemma merge_files_insert: "merge_files c base [f] = insert_file c f base"
  by (simp add: insert_file_def)

lemma sorted_wrt_middle:
  assumes "sorted_wrt R (xs @ y # zs)"
  shows "sorted_wrt R xs" "sorted_wrt R zs" "x \<in> set xs \<Longrightarrow> R x y" "z \<in> set zs \<Longrightarrow> R y z"
    "x \<in> set xs \<Longrightarrow> z \<in> set zs \<Longrightarrow> R x z"
  using assms by (auto simp: sorted_wrt_append)

lemma sorted_merge_files:
  assumes "\<And>g. g \<in> set base \<union> set added \<Longrightarrow> ends_ok valid g"
    and "distinct (map fm_number (base @ added))" "sorted_wrt bs_lt base" "sorted_wrt bs_lt added"
  shows "sorted_wrt bs_lt (merge_files c base added)"
  using assms
proof (induction added arbitrary: base)
  case (Cons f added)
  let ?t = "takeWhile (\<lambda>g. \<not> bs_lt f g) base" and ?d = "dropWhile (\<lambda>g. \<not> bs_lt f g) base"
  have sub: "set ?t \<subseteq> set base" "set ?d \<subseteq> set base" by (auto dest: set_takeWhileD set_dropWhileD)
  have "sorted_wrt bs_lt (insert_file c f base)"
    by (rule sorted_insert_file) (use Cons.prems in auto)
  note i = sorted_wrt_middle [OF this [unfolded insert_file_def]]
  have "distinct (map fm_number (?t @ ?d))" using Cons.prems(2) by simp
  then have "distinct (map fm_number ?d)" unfolding map_append distinct_append by blast
  moreover have "fm_number ` set ?d \<inter> fm_number ` set added = {}"
  proof -
    have "fm_number ` set base \<inter> fm_number ` set added = {}" using Cons.prems(2) by auto
    then show ?thesis using image_mono [OF sub(2), of fm_number] by blast
  qed
  ultimately have "distinct (map fm_number (?d @ added))" using Cons.prems(2) by simp
  then have rest: "sorted_wrt bs_lt (merge_files c ?d added)"
    by (intro Cons.IH) (use Cons.prems(1,4) sub(2) i(2) in auto)
  have fa: "bs_lt f h" "ends_ok valid h" if "h \<in> set added" for h using Cons.prems(1,4) that by simp_all
  have t: "ends_ok valid g" "bs_lt g f" if "g \<in> set ?t" for g using that sub(1) Cons.prems(1) i(3) by blast+
  have f: "ends_ok valid f" using Cons.prems(1) by simp
  have "bs_lt g h" if "g \<in> set ?t" "h \<in> set added" for g h
    by (rule bs_trans [OF t(2) [OF that(1)] fa(1) [OF that(2)] t(1) [OF that(1)] f fa(2) [OF that(2)]])
  with i(5) have gh: "\<forall>g \<in> set ?t. \<forall>h \<in> insert f (set ?d \<union> set added). bs_lt g h" using t(2) by blast
  have fh: "\<forall>h \<in> set ?d \<union> set added. bs_lt f h" using i(4) fa(1) by blast
  show ?case
    unfolding merge_files.simps sorted_wrt_append sorted_wrt.simps list.set(2) set_merge_files
    using i(1) gh fh rest by blast
qed simp


section \<open>What a level of the builder stands for\<close>

definition level_view :: "FileMetaData list \<Rightarrow> level_state \<Rightarrow> FileMetaData set" where
  "level_view base s = {f \<in> set base \<union> set (ls_added_files s). fm_number f \<notin> set (ls_deleted_files s)}"

definition level_state_ok :: "FileMetaData list \<Rightarrow> level_state \<Rightarrow> bool" where
  "level_state_ok base s \<longleftrightarrow> (\<forall>f \<in> set base \<union> set (ls_added_files s). ends_ok valid f) \<and>
     distinct (map fm_number (base @ ls_added_files s)) \<and>
     sorted_wrt bs_lt base \<and> sorted_wrt bs_lt (ls_added_files s)"

definition stands_for :: "FileMetaData list \<Rightarrow> level_state \<Rightarrow> FileMetaData list \<Rightarrow> bool" where
  "stands_for base s files \<longleftrightarrow> level_state_ok base s \<and> set files = level_view base s \<and> sorted_wrt bs_lt files"

lemma bs_asym: "bs_lt f g \<Longrightarrow> ends_ok valid f \<Longrightarrow> ends_ok valid g \<Longrightarrow> \<not> bs_lt g f"
  using bs_trans [of f g f] bs_irrefl [of f] by blast

lemma kept_merge_files:
  assumes "stands_for base s files"
  shows "kept (ls_deleted_files s) (merge_files c base (ls_added_files s)) = files"
proof (rule sorted_wrt_unique [of _ bs_lt])
  let ?k = "kept (ls_deleted_files s) (merge_files c base (ls_added_files s))"
  have ok: "level_state_ok base s" using assms by (simp add: stands_for_def)
  have "sorted_wrt bs_lt (merge_files c base (ls_added_files s))"
    by (rule sorted_merge_files) (use ok in \<open>auto simp: level_state_ok_def\<close>)
  then show "sorted_wrt bs_lt ?k" unfolding kept_def by (rule sorted_wrt_filter)
  show "sorted_wrt bs_lt files" "set ?k = set files"
    using assms by (auto simp: stands_for_def level_view_def kept_def)
  have e: "ends_ok valid f" if "f \<in> set ?k" for f using ok that by (auto simp: level_state_ok_def kept_def)
  show "\<not> bs_lt g f" if "f \<in> set ?k" "g \<in> set ?k" "bs_lt f g" for f g
    by (rule bs_asym [OF that(3) e [OF that(1)] e [OF that(2)]])
qed

lemma stands_for_delete:
  assumes "stands_for base s files"
  shows "stands_for base (s\<lparr>ls_deleted_files := List.insert n (ls_deleted_files s)\<rparr>)
    (filter (\<lambda>f. fm_number f \<noteq> n) files)"
  using assms by (auto simp: stands_for_def level_state_ok_def level_view_def sorted_wrt_filter)

lemma set_insert_file [simp]: "set (insert_file c f gs) = insert f (set gs)"
  using set_merge_files [of gs "[f]"] by (simp only: merge_files_insert) simp

lemma mset_insert_file: "mset (insert_file c f gs) = add_mset f (mset gs)"
proof -
  let ?P = "\<lambda>g. \<not> bs_lt f g"
  have "mset gs = mset (takeWhile ?P gs) + mset (dropWhile ?P gs)" by (metis mset_append takeWhile_dropWhile_id)
  then show ?thesis by (simp add: insert_file_def)
qed

lemma distinct_insert_file:
  "distinct (map h (xs @ insert_file c f gs) @ ys) \<longleftrightarrow> distinct (map h (xs @ gs) @ h f # ys)"
  by (rule mset_eq_imp_distinct_iff) (simp add: mset_insert_file)

lemma stands_for_insert:
  assumes "stands_for base s files" and "ends_ok valid f"
    and "fm_number f \<notin> fm_number ` (set base \<union> set (ls_added_files s))"
  shows "stands_for base
    \<lparr>ls_deleted_files = removeAll (fm_number f) (ls_deleted_files s), ls_added_files = insert_file c f (ls_added_files s)\<rparr>
    (insert_file c f files)"
proof -
  have ok: "level_state_ok base s" and files: "set files = level_view base s" "sorted_wrt bs_lt files"
    using assms(1) by (simp_all add: stands_for_def)
  have "sorted_wrt bs_lt (insert_file c f (ls_added_files s))" "sorted_wrt bs_lt (insert_file c f files)"
    by (rule sorted_insert_file; use assms ok files in \<open>auto simp: level_state_ok_def level_view_def\<close>)+
  moreover have "distinct (map fm_number (base @ insert_file c f (ls_added_files s)))"
    using distinct_insert_file [of fm_number base f "ls_added_files s" "[]"] ok assms(3)
    by (auto simp: level_state_ok_def)
  moreover have "fm_number g \<noteq> fm_number f" if "g \<in> set base \<union> set (ls_added_files s)" for g
    using assms(3) that by (metis imageI)
  ultimately show ?thesis using ok assms(2) files(1)
    by (auto simp: stands_for_def level_state_ok_def level_view_def)
qed


section \<open>Edits\<close>

text \<open>All levels of a builder; \<open>todo\<close> are the new files that are still to come.\<close>

definition levels_stand :: "FileMetaData list list \<Rightarrow> (int \<times> FileMetaData) list \<Rightarrow> level_state list \<Rightarrow>
    FileMetaData list list \<Rightarrow> bool" where
  "levels_stand bases todo ss levels \<longleftrightarrow>
     length bases = kNumLevels \<and> length ss = kNumLevels \<and> length levels = kNumLevels \<and>
     (\<forall>l < kNumLevels. stands_for (bases ! l) (ss ! l) (levels ! l) \<and>
        distinct (map fm_number (bases ! l @ ls_added_files (ss ! l)) @ new_numbers l todo))"

lemma level_index_some: "0 \<le> l \<Longrightarrow> l < int kNumLevels \<Longrightarrow> level_index l = Some (nat l) \<and> nat l < kNumLevels"
  by (simp add: level_index_def nat_less_iff)

lemma apply_pointers_some:
  assumes "\<forall>(l, k) \<in> set cs. 0 \<le> l \<and> l < int kNumLevels \<and> k \<noteq> []"
  shows "\<exists>ps'. apply_pointers cs ps = Some ps'"
  using assms
proof (induction cs arbitrary: ps)
  case (Cons x cs)
  obtain l k where x: "x = (l, k)" by force
  with Cons.prems have "level_index l = Some (nat l)" "InternalKey_Encode k = Some k"
    using level_index_some [of l] by (auto simp: InternalKey_Encode_def)
  with x Cons show ?case by simp
qed simp

lemma apply_deleted_stands:
  assumes "\<forall>(l, n) \<in> set ds. 0 \<le> l \<and> l < int kNumLevels" and "levels_stand bases todo ss levels"
  shows "\<exists>ss'. apply_deleted ds ss = Some ss' \<and> levels_stand bases todo ss' (drop_deleted ds levels)"
  using assms
proof (induction ds arbitrary: ss levels)
  case (Cons x ds)
  obtain l n where x: "x = (l, n)" by force
  with Cons.prems(1) have l: "level_index l = Some (nat l)" "nat l < kNumLevels"
    using level_index_some [of l] by auto
  let ?l = "nat l"
  let ?ss = "ss[?l := (ss ! ?l)\<lparr>ls_deleted_files := List.insert n (ls_deleted_files (ss ! ?l))\<rparr>]"
  let ?levels = "levels[?l := filter (\<lambda>f. fm_number f \<noteq> n) (levels ! ?l)]"
  have "levels_stand bases todo ?ss ?levels"
    using Cons.prems(2) stands_for_delete [of "bases ! ?l" "ss ! ?l" "levels ! ?l" n] l(2)
    by (auto simp: levels_stand_def nth_list_update)
  with Cons.IH Cons.prems(1) x l show ?case by (simp add: Let_def)
qed simp

lemma prepared_simps [simp]: "fm_number (prepared f) = fm_number f" "fm_smallest (prepared f) = fm_smallest f"
    "fm_largest (prepared f) = fm_largest f" "ends_ok v (prepared f) = ends_ok v f"
  by (simp_all add: prepared_def Let_def ends_ok_def)

lemma apply_new_stands:
  assumes "\<forall>(l, f) \<in> set fs. 0 \<le> l \<and> l < int kNumLevels \<and> ends_ok valid f"
    and "levels_stand bases (fs @ todo) ss levels"
  shows "\<exists>ss'. apply_new c fs ss = Some ss' \<and> levels_stand bases todo ss' (put_new c fs levels)"
  using assms
proof (induction fs arbitrary: ss levels)
  case (Cons x fs)
  obtain l f where x: "x = (l, f)" by force
  with Cons.prems(1) have l: "level_index l = Some (nat l)" "nat l < kNumLevels" "int (nat l) = l" and f: "ends_ok valid f"
    using level_index_some [of l] by auto
  let ?l = "nat l" and ?f = "prepared f"
  let ?s = "ss ! ?l"
  let ?ss = "ss[?l := \<lparr>ls_deleted_files = removeAll (fm_number ?f) (ls_deleted_files ?s),
    ls_added_files = insert_file c ?f (ls_added_files ?s)\<rparr>]"
  let ?levels = "levels[?l := insert_file c ?f (levels ! ?l)]"
  have at: "stands_for (bases ! k) (ss ! k) (levels ! k)"
    "distinct (map fm_number (bases ! k @ ls_added_files (ss ! k)) @ new_numbers k ((l, f) # fs @ todo))"
    if "k < kNumLevels" for k using Cons.prems(2) that x by (simp_all add: levels_stand_def)
  have fresh: "fm_number ?f \<notin> fm_number ` (set (bases ! ?l) \<union> set (ls_added_files ?s))"
    using at(2) [OF l(2)] l(3) by (auto simp: new_numbers_def)
  have ins: "fileset_insert c ?f (ls_added_files ?s) = Some (insert_file c ?f (ls_added_files ?s))"
    using at(1) [OF l(2)] f fresh by (intro fileset_insert_new) (auto simp: stands_for_def level_state_ok_def)
  have "levels_stand bases (fs @ todo) ?ss ?levels"
    unfolding levels_stand_def
  proof (intro conjI allI impI)
    fix k assume k: "k < kNumLevels"
    note len = Cons.prems(2) [unfolded levels_stand_def]
    show "stands_for (bases ! k) (?ss ! k) (?levels ! k)"
      using at(1) [OF k] stands_for_insert [OF at(1) [OF l(2)], of ?f] f fresh len k
      by (cases "k = ?l") simp_all
    show "distinct (map fm_number (bases ! k @ ls_added_files (?ss ! k)) @ new_numbers k (fs @ todo))"
    proof (cases "k = ?l")
      case True
      have "?ss ! ?l = \<lparr>ls_deleted_files = removeAll (fm_number ?f) (ls_deleted_files ?s),
          ls_added_files = insert_file c ?f (ls_added_files ?s)\<rparr>"
        by (rule nth_list_update_eq) (use len l(2) in simp)
      moreover have "new_numbers ?l ((l, f) # fs @ todo) = fm_number ?f # new_numbers ?l (fs @ todo)"
        using l(3) by (simp add: new_numbers_def)
      ultimately show ?thesis
        using at(2) [OF l(2)] unfolding True by (simp only: distinct_insert_file level_state.select_convs)
    next
      case False
      then have "new_numbers k ((l, f) # fs @ todo) = new_numbers k (fs @ todo)" using l(3) by (auto simp: new_numbers_def)
      with False at(2) [OF k] show ?thesis by simp
    qed
  qed (use Cons.prems(2) in \<open>simp_all add: levels_stand_def\<close>)
  with Cons.IH Cons.prems(1) x l(1) ins show ?case by (simp add: Let_def)
qed simp


lemma vb_Apply_stands:
  assumes "edit_applies valid e" and "levels_stand (v_files (vb_base b)) (ve_new_files e @ todo) (vb_levels b) levels"
  shows "\<exists>b'. vb_Apply c b e = Some b' \<and> vb_base b' = vb_base b \<and>
    levels_stand (v_files (vb_base b)) todo (vb_levels b') (edit_levels c e levels)"
proof -
  obtain ps where ps: "apply_pointers (ve_compact_pointers e) (vb_compact_pointer b) = Some ps"
    using apply_pointers_some [of "ve_compact_pointers e" "vb_compact_pointer b"] assms(1) by (auto simp: edit_applies_def)
  obtain ss where ss: "apply_deleted (ve_deleted_files e) (vb_levels b) = Some ss"
    "levels_stand (v_files (vb_base b)) (ve_new_files e @ todo) ss (drop_deleted (ve_deleted_files e) levels)"
    using apply_deleted_stands [OF _ assms(2), of "ve_deleted_files e"] assms(1) by (auto simp: edit_applies_def)
  obtain ss' where "apply_new c (ve_new_files e) ss = Some ss'"
    "levels_stand (v_files (vb_base b)) todo ss' (edit_levels c e levels)"
    using apply_new_stands [OF _ ss(2)] assms(1) unfolding edit_applies_def edit_levels_def by blast
  with ps ss(1) show ?thesis by (simp add: vb_Apply_def)
qed

lemma apply_edits_stands:
  assumes "\<forall>e \<in> set es. edit_applies valid e"
    and "levels_stand (v_files (vb_base b)) (concat (map ve_new_files es) @ todo) (vb_levels b) levels"
  shows "\<exists>b'. apply_edits c es b = Some b' \<and> vb_base b' = vb_base b \<and>
    levels_stand (v_files (vb_base b)) todo (vb_levels b') (fold (edit_levels c) es levels)"
  using assms
proof (induction es arbitrary: b levels)
  case (Cons e es)
  from Cons.prems obtain b' where b: "vb_Apply c b e = Some b'" "vb_base b' = vb_base b"
    "levels_stand (v_files (vb_base b)) (concat (map ve_new_files es) @ todo) (vb_levels b') (edit_levels c e levels)"
    using vb_Apply_stands [of e b "concat (map ve_new_files es) @ todo" levels] by auto
  with Cons.IH [of b' "edit_levels c e levels"] Cons.prems(1) show ?case by simp
qed simp

lemma new_numbers_append: "new_numbers l (fs @ gs) = new_numbers l fs @ new_numbers l gs"
  by (simp add: new_numbers_def)

lemma fresh_files_append: "fresh_files (fs @ gs) levels \<Longrightarrow> fresh_files fs levels"
  by (auto simp: fresh_files_def new_numbers_append)

lemma Builder_base [simp]: "vb_base (Builder pointers base) = base"
  by (simp add: Builder_def)

lemma Builder_stands:
  assumes "levels_ok c valid (v_files base)" and "fresh_files fs (v_files base)"
  shows "levels_stand (v_files base) fs (vb_levels (Builder pointers base)) (v_files base)"
  using assms by (auto simp: levels_stand_def levels_ok_def fresh_files_def stands_for_def level_state_ok_def
      level_view_def Builder_def)

lemma levels_stand_ok:
  assumes "levels_stand bases todo ss levels"
  shows "levels_ok c valid levels" "fresh_files todo levels"
proof -
  have len: "length levels = kNumLevels" using assms by (simp add: levels_stand_def)
  have at: "stands_for (bases ! l) (ss ! l) (levels ! l)" if "l < kNumLevels" for l
    using assms that by (simp add: levels_stand_def)
  have e: "ends_ok valid f" if "l < kNumLevels" "f \<in> set (levels ! l)" for l f
    using at [OF that(1)] that(2) by (auto simp: stands_for_def level_state_ok_def level_view_def)
  show "levels_ok c valid levels"
    unfolding levels_ok_def
  proof (intro conjI ballI len)
    fix files assume "files \<in> set levels"
    then obtain l where l: "l < kNumLevels" "files = levels ! l" by (auto simp: in_set_conv_nth len)
    with at [OF l(1)] show "sorted_wrt bs_lt files" by (simp add: stands_for_def)
    fix f assume "f \<in> set files"
    with e l show "ends_ok valid f" by simp
  qed
  show "fresh_files todo levels"
    unfolding fresh_files_def
  proof (intro allI impI)
    fix l assume l: "l < kNumLevels"
    let ?all = "bases ! l @ ls_added_files (ss ! l)"
    have sub: "set (levels ! l) \<subseteq> set ?all" and so: "sorted_wrt bs_lt (levels ! l)"
      using at [OF l] by (auto simp: stands_for_def level_view_def)
    have all: "distinct (map fm_number ?all @ new_numbers l todo)" using assms l by (simp add: levels_stand_def)
    have "distinct (levels ! l)"
      unfolding distinct_conv_nth
      by (metis (full_types) bs_irrefl e l linorder_neqE_nat nth_mem so sorted_wrt_nth_less)
    moreover have "inj_on fm_number (set ?all)" using all unfolding distinct_append distinct_map by blast
    ultimately have "distinct (map fm_number (levels ! l))" using sub by (auto simp: distinct_map intro: inj_on_subset)
    then show "distinct (map fm_number (levels ! l) @ new_numbers l todo)"
      using all sub by (auto simp del: map_append)
  qed
qed

lemma save_levels_stands:
  assumes "length bases = length ss" "length levels = length ss"
    and "\<And>i. i < length ss \<Longrightarrow> stands_for (bases ! i) (ss ! i) (levels ! i)"
  shows "save_levels c level ss bases =
    (if \<forall>i < length ss. chained c (level + i) (levels ! i) then Some levels else None)"
  using assms
proof (induction ss arbitrary: bases levels level)
  case (Cons s ss)
  obtain base bases' where b: "bases = base # bases'" using Cons.prems(1) by (cases bases) auto
  obtain files levels' where f: "levels = files # levels'" using Cons.prems(2) by (cases levels) auto
  have s: "stands_for base s files" using Cons.prems(3) [of 0] b f by simp
  then have "\<And>g. g \<in> set base \<union> set (ls_added_files s) \<Longrightarrow> ends_ok valid g"
    by (simp add: stands_for_def level_state_ok_def)
  then have head: "save_checked c level s base = (if chained c level files then Some files else None)"
    using save_checked_some [of base s level] kept_merge_files [OF s] by (simp add: Let_def)
  have tail: "save_levels c (level + 1) ss bases' =
      (if \<forall>i < length ss. chained c (level + 1 + i) (levels' ! i) then Some levels' else None)"
    using Cons.prems(1,2) Cons.prems(3) [of "Suc i" for i] b f by (intro Cons.IH) auto
  have "(\<forall>i < length (s # ss). chained c (level + i) (levels ! i)) \<longleftrightarrow>
      chained c level files \<and> (\<forall>i < length ss. chained c (level + 1 + i) (levels' ! i))"
    unfolding f list.size(4) add_Suc_right add_0_right by (subst All_less_Suc2) simp
  with head tail b f show ?case by simp
qed simp

text \<open>The builder and the reference.\<close>

theorem apply_edits_save:
  assumes "levels_ok c valid (v_files base)" and "\<forall>e \<in> set es. edit_applies valid e"
    and "fresh_files (concat (map ve_new_files es)) (v_files base)"
  shows "do { b \<leftarrow> apply_edits c es (Builder pointers base); vb_SaveTo c b } =
    (let levels = fold (edit_levels c) es (v_files base)
     in if \<forall>l < kNumLevels. chained c l (levels ! l) then Some (Version\<lparr>v_files := levels\<rparr>) else None)"
proof -
  obtain b where b: "apply_edits c es (Builder pointers base) = Some b" "vb_base b = base"
    "levels_stand (v_files base) [] (vb_levels b) (fold (edit_levels c) es (v_files base))"
    using apply_edits_stands [OF assms(2), of "Builder pointers base" "[]" "v_files base"]
      Builder_stands [OF assms(1,3), of pointers] by (auto simp: Builder_def)
  then show ?thesis
    using save_levels_stands [of "v_files base" "vb_levels b" "fold (edit_levels c) es (v_files base)" 0]
    by (simp add: levels_stand_def vb_SaveTo_def Let_def)
qed

text \<open>Edits in one builder, or in two with the version in between saved.\<close>

theorem apply_edits_in_steps:
  assumes ok: "levels_ok c valid (v_files base)" and es: "\<forall>e \<in> set (es @ es'). edit_applies valid e"
    and fresh: "fresh_files (concat (map ve_new_files (es @ es'))) (v_files base)"
    and v: "do { b \<leftarrow> apply_edits c es (Builder pointers base); vb_SaveTo c b } = Some v"
  shows "do { b \<leftarrow> apply_edits c es' (Builder pointers' v); vb_SaveTo c b } =
    do { b \<leftarrow> apply_edits c (es @ es') (Builder pointers base); vb_SaveTo c b }"
proof -
  let ?levels = "fold (edit_levels c) es (v_files base)"
  have "fresh_files (concat (map ve_new_files es)) (v_files base)"
    using fresh by (simp add: fresh_files_append)
  from apply_edits_save [OF ok _ this, of pointers] es v have files: "v_files v = ?levels"
    by (auto simp: Let_def split: if_splits)
  have "levels_stand (v_files base) (concat (map ve_new_files es) @ concat (map ve_new_files es'))
      (vb_levels (Builder pointers base)) (v_files base)"
    using Builder_stands [OF ok fresh] by simp
  then obtain b :: version_builder where "levels_stand (v_files base) (concat (map ve_new_files es')) (vb_levels b) ?levels"
    using apply_edits_stands [of es "Builder pointers base" "concat (map ve_new_files es')" "v_files base"] es
    unfolding Builder_base set_append by blast
  note mid = levels_stand_ok [OF this, folded files]
  show ?thesis
    using apply_edits_save [OF mid(1) _ mid(2), of pointers'] apply_edits_save [OF ok es fresh, of pointers] es
    by (simp add: files)
qed

end

end
