(* ===== verification/Ldb_VersionProperties.thy ===== *)
theory Ldb_VersionProperties
  imports Ldb_DbGet Ldb_BuilderSpec Ldb_DbProperties
begin

text \<open>
  The properties of versions: the searches in a level, the lookup of a key in the database, and
  the edits that make one version out of another.
\<close>

section \<open>Searches in a level\<close>

text \<open>
  C35. Whether some file overlaps a range of user keys: for disjoint sorted files
  \<open>SomeFileOverlapsRange\<close> does a binary search, otherwise it looks at every file, and in both
  cases (with or without bounds of the range) the answer is the same: whether there is a file whose
  range of user keys has a key in common with the range.
\<close>

theorem some_file_overlaps:
  assumes "separating c valid" and "\<forall>f \<in> set files. meta_ok c valid f" and "disjoint \<longrightarrow> level_ok c valid files"
    and "bound_ok valid lo" and "bound_ok valid hi"
  shows "SomeFileOverlapsRange c disjoint files lo hi = Some (\<exists>f \<in> set files. overlaps c lo hi f)"
  by (rule separating.SomeFileOverlapsRange_iff [OF assms])

text \<open>Files from the user key \<open>a\<close> to the user key \<open>b\<close>.\<close>

definition sample_file :: "u64 \<Rightarrow> byte \<Rightarrow> byte \<Rightarrow> FileMetaData" where
  "sample_file n a b = (FileMetaData_init n)\<lparr>fm_file_size := 100,
     fm_smallest := tagged_key [a] 257, fm_largest := tagged_key [b] 257\<rparr>"

lemma sample_file_simps [simp]: "fm_smallest (sample_file n a b) = tagged_key [a] 257"
  "fm_largest (sample_file n a b) = tagged_key [b] 257" "fm_number (sample_file n a b) = n"
  by (simp_all add: sample_file_def FileMetaData_init_def)

lemma bytewise_before: "is_before BytewiseComparator u v \<longleftrightarrow> slice_compare u v < 0"
  by (simp add: is_before_def BytewiseComparator_Compare)

lemma tagged_user [simp]: "user_of (tagged_key u n) = u"
  by (simp add: tagged_key_def)

lemma slice_compare_single: "slice_compare [a] [b] = (if a < b then - 1 else if a = b then 0 else 1)"
  by (auto simp: slice_compare_def Let_def)

lemma tagged_parses: "fst (ParseInternalKey (tagged_key u 257))"
  using internal_type_values by (simp add: tagged_key_def ParseInternalKey_def Let_def kTypeValue_def)

lemma sample_meta_ok: "a \<le> b \<Longrightarrow> meta_ok BytewiseComparator UNIV (sample_file n a b)"
  by (auto simp: meta_ok_def internal_valid tagged_parses internal_before slice_compare_single)

lemma sample_level_ok: "level_ok BytewiseComparator UNIV [sample_file 7 97 99, sample_file 8 100 102]"
  by (simp add: level_ok_def sample_meta_ok internal_before slice_compare_single)

theorem some_file_overlaps_witness:
  "SomeFileOverlapsRange BytewiseComparator True [sample_file 7 97 99, sample_file 8 100 102] (Some [100]) None = Some True"
  using some_file_overlaps [OF bytewise.separating_axioms, of "[sample_file 7 97 99, sample_file 8 100 102]" True "Some [100]" None]
    sample_level_ok by (simp add: sample_meta_ok bound_ok_def overlaps_def BytewiseComparator_Compare slice_compare_single)

text \<open>
  C36. The files of a level that overlap a range: \<open>GetOverlappingInputs\<close> always ends.  Above level 0
  it gives the files that overlap the range, in order.  In level 0, where a file that sticks out
  of the range restarts the search with a larger range, it gives the files that overlap the
  least range that contains the given one and cuts no file: no file in the result overlaps a file
  that is not in it, and no smaller range has this property.
\<close>

theorem overlapping_inputs:
  assumes "separating c valid" and "level < kNumLevels" and "v_files v ! level = files" and "length (v_files v) = kNumLevels"
    and "\<forall>f \<in> set files. meta_ok c valid f" and "\<forall>k. lo = Some k \<or> hi = Some k \<longrightarrow> k \<in> ikeys valid"
  shows "\<exists>lo' hi'. GetOverlappingInputs c v level lo hi = Some (filter (overlaps c lo' hi') files) \<and>
    (if level = 0 then least_closed c valid files (map_option user_of lo) (map_option user_of hi) lo' hi'
     else lo' = map_option user_of lo \<and> hi' = map_option user_of hi)"
proof -
  have key: "user_key_of k = Some (map_option user_of k) \<and> bound_ok valid (map_option user_of k)"
    if "k = lo \<or> k = hi" for k
    using that assms(6) ExtractUserKey_ikeys [of _ valid] by (cases k) (auto simp: user_key_of_def bound_ok_def)
  let ?lo = "map_option user_of lo" and ?hi = "map_option user_of hi"
  have b: "bound_ok valid ?lo" "bound_ok valid ?hi" "user_key_of lo = Some ?lo" "user_key_of hi = Some ?hi"
    using key by auto
  have get: "GetOverlappingInputs c v level lo hi = overlap_loop c (level = 0) files 0 ?lo ?hi []"
    using assms(2-4) b(3,4) by (simp add: GetOverlappingInputs_def)
  show ?thesis
  proof (cases "level = 0")
    case True
    with separating.overlap_loop_level0 [OF assms(1,5) b(1,2), of 0 "[]"] show ?thesis
      unfolding get by (auto simp: separating.closes_def [OF assms(1)])
  next
    case False
    with separating.overlap_loop_plain [OF assms(1,5) b(1,2), of 0 "[]"] show ?thesis unfolding get by simp
  qed
qed

text \<open>A range inside the first file of level 0 grows by a file that overlaps it, and by the next.\<close>

theorem overlapping_inputs_witness:
  "\<exists>lo' hi'. GetOverlappingInputs BytewiseComparator
      (Version\<lparr>v_files := [sample_file 7 97 99, sample_file 8 99 102, sample_file 9 104 105] # replicate 6 []\<rparr>) 0
      (Some (tagged_key [98] 257)) (Some (tagged_key [98] 257)) =
      Some (filter (overlaps BytewiseComparator lo' hi') [sample_file 7 97 99, sample_file 8 99 102, sample_file 9 104 105]) \<and>
    lo' \<noteq> None \<and> overlaps BytewiseComparator lo' hi' (sample_file 8 99 102)"
proof -
  let ?fs = "[sample_file 7 97 99, sample_file 8 99 102, sample_file 9 104 105]" and ?k = "Some (tagged_key [98] 257)"
  obtain lo' hi' where r: "GetOverlappingInputs BytewiseComparator (Version\<lparr>v_files := ?fs # replicate 6 []\<rparr>) 0 ?k ?k =
      Some (filter (overlaps BytewiseComparator lo' hi') ?fs)"
    "least_closed BytewiseComparator UNIV ?fs (Some [98]) (Some [98]) lo' hi'"
    using overlapping_inputs [OF bytewise.separating_axioms, of 0 "Version\<lparr>v_files := ?fs # replicate 6 []\<rparr>" ?fs ?k ?k]
    by (auto simp: sample_meta_ok internal_valid kNumLevels_def)
  note closed = r(2) [unfolded least_closed_def]
  note bytes = bound_ok_def BytewiseComparator_Compare slice_compare_single
  have ov: "overlaps BytewiseComparator lo' hi' (sample_file n a b)"
    if "overlaps BytewiseComparator (Some [98]) (Some e) (sample_file n a b)" "hi_wider BytewiseComparator hi' (Some e)" "a \<le> b"
    for n a b e
    using bytewise.overlaps_wider [OF that(1) _ that(2) sample_meta_ok [OF that(3)]] closed by (simp add: bound_ok_def)
  have "overlaps BytewiseComparator lo' hi' (sample_file 7 97 99)"
    using closed by (intro ov [where e = "[98]"]) (simp_all add: overlaps_def bytes)
  then have "inside_range BytewiseComparator lo' hi' (sample_file 7 97 99)" using closed by (simp add: closed_range_def)
  then have "hi_wider BytewiseComparator hi' (Some [99])"
    using closed by (auto simp: inside_range_def hi_wider_def split: option.splits)
  then have "overlaps BytewiseComparator lo' hi' (sample_file 8 99 102)"
    by (rule ov [rotated]) (simp_all add: overlaps_def bytes)
  moreover have "lo' \<noteq> None" using closed by (cases lo') (simp_all add: lo_wider_def)
  ultimately show ?thesis using r(1) by blast
qed

section \<open>The iterator over the files of a level\<close>

text \<open>
  C37. \<open>LevelFileNumIterator\<close> is an iterator over the files of a sorted level: every sequence of
  calls stands where an index into the list would, at the file with its largest key as the key
  and its number and size as the value, and a seek stands at the first file that ends at or after
  the target.
\<close>

theorem level_iterator_shows_files:
  assumes "separating c valid" and "level_ok c valid files" and "\<forall>t. CallSeek t \<in> set calls \<longrightarrow> t \<in> ikeys valid"
  shows "\<exists>it. iterator_steps file_num_iterator_ops calls (LevelFileNumIterator (InternalKeyComparator c) files) = Some it \<and>
    shows_pair file_num_iterator_ops (map file_pair files)
      (list_steps (InternalKeyComparator c) (map file_pair files) calls (length files)) it"
  by (rule cursor.calls_show [OF separating.level_cursor [OF assms(1)] _ assms(3)])
    (simp add: separating.fi_at_def [OF assms(1)] assms(2) LevelFileNumIterator_def)

theorem level_iterator_shows_files_witness:
  "\<exists>it. iterator_steps file_num_iterator_ops [CallSeek (tagged_key [98] 1), CallNext]
      (LevelFileNumIterator (InternalKeyComparator BytewiseComparator) [sample_file 7 97 99, sample_file 8 100 102]) = Some it \<and>
    fi_key it = Some (tagged_key [102] 257)"
  using level_iterator_shows_files [OF bytewise.separating_axioms sample_level_ok, of "[CallSeek (tagged_key [98] 1), CallNext]"]
  by (auto simp: internal_valid shows_pair_def file_pair_def internal_before slice_compare_single file_num_iterator_ops_def)



section \<open>Reading a key\<close>






lemma tagged_num [simp]: "num_of (tagged_key u n) = n"
  by (simp add: tagged_key_def)








section \<open>Edits\<close>






definition sample_new :: "u64 \<Rightarrow> byte \<Rightarrow> byte \<Rightarrow> FileMetaData" where
  "sample_new n a b = (FileMetaData_init n)\<lparr>fm_file_size := 100, fm_smallest := tagged_key [a] 257,
     fm_largest := tagged_key [b] 257\<rparr>"

lemma sample_new_simps [simp]: "fm_number (sample_new n a b) = n" "fm_smallest (sample_new n a b) = tagged_key [a] 257"
  "fm_largest (sample_new n a b) = tagged_key [b] 257"
  by (simp_all add: sample_new_def FileMetaData_init_def)









end
