(* ===== verification/Spec2Isabelle.thy ===== *)
theory Spec2Isabelle
  imports Pb_Packed Pb_Required Base64 Demo Ldb_Properties Ldb_TableProperties Ldb_DbProperties Ldb_VersionProperties "HOL-Library.Code_Target_Nat"
begin

text \<open>
  This library models the parts of the repository that are programs in C and C++ with a logic
  of their own.  The application "Get together" is an iOS client written in Swift; its logic is
  user interface and network calls.  What it links are the pods under src/Get together/Pods, and
  among them three that are more than bindings:

    nanopb (pb.h, pb_common.c, pb_encode.c, pb_decode.c): the protobuf encoder and decoder,
    fbase64.c of SocketRocket in FirebaseDatabase: the base64 coder of its web socket,
    leveldb-library: the store in which FirebaseDatabase keeps its data on disk.

  How the parts interact.  A nanopb message is a C structure described by an array of fields;
  the iterator of pb_common.c walks both, and the encoder and the decoder are loops over it that
  write to and read from streams, which are callbacks.  In LevelDB a write batch
  (db/write_batch.cc) is appended to the log (db/log_writer.cc) and inserted into the memtable
  (db/memtable.cc), a skip list (db/skiplist.h) of internal keys (db/dbformat.cc); a full memtable
  becomes a table file (table/table_builder.cc: data blocks, filter block, index, footer), which
  table/table.cc opens and searches; the set of files is a log of version edits
  (db/version_edit.cc), named by the file CURRENT (db/filename.cc).  Reading merges the iterators
  of memtables and tables (table/merger.cc) and hides old versions and deletions (db/db_iter.cc).

  The theories, in the order of their imports.

    Prelude: machine words, little-endian bytes, the collections of simplification rules.
    Leb128: base-128 numbers, which both nanopb and LevelDB use.
    CMemory, Pb_Types: the memory of the C code, and the types, constants and descriptor macros
      of pb.h.
    Pb_Common: pb_common.c (\<open>pb_field_iter_begin\<close>, \<open>pb_field_iter_next\<close>, \<open>pb_field_iter_find\<close>)
      with the addresses of the members as its specification.
    Pb_OStream, Byte_Sink, Pb_Encode, Pb_EncodeSpec: pb_encode.c; the locale of a byte sink with
      its three instances (buffer, callback of the application, sizing stream);
      \<open>message_bytes\<close> is the encoding as a function, and the encoder appends it or fails.
    Pb_IStream, Byte_Source, Pb_Varint, Pb_Wire, Pb_ReadSafety, Pb_Decode, Pb_DecodeSafety,
      Pb_Packed, Pb_Required: pb_decode.c; the locale of a byte source; round trips; the memory
      safety of the decoder on every input; packed arrays; required fields.
    Base64: fbase64.c (\<open>f_b64_ntop\<close>, \<open>f_b64_pton\<close>).
    Ldb_Coding, Ldb_Comparator, Ldb_DbFormat, Ldb_Status, Ldb_Random: util/coding, comparator,
      dbformat, status and logging, random; the locales of an order on keys and of separators,
      and their instances for the bytewise and the internal key comparator.
    Ldb_WriteBatch, Ldb_SkipList, Ldb_SkipListSpec, Ldb_MemTable: write batches, the skip list as
      a pointer structure with its refinement to a sorted list, and the memtable as its client.
    Ldb_Crc32c, Ldb_Log, Ldb_LogSpec, Ldb_LogTotal: the checksum, the log writer and reader, what
      is read back, and that reading any bytes ends.
    Ldb_Block, Ldb_BlockSpec, Ldb_BlockIter, Ldb_BlockSafety: block builder, block and block
      iterator; the layout of a block; the iterator as an index into the pairs; corrupt blocks.
    Ldb_Filter, Ldb_FilterBlock: hash, Bloom filter, and the filter block of a table.
    Ldb_Format, Ldb_TableBuilder, Ldb_Table, Ldb_TableSpec, Ldb_TableBuild, Ldb_TableFinish,
      Ldb_TableRead: table files, from the builder over the bytes of the file to the lookup.
    Ldb_VersionEdit: the records of the manifest.
    Ldb_Filename: file names, the file CURRENT, and whole files (util/env.cc).
    Ldb_Iterator: the interface of iterators, their contract (the locale \<open>cursor\<close>: an iterator over
      a sorted list of pairs is an index into it), the caching wrapper, block iterators as cursors.
    Ldb_Merger, Ldb_MergerSpec: the merging iterator; it is a cursor over the merge when its
      children are cursors.
    Ldb_DbIter, Ldb_DbIterSpec, Ldb_Select: the iterator of the database; it is a cursor over
      the view of a snapshot when the internal iterator is a cursor over internal keys.
    Ldb_Version, Ldb_VersionSpec: the files of a version (db/version_set.cc) and the searches in a
      level: binary search, overlap with a range, the iterator over the files.
    Ldb_VersionGet, Ldb_DbGet: looking a key up in the files, and in the database (\<open>DBImpl::Get\<close>
      of db/db_impl.cc); the answer is the newest entry anywhere.
    Ldb_Builder, Ldb_BuilderSpec: \<open>VersionSet::Builder\<close>, which makes a version out of another one
      and edits, and its reference that changes lists of files edit by edit.
    Demo: a message type with values, on which the properties of nanopb are applied.
    Ldb_Properties, Ldb_TableProperties, Ldb_DbProperties, Ldb_VersionProperties and this theory
      hold the properties, each after the text that states it, with a witness that applies it to
      concrete data.

  How the model corresponds to the code.  A structure or class is a record with the members of
  the source, an enumeration a datatype or a word, an n-bit integer an n-bit word, a string or
  slice a list of bytes.  A definition has the name of the function it models, with a prefix where
  several classes share the name (\<open>bi_Seek\<close>, \<open>mi_Seek\<close>, \<open>di_Seek\<close>).  A result None means that the
  code has no defined behaviour there (a failed assertion, an access outside the object, a null
  pointer that is followed, a shift by the width) or that a loop does not end; a property that
  says \<open>f x = Some y\<close> therefore says that none of this happens.  Errors of the code are values:
  False with a message in nanopb, a \<open>Status\<close> in LevelDB.  What lies outside the program is a
  parameter: callbacks of the application, files and the environment (records of functions over a
  world), Snappy, user comparators and filter policies; what is assumed of them is named
  (\<open>honours\<close>, the locales, \<open>env_contract\<close>) and satisfied in the witnesses.

  Bounds and fuel.  The recursion of nanopb over submessages has the nesting depth of the
  descriptors as its fuel, and the properties hold for the fuel at which \<open>message_bytes\<close> is defined.
  Loops whose end depends on data are \<open>partial_function\<close>s, and the properties prove that they
  return.  Properties of blocks and tables assume sizes below \<open>2 ^ 32\<close> (\<open>block_fits\<close>), because
  the format stores 32-bit offsets; for corrupt blocks \<open>no_wrap\<close> excludes entries whose two
  lengths add up to \<open>2 ^ 32\<close>, which \<open>block_length_wrap\<close> shows to read outside the block.

  Not modelled: the Swift application, the Objective-C pods (Foundation objects and network), threads, locks
  and reference counts, the POSIX environment, the arena and the block cache (they change where
  bytes are kept and not which), the table cache (what a read relies on is the hypothesis
  \<open>tables_answer\<close>), the choice and execution of compactions (db/version_set.cc, db/db_impl.cc;
  the scores of levels are floating point numbers), and nanopb's allocated fields, which the pods
  compile out.
\<close>

section \<open>The encoder\<close>

text \<open>
  C1. Encoding into a memory buffer that has room for the message: \<open>pb_encode\<close> returns true,
  the buffer holds exactly the protobuf encoding of the structure, and \<open>bytes_written\<close> is
  its length.
\<close>

theorem encode_into_buffer:
  assumes "message_bytes n env k m flds src = Some bs"
    and "honours BufWrite obuf_push obuf_has env k"
    and "length bs \<le> bufsize" and "bufsize \<le> room" and "bufsize < SIZE_MOD"
  shows "pb_encode n env m (pb_ostream_from_buffer room bufsize) flds src =
    Some (True, (pb_ostream_from_buffer room bufsize)
      \<lparr>o_state := OBuf bs (room - length bs), bytes_written := length bs\<rparr>)"
  using emitsD [OF obuf.emits_message [OF assms(1,2)] sink_ok_from_buffer [OF assms(4,5)]] assms(3,5)
  by (simp add: pb_encode_def fits_def appended_def obuf_push_def pb_ostream_from_buffer_def)

theorem encode_into_buffer_witness:
  "pb_encode 2 sample_enc_env sample_mem (pb_ostream_from_buffer 40 32) sample_fields 100 =
    Some (True, (pb_ostream_from_buffer 40 32)
      \<lparr>o_state := OBuf sample_bytes (40 - length sample_bytes), bytes_written := length sample_bytes\<rparr>)"
  by (rule encode_into_buffer [OF sample_encodes]) (simp_all add: SIZE_MOD_def)

text \<open>
  C2. Encoding into a buffer that is too small: \<open>pb_encode\<close> returns false with the message
  "stream full", and what it has written is a prefix of the encoding that fits the buffer.
\<close>

theorem encode_overflow:
  assumes "message_bytes n env k m flds src = Some bs"
    and "honours BufWrite obuf_push obuf_has env k"
    and "bufsize < length bs" and "bufsize \<le> room" and "length bs < SIZE_MOD"
  shows "\<exists>p q. bs = p @ q \<and> length p \<le> bufsize \<and>
    pb_encode n env m (pb_ostream_from_buffer room bufsize) flds src =
      Some (False, (pb_ostream_from_buffer room bufsize)
        \<lparr>o_state := OBuf p (room - length p), bytes_written := length p,
         o_errmsg := Some ''stream full''\<rparr>)"
proof -
  let ?s = "pb_ostream_from_buffer room bufsize"
  have "sink_ok BufWrite obuf_has ?s" using assms(3-5) by (intro sink_ok_from_buffer) auto
  from emitsE [OF obuf.emits_message [OF assms(1,2)] this] assms(3,5) obtain p q
    where "bs = p @ q" "fits ?s (length p)"
    and "pb_encode n env m ?s flds src = Some (False, o_error (appended obuf_push ?s p) ''stream full'')"
    by (auto simp: pb_encode_def fits_def pb_ostream_from_buffer_def)
  then show ?thesis
    by (auto simp: fits_def appended_def obuf_push_def pb_ostream_from_buffer_def o_error_def)
qed

theorem encode_overflow_witness:
  "\<exists>p q. sample_bytes = p @ q \<and> length p \<le> 7 \<and>
    pb_encode 2 sample_enc_env sample_mem (pb_ostream_from_buffer 7 7) sample_fields 100 =
      Some (False, (pb_ostream_from_buffer 7 7)
        \<lparr>o_state := OBuf p (7 - length p), bytes_written := length p,
         o_errmsg := Some ''stream full''\<rparr>)"
  by (rule encode_overflow [OF sample_encodes]) (simp_all add: SIZE_MOD_def)

text \<open>
  \<open>pb_get_encoded_size\<close> returns the length of the encoding, so a buffer of that size
  is enough.
\<close>

theorem encoded_size:
  assumes "message_bytes n env k m flds src = Some bs"
    and "honours BufWrite obuf_push obuf_has env k" and "length bs < SIZE_MOD"
  shows "pb_get_encoded_size n env m flds src = Some (True, length bs)"
  using obuf.emits_sizing [OF obuf.emits_message [OF assms(1,2)] assms(3)]
  by (simp add: pb_get_encoded_size_def pb_encode_def)

theorem encoded_size_witness:
  "pb_get_encoded_size 2 sample_enc_env sample_mem sample_fields 100 = Some (True, 16)"
  using encoded_size [OF sample_encodes] by (simp add: SIZE_MOD_def)

text \<open>
  C3. Encoding to any stream of the application that takes the bytes it is given, in order:
  \<open>push\<close> is what it does with them and \<open>has\<close> the room it has.  The message is appended when
  \<open>max_size\<close> admits it.
\<close>

theorem encode_to_stream:
  assumes "byte_sink (UserWrite f) push has"
    and "message_bytes n env k m flds src = Some bs" and "honours (UserWrite f) push has env k"
    and "has (OUser u) (mx - w)" and "w + length bs \<le> mx" and "mx < SIZE_MOD"
  shows "pb_encode n env m \<lparr>o_callback = Some (UserWrite f), o_state = OUser u, max_size = mx,
      bytes_written = w, o_errmsg = None\<rparr> flds src =
    Some (True, \<lparr>o_callback = Some (UserWrite f), o_state = push (OUser u) bs, max_size = mx,
      bytes_written = w + length bs, o_errmsg = None\<rparr>)"
proof -
  let ?s = "\<lparr>o_callback = Some (UserWrite f), o_state = OUser u, max_size = mx,
      bytes_written = w, o_errmsg = None\<rparr>"
  have "sink_ok (UserWrite f) has ?s" using assms(4-6) by (simp add: sink_ok_def)
  from emitsD [OF byte_sink.emits_message [OF assms(1-3)] this] assms(5,6) show ?thesis
    by (simp add: pb_encode_def fits_def appended_def)
qed

theorem encode_to_stream_witness:
  "pb_encode 2 sample_enc_env sample_mem \<lparr>o_callback = Some (UserWrite list_writer),
      o_state = OUser [1, 2], max_size = 50, bytes_written = 2, o_errmsg = None\<rparr> sample_fields 100 =
    Some (True, \<lparr>o_callback = Some (UserWrite list_writer), o_state = OUser ([1, 2] @ sample_bytes),
      max_size = 50, bytes_written = 2 + length sample_bytes, o_errmsg = None\<rparr>)"
  using encode_to_stream [OF ouser.byte_sink_axioms sample_encodes, of "[1, 2]" 50 2]
  by (simp add: ouser_push_def ouser_has_def SIZE_MOD_def)

text \<open>
  \<open>pb_encode_delimited\<close> writes the length of the message as a varint, then the message.
\<close>

theorem encode_delimited_into_buffer:
  assumes "message_bytes n env k m flds src = Some bs"
    and "honours BufWrite obuf_push obuf_has env k"
    and "length (leb (length bs) @ bs) \<le> bufsize" and "bufsize \<le> room" and "bufsize < SIZE_MOD"
  shows "pb_encode_delimited n env m (pb_ostream_from_buffer room bufsize) flds src =
    Some (True, (pb_ostream_from_buffer room bufsize)
      \<lparr>o_state := OBuf (leb (length bs) @ bs) (room - length (leb (length bs) @ bs)),
       bytes_written := length (leb (length bs) @ bs)\<rparr>)"
  using emitsD [OF obuf.emits_submessage [where rec = "pb_encode_f n env m" and flds = flds and p = src,
        OF obuf.emits_message [OF assms(1,2)]] sink_ok_from_buffer [OF assms(4,5)]] assms(3,5)
  by (simp add: pb_encode_delimited_def fits_def appended_def obuf_push_def pb_ostream_from_buffer_def)

theorem encode_delimited_into_buffer_witness:
  "pb_encode_delimited 2 sample_enc_env sample_mem (pb_ostream_from_buffer 17 17) sample_fields 100 =
    Some (True, (pb_ostream_from_buffer 17 17)
      \<lparr>o_state := OBuf (16 # sample_bytes) 0, bytes_written := 17\<rparr>)"
  using encode_delimited_into_buffer [OF sample_encodes, of 17 17]
  by (simp add: SIZE_MOD_def leb_small)


text \<open>
  C4. Encoding an optional pointer field that is null reads behind the structure: the check
  for a proto3 default value compares \<open>data_size\<close> bytes, the size of the pointed-to object,
  at the address of the pointer member.  When the object is larger than a pointer and the
  member is the last one of the structure, the access is out of bounds.
\<close>

theorem null_pointer_reads_behind:
  assumes "PB_ATYPE (ftype f) = PB_ATYPE_POINTER" and "PB_HTYPE (ftype f) = PB_HTYPE_OPTIONAL"
    and "PB_LTYPE (ftype f) < PB_LTYPES_COUNT" and "size_offset f = 0"
    and "load_bytes m pd sizeof_ptr = Some (replicate sizeof_ptr 0)"
    and "m (pd + int sizeof_ptr) = None" and "sizeof_ptr < data_size f"
  shows "encode_basic_field (Suc n) env rec m s f pd = None"
  using assms by (rule null_pointer_over_read)

theorem null_pointer_reads_behind_witness:
  "encode_basic_field (Suc 0) sample_enc_env (\<lambda>_ _ _. None) (image_at 100 (replicate 8 0))
     PB_OSTREAM_SIZING (PB_OPTIONAL_POINTER 1 (member 0 8 16) 0 PB_LTYPE_SUBMESSAGE 5000) 100 = None"
  by (rule null_pointer_reads_behind; code_simp)

section \<open>The decoder\<close>





text \<open>
  \<open>pb_decode_delimited\<close> is as safe, whatever length stands in front of the message.
\<close>

theorem delimited_decode_safe:
  assumes "byte_source cb contents" and "msg_ok n env valid flds sz" and "mem_ok valid dest sz m"
    and "readable cb contents r s"
  shows "\<exists>ok s' m'. pb_decode_delimited n env s flds dest m = Some (ok, s', m') \<and>
    readable cb contents r s' \<and> bytes_left s' \<le> bytes_left s \<and>
    dom m' = dom m \<and> (\<forall>c. c < dest \<or> dest + int sz \<le> c \<longrightarrow> m' c = m c)"
  by (rule decodesE [OF byte_source.decode_delimited_safe [OF assms]])
     (auto simp: changed_within_def split: if_splits)

theorem delimited_decode_safe_witness:
  "\<exists>ok s' m'. pb_decode_delimited 2 sample_dec_env (pb_istream_from_buffer [200, 1, 8] 3)
      sample_fields 200 target_mem = Some (ok, s', m') \<and>
    readable BufRead ibuf 0 s' \<and> bytes_left s' \<le> 3 \<and>
    dom m' = dom target_mem \<and> (\<forall>c. c < 200 \<or> 200 + int sample_size \<le> c \<longrightarrow> m' c = target_mem c)"
  using delimited_decode_safe [OF buf.byte_source_axioms sample_well_formed target_ok, of 0
    "pb_istream_from_buffer [200, 1, 8] 3"]
  by (simp add: readable_def ibuf_def pb_istream_from_buffer_def)

text \<open>
  Initialising a message, submessages and default values included, always ends and
  writes to its structure only.
\<close>

theorem defaults_safe:
  assumes "msg_ok n env valid flds sz" and "mem_ok valid dest sz m"
  shows "\<exists>m'. pb_message_set_to_defaults n env flds dest m = Some m' \<and>
    dom m' = dom m \<and> (\<forall>c. c < dest \<or> dest + int sz \<le> c \<longrightarrow> m' c = m c)"
  using defaults_changed [OF assms] by (simp add: changed_within_def)

theorem defaults_safe_witness:
  "\<exists>m'. pb_message_set_to_defaults 2 sample_dec_env sample_fields 200 target_mem = Some m' \<and>
    dom m' = dom target_mem \<and> (\<forall>c. c < 200 \<or> 200 + int sample_size \<le> c \<longrightarrow> m' c = target_mem c)"
  by (rule defaults_safe [OF sample_well_formed target_ok])

text \<open>
  C7. Required fields: whatever fields a message brings, in any order and any number of
  times, the check after the loop is defined and succeeds exactly when every required field
  was among them (for message types whose number of required fields the bit set handles).
\<close>

theorem required_fields_checked:
  assumes "required_ok (required_count flds)" and "\<forall>i \<in> set found. i < nfields flds"
  shows "required_seen (foldl (\<lambda>s it. mark_seen it s) [0, 0] (map (iter_at flds dest) found))
      (required_count flds)
    = Some (\<forall>j < nfields flds. is_required (field_at flds j) \<longrightarrow> j \<in> set found)"
  using assms by (rule required_check)

theorem required_fields_checked_witness:
  "required_seen (foldl (\<lambda>s it. mark_seen it s) [0, 0] (map (iter_at sample_fields 200) [2, 3, 2]))
      (required_count sample_fields)
    = Some (\<forall>j < nfields sample_fields. is_required (field_at sample_fields j) \<longrightarrow> j \<in> set [2, 3, 2])"
  by (rule required_fields_checked) code_simp+

text \<open>
  C8. For 32 or 64 required fields the check has no defined behaviour on a complete message:
  with 32 it shifts a 32-bit word by 32 bits, with 64 it reads a word behind \<open>fields_seen\<close>.
\<close>

theorem complete_message_undefined:
  assumes "required_count flds = 32 \<or> required_count flds = 64"
    and "\<forall>i \<in> set found. i < nfields flds"
    and "\<forall>j < nfields flds. is_required (field_at flds j) \<longrightarrow> j \<in> set found"
  shows "required_seen (foldl (\<lambda>s it. mark_seen it s) [0, 0] (map (iter_at flds dest) found))
     (required_count flds) = None"
  using assms by (rule required_check_undefined)

theorem complete_message_undefined_witness:
  "required_seen (foldl (\<lambda>s it. mark_seen it s) [0, 0] (map (iter_at (flags_fields 32) 0) [0..<32]))
     (required_count (flags_fields 32)) = None"
  by (rule complete_message_undefined) (simp_all add: required_count_flags nfields_flags)



text \<open>
  Varints: what \<open>pb_encode_varint\<close> writes into a buffer, one to ten bytes, is read back by
  \<open>pb_decode_varint\<close>, which leaves everything behind it.
\<close>

theorem varint_round_trip:
  assumes "10 \<le> bufsize" and "bufsize \<le> room" and "bufsize < SIZE_MOD"
  shows "\<exists>bs s'. pb_encode_varint (pb_ostream_from_buffer room bufsize) v =
      Some (True, (pb_ostream_from_buffer room bufsize)
        \<lparr>o_state := OBuf bs (room - length bs), bytes_written := length bs\<rparr>) \<and>
    1 \<le> length bs \<and> length bs \<le> 10 \<and>
    pb_decode_varint (pb_istream_from_buffer (bs @ ys) (length (bs @ ys))) = Some (True, v, s') \<and>
    i_state s' = IBuf ys \<and> bytes_left s' = length ys"
proof -
  let ?bs = "varint_bytes v"
  have l: "1 \<le> length ?bs \<and> length ?bs \<le> 10" by (rule varint_bytes_length)
  have "pb_encode_varint (pb_ostream_from_buffer room bufsize) v =
      Some (True, (pb_ostream_from_buffer room bufsize)
        \<lparr>o_state := OBuf ?bs (room - length ?bs), bytes_written := length ?bs\<rparr>)"
    using emitsD [OF obuf.emits_varint [of v] sink_ok_from_buffer [OF assms(2,3)]] l assms
    by (simp add: fits_def appended_def obuf_push_def pb_ostream_from_buffer_def)
  moreover have "delivers BufRead ibuf (pb_istream_from_buffer (?bs @ ys) (length (?bs @ ys))) (?bs @ ys) []"
    using delivers_from_buffer [of "?bs @ ys" _ "[]"] by simp
  note buf.decode_uvarint [OF this]
  ultimately show ?thesis using l by (auto simp: delivers_buf_iff)
qed

theorem varint_round_trip_witness:
  "\<exists>bs s'. pb_encode_varint (pb_ostream_from_buffer 10 10) 300 =
      Some (True, (pb_ostream_from_buffer 10 10)
        \<lparr>o_state := OBuf bs (10 - length bs), bytes_written := length bs\<rparr>) \<and>
    1 \<le> length bs \<and> length bs \<le> 10 \<and>
    pb_decode_varint (pb_istream_from_buffer (bs @ [5]) (length (bs @ [5]))) = Some (True, 300, s') \<and>
    i_state s' = IBuf [5] \<and> bytes_left s' = length [5 :: byte]"
  by (rule varint_round_trip) (simp_all add: SIZE_MOD_def)

text \<open>
  The same for signed numbers through \<open>pb_encode_svarint\<close> and \<open>pb_decode_svarint\<close>, whose
  zig-zag map takes 0, -1, 1, -2, ... to 0, 1, 2, 3, ..., also at the ends of the range.
\<close>

theorem zigzag_round_trip:
  "unzigzag (zigzag v) = v \<and>
   uint (zigzag v) = (if 0 \<le> sint v then 2 * sint v else - 2 * sint v - 1)"
  using uint_zigzag [of v] by simp

text \<open>
  Tags: the tag the encoder writes for a field number below \<open>2 ^ 29\<close> is taken apart by
  \<open>pb_decode_tag\<close> into the same number and wire type, and is not taken for the end of the
  message.
\<close>

theorem tag_round_trip:
  assumes "0 < n" and "n < 2 ^ 29" and "wt < 8"
    and "10 \<le> bufsize" and "bufsize \<le> room" and "bufsize < SIZE_MOD"
  shows "\<exists>bs s'. pb_encode_tag (pb_ostream_from_buffer room bufsize) wt (of_nat n) =
      Some (True, (pb_ostream_from_buffer room bufsize)
        \<lparr>o_state := OBuf bs (room - length bs), bytes_written := length bs\<rparr>) \<and>
    pb_decode_tag (pb_istream_from_buffer (bs @ ys) (length (bs @ ys)))
      = Some (True, wt, of_nat n, False, s') \<and>
    i_state s' = IBuf ys \<and> bytes_left s' = length ys"
proof -
  let ?v = "push_bit 3 (ucast (of_nat n :: u32)) OR of_nat wt"
  have bs: "varint_bytes ?v = tag_bytes n wt" using assms by (intro tag_varint_bytes) auto
  then have l: "length (tag_bytes n wt) \<le> 10" using varint_bytes_length [of ?v] by simp
  have "pb_encode_tag (pb_ostream_from_buffer room bufsize) wt (of_nat n) =
      Some (True, (pb_ostream_from_buffer room bufsize)
        \<lparr>o_state := OBuf (tag_bytes n wt) (room - length (tag_bytes n wt)),
         bytes_written := length (tag_bytes n wt)\<rparr>)"
    using emitsD [OF obuf.emits_tag [of wt "of_nat n"] sink_ok_from_buffer [OF assms(5,6)]] l bs assms
    by (simp add: fits_def appended_def obuf_push_def pb_ostream_from_buffer_def)
  moreover have "delivers BufRead ibuf (pb_istream_from_buffer (tag_bytes n wt @ ys)
      (length (tag_bytes n wt @ ys))) (tag_bytes n wt @ ys) []"
    using delivers_from_buffer [of "tag_bytes n wt @ ys" _ "[]"] by simp
  note buf.decode_tag [OF this assms(1-3)]
  ultimately show ?thesis by (auto simp: delivers_buf_iff)
qed

theorem tag_round_trip_witness:
  "\<exists>bs s'. pb_encode_tag (pb_ostream_from_buffer 10 10) 2 (of_nat 536870911) =
      Some (True, (pb_ostream_from_buffer 10 10)
        \<lparr>o_state := OBuf bs (10 - length bs), bytes_written := length bs\<rparr>) \<and>
    pb_decode_tag (pb_istream_from_buffer (bs @ [7]) (length (bs @ [7])))
      = Some (True, 2, of_nat 536870911, False, s') \<and>
    i_state s' = IBuf [7] \<and> bytes_left s' = length [7 :: byte]"
  by (rule tag_round_trip) (simp_all add: SIZE_MOD_def)

text \<open>
  Skipping an unknown field: on every byte source \<open>pb_skip_field\<close> takes exactly the
  payload, whatever the wire type.
\<close>

theorem skip_field_exact:
  assumes "byte_source cb contents" and "payload wt p" and "delivers cb contents s (p @ ys) rest"
  shows "\<exists>s'. pb_skip_field s wt = Some (True, s') \<and> delivers cb contents s' ys rest \<and>
    i_errmsg s' = i_errmsg s"
  using byte_source.skip_field [OF assms] .

theorem skip_field_exact_witness:
  "\<exists>s'. pb_skip_field (pb_istream_from_buffer [2, 8, 1, 16] 4) PB_WT_STRING = Some (True, s') \<and>
    delivers BufRead ibuf s' [16] [] \<and>
    i_errmsg s' = i_errmsg (pb_istream_from_buffer [2, 8, 1, 16] 4)"
  using skip_field_exact [OF buf.byte_source_axioms payload_string [of "[8, 1]"],
      of "pb_istream_from_buffer [2, 8, 1, 16] 4" "[16]" "[]"]
  by (simp add: leb_small delivers_buf_iff pb_istream_from_buffer_def)

text \<open>
  A length-delimited field: the substream holds exactly the bytes the length announces,
  and closing it leaves the stream behind them, whatever the substream's reader has left
  unread.
\<close>

theorem substream_confined:
  assumes "byte_source cb contents" and "delivers cb contents s (prefixed xs @ ys) rest"
    and "length xs < 2 ^ 32"
  shows "\<exists>p sub. pb_make_string_substream s = Some (True, p, sub) \<and>
    delivers cb contents sub xs (ys @ rest) \<and>
    (\<forall>sub' zs. delivers cb contents sub' zs (ys @ rest) \<longrightarrow>
      (\<exists>s'. pb_close_string_substream p sub' = Some (True, s') \<and> delivers cb contents s' ys rest))"
proof -
  from byte_source.make_substream [OF assms(1) _ assms(3), of s ys rest] assms(2) obtain p sub
    where "pb_make_string_substream s = Some (True, p, sub)" "delivers cb contents sub xs (ys @ rest)"
    and "p = sub\<lparr>bytes_left := length ys\<rparr>"
    by (auto simp: prefixed_def)
  moreover from this have "i_callback p = cb" "bytes_left p = length ys"
    by (simp_all add: delivers_def)
  ultimately show ?thesis using byte_source.close_substream [OF assms(1)] by blast
qed

theorem substream_confined_witness:
  "\<exists>p sub. pb_make_string_substream (pb_istream_from_buffer [2, 8, 1, 16] 4) = Some (True, p, sub) \<and>
    delivers BufRead ibuf sub [8, 1] ([16] @ []) \<and>
    (\<forall>sub' zs. delivers BufRead ibuf sub' zs ([16] @ []) \<longrightarrow>
      (\<exists>s'. pb_close_string_substream p sub' = Some (True, s') \<and> delivers BufRead ibuf s' [16] []))"
  by (rule substream_confined [OF buf.byte_source_axioms])
     (simp_all add: delivers_buf_iff pb_istream_from_buffer_def prefixed_def leb_small)

text \<open>
  A message that is cut off in the middle of a tag is accepted as if it ended before the
  tag: when all the input that is left is one to five bytes of an unfinished varint,
  \<open>pb_decode_tag\<close> reports the end of the message, and the decoder of a message type without
  required fields returns true.
\<close>

theorem truncated_tag_accepted:
  assumes "byte_source cb contents" and "delivers cb contents s bs rest"
    and "bs \<noteq> []" and "length bs \<le> 5" and "\<forall>b \<in> set bs. bit b 7"
    and "required_count flds = 0" and "nfields flds = 0 \<longrightarrow> flds = []"
  shows "\<exists>s'. pb_decode_tag s = Some (False, 0, 0, True, s') \<and>
    pb_decode_noinit (Suc n) env s flds dest m = Some (True, s', m)"
proof -
  from byte_source.truncated_tag [OF assms(1,2,4,5)] obtain s'
    where t: "pb_decode_tag s = Some (False, 0, 0, True, s')" by blast
  have "bytes_left s \<noteq> 0" using assms(2,3) by (simp add: delivers_def)
  moreover have "count_required (iter_at flds dest 0) = Some 0"
    using count_required_eq [OF assms(7), of 0 dest] assms(6) by simp
  ultimately have "pb_decode_noinit (Suc n) env s flds dest m = Some (True, s', m)"
    using t by (simp add: pb_decode_noinit_def decode_body_def decode_iteration_def begin_at
        required_seen_def)
  with t show ?thesis by blast
qed

theorem truncated_tag_accepted_witness:
  "\<exists>s'. pb_decode_tag (pb_istream_from_buffer [0x88, 0xFF] 2) = Some (False, 0, 0, True, s') \<and>
    pb_decode_noinit (Suc 0) sample_dec_env (pb_istream_from_buffer [0x88, 0xFF] 2) [] 0 Map.empty
      = Some (True, s', Map.empty)"
  by (rule truncated_tag_accepted [OF buf.byte_source_axioms, of _ "[0x88, 0xFF]" "[]"])
     (simp_all add: delivers_buf_iff pb_istream_from_buffer_def required_count_def required_before_def
       bit_numeral_rec)


section \<open>Descriptors\<close>



text \<open>
  \<open>pb_field_iter_find\<close>, started at any field, ends after at most one round and finds a
  field with the tag exactly when there is one that is not an extension range.
\<close>

theorem iter_find_complete:
  assumes "i < nfields fs"
  shows "if \<exists>k < nfields fs. field_matches t (field_at fs k)
    then \<exists>k < nfields fs. field_matches t (field_at fs k) \<and>
      pb_field_iter_find (iter_at fs base i) t = Some (True, iter_at fs base k)
    else pb_field_iter_find (iter_at fs base i) t = Some (False, iter_at fs base i)"
  using assms by (rule iter_find_spec)

theorem iter_find_complete_witness:
  "if \<exists>k < nfields sample_fields. field_matches 2 (field_at sample_fields k)
    then \<exists>k < nfields sample_fields. field_matches 2 (field_at sample_fields k) \<and>
      pb_field_iter_find (iter_at sample_fields 100 3) 2 = Some (True, iter_at sample_fields 100 k)
    else pb_field_iter_find (iter_at sample_fields 100 3) 2 = Some (False, iter_at sample_fields 100 3)"
  by (rule iter_find_complete) (simp add: nfields_def sample_fields_eq)


section \<open>Base64\<close>

text \<open>
  C11. \<open>f_b64_ntop\<close> writes the base64 encoding and a terminating zero when both fit and returns
  the length; otherwise it returns -1.  It never writes past \<open>targsize\<close>.
\<close>

theorem base64_encode_total:
  assumes "targsize \<le> length t"
  shows "\<exists>v t'. f_b64_ntop src (length src) t targsize = Some (v, t') \<and> same_above targsize t t' \<and>
    (if length (b64_encode src) < targsize
     then v = to_int (length (b64_encode src)) \<and>
       t' = b64_encode src @ 0 # drop (Suc (length (b64_encode src))) t
     else v = - 1)"
  using ntop_total [OF assms, of src] ntop_encodes [OF _ assms, of src]
  by (cases "length (b64_encode src) < targsize") auto

theorem base64_encode_total_witness:
  "\<exists>v t'. f_b64_ntop [77, 97] (length [77, 97 :: byte]) (replicate 5 0) 5 = Some (v, t') \<and>
    same_above 5 (replicate 5 0) t' \<and>
    (if length (b64_encode [77, 97]) < 5
     then v = to_int (length (b64_encode [77, 97])) \<and>
       t' = b64_encode [77, 97] @ 0 # drop (Suc (length (b64_encode [77, 97]))) (replicate 5 0)
     else v = - 1)"
  by (rule base64_encode_total) simp





end
